(* ===== verification/Rust_Prelude.thy ===== *)
theory Rust_Prelude
  imports Main "HOL-Library.Word" "HOL-Library.Product_Lexorder"
begin

unbundle bit_operations_syntax

section \<open>Shared vocabulary: Rust integers, results, slices and little-endian bytes\<close>

text \<open>
  What every component of the development uses of the Rust language and its standard library.

  \<^item> Fixed-width integers are words. A \<open>usize\<close> is a natural number: in the code it is a length, an
    index or a budget, and the target is a 64-bit machine, so the operations on it that the code
    guards (\<open>checked_add\<close>, \<open>checked_mul\<close>) are guarded here at \<open>2 ^ 64\<close>.
  \<^item> \<open>result\<close> is Rust's \<open>Result\<close> with one more outcome: \<open>Panic\<close> stands for a
    panic of the thread (an index out of range, an arithmetic overflow under the checked semantics
    of a debug build, an \<open>unwrap\<close> of an error). A theorem that an operation returns \<open>Ok\<close> or
    \<open>Err\<close> therefore also says that it does not panic.
  \<^item> \<open>rbind\<close> is the \<open>?\<close> operator.
  \<^item> \<open>to_le\<close> and \<open>from_le\<close> are \<open>to_le_bytes\<close> and \<open>from_le_bytes\<close> at any width.
\<close>

type_synonym u8 = "8 word"
type_synonym u16 = "16 word"
type_synonym u32 = "32 word"
type_synonym u64 = "64 word"
type_synonym u128 = "128 word"
type_synonym usize = nat
type_synonym bytes = "u8 list"

text \<open>Facts that turn a successful \<open>?\<close> chain into its steps are collected in \<open>result_ok\<close>;
  lengths of encodings in \<open>enc_len\<close>.\<close>

named_theorems result_ok "inversion of a computation that returned Ok"
named_theorems enc_len "lengths of encoded values"

subsection \<open>Results\<close>

datatype ('a, 'e) result = Ok (the_ok: 'a) | Err 'e | Panic

fun rbind :: "('a, 'e) result \<Rightarrow> ('a \<Rightarrow> ('b, 'e) result) \<Rightarrow> ('b, 'e) result" where
  "rbind (Ok x) f = f x"
| "rbind (Err e) f = Err e"
| "rbind Panic f = Panic"

definition ok_or :: "'a option \<Rightarrow> 'e \<Rightarrow> ('a, 'e) result" where
  "ok_or m e = (case m of Some x \<Rightarrow> Ok x | None \<Rightarrow> Err e)"

fun is_ok :: "('a, 'e) result \<Rightarrow> bool" where
  "is_ok (Ok _) = True"
| "is_ok _ = False"

lemma rbind_eq_Ok [result_ok]: "rbind m f = Ok y \<longleftrightarrow> (\<exists>x. m = Ok x \<and> f x = Ok y)"
  by (cases m) auto

lemma rbind_Ok_right [simp]: "rbind m Ok = m"
  by (cases m) auto

lemma rbind_eq_Panic: "rbind m f = Panic \<longleftrightarrow> m = Panic \<or> (\<exists>x. m = Ok x \<and> f x = Panic)"
  by (cases m) auto

lemma rbind_split: "P (rbind m f) \<longleftrightarrow>
  (\<forall>x. m = Ok x \<longrightarrow> P (f x)) \<and> (\<forall>e. m = Err e \<longrightarrow> P (Err e)) \<and> (m = Panic \<longrightarrow> P Panic)"
  by (cases m) auto

lemma ok_or_simps [simp]: "ok_or (Some x) e = Ok x" "ok_or None e = Err e"
  by (simp_all add: ok_or_def)

lemma ok_or_eq_Ok [result_ok]: "ok_or m e = Ok x \<longleftrightarrow> m = Some x"
  by (cases m) auto

lemma ok_or_not_Panic [simp]: "ok_or m e \<noteq> Panic"
  by (cases m) auto

lemma rbind_not_Panic:
  assumes "m \<noteq> Panic" and "\<And>x. m = Ok x \<Longrightarrow> f x \<noteq> Panic"
  shows "rbind m f \<noteq> Panic"
  using assms by (cases m) auto

lemma if_Err_eq_Ok [result_ok]: "(if b then Err e else m) = Ok x \<longleftrightarrow> \<not> b \<and> m = Ok x"
  by simp

text \<open>A loop that pushes one fallible value per element and stops at the first failure.\<close>

fun map_result :: "('a \<Rightarrow> ('b, 'e) result) \<Rightarrow> 'a list \<Rightarrow> ('b list, 'e) result" where
  "map_result f [] = Ok []"
| "map_result f (x # xs) = rbind (f x) (\<lambda>y. rbind (map_result f xs) (\<lambda>ys. Ok (y # ys)))"

lemma map_result_Ok: "(\<And>x. x \<in> set xs \<Longrightarrow> f x = Ok (g x)) \<Longrightarrow> map_result f xs = Ok (map g xs)"
  by (induction xs) simp_all

lemma map_result_eq_Ok: "map_result f xs = Ok ys \<longleftrightarrow> list_all2 (\<lambda>x y. f x = Ok y) xs ys"
  by (induction xs arbitrary: ys) (auto simp: rbind_eq_Ok list_all2_Cons1)

lemma map_result_not_Panic: "(\<And>x. x \<in> set xs \<Longrightarrow> f x \<noteq> Panic) \<Longrightarrow> map_result f xs \<noteq> Panic"
  by (induction xs) (auto simp: rbind_eq_Panic)

text \<open>A loop that threads a state through fallible steps.\<close>

fun fold_result :: "('x \<Rightarrow> 's \<Rightarrow> ('s, 'e) result) \<Rightarrow> 'x list \<Rightarrow> 's \<Rightarrow> ('s, 'e) result" where
  "fold_result f [] s = Ok s"
| "fold_result f (x # xs) s = rbind (f x s) (fold_result f xs)"

lemma fold_result_invar:
  assumes "fold_result f xs s = Ok s'" "P s" "\<And>x s s'. x \<in> set xs \<Longrightarrow> P s \<Longrightarrow> f x s = Ok s' \<Longrightarrow> P s'"
  shows "P s'"
  using assms by (induction xs arbitrary: s) (auto simp: rbind_eq_Ok)

text \<open>Sequencing for a computation that may also not terminate (\<open>None\<close>).\<close>

fun pbind :: "('a, 'e) result option \<Rightarrow> ('a \<Rightarrow> ('b, 'e) result option) \<Rightarrow> ('b, 'e) result option" where
  "pbind None f = None"
| "pbind (Some (Ok x)) f = f x"
| "pbind (Some (Err e)) f = Some (Err e)"
| "pbind (Some Panic) f = Some Panic"

lemma pbind_Some_Ok:
  assumes "pbind m f = Some (Ok y)"
  obtains x where "m = Some (Ok x)" "f x = Some (Ok y)"
  using assms by (cases "(m, f)" rule: pbind.cases) auto

subsection \<open>Checked and saturating arithmetic\<close>

abbreviation usize_limit :: nat where
  "usize_limit \<equiv> 2 ^ 64"

definition checked_add_usize :: "usize \<Rightarrow> usize \<Rightarrow> usize option" where
  "checked_add_usize a b = (if a + b < usize_limit then Some (a + b) else None)"

definition checked_mul_usize :: "usize \<Rightarrow> usize \<Rightarrow> usize option" where
  "checked_mul_usize a b = (if a * b < usize_limit then Some (a * b) else None)"

definition checked_add :: "'w::len word \<Rightarrow> 'w word \<Rightarrow> 'w word option" where
  "checked_add a b = (if unat a + unat b < 2 ^ LENGTH('w) then Some (a + b) else None)"

text \<open>Integer addition with the overflow check of a debug build.\<close>

definition add_or_panic :: "'w::len word \<Rightarrow> 'w word \<Rightarrow> ('w word, 'e) result" where
  "add_or_panic a b = (case checked_add a b of Some c \<Rightarrow> Ok c | None \<Rightarrow> Panic)"

definition sub_or_panic :: "'w::len word \<Rightarrow> 'w word \<Rightarrow> ('w word, 'e) result" where
  "sub_or_panic a b = (if b \<le> a then Ok (a - b) else Panic)"

text \<open>\<open>u32::try_from\<close> of a \<open>usize\<close>, and the truncating cast \<open>as\<close>.\<close>

definition try_from_usize :: "usize \<Rightarrow> 'w::len word option" where
  "try_from_usize n = (if n < 2 ^ LENGTH('w) then Some (of_nat n) else None)"

definition div_ceil :: "nat \<Rightarrow> nat \<Rightarrow> nat" where
  "div_ceil a b = (a + b - 1) div b"

lemma checked_add_Some: "checked_add a b = Some c \<Longrightarrow> unat c = unat a + unat b"
  by (auto simp: checked_add_def unat_word_ariths split: if_splits)

lemma checked_add_None: "checked_add (a :: 'w::len word) b = None \<longleftrightarrow> 2 ^ LENGTH('w) \<le> unat a + unat b"
  by (auto simp: checked_add_def)

lemma try_from_usize_Some:
  "try_from_usize n = Some (w :: 'w::len word) \<longleftrightarrow> n < 2 ^ LENGTH('w) \<and> w = of_nat n"
  by (auto simp: try_from_usize_def)

lemma unat_of_nat_small [simp]: "n < 2 ^ LENGTH('w) \<Longrightarrow> unat (of_nat n :: 'w::len word) = n"
  by (simp add: unat_of_nat take_bit_nat_eq_self)

lemma unat_bounds [simp]:
  "unat (b :: u8) < 256" "unat (h :: u16) < 65536" "unat (w :: u32) < 4294967296"
  "unat (l :: u64) < 18446744073709551616"
  using unsigned_less [of b, where 'a = nat] unsigned_less [of h, where 'a = nat] unsigned_less [of w, where 'a = nat]
    unsigned_less [of l, where 'a = nat] by simp_all

lemma not_max_u64: "x \<noteq> - 1 \<Longrightarrow> unat (x :: u64) + 1 < 18446744073709551616"
proof -
  assume "x \<noteq> - 1"
  then have "unat x \<noteq> unat (- 1 :: u64)" by (simp add: word_unat_eq_iff)
  then have "unat x \<noteq> 18446744073709551615" by (simp add: unsigned_minus_1_eq_mask mask_eq_exp_minus_1)
  moreover have "unat x < 18446744073709551616" using unsigned_less [of x, where ?'a = nat] by simp
  ultimately show ?thesis by presburger
qed

lemma inj_on_unat [simp]: "inj_on unat (A :: 'w::len word set)"
  by (simp add: inj_on_def word_unat_eq_iff)

lemma checked_add_usize_Some:
  "checked_add_usize a b = Some c \<longleftrightarrow> a + b < usize_limit \<and> c = a + b"
  by (auto simp: checked_add_usize_def)

lemma checked_mul_usize_Some:
  "checked_mul_usize a b = Some c \<longleftrightarrow> a * b < usize_limit \<and> c = a * b"
  by (auto simp: checked_mul_usize_def)

subsection \<open>Slices\<close>

text \<open>\<open>&xs[a..b]\<close> panics out of range, \<open>xs.get(a..b)\<close> gives \<open>None\<close>.\<close>

definition slice :: "'a list \<Rightarrow> nat \<Rightarrow> nat \<Rightarrow> 'a list" where
  "slice xs a b = take (b - a) (drop a xs)"

definition get_slice :: "'a list \<Rightarrow> nat \<Rightarrow> nat \<Rightarrow> 'a list option" where
  "get_slice xs a b = (if a \<le> b \<and> b \<le> length xs then Some (slice xs a b) else None)"

definition index :: "'a list \<Rightarrow> nat \<Rightarrow> ('a, 'e) result" where
  "index xs i = (if i < length xs then Ok (xs ! i) else Panic)"

lemma length_slice [simp]: "a \<le> b \<Longrightarrow> b \<le> length xs \<Longrightarrow> length (slice xs a b) = b - a"
  by (simp add: slice_def)

lemma slice_append_right: "length xs \<le> a \<Longrightarrow> slice (xs @ ys) a b = slice ys (a - length xs) (b - length xs)"
  by (simp add: slice_def)

lemma slice_append_left: "b \<le> length xs \<Longrightarrow> slice (xs @ ys) a b = slice xs a b"
  by (cases "a \<le> b") (simp_all add: slice_def)

lemma slice_all [simp]: "slice xs 0 (length xs) = xs"
  by (simp add: slice_def)

lemma slice_prefix: "length xs = n \<Longrightarrow> slice (xs @ ys) 0 n = xs"
  by (simp add: slice_def)

lemma slice_mid: "length xs = a \<Longrightarrow> b = a + length ys \<Longrightarrow> slice (xs @ ys @ zs) a b = ys"
  by (simp add: slice_def)

lemma drop_slice: "a \<le> b \<Longrightarrow> drop a xs = slice xs a b @ drop b xs"
  by (metis slice_def append_take_drop_id drop_drop le_add_diff_inverse2)

lemma slice_split: "a \<le> b \<Longrightarrow> b \<le> c \<Longrightarrow> slice xs a c = slice xs a b @ slice xs b c"
proof -
  assume "a \<le> b" "b \<le> c"
  then have "take (c - a) (drop a xs) = take (b - a) (drop a xs) @ take (c - b) (drop (b - a) (drop a xs))"
    by (metis le_add_diff_inverse2 Nat.add_diff_assoc2 diff_add_inverse2 take_add add.commute)
  then show ?thesis using \<open>a \<le> b\<close> by (simp add: slice_def)
qed

lemma take_slice: "a \<le> b \<Longrightarrow> take b xs = take a xs @ slice xs a b"
  by (metis slice_def le_add_diff_inverse take_add)

lemma slice_take: "b \<le> n \<Longrightarrow> slice (take n xs) a b = slice xs a b"
  by (simp add: slice_def drop_take min_def)

text \<open>\<open>sort_unstable\<close> followed by \<open>dedup\<close>.\<close>

definition sort_dedup :: "'a::linorder list \<Rightarrow> 'a list" where
  "sort_dedup xs = remdups_adj (sort xs)"

lemma sort_key_sorted: "sorted (map f xs) \<Longrightarrow> sort_key f xs = xs"
  by (induction xs) (simp_all add: insort_is_Cons)

lemma set_sort_dedup [simp]: "set (sort_dedup xs) = set xs"
  by (simp add: sort_dedup_def)

lemma sorted_remdups_adj_distinct: "sorted xs \<Longrightarrow> distinct (remdups_adj xs)"
proof (induction xs rule: remdups_adj.induct)
  case (3 x y xs)
  then have "sorted (y # xs)" "\<And>z. z \<in> set (y # xs) \<Longrightarrow> x \<le> z" by auto
  moreover have "x \<noteq> y \<Longrightarrow> x \<notin> set (y # xs)" using 3(3) by auto
  ultimately show ?case using 3(1,2) by (cases "x = y") simp_all
qed simp_all

lemma distinct_sort_dedup [simp]: "distinct (sort_dedup xs)"
  by (simp add: sort_dedup_def sorted_remdups_adj_distinct)

lemma sorted_sort_dedup [simp]: "sorted_wrt (<) (sort_dedup xs)"
  using distinct_sort_dedup [of xs] by (simp add: sort_dedup_def strict_sorted_iff sorted_remdups_adj)

text \<open>\<open>Vec::swap_remove\<close>, \<open>Vec::pop\<close>; and \<open>try_reserve_exact\<close>, whose outcome is the
  allocator's: \<open>alloc n\<close> says whether a request for \<open>n\<close> elements succeeds.\<close>

definition swap_remove :: "'a list \<Rightarrow> nat \<Rightarrow> ('a \<times> 'a list, 'e) result" where
  "swap_remove xs i =
     (if i < length xs then Ok (xs ! i, butlast (xs[i := last xs])) else Panic)"

definition vec_pop :: "'a list \<Rightarrow> ('a \<times> 'a list) option" where
  "vec_pop xs = (if xs = [] then None else Some (last xs, butlast xs))"

definition try_reserve :: "(usize \<Rightarrow> bool) \<Rightarrow> usize \<Rightarrow> 'e \<Rightarrow> (unit, 'e) result" where
  "try_reserve alloc n e = (if alloc n then Ok () else Err e)"

lemma try_reserve_Ok [result_ok]: "try_reserve alloc n e = Ok u \<longleftrightarrow> alloc n"
  by (simp add: try_reserve_def)

lemma vec_pop_Some: "vec_pop xs = Some (x, ys) \<longleftrightarrow> xs = ys @ [x]"
  by (cases xs rule: rev_cases) (auto simp: vec_pop_def)

lemma vec_pop_Nil [simp]: "vec_pop [] = None"
  by (simp add: vec_pop_def)

lemma vec_pop_None [simp]: "vec_pop xs = None \<longleftrightarrow> xs = []"
  by (simp add: vec_pop_def)

lemma index_Ok [result_ok]: "index xs i = Ok x \<longleftrightarrow> i < length xs \<and> x = xs ! i"
  by (auto simp: index_def)

subsection \<open>Little-endian bytes\<close>

fun to_le :: "nat \<Rightarrow> 'w::len word \<Rightarrow> bytes" where
  "to_le 0 w = []"
| "to_le (Suc n) w = ucast w # to_le n (drop_bit 8 w)"

fun from_le :: "bytes \<Rightarrow> 'w::len word" where
  "from_le [] = 0"
| "from_le (b # bs) = ucast b OR push_bit 8 (from_le bs)"

lemma length_to_le [simp, enc_len]: "length (to_le n w) = n"
  by (induction n arbitrary: w) auto

lemma from_le_to_le_take: "from_le (to_le n w) = take_bit (8 * n) (w :: 'w::len word)"
proof (induction n arbitrary: w)
  case 0
  show ?case by simp
next
  case (Suc n)
  show ?case
    by (rule bit_word_eqI) (auto simp: Suc.IH bit_simps)
qed

lemma from_le_to_le [simp]: "8 * n = LENGTH('w) \<Longrightarrow> from_le (to_le n w) = (w :: 'w::len word)"
  by (simp add: from_le_to_le_take take_bit_word_eq_self)

lemma to_le_cong_bits:
  "(\<And>i. i < 8 * n \<Longrightarrow> bit v i = bit w i) \<Longrightarrow> to_le n v = to_le n (w :: 'w::len word)"
proof (induction n arbitrary: v w)
  case (Suc n)
  then have "to_le n (drop_bit 8 v) = to_le n (drop_bit 8 w)"
    by (intro Suc.IH) (simp add: bit_simps)
  moreover have "ucast v = (ucast w :: 8 word)"
    using Suc.prems by (intro bit_word_eqI) (auto simp: bit_simps)
  ultimately show ?case by simp
qed simp

lemma to_le_from_le_le:
  "length bs * 8 \<le> LENGTH('w) \<Longrightarrow> to_le (length bs) (from_le bs :: 'w::len word) = bs"
proof (induction bs)
  case (Cons b bs)
  let ?x = "ucast b OR push_bit 8 (from_le bs) :: 'w word"
  have "ucast ?x = b"
    using Cons.prems by (intro bit_word_eqI) (auto simp: bit_simps)
  moreover have "to_le (length bs) (drop_bit 8 ?x) = to_le (length bs) (from_le bs :: 'w word)"
    using Cons.prems by (intro to_le_cong_bits) (auto simp: bit_simps dest: bit_imp_le_length)
  ultimately show ?case
    using Cons by simp
qed simp

lemma to_le_from_le:
  "length bs * 8 = LENGTH('w) \<Longrightarrow> to_le (length bs) (from_le bs :: 'w::len word) = bs"
  by (simp add: to_le_from_le_le)

lemma from_le_eq_iff:
  "8 * length bs = LENGTH('w) \<Longrightarrow> from_le bs = (w :: 'w::len word) \<longleftrightarrow> bs = to_le (length bs) w"
  using to_le_from_le [of bs, where 'w = 'w] from_le_to_le [of "length bs" w] by (metis mult.commute)

subsection \<open>Reading bytes at a cursor\<close>

text \<open>The decoders read fixed-size values at a cursor that only moves forward and fail with a given error
  when the input ends. The cursor is represented by the bytes from it on. A reader accepts exactly the
  inputs that start with the encoding of the value it returns.\<close>

definition read_fixed :: "nat \<Rightarrow> 'e \<Rightarrow> bytes \<Rightarrow> (bytes \<times> bytes, 'e) result" where
  "read_fixed n e rest = (if n \<le> length rest then Ok (take n rest, drop n rest) else Err e)"

definition read_u8 :: "'e \<Rightarrow> bytes \<Rightarrow> (u8 \<times> bytes, 'e) result" where
  "read_u8 e rest = rbind (read_fixed 1 e rest) (\<lambda>(v, r). Ok (from_le v, r))"

definition read_u16 :: "'e \<Rightarrow> bytes \<Rightarrow> (u16 \<times> bytes, 'e) result" where
  "read_u16 e rest = rbind (read_fixed 2 e rest) (\<lambda>(v, r). Ok (from_le v, r))"

definition read_u32 :: "'e \<Rightarrow> bytes \<Rightarrow> (u32 \<times> bytes, 'e) result" where
  "read_u32 e rest = rbind (read_fixed 4 e rest) (\<lambda>(v, r). Ok (from_le v, r))"

definition read_u64 :: "'e \<Rightarrow> bytes \<Rightarrow> (u64 \<times> bytes, 'e) result" where
  "read_u64 e rest = rbind (read_fixed 8 e rest) (\<lambda>(v, r). Ok (from_le v, r))"

lemma read_fixed_Ok [result_ok]: "read_fixed n e rest = Ok (v, r) \<longleftrightarrow> rest = v @ r \<and> length v = n"
  by (auto simp: read_fixed_def)

lemma read_word_Ok:
  assumes "8 * n = LENGTH('w::len)"
  shows "rbind (read_fixed n e rest) (\<lambda>(v, r). Ok (from_le v :: 'w word, r)) = Ok (w, r) \<longleftrightarrow> rest = to_le n w @ r"
    (is "?lhs \<longleftrightarrow> ?rhs")
proof
  assume ?lhs
  then obtain v where "rest = v @ r" "length v = n" "w = from_le v" by (auto simp: rbind_eq_Ok read_fixed_Ok)
  then show ?rhs using assms to_le_from_le [of v, where 'w = 'w] by simp
next
  assume ?rhs
  then show ?lhs using assms by (simp add: read_fixed_def)
qed

lemma read_Ok [result_ok]:
  "read_u8 e rest = Ok (b, r) \<longleftrightarrow> rest = to_le 1 b @ r"
  "read_u16 e rest = Ok (h, r) \<longleftrightarrow> rest = to_le 2 h @ r"
  "read_u32 e rest = Ok (w, r) \<longleftrightarrow> rest = to_le 4 w @ r"
  "read_u64 e rest = Ok (l, r) \<longleftrightarrow> rest = to_le 8 l @ r"
  unfolding read_u8_def read_u16_def read_u32_def read_u64_def by (simp_all add: read_word_Ok)

lemma read_append [simp]:
  "read_u8 e (to_le 1 b @ r) = Ok (b, r)"
  "read_u16 e (to_le 2 h @ r) = Ok (h, r)"
  "read_u32 e (to_le 4 w @ r) = Ok (w, r)"
  "read_u64 e (to_le 8 l @ r) = Ok (l, r)"
  by (simp_all add: read_Ok)

lemma read_not_Panic [simp]:
  "read_fixed n e rest \<noteq> Panic" "read_u8 e rest \<noteq> Panic" "read_u16 e rest \<noteq> Panic"
  "read_u32 e rest \<noteq> Panic" "read_u64 e rest \<noteq> Panic"
  by (auto simp: read_fixed_def read_u8_def read_u16_def read_u32_def read_u64_def)

text \<open>Decoders that check the length of the input once read by indexing, \<open>bytes[o..o + n]\<close>: a read
  past the end is a panic.\<close>

definition slice_le :: "nat \<Rightarrow> bytes \<Rightarrow> ('w::len word \<times> bytes, 'e) result" where
  "slice_le n rest = (if n \<le> length rest then Ok (from_le (take n rest), drop n rest) else Panic)"

definition slice_bytes :: "nat \<Rightarrow> bytes \<Rightarrow> (bytes \<times> bytes, 'e) result" where
  "slice_bytes n rest = (if n \<le> length rest then Ok (take n rest, drop n rest) else Panic)"

lemma slice_le_append [simp]:
  "slice_le 1 (to_le 1 b @ r) = Ok (b :: u8, r)" "slice_le 2 (to_le 2 h @ r) = Ok (h :: u16, r)"
  "slice_le 4 (to_le 4 w @ r) = Ok (w :: u32, r)" "slice_le 8 (to_le 8 l @ r) = Ok (l :: u64, r)"
  by (simp_all add: slice_le_def)

lemma slice_bytes_append [simp]: "length v = n \<Longrightarrow> slice_bytes n (v @ r) = Ok (v, r)"
  by (simp add: slice_bytes_def)

lemma slice_le_total: "n \<le> length rest \<Longrightarrow> \<exists>w. slice_le n rest = Ok (w, drop n rest)"
  by (simp add: slice_le_def)

lemma slice_le_not_Err [simp]: "slice_le n rest \<noteq> Err e" "slice_bytes n rest \<noteq> Err e"
  by (simp_all add: slice_le_def slice_bytes_def)

subsection \<open>Running a sequence of operations\<close>

text \<open>A stateful component is driven by a step function that returns an outcome and the next state;
  \<open>run_ops\<close> runs a list of operations and collects the outcomes.\<close>

fun run_ops :: "('s \<Rightarrow> 'o \<Rightarrow> 'r \<times> 's) \<Rightarrow> 's \<Rightarrow> 'o list \<Rightarrow> 'r list \<times> 's" where
  "run_ops step s [] = ([], s)"
| "run_ops step s (x # xs) =
     (let (r, s1) = step s x; (rs, s2) = run_ops step s1 xs in (r # rs, s2))"

lemma run_ops_Cons [simp]:
  "fst (run_ops step s (x # xs)) = fst (step s x) # fst (run_ops step (snd (step s x)) xs)"
  "snd (run_ops step s (x # xs)) = snd (run_ops step (snd (step s x)) xs)"
  by (simp_all add: split_beta Let_def)

declare run_ops.simps(2) [simp del]

lemma run_ops_invar:
  assumes "\<And>s x. P s \<Longrightarrow> P (snd (step s x))" and "P s"
  shows "P (snd (run_ops step s xs))"
  using assms(2) by (induction xs arbitrary: s) (simp_all add: assms(1))

lemma run_ops_append:
  "snd (run_ops step s (xs @ ys)) = snd (run_ops step (snd (run_ops step s xs)) ys)"
  by (induction xs arbitrary: s) simp_all

end
