(* ===== verification/Core_Types.thy ===== *)
theory Core_Types
  imports Rust_Prelude
begin

section \<open>Identities and clock domains (\<open>temnion-core\<close>)\<close>

text \<open>
  The identities and times every other crate uses. A newtype over an integer is a type synonym; the
  structs are records with the fields in declaration order, so that the derived \<open>Ord\<close> of
  \<open>EntityId\<close> and \<open>EventId\<close> is the lexicographic order of the fields, instantiated below as
  \<open>linorder\<close>. A \<open>DatabaseId\<close> is a byte list of length 16 (\<open>wf_database_id\<close>).
\<close>

type_synonym shard_id = u32
type_synonym source_id = u32
type_synonym source_epoch = u64
type_synonym clock_id = u32
type_synonym schema_id = u32
type_synonym field_id = u16
type_synonym branch_id = u64
type_synonym database_id = bytes

definition wf_database_id :: "database_id \<Rightarrow> bool" where
  "wf_database_id d \<longleftrightarrow> length d = 16"

record entity_id =
  ent_shard :: shard_id
  ent_slot :: u32
  ent_generation :: u32

record event_id =
  eid_source :: source_id
  eid_epoch :: source_epoch
  eid_sequence :: u64

record timestamp =
  ts_clock :: clock_id
  ts_ticks :: u64

record event_times =
  et_valid :: timestamp
  et_observed :: "timestamp option"
  et_known :: timestamp

datatype time_axis = Valid | Observed | Known

fun times_on :: "event_times \<Rightarrow> time_axis \<Rightarrow> timestamp option" where
  "times_on t Valid = Some (et_valid t)"
| "times_on t Observed = et_observed t"
| "times_on t Known = Some (et_known t)"

record time_range =
  tr_clock :: clock_id
  tr_start :: u64
  tr_end :: u64

datatype invalid_time_range = InvalidTimeRange u64 u64

definition time_range_new :: "clock_id \<Rightarrow> u64 \<Rightarrow> u64 \<Rightarrow> (time_range, invalid_time_range) result" where
  "time_range_new clock start stop =
     (if start > stop then Err (InvalidTimeRange start stop)
      else Ok \<lparr>tr_clock = clock, tr_start = start, tr_end = stop\<rparr>)"

definition range_contains :: "time_range \<Rightarrow> timestamp \<Rightarrow> bool" where
  "range_contains r t \<longleftrightarrow>
     ts_clock t = tr_clock r \<and> ts_ticks t \<ge> tr_start r \<and> ts_ticks t < tr_end r"

subsection \<open>The derived orders\<close>

instantiation entity_id_ext :: (linorder) linorder
begin

definition less_eq_entity_id_ext :: "'a entity_id_scheme \<Rightarrow> 'a entity_id_scheme \<Rightarrow> bool" where
  "less_eq_entity_id_ext x y \<longleftrightarrow>
     (ent_shard x, ent_slot x, ent_generation x, entity_id.more x)
       \<le> (ent_shard y, ent_slot y, ent_generation y, entity_id.more y)"

definition less_entity_id_ext :: "'a entity_id_scheme \<Rightarrow> 'a entity_id_scheme \<Rightarrow> bool" where
  "less_entity_id_ext x y \<longleftrightarrow>
     (ent_shard x, ent_slot x, ent_generation x, entity_id.more x)
       < (ent_shard y, ent_slot y, ent_generation y, entity_id.more y)"

instance
  by standard (auto simp: less_eq_entity_id_ext_def less_entity_id_ext_def entity_id.equality)

end

instantiation event_id_ext :: (linorder) linorder
begin

definition less_eq_event_id_ext :: "'a event_id_scheme \<Rightarrow> 'a event_id_scheme \<Rightarrow> bool" where
  "less_eq_event_id_ext x y \<longleftrightarrow>
     (eid_source x, eid_epoch x, eid_sequence x, event_id.more x)
       \<le> (eid_source y, eid_epoch y, eid_sequence y, event_id.more y)"

definition less_event_id_ext :: "'a event_id_scheme \<Rightarrow> 'a event_id_scheme \<Rightarrow> bool" where
  "less_event_id_ext x y \<longleftrightarrow>
     (eid_source x, eid_epoch x, eid_sequence x, event_id.more x)
       < (eid_source y, eid_epoch y, eid_sequence y, event_id.more y)"

instance
  by standard (auto simp: less_eq_event_id_ext_def less_event_id_ext_def event_id.equality)

end

subsection \<open>Ranges\<close>

text \<open>A successfully built range is well formed, half open and confined to its clock; a reversed
  range is the only one refused.\<close>

lemma time_range_new_Ok [result_ok]:
  "time_range_new c s e = Ok r \<longleftrightarrow> s \<le> e \<and> r = \<lparr>tr_clock = c, tr_start = s, tr_end = e\<rparr>"
  by (auto simp: time_range_new_def)

lemma range_contains_new:
  assumes "time_range_new c s e = Ok r"
  shows "range_contains r t \<longleftrightarrow> ts_clock t = c \<and> ts_ticks t \<in> {s..<e}"
  using assms by (auto simp: result_ok range_contains_def)

end
