(* ===== verification/State_Slab.thy ===== *)
theory State_Slab
  imports Core_Types
begin

section \<open>Live state: the generational slab (\<open>temnion-state\<close>)\<close>

text \<open>
  \<open>StateSlab<T>\<close> keeps its live values contiguous in \<open>values\<close>; \<open>dense_slots\<close> names the slot
  of each value and \<open>slots\<close> maps a slot back to its dense index and current generation. Removal
  swaps the last dense value into the hole, bumps the slot's generation and frees the slot, unless
  the generation is exhausted, when the slot is retired.

  The invariant is \<open>slab_inv\<close>. The abstract view \<open>slab_abs\<close> is a partial map from entity
  handles to values; \<open>ref_step\<close> is the specification on that map, and the locale
  \<open>handle_store\<close> is the contract between the two, with the simulation of whole operation sequences
  proved once inside it.
\<close>

definition VACANT :: u32 where
  "VACANT = - 1"

record slot =
  slot_dense_index :: u32
  slot_generation :: u32

datatype state_error = InvalidCapacity | AllocationFailed | CapacityExceeded | InvalidEntity entity_id

record 'v slab =
  slab_shard :: shard_id
  slab_capacity :: usize
  slab_slots :: "slot list"
  slab_values :: "'v list"
  slab_dense_slots :: "u32 list"
  slab_free_slots :: "u32 list"

definition slab_new :: "(usize \<Rightarrow> bool) \<Rightarrow> shard_id \<Rightarrow> usize \<Rightarrow> ('v slab, state_error) result" where
  "slab_new alloc shard capacity =
     (if capacity > unat (- 1 :: u32) then Err InvalidCapacity
      else rbind (try_reserve alloc capacity AllocationFailed) (\<lambda>_.
           rbind (try_reserve alloc capacity AllocationFailed) (\<lambda>_.
           rbind (try_reserve alloc capacity AllocationFailed) (\<lambda>_.
           rbind (try_reserve alloc capacity AllocationFailed) (\<lambda>_.
             Ok \<lparr>slab_shard = shard, slab_capacity = capacity, slab_slots = [], slab_values = [],
                 slab_dense_slots = [], slab_free_slots = []\<rparr>)))))"

definition slab_len :: "'v slab \<Rightarrow> usize" where
  "slab_len s = length (slab_values s)"

definition slab_insert :: "'v slab \<Rightarrow> 'v \<Rightarrow> (entity_id \<times> 'v slab, state_error) result" where
  "slab_insert s v =
     rbind
       (case vec_pop (slab_free_slots s) of
          Some (i, rest) \<Rightarrow> Ok (i, s\<lparr>slab_free_slots := rest\<rparr>)
        | None \<Rightarrow>
            if length (slab_slots s) = slab_capacity s then Err CapacityExceeded
            else Ok (of_nat (length (slab_slots s)),
                     s\<lparr>slab_slots := slab_slots s @ [\<lparr>slot_dense_index = VACANT, slot_generation = 0\<rparr>]\<rparr>))
       (\<lambda>(i, s1).
          rbind (index (slab_slots s1) (unat i)) (\<lambda>sl.
            Ok (\<lparr>ent_shard = slab_shard s1, ent_slot = i, ent_generation = slot_generation sl\<rparr>,
                s1\<lparr>slab_slots := (slab_slots s1)[unat i :=
                      sl\<lparr>slot_dense_index := of_nat (length (slab_values s1))\<rparr>],
                   slab_values := slab_values s1 @ [v],
                   slab_dense_slots := slab_dense_slots s1 @ [i]\<rparr>)))"

definition slab_dense_index :: "'v slab \<Rightarrow> entity_id \<Rightarrow> (usize, state_error) result" where
  "slab_dense_index s h =
     (if unat (ent_slot h) < length (slab_slots s)
         \<and> ent_shard h = slab_shard s
         \<and> ent_generation h = slot_generation (slab_slots s ! unat (ent_slot h))
         \<and> slot_dense_index (slab_slots s ! unat (ent_slot h)) \<noteq> VACANT
      then Ok (unat (slot_dense_index (slab_slots s ! unat (ent_slot h))))
      else Err (InvalidEntity h))"

definition slab_get :: "'v slab \<Rightarrow> entity_id \<Rightarrow> ('v, state_error) result" where
  "slab_get s h = rbind (slab_dense_index s h) (\<lambda>i. index (slab_values s) i)"

text \<open>\<open>get_mut\<close> followed by an assignment through the returned reference.\<close>

definition slab_set :: "'v slab \<Rightarrow> entity_id \<Rightarrow> 'v \<Rightarrow> ('v slab, state_error) result" where
  "slab_set s h v =
     rbind (slab_dense_index s h) (\<lambda>i.
     rbind (index (slab_values s) i) (\<lambda>_. Ok (s\<lparr>slab_values := (slab_values s)[i := v]\<rparr>)))"

definition slab_remove :: "'v slab \<Rightarrow> entity_id \<Rightarrow> ('v \<times> 'v slab, state_error) result" where
  "slab_remove s h =
     rbind (slab_dense_index s h) (\<lambda>d.
     rbind (swap_remove (slab_values s) d) (\<lambda>(value, values).
     rbind (swap_remove (slab_dense_slots s) d) (\<lambda>(_, dense).
     rbind (if d < length dense
            then rbind (index (slab_slots s) (unat (dense ! d))) (\<lambda>sl.
                   Ok ((slab_slots s)[unat (dense ! d) := sl\<lparr>slot_dense_index := of_nat d\<rparr>]))
            else Ok (slab_slots s)) (\<lambda>slots1.
     rbind (index slots1 (unat (ent_slot h))) (\<lambda>sl.
       (let sl1 = sl\<lparr>slot_dense_index := VACANT\<rparr>;
            s1 = s\<lparr>slab_values := values, slab_dense_slots := dense\<rparr>
        in case checked_add (slot_generation sl1) 1 of
             Some g \<Rightarrow>
               Ok (value, s1\<lparr>slab_slots := slots1[unat (ent_slot h) := sl1\<lparr>slot_generation := g\<rparr>],
                             slab_free_slots := slab_free_slots s @ [ent_slot h]\<rparr>)
           | None \<Rightarrow>
               Ok (value, s1\<lparr>slab_slots := slots1[unat (ent_slot h) := sl1]\<rparr>)))))))"

definition slab_iter :: "'v slab \<Rightarrow> (entity_id \<times> 'v) list" where
  "slab_iter s = map (\<lambda>(i, v).
     (\<lparr>ent_shard = slab_shard s, ent_slot = i,
       ent_generation = slot_generation (slab_slots s ! unat i)\<rparr>, v))
     (zip (slab_dense_slots s) (slab_values s))"

subsection \<open>Invariant and abstract view\<close>

definition slab_inv :: "'v slab \<Rightarrow> bool" where
  "slab_inv s \<longleftrightarrow>
     length (slab_slots s) \<le> slab_capacity s \<and> slab_capacity s \<le> unat VACANT
   \<and> length (slab_values s) = length (slab_dense_slots s)
   \<and> (\<forall>i < length (slab_dense_slots s).
        unat (slab_dense_slots s ! i) < length (slab_slots s)
      \<and> unat (slot_dense_index (slab_slots s ! unat (slab_dense_slots s ! i))) = i)
   \<and> (\<forall>j < length (slab_slots s).
        slot_dense_index (slab_slots s ! j) \<noteq> VACANT \<longrightarrow>
          unat (slot_dense_index (slab_slots s ! j)) < length (slab_dense_slots s)
        \<and> unat (slab_dense_slots s ! unat (slot_dense_index (slab_slots s ! j))) = j)
   \<and> distinct (slab_free_slots s)
   \<and> (\<forall>f \<in> set (slab_free_slots s).
        unat f < length (slab_slots s) \<and> slot_dense_index (slab_slots s ! unat f) = VACANT)
   \<and> (\<forall>j < length (slab_slots s).
        slot_dense_index (slab_slots s ! j) = VACANT \<longrightarrow>
          j \<in> unat ` set (slab_free_slots s) \<or> slot_generation (slab_slots s ! j) = - 1)"

text \<open>A handle is live when its slot exists, is occupied and carries its shard and generation.\<close>

definition slab_live :: "'v slab \<Rightarrow> entity_id \<Rightarrow> bool" where
  "slab_live s h \<longleftrightarrow>
     unat (ent_slot h) < length (slab_slots s) \<and> ent_shard h = slab_shard s
   \<and> ent_generation h = slot_generation (slab_slots s ! unat (ent_slot h))
   \<and> slot_dense_index (slab_slots s ! unat (ent_slot h)) \<noteq> VACANT"

text \<open>The clauses of the invariant, for use one at a time.\<close>

lemma slab_invD:
  assumes "slab_inv s"
  shows slab_inv_cap: "length (slab_slots s) \<le> slab_capacity s" "slab_capacity s \<le> unat VACANT"
    and slab_inv_len: "length (slab_values s) = length (slab_dense_slots s)"
    and slab_inv_dense: "i < length (slab_dense_slots s) \<Longrightarrow>
        unat (slab_dense_slots s ! i) < length (slab_slots s)
      \<and> unat (slot_dense_index (slab_slots s ! unat (slab_dense_slots s ! i))) = i"
    and slab_inv_slot: "j < length (slab_slots s) \<Longrightarrow> slot_dense_index (slab_slots s ! j) \<noteq> VACANT \<Longrightarrow>
          unat (slot_dense_index (slab_slots s ! j)) < length (slab_dense_slots s)
        \<and> unat (slab_dense_slots s ! unat (slot_dense_index (slab_slots s ! j))) = j"
    and slab_inv_distinct: "distinct (slab_free_slots s)"
    and slab_inv_free: "f \<in> set (slab_free_slots s) \<Longrightarrow>
        unat f < length (slab_slots s) \<and> slot_dense_index (slab_slots s ! unat f) = VACANT"
    and slab_inv_vacant: "j < length (slab_slots s) \<Longrightarrow> slot_dense_index (slab_slots s ! j) = VACANT \<Longrightarrow>
          j \<in> unat ` set (slab_free_slots s) \<or> slot_generation (slab_slots s ! j) = - 1"
  using assms unfolding slab_inv_def by blast+

lemma slab_invI:
  assumes "length (slab_slots s) \<le> slab_capacity s" "slab_capacity s \<le> unat VACANT"
    and "length (slab_values s) = length (slab_dense_slots s)"
    and "\<And>i. i < length (slab_dense_slots s) \<Longrightarrow>
        unat (slab_dense_slots s ! i) < length (slab_slots s)
      \<and> unat (slot_dense_index (slab_slots s ! unat (slab_dense_slots s ! i))) = i"
    and "\<And>j. j < length (slab_slots s) \<Longrightarrow> slot_dense_index (slab_slots s ! j) \<noteq> VACANT \<Longrightarrow>
          unat (slot_dense_index (slab_slots s ! j)) < length (slab_dense_slots s)
        \<and> unat (slab_dense_slots s ! unat (slot_dense_index (slab_slots s ! j))) = j"
    and "distinct (slab_free_slots s)"
    and "\<And>f. f \<in> set (slab_free_slots s) \<Longrightarrow>
        unat f < length (slab_slots s) \<and> slot_dense_index (slab_slots s ! unat f) = VACANT"
    and "\<And>j. j < length (slab_slots s) \<Longrightarrow> slot_dense_index (slab_slots s ! j) = VACANT \<Longrightarrow>
          j \<in> unat ` set (slab_free_slots s) \<or> slot_generation (slab_slots s ! j) = - 1"
  shows "slab_inv s"
  using assms unfolding slab_inv_def by blast

definition slab_abs :: "'v slab \<Rightarrow> entity_id \<rightharpoonup> 'v" where
  "slab_abs s h = (case slab_get s h of Ok v \<Rightarrow> Some v | _ \<Rightarrow> None)"

subsection \<open>Consequences of the invariant\<close>

lemma unat_VACANT: "unat VACANT = 4294967295"
  by (simp add: VACANT_def unsigned_minus_1_eq_mask mask_eq_exp_minus_1)

lemma slab_dense_slots_distinct: "slab_inv s \<Longrightarrow> distinct (slab_dense_slots s)"
  unfolding slab_inv_def distinct_conv_nth by metis

lemma slab_dense_le: "slab_inv s \<Longrightarrow> length (slab_dense_slots s) \<le> length (slab_slots s)"
proof -
  assume inv: "slab_inv s"
  have "length (slab_dense_slots s) = card (unat ` set (slab_dense_slots s))"
    using slab_dense_slots_distinct [OF inv] by (simp add: card_image distinct_card)
  also have "\<dots> \<le> card {..<length (slab_slots s)}"
    using inv by (intro card_mono) (auto simp: slab_inv_def in_set_conv_nth)
  finally show ?thesis by simp
qed

lemma slab_occupied: "slab_inv s \<Longrightarrow> i < length (slab_dense_slots s) \<Longrightarrow>
  slot_dense_index (slab_slots s ! unat (slab_dense_slots s ! i)) \<noteq> VACANT"
  using slab_dense_le [of s] unat_VACANT by (auto simp: slab_inv_def dest!: arg_cong [where f = unat])

lemma slab_dense_index_live:
  "slab_dense_index s h = (if slab_live s h
     then Ok (unat (slot_dense_index (slab_slots s ! unat (ent_slot h)))) else Err (InvalidEntity h))"
  by (simp add: slab_dense_index_def slab_live_def)

lemma slab_live_bound: "slab_inv s \<Longrightarrow> slab_live s h \<Longrightarrow>
  unat (slot_dense_index (slab_slots s ! unat (ent_slot h))) < length (slab_values s)"
  by (auto simp: slab_inv_def slab_live_def)

lemma slab_get_live: "slab_inv s \<Longrightarrow>
  slab_get s h = (if slab_live s h
     then Ok (slab_values s ! unat (slot_dense_index (slab_slots s ! unat (ent_slot h))))
     else Err (InvalidEntity h))"
  by (simp add: slab_get_def slab_dense_index_live index_def slab_live_bound)

lemma slab_abs_live: "slab_inv s \<Longrightarrow>
  slab_abs s h = (if slab_live s h
     then Some (slab_values s ! unat (slot_dense_index (slab_slots s ! unat (ent_slot h)))) else None)"
  by (simp add: slab_abs_def slab_get_live)

lemma slab_new_inv:
  "slab_new alloc shard n = Ok s \<Longrightarrow> slab_inv s \<and> slab_abs s = Map.empty \<and> slab_capacity s = n \<and> slab_shard s = shard"
  by (auto simp: slab_new_def slab_inv_def slab_abs_def slab_get_def slab_dense_index_def
      VACANT_def result_ok fun_eq_iff)

subsection \<open>Insertion\<close>

text \<open>The state in which \<open>insert\<close> has picked slot \<open>i\<close> and not yet filled it.\<close>

definition slab_reserved :: "'v slab \<Rightarrow> u32 \<Rightarrow> bool" where
  "slab_reserved s i \<longleftrightarrow> slab_inv (s\<lparr>slab_free_slots := i # slab_free_slots s\<rparr>)"

lemma slab_inv_free_perm:
  "distinct fs \<Longrightarrow> set fs = set (slab_free_slots s) \<Longrightarrow> slab_inv s \<Longrightarrow> slab_inv (s\<lparr>slab_free_slots := fs\<rparr>)"
  by (simp add: slab_inv_def)

lemma slab_inv_grow:
  assumes "slab_inv s" and "length (slab_slots s) < slab_capacity s" and "unat i = length (slab_slots s)"
  shows "slab_inv (s\<lparr>slab_slots := slab_slots s @ [\<lparr>slot_dense_index = VACANT, slot_generation = 0\<rparr>],
                     slab_free_slots := i # slab_free_slots s\<rparr>)"
  using assms unfolding slab_inv_def
  by (auto simp: nth_append less_Suc_eq)

lemma slab_abs_grow:
  "slab_abs (s\<lparr>slab_slots := slab_slots s @ [\<lparr>slot_dense_index = VACANT, slot_generation = g\<rparr>]\<rparr>) = slab_abs s"
  by (rule ext) (auto simp: slab_abs_def slab_get_def slab_dense_index_def nth_append less_Suc_eq)

lemma slab_abs_free [simp]: "slab_abs (s\<lparr>slab_free_slots := fs\<rparr>) = slab_abs s"
  by (rule ext) (simp add: slab_abs_def slab_get_def slab_dense_index_def)

lemma slab_pick_pop:
  assumes inv: "slab_inv s" and pop: "vec_pop (slab_free_slots s) = Some (i, rest)"
  shows "slab_reserved (s\<lparr>slab_free_slots := rest\<rparr>) i"
proof -
  have free: "slab_free_slots s = rest @ [i]" using pop by (simp add: vec_pop_Some)
  then have "distinct (i # rest)" "set (i # rest) = set (slab_free_slots s)"
    using inv by (auto simp: slab_inv_def)
  then have "slab_inv (s\<lparr>slab_free_slots := i # rest\<rparr>)"
    using inv by (rule slab_inv_free_perm)
  then show ?thesis by (simp add: slab_reserved_def)
qed

lemma slab_pick_grow:
  assumes inv: "slab_inv s" and room: "length (slab_slots s) \<noteq> slab_capacity s"
  shows "slab_reserved (s\<lparr>slab_slots := slab_slots s @ [\<lparr>slot_dense_index = VACANT, slot_generation = 0\<rparr>]\<rparr>)
           (of_nat (length (slab_slots s)))"
proof -
  have lt: "length (slab_slots s) < slab_capacity s" "length (slab_slots s) < 2 ^ LENGTH(32)"
    using inv room unat_VACANT by (auto simp: slab_inv_def)
  then have "unat (of_nat (length (slab_slots s)) :: u32) = length (slab_slots s)"
    by (intro unat_of_nat_small) simp
  from slab_inv_grow [OF inv lt(1) this] show ?thesis
    by (simp add: slab_reserved_def)
qed

lemma slab_fill_inv:
  assumes res: "slab_reserved s i"
  shows "slab_inv (s\<lparr>slab_slots := (slab_slots s)[unat i :=
              (slab_slots s ! unat i)\<lparr>slot_dense_index := of_nat (length (slab_values s))\<rparr>],
            slab_values := slab_values s @ [v], slab_dense_slots := slab_dense_slots s @ [i]\<rparr>)"
proof -
  let ?s = "s\<lparr>slab_free_slots := i # slab_free_slots s\<rparr>"
  let ?n = "length (slab_dense_slots s)"
  have inv: "slab_inv ?s" using res by (simp add: slab_reserved_def)
  have bound: "?n \<le> length (slab_slots s)" and cap: "length (slab_slots s) \<le> 4294967295"
    using slab_dense_le [OF inv] inv unat_VACANT by (auto simp: slab_inv_def)
  have nin: "i \<notin> set (slab_dense_slots s)"
    using slab_occupied [OF inv] inv by (auto simp: slab_inv_def in_set_conv_nth)
  have "?n < length (slab_slots s)"
  proof (rule ccontr)
    assume "\<not> ?n < length (slab_slots s)"
    then have "length (slab_slots s) = ?n" using bound by simp
    then have "card (unat ` set (slab_dense_slots s)) = card {..<length (slab_slots s)}"
      using slab_dense_slots_distinct [OF inv] by (simp add: card_image distinct_card)
    moreover have "unat ` set (slab_dense_slots s) \<subseteq> {..<length (slab_slots s)}"
      using inv by (auto simp: slab_inv_def in_set_conv_nth)
    ultimately have "unat ` set (slab_dense_slots s) = {..<length (slab_slots s)}"
      by (intro card_subset_eq) auto
    moreover have "unat i < length (slab_slots s)" using inv by (simp add: slab_inv_def)
    ultimately have "unat i \<in> unat ` set (slab_dense_slots s)" by simp
    then show False using nin by (auto simp: word_unat_eq_iff [symmetric])
  qed
  then have un: "unat (of_nat ?n :: u32) = ?n" and nv: "(of_nat ?n :: u32) \<noteq> VACANT"
    using cap unat_VACANT by (auto dest!: arg_cong [where f = unat])
  have nn: "unat (slab_dense_slots s ! k) \<noteq> unat i" if "k < ?n" for k
    using nin that by (metis nth_mem word_unat_eq_iff)
  have "i \<notin> set (slab_free_slots s)"
    using inv by (simp add: slab_inv_def)
  then have nf: "unat f \<noteq> unat i" if "f \<in> set (slab_free_slots s)" for f
    using that by (metis word_unat_eq_iff)
  let ?t = "s\<lparr>slab_slots := (slab_slots s)[unat i :=
              (slab_slots s ! unat i)\<lparr>slot_dense_index := of_nat (length (slab_values s))\<rparr>],
            slab_values := slab_values s @ [v], slab_dense_slots := slab_dense_slots s @ [i]\<rparr>"
  have i: "unat i < length (slab_slots s)" using slab_inv_free [OF inv, of i] by simp
  have len: "length (slab_values s) = ?n" using slab_inv_len [OF inv] by simp
  have slot: "slab_slots ?t ! k = (if k = unat i
      then (slab_slots s ! k)\<lparr>slot_dense_index := of_nat ?n\<rparr> else slab_slots s ! k)"
    if "k < length (slab_slots s)" for k
    using that len by (simp add: nth_list_update)
  have dense: "slab_dense_slots ?t ! k = (if k = ?n then i else slab_dense_slots s ! k)" if "k \<le> ?n" for k
    using that by (simp add: nth_append)
  show ?thesis
  proof (rule slab_invI)
    fix k assume "k < length (slab_dense_slots ?t)"
    then have "k < ?n \<or> k = ?n" by auto
    then show "unat (slab_dense_slots ?t ! k) < length (slab_slots ?t)
        \<and> unat (slot_dense_index (slab_slots ?t ! unat (slab_dense_slots ?t ! k))) = k"
      using slab_inv_dense [OF inv, of k] i un nn [of k] slot dense [of k] len by auto
  next
    fix k assume k: "k < length (slab_slots ?t)" "slot_dense_index (slab_slots ?t ! k) \<noteq> VACANT"
    show "unat (slot_dense_index (slab_slots ?t ! k)) < length (slab_dense_slots ?t)
        \<and> unat (slab_dense_slots ?t ! unat (slot_dense_index (slab_slots ?t ! k))) = k"
    proof (cases "k = unat i")
      case True
      then show ?thesis using k slot [of k] un dense [of ?n] by simp
    next
      case False
      then show ?thesis
        using k slot [of k] slab_inv_slot [OF inv, of k] dense [of "unat (slot_dense_index (slab_slots s ! k))"]
        by auto
    qed
  next
    fix f assume "f \<in> set (slab_free_slots ?t)"
    then show "unat f < length (slab_slots ?t) \<and> slot_dense_index (slab_slots ?t ! unat f) = VACANT"
      using slab_inv_free [OF inv, of f] nf [of f] slot [of "unat f"] by simp
  next
    fix k assume k: "k < length (slab_slots ?t)" "slot_dense_index (slab_slots ?t ! k) = VACANT"
    then have "k \<noteq> unat i" using slot [of k] nv by auto
    then show "k \<in> unat ` set (slab_free_slots ?t) \<or> slot_generation (slab_slots ?t ! k) = - 1"
      using k slot [of k] slab_inv_vacant [OF inv, of k] by auto
  qed (use slab_invD(1,2) [OF inv] slab_inv_distinct [OF inv] len in simp_all)
qed

lemma slab_fill_abs:
  assumes res: "slab_reserved s i"
  shows "slab_abs (s\<lparr>slab_slots := (slab_slots s)[unat i :=
              (slab_slots s ! unat i)\<lparr>slot_dense_index := of_nat (length (slab_values s))\<rparr>],
            slab_values := slab_values s @ [v], slab_dense_slots := slab_dense_slots s @ [i]\<rparr>)
         = (slab_abs s)(\<lparr>ent_shard = slab_shard s, ent_slot = i,
              ent_generation = slot_generation (slab_slots s ! unat i)\<rparr> \<mapsto> v)"
    (is "slab_abs ?t = (slab_abs s)(?h \<mapsto> v)")
proof (rule ext)
  fix h
  let ?n = "length (slab_values s)"
  have invt: "slab_inv ?t" by (rule slab_fill_inv [OF res])
  have inv: "slab_inv (s\<lparr>slab_free_slots := i # slab_free_slots s\<rparr>)"
    using res by (simp add: slab_reserved_def)
  have i: "unat i < length (slab_slots s)" "slot_dense_index (slab_slots s ! unat i) = VACANT"
    using inv by (auto simp: slab_inv_def)
  have abs: "slab_abs s h = (if slab_live s h
     then Some (slab_values s ! unat (slot_dense_index (slab_slots s ! unat (ent_slot h)))) else None)"
    using slab_abs_live [OF inv, of h] by (simp add: slab_live_def)
  have n: "unat (of_nat ?n :: u32) = ?n" "of_nat ?n \<noteq> VACANT"
    using slab_occupied [OF invt, of "length (slab_dense_slots s)"] invt i(1)
    by (auto simp: slab_inv_def dest!: spec [where x = "length (slab_dense_slots s)"])
  have old: "unat (slot_dense_index (slab_slots s ! j)) < ?n"
    if "j < length (slab_slots s)" "slot_dense_index (slab_slots s ! j) \<noteq> VACANT" for j
    using inv that by (simp add: slab_inv_def)
  show "slab_abs ?t h = ((slab_abs s)(?h \<mapsto> v)) h"
  proof (cases "ent_slot h = i")
    case True
    have "h = ?h \<longleftrightarrow> ent_shard h = slab_shard s \<and> ent_generation h = slot_generation (slab_slots s ! unat i)"
      using True by (cases h) auto
    then show ?thesis
      using True i n by (auto simp: slab_abs_live [OF invt] abs slab_live_def)
  next
    case False
    then have "unat (ent_slot h) \<noteq> unat i" by (simp add: word_unat_eq_iff)
    then show ?thesis
      using False i old by (auto simp: slab_abs_live [OF invt] abs slab_live_def nth_append)
  qed
qed

lemma slab_reserved_vacant: "slab_reserved s i \<Longrightarrow> unat i < length (slab_slots s) \<and>
  slot_dense_index (slab_slots s ! unat i) = VACANT"
  by (simp add: slab_reserved_def slab_inv_def)

text \<open>The whole of \<open>insert\<close>: it never panics, fails only when no slot is left, and otherwise
  returns a handle that was not live and maps it to the value.\<close>

lemma slab_insert_cases:
  assumes inv: "slab_inv s"
  obtains (full) "slab_insert s v = Err CapacityExceeded" "slab_free_slots s = []"
      "length (slab_slots s) = slab_capacity s"
  | (fresh) h s' where "slab_insert s v = Ok (h, s')" "slab_inv s'" "slab_abs s h = None"
      "slab_abs s' = (slab_abs s)(h \<mapsto> v)" "slab_shard s' = slab_shard s" "slab_capacity s' = slab_capacity s"
proof -
  have fin: thesis if res: "slab_reserved s1 i" and abs: "slab_abs s1 = slab_abs s"
      and frame: "slab_shard s1 = slab_shard s" "slab_capacity s1 = slab_capacity s"
      and eq: "slab_insert s v = rbind (index (slab_slots s1) (unat i)) (\<lambda>sl.
            Ok (\<lparr>ent_shard = slab_shard s1, ent_slot = i, ent_generation = slot_generation sl\<rparr>,
                s1\<lparr>slab_slots := (slab_slots s1)[unat i :=
                      sl\<lparr>slot_dense_index := of_nat (length (slab_values s1))\<rparr>],
                   slab_values := slab_values s1 @ [v],
                   slab_dense_slots := slab_dense_slots s1 @ [i]\<rparr>))" for s1 i
  proof (rule fresh)
    note vac = slab_reserved_vacant [OF res]
    show "slab_insert s v = Ok (\<lparr>ent_shard = slab_shard s1, ent_slot = i,
        ent_generation = slot_generation (slab_slots s1 ! unat i)\<rparr>, s1\<lparr>slab_slots := (slab_slots s1)[unat i :=
              (slab_slots s1 ! unat i)\<lparr>slot_dense_index := of_nat (length (slab_values s1))\<rparr>],
            slab_values := slab_values s1 @ [v], slab_dense_slots := slab_dense_slots s1 @ [i]\<rparr>)"
      using vac by (simp add: eq index_def)
    show "slab_abs s \<lparr>ent_shard = slab_shard s1, ent_slot = i,
        ent_generation = slot_generation (slab_slots s1 ! unat i)\<rparr> = None"
      using vac by (simp add: abs [symmetric] slab_abs_def slab_get_def slab_dense_index_def)
  qed (simp_all add: slab_fill_inv [OF res] slab_fill_abs [OF res] abs frame)
  show thesis
  proof (cases "vec_pop (slab_free_slots s)")
    case (Some p)
    obtain i rest where p: "p = (i, rest)" by (cases p)
    show thesis
      using Some p by (intro fin [OF slab_pick_pop [OF inv, of i rest]]) (simp_all add: slab_insert_def)
  next
    case None
    show thesis
    proof (cases "length (slab_slots s) = slab_capacity s")
      case True
      moreover have "slab_free_slots s = []" using None by simp
      ultimately show thesis by (intro full) (simp_all add: slab_insert_def)
    next
      case False
      show thesis
        using None False
        by (intro fin [OF slab_pick_grow [OF inv False]]) (simp_all add: slab_insert_def slab_abs_grow)
    qed
  qed
qed

subsection \<open>Removal\<close>

lemma swap_remove_last: "d < length xs \<Longrightarrow>
  swap_remove xs d = Ok (xs ! d, butlast (xs[d := xs ! (length xs - 1)]))"
  by (cases "xs = []") (simp_all add: swap_remove_def last_conv_nth)

lemma nth_swapped: "d < length xs \<Longrightarrow> i < length xs - 1 \<Longrightarrow>
  butlast (xs[d := y]) ! i = (if i = d then y else xs ! i)"
  by (simp add: nth_butlast nth_list_update)

text \<open>Where a live handle points: slot \<open>j\<close>, dense index \<open>d\<close>, and \<open>m\<close>, the slot of the last dense
  value, which moves into the hole.\<close>

definition slab_removed :: "'v slab \<Rightarrow> entity_id \<Rightarrow> 'v slab" where
  "slab_removed s h =
     (let j = unat (ent_slot h); sl = slab_slots s ! j; d = unat (slot_dense_index sl);
          n = length (slab_dense_slots s); m = unat (slab_dense_slots s ! (n - 1))
      in s\<lparr>slab_slots := (slab_slots s)[m := (slab_slots s ! m)\<lparr>slot_dense_index := of_nat d\<rparr>,
             j := (if slot_generation sl = - 1 then sl\<lparr>slot_dense_index := VACANT\<rparr>
                   else sl\<lparr>slot_dense_index := VACANT, slot_generation := slot_generation sl + 1\<rparr>)],
           slab_values := butlast ((slab_values s)[d := slab_values s ! (n - 1)]),
           slab_dense_slots := butlast ((slab_dense_slots s)[d := slab_dense_slots s ! (n - 1)]),
           slab_free_slots := (if slot_generation sl = - 1 then slab_free_slots s
                               else slab_free_slots s @ [ent_slot h])\<rparr>)"

lemma checked_add_one: "checked_add g 1 = (if g = - 1 then None else Some (g + 1 :: u32))"
proof -
  have "unat g + 1 < 2 ^ LENGTH(32) \<longleftrightarrow> g \<noteq> - 1"
    using unsigned_less [where 'a = nat, of g] unat_VACANT
    by (auto simp: VACANT_def word_unat_eq_iff less_le simp del: unat_bounds)
  then show ?thesis by (auto simp: checked_add_def)
qed

lemma slab_live_facts:
  assumes inv: "slab_inv s" and live: "slab_live s h"
  defines "j \<equiv> unat (ent_slot h)" and "d \<equiv> unat (slot_dense_index (slab_slots s ! unat (ent_slot h)))"
    and "n \<equiv> length (slab_dense_slots s)"
  shows "j < length (slab_slots s)" "d < n" "unat (slab_dense_slots s ! d) = j" "slab_dense_slots s ! d = ent_slot h"
    "unat (slab_dense_slots s ! (n - 1)) < length (slab_slots s)"
    "unat (slab_dense_slots s ! (n - 1)) = j \<longleftrightarrow> d = n - 1"
proof -
  show j: "j < length (slab_slots s)" and d: "d < n" and dj: "unat (slab_dense_slots s ! d) = j"
    using inv live by (auto simp: slab_inv_def slab_live_def j_def d_def n_def)
  then show "slab_dense_slots s ! d = ent_slot h" by (simp add: j_def word_unat_eq_iff)
  show "unat (slab_dense_slots s ! (n - 1)) < length (slab_slots s)"
    using inv d by (simp add: slab_inv_def n_def)
  show "unat (slab_dense_slots s ! (n - 1)) = j \<longleftrightarrow> d = n - 1"
    using slab_dense_slots_distinct [OF inv] d dj
    by (auto simp: n_def word_unat_eq_iff [symmetric] nth_eq_iff_index_eq)
qed

lemma slab_remove_eq:
  assumes inv: "slab_inv s" and live: "slab_live s h"
  shows "slab_remove s h =
    Ok (slab_values s ! unat (slot_dense_index (slab_slots s ! unat (ent_slot h))), slab_removed s h)"
proof -
  let ?j = "unat (ent_slot h)" and ?d = "unat (slot_dense_index (slab_slots s ! unat (ent_slot h)))"
  let ?n = "length (slab_dense_slots s)"
  let ?m = "unat (slab_dense_slots s ! (?n - 1))"
  note f = slab_live_facts [OF inv live]
  have len: "length (slab_values s) = ?n" using inv by (simp add: slab_inv_def)
  show ?thesis
  proof (cases "?d < ?n - 1")
    case True
    then have "?m \<noteq> ?j" using f(6) by simp
    then show ?thesis
      using f(1-5) True
      by (simp add: slab_remove_def slab_removed_def slab_dense_index_live live swap_remove_last len
          index_def nth_swapped Let_def checked_add_one)
  next
    case False
    then have "?d = ?n - 1" "?m = ?j" using f(2,6) by auto
    then show ?thesis
      using f(1-5) False
      by (simp add: slab_remove_def slab_removed_def slab_dense_index_live live swap_remove_last len
          index_def Let_def checked_add_one)
  qed
qed

lemma slab_removed_nth:
  assumes inv: "slab_inv s" and live: "slab_live s h"
  defines "j \<equiv> unat (ent_slot h)" and "d \<equiv> unat (slot_dense_index (slab_slots s ! unat (ent_slot h)))"
    and "n \<equiv> length (slab_dense_slots s)"
  defines "m \<equiv> unat (slab_dense_slots s ! (n - 1))"
  shows "k < length (slab_slots s) \<Longrightarrow> slab_slots (slab_removed s h) ! k =
      (if k = j then (if slot_generation (slab_slots s ! j) = - 1
                      then (slab_slots s ! j)\<lparr>slot_dense_index := VACANT\<rparr>
                      else (slab_slots s ! j)\<lparr>slot_dense_index := VACANT,
                             slot_generation := slot_generation (slab_slots s ! j) + 1\<rparr>)
       else if k = m then (slab_slots s ! m)\<lparr>slot_dense_index := of_nat d\<rparr>
       else slab_slots s ! k)"
    and "i < n - 1 \<Longrightarrow> slab_dense_slots (slab_removed s h) ! i =
      (if i = d then slab_dense_slots s ! (n - 1) else slab_dense_slots s ! i)"
    and "i < n - 1 \<Longrightarrow> slab_values (slab_removed s h) ! i =
      (if i = d then slab_values s ! (n - 1) else slab_values s ! i)"
    and "length (slab_slots (slab_removed s h)) = length (slab_slots s)"
    and "length (slab_dense_slots (slab_removed s h)) = n - 1"
    and "length (slab_values (slab_removed s h)) = n - 1"
  using slab_live_facts [OF inv live] slab_inv_len [OF inv]
  by (simp_all add: slab_removed_def Let_def nth_list_update nth_swapped j_def d_def n_def m_def)

lemma slab_removed_inv:
  assumes inv: "slab_inv s" and live: "slab_live s h"
  shows "slab_inv (slab_removed s h)"
proof -
  let ?j = "unat (ent_slot h)" and ?d = "unat (slot_dense_index (slab_slots s ! unat (ent_slot h)))"
  let ?n = "length (slab_dense_slots s)"
  let ?m = "unat (slab_dense_slots s ! (?n - 1))"
  note f = slab_live_facts [OF inv live] and t = slab_removed_nth [OF inv live]
  have inj: "unat (slab_dense_slots s ! a) = unat (slab_dense_slots s ! b) \<longleftrightarrow> a = b" if "a < ?n" "b < ?n" for a b
    using slab_dense_slots_distinct [OF inv] that by (simp add: word_unat_eq_iff [symmetric] nth_eq_iff_index_eq)
  have free: "?j \<noteq> unat g" if "g \<in> set (slab_free_slots s)" for g
    using slab_inv_free [OF inv that] live by (auto simp: slab_live_def)
  have last: "?n - 1 < ?n" using f(2) by simp
  have mfree: "?m \<noteq> unat g" if "g \<in> set (slab_free_slots s)" for g
    using slab_inv_free [OF inv that] slab_occupied [OF inv last] by auto
  show ?thesis
  proof (rule slab_invI)
    fix k assume "k < length (slab_dense_slots (slab_removed s h))"
    then have k: "k < ?n - 1" "k < ?n" by (simp_all add: t)
    show "unat (slab_dense_slots (slab_removed s h) ! k) < length (slab_slots (slab_removed s h))
        \<and> unat (slot_dense_index (slab_slots (slab_removed s h) ! unat (slab_dense_slots (slab_removed s h) ! k))) = k"
      using k f slab_inv_dense [OF inv, of k] inj [of k ?d] inj [of k "?n - 1"]
      by (auto simp: t)
  next
    fix k assume k: "k < length (slab_slots (slab_removed s h))"
      "slot_dense_index (slab_slots (slab_removed s h) ! k) \<noteq> VACANT"
    then have kj: "k < length (slab_slots s)" "k \<noteq> ?j" by (auto simp: t split: if_splits)
    show "unat (slot_dense_index (slab_slots (slab_removed s h) ! k)) < length (slab_dense_slots (slab_removed s h))
        \<and> unat (slab_dense_slots (slab_removed s h) ! unat (slot_dense_index (slab_slots (slab_removed s h) ! k))) = k"
    proof (cases "k = ?m")
      case True
      then have "?d < ?n - 1" using f(2,6) kj by auto
      then show ?thesis using True kj by (simp add: t)
    next
      case False
      then have old: "slot_dense_index (slab_slots s ! k) \<noteq> VACANT" using k(2) kj by (simp add: t)
      note e = slab_inv_slot [OF inv kj(1) old]
      have "unat (slot_dense_index (slab_slots s ! k)) \<noteq> ?n - 1"
        "unat (slot_dense_index (slab_slots s ! k)) \<noteq> ?d"
        using e False kj(2) f(3) by auto
      moreover from this have "unat (slot_dense_index (slab_slots s ! k)) < ?n - 1"
        using e by linarith
      ultimately show ?thesis using e kj False by (simp add: t)
    qed
  next
    fix g assume "g \<in> set (slab_free_slots (slab_removed s h))"
    then have "g \<in> set (slab_free_slots s) \<or> g = ent_slot h"
      by (auto simp: slab_removed_def Let_def split: if_splits)
    then show "unat g < length (slab_slots (slab_removed s h))
        \<and> slot_dense_index (slab_slots (slab_removed s h) ! unat g) = VACANT"
      using slab_inv_free [OF inv, of g] free [of g] mfree [of g] f(1) by (auto simp: t)
  next
    fix k assume k: "k < length (slab_slots (slab_removed s h))"
      "slot_dense_index (slab_slots (slab_removed s h) ! k) = VACANT"
    have nv: "of_nat ?d \<noteq> VACANT" using live by (simp add: slab_live_def)
    show "k \<in> unat ` set (slab_free_slots (slab_removed s h))
        \<or> slot_generation (slab_slots (slab_removed s h) ! k) = - 1"
    proof (cases "k = ?j")
      case True
      then show ?thesis using f(1) by (simp add: t) (simp add: slab_removed_def Let_def)
    next
      case False
      then show ?thesis
        using k nv slab_inv_vacant [OF inv, of k]
        by (auto simp: t split: if_splits) (auto simp: slab_removed_def Let_def)
    qed
  next
    have "ent_slot h \<notin> set (slab_free_slots s)" using free by blast
    then show "distinct (slab_free_slots (slab_removed s h))"
      using slab_inv_distinct [OF inv] by (simp add: slab_removed_def Let_def)
  qed (use slab_invD(1,2) [OF inv] in \<open>simp_all add: t, simp_all add: slab_removed_def Let_def\<close>)
qed

lemma slab_removed_abs:
  assumes inv: "slab_inv s" and live: "slab_live s h"
  shows "slab_abs (slab_removed s h) = (slab_abs s)(h := None)"
proof (rule ext)
  fix g :: entity_id
  let ?j = "unat (ent_slot h)" and ?d = "unat (slot_dense_index (slab_slots s ! unat (ent_slot h)))"
  let ?n = "length (slab_dense_slots s)"
  let ?m = "unat (slab_dense_slots s ! (?n - 1))"
  let ?e = "unat (slot_dense_index (slab_slots s ! unat (ent_slot g)))"
  note f = slab_live_facts [OF inv live] and t = slab_removed_nth [OF inv live]
  have shard: "slab_shard (slab_removed s h) = slab_shard s" by (simp add: slab_removed_def Let_def)
  show "slab_abs (slab_removed s h) g = ((slab_abs s)(h := None)) g"
  proof (cases "ent_slot g = ent_slot h")
    case True
    have "g = h" if "slab_live s g"
      using that live True by (cases g; cases h) (simp add: slab_live_def)
    moreover have "\<not> slab_live (slab_removed s h) g"
      using True f(1) by (simp add: slab_live_def t)
    ultimately show ?thesis
      by (auto simp: slab_abs_live [OF slab_removed_inv [OF inv live]] slab_abs_live [OF inv])
  next
    case False
    then have gj: "unat (ent_slot g) \<noteq> ?j" "g \<noteq> h" by (auto simp: word_unat_eq_iff)
    have last: "?n - 1 < ?n" using f(2) by simp
    note vac = slab_occupied [OF inv last]
    have iff: "slab_live (slab_removed s h) g \<longleftrightarrow> slab_live s g"
    proof (cases "unat (ent_slot g) = ?m")
      case True
      then show ?thesis using gj vac live f(5) by (simp add: slab_live_def t shard)
    next
      case False
      then show ?thesis using gj by (cases "unat (ent_slot g) < length (slab_slots s)") (simp_all add: slab_live_def t shard)
    qed
    note abs = slab_abs_live [OF slab_removed_inv [OF inv live], of g] slab_abs_live [OF inv, of g]
    show ?thesis
    proof (cases "slab_live s g")
      case True
      note g = slab_live_facts [OF inv True]
      have ed: "?e \<noteq> ?d" using g(3) f(3) gj by auto
      show ?thesis
      proof (cases "unat (ent_slot g) = ?m")
        case mt: True
        then have "?d < ?n - 1" "?e = ?n - 1" using f(2,6) g(6) gj by auto
        then show ?thesis using mt True iff g(1) gj by (simp add: abs t)
      next
        case False
        then have "?e < ?n - 1" using g(2,6) by linarith
        then show ?thesis using False True iff g(1) gj ed by (simp add: abs t)
      qed
    qed (simp add: abs iff gj)
  qed
qed

lemma slab_remove_cases:
  assumes inv: "slab_inv s"
  obtains (stale) "slab_remove s h = Err (InvalidEntity h)" "slab_abs s h = None"
  | (removed) v where "slab_remove s h = Ok (v, slab_removed s h)" "slab_live s h" "slab_abs s h = Some v"
      "slab_inv (slab_removed s h)" "slab_abs (slab_removed s h) = (slab_abs s)(h := None)"
proof (cases "slab_live s h")
  case True
  show thesis
    using slab_remove_eq [OF inv True] slab_removed_inv [OF inv True] slab_removed_abs [OF inv True] True
    by (intro removed) (simp_all add: slab_abs_live inv)
next
  case False
  then show thesis
    by (intro stale) (simp_all add: slab_remove_def slab_dense_index_live slab_abs_live inv)
qed

lemma slab_set_cases:
  assumes inv: "slab_inv s"
  obtains (stale) "slab_set s h v = Err (InvalidEntity h)" "slab_abs s h = None"
  | (updated) s' where "slab_set s h v = Ok s'" "slab_inv s'" "slab_abs s' = (slab_abs s)(h \<mapsto> v)"
      "slab_abs s h \<noteq> None" "slab_slots s' = slab_slots s" "slab_free_slots s' = slab_free_slots s"
      "slab_shard s' = slab_shard s"
proof (cases "slab_live s h")
  case True
  let ?d = "unat (slot_dense_index (slab_slots s ! unat (ent_slot h)))"
  let ?t = "s\<lparr>slab_values := (slab_values s)[?d := v]\<rparr>"
  note f = slab_live_facts [OF inv True]
  have invt: "slab_inv ?t" using inv by (simp add: slab_inv_def)
  have "slab_abs ?t g = ((slab_abs s)(h \<mapsto> v)) g" for g
  proof (cases "slab_live s g")
    case g: True
    let ?e = "unat (slot_dense_index (slab_slots s ! unat (ent_slot g)))"
    have live: "slab_live ?t g" using g by (simp add: slab_live_def)
    have abs: "slab_abs ?t g = Some ((slab_values s)[?d := v] ! ?e)" "slab_abs s g = Some (slab_values s ! ?e)"
      using slab_abs_live [OF invt, of g] slab_abs_live [OF inv, of g] live g by simp_all
    show ?thesis
    proof (cases "g = h")
      case True
      then show ?thesis using abs(1) f(2) slab_inv_len [OF inv] by simp
    next
      case False
      have "?d \<noteq> ?e"
      proof
        assume "?d = ?e"
        then have "ent_slot g = ent_slot h"
          using f(4) slab_live_facts(4) [OF inv g] by metis
        then show False using \<open>slab_live s h\<close> g False by (cases g; cases h) (simp add: slab_live_def)
      qed
      then show ?thesis using abs False by simp
    qed
  next
    case False
    moreover have "g \<noteq> h" using False True by auto
    ultimately show ?thesis
      using slab_abs_live [OF invt, of g] slab_abs_live [OF inv, of g] by (simp add: slab_live_def)
  qed
  then have "slab_abs ?t = (slab_abs s)(h \<mapsto> v)" by (rule ext)
  moreover have "slab_set s h v = Ok ?t"
    using True f(2) slab_inv_len [OF inv] by (simp add: slab_set_def slab_dense_index_live index_def)
  moreover have "slab_abs s h \<noteq> None" using True by (simp add: slab_abs_live inv)
  ultimately show thesis using invt by (intro updated [of ?t]) simp_all
next
  case False
  then show thesis
    by (intro stale) (simp_all add: slab_set_def slab_dense_index_live slab_abs_live inv)
qed

subsection \<open>The abstract specification and the simulation\<close>

datatype 'v slab_op = OpInsert 'v | OpGet entity_id | OpSet entity_id 'v | OpRemove entity_id

datatype 'v slab_out = Inserted entity_id | Value 'v | Done | Failed state_error | Panicked

definition slab_step :: "'v slab \<Rightarrow> 'v slab_op \<Rightarrow> 'v slab_out \<times> 'v slab" where
  "slab_step s x = (case x of
     OpInsert v \<Rightarrow> (case slab_insert s v of Ok (h, s') \<Rightarrow> (Inserted h, s') | Err e \<Rightarrow> (Failed e, s) | Panic \<Rightarrow> (Panicked, s))
   | OpGet h \<Rightarrow> (case slab_get s h of Ok v \<Rightarrow> (Value v, s) | Err e \<Rightarrow> (Failed e, s) | Panic \<Rightarrow> (Panicked, s))
   | OpSet h v \<Rightarrow> (case slab_set s h v of Ok s' \<Rightarrow> (Done, s') | Err e \<Rightarrow> (Failed e, s) | Panic \<Rightarrow> (Panicked, s))
   | OpRemove h \<Rightarrow> (case slab_remove s h of Ok (v, s') \<Rightarrow> (Value v, s') | Err e \<Rightarrow> (Failed e, s) | Panic \<Rightarrow> (Panicked, s)))"

text \<open>The reference: a map from handles to values. Insertion picks some handle that is not live, or
  reports that the capacity is exhausted; every other operation is determined.\<close>

inductive ref_step :: "(entity_id \<rightharpoonup> 'v) \<Rightarrow> 'v slab_op \<Rightarrow> 'v slab_out \<Rightarrow> (entity_id \<rightharpoonup> 'v) \<Rightarrow> bool" where
  ref_insert: "m h = None \<Longrightarrow> ref_step m (OpInsert v) (Inserted h) (m(h \<mapsto> v))"
| ref_full: "ref_step m (OpInsert v) (Failed CapacityExceeded) m"
| ref_get: "m h = Some v \<Longrightarrow> ref_step m (OpGet h) (Value v) m"
| ref_set: "m h \<noteq> None \<Longrightarrow> ref_step m (OpSet h v) Done (m(h \<mapsto> v))"
| ref_remove: "m h = Some v \<Longrightarrow> ref_step m (OpRemove h) (Value v) (m(h := None))"
| ref_stale: "m h = None \<Longrightarrow> x \<in> {OpGet h, OpSet h v, OpRemove h} \<Longrightarrow> ref_step m x (Failed (InvalidEntity h)) m"

inductive ref_run :: "(entity_id \<rightharpoonup> 'v) \<Rightarrow> 'v slab_op list \<Rightarrow> 'v slab_out list \<Rightarrow> (entity_id \<rightharpoonup> 'v) \<Rightarrow> bool" where
  ref_nil: "ref_run m [] [] m"
| ref_cons: "ref_step m x r m1 \<Longrightarrow> ref_run m1 xs rs m2 \<Longrightarrow> ref_run m (x # xs) (r # rs) m2"

inductive_simps ref_step_insert: "ref_step m (OpInsert v) (Inserted h) m'"
inductive_cases ref_step_panic: "ref_step m x Panicked m'"

locale handle_store =
  fixes step :: "'s \<Rightarrow> 'v slab_op \<Rightarrow> 'v slab_out \<times> 's"
    and abs :: "'s \<Rightarrow> entity_id \<rightharpoonup> 'v"
    and invar :: "'s \<Rightarrow> bool"
  assumes step_invar: "invar s \<Longrightarrow> invar (snd (step s x))"
    and step_sim: "invar s \<Longrightarrow> ref_step (abs s) x (fst (step s x)) (abs (snd (step s x)))"
begin

lemma run_sim: "invar s \<Longrightarrow>
  ref_run (abs s) xs (fst (run_ops step s xs)) (abs (snd (run_ops step s xs)))
  \<and> invar (snd (run_ops step s xs))"
proof (induction xs arbitrary: s)
  case (Cons x xs)
  have "ref_step (abs s) x (fst (step s x)) (abs (snd (step s x)))" "invar (snd (step s x))"
    using step_sim step_invar Cons.prems by simp_all
  then show ?case
    using Cons.IH [of "snd (step s x)"] by (auto intro: ref_run.intros)
qed (simp add: ref_run.intros)

lemma run_no_panic: "invar s \<Longrightarrow> Panicked \<notin> set (fst (run_ops step s xs))"
proof (induction xs arbitrary: s)
  case (Cons x xs)
  have "fst (step s x) \<noteq> Panicked"
    using step_sim [OF Cons.prems, of x] by (metis ref_step_panic)
  then show ?case
    using Cons.IH step_invar [OF Cons.prems, of x] by auto
qed simp

end

lemma slab_step_sim: "slab_inv s \<Longrightarrow>
  slab_inv (snd (slab_step s x)) \<and> ref_step (slab_abs s) x (fst (slab_step s x)) (slab_abs (snd (slab_step s x)))"
proof (cases x)
  case (OpInsert v)
  assume inv: "slab_inv s"
  then show ?thesis
    by (cases rule: slab_insert_cases [of s v]) (auto simp: slab_step_def OpInsert inv intro: ref_step.intros)
next
  case (OpGet h)
  assume inv: "slab_inv s"
  then show ?thesis
    by (cases "slab_live s h")
      (auto simp: slab_step_def OpGet slab_get_live slab_abs_live [OF inv] intro: ref_step.intros)
next
  case (OpSet h v)
  assume inv: "slab_inv s"
  then show ?thesis
    by (cases rule: slab_set_cases [of s h v]) (auto simp: slab_step_def OpSet inv intro: ref_step.intros)
next
  case (OpRemove h)
  assume inv: "slab_inv s"
  then show ?thesis
    by (cases rule: slab_remove_cases [of s h]) (auto simp: slab_step_def OpRemove inv intro: ref_step.intros)
qed

interpretation slab: handle_store slab_step slab_abs slab_inv
  by unfold_locales (simp_all add: slab_step_sim)

subsection \<open>Stale handles stay stale\<close>

text \<open>A handle is dead when its slot has moved past its generation, or carries its generation but is
  retired. Removing a live handle kills it, and no operation revives a dead one.\<close>

definition slab_dead :: "'v slab \<Rightarrow> entity_id \<Rightarrow> bool" where
  "slab_dead s h \<longleftrightarrow>
     (let sl = slab_slots s ! unat (ent_slot h) in
       unat (ent_slot h) < length (slab_slots s)
     \<and> (ent_generation h < slot_generation sl
        \<or> (ent_generation h = slot_generation sl \<and> slot_dense_index sl = VACANT
            \<and> ent_slot h \<notin> set (slab_free_slots s))))"

lemma slab_dead_not_live: "slab_dead s h \<Longrightarrow> \<not> slab_live s h"
  by (auto simp: slab_dead_def slab_live_def Let_def)

lemma slab_removed_dead:
  assumes inv: "slab_inv s" and live: "slab_live s h"
  shows "slab_dead (slab_removed s h) h"
proof -
  have "g < g + 1" if "g \<noteq> - 1" for g :: u32
    using that checked_add_one [of g] checked_add_Some [of g 1 "g + 1"]
    by (simp add: word_less_nat_alt)
  moreover have "ent_slot h \<notin> set (slab_free_slots s)"
    using slab_inv_free [OF inv, of "ent_slot h"] live by (auto simp: slab_live_def)
  ultimately show ?thesis
    using slab_live_facts(1) [OF inv live] live
    by (auto simp: slab_dead_def Let_def slab_removed_nth [OF inv live] slab_live_def slab_removed_def)
qed

lemma slab_insert_dead:
  assumes inv: "slab_inv s" and dead: "slab_dead s h" and ok: "slab_insert s v = Ok (g, s')"
  shows "slab_dead s' h"
proof (cases "vec_pop (slab_free_slots s)")
  case None
  have "unat (of_nat (length (slab_slots s)) :: u32) = length (slab_slots s)"
    using slab_invD(1,2) [OF inv] unat_VACANT by simp
  with None show ?thesis
    using dead ok by (auto simp: slab_dead_def slab_insert_def result_ok Let_def nth_append nth_list_update
        split: if_splits)
next
  case (Some p)
  obtain i rest where p: "p = (i, rest)" by (cases p)
  then have free: "slab_free_slots s = rest @ [i]" using Some by (simp add: vec_pop_Some)
  have eq: "unat i = unat (ent_slot h) \<longleftrightarrow> ent_slot h = i" by (auto simp: word_unat_eq_iff)
  show ?thesis
    using dead ok Some p free eq
    by (auto simp: slab_dead_def slab_insert_def result_ok Let_def nth_list_update)
qed

lemma slab_removed_keeps_dead:
  assumes inv: "slab_inv s" and live: "slab_live s g" and dead: "slab_dead s h"
  shows "slab_dead (slab_removed s g) h"
proof (cases "ent_slot h = ent_slot g")
  case True
  then have "ent_generation h < ent_generation g"
    using live dead by (auto simp: slab_live_def slab_dead_def Let_def)
  moreover have "slab_dead (slab_removed s g) g" by (rule slab_removed_dead [OF inv live])
  ultimately show ?thesis using True by (auto simp: slab_dead_def Let_def)
next
  case False
  then have ne: "unat (ent_slot h) \<noteq> unat (ent_slot g)" by (simp add: word_unat_eq_iff)
  have last: "length (slab_dense_slots s) - 1 < length (slab_dense_slots s)"
    using slab_live_facts(2) [OF inv live] by simp
  have free: "ent_slot h \<notin> set (slab_free_slots (slab_removed s g)) \<longleftrightarrow> ent_slot h \<notin> set (slab_free_slots s)"
    using False by (simp add: slab_removed_def Let_def)
  show ?thesis
  proof (cases "unat (ent_slot h) = unat (slab_dense_slots s ! (length (slab_dense_slots s) - 1))")
    case True
    then show ?thesis
      using dead ne slab_occupied [OF inv last]
      by (simp add: slab_dead_def Let_def slab_removed_nth [OF inv live] free)
  next
    case nm: False
    then show ?thesis
      using dead ne by (simp add: slab_dead_def Let_def slab_removed_nth [OF inv live] free)
  qed
qed

lemma slab_step_dead:
  assumes inv: "slab_inv s" and dead: "slab_dead s h"
  shows "slab_dead (snd (slab_step s x)) h"
proof (cases x)
  case (OpInsert v)
  show ?thesis
    using slab_insert_dead [OF inv dead, of v] dead
    by (auto simp: slab_step_def OpInsert split: result.splits prod.splits)
next
  case (OpGet g)
  show ?thesis using dead by (simp add: slab_step_def OpGet split: result.splits)
next
  case (OpSet g v)
  show ?thesis
    using inv by (cases rule: slab_set_cases [of s g v])
      (use dead in \<open>simp_all add: slab_step_def OpSet slab_dead_def\<close>)
next
  case (OpRemove g)
  show ?thesis
    using inv by (cases rule: slab_remove_cases [of s g])
      (use dead slab_removed_keeps_dead [OF inv _ dead] in \<open>simp_all add: slab_step_def OpRemove\<close>)
qed

lemma slab_run_dead:
  assumes inv: "slab_inv s" and dead: "slab_dead s h"
  shows "slab_inv (snd (run_ops slab_step s xs)) \<and> slab_dead (snd (run_ops slab_step s xs)) h"
  by (rule run_ops_invar) (use inv dead slab_step_dead slab.step_invar in auto)

subsection \<open>Iteration and capacity\<close>

lemma slab_iter_nth: "slab_inv s \<Longrightarrow> i < length (slab_values s) \<Longrightarrow> slab_iter s ! i =
  (\<lparr>ent_shard = slab_shard s, ent_slot = slab_dense_slots s ! i,
    ent_generation = slot_generation (slab_slots s ! unat (slab_dense_slots s ! i))\<rparr>, slab_values s ! i)"
  using slab_inv_len [of s] by (simp add: slab_iter_def)

lemma slab_iter_distinct: "slab_inv s \<Longrightarrow> distinct (map fst (slab_iter s))"
proof -
  assume inv: "slab_inv s"
  have "map ent_slot (map fst (slab_iter s)) = slab_dense_slots s"
    using slab_inv_len [OF inv] by (simp add: slab_iter_def comp_def split_beta)
  then have "distinct (map ent_slot (map fst (slab_iter s)))"
    using slab_dense_slots_distinct [OF inv] by (simp only:)
  then show ?thesis by (simp only: distinct_map)
qed

lemma slab_iter_abs:
  assumes inv: "slab_inv s"
  shows "map_of (slab_iter s) = slab_abs s"
proof (rule ext)
  fix h
  have "(h, v) \<in> set (slab_iter s) \<longleftrightarrow> slab_abs s h = Some v" for v
  proof
    assume "(h, v) \<in> set (slab_iter s)"
    then obtain i where i: "i < length (slab_values s)" "slab_iter s ! i = (h, v)"
      using slab_inv_len [OF inv] by (auto simp: in_set_conv_nth slab_iter_def)
    then have "slab_live s h"
      using slab_iter_nth [OF inv i(1)] slab_inv_dense [OF inv, of i] slab_occupied [OF inv, of i] slab_inv_len [OF inv]
      by (auto simp: slab_live_def)
    then show "slab_abs s h = Some v"
      using i slab_iter_nth [OF inv i(1)] slab_inv_dense [OF inv, of i] slab_inv_len [OF inv]
      by (auto simp: slab_abs_live [OF inv])
  next
    assume v: "slab_abs s h = Some v"
    then have live: "slab_live s h" by (simp add: slab_abs_live [OF inv] split: if_splits)
    let ?d = "unat (slot_dense_index (slab_slots s ! unat (ent_slot h)))"
    note f = slab_live_facts [OF inv live]
    have d: "?d < length (slab_values s)" using f(2) slab_inv_len [OF inv] by simp
    have "slab_iter s ! ?d = (h, v)"
      using slab_iter_nth [OF inv d] f(4) live v
      by (cases h) (simp add: slab_abs_live [OF inv] slab_live_def split: if_splits)
    moreover have "?d < length (slab_iter s)" using d slab_inv_len [OF inv] by (simp add: slab_iter_def)
    ultimately show "(h, v) \<in> set (slab_iter s)" by (metis nth_mem)
  qed
  then show "map_of (slab_iter s) h = slab_abs s h"
    using slab_iter_distinct [OF inv]
    by (cases "slab_abs s h") (auto simp: map_of_eq_None_iff image_iff)
qed

text \<open>Retired slots are the vacant ones that are not on the free list.\<close>

definition slab_retired :: "'v slab \<Rightarrow> nat set" where
  "slab_retired s = {j. j < length (slab_slots s) \<and> slot_dense_index (slab_slots s ! j) = VACANT
                      \<and> j \<notin> unat ` set (slab_free_slots s)}"

lemma slab_slots_partition:
  assumes inv: "slab_inv s"
  shows "length (slab_slots s) = slab_len s + length (slab_free_slots s) + card (slab_retired s)"
proof -
  let ?L = "unat ` set (slab_dense_slots s)" and ?F = "unat ` set (slab_free_slots s)" and ?R = "slab_retired s"
  have occ: "j \<in> ?L \<longleftrightarrow> j < length (slab_slots s) \<and> slot_dense_index (slab_slots s ! j) \<noteq> VACANT" for j
  proof
    assume "j \<in> ?L"
    then obtain i where "i < length (slab_dense_slots s)" "j = unat (slab_dense_slots s ! i)"
      by (auto simp: in_set_conv_nth)
    then show "j < length (slab_slots s) \<and> slot_dense_index (slab_slots s ! j) \<noteq> VACANT"
      using slab_inv_dense [OF inv, of i] slab_occupied [OF inv, of i] by simp
  next
    assume "j < length (slab_slots s) \<and> slot_dense_index (slab_slots s ! j) \<noteq> VACANT"
    then show "j \<in> ?L" using slab_inv_slot [OF inv, of j] by (metis imageI nth_mem)
  qed
  have free: "j < length (slab_slots s) \<and> slot_dense_index (slab_slots s ! j) = VACANT" if "j \<in> ?F" for j
    using slab_inv_free [OF inv] that by auto
  have "{..<length (slab_slots s)} = ?L \<union> (?F \<union> ?R)"
    using occ free by (auto simp: slab_retired_def)
  moreover have "?L \<inter> (?F \<union> ?R) = {}" "?F \<inter> ?R = {}"
    using occ free by (auto simp: slab_retired_def)
  moreover have "finite ?R" by (simp add: slab_retired_def)
  ultimately have "card {..<length (slab_slots s)} = card ?L + (card ?F + card ?R)"
    by (simp add: card_Un_disjoint)
  then show ?thesis
    using slab_dense_slots_distinct [OF inv] slab_inv_distinct [OF inv] slab_inv_len [OF inv]
    by (simp add: card_image distinct_card slab_len_def)
qed

lemma slab_retired_exhausted: "slab_inv s \<Longrightarrow> j \<in> slab_retired s \<Longrightarrow> slot_generation (slab_slots s ! j) = - 1"
  using slab_inv_vacant [of s j] by (auto simp: slab_retired_def)

lemma slab_insert_full_iff:
  assumes inv: "slab_inv s"
  shows "slab_insert s v = Err CapacityExceeded \<longleftrightarrow> slab_len s + card (slab_retired s) = slab_capacity s"
  using inv
proof (cases rule: slab_insert_cases [of s v])
  case full
  then show ?thesis using slab_slots_partition [OF inv] by simp
next
  case (fresh h s')
  have "slab_free_slots s \<noteq> [] \<or> length (slab_slots s) \<noteq> slab_capacity s"
    using fresh(1) by (auto simp: slab_insert_def)
  then show ?thesis
    using fresh(1) slab_slots_partition [OF inv] slab_invD(1) [OF inv] by (cases "slab_free_slots s") auto
qed

subsection \<open>Properties\<close>

lemma slab_run_inv: "slab_new alloc shard n = Ok s0 \<Longrightarrow> slab_inv (snd (run_ops slab_step s0 xs))"
  using slab.run_sim slab_new_inv by blast

text \<open>C1: From a fresh slab, any sequence of inserts, reads, writes and removals behaves like the
  same sequence on a map from handles to values: every outcome is one the reference map allows (a new
  handle is one that is not live, a stale handle is reported as such, a removal returns the stored
  value), the final contents agree, and no operation panics.\<close>

theorem slab_refines_map:
  assumes "slab_new alloc shard n = Ok s0"
  shows "ref_run Map.empty xs (fst (run_ops slab_step s0 xs)) (slab_abs (snd (run_ops slab_step s0 xs)))
       \<and> Panicked \<notin> set (fst (run_ops slab_step s0 xs))"
  using slab.run_sim [of s0 xs] slab.run_no_panic [of s0 xs] slab_new_inv [OF assms] by simp

text \<open>The slab of the first unit test of the crate, and its witnesses.\<close>

definition slab_example :: "nat slab" where
  "slab_example = \<lparr>slab_shard = 7, slab_capacity = 3, slab_slots = [], slab_values = [],
                   slab_dense_slots = [], slab_free_slots = []\<rparr>"

lemma slab_new_example: "slab_new (\<lambda>n. n \<le> 10) 7 3 = Ok slab_example"
  by (simp add: slab_new_def slab_example_def try_reserve_def unat_VACANT [unfolded VACANT_def])

lemmas slab_eval = slab_example_def slab_step_def slab_insert_def slab_remove_def slab_get_def
  slab_set_def slab_dense_index_def index_def swap_remove_def vec_pop_def checked_add_one VACANT_def
  slab_len_def Let_def

theorem slab_refines_map_witness:
  "slab_new (\<lambda>n. n \<le> 10) 7 3 = Ok slab_example
   \<and> fst (run_ops slab_step slab_example
        [OpInsert 10, OpInsert 20, OpRemove \<lparr>ent_shard = 7, ent_slot = 0, ent_generation = 0\<rparr>, OpInsert 30])
     = [Inserted \<lparr>ent_shard = 7, ent_slot = 0, ent_generation = 0\<rparr>,
        Inserted \<lparr>ent_shard = 7, ent_slot = 1, ent_generation = 0\<rparr>, Value 10,
        Inserted \<lparr>ent_shard = 7, ent_slot = 0, ent_generation = 1\<rparr>]
   \<and> ref_run Map.empty
        [OpInsert 10, OpInsert 20, OpRemove \<lparr>ent_shard = 7, ent_slot = 0, ent_generation = 0\<rparr>, OpInsert 30]
        [Inserted \<lparr>ent_shard = 7, ent_slot = 0, ent_generation = 0\<rparr>,
         Inserted \<lparr>ent_shard = 7, ent_slot = 1, ent_generation = 0\<rparr>, Value 10,
         Inserted \<lparr>ent_shard = 7, ent_slot = 0, ent_generation = 1\<rparr>]
        (slab_abs (snd (run_ops slab_step slab_example
          [OpInsert 10, OpInsert 20, OpRemove \<lparr>ent_shard = 7, ent_slot = 0, ent_generation = 0\<rparr>, OpInsert 30])))"
proof -
  let ?ops = "[OpInsert 10, OpInsert 20, OpRemove \<lparr>ent_shard = 7, ent_slot = 0, ent_generation = 0\<rparr>, OpInsert 30]"
  have out: "fst (run_ops slab_step slab_example ?ops)
     = [Inserted \<lparr>ent_shard = 7, ent_slot = 0, ent_generation = 0\<rparr>,
        Inserted \<lparr>ent_shard = 7, ent_slot = 1, ent_generation = 0\<rparr>, Value 10,
        Inserted \<lparr>ent_shard = 7, ent_slot = 0, ent_generation = 1\<rparr>]"
    by (simp add: slab_eval)
  show ?thesis
    using slab_new_example out slab_refines_map [OF slab_new_example, of ?ops] by simp
qed

text \<open>C2: A handle that was removed is invalid for ever: whatever operations ran before the removal
  and whatever operations follow it, including reuse of its slot up to generation exhaustion, a read
  through the old handle reports \<open>InvalidEntity\<close>.\<close>

theorem slab_removed_handle_stays_invalid:
  assumes new: "slab_new alloc shard n = Ok s0"
    and rem: "slab_remove (snd (run_ops slab_step s0 xs)) h = Ok (v, s1)"
  shows "slab_get (snd (run_ops slab_step s1 ys)) h = Err (InvalidEntity h)"
proof -
  let ?s = "snd (run_ops slab_step s0 xs)"
  have inv: "slab_inv ?s" using new by (rule slab_run_inv)
  have "s1 = slab_removed ?s h \<and> slab_live ?s h"
    using inv rem by (cases rule: slab_remove_cases [of ?s h]) auto
  then have "slab_inv s1" "slab_dead s1 h"
    using slab_removed_inv [OF inv] slab_removed_dead [OF inv] by auto
  then have "slab_inv (snd (run_ops slab_step s1 ys)) \<and> slab_dead (snd (run_ops slab_step s1 ys)) h"
    by (rule slab_run_dead)
  then show ?thesis using slab_dead_not_live by (auto simp: slab_get_live)
qed

theorem slab_removed_handle_stays_invalid_witness:
  "\<exists>s1. slab_remove (snd (run_ops slab_step slab_example [OpInsert 10]))
        \<lparr>ent_shard = 7, ent_slot = 0, ent_generation = 0\<rparr> = Ok (10, s1)
     \<and> slab_get (snd (run_ops slab_step s1 [OpInsert 40])) \<lparr>ent_shard = 7, ent_slot = 0, ent_generation = 0\<rparr>
         = Err (InvalidEntity \<lparr>ent_shard = 7, ent_slot = 0, ent_generation = 0\<rparr>)"
proof -
  have "\<exists>s1. slab_remove (snd (run_ops slab_step slab_example [OpInsert 10]))
        \<lparr>ent_shard = 7, ent_slot = 0, ent_generation = 0\<rparr> = Ok (10, s1)"
    by (simp add: slab_eval)
  then show ?thesis
    using slab_removed_handle_stays_invalid [OF slab_new_example] by blast
qed

text \<open>C3: Capacity is exact. In every reachable slab the allocated slots are the live values, the free
  slots and the retired ones; a slot is retired only with its generation at the maximum; and an insert
  is refused precisely when live and retired slots together fill the capacity.\<close>

theorem slab_capacity_exact:
  assumes "slab_new alloc shard n = Ok s0" and "s = snd (run_ops slab_step s0 xs)"
  shows "length (slab_slots s) = slab_len s + length (slab_free_slots s) + card (slab_retired s)
       \<and> (\<forall>j \<in> slab_retired s. slot_generation (slab_slots s ! j) = - 1)
       \<and> (slab_insert s v = Err CapacityExceeded \<longleftrightarrow> slab_len s + card (slab_retired s) = slab_capacity s)"
proof -
  have inv: "slab_inv s" unfolding assms(2) using assms(1) by (rule slab_run_inv)
  show ?thesis
    using slab_slots_partition [OF inv] slab_retired_exhausted [OF inv] slab_insert_full_iff [OF inv, of v]
    by blast
qed

theorem slab_capacity_exact_witness:
  "slab_insert (snd (run_ops slab_step slab_example [OpInsert 1, OpInsert 2, OpInsert 3])) 4 = Err CapacityExceeded
   \<and> 3 + card (slab_retired (snd (run_ops slab_step slab_example [OpInsert 1, OpInsert 2, OpInsert 3]))) = 3"
  using slab_capacity_exact [OF slab_new_example refl, of "[OpInsert 1, OpInsert 2, OpInsert 3]" 4]
  by (simp add: slab_eval)

text \<open>Iteration enumerates exactly the live handles with their values, each once, in every
  reachable slab.\<close>

theorem slab_iter_complete:
  assumes "slab_new alloc shard n = Ok s0" and "s = snd (run_ops slab_step s0 xs)"
  shows "map_of (slab_iter s) = slab_abs s \<and> distinct (map fst (slab_iter s)) \<and> length (slab_iter s) = slab_len s"
proof -
  have inv: "slab_inv s" unfolding assms(2) using assms(1) by (rule slab_run_inv)
  have "length (slab_iter s) = slab_len s"
    using slab_inv_len [OF inv] by (simp add: slab_iter_def slab_len_def)
  then show ?thesis using slab_iter_abs [OF inv] slab_iter_distinct [OF inv] by blast
qed

theorem slab_iter_complete_witness:
  "slab_iter (snd (run_ops slab_step slab_example [OpInsert 5]))
     = [(\<lparr>ent_shard = 7, ent_slot = 0, ent_generation = 0\<rparr>, 5)]
   \<and> slab_abs (snd (run_ops slab_step slab_example [OpInsert 5]))
     = [\<lparr>ent_shard = 7, ent_slot = 0, ent_generation = 0\<rparr> \<mapsto> 5]"
proof -
  have it: "slab_iter (snd (run_ops slab_step slab_example [OpInsert 5]))
     = [(\<lparr>ent_shard = 7, ent_slot = 0, ent_generation = 0\<rparr>, 5)]"
    by (simp add: slab_eval slab_iter_def)
  then show ?thesis
    using slab_iter_complete [OF slab_new_example refl, of "[OpInsert 5]"] by simp
qed

end
