(* ===== verification/Event_Log.thy ===== *)
theory Event_Log
  imports Core_Types
begin

section \<open>The volatile event history (\<open>temnion-events\<close>)\<close>

text \<open>
  \<open>EventLog<T>\<close> is a bounded, append-only, source-local log. An operation that mutates the log takes
  it and returns the result together with the log afterwards, so that what an error leaves behind is
  part of the model. \<open>history\<close> is a paged scan: its \<open>while\<close> loop is \<open>history_loop\<close>, and the cursor
  pins the prefix of the log the first page saw.

  \<open>log_inv\<close> is the invariant; \<open>batch_ok\<close> and \<open>matches\<close> are the specifications of admission and
  of the filter; \<open>follow\<close> is a client that follows continuations while the log grows between pages.
\<close>

record 'c event_input =
  ei_entity :: entity_id
  ei_times :: event_times
  ei_change :: 'c

record 'c event =
  ev_id :: event_id
  ev_entity :: entity_id
  ev_times :: event_times
  ev_change :: 'c

record volatile_receipt =
  vr_first :: event_id
  vr_last :: event_id
  vr_count :: usize

datatype event_error =
    EvAllocationFailed
  | EmptyBatch
  | EvCapacityExceeded usize usize
  | KnownClockMismatch clock_id clock_id
  | KnownTimeRegression u64 u64
  | InvalidBudget
  | InvalidCursor
  | UnknownEvent event_id

record history_filter =
  hf_entity :: "entity_id option"
  hf_time :: "(time_axis \<times> time_range) option"
  hf_known_as_of :: "timestamp option"

record query_budget =
  max_results :: usize
  max_scanned :: usize

record history_cursor =
  hc_source :: source_id
  hc_epoch :: source_epoch
  hc_snapshot_len :: usize
  hc_next_offset :: usize
  hc_filter :: history_filter

record 'c history_page =
  hp_events :: "'c event list"
  hp_scanned :: usize
  hp_continuation :: "history_cursor option"

record 'c event_log =
  el_source :: source_id
  el_epoch :: source_epoch
  el_capacity :: usize
  el_events :: "'c event list"

definition log_new :: "(usize \<Rightarrow> bool) \<Rightarrow> source_id \<Rightarrow> source_epoch \<Rightarrow> usize \<Rightarrow> ('c event_log, event_error) result" where
  "log_new alloc source epoch capacity =
     rbind (try_reserve alloc capacity EvAllocationFailed) (\<lambda>_.
       Ok \<lparr>el_source = source, el_epoch = epoch, el_capacity = capacity, el_events = []\<rparr>)"

definition log_len :: "'c event_log \<Rightarrow> usize" where
  "log_len l = length (el_events l)"

definition remaining_capacity :: "'c event_log \<Rightarrow> (usize, 'e) result" where
  "remaining_capacity l =
     (if length (el_events l) \<le> el_capacity l then Ok (el_capacity l - length (el_events l)) else Panic)"

definition id_at :: "'c event_log \<Rightarrow> usize \<Rightarrow> event_id" where
  "id_at l i = \<lparr>eid_source = el_source l, eid_epoch = el_epoch l, eid_sequence = of_nat i\<rparr>"

definition check_capacity :: "'c event_log \<Rightarrow> usize \<Rightarrow> (unit, event_error) result" where
  "check_capacity l count =
     rbind (remaining_capacity l) (\<lambda>available.
       if count > available then Err (EvCapacityExceeded available count) else Ok ())"

definition check_known_time :: "timestamp option \<Rightarrow> timestamp \<Rightarrow> (unit, event_error) result" where
  "check_known_time previous actual =
     (case previous of
        None \<Rightarrow> Ok ()
      | Some p \<Rightarrow>
          if ts_clock p \<noteq> ts_clock actual then Err (KnownClockMismatch (ts_clock p) (ts_clock actual))
          else if ts_ticks actual < ts_ticks p then Err (KnownTimeRegression (ts_ticks p) (ts_ticks actual))
          else Ok ())"

definition last_known :: "'c event_log \<Rightarrow> timestamp option" where
  "last_known l = (if el_events l = [] then None else Some (et_known (ev_times (last (el_events l)))))"

definition push_validated :: "'c event_log \<Rightarrow> 'c event_input \<Rightarrow> event_id \<times> 'c event_log" where
  "push_validated l inp =
     (let i = id_at l (length (el_events l))
      in (i, l\<lparr>el_events := el_events l @ [\<lparr>ev_id = i, ev_entity = ei_entity inp,
                ev_times = ei_times inp, ev_change = ei_change inp\<rparr>]\<rparr>))"

definition log_append :: "'c event_log \<Rightarrow> 'c event_input \<Rightarrow> (volatile_receipt, event_error) result \<times> 'c event_log" where
  "log_append l inp =
     (case rbind (check_capacity l 1) (\<lambda>_. check_known_time (last_known l) (et_known (ei_times inp))) of
        Ok _ \<Rightarrow> (let (i, l') = push_validated l inp
                 in (Ok \<lparr>vr_first = i, vr_last = i, vr_count = 1\<rparr>, l'))
      | Err e \<Rightarrow> (Err e, l)
      | Panic \<Rightarrow> (Panic, l))"

text \<open>The validation loop of \<open>append_batch\<close>, and the loop that pushes.\<close>

fun check_batch :: "timestamp option \<Rightarrow> 'c event_input list \<Rightarrow> (unit, event_error) result" where
  "check_batch previous [] = Ok ()"
| "check_batch previous (inp # rest) =
     rbind (check_known_time previous (et_known (ei_times inp))) (\<lambda>_.
       check_batch (Some (et_known (ei_times inp))) rest)"

fun push_batch :: "'c event_log \<Rightarrow> 'c event_input list \<Rightarrow> 'c event_log" where
  "push_batch l [] = l"
| "push_batch l (inp # rest) = push_batch (snd (push_validated l inp)) rest"

definition append_batch :: "'c event_log \<Rightarrow> 'c event_input list \<Rightarrow> (volatile_receipt, event_error) result \<times> 'c event_log" where
  "append_batch l batch =
     (if batch = [] then (Err EmptyBatch, l)
      else case rbind (check_capacity l (length batch)) (\<lambda>_. check_batch (last_known l) batch) of
        Ok _ \<Rightarrow> (let first = id_at l (length (el_events l)); l' = push_batch l batch
                 in (Ok \<lparr>vr_first = first, vr_last = id_at l' (length (el_events l') - 1),
                         vr_count = length batch\<rparr>, l'))
      | Err e \<Rightarrow> (Err e, l)
      | Panic \<Rightarrow> (Panic, l))"

definition log_get :: "'c event_log \<Rightarrow> event_id \<Rightarrow> ('c event, event_error) result" where
  "log_get l i =
     (if eid_source i \<noteq> el_source l \<or> eid_epoch i \<noteq> el_epoch l then Err (UnknownEvent i)
      else if unat (eid_sequence i) < length (el_events l) then Ok (el_events l ! unat (eid_sequence i))
      else Err (UnknownEvent i))"

text \<open>The \<open>continue\<close> conditions of the scan, in the code's order.\<close>

definition keeps :: "history_filter \<Rightarrow> 'c event \<Rightarrow> bool" where
  "keeps f e =
     (if (case hf_entity f of None \<Rightarrow> False | Some en \<Rightarrow> en \<noteq> ev_entity e) then False
      else if (case hf_known_as_of f of None \<Rightarrow> False
               | Some cutoff \<Rightarrow> ts_ticks (et_known (ev_times e)) > ts_ticks cutoff) then False
      else (case hf_time f of None \<Rightarrow> True
            | Some (axis, r) \<Rightarrow>
                (case times_on (ev_times e) axis of None \<Rightarrow> False | Some t \<Rightarrow> range_contains r t)))"

function history_loop :: "'c event list \<Rightarrow> history_filter \<Rightarrow> query_budget \<Rightarrow> usize \<Rightarrow> usize \<Rightarrow> usize
    \<Rightarrow> 'c event list \<Rightarrow> ('c event list \<times> usize \<times> usize, event_error) result" where
  "history_loop es f b snapshot_len offset scanned acc =
     (if offset < snapshot_len \<and> scanned < max_scanned b \<and> length acc < max_results b
      then rbind (index es offset) (\<lambda>e.
             history_loop es f b snapshot_len (Suc offset) (Suc scanned)
               (if keeps f e then acc @ [e] else acc))
      else Ok (acc, scanned, offset))"
  by pat_completeness auto
termination
  by (relation "measure (\<lambda>(es, f, b, n, offset, scanned, acc). n - offset)") auto

definition log_history :: "(usize \<Rightarrow> bool) \<Rightarrow> 'c event_log \<Rightarrow> history_filter \<Rightarrow> query_budget
    \<Rightarrow> history_cursor option \<Rightarrow> ('c history_page, event_error) result" where
  "log_history alloc l f b cursor =
     (if max_results b = 0 \<or> max_scanned b = 0 then Err InvalidBudget
      else rbind
        (case (hf_known_as_of f, el_events l) of
           (Some cutoff, e # _) \<Rightarrow>
             if ts_clock cutoff \<noteq> ts_clock (et_known (ev_times e))
             then Err (KnownClockMismatch (ts_clock (et_known (ev_times e))) (ts_clock cutoff))
             else Ok ()
         | _ \<Rightarrow> Ok ()) (\<lambda>_.
        rbind
          (case cursor of
             Some c \<Rightarrow>
               if hc_source c \<noteq> el_source l \<or> hc_epoch c \<noteq> el_epoch l \<or> hc_filter c \<noteq> f
                  \<or> hc_snapshot_len c > length (el_events l) \<or> hc_next_offset c > hc_snapshot_len c
               then Err InvalidCursor
               else Ok (hc_snapshot_len c, hc_next_offset c)
           | None \<Rightarrow> Ok (length (el_events l), 0)) (\<lambda>(snapshot_len, offset).
        rbind (try_reserve alloc (min (min (max_results b) (max_scanned b)) (snapshot_len - offset))
                 EvAllocationFailed) (\<lambda>_.
        rbind (history_loop (el_events l) f b snapshot_len offset 0 []) (\<lambda>(events, scanned, offset').
          Ok \<lparr>hp_events = events, hp_scanned = scanned,
              hp_continuation = (if offset' < snapshot_len
                 then Some \<lparr>hc_source = el_source l, hc_epoch = el_epoch l,
                            hc_snapshot_len = snapshot_len, hc_next_offset = offset', hc_filter = f\<rparr>
                 else None)\<rparr>)))))"

subsection \<open>Specification of admission\<close>

text \<open>One known time may follow another: same clock, ticks not decreasing.\<close>

definition known_le :: "timestamp \<Rightarrow> timestamp \<Rightarrow> bool" where
  "known_le p a \<longleftrightarrow> ts_clock p = ts_clock a \<and> ts_ticks p \<le> ts_ticks a"

definition log_known :: "'c event_log \<Rightarrow> timestamp list" where
  "log_known l = map (\<lambda>e. et_known (ev_times e)) (el_events l)"

definition batch_ok :: "'c event_log \<Rightarrow> 'c event_input list \<Rightarrow> bool" where
  "batch_ok l batch \<longleftrightarrow>
     batch \<noteq> [] \<and> length (el_events l) + length batch \<le> el_capacity l
     \<and> sorted_wrt known_le (log_known l @ map (\<lambda>inp. et_known (ei_times inp)) batch)"

definition log_inv :: "'c event_log \<Rightarrow> bool" where
  "log_inv l \<longleftrightarrow> length (el_events l) \<le> el_capacity l
     \<and> (\<forall>i < length (el_events l). ev_id (el_events l ! i) = id_at l i)
     \<and> sorted_wrt known_le (log_known l)"

text \<open>The event that input \<open>inp\<close> becomes at position \<open>i\<close>.\<close>

definition event_at :: "'c event_log \<Rightarrow> usize \<Rightarrow> 'c event_input \<Rightarrow> 'c event" where
  "event_at l i inp = \<lparr>ev_id = id_at l i, ev_entity = ei_entity inp, ev_times = ei_times inp,
                       ev_change = ei_change inp\<rparr>"

definition appended :: "'c event_log \<Rightarrow> 'c event_input list \<Rightarrow> 'c event_log" where
  "appended l batch = l\<lparr>el_events := el_events l
     @ map2 (event_at l) [length (el_events l)..<length (el_events l) + length batch] batch\<rparr>"

lemma known_le_trans: "known_le a b \<Longrightarrow> known_le b c \<Longrightarrow> known_le a c"
  by (auto simp: known_le_def)

lemma sorted_known_append_single:
  "sorted_wrt known_le xs \<Longrightarrow> sorted_wrt known_le (xs @ [a]) \<longleftrightarrow> (xs = [] \<or> known_le (last xs) a)"
proof (induction xs)
  case (Cons x xs)
  then show ?case
    by (cases "xs = []") (auto simp: sorted_wrt_append intro: known_le_trans)
qed simp

lemma check_known_time_Ok:
  "check_known_time p a = Ok u \<longleftrightarrow> (case p of None \<Rightarrow> True | Some q \<Rightarrow> known_le q a)"
  by (auto simp: check_known_time_def known_le_def split: option.splits)

lemma check_known_time_not_Panic [simp]: "check_known_time p a \<noteq> Panic"
  by (auto simp: check_known_time_def split: option.splits)

lemma check_batch_not_Panic [simp]: "check_batch p b \<noteq> Panic"
  by (induction p b rule: check_batch.induct) (auto simp: rbind_eq_Panic)

lemma check_batch_sorted:
  "sorted_wrt known_le xs \<Longrightarrow>
   check_batch (if xs = [] then None else Some (last xs)) b = Ok u
     \<longleftrightarrow> sorted_wrt known_le (xs @ map (\<lambda>inp. et_known (ei_times inp)) b)"
proof (induction b arbitrary: xs)
  case (Cons inp b)
  let ?t = "et_known (ei_times inp)"
  have "check_known_time (if xs = [] then None else Some (last xs)) ?t = Ok () \<longleftrightarrow> sorted_wrt known_le (xs @ [?t])"
    using Cons.prems by (simp add: check_known_time_Ok sorted_known_append_single)
  moreover have "check_batch (Some ?t) b = Ok u \<longleftrightarrow>
      sorted_wrt known_le ((xs @ [?t]) @ map (\<lambda>inp. et_known (ei_times inp)) b)" if "sorted_wrt known_le (xs @ [?t])"
    using Cons.IH [OF that] by simp
  moreover have "sorted_wrt known_le (xs @ ?t # ys) \<Longrightarrow> sorted_wrt known_le (xs @ [?t])" for ys
    by (simp add: sorted_wrt_append)
  ultimately show ?case by (auto simp: result_ok)
qed simp

lemma last_known_eq: "last_known l = (if log_known l = [] then None else Some (last (log_known l)))"
  by (simp add: last_known_def log_known_def last_map)

lemma push_batch_appended: "push_batch l batch = appended l batch"
proof (induction batch arbitrary: l)
  case (Cons inp batch)
  have ea: "event_at (l\<lparr>el_events := es\<rparr>) = event_at l" for es
    by (simp add: fun_eq_iff event_at_def id_at_def)
  have "[length (el_events l)..<length (el_events l) + length (inp # batch)]
      = length (el_events l) # [Suc (length (el_events l))..<Suc (length (el_events l)) + length batch]"
    by (simp add: upt_conv_Cons del: upt_Suc)
  then show ?case
    by (simp add: Cons.IH push_validated_def appended_def Let_def ea)
      (simp add: event_at_def)
qed (simp add: appended_def)

lemma check_capacity_eq: "length (el_events l) \<le> el_capacity l \<Longrightarrow>
  check_capacity l n = (if length (el_events l) + n \<le> el_capacity l then Ok ()
     else Err (EvCapacityExceeded (el_capacity l - length (el_events l)) n))"
  by (auto simp: check_capacity_def remaining_capacity_def)

lemma length_appended: "length (el_events (appended l batch)) = length (el_events l) + length batch"
  by (simp add: appended_def)

lemma id_at_appended [simp]: "id_at (appended l batch) = id_at l"
  by (simp add: fun_eq_iff appended_def id_at_def)

lemma append_batch_cases:
  assumes inv: "log_inv l"
  obtains (ok) "batch_ok l batch" "append_batch l batch =
      (Ok \<lparr>vr_first = id_at l (length (el_events l)),
           vr_last = id_at l (length (el_events l) + length batch - 1), vr_count = length batch\<rparr>, appended l batch)"
  | (err) e where "\<not> batch_ok l batch" "append_batch l batch = (Err e, l)"
proof -
  have sorted: "sorted_wrt known_le (log_known l)" and cap: "length (el_events l) \<le> el_capacity l"
    using inv by (auto simp: log_inv_def)
  have chk: "check_batch (last_known l) batch = Ok () \<longleftrightarrow>
      sorted_wrt known_le (log_known l @ map (\<lambda>inp. et_known (ei_times inp)) batch)"
    using check_batch_sorted [OF sorted, of batch] by (simp only: last_known_eq)
  show thesis
  proof (cases "batch_ok l batch")
    case True
    then have "check_batch (last_known l) batch = Ok ()" by (simp add: chk batch_ok_def)
    with True have "append_batch l batch =
      (Ok \<lparr>vr_first = id_at l (length (el_events l)),
           vr_last = id_at l (length (el_events l) + length batch - 1), vr_count = length batch\<rparr>, appended l batch)"
      by (simp add: append_batch_def check_capacity_eq cap batch_ok_def push_batch_appended Let_def length_appended)
    with True show thesis by (rule ok)
  next
    case False
    have "\<exists>e. append_batch l batch = (Err e, l)"
    proof (cases "batch = [] \<or> \<not> length (el_events l) + length batch \<le> el_capacity l")
      case True
      then show ?thesis by (auto simp: append_batch_def check_capacity_eq cap)
    next
      case f: False
      then obtain e where "check_batch (last_known l) batch = Err e"
        using chk False by (cases "check_batch (last_known l) batch") (auto simp: batch_ok_def)
      with f show ?thesis by (auto simp: append_batch_def check_capacity_eq cap)
    qed
    with False show thesis using err by blast
  qed
qed

lemma log_known_appended:
  "log_known (appended l batch) = log_known l @ map (\<lambda>inp. et_known (ei_times inp)) batch"
proof -
  have "map (\<lambda>e. et_known (ev_times e)) (map2 (event_at l) xs batch)
      = map (\<lambda>inp. et_known (ei_times inp)) batch" if "length xs = length batch" for xs
    using that by (induction xs batch rule: list_induct2) (simp_all add: event_at_def)
  then show ?thesis by (simp add: appended_def log_known_def del: map_map)
qed

lemma nth_appended: "i < length batch \<Longrightarrow>
  el_events (appended l batch) ! (length (el_events l) + i) = event_at l (length (el_events l) + i) (batch ! i)"
  by (simp add: appended_def nth_append)

lemma nth_appended_old: "i < length (el_events l) \<Longrightarrow> el_events (appended l batch) ! i = el_events l ! i"
  by (simp add: appended_def nth_append)

lemma appended_inv:
  assumes inv: "log_inv l" and ok: "batch_ok l batch"
  shows "log_inv (appended l batch)"
proof -
  have "ev_id (el_events (appended l batch) ! i) = id_at l i" if "i < length (el_events l) + length batch" for i
  proof (cases "i < length (el_events l)")
    case True
    then show ?thesis using inv by (simp add: nth_appended_old log_inv_def)
  next
    case False
    then show ?thesis
      using nth_appended [of "i - length (el_events l)" batch l] that by (simp add: event_at_def)
  qed
  then show ?thesis
    using ok inv by (simp add: log_inv_def length_appended log_known_appended batch_ok_def)
      (simp add: appended_def)
qed

lemma append_batch_inv: "log_inv l \<Longrightarrow> log_inv (snd (append_batch l batch))"
  by (cases rule: append_batch_cases [of l batch]) (auto simp: appended_inv)

lemma log_append_batch: "log_append l inp = append_batch l [inp]"
  by (simp add: log_append_def append_batch_def Let_def push_validated_def id_at_def
      split: result.splits)

text \<open>Batches compose: admitting \<open>xs @ ys\<close> is admitting \<open>xs\<close> and then \<open>ys\<close>.\<close>

lemma appended_append: "appended l (xs @ ys) = appended (appended l xs) ys"
proof -
  have "push_batch l (xs @ ys) = push_batch (push_batch l xs) ys"
    by (induction xs arbitrary: l) simp_all
  then show ?thesis by (simp add: push_batch_appended)
qed

lemma batch_ok_append:
  assumes "log_inv l" and "xs \<noteq> []" and "ys \<noteq> []"
  shows "batch_ok l (xs @ ys) \<longleftrightarrow> batch_ok l xs \<and> batch_ok (appended l xs) ys"
  using assms by (auto simp: batch_ok_def length_appended log_known_appended sorted_wrt_append)
    (auto simp: appended_def)

subsection \<open>The paged scan\<close>

definition matches :: "history_filter \<Rightarrow> 'c event \<Rightarrow> bool" where
  "matches f e \<longleftrightarrow>
     (\<forall>en. hf_entity f = Some en \<longrightarrow> ev_entity e = en)
   \<and> (\<forall>c. hf_known_as_of f = Some c \<longrightarrow> ts_ticks (et_known (ev_times e)) \<le> ts_ticks c)
   \<and> (\<forall>axis r. hf_time f = Some (axis, r) \<longrightarrow> (\<exists>t. times_on (ev_times e) axis = Some t \<and> range_contains r t))"

lemma keeps_matches: "keeps f = matches f"
  by (rule ext) (auto simp: keeps_def matches_def split: option.splits prod.splits)

declare history_loop.simps [simp del]

lemma slice_Suc: "p < n \<Longrightarrow> n \<le> length es \<Longrightarrow> slice es p n = es ! p # slice es (Suc p) n"
  by (simp add: slice_def Suc_diff_Suc [symmetric] Cons_nth_drop_Suc [symmetric])

lemma history_loop_spec:
  assumes "p \<le> n" "n \<le> length es"
  shows "\<exists>q. history_loop es f b n p sc acc
         = Ok (acc @ filter (matches f) (slice es p q), sc + (q - p), q)
       \<and> p \<le> q \<and> q \<le> n
       \<and> (sc \<le> max_scanned b \<longrightarrow> sc + (q - p) \<le> max_scanned b)
       \<and> (length acc \<le> max_results b \<longrightarrow> length acc + length (filter (matches f) (slice es p q)) \<le> max_results b)
       \<and> (p < n \<and> sc < max_scanned b \<and> length acc < max_results b \<longrightarrow> p < q)"
  using assms
proof (induction es f b n p sc acc rule: history_loop.induct)
  case (1 es f b n p sc acc)
  show ?case
  proof (cases "p < n \<and> sc < max_scanned b \<and> length acc < max_results b")
    case True
    let ?acc = "if keeps f (es ! p) then acc @ [es ! p] else acc"
    have step: "history_loop es f b n p sc acc = history_loop es f b n (Suc p) (Suc sc) ?acc"
      using True "1.prems" by (simp add: history_loop.simps [of es f b n p sc acc] index_def)
    from "1.IH" [OF True, of "es ! p"] True "1.prems" obtain q where q:
      "history_loop es f b n (Suc p) (Suc sc) ?acc
         = Ok (?acc @ filter (matches f) (slice es (Suc p) q), Suc sc + (q - Suc p), q)"
      "Suc p \<le> q" "q \<le> n"
      "Suc sc \<le> max_scanned b \<longrightarrow> Suc sc + (q - Suc p) \<le> max_scanned b"
      "length ?acc \<le> max_results b \<longrightarrow>
         length ?acc + length (filter (matches f) (slice es (Suc p) q)) \<le> max_results b"
      by auto
    have sl: "slice es p q = es ! p # slice es (Suc p) q"
      using q "1.prems" by (intro slice_Suc) auto
    have "length ?acc \<le> max_results b" "Suc sc \<le> max_scanned b" using True by auto
    then show ?thesis
      using q step True by (intro exI [of _ q]) (auto simp: sl keeps_matches)
  next
    case False
    then have "history_loop es f b n p sc acc = Ok (acc, sc, p)"
      by (subst history_loop.simps) (simp only: if_False)
    then show ?thesis using "1.prems" False by (intro exI [of _ p]) (auto simp: slice_def)
  qed
qed

text \<open>A cursor is good for a log, filter and position when the code accepts it.\<close>

definition cursor_at :: "'c event_log \<Rightarrow> history_filter \<Rightarrow> history_cursor option \<Rightarrow> (usize \<times> usize) option" where
  "cursor_at l f cursor = (case cursor of
     None \<Rightarrow> Some (length (el_events l), 0)
   | Some c \<Rightarrow> if hc_source c = el_source l \<and> hc_epoch c = el_epoch l \<and> hc_filter c = f
       \<and> hc_snapshot_len c \<le> length (el_events l) \<and> hc_next_offset c \<le> hc_snapshot_len c
     then Some (hc_snapshot_len c, hc_next_offset c) else None)"

definition clock_ok :: "'c event_log \<Rightarrow> history_filter \<Rightarrow> bool" where
  "clock_ok l f \<longleftrightarrow> (\<forall>cutoff e rest. hf_known_as_of f = Some cutoff \<longrightarrow> el_events l = e # rest
     \<longrightarrow> ts_clock cutoff = ts_clock (et_known (ev_times e)))"

definition page_from :: "'c event_log \<Rightarrow> history_filter \<Rightarrow> usize \<Rightarrow> usize \<Rightarrow> usize \<Rightarrow> 'c history_page" where
  "page_from l f n p q =
     \<lparr>hp_events = filter (matches f) (slice (el_events l) p q), hp_scanned = q - p,
      hp_continuation = (if q < n then Some \<lparr>hc_source = el_source l, hc_epoch = el_epoch l,
          hc_snapshot_len = n, hc_next_offset = q, hc_filter = f\<rparr> else None)\<rparr>"

lemma clock_check: "(case (hf_known_as_of f, el_events l) of
           (Some cutoff, e # _) \<Rightarrow>
             if ts_clock cutoff \<noteq> ts_clock (et_known (ev_times e))
             then Err (KnownClockMismatch (ts_clock (et_known (ev_times e))) (ts_clock cutoff))
             else Ok ()
         | _ \<Rightarrow> Ok ()) = Ok () \<longleftrightarrow> clock_ok l f"
  by (auto simp: clock_ok_def split: option.splits list.splits)

lemma cursor_check: "(case cursor of
             Some c \<Rightarrow>
               if hc_source c \<noteq> el_source l \<or> hc_epoch c \<noteq> el_epoch l \<or> hc_filter c \<noteq> f
                  \<or> hc_snapshot_len c > length (el_events l) \<or> hc_next_offset c > hc_snapshot_len c
               then Err InvalidCursor
               else Ok (hc_snapshot_len c, hc_next_offset c)
           | None \<Rightarrow> Ok (length (el_events l), 0)) = ok_or (cursor_at l f cursor) InvalidCursor"
  by (auto simp: cursor_at_def split: option.splits)

lemma cursor_at_bounds: "cursor_at l f cursor = Some (n, p) \<Longrightarrow> p \<le> n \<and> n \<le> length (el_events l)"
  by (auto simp: cursor_at_def split: option.splits if_splits)

lemma history_Ok:
  assumes ok: "log_history alloc l f b cursor = Ok page" and cur: "cursor_at l f cursor = Some (n, p)"
  shows "\<exists>q. page = page_from l f n p q \<and> p \<le> q \<and> q \<le> n \<and> (p < n \<longrightarrow> p < q)
       \<and> q - p \<le> max_scanned b \<and> length (hp_events page) \<le> max_results b"
proof -
  have pos: "max_results b > 0" "max_scanned b > 0"
    using ok by (auto simp: log_history_def split: if_splits)
  from history_loop_spec [of p n "el_events l" f b 0 "[]"] cursor_at_bounds [OF cur] obtain q where q:
    "history_loop (el_events l) f b n p 0 [] = Ok (filter (matches f) (slice (el_events l) p q), q - p, q)"
    "p \<le> q" "q \<le> n" "q - p \<le> max_scanned b" "p < n \<longrightarrow> p < q"
    "length (filter (matches f) (slice (el_events l) p q)) \<le> max_results b"
    using pos by auto
  have "page = page_from l f n p q"
    using ok pos unfolding log_history_def cursor_check cur
    by (simp add: rbind_eq_Ok q(1) page_from_def)
  then show ?thesis using q(2-6) by (intro exI [of _ q] conjI) (simp_all add: page_from_def)
qed

lemma history_total:
  assumes "\<forall>n. alloc n" and "max_results b > 0" and "max_scanned b > 0"
    and "clock_ok l f" and cur: "cursor_at l f cursor = Some (n, p)"
  shows "\<exists>page. log_history alloc l f b cursor = Ok page"
proof -
  obtain q where "history_loop (el_events l) f b n p 0 [] =
      Ok (filter (matches f) (slice (el_events l) p q), q - p, q)"
    using history_loop_spec [of p n "el_events l" f b 0 "[]"] cursor_at_bounds [OF cur] by auto
  then show ?thesis
    using assms clock_check [of f l]
    by (simp add: log_history_def cursor_check try_reserve_def)
qed

text \<open>Appends only extend a log.\<close>

definition log_extends :: "'c event_log \<Rightarrow> 'c event_log \<Rightarrow> bool" where
  "log_extends l l' \<longleftrightarrow> el_source l' = el_source l \<and> el_epoch l' = el_epoch l
     \<and> (\<exists>es. el_events l' = el_events l @ es)"

lemma log_extends_refl [simp]: "log_extends l l"
  by (simp add: log_extends_def)

lemma append_batch_extends: "log_inv l \<Longrightarrow> log_extends l (snd (append_batch l batch))"
  by (cases rule: append_batch_cases [of l batch]) (auto simp: log_extends_def appended_def)

text \<open>A client that follows continuations: each request finds the log at that time and has a budget of its own.
  \<open>None\<close> means that the requests were used up before the last page.\<close>

fun follow :: "(usize \<Rightarrow> bool) \<Rightarrow> history_filter \<Rightarrow> history_cursor option \<Rightarrow> ('c event_log \<times> query_budget) list
    \<Rightarrow> ('c event list, event_error) result option" where
  "follow alloc f cursor [] = None"
| "follow alloc f cursor ((l, b) # requests) = (case log_history alloc l f b cursor of
       Ok page \<Rightarrow> (case hp_continuation page of
           None \<Rightarrow> Some (Ok (hp_events page))
         | Some c \<Rightarrow> map_option (\<lambda>r. rbind r (\<lambda>rest. Ok (hp_events page @ rest))) (follow alloc f (Some c) requests))
     | Err e \<Rightarrow> Some (Err e)
     | Panic \<Rightarrow> Some Panic)"

lemma slice_extends: "log_extends l l' \<Longrightarrow> q \<le> length (el_events l) \<Longrightarrow>
  slice (el_events l') p q = slice (el_events l) p q"
  by (auto simp: log_extends_def slice_append_left)

lemma clock_ok_extends: "clock_ok l f \<Longrightarrow> log_extends l l' \<Longrightarrow> el_events l \<noteq> [] \<Longrightarrow> clock_ok l' f"
proof -
  assume ok: "clock_ok l f" and ext: "log_extends l l'" and "el_events l \<noteq> []"
  then obtain e rest where e: "el_events l = e # rest" by (cases "el_events l") simp_all
  obtain es where "el_events l' = el_events l @ es" using ext by (auto simp: log_extends_def)
  then have e': "el_events l' = e # (rest @ es)" using e by simp
  have "\<forall>cutoff. hf_known_as_of f = Some cutoff \<longrightarrow> ts_clock cutoff = ts_clock (et_known (ev_times e))"
    using ok e unfolding clock_ok_def by blast
  then show "clock_ok l' f" unfolding clock_ok_def e' by blast
qed

definition positive :: "query_budget \<Rightarrow> bool" where
  "positive b \<longleftrightarrow> max_results b > 0 \<and> max_scanned b > 0"

text \<open>Every page advances, so as many requests as events are left are enough, and one if none is left.\<close>

lemma follow_exact:
  assumes "\<forall>n. alloc n"
  shows "clock_ok l f \<Longrightarrow> cursor_at l f cursor = Some (n, p)
    \<Longrightarrow> successively (\<lambda>x y. log_extends (fst x) (fst y)) ((l, b) # requests) \<Longrightarrow> \<forall>x \<in> set ((l, b) # requests). positive (snd x)
    \<Longrightarrow> follow alloc f cursor ((l, b) # requests) = Some (Ok (filter (matches f) (slice (el_events l) p n)))
      \<or> follow alloc f cursor ((l, b) # requests) = None \<and> Suc (length requests) < n - p"
proof (induction requests arbitrary: l b cursor p)
  case Nil
  obtain page where page: "log_history alloc l f b cursor = Ok page"
    using history_total [OF assms _ _ Nil(1,2), of b] Nil(4) by (auto simp: positive_def)
  from history_Ok [OF page Nil(2)] obtain q where q: "page = page_from l f n p q" "q \<le> n" "p < n \<longrightarrow> p < q" "p \<le> q" by blast
  show ?case
  proof (cases "q < n")
    case True
    then have "Suc 0 < n - p" using q(3,4) by linarith
    then show ?thesis using page q True by (simp add: page_from_def)
  qed (use page q in \<open>simp add: page_from_def\<close>)
next
  case (Cons y requests)
  obtain l' b' where y: "y = (l', b')" by (cases y)
  obtain page where page: "log_history alloc l f b cursor = Ok page"
    using history_total [OF assms _ _ Cons.prems(1,2), of b] Cons.prems(4) by (auto simp: positive_def)
  from history_Ok [OF page Cons.prems(2)] obtain q where q: "page = page_from l f n p q" "p \<le> q" "q \<le> n" "p < n \<longrightarrow> p < q" by blast
  note bounds = cursor_at_bounds [OF Cons.prems(2)]
  have ext: "log_extends l l'" using Cons.prems(3) by (simp add: y)
  show ?case
  proof (cases "q < n")
    case True
    let ?c = "\<lparr>hc_source = el_source l, hc_epoch = el_epoch l, hc_snapshot_len = n, hc_next_offset = q, hc_filter = f\<rparr>"
    have c: "hp_continuation page = Some ?c" "hp_events page = filter (matches f) (slice (el_events l) p q)"
      using True q(1) by (simp_all add: page_from_def)
    have "clock_ok l' f" using clock_ok_extends [OF Cons.prems(1) ext] True bounds by fastforce
    moreover have "cursor_at l' f (Some ?c) = Some (n, q)" using ext q bounds by (auto simp: cursor_at_def log_extends_def)
    moreover have "successively (\<lambda>x y. log_extends (fst x) (fst y)) ((l', b') # requests)" using Cons.prems(3) by (simp add: y)
    ultimately have IH: "follow alloc f (Some ?c) ((l', b') # requests) = Some (Ok (filter (matches f) (slice (el_events l') q n)))
        \<or> follow alloc f (Some ?c) ((l', b') # requests) = None \<and> Suc (length requests) < n - q"
      using Cons.prems(4) by (intro Cons.IH) (simp_all add: y)
    have F: "follow alloc f cursor ((l, b) # y # requests)
        = map_option (\<lambda>r. rbind r (\<lambda>rest. Ok (hp_events page @ rest))) (follow alloc f (Some ?c) ((l', b') # requests))"
      using page c(1) by (simp add: y)
    show ?thesis using IH
    proof
      assume "follow alloc f (Some ?c) ((l', b') # requests) = Some (Ok (filter (matches f) (slice (el_events l') q n)))"
      then show ?thesis unfolding F c(2) using slice_extends [OF ext, of n q] slice_split [OF q(2,3), of "el_events l"] bounds by simp
    next
      assume none: "follow alloc f (Some ?c) ((l', b') # requests) = None \<and> Suc (length requests) < n - q"
      have "p < q" using q(2-4) True by linarith
      then have "Suc (Suc (length requests)) < n - p" using conjunct2 [OF none] by linarith
      then show ?thesis unfolding F using conjunct1 [OF none] by simp
    qed
  next
    case False
    then show ?thesis using page q by (simp add: page_from_def)
  qed
qed

subsection \<open>Properties\<close>

lemma log_new_inv: "log_new alloc source epoch n = Ok l \<Longrightarrow> log_inv l \<and> el_capacity l = n \<and> el_events l = []"
  by (auto simp: log_new_def log_inv_def log_known_def result_ok)

lemma log_run_inv: "log_new alloc source epoch n = Ok l0 \<Longrightarrow> log_inv (snd (run_ops append_batch l0 batches))"
  by (rule run_ops_invar) (auto simp: append_batch_inv log_new_inv)

lemma log_run_frame:
  assumes "log_new alloc source epoch n = Ok l0"
  shows "el_capacity (snd (run_ops append_batch l0 batches)) = n"
proof -
  have "log_inv (snd (run_ops append_batch l0 batches)) \<and> el_capacity (snd (run_ops append_batch l0 batches)) = n"
  proof (rule run_ops_invar)
    fix l :: "'a event_log" and batch
    assume l: "log_inv l \<and> el_capacity l = n"
    then have "log_inv l" by simp
    then show "log_inv (snd (append_batch l batch)) \<and> el_capacity (snd (append_batch l batch)) = n"
      by (cases rule: append_batch_cases [of l batch]) (use l appended_inv in \<open>auto simp: appended_def\<close>)
  qed (use log_new_inv [OF assms] in simp)
  then show ?thesis by simp
qed

text \<open>C4: Batch admission is all or nothing and exact. On any log reached from a new one, a batch is
  admitted if and only if it is nonempty, fits the remaining capacity and its known times continue
  those of the log on the same clock without decreasing; then every input is appended in order with
  contiguous source-local identities, and the receipt names the first, the last and the count.
  Otherwise an error is returned, and the log is unchanged.\<close>

theorem append_batch_atomic:
  assumes "log_new alloc source epoch n = Ok l0" and "l = snd (run_ops append_batch l0 batches)"
  shows "if batch_ok l batch
         then append_batch l batch =
           (Ok \<lparr>vr_first = id_at l (length (el_events l)),
                vr_last = id_at l (length (el_events l) + length batch - 1), vr_count = length batch\<rparr>,
            appended l batch)
         else \<exists>e. append_batch l batch = (Err e, l)"
proof -
  have "log_inv l" unfolding assms(2) using assms(1) by (rule log_run_inv)
  then show ?thesis by (cases rule: append_batch_cases [of l batch]) auto
qed

text \<open>Inputs for the witnesses: known clock 2, entity slot and times as given.\<close>

definition sample_input :: "u32 \<Rightarrow> u64 \<Rightarrow> u64 \<Rightarrow> u64 event_input" where
  "sample_input slot valid known =
     \<lparr>ei_entity = \<lparr>ent_shard = 0, ent_slot = slot, ent_generation = 0\<rparr>,
      ei_times = \<lparr>et_valid = \<lparr>ts_clock = 1, ts_ticks = valid\<rparr>, et_observed = None,
                   et_known = \<lparr>ts_clock = 2, ts_ticks = known\<rparr>\<rparr>,
      ei_change = valid\<rparr>"

definition sample_log :: "u64 event_log" where
  "sample_log = \<lparr>el_source = 1, el_epoch = 3, el_capacity = 4, el_events = []\<rparr>"

lemma log_new_sample: "log_new (\<lambda>_. True) 1 3 4 = Ok sample_log"
  by (simp add: log_new_def sample_log_def try_reserve_def)

lemmas log_eval = sample_log_def sample_input_def append_batch_def check_capacity_def remaining_capacity_def
  check_known_time_def last_known_def push_validated_def id_at_def Let_def batch_ok_def log_known_def
  known_le_def appended_def event_at_def log_append_def

theorem append_batch_atomic_witness:
  "append_batch (snd (run_ops append_batch sample_log [[sample_input 1 10 2]]))
        [sample_input 1 11 3, sample_input 1 12 1]
      = (Err (KnownTimeRegression 3 1), snd (run_ops append_batch sample_log [[sample_input 1 10 2]]))
   \<and> (\<exists>r. append_batch (snd (run_ops append_batch sample_log [[sample_input 1 10 2]])) [sample_input 1 9 3]
        = (Ok r, appended (snd (run_ops append_batch sample_log [[sample_input 1 10 2]])) [sample_input 1 9 3]))"
proof -
  let ?l = "snd (run_ops append_batch sample_log [[sample_input 1 10 2]])"
  have "append_batch ?l [sample_input 1 11 3, sample_input 1 12 1] = (Err (KnownTimeRegression 3 1), ?l)"
    by (simp add: log_eval)
  moreover have "batch_ok ?l [sample_input 1 9 3]" by (simp add: log_eval)
  ultimately show ?thesis
    using append_batch_atomic [OF log_new_sample refl, of "[[sample_input 1 10 2]]" "[sample_input 1 9 3]"] by auto
qed

text \<open>C5: In every reachable log the event at position \<open>i\<close> carries the identity of its source, epoch
  and sequence \<open>i\<close>, known times are on one clock and nondecreasing, and the capacity is respected; and
  \<open>get\<close> returns exactly the event with the requested identity, and an unknown-event error for every
  identity that no event of the log has.\<close>

theorem log_identity_lookup:
  assumes "log_new alloc source epoch n = Ok l0" and "n < usize_limit"
    and "l = snd (run_ops append_batch l0 batches)"
  shows "length (el_events l) \<le> n
       \<and> (\<forall>i < length (el_events l). ev_id (el_events l ! i) = id_at l i \<and> log_get l (id_at l i) = Ok (el_events l ! i))
       \<and> (\<forall>i j. i < j \<and> j < length (el_events l) \<longrightarrow>
            known_le (et_known (ev_times (el_events l ! i))) (et_known (ev_times (el_events l ! j))))
       \<and> (\<forall>h. h \<notin> ev_id ` set (el_events l) \<longrightarrow> log_get l h = Err (UnknownEvent h))"
proof -
  have inv: "log_inv l" unfolding assms(3) using assms(1) by (rule log_run_inv)
  have cap: "length (el_events l) \<le> n"
    using inv log_run_frame [OF assms(1)] by (simp add: log_inv_def assms(3))
  have get: "log_get l (id_at l i) = Ok (el_events l ! i)" if "i < length (el_events l)" for i
    using that cap assms(2) by (simp add: log_get_def id_at_def)
  have ids: "ev_id (el_events l ! i) = id_at l i" if "i < length (el_events l)" for i
    using that inv by (simp add: log_inv_def)
  have "log_get l h = Err (UnknownEvent h)" if h: "h \<notin> ev_id ` set (el_events l)" for h
  proof (rule ccontr)
    assume "log_get l h \<noteq> Err (UnknownEvent h)"
    then have lt: "unat (eid_sequence h) < length (el_events l)"
      and "eid_source h = el_source l" "eid_epoch h = el_epoch l"
      by (auto simp: log_get_def split: if_splits)
    then have "h = ev_id (el_events l ! unat (eid_sequence h))"
      using ids [OF lt] by (cases h) (simp add: id_at_def)
    with h lt show False by (metis imageI nth_mem)
  qed
  moreover have "\<forall>i j. i < j \<and> j < length (el_events l) \<longrightarrow>
            known_le (et_known (ev_times (el_events l ! i))) (et_known (ev_times (el_events l ! j)))"
    using inv by (auto simp: log_inv_def log_known_def sorted_wrt_iff_nth_less)
  ultimately show ?thesis using cap get ids by blast
qed

theorem log_identity_lookup_witness:
  "(4::nat) < usize_limit
   \<and> log_get (snd (run_ops append_batch sample_log [[sample_input 1 10 2]])) \<lparr>eid_source = 1, eid_epoch = 4, eid_sequence = 0\<rparr>
      = Err (UnknownEvent \<lparr>eid_source = 1, eid_epoch = 4, eid_sequence = 0\<rparr>)"
  using log_identity_lookup [OF log_new_sample, of _ "[[sample_input 1 10 2]]"]
  by (simp add: log_eval)

lemma run_append_ok:
  "log_inv l \<Longrightarrow> batch \<noteq> [] \<Longrightarrow>
   (batch_ok l batch \<longleftrightarrow> (\<forall>r \<in> set (fst (run_ops log_append l batch)). is_ok r))
   \<and> (batch_ok l batch \<longrightarrow> snd (run_ops log_append l batch) = appended l batch)"
proof (induction batch arbitrary: l)
  case (Cons inp batch)
  have one: "if batch_ok l [inp] then log_append l inp = (Ok \<lparr>vr_first = id_at l (length (el_events l)),
      vr_last = id_at l (length (el_events l)), vr_count = 1\<rparr>, appended l [inp])
    else \<exists>e. log_append l inp = (Err e, l)"
    using Cons.prems(1) by (cases rule: append_batch_cases [of l "[inp]"]) (auto simp: log_append_batch)
  show ?case
  proof (cases "batch = []")
    case True
    then show ?thesis using one by (auto split: if_splits)
  next
    case False
    have split: "batch_ok l (inp # batch) \<longleftrightarrow> batch_ok l [inp] \<and> batch_ok (appended l [inp]) batch"
      using batch_ok_append [OF Cons.prems(1), of "[inp]" batch] False by simp
    have app: "appended l (inp # batch) = appended (appended l [inp]) batch"
      using appended_append [of l "[inp]" batch] by simp
    show ?thesis
    proof (cases "batch_ok l [inp]")
      case True
      then show ?thesis
        using one split app Cons.IH [OF appended_inv [OF Cons.prems(1) True] False] by simp
    next
      case f: False
      then show ?thesis using one split by auto
    qed
  qed
qed simp

text \<open>A batch is the sequence of its single appends: a nonempty batch is admitted exactly when
  appending its inputs one by one succeeds throughout, and both leave the same log.\<close>

theorem append_batch_sequential:
  assumes "log_new alloc source epoch n = Ok l0" and "l = snd (run_ops append_batch l0 batches)" and "batch \<noteq> []"
  shows "(is_ok (fst (append_batch l batch)) \<longleftrightarrow> (\<forall>r \<in> set (fst (run_ops log_append l batch)). is_ok r))
       \<and> (is_ok (fst (append_batch l batch)) \<longrightarrow> snd (append_batch l batch) = snd (run_ops log_append l batch))"
proof -
  have inv: "log_inv l" unfolding assms(2) using assms(1) by (rule log_run_inv)
  show ?thesis
    using inv by (cases rule: append_batch_cases [of l batch]) (use run_append_ok [OF inv assms(3)] in auto)
qed

theorem append_batch_sequential_witness:
  "snd (append_batch sample_log [sample_input 1 5 1, sample_input 1 2 1])
     = snd (run_ops log_append sample_log [sample_input 1 5 1, sample_input 1 2 1])"
  using append_batch_sequential [OF log_new_sample refl, of "[sample_input 1 5 1, sample_input 1 2 1]" "[]"]
  by (simp add: log_eval)

text \<open>C6: Paging is complete, stable and terminates. Let a client follow the continuations of a first request with
  positive budgets of its choice, each time a new one, while the log grows between requests, and let the
  allocator succeed. If the cutoff of the filter, when there is one, is on the log's clock, no request fails; the
  client is done after at most as many requests as the log had events (one, if it had none), however small the
  budgets; and what it has received then is exactly the events of the log at the first request that match the filter,
  in order and each once. With a cutoff on another clock than the first event's every request is refused.\<close>

theorem history_paging_complete:
  assumes "\<forall>n. alloc n" and "successively (\<lambda>x y. log_extends (fst x) (fst y)) ((l, b) # requests)"
    and "\<forall>x \<in> set ((l, b) # requests). max_results (snd x) > 0 \<and> max_scanned (snd x) > 0"
  shows "(clock_ok l f \<longrightarrow>
         (follow alloc f None ((l, b) # requests) = None \<or> follow alloc f None ((l, b) # requests) = Some (Ok (filter (matches f) (el_events l))))
       \<and> (length (el_events l) \<le> length ((l, b) # requests) \<longrightarrow>
            follow alloc f None ((l, b) # requests) = Some (Ok (filter (matches f) (el_events l)))))
    \<and> (\<not> clock_ok l f \<longrightarrow> (\<exists>expected actual. expected \<noteq> actual \<and> log_history alloc l f b cursor = Err (KnownClockMismatch expected actual)))"
proof (intro conjI impI)
  have cur: "cursor_at l f None = Some (length (el_events l), 0)" by (simp add: cursor_at_def)
  assume "clock_ok l f"
  from follow_exact [OF assms(1) this cur assms(2)] assms(3)
  have F: "follow alloc f None ((l, b) # requests) = Some (Ok (filter (matches f) (el_events l)))
      \<or> follow alloc f None ((l, b) # requests) = None \<and> Suc (length requests) < length (el_events l)" by (simp add: positive_def)
  then show "follow alloc f None ((l, b) # requests) = None \<or> follow alloc f None ((l, b) # requests) = Some (Ok (filter (matches f) (el_events l)))"
    by blast
  show "follow alloc f None ((l, b) # requests) = Some (Ok (filter (matches f) (el_events l)))"
    if "length (el_events l) \<le> length ((l, b) # requests)"
    using F that by auto
next
  assume "\<not> clock_ok l f"
  then obtain cutoff e rest where c: "hf_known_as_of f = Some cutoff" "el_events l = e # rest" "ts_clock cutoff \<noteq> ts_clock (et_known (ev_times e))"
    by (auto simp: clock_ok_def)
  then show "\<exists>expected actual. expected \<noteq> actual \<and> log_history alloc l f b cursor = Err (KnownClockMismatch expected actual)"
    using assms(3) by (intro exI [of _ "ts_clock (et_known (ev_times e))"] exI [of _ "ts_clock cutoff"]) (simp add: log_history_def)
qed

definition sample_filter :: history_filter where
  "sample_filter = \<lparr>hf_entity = Some \<lparr>ent_shard = 0, ent_slot = 1, ent_generation = 0\<rparr>,
     hf_time = Some (Valid, \<lparr>tr_clock = 1, tr_start = 0, tr_end = 10\<rparr>),
     hf_known_as_of = Some \<lparr>ts_clock = 2, ts_ticks = 10\<rparr>\<rparr>"

theorem history_paging_complete_witness:
  "follow (\<lambda>_. True) sample_filter None
      (replicate 3 (appended sample_log [sample_input 1 5 10, sample_input 1 3 20, sample_input 2 6 25], \<lparr>max_results = 1, max_scanned = 1\<rparr>))
    = Some (Ok [event_at sample_log 0 (sample_input 1 5 10)])"
proof -
  let ?l = "appended sample_log [sample_input 1 5 10, sample_input 1 3 20, sample_input 2 6 25]" and ?b = "\<lparr>max_results = 1, max_scanned = 1\<rparr>"
  have "clock_ok ?l sample_filter"
    by (simp add: clock_ok_def sample_filter_def log_eval upt_rec)
  moreover have "filter (matches sample_filter) (el_events ?l) = [event_at sample_log 0 (sample_input 1 5 10)]"
    by (simp add: sample_filter_def log_eval upt_rec matches_def range_contains_def)
  moreover have "length (el_events ?l) = 3" by (simp add: log_eval upt_rec)
  moreover have "replicate 3 (?l, ?b) = (?l, ?b) # [(?l, ?b), (?l, ?b)]" by (simp add: numeral_3_eq_3)
  ultimately show ?thesis
    using history_paging_complete [of "\<lambda>_. True" ?l ?b "[(?l, ?b), (?l, ?b)]" sample_filter] by simp
qed

end
