(* ===== verification/Codec_Frame.thy ===== *)
theory Codec_Frame
  imports Rust_Prelude
begin

section \<open>The codec frame and the codec contract (\<open>temnion-codec\<close>)\<close>

text \<open>
  Every codec wraps its compressed body in the same 20-byte header: magic, codec id, version, flags,
  original length, checksum of the body, checksum of the header. The checksum function
  (\<open>crc32fast::hash\<close>, a third-party crate) is the parameter \<open>crc\<close>, an arbitrary function: no
  property below needs more of it than that it is one. \<open>alloc\<close> is the allocator's answer to
  \<open>try_reserve_exact\<close>.

  The locale \<open>lossless_codec\<close> is the contract of the trait \<open>Codec\<close>; the theories of the five codecs
  interpret it.
\<close>

datatype codec_id = Raw | Rle | BitPack | DeltaFor | Xor

datatype codec_error =
    CxIncomplete usize usize
  | CxInvalidMagic
  | CxUnsupportedVersion u8
  | CxChecksumMismatch
  | CxLengthMismatch usize usize
  | CxUnknownCodec u8
  | CxInvalidData string
  | CxAllocationFailed
  | CxOutputTooLarge usize usize

definition CODEC_MAGIC :: bytes where
  "CODEC_MAGIC = [0x54, 0x4E, 0x43, 0x58]"

definition CODEC_VERSION :: u8 where
  "CODEC_VERSION = 1"

definition CODEC_HEADER_LEN :: usize where
  "CODEC_HEADER_LEN = 20"

text \<open>The discriminant \<open>id as u8\<close>.\<close>

fun codec_byte :: "codec_id \<Rightarrow> u8" where
  "codec_byte Raw = 0"
| "codec_byte Rle = 1"
| "codec_byte BitPack = 2"
| "codec_byte DeltaFor = 3"
| "codec_byte Xor = 4"

definition codec_from_u8 :: "u8 \<Rightarrow> (codec_id, codec_error) result" where
  "codec_from_u8 v =
     (if v = 0 then Ok Raw
      else if v = 1 then Ok Rle
      else if v = 2 then Ok BitPack
      else if v = 3 then Ok DeltaFor
      else if v = 4 then Ok Xor
      else Err (CxUnknownCodec v))"

definition frame_compressed :: "(bytes \<Rightarrow> u32) \<Rightarrow> (usize \<Rightarrow> bool) \<Rightarrow> codec_id \<Rightarrow> usize \<Rightarrow> bytes
    \<Rightarrow> (bytes, codec_error) result" where
  "frame_compressed crc alloc cid original_len body =
     (if original_len > unat (- 1 :: u32) then Err (CxOutputTooLarge original_len (unat (- 1 :: u32)))
      else let h16 = CODEC_MAGIC @ [codec_byte cid] @ [CODEC_VERSION] @ to_le 2 (0 :: u16)
                      @ to_le 4 (of_nat original_len :: u32) @ to_le 4 (crc body);
               header = h16 @ to_le 4 (crc h16)
           in rbind (try_reserve alloc (CODEC_HEADER_LEN + length body) CxAllocationFailed) (\<lambda>_.
                Ok (header @ body)))"

definition verify_frame :: "(bytes \<Rightarrow> u32) \<Rightarrow> codec_id \<Rightarrow> bytes \<Rightarrow> usize \<Rightarrow> (bytes, codec_error) result" where
  "verify_frame crc expected_id compressed expected_len =
     (if length compressed < CODEC_HEADER_LEN
      then Err (CxIncomplete CODEC_HEADER_LEN (length compressed))
      else if slice compressed 0 4 \<noteq> CODEC_MAGIC then Err CxInvalidMagic
      else rbind (codec_from_u8 (compressed ! 4)) (\<lambda>cid.
        if cid \<noteq> expected_id then Err (CxInvalidData ''codec id mismatch in frame header'')
        else if compressed ! 5 \<noteq> CODEC_VERSION then Err (CxUnsupportedVersion (compressed ! 5))
        else if crc (slice compressed 0 16) \<noteq> from_le (slice compressed 16 20) then Err CxChecksumMismatch
        else if unat (from_le (slice compressed 8 12) :: u32) \<noteq> expected_len
        then Err (CxLengthMismatch expected_len (unat (from_le (slice compressed 8 12) :: u32)))
        else if crc (drop CODEC_HEADER_LEN compressed) \<noteq> from_le (slice compressed 12 16)
        then Err CxChecksumMismatch
        else Ok (drop CODEC_HEADER_LEN compressed)))"

subsection \<open>Facts about frames\<close>

lemma unat_u32_max [simp]: "unat (- 1 :: u32) = 4294967295"
  by (simp add: unsigned_minus_1_eq_mask mask_eq_exp_minus_1)

lemma codec_from_byte [simp]: "codec_from_u8 (codec_byte cid) = Ok cid"
  by (cases cid) (simp_all add: codec_from_u8_def)

lemma codec_from_u8_Ok: "codec_from_u8 v = Ok cid \<longleftrightarrow> v = codec_byte cid"
  by (cases cid) (auto simp: codec_from_u8_def)

lemma frame_Ok:
  assumes "frame_compressed crc alloc cid n body = Ok out"
  shows "n < 2 ^ 32 \<and> (\<exists>h16. length h16 = 16 \<and> out = h16 @ to_le 4 (crc h16) @ body
     \<and> h16 = CODEC_MAGIC @ [codec_byte cid] @ [CODEC_VERSION] @ to_le 2 (0 :: u16)
                      @ to_le 4 (of_nat n :: u32) @ to_le 4 (crc body))"
  using assms by (auto simp: frame_compressed_def Let_def result_ok CODEC_MAGIC_def split: if_splits)

lemma frame_total: "n < 2 ^ 32 \<Longrightarrow> alloc (20 + length body) \<Longrightarrow> is_ok (frame_compressed crc alloc cid n body)"
  by (simp add: frame_compressed_def Let_def try_reserve_def CODEC_HEADER_LEN_def)

lemma frame_not_Panic [simp]: "frame_compressed crc alloc cid n body \<noteq> Panic"
  by (simp add: frame_compressed_def Let_def try_reserve_def)

lemma verify_frame_not_Panic [simp]: "verify_frame crc cid c n \<noteq> Panic"
  by (auto simp: verify_frame_def rbind_eq_Panic codec_from_u8_def)

text \<open>What a frame built by \<open>frame_compressed\<close> holds at each offset the verifier reads.\<close>

lemma frame_slices:
  fixes body :: bytes and f :: u16 and n c k :: u32 and i v :: u8
  defines "h16 \<equiv> CODEC_MAGIC @ [i] @ [v] @ to_le 2 f @ to_le 4 n @ to_le 4 c"
  shows "slice (h16 @ to_le 4 k @ body) 0 4 = CODEC_MAGIC"
    "(h16 @ to_le 4 k @ body) ! 4 = i" "(h16 @ to_le 4 k @ body) ! 5 = v"
    "slice (h16 @ to_le 4 k @ body) 0 16 = h16" "slice (h16 @ to_le 4 k @ body) 16 20 = to_le 4 k"
    "slice (h16 @ to_le 4 k @ body) 8 12 = to_le 4 n" "slice (h16 @ to_le 4 k @ body) 12 16 = to_le 4 c"
    "drop 20 (h16 @ to_le 4 k @ body) = body" "length (h16 @ to_le 4 k @ body) = 20 + length body"
  by (simp_all add: h16_def CODEC_MAGIC_def slice_def numeral_eq_Suc)

lemma verify_frame_compressed:
  assumes "frame_compressed crc alloc cid n body = Ok out"
  shows "verify_frame crc cid out n = Ok body"
proof -
  obtain h16 where "n < 2 ^ 32" and out: "out = h16 @ to_le 4 (crc h16) @ body"
    and h16: "h16 = CODEC_MAGIC @ [codec_byte cid] @ [CODEC_VERSION] @ to_le 2 (0 :: u16)
                      @ to_le 4 (of_nat n :: u32) @ to_le 4 (crc body)"
    using frame_Ok [OF assms] by blast
  then have "unat (of_nat n :: u32) = n" by simp
  then show ?thesis
    using frame_slices [of "codec_byte cid" CODEC_VERSION 0 "of_nat n" "crc body" "crc h16" body]
    unfolding out h16 by (simp add: verify_frame_def CODEC_HEADER_LEN_def)
qed

text \<open>Conversely an accepted frame has the expected magic, id, version and length, and both stored
  checksums agree with the bytes they cover.\<close>

lemma verify_frame_Ok:
  assumes "verify_frame crc cid c n = Ok body"
  shows "20 \<le> length c \<and> take 4 c = CODEC_MAGIC \<and> c ! 4 = codec_byte cid \<and> c ! 5 = CODEC_VERSION
       \<and> unat (from_le (slice c 8 12) :: u32) = n \<and> from_le (slice c 16 20) = crc (take 16 c)
       \<and> from_le (slice c 12 16) = crc body \<and> body = drop 20 c"
  using assms
  by (auto simp: verify_frame_def result_ok codec_from_u8_Ok CODEC_HEADER_LEN_def slice_def split: if_splits)

subsection \<open>The contract of a codec\<close>

text \<open>\<open>good\<close> says for which inputs the codec promises losslessness.\<close>

locale lossless_codec =
  fixes enc :: "bytes \<Rightarrow> (bytes, codec_error) result"
    and dec :: "bytes \<Rightarrow> usize \<Rightarrow> (bytes, codec_error) result"
    and good :: "bytes \<Rightarrow> bool"
    and alloc :: "usize \<Rightarrow> bool"
  assumes enc_no_panic: "enc xs \<noteq> Panic"
    and roundtrip: "good xs \<Longrightarrow> alloc (length xs) \<Longrightarrow> enc xs = Ok c \<Longrightarrow> dec c (length xs) = Ok xs"
begin

lemma enc_inj: "good xs \<Longrightarrow> good ys \<Longrightarrow> alloc (length xs) \<Longrightarrow> length xs = length ys
    \<Longrightarrow> enc xs = Ok c \<Longrightarrow> enc ys = Ok c \<Longrightarrow> xs = ys"
  by (metis roundtrip result.inject(1))

end

subsection \<open>The raw codec\<close>

definition raw_encode :: "(bytes \<Rightarrow> u32) \<Rightarrow> (usize \<Rightarrow> bool) \<Rightarrow> bytes \<Rightarrow> (bytes, codec_error) result" where
  "raw_encode crc alloc input = frame_compressed crc alloc Raw (length input) input"

definition raw_decode :: "(bytes \<Rightarrow> u32) \<Rightarrow> (usize \<Rightarrow> bool) \<Rightarrow> bytes \<Rightarrow> usize \<Rightarrow> (bytes, codec_error) result" where
  "raw_decode crc alloc compressed expected_len =
     rbind (verify_frame crc Raw compressed expected_len) (\<lambda>body.
     rbind (try_reserve alloc (length body) CxAllocationFailed) (\<lambda>_. Ok body))"

interpretation raw: lossless_codec "raw_encode crc alloc" "raw_decode crc alloc" "\<lambda>_. True" alloc for crc alloc
  by unfold_locales (simp_all add: raw_encode_def raw_decode_def verify_frame_compressed try_reserve_def)

end
