(* ===== verification/Codec_Rle.thy ===== *)
theory Codec_Rle
  imports Codec_Frame
begin

section \<open>The run-length codec (\<open>RleCodec\<close>)\<close>

text \<open>
  The loops of the code walk an index over the input; the definitions walk the suffix at that index
  (\<open>xs\<close> is \<open>input[i..]\<close>). \<open>count_run\<close> is the inner loop that measures a run, \<open>collect_lits\<close> the
  one that gathers literals. The subtraction \<open>lit_len - 1\<close> on \<open>usize\<close> would panic on an empty literal
  group: that branch is kept, and \<open>rle_encode_loop_ok\<close> shows it is never taken.
\<close>

fun count_run :: "u8 \<Rightarrow> bytes \<Rightarrow> usize \<Rightarrow> usize" where
  "count_run b [] run_len = run_len"
| "count_run b (x # xs) run_len =
     (if x = b \<and> run_len < 130 then count_run b xs (run_len + 1) else run_len)"

definition starts_run :: "bytes \<Rightarrow> bool" where
  "starts_run xs \<longleftrightarrow> 2 < length xs \<and> xs ! 0 = xs ! 1 \<and> xs ! 0 = xs ! 2"

fun collect_lits :: "bytes \<Rightarrow> usize \<Rightarrow> usize" where
  "collect_lits [] lit_len = lit_len"
| "collect_lits (x # xs) lit_len =
     (if lit_len < 128
      then if starts_run (x # xs) then lit_len else collect_lits xs (lit_len + 1)
      else lit_len)"

function rle_encode_loop :: "bytes \<Rightarrow> bytes \<Rightarrow> (bytes, codec_error) result" where
  "rle_encode_loop xs body =
     (if xs = [] then Ok body
      else let b = hd xs; run_len = count_run b (tl xs) 1 in
        if run_len \<ge> 3
        then rle_encode_loop (drop run_len xs) (body @ [0x80 OR of_nat (run_len - 3), b])
        else let lit_len = collect_lits xs 0 in
          if lit_len = 0 then Panic
          else rle_encode_loop (drop lit_len xs) (body @ [of_nat (lit_len - 1)] @ take lit_len xs))"
  by auto
termination
  by (relation "measure (\<lambda>(xs, _). length xs)") auto

declare rle_encode_loop.simps [simp del]

definition rle_encode :: "(bytes \<Rightarrow> u32) \<Rightarrow> (usize \<Rightarrow> bool) \<Rightarrow> bytes \<Rightarrow> (bytes, codec_error) result" where
  "rle_encode crc alloc input =
     rbind (rle_encode_loop input []) (\<lambda>body. frame_compressed crc alloc Rle (length input) body)"

function rle_decode_loop :: "usize \<Rightarrow> bytes \<Rightarrow> bytes \<Rightarrow> (bytes, codec_error) result" where
  "rle_decode_loop expected_len [] out = Ok out"
| "rle_decode_loop expected_len (tag # rest) out =
     (if tag AND 0x80 \<noteq> 0
      then let run_len = unat (tag AND 0x7F) + 3 in
        case rest of
          [] \<Rightarrow> Err (CxInvalidData ''truncated RLE run payload'')
        | b # rest' \<Rightarrow>
            if length out + run_len > expected_len
            then Err (CxInvalidData ''RLE run exceeds expected length'')
            else rle_decode_loop expected_len rest' (out @ replicate run_len b)
      else let lit_len = unat tag + 1 in
        if lit_len > length rest then Err (CxInvalidData ''truncated RLE literal payload'')
        else if length out + lit_len > expected_len
        then Err (CxInvalidData ''RLE literals exceed expected length'')
        else rle_decode_loop expected_len (drop lit_len rest) (out @ take lit_len rest))"
  by pat_completeness auto
termination
  by (relation "measure (\<lambda>(_, body, _). length body)") auto

definition rle_decode :: "(bytes \<Rightarrow> u32) \<Rightarrow> (usize \<Rightarrow> bool) \<Rightarrow> bytes \<Rightarrow> usize \<Rightarrow> (bytes, codec_error) result" where
  "rle_decode crc alloc compressed expected_len =
     rbind (verify_frame crc Rle compressed expected_len) (\<lambda>body.
     rbind (try_reserve alloc expected_len CxAllocationFailed) (\<lambda>_.
     rbind (rle_decode_loop expected_len body []) (\<lambda>out.
       if length out \<noteq> expected_len then Err (CxLengthMismatch expected_len (length out)) else Ok out)))"

subsection \<open>The two scanning loops\<close>

lemma count_run_bounds: "n \<le> 130 \<Longrightarrow> n \<le> count_run b xs n \<and> count_run b xs n \<le> 130"
  by (induction b xs n rule: count_run.induct) auto

lemma count_run_replicate:
  "count_run b xs n \<le> n + length xs \<and> take (count_run b xs n - n) xs = replicate (count_run b xs n - n) b"
proof (induction b xs n rule: count_run.induct)
  case (2 b x xs n)
  show ?case
  proof (cases "x = b \<and> n < 130")
    case True
    let ?c = "count_run b xs (n + 1)"
    have le: "n + 1 \<le> ?c" using count_run_bounds [of "n + 1" b xs] True by simp
    then have "?c - n = Suc (?c - (n + 1))" by simp
    then show ?thesis using 2 True le by simp
  next
    case False
    then show ?thesis by auto
  qed
qed simp

lemma count_run_starts: "xs \<noteq> [] \<Longrightarrow> count_run (hd xs) (tl xs) 1 < 3 \<Longrightarrow> \<not> starts_run xs"
  by (cases xs; cases "tl xs"; cases "tl (tl xs)")
     (auto simp: starts_run_def dest!: order.strict_trans1 [OF conjunct1 [OF count_run_bounds], rotated])

lemma collect_lits_bounds:
  "n \<le> 128 \<Longrightarrow> n \<le> collect_lits xs n \<and> collect_lits xs n \<le> 128 \<and> collect_lits xs n \<le> n + length xs"
  by (induction xs n rule: collect_lits.induct) auto

lemma collect_lits_pos: "xs \<noteq> [] \<Longrightarrow> \<not> starts_run xs \<Longrightarrow> 1 \<le> collect_lits xs 0"
  using collect_lits_bounds [of 1 "tl xs"] by (cases xs) auto

subsection \<open>Tags\<close>

lemma small_tag: "k < 128 \<Longrightarrow> take_bit 7 (of_nat k :: u8) = of_nat k"
  by (simp add: word_unat_eq_iff unsigned_take_bit_eq take_bit_nat_eq_self)

lemma run_tag:
  assumes "k < 128"
  shows "(0x80 OR of_nat k :: u8) AND 0x80 \<noteq> 0" "unat ((0x80 OR of_nat k :: u8) AND 0x7F) = k"
proof -
  have "(0x80 OR of_nat k :: u8) AND 0x80 = 0x80"
    by (rule bit_word_eqI) (auto simp: bit_simps)
  then show "(0x80 OR of_nat k :: u8) AND 0x80 \<noteq> 0" by simp
  have "(0x80 OR of_nat k :: u8) AND 0x7F = of_nat k AND mask 7"
    by (simp add: bit.conj_disj_distrib2 mask_numeral)
  also have "\<dots> = of_nat k" using small_tag [OF assms] by (simp add: take_bit_eq_mask)
  finally show "unat ((0x80 OR of_nat k :: u8) AND 0x7F) = k"
    using assms by simp
qed

lemma lit_tag:
  assumes "k < 128"
  shows "(of_nat k :: u8) AND 0x80 = 0" "unat (of_nat k :: u8) = k"
proof -
  have "(of_nat k :: u8) AND 0x80 = of_nat k AND (mask 7 AND 0x80)"
    by (metis and.assoc take_bit_eq_mask small_tag [OF assms])
  then show "(of_nat k :: u8) AND 0x80 = 0" by (simp add: mask_numeral)
  show "unat (of_nat k :: u8) = k" using assms by simp
qed

subsection \<open>Round trip\<close>

text \<open>The encoder always finishes, and what it appended decodes back to exactly what it consumed,
  whatever follows and whatever was decoded before.\<close>

lemma rle_encode_loop_ok:
  "\<exists>ys. rle_encode_loop xs body = Ok (body @ ys)
      \<and> (\<forall>n zs out. length out + length xs \<le> n \<longrightarrow>
            rle_decode_loop n (ys @ zs) out = rle_decode_loop n zs (out @ xs))"
proof (induction xs body rule: rle_encode_loop.induct)
  case (1 xs body)
  let ?b = "hd xs" let ?r = "count_run ?b (tl xs) 1" let ?l = "collect_lits xs 0"
  show ?case
  proof (cases "xs = []")
    case True
    then show ?thesis by (simp add: rle_encode_loop.simps)
  next
    case ne: False
    show ?thesis
    proof (cases "3 \<le> ?r")
      case True
      obtain ys where ys: "rle_encode_loop (drop ?r xs) (body @ [0x80 OR of_nat (?r - 3), ?b])
            = Ok ((body @ [0x80 OR of_nat (?r - 3), ?b]) @ ys)"
        and dec: "\<And>n zs out. length out + length (drop ?r xs) \<le> n \<Longrightarrow>
            rle_decode_loop n (ys @ zs) out = rle_decode_loop n zs (out @ drop ?r xs)"
        using 1(1) [OF ne refl refl True] by blast
      have r: "?r \<le> 130" "?r \<le> length xs" and rep: "take ?r xs = replicate ?r ?b"
        using count_run_bounds [of 1 ?b "tl xs"] count_run_replicate [of ?b "tl xs" 1] ne True
        by (cases xs; cases ?r; simp)+
      have "replicate ?r ?b @ drop ?r xs = xs" by (metis rep append_take_drop_id)
      then show ?thesis
        using ys dec ne True r run_tag [of "?r - 3"]
        by (intro exI [of _ "[0x80 OR of_nat (?r - 3), ?b] @ ys"])
           (simp add: rle_encode_loop.simps [of xs] Let_def)
    next
      case False
      then have pos: "1 \<le> ?l" using collect_lits_pos [OF ne] count_run_starts [OF ne] by simp
      have l: "?l \<le> 128" "?l \<le> length xs" using collect_lits_bounds [of 0 xs] by simp_all
      obtain ys where ys: "rle_encode_loop (drop ?l xs) (body @ [of_nat (?l - 1)] @ take ?l xs)
            = Ok ((body @ [of_nat (?l - 1)] @ take ?l xs) @ ys)"
        and dec: "\<And>n zs out. length out + length (drop ?l xs) \<le> n \<Longrightarrow>
            rle_decode_loop n (ys @ zs) out = rle_decode_loop n zs (out @ drop ?l xs)"
        using 1(2) [OF ne refl refl False refl] pos by auto
      show ?thesis
        using ys dec ne False pos l lit_tag [of "?l - 1"]
        by (intro exI [of _ "[of_nat (?l - 1)] @ take ?l xs @ ys"])
           (simp add: rle_encode_loop.simps [of xs] Let_def)
    qed
  qed
qed

lemma rle_roundtrip:
  assumes "alloc (length xs)" and "rle_encode crc alloc xs = Ok c"
  shows "rle_decode crc alloc c (length xs) = Ok xs"
proof -
  obtain ys where "rle_encode_loop xs [] = Ok ys"
    and "\<And>zs. rle_decode_loop (length xs) (ys @ zs) [] = rle_decode_loop (length xs) zs xs"
    using rle_encode_loop_ok [of xs "[]"] by auto
  from this(1) this(2) [of "[]"] show ?thesis
    using assms by (auto simp: rle_encode_def rle_decode_def verify_frame_compressed try_reserve_def)
qed

lemma rle_encode_no_panic: "rle_encode crc alloc xs \<noteq> Panic"
  using rle_encode_loop_ok [of xs "[]"] by (auto simp: rle_encode_def)

interpretation rle: lossless_codec "rle_encode crc alloc" "rle_decode crc alloc" "\<lambda>_. True" alloc for crc alloc
  by unfold_locales (simp_all add: rle_roundtrip rle_encode_no_panic)

text \<open>A decoder that returns, returns exactly \<open>expected_len\<close> bytes, and no frame makes it panic.\<close>

lemma rle_decode_loop_bound: "length out \<le> n \<Longrightarrow> rle_decode_loop n body out = Ok res \<Longrightarrow> length res \<le> n"
  by (induction n body out rule: rle_decode_loop.induct) (auto simp: Let_def split: if_splits list.splits)

lemma rle_decode_loop_no_panic: "rle_decode_loop n body out \<noteq> Panic"
  by (induction n body out rule: rle_decode_loop.induct) (auto simp: Let_def split: list.splits)

lemma rle_decode_no_panic: "rle_decode crc alloc c n \<noteq> Panic"
  by (auto simp: rle_decode_def rbind_eq_Panic rle_decode_loop_no_panic try_reserve_def)

end
