(* ===== verification/Bit_Stream.thy ===== *)
theory Bit_Stream
  imports Rust_Prelude
begin

section \<open>Words as bit lists, and the packing loops\<close>

text \<open>
  \<open>BitPackCodec\<close>, \<open>DeltaForCodec\<close> and \<open>XorCodec\<close> move values through a byte stream bit by bit,
  least significant bit first. \<open>bits_of k w\<close> is the list of the low \<open>k\<close> bits of \<open>w\<close> and \<open>stream\<close>
  the bits of a list of bytes; every loop is specified by what it does to that list.

  \<open>drain\<close>, \<open>pack_loop\<close>, \<open>refill\<close> and \<open>unpack_loop\<close> are the loops that \<open>BitPackCodec\<close> (32-bit
  values, 64-bit buffer) and \<open>DeltaForCodec\<close> (64-bit values, 128-bit buffer) share textually: the
  value type \<open>'v\<close> and the buffer type \<open>'b\<close> are the two widths. The counter \<open>bit_count\<close> is a \<open>u8\<close> in
  the code and never exceeds 71 (\<open>drain_spec\<close>, \<open>refill_spec\<close>), so a natural number loses nothing,
  and every shift distance is below the width of the buffer.
\<close>

definition bits_of :: "nat \<Rightarrow> 'w::len word \<Rightarrow> bool list" where
  "bits_of k w = map (bit w) [0..<k]"

definition stream :: "bytes \<Rightarrow> bool list" where
  "stream bs = concat (map (bits_of 8) bs)"

text \<open>No bit of \<open>w\<close> at or above position \<open>k\<close>.\<close>

definition fits :: "nat \<Rightarrow> 'w::len word \<Rightarrow> bool" where
  "fits k w \<longleftrightarrow> take_bit k w = w"

definition leading_zeros :: "'w::len word \<Rightarrow> nat" where
  "leading_zeros w = length (takeWhile (\<lambda>i. \<not> bit w i) (rev [0..<LENGTH('w)]))"

definition trailing_zeros :: "'w::len word \<Rightarrow> nat" where
  "trailing_zeros w = length (takeWhile (\<lambda>i. \<not> bit w i) [0..<LENGTH('w)])"

subsection \<open>Bit lists\<close>

lemma length_bits_of [simp]: "length (bits_of k w) = k"
  by (simp add: bits_of_def)

lemma bits_of_0 [simp]: "bits_of 0 w = []"
  by (simp add: bits_of_def)

lemma nth_bits_of [simp]: "i < k \<Longrightarrow> bits_of k w ! i = bit w i"
  by (simp add: bits_of_def)

lemma length_stream [simp]: "length (stream bs) = 8 * length bs"
  by (induction bs) (simp_all add: stream_def)

lemma stream_simps [simp]:
  "stream [] = []" "stream (b # bs) = bits_of 8 b @ stream bs" "stream (xs @ ys) = stream xs @ stream ys"
  by (simp_all add: stream_def)

lemma bits_of_add: "bits_of (m + n) w = bits_of m w @ bits_of n (drop_bit m w)"
  by (rule nth_equalityI) (auto simp: nth_append bit_simps)

lemma bits_of_ucast: "k \<le> LENGTH('v) \<Longrightarrow> bits_of k (ucast w :: 'v::len word) = bits_of k w"
  by (rule nth_equalityI) (auto simp: bit_simps)

lemma fits_bit: "fits k w \<longleftrightarrow> (\<forall>i\<ge>k. \<not> bit w i)"
proof
  show "\<forall>i\<ge>k. \<not> bit w i" if "fits k w"
    using that by (metis fits_def bit_take_bit_iff not_le)
  show "fits k w" if "\<forall>i\<ge>k. \<not> bit w i"
    unfolding fits_def by (rule bit_word_eqI) (use that not_le_imp_less in \<open>auto simp: bit_take_bit_iff\<close>)
qed

lemma fits_0 [simp]: "fits 0 w \<longleftrightarrow> w = 0"
  by (auto simp: fits_def)

lemma fits_zero [simp]: "fits k 0"
  by (simp add: fits_def)

lemma fits_length [simp]: "LENGTH('w) \<le> k \<Longrightarrow> fits k (w :: 'w::len word)"
  by (simp add: fits_def take_bit_word_eq_self)

lemma fits_mono: "fits k w \<Longrightarrow> k \<le> m \<Longrightarrow> fits m w"
  by (simp add: fits_bit)

lemma fits_unat: "k \<le> LENGTH('w) \<Longrightarrow> fits k w \<longleftrightarrow> unat (w :: 'w::len word) < 2 ^ k"
  by (simp add: fits_def word_unat_eq_iff unsigned_take_bit_eq take_bit_nat_eq_self_iff)

lemma bits_of_inj:
  assumes "bits_of k v = bits_of k w" "fits k v" "fits k w"
  shows "v = w"
proof (rule bit_word_eqI)
  fix i
  show "bit v i = bit w i"
    using assms by (cases "i < k") (auto simp: fits_bit dest: arg_cong [of _ _ "\<lambda>xs. xs ! i"])
qed

text \<open>Appending \<open>m\<close> bits of \<open>w\<close> above the \<open>n\<close> bits a buffer holds.\<close>

lemma bits_of_or_push:
  fixes buf :: "'b::len word" and w :: "'v::len word"
  assumes "fits n buf" "n + m \<le> LENGTH('b)" "m \<le> LENGTH('v)"
  shows "bits_of (n + m) (buf OR push_bit n (ucast w)) = bits_of n buf @ bits_of m w"
  using assms by (intro nth_equalityI) (auto simp: nth_append bit_simps fits_bit)

lemma fits_or_push:
  fixes buf :: "'b::len word" and w :: "'v::len word"
  assumes "fits n buf" "fits m w"
  shows "fits (n + m) (buf OR push_bit n (ucast w))"
  using assms by (auto simp: bit_simps fits_bit)

lemma fits_drop: "fits n w \<Longrightarrow> fits (n - m) (drop_bit m w)"
  by (auto simp: fits_bit bit_simps)

subsection \<open>Leading and trailing zeros\<close>

lemma leading_zeros_fits: "fits (LENGTH('w) - leading_zeros w) (w :: 'w::len word)"
  unfolding fits_bit
proof (intro allI impI)
  fix i assume i: "LENGTH('w) - leading_zeros w \<le> i"
  show "\<not> bit w i"
  proof (cases "i < LENGTH('w)")
    case True
    let ?xs = "rev [0..<LENGTH('w)]"
    have "LENGTH('w) - 1 - i < length (takeWhile (\<lambda>i. \<not> bit w i) ?xs)"
      using i True by (simp add: leading_zeros_def)
    moreover from this have "takeWhile (\<lambda>i. \<not> bit w i) ?xs ! (LENGTH('w) - 1 - i) = i"
      using True by (simp add: takeWhile_nth rev_nth)
    ultimately show ?thesis by (metis nth_mem set_takeWhileD)
  qed (simp add: bit_word.rep_eq impossible_bit)
qed

lemma leading_zeros_le: "leading_zeros (w :: 'w::len word) \<le> LENGTH('w)"
  unfolding leading_zeros_def by (metis length_rev length_takeWhile_le length_upt diff_zero)

lemma trailing_zeros_le: "trailing_zeros (w :: 'w::len word) \<le> LENGTH('w)"
  unfolding trailing_zeros_def by (metis length_takeWhile_le length_upt diff_zero)

lemma trailing_zeros_bit: "i < trailing_zeros w \<Longrightarrow> \<not> bit (w :: 'w::len word) i"
  unfolding trailing_zeros_def using takeWhile_nth [of i "\<lambda>i. \<not> bit w i" "[0..<LENGTH('w)]"]
  by (metis add_0 length_takeWhile_le length_upt diff_zero nth_mem nth_upt order_less_le_trans set_takeWhileD)

lemma leading_zeros_zero: "leading_zeros (w :: 'w::len word) = LENGTH('w) \<longleftrightarrow> w = 0"
  using leading_zeros_fits [of w]
  by (auto simp: leading_zeros_def takeWhile_eq_all_conv [THEN iffD2])

subsection \<open>Packing\<close>

text \<open>\<open>while bit_count >= 8\<close>: emit the low byte of the buffer.\<close>

function drain :: "'b::len word \<Rightarrow> nat \<Rightarrow> bytes \<Rightarrow> 'b word \<times> nat \<times> bytes" where
  "drain bit_buf bit_count body =
     (if bit_count \<ge> 8 then drain (drop_bit 8 bit_buf) (bit_count - 8) (body @ [ucast bit_buf])
      else (bit_buf, bit_count, body))"
  by auto
termination
  by (relation "measure (\<lambda>(_, n, _). n)") auto

declare drain.simps [simp del]

fun pack_loop :: "nat \<Rightarrow> 'b::len word \<Rightarrow> nat \<Rightarrow> 'v::len word list \<Rightarrow> bytes \<Rightarrow> bytes" where
  "pack_loop bits bit_buf bit_count [] body = (if bit_count > 0 then body @ [ucast bit_buf] else body)"
| "pack_loop bits bit_buf bit_count (w # ws) body =
     (let (buf', count', body') = drain (bit_buf OR push_bit bit_count (ucast w)) (bit_count + bits) body
      in pack_loop bits buf' count' ws body')"

lemma drain_spec:
  assumes "drain buf n body = (buf', n', body')" "fits n buf"
  shows "n' < 8 \<and> fits n' buf' \<and> (\<exists>out. body' = body @ out \<and> stream out @ bits_of n' buf' = bits_of n buf)"
  using assms
proof (induction buf n body rule: drain.induct)
  case (1 buf n body)
  show ?case
  proof (cases "8 \<le> n")
    case True
    then have d: "drain (drop_bit 8 buf) (n - 8) (body @ [ucast buf]) = (buf', n', body')"
      using 1(2) by (simp add: drain.simps [of buf])
    then obtain out where o: "n' < 8" "fits n' buf'" "body' = body @ ucast buf # out"
      "stream out @ bits_of n' buf' = bits_of (n - 8) (drop_bit 8 buf)"
      using 1(1) [OF True d fits_drop [OF 1(3)]] by auto
    moreover have "bits_of n buf = bits_of 8 (ucast buf :: u8) @ bits_of (n - 8) (drop_bit 8 buf)"
      using True bits_of_add [of 8 "n - 8" buf] by (simp add: bits_of_ucast)
    ultimately show ?thesis by (intro conjI exI [of _ "ucast buf # out"]) simp_all
  next
    case False
    then show ?thesis using 1(2,3) by (auto simp: drain.simps [of buf] intro: exI [of _ "[]"])
  qed
qed

text \<open>The packed bytes are the concatenation of the low bits of the values, zero padded to whole
  bytes.\<close>

lemma pack_loop_spec:
  fixes buf :: "'b::len word" and ws :: "'v::len word list"
  assumes "fits n buf" "n < 8" "bits + 8 \<le> LENGTH('b)" "bits \<le> LENGTH('v)" "\<forall>w \<in> set ws. fits bits w"
  shows "\<exists>out pad. pack_loop bits buf n ws body = body @ out \<and> length pad < 8
     \<and> stream out = bits_of n buf @ concat (map (bits_of bits) ws) @ pad"
  using assms
proof (induction ws arbitrary: buf n body)
  case Nil
  show ?case
  proof (cases "n = 0")
    case False
    then have "bits_of 8 (ucast buf :: u8) = bits_of n buf @ bits_of (8 - n) (drop_bit n buf)"
      using Nil.prems bits_of_add [of n "8 - n" buf] by (simp add: bits_of_ucast)
    then show ?thesis using False by (intro exI [of _ "[ucast buf]"]) auto
  qed simp
next
  case (Cons w ws)
  let ?x = "buf OR push_bit n (ucast w)"
  obtain buf' n' body' where d: "drain ?x (n + bits) body = (buf', n', body')" by (metis prod_cases3)
  have "fits (n + bits) ?x" using Cons.prems by (simp add: fits_or_push)
  then obtain o1 where o1: "n' < 8" "fits n' buf'" "body' = body @ o1"
    "stream o1 @ bits_of n' buf' = bits_of (n + bits) ?x"
    using drain_spec [OF d] by blast
  obtain o2 pad where o2: "pack_loop bits buf' n' ws body' = body' @ o2" "length pad < 8"
    "stream o2 = bits_of n' buf' @ concat (map (bits_of bits) ws) @ pad"
    using Cons.IH [OF o1(2,1), of body'] Cons.prems by auto
  have "bits_of (n + bits) ?x = bits_of n buf @ bits_of bits w"
    using Cons.prems by (intro bits_of_or_push) auto
  then have "stream (o1 @ o2) = bits_of n buf @ concat (map (bits_of bits) (w # ws)) @ pad"
    using o1(4) o2(3) by (simp flip: append_assoc)
  then show ?case
    using d o1(3) o2(1,2) by (intro exI [of _ "o1 @ o2"] exI [of _ pad]) simp
qed

subsection \<open>Unpacking\<close>

text \<open>\<open>while bit_count < bits && byte_idx < packed_slice.len()\<close>: pull the next byte; the list is the
  slice from \<open>byte_idx\<close> on.\<close>

fun refill :: "nat \<Rightarrow> 'b::len word \<Rightarrow> nat \<Rightarrow> bytes \<Rightarrow> 'b word \<times> nat \<times> bytes" where
  "refill bits bit_buf bit_count [] = (bit_buf, bit_count, [])"
| "refill bits bit_buf bit_count (b # bs) =
     (if bit_count < bits then refill bits (bit_buf OR push_bit bit_count (ucast b)) (bit_count + 8) bs
      else (bit_buf, bit_count, b # bs))"

fun unpack_loop :: "nat \<Rightarrow> nat \<Rightarrow> 'b::len word \<Rightarrow> nat \<Rightarrow> bytes \<Rightarrow> 'v::len word list" where
  "unpack_loop bits 0 bit_buf bit_count packed = []"
| "unpack_loop bits (Suc k) bit_buf bit_count packed =
     (let (buf', count', packed') = refill bits bit_buf bit_count packed;
          mask = push_bit bits 1 - 1
      in ucast (buf' AND mask) # unpack_loop bits k (drop_bit bits buf') (count' - bits) packed')"

lemma refill_spec:
  fixes buf :: "'b::len word"
  assumes "refill bits buf n bs = (buf', n', bs')" "fits n buf" "bits + 8 \<le> LENGTH('b)" "n < bits + 8"
    "bits \<le> n + 8 * length bs"
  shows "fits n' buf' \<and> bits \<le> n' \<and> n' < bits + 8 \<and> bits_of n' buf' @ stream bs' = bits_of n buf @ stream bs"
  using assms
proof (induction bits buf n bs rule: refill.induct)
  case (2 bits buf n b bs)
  show ?case
  proof (cases "n < bits")
    case True
    let ?x = "buf OR push_bit n (ucast b)"
    have "bits_of (n + 8) ?x = bits_of n buf @ bits_of 8 b" "fits (n + 8) ?x"
      using "2.prems" True bits_of_or_push [of n buf 8 b] fits_or_push [of n buf 8 b] by simp_all
    then show ?thesis using "2.IH" [OF True] "2.prems" True by simp
  qed (use "2.prems" in auto)
qed auto

lemma mask_and: "(buf :: 'b::len word) AND (2 ^ bits - 1) = take_bit bits buf"
  by (simp add: take_bit_eq_mask mask_eq_exp_minus_1)

text \<open>Reading back as many values as were written gives exactly those values.\<close>

lemma unpack_loop_spec:
  fixes buf :: "'b::len word" and ws :: "'v::len word list"
  assumes "fits n buf" "n < bits + 8" "bits + 8 \<le> LENGTH('b)" "bits \<le> LENGTH('v)" "\<forall>w \<in> set ws. fits bits w"
    and "bits_of n buf @ stream bs = concat (map (bits_of bits) ws) @ pad"
  shows "unpack_loop bits (length ws) buf n bs = ws"
  using assms
proof (induction ws arbitrary: buf n bs)
  case (Cons w ws)
  obtain buf' n' bs' where r: "refill bits buf n bs = (buf', n', bs')" by (metis prod_cases3)
  have "bits \<le> n + 8 * length bs"
    using arg_cong [OF Cons.prems(6), of length] by simp
  then have s: "fits n' buf'" "bits \<le> n'" "n' < bits + 8"
      "bits_of n' buf' @ stream bs' = bits_of n buf @ stream bs"
    using refill_spec [OF r Cons.prems(1,3,2)] by auto
  have split: "bits_of n' buf' = bits_of bits buf' @ bits_of (n' - bits) (drop_bit bits buf')"
    using s(2) bits_of_add [of bits "n' - bits" buf'] by simp
  then have eq: "bits_of bits buf' = bits_of bits w"
    "bits_of (n' - bits) (drop_bit bits buf') @ stream bs' = concat (map (bits_of bits) ws) @ pad"
    using s(4) Cons.prems(6) by simp_all
  have "ucast (take_bit bits buf') = w"
  proof (rule bits_of_inj [of bits])
    show "bits_of bits (ucast (take_bit bits buf') :: 'v word) = bits_of bits w"
      using eq(1) Cons.prems(4) by (simp add: bits_of_ucast) (simp add: bits_of_def bit_take_bit_iff)
    show "fits bits (ucast (take_bit bits buf') :: 'v word)"
      by (auto simp: fits_bit bit_simps)
  qed (use Cons.prems in auto)
  moreover have "unpack_loop bits (length ws) (drop_bit bits buf') (n' - bits) bs' = ws"
    using Cons.IH [OF fits_drop [OF s(1)] _ Cons.prems(3,4) _ eq(2)] s(3) Cons.prems(5) by simp
  ultimately show ?case using r by (simp add: mask_and Let_def)
qed simp

subsection \<open>Splitting a byte string into words\<close>

text \<open>\<open>chunks_exact(c)\<close> with \<open>from_le_bytes\<close> on each of the first \<open>k\<close> chunks.\<close>

fun words_of :: "nat \<Rightarrow> nat \<Rightarrow> bytes \<Rightarrow> 'w::len word list" where
  "words_of c 0 xs = []"
| "words_of c (Suc k) xs = from_le (take c xs) # words_of c k (drop c xs)"

definition bytes_of :: "nat \<Rightarrow> 'w::len word list \<Rightarrow> bytes" where
  "bytes_of c ws = concat (map (to_le c) ws)"

lemma bytes_of_simps [simp]:
  "bytes_of c [] = []" "bytes_of c (w # ws) = to_le c w @ bytes_of c ws"
  "bytes_of c (replicate (Suc k) w) = to_le c w @ bytes_of c (replicate k w)"
  by (simp_all add: bytes_of_def)

lemma length_words_of [simp]: "length (words_of c k xs) = k"
  by (induction c k xs rule: words_of.induct) simp_all

lemma length_bytes_of [simp]: "length (bytes_of c ws) = c * length ws"
  by (induction ws) simp_all

lemma bytes_of_words_of:
  "c * 8 = LENGTH('w) \<Longrightarrow> c * k \<le> length xs \<Longrightarrow> bytes_of c (words_of c k xs :: 'w::len word list) = take (c * k) xs"
proof (induction c k xs rule: words_of.induct)
  case (2 c k xs)
  then have "to_le c (from_le (take c xs) :: 'w word) = take c xs"
    using to_le_from_le [of "take c xs", where 'w = 'w] by simp
  moreover have "take (c * Suc k) xs = take c xs @ take (c * k) (drop c xs)"
    by (simp add: take_add)
  ultimately show ?case using 2 by simp
qed simp

lemma words_of_bytes_of:
  "8 * c = LENGTH('w) \<Longrightarrow> words_of c (length ws) (bytes_of c ws @ r) = (ws :: 'w::len word list)"
  by (induction ws) simp_all

text \<open>The running maximum of the encoders and the bit width they choose.\<close>

definition max_word :: "'w::len word list \<Rightarrow> 'w word" where
  "max_word ws = foldl (\<lambda>m w. if w > m then w else m) 0 ws"

definition bit_width :: "'w::len word \<Rightarrow> nat" where
  "bit_width m = (if m = 0 then 0 else LENGTH('w) - leading_zeros m)"

lemma foldl_max: "m \<le> foldl (\<lambda>m w. if w > m then w else m) (m :: 'w::len word) ws
    \<and> (\<forall>w \<in> set ws. w \<le> foldl (\<lambda>m w. if w > m then w else m) m ws)"
proof (induction ws arbitrary: m)
  case (Cons w ws)
  show ?case
    using Cons.IH [of w] Cons.IH [of m] by (auto intro: order.trans [of _ m] order.trans [of _ w])
qed simp

lemma fits_bit_width: "w \<in> set ws \<Longrightarrow> fits (bit_width (max_word ws)) w"
proof -
  assume w: "w \<in> set ws"
  let ?m = "max_word ws"
  have "fits (bit_width ?m) ?m"
    using leading_zeros_fits [of ?m] by (simp add: bit_width_def)
  moreover have "unat w \<le> unat ?m"
    using w foldl_max [of 0 ws] by (simp add: max_word_def word_le_nat_alt)
  moreover have "bit_width ?m \<le> LENGTH('a)" by (simp add: bit_width_def)
  ultimately show ?thesis by (simp add: fits_unat)
qed

lemma bit_width_le: "bit_width (m :: 'w::len word) \<le> LENGTH('w)"
  by (simp add: bit_width_def)

text \<open>Packing followed by unpacking, as the two codecs use it; \<open>rest\<close> is what follows in the body.\<close>

lemma pack_unpack:
  fixes ws :: "'v::len word list"
  assumes "0 < bits" "bits + 8 \<le> LENGTH('b::len)" "bits \<le> LENGTH('v)" "\<forall>w \<in> set ws. fits bits w"
  shows "\<exists>out. pack_loop bits (0 :: 'b word) 0 ws body = body @ out \<and> length out = div_ceil (length ws * bits) 8
     \<and> unpack_loop bits (length ws) (0 :: 'b word) 0 out = ws"
proof -
  obtain out pad where p: "pack_loop bits (0 :: 'b word) 0 ws body = body @ out" "length pad < 8"
    "stream out = concat (map (bits_of bits) ws) @ pad"
    using pack_loop_spec [of 0 "0 :: 'b word" bits ws body] assms by auto
  have "length (concat (map (bits_of bits) ws)) = length ws * bits"
    by (induction ws) simp_all
  then have "8 * length out = length ws * bits + length pad"
    using arg_cong [OF p(3), of length] by simp
  then have "length out = div_ceil (length ws * bits) 8"
    using p(2) by (simp add: div_ceil_def)
  moreover have "unpack_loop bits (length ws) (0 :: 'b word) 0 out = ws"
    using unpack_loop_spec [of 0 "0 :: 'b word" bits ws out pad] assms p(3) by simp
  ultimately show ?thesis using p(1) by blast
qed

end
