(* ===== verification/Codec_Pack.thy ===== *)
theory Codec_Pack
  imports Codec_Frame Bit_Stream
begin

section \<open>The bit-packing codecs (\<open>BitPackCodec\<close>, \<open>DeltaForCodec\<close>)\<close>

text \<open>
  \<open>BitPackCodec\<close> stores the input as 32-bit words of the width of the largest one, \<open>DeltaForCodec\<close>
  as 64-bit offsets from the minimum; both append the bytes that do not fill a word. The packing
  loops are those of \<open>Bit_Stream\<close>.
\<close>

subsection \<open>BitPack\<close>

definition bitpack_encode :: "(bytes \<Rightarrow> u32) \<Rightarrow> (usize \<Rightarrow> bool) \<Rightarrow> bytes \<Rightarrow> (bytes, codec_error) result" where
  "bitpack_encode crc alloc input =
     (let word_count = length input div 4;
          remainder_len = length input mod 4;
          words = words_of 4 word_count input :: u32 list;
          bits = bit_width (max_word words);
          body = [of_nat bits] @ to_le 4 (of_nat word_count :: u32);
          body = (if bits > 0 then pack_loop bits (0 :: u64) 0 words body else body);
          body = (if remainder_len > 0 then body @ drop (word_count * 4) input else body)
      in frame_compressed crc alloc BitPack (length input) body)"

definition bitpack_decode :: "(bytes \<Rightarrow> u32) \<Rightarrow> (usize \<Rightarrow> bool) \<Rightarrow> bytes \<Rightarrow> usize \<Rightarrow> (bytes, codec_error) result" where
  "bitpack_decode crc alloc compressed expected_len =
     rbind (verify_frame crc BitPack compressed expected_len) (\<lambda>body.
     if length body < 5 then Err (CxIncomplete 5 (length body))
     else let bits = unat (body ! 0) in
     if bits > 32 then Err (CxInvalidData ''bit-width exceeds 32'')
     else let word_count = unat (from_le (slice body 1 5) :: u32);
              remainder_len = expected_len - word_count * 4 in
     if word_count * 4 + remainder_len \<noteq> expected_len
     then Err (CxInvalidData ''inconsistent word count and length'')
     else let packed_bytes_len = (if bits = 0 then 0 else div_ceil (word_count * bits) 8) in
     if length body < 5 + packed_bytes_len + remainder_len
     then Err (CxIncomplete (5 + packed_bytes_len + remainder_len) (length body))
     else rbind (try_reserve alloc expected_len CxAllocationFailed) (\<lambda>_.
       let out = (if bits = 0 then bytes_of 4 (replicate word_count (0 :: u32))
                  else bytes_of 4 (unpack_loop bits word_count (0 :: u64) 0
                         (slice body 5 (5 + packed_bytes_len)) :: u32 list));
           out = (if remainder_len > 0
                  then out @ slice body (5 + packed_bytes_len) (5 + packed_bytes_len + remainder_len)
                  else out)
       in if length out \<noteq> expected_len then Err (CxLengthMismatch expected_len (length out)) else Ok out))"

text \<open>What the packed part of a body decodes to, whether or not any bits were stored.\<close>

lemma bitpack_words_roundtrip:
  fixes ws :: "u32 list"
  defines "bits \<equiv> bit_width (max_word ws)"
  shows "\<exists>out. (if bits > 0 then pack_loop bits (0 :: u64) 0 ws body else body) = body @ out
     \<and> length out = (if bits = 0 then 0 else div_ceil (length ws * bits) 8)
     \<and> (if bits = 0 then replicate (length ws) 0 else unpack_loop bits (length ws) (0 :: u64) 0 out) = ws"
proof (cases "bits = 0")
  case True
  then have "\<forall>w \<in> set ws. w = 0" using fits_bit_width [of _ ws] by (auto simp: bits_def)
  then show ?thesis using True by (auto simp: replicate_length_same)
next
  case False
  then show ?thesis
    using pack_unpack [of bits ws body, where 'b = 64] fits_bit_width [of _ ws] bit_width_le [of "max_word ws"]
    by (auto simp: bits_def)
qed

lemma bitpack_roundtrip:
  assumes "alloc (length xs)" and "bitpack_encode crc alloc xs = Ok c"
  shows "bitpack_decode crc alloc c (length xs) = Ok xs"
proof -
  define k where "k = length xs div 4"
  define ws where "ws = (words_of 4 k xs :: u32 list)"
  have lenws: "length ws = k" by (simp add: ws_def)
  define bits where "bits = bit_width (max_word ws)"
  define hd5 where "hd5 = [of_nat bits] @ to_le 4 (of_nat k :: u32)"
  obtain out where out: "(if bits > 0 then pack_loop bits (0 :: u64) 0 ws hd5 else hd5) = hd5 @ out"
    "length out = (if bits = 0 then 0 else div_ceil (k * bits) 8)"
    "(if bits = 0 then replicate k 0 else unpack_loop bits k (0 :: u64) 0 out) = ws"
    using bitpack_words_roundtrip [of ws hd5, folded bits_def] unfolding lenws by blast
  define rem where "rem = drop (4 * k) xs"
  have lenr: "length rem = length xs - k * 4" "length xs mod 4 = length rem" "k * 4 \<le> length xs"
    by (simp_all add: rem_def k_def minus_mult_div_eq_mod [symmetric] mult.commute)
  have f: "frame_compressed crc alloc BitPack (length xs) (hd5 @ out @ rem) = Ok c"
    using assms(2) out(1) lenr
    by (simp add: bitpack_encode_def Let_def rem_def mult.commute hd5_def bits_def ws_def k_def split: if_splits)
  have small: "unat (of_nat k :: u32) = k" "bits \<le> 32" "unat (of_nat bits :: u8) = bits"
    using conjunct1 [OF frame_Ok [OF f]] bit_width_le [of "max_word ws"] lenr(3) by (simp_all add: bits_def)
  have body: "length hd5 = 5" "(hd5 @ out @ rem) ! 0 = of_nat bits"
    "from_le (slice (hd5 @ out @ rem) 1 5) = (of_nat k :: u32)"
    "slice (hd5 @ out @ rem) 5 (5 + length out) = out"
    "slice (hd5 @ out @ rem) (5 + length out) (5 + length out + length rem) = rem"
    using slice_mid [of "[of_nat bits]" 1 5 "to_le 4 (of_nat k :: u32)" "out @ rem"]
      slice_mid [of hd5 5 _ out rem] slice_mid [of "hd5 @ out" _ _ rem "[]"]
    by (simp_all add: hd5_def)
  have xs: "bytes_of 4 ws @ rem = xs"
    using bytes_of_words_of [of 4 k xs, where 'w = 32] lenr(3) by (simp add: ws_def rem_def mult.commute)
  have lenx: "length xs = k * 4 + length rem" using lenr by simp
  show ?thesis
    unfolding bitpack_decode_def verify_frame_compressed [OF f] rbind.simps
    using assms(1) small body xs out(2,3) unfolding lenx
    by (cases "bits = 0"; cases "rem = []") (simp_all add: Let_def try_reserve_def lenws lenx mult.commute)
qed

lemma bitpack_encode_no_panic: "bitpack_encode crc alloc xs \<noteq> Panic"
  by (simp add: bitpack_encode_def Let_def)

lemma bitpack_decode_no_panic: "bitpack_decode crc alloc c n \<noteq> Panic"
  by (auto simp: bitpack_decode_def rbind_eq_Panic try_reserve_def Let_def)

interpretation bitpack: lossless_codec "bitpack_encode crc alloc" "bitpack_decode crc alloc" "\<lambda>_. True" alloc
  for crc alloc
  by unfold_locales (simp_all add: bitpack_roundtrip bitpack_encode_no_panic)

subsection \<open>Delta and frame of reference\<close>

definition min_word :: "'w::len word list \<Rightarrow> 'w word" where
  "min_word ws = foldl min (hd ws) (tl ws)"

definition deltafor_encode :: "(bytes \<Rightarrow> u32) \<Rightarrow> (usize \<Rightarrow> bool) \<Rightarrow> bytes \<Rightarrow> (bytes, codec_error) result" where
  "deltafor_encode crc alloc input =
     (let u64_count = length input div 8;
          remainder_len = length input mod 8 in
      if u64_count = 0
      then frame_compressed crc alloc DeltaFor (length input) (replicate 13 0 @ input)
      else let values = words_of 8 u64_count input :: u64 list;
               min_val = min_word values in
        rbind (map_result (\<lambda>v. sub_or_panic v min_val) values) (\<lambda>offsets.
        let bits = bit_width (max_word offsets);
            body = to_le 8 min_val @ [of_nat bits] @ to_le 4 (of_nat u64_count :: u32);
            body = (if bits > 0 then pack_loop bits (0 :: u128) 0 offsets body else body);
            body = (if remainder_len > 0 then body @ drop (u64_count * 8) input else body)
        in frame_compressed crc alloc DeltaFor (length input) body))"

definition deltafor_decode :: "(bytes \<Rightarrow> u32) \<Rightarrow> (usize \<Rightarrow> bool) \<Rightarrow> bytes \<Rightarrow> usize \<Rightarrow> (bytes, codec_error) result" where
  "deltafor_decode crc alloc compressed expected_len =
     rbind (verify_frame crc DeltaFor compressed expected_len) (\<lambda>body.
     if length body < 13 then Err (CxIncomplete 13 (length body))
     else let min_val = from_le (slice body 0 8) :: u64; bits = unat (body ! 8) in
     if bits > 64 then Err (CxInvalidData ''FOR bit-width exceeds 64'')
     else let u64_count = unat (from_le (slice body 9 13) :: u32);
              remainder_len = expected_len - u64_count * 8;
              packed_bytes_len = (if bits = 0 then 0 else div_ceil (u64_count * bits) 8) in
     if length body < 13 + packed_bytes_len + remainder_len
     then Err (CxIncomplete (13 + packed_bytes_len + remainder_len) (length body))
     else rbind (try_reserve alloc expected_len CxAllocationFailed) (\<lambda>_.
       rbind (if bits = 0 then Ok (replicate u64_count min_val)
              else map_result (\<lambda>offset. add_or_panic min_val offset)
                     (unpack_loop bits u64_count (0 :: u128) 0
                        (slice body 13 (13 + packed_bytes_len)) :: u64 list)) (\<lambda>vals.
       let out = bytes_of 8 vals;
           out = (if remainder_len > 0
                  then out @ slice body (13 + packed_bytes_len) (13 + packed_bytes_len + remainder_len)
                  else out)
       in if length out \<noteq> expected_len then Err (CxLengthMismatch expected_len (length out)) else Ok out)))"

lemma foldl_min_le: "foldl min m ws \<le> (m :: 'w::len word) \<and> (\<forall>w \<in> set ws. foldl min m ws \<le> w)"
proof (induction ws arbitrary: m)
  case (Cons w ws)
  have "min m w \<le> m" "min m w \<le> w" by simp_all
  then show ?case using Cons.IH [of "min m w"] by (auto intro: order.trans)
qed simp

lemma min_word_le: "v \<in> set ws \<Longrightarrow> min_word ws \<le> v"
  using foldl_min_le [of "hd ws" "tl ws"] by (cases ws) (auto simp: min_word_def)

text \<open>Subtracting and adding back the base; neither overflows.\<close>

lemma sub_base_Ok: "map_result (\<lambda>v. sub_or_panic v (min_word ws)) ws = Ok (map (\<lambda>v. v - min_word ws) ws)"
  by (rule map_result_Ok) (simp add: sub_or_panic_def min_word_le)

lemma add_base_Ok:
  "map_result (\<lambda>d. add_or_panic (min_word ws) d) (map (\<lambda>v. v - min_word ws) ws) = Ok ws"
proof -
  have "add_or_panic (min_word ws) (v - min_word ws) = Ok v" if "v \<in> set ws" for v
    using min_word_le [OF that] unsigned_less [where 'a = nat, of v]
    by (simp add: add_or_panic_def checked_add_def unat_sub word_le_nat_alt)
  then show ?thesis by (auto simp: map_result_eq_Ok list_all2_map1 intro!: list.rel_refl_strong)
qed

lemma deltafor_words_roundtrip:
  fixes ws :: "u64 list"
  defines "ds \<equiv> map (\<lambda>v. v - min_word ws) ws"
  defines "bits \<equiv> bit_width (max_word ds)"
  shows "\<exists>out. (if bits > 0 then pack_loop bits (0 :: u128) 0 ds body else body) = body @ out
     \<and> length out = (if bits = 0 then 0 else div_ceil (length ws * bits) 8)
     \<and> (if bits = 0 then Ok (replicate (length ws) (min_word ws))
        else map_result (\<lambda>d. add_or_panic (min_word ws) d) (unpack_loop bits (length ws) (0 :: u128) 0 out)) = Ok ws"
proof (cases "bits = 0")
  case True
  then have "\<forall>d \<in> set ds. d = 0" using fits_bit_width [of _ ds] by (auto simp: bits_def)
  then have "\<forall>v \<in> set ws. v = min_word ws" by (auto simp: ds_def)
  then show ?thesis using True replicate_length_same [of ws "min_word ws"] by auto
next
  case False
  have "length ds = length ws" by (simp add: ds_def)
  with False show ?thesis
    using pack_unpack [of bits ds body, where 'b = 128] fits_bit_width [of _ ds] bit_width_le [of "max_word ds"]
      add_base_Ok [of ws, folded ds_def]
    by (auto simp: bits_def)
qed

lemma deltafor_roundtrip:
  assumes "alloc (length xs)" and "deltafor_encode crc alloc xs = Ok c"
  shows "deltafor_decode crc alloc c (length xs) = Ok xs"
proof (cases "length xs div 8 = 0")
  case True
  then have f: "frame_compressed crc alloc DeltaFor (length xs) (replicate 13 0 @ xs) = Ok c"
    using assms(2) by (simp add: deltafor_encode_def)
  have "slice (replicate 13 0 @ xs) 9 13 = replicate 4 (0 :: u8)"
    "slice (replicate 13 (0 :: u8) @ xs) 13 (13 + length xs) = xs"
    by (simp_all add: slice_def)
  then show ?thesis using assms(1)
    by (simp add: deltafor_decode_def verify_frame_compressed [OF f] Let_def try_reserve_def nth_append numeral_eq_Suc)
next
  case nz: False
  define k where "k = length xs div 8"
  define ws where "ws = (words_of 8 k xs :: u64 list)"
  have lenws: "length ws = k" by (simp add: ws_def)
  define ds where "ds = map (\<lambda>v. v - min_word ws) ws"
  define bits where "bits = bit_width (max_word ds)"
  define hd13 where "hd13 = to_le 8 (min_word ws) @ [of_nat bits] @ to_le 4 (of_nat k :: u32)"
  obtain out where out: "(if bits > 0 then pack_loop bits (0 :: u128) 0 ds hd13 else hd13) = hd13 @ out"
    "length out = (if bits = 0 then 0 else div_ceil (k * bits) 8)"
    "(if bits = 0 then Ok (replicate k (min_word ws))
        else map_result (\<lambda>d. add_or_panic (min_word ws) d) (unpack_loop bits k (0 :: u128) 0 out))
     = (Ok ws :: (u64 list, codec_error) result)"
    using deltafor_words_roundtrip [of ws hd13, folded ds_def, folded bits_def] unfolding lenws by blast
  define rem where "rem = drop (8 * k) xs"
  have lenr: "length rem = length xs - k * 8" "length xs mod 8 = length rem" "k * 8 \<le> length xs"
    by (simp_all add: rem_def k_def minus_mult_div_eq_mod [symmetric] mult.commute)
  have f: "frame_compressed crc alloc DeltaFor (length xs) (hd13 @ out @ rem) = Ok c"
    using assms(2) out(1) lenr nz unfolding deltafor_encode_def Let_def k_def [symmetric] ws_def [symmetric]
    by (simp add: sub_base_Ok flip: ds_def) (simp add: rem_def mult.commute hd13_def bits_def split: if_splits)
  have small: "unat (of_nat k :: u32) = k" "bits \<le> 64" "unat (of_nat bits :: u8) = bits"
    using conjunct1 [OF frame_Ok [OF f]] bit_width_le [of "max_word ds"] lenr(3) by (simp_all add: bits_def)
  have body: "length hd13 = 13" "from_le (slice (hd13 @ out @ rem) 0 8) = min_word ws"
    "(hd13 @ out @ rem) ! 8 = of_nat bits"
    "from_le (slice (hd13 @ out @ rem) 9 13) = (of_nat k :: u32)"
    "slice (hd13 @ out @ rem) 13 (13 + length out) = out"
    "slice (hd13 @ out @ rem) (13 + length out) (13 + length out + length rem) = rem"
    using slice_mid [of "[]" 0 8 "to_le 8 (min_word ws)" "[of_nat bits] @ to_le 4 (of_nat k :: u32) @ out @ rem"]
      slice_mid [of "to_le 8 (min_word ws) @ [of_nat bits]" 9 13 "to_le 4 (of_nat k :: u32)" "out @ rem"]
      slice_mid [of hd13 13 _ out rem] slice_mid [of "hd13 @ out" _ _ rem "[]"]
    by (simp_all add: hd13_def nth_append)
  have xs: "bytes_of 8 ws @ rem = xs"
    using bytes_of_words_of [of 8 k xs, where 'w = 64] lenr(3) by (simp add: ws_def rem_def mult.commute)
  have lenx: "length xs = k * 8 + length rem" using lenr by simp
  show ?thesis
    unfolding deltafor_decode_def verify_frame_compressed [OF f] rbind.simps
    using assms(1) small body xs out(2,3) unfolding lenx
    by (cases "bits = 0"; cases "rem = []") (simp_all add: Let_def try_reserve_def lenws lenx mult.commute)
qed

lemma deltafor_encode_no_panic: "deltafor_encode crc alloc xs \<noteq> Panic"
  by (simp add: deltafor_encode_def Let_def sub_base_Ok)

interpretation deltafor: lossless_codec "deltafor_encode crc alloc" "deltafor_decode crc alloc" "\<lambda>_. True" alloc
  for crc alloc
  by unfold_locales (simp_all add: deltafor_roundtrip deltafor_encode_no_panic)

end
