(* ===== verification/Codec_Xor.thy ===== *)
theory Codec_Xor
  imports Codec_Frame Bit_Stream
begin

section \<open>The XOR codec (\<open>BitWriter\<close>, \<open>BitReader\<close>, \<open>XorCodec\<close>)\<close>

text \<open>
  Consecutive 64-bit words are stored as the meaningful bits of their exclusive or. The writer and
  the reader are specified by the bit list they append and consume (\<open>bw_abs\<close>, \<open>br_abs\<close>). The
  counters are \<open>u8\<close> in the code and stay at most 64 here; the subtraction \<open>64 - leading - length\<close> and
  the shift by its result, which the overflow checks guard, are explicit \<open>Panic\<close> branches of
  \<open>xor_decode_word\<close>.
\<close>

record bit_writer =
  bw_buf :: bytes
  bw_bit_buf :: u64
  bw_bit_count :: nat

definition bw_new :: "bytes \<Rightarrow> bit_writer" where
  "bw_new buf = \<lparr>bw_buf = buf, bw_bit_buf = 0, bw_bit_count = 0\<rparr>"

definition write_bit :: "u8 \<Rightarrow> bit_writer \<Rightarrow> bit_writer" where
  "write_bit b w =
     (let bit_buf = bw_bit_buf w OR push_bit (bw_bit_count w) (ucast b AND 1);
          bit_count = bw_bit_count w + 1
      in if bit_count = 8
         then \<lparr>bw_buf = bw_buf w @ [ucast bit_buf], bw_bit_buf = 0, bw_bit_count = 0\<rparr>
         else w\<lparr>bw_bit_buf := bit_buf, bw_bit_count := bit_count\<rparr>)"

definition write_bits :: "u64 \<Rightarrow> nat \<Rightarrow> bit_writer \<Rightarrow> bit_writer" where
  "write_bits val count w = fold (\<lambda>i. write_bit (ucast (drop_bit i val AND 1))) [0..<count] w"

definition bw_flush :: "bit_writer \<Rightarrow> bit_writer" where
  "bw_flush w =
     (if bw_bit_count w > 0
      then \<lparr>bw_buf = bw_buf w @ [ucast (bw_bit_buf w)], bw_bit_buf = 0, bw_bit_count = 0\<rparr> else w)"

record bit_reader =
  br_slice :: bytes
  br_byte_idx :: usize
  br_bit_buf :: u64
  br_bit_count :: nat

definition br_new :: "bytes \<Rightarrow> bit_reader" where
  "br_new s = \<lparr>br_slice = s, br_byte_idx = 0, br_bit_buf = 0, br_bit_count = 0\<rparr>"

definition read_bit :: "bit_reader \<Rightarrow> (u8 \<times> bit_reader, codec_error) result" where
  "read_bit r =
     rbind (if br_bit_count r = 0
            then if br_byte_idx r \<ge> length (br_slice r)
                 then Err (CxInvalidData ''unexpected end of bitstream'')
                 else Ok (r\<lparr>br_bit_buf := ucast (br_slice r ! br_byte_idx r),
                            br_byte_idx := br_byte_idx r + 1, br_bit_count := 8\<rparr>)
            else Ok r) (\<lambda>r.
     Ok (ucast (br_bit_buf r AND 1),
         r\<lparr>br_bit_buf := drop_bit 1 (br_bit_buf r), br_bit_count := br_bit_count r - 1\<rparr>))"

text \<open>The loop \<open>for i in 0..count\<close>, at position \<open>i\<close> with \<open>k\<close> rounds to go.\<close>

fun read_bits_loop :: "nat \<Rightarrow> nat \<Rightarrow> u64 \<Rightarrow> bit_reader \<Rightarrow> (u64 \<times> bit_reader, codec_error) result" where
  "read_bits_loop i 0 res r = Ok (res, r)"
| "read_bits_loop i (Suc k) res r =
     rbind (read_bit r) (\<lambda>(b, r'). read_bits_loop (i + 1) k (res OR push_bit i (ucast b)) r')"

definition read_bits :: "nat \<Rightarrow> bit_reader \<Rightarrow> (u64 \<times> bit_reader, codec_error) result" where
  "read_bits count r = read_bits_loop 0 count 0 r"

subsection \<open>The codec\<close>

definition xor_encode_word :: "u64 \<Rightarrow> bit_writer \<Rightarrow> bit_writer" where
  "xor_encode_word x w =
     (if x = 0 then write_bit 0 w
      else let leading = min (leading_zeros x) 31;
               trailing = min (trailing_zeros x) 31;
               len = 64 - leading - trailing
           in write_bits (drop_bit trailing x) len
                (write_bits (of_nat len) 6 (write_bits (of_nat leading) 5 (write_bit 1 w))))"

fun xor_encode_loop :: "u64 \<Rightarrow> u64 list \<Rightarrow> bit_writer \<Rightarrow> bit_writer" where
  "xor_encode_loop prev [] w = w"
| "xor_encode_loop prev (cur # ws) w = xor_encode_loop cur ws (xor_encode_word (cur XOR prev) w)"

definition xor_encode :: "(bytes \<Rightarrow> u32) \<Rightarrow> (usize \<Rightarrow> bool) \<Rightarrow> bytes \<Rightarrow> (bytes, codec_error) result" where
  "xor_encode crc alloc input =
     (let u64_count = length input div 8;
          remainder_len = length input mod 8;
          body = to_le 4 (of_nat u64_count :: u32);
          body = (if u64_count > 0
                  then let words = words_of 8 u64_count input :: u64 list;
                           body = body @ to_le 8 (hd words)
                       in bw_buf (bw_flush (xor_encode_loop (hd words) (tl words) (bw_new body)))
                  else body);
          body = (if remainder_len > 0 then body @ drop (u64_count * 8) input else body)
      in frame_compressed crc alloc Xor (length input) body)"

definition xor_decode_word :: "u64 \<Rightarrow> bit_reader \<Rightarrow> (u64 \<times> bit_reader, codec_error) result" where
  "xor_decode_word prev r =
     rbind (read_bit r) (\<lambda>(b, r).
     if b = 0 then Ok (prev, r)
     else rbind (read_bits 5 r) (\<lambda>(leading, r).
       rbind (read_bits 6 r) (\<lambda>(len, r).
       rbind (read_bits (unat len) r) (\<lambda>(meaningful, r).
       if unat leading + unat len > 64 then Panic
       else let trailing = 64 - unat leading - unat len
            in if trailing \<ge> 64 then Panic
               else Ok (prev XOR push_bit trailing meaningful, r)))))"

fun xor_decode_loop :: "nat \<Rightarrow> u64 \<Rightarrow> bit_reader \<Rightarrow> bytes \<Rightarrow> (bytes, codec_error) result" where
  "xor_decode_loop 0 prev r out = Ok out"
| "xor_decode_loop (Suc k) prev r out =
     rbind (xor_decode_word prev r) (\<lambda>(cur, r'). xor_decode_loop k cur r' (out @ to_le 8 cur))"

definition xor_decode :: "(bytes \<Rightarrow> u32) \<Rightarrow> (usize \<Rightarrow> bool) \<Rightarrow> bytes \<Rightarrow> usize \<Rightarrow> (bytes, codec_error) result" where
  "xor_decode crc alloc compressed expected_len =
     rbind (verify_frame crc Xor compressed expected_len) (\<lambda>body.
     if length body < 4 then Err (CxIncomplete 4 (length body))
     else let u64_count = unat (from_le (slice body 0 4) :: u32);
              remainder_len = expected_len - u64_count * 8 in
     rbind (try_reserve alloc expected_len CxAllocationFailed) (\<lambda>_.
     rbind (if u64_count > 0
            then if length body < 12 then Err (CxIncomplete 12 (length body))
                 else let first = from_le (slice body 4 12) :: u64
                      in xor_decode_loop (u64_count - 1) first (br_new (drop 12 body)) (to_le 8 first)
            else Ok []) (\<lambda>out.
     let out = (if remainder_len > 0 then out @ drop (length body - remainder_len) body else out)
     in if length out \<noteq> expected_len then Err (CxLengthMismatch expected_len (length out)) else Ok out)))"

subsection \<open>The writer and the reader as bit lists\<close>

definition bw_inv :: "bit_writer \<Rightarrow> bool" where
  "bw_inv w \<longleftrightarrow> bw_bit_count w < 8 \<and> fits (bw_bit_count w) (bw_bit_buf w)"

definition bw_abs :: "bit_writer \<Rightarrow> bool list" where
  "bw_abs w = stream (bw_buf w) @ bits_of (bw_bit_count w) (bw_bit_buf w)"

definition br_abs :: "bit_reader \<Rightarrow> bool list" where
  "br_abs r = bits_of (br_bit_count r) (br_bit_buf r) @ stream (drop (br_byte_idx r) (br_slice r))"

lemma bits_of_Suc: "bits_of (Suc n) w = bits_of n w @ [bit w n]"
  by (simp add: bits_of_def)

lemma bits_of_Suc_low: "bits_of (Suc n) w = bit w 0 # bits_of n (drop_bit 1 w)"
  using bits_of_add [of 1 n w] by (simp add: bits_of_def)

lemma low_bit: "ucast (w AND 1 :: 'w::len word) = (of_bool (bit w 0) :: 'v::len word)"
  by (rule bit_word_eqI) (auto simp: bit_simps)

lemma write_bit_spec:
  assumes "bw_inv w"
  shows "bw_inv (write_bit b w) \<and> bw_abs (write_bit b w) = bw_abs w @ [bit b 0]"
proof -
  let ?n = "bw_bit_count w" let ?x = "bw_bit_buf w OR push_bit ?n (ucast (b AND 1))"
  have inv: "?n < 8" "fits ?n (bw_bit_buf w)" using assms by (simp_all add: bw_inv_def)
  have "fits 1 (b AND 1)" by (simp add: fits_bit bit_simps)
  then have f: "fits (Suc ?n) ?x" using inv fits_or_push [of ?n "bw_bit_buf w" 1 "b AND 1"] by simp
  have bs: "bits_of (Suc ?n) ?x = bits_of ?n (bw_bit_buf w) @ [bit b 0]"
    using inv bits_of_or_push [of ?n "bw_bit_buf w" 1 "b AND 1"] by (simp add: bits_of_def bit_simps)
  have "ucast b AND 1 = (ucast (b AND 1) :: u64)" by (rule bit_word_eqI) (auto simp: bit_simps)
  then show ?thesis
    using inv f bs by (cases "Suc ?n = 8")
      (auto simp: write_bit_def bw_inv_def bw_abs_def Let_def bits_of_ucast)
qed

lemma write_bits_spec:
  assumes "bw_inv w"
  shows "bw_inv (write_bits val n w) \<and> bw_abs (write_bits val n w) = bw_abs w @ bits_of n val"
proof (induction n)
  case 0
  show ?case using assms by (simp add: write_bits_def)
next
  case (Suc n)
  have "write_bits val (Suc n) w = write_bit (ucast (drop_bit n val AND 1)) (write_bits val n w)"
    by (simp add: write_bits_def)
  then show ?case
    using Suc write_bit_spec [of "write_bits val n w" "ucast (drop_bit n val AND 1)"]
    by (simp add: bits_of_Suc bit_simps)
qed

lemma bw_flush_spec:
  assumes "bw_inv w"
  shows "\<exists>pad. stream (bw_buf (bw_flush w)) = bw_abs w @ pad"
proof (cases "bw_bit_count w = 0")
  case True
  then show ?thesis by (simp add: bw_flush_def bw_abs_def)
next
  case False
  have "bits_of 8 (bw_bit_buf w) = bits_of (bw_bit_count w) (bw_bit_buf w)
      @ bits_of (8 - bw_bit_count w) (drop_bit (bw_bit_count w) (bw_bit_buf w))"
    using assms bits_of_add [of "bw_bit_count w" "8 - bw_bit_count w"] by (simp add: bw_inv_def)
  then show ?thesis using False by (simp add: bw_flush_def bw_abs_def bits_of_ucast)
qed

lemma read_bit_spec:
  assumes "br_abs r = x # xs"
  shows "\<exists>r'. read_bit r = Ok (of_bool x, r') \<and> br_abs r' = xs"
proof (cases "br_bit_count r")
  case 0
  then have lt: "br_byte_idx r < length (br_slice r)"
    using assms by (cases "br_byte_idx r < length (br_slice r)") (simp_all add: br_abs_def)
  let ?b = "ucast (br_slice r ! br_byte_idx r) :: u64"
  have "br_abs r = bits_of 8 ?b @ stream (drop (Suc (br_byte_idx r)) (br_slice r))"
    using 0 lt by (simp add: br_abs_def Cons_nth_drop_Suc [symmetric]) (rule nth_equalityI; simp add: bit_simps)
  also have "bits_of 8 ?b = bit ?b 0 # bits_of 7 (drop_bit 1 ?b)"
    using bits_of_Suc_low [of 7 ?b] by simp
  finally show ?thesis
    using assms 0 lt by (auto simp: read_bit_def br_abs_def low_bit)
next
  case (Suc n)
  then have "br_abs r = bit (br_bit_buf r) 0 # bits_of n (drop_bit 1 (br_bit_buf r))
      @ stream (drop (br_byte_idx r) (br_slice r))"
    by (simp add: br_abs_def bits_of_Suc_low)
  then show ?thesis
    using assms Suc by (auto simp: read_bit_def br_abs_def low_bit)
qed

lemma read_bits_loop_spec:
  assumes "br_abs r = bits_of k w @ xs"
  shows "\<exists>r'. read_bits_loop i k res r = Ok (res OR push_bit i (take_bit k w), r') \<and> br_abs r' = xs"
  using assms
proof (induction k arbitrary: i res r w)
  case (Suc k)
  obtain r1 where r1: "read_bit r = Ok (of_bool (bit w 0), r1)" "br_abs r1 = bits_of k (drop_bit 1 w) @ xs"
    using read_bit_spec [of r "bit w 0"] Suc.prems by (auto simp: bits_of_Suc_low)
  have "(res OR push_bit i (ucast (of_bool (bit w 0) :: u8))) OR push_bit (i + 1) (take_bit k (drop_bit 1 w))
      = res OR push_bit i (take_bit (Suc k) w)"
  proof (rule bit_word_eqI)
    fix n assume "n < LENGTH(64)"
    then show "bit ((res OR push_bit i (ucast (of_bool (bit w 0) :: u8)))
          OR push_bit (i + 1) (take_bit k (drop_bit 1 w))) n = bit (res OR push_bit i (take_bit (Suc k) w)) n"
      by (cases "n \<le> i") (auto simp: bit_simps Suc_le_eq not_le Suc_diff_Suc simp del: push_bit_Suc)
  qed
  then show ?case
    using r1(1) Suc.IH [OF r1(2), of "i + 1" "res OR push_bit i (ucast (of_bool (bit w 0) :: u8))"]
    by (simp del: push_bit_Suc)
qed simp

lemma read_bits_spec:
  "br_abs r = bits_of k w @ xs \<Longrightarrow> \<exists>r'. read_bits k r = Ok (take_bit k w, r') \<and> br_abs r' = xs"
  using read_bits_loop_spec [of r k w xs 0 0] by (simp add: read_bits_def)

subsection \<open>Which inputs survive\<close>

text \<open>
  The encoder stores the length of the meaningful bits in six bits. A length of 64, reached when the
  exclusive or of two neighbours has both its lowest and its highest bit set, is stored as 0; the
  decoder then computes a shift distance of 64. \<open>xor_safe\<close> describes the inputs without such a pair.
\<close>

definition pair_safe :: "u64 \<Rightarrow> bool" where
  "pair_safe x \<longleftrightarrow> \<not> (bit x 0 \<and> bit x 63)"

fun chain_safe :: "u64 \<Rightarrow> u64 list \<Rightarrow> bool" where
  "chain_safe prev [] \<longleftrightarrow> True"
| "chain_safe prev (cur # ws) \<longleftrightarrow> pair_safe (cur XOR prev) \<and> chain_safe cur ws"

definition xor_safe :: "bytes \<Rightarrow> bool" where
  "xor_safe xs = (case words_of 8 (length xs div 8) xs of [] \<Rightarrow> True | w # ws \<Rightarrow> chain_safe w ws)"

lemma leading_zeros_0: "leading_zeros (x :: u64) = 0 \<longleftrightarrow> bit x 63"
  by (simp add: leading_zeros_def takeWhile_eq_Nil_iff hd_rev last_upt del: upt_rec_numeral)

lemma trailing_zeros_0: "trailing_zeros (x :: u64) = 0 \<longleftrightarrow> bit x 0"
  by (simp add: trailing_zeros_def takeWhile_eq_Nil_iff hd_upt del: upt_rec_numeral)

definition xor_bits :: "u64 \<Rightarrow> bool list" where
  "xor_bits x =
     (if x = 0 then [False]
      else let l = min (leading_zeros x) 31; t = min (trailing_zeros x) 31; len = 64 - l - t
           in True # bits_of 5 (of_nat l :: u64) @ bits_of 6 (of_nat len :: u64) @ bits_of len (drop_bit t x))"

fun xor_stream :: "u64 \<Rightarrow> u64 list \<Rightarrow> bool list" where
  "xor_stream prev [] = []"
| "xor_stream prev (cur # ws) = xor_bits (cur XOR prev) @ xor_stream cur ws"

lemma xor_encode_word_spec:
  assumes "bw_inv w"
  shows "bw_inv (xor_encode_word x w) \<and> bw_abs (xor_encode_word x w) = bw_abs w @ xor_bits x"
  using assms by (auto simp: xor_encode_word_def xor_bits_def Let_def write_bit_spec write_bits_spec)

lemma xor_encode_loop_spec:
  "bw_inv w \<Longrightarrow> bw_inv (xor_encode_loop prev ws w) \<and> bw_abs (xor_encode_loop prev ws w) = bw_abs w @ xor_stream prev ws"
  by (induction prev ws w rule: xor_encode_loop.induct) (simp_all add: xor_encode_word_spec)

text \<open>The meaningful bits, shifted back, are the whole value.\<close>

lemma meaningful_bits:
  fixes x :: u64
  defines "l \<equiv> min (leading_zeros x) 31" and "t \<equiv> min (trailing_zeros x) 31"
  shows "push_bit t (take_bit (64 - l - t) (drop_bit t x)) = x"
proof (rule bit_word_eqI)
  fix n assume "n < LENGTH(64)"
  have "l \<le> leading_zeros x" "t \<le> trailing_zeros x" "l \<le> 31" "t \<le> 31" by (simp_all add: l_def t_def)
  moreover have "n < 64 - l" if "bit x n"
    using leading_zeros_fits [of x] \<open>l \<le> leading_zeros x\<close> that
    by (auto simp: fits_bit dest!: spec [of _ n])
  moreover have "t \<le> n" if "bit x n"
    using trailing_zeros_bit [of n x] \<open>t \<le> trailing_zeros x\<close> that by fastforce
  ultimately show "bit (push_bit t (take_bit (64 - l - t) (drop_bit t x))) n = bit x n"
    using \<open>n < LENGTH(64)\<close> by (cases "bit x n") (auto simp: bit_simps)
qed

lemma take_bit_small: "n < 2 ^ k \<Longrightarrow> n < 2 ^ 64 \<Longrightarrow> take_bit k (of_nat n :: u64) = of_nat n"
  by (simp add: word_unat_eq_iff unsigned_take_bit_eq take_bit_nat_eq_self)

lemma xor_decode_word_spec:
  assumes "br_abs r = xor_bits (cur XOR prev) @ xs"
  shows "if pair_safe (cur XOR prev) then \<exists>r'. xor_decode_word prev r = Ok (cur, r') \<and> br_abs r' = xs
         else xor_decode_word prev r = Panic"
proof (cases "cur XOR prev = 0")
  case True
  then have "cur = prev" by (metis xor.left_neutral xor.assoc xor_self_eq xor.right_neutral)
  with True show ?thesis
    using assms read_bit_spec [of r False xs] by (auto simp: xor_bits_def pair_safe_def xor_decode_word_def)
next
  case False
  define x where "x = cur XOR prev"
  define l where "l = min (leading_zeros x) 31"
  define t where "t = min (trailing_zeros x) 31"
  define len where "len = 64 - l - t"
  have lt: "l \<le> 31" "t \<le> 31" by (simp_all add: l_def t_def)
  have abs: "br_abs r = True # bits_of 5 (of_nat l :: u64) @ bits_of 6 (of_nat len :: u64) @ bits_of len (drop_bit t x) @ xs"
    using assms False by (simp add: xor_bits_def Let_def x_def l_def t_def len_def)
  obtain r1 where r1: "read_bit r = Ok (1, r1)"
      "br_abs r1 = bits_of 5 (of_nat l :: u64) @ bits_of 6 (of_nat len :: u64) @ bits_of len (drop_bit t x) @ xs"
    using read_bit_spec [OF abs] by auto
  obtain r2 where r2: "read_bits 5 r1 = Ok (of_nat l, r2)"
      "br_abs r2 = bits_of 6 (of_nat len :: u64) @ bits_of len (drop_bit t x) @ xs"
    using read_bits_spec [OF r1(2)] lt take_bit_small [of l 5] by auto
  obtain r3 where r3: "read_bits 6 r2 = Ok (take_bit 6 (of_nat len), r3)" "br_abs r3 = bits_of len (drop_bit t x) @ xs"
    using read_bits_spec [OF r2(2)] by auto
  have "len \<le> 64" by (simp add: len_def)
  then have ul: "unat (of_nat l :: u64) = l" "unat (of_nat len :: u64) = len" using lt by simp_all
  show ?thesis
  proof (cases "pair_safe x")
    case True
    then have "l \<noteq> 0 \<or> t \<noteq> 0"
      using leading_zeros_0 [of x] trailing_zeros_0 [of x] by (auto simp: pair_safe_def l_def t_def)
    then have "len < 64" "len \<noteq> 0" using lt by (auto simp: len_def)
    then have len: "take_bit 6 (of_nat len :: u64) = of_nat len" using take_bit_small [of len 6] by simp
    obtain r4 where r4: "read_bits len r3 = Ok (take_bit len (drop_bit t x), r4)" "br_abs r4 = xs"
      using read_bits_spec [OF r3(2)] by auto
    have "64 - l - len = t" "l + len \<le> 64" using lt by (simp_all add: len_def)
    moreover have "prev XOR push_bit t (take_bit len (drop_bit t x)) = cur"
      using meaningful_bits [of x, folded l_def t_def, folded len_def]
      by (simp add: x_def) (metis xor.assoc xor.commute xor_self_eq xor.right_neutral)
    ultimately show ?thesis
      using r1 r2 r3 r4 len ul True lt by (simp add: xor_decode_word_def x_def)
  next
    case False
    then have "l = 0" "t = 0"
      using leading_zeros_0 [of x] trailing_zeros_0 [of x] by (auto simp: pair_safe_def l_def t_def)
    then have "len = 64" by (simp add: len_def)
    then have "take_bit 6 (of_nat len :: u64) = 0" by simp
    then show ?thesis
      using r1 r2 r3 \<open>l = 0\<close> False by (simp add: xor_decode_word_def x_def read_bits_def)
  qed
qed

lemma xor_decode_loop_spec:
  assumes "br_abs r = xor_stream prev ws @ pad"
  shows "xor_decode_loop (length ws) prev r out = (if chain_safe prev ws then Ok (out @ bytes_of 8 ws) else Panic)"
  using assms
proof (induction ws arbitrary: prev r out)
  case (Cons cur ws)
  then have "br_abs r = xor_bits (cur XOR prev) @ xor_stream cur ws @ pad" by simp
  from xor_decode_word_spec [OF this] show ?case
    using Cons.IH by (auto split: if_splits)
qed simp

lemma stream_prefix:
  "stream bs = stream xs @ ys \<Longrightarrow> \<exists>zs. bs = xs @ zs \<and> stream zs = ys"
proof (induction xs arbitrary: bs)
  case (Cons x xs)
  then obtain b bs' where "bs = b # bs'" by (cases bs) (auto dest: arg_cong [of _ _ length])
  with Cons.prems have "bits_of 8 b = bits_of 8 x" "stream bs' = stream xs @ ys" by auto
  moreover from this(1) have "b = x" by (rule bits_of_inj) simp_all
  ultimately show ?case using Cons.IH \<open>bs = b # bs'\<close> by auto
qed simp

text \<open>The decoder returns the input exactly on the safe inputs and panics on all others.\<close>

lemma xor_decode_encode:
  assumes "alloc (length xs)" and "xor_encode crc alloc xs = Ok c"
  shows "xor_decode crc alloc c (length xs) = (if xor_safe xs then Ok xs else Panic)"
proof -
  define k where "k = length xs div 8"
  define ws where "ws = (words_of 8 k xs :: u64 list)"
  define rem where "rem = drop (8 * k) xs"
  have lenr: "length xs mod 8 = length rem" and lenx: "length xs = k * 8 + length rem"
    and xs: "bytes_of 8 ws @ rem = xs"
    using bytes_of_words_of [of 8 k xs, where 'w = 64]
    by (simp_all add: rem_def k_def ws_def minus_mult_div_eq_mod [symmetric] mult.commute)
  show ?thesis
  proof (cases ws)
    case Nil
    have k0: "k = 0" using arg_cong [OF Nil, of length] by (simp add: ws_def)
    then have f: "frame_compressed crc alloc Xor (length xs) (to_le 4 (0 :: u32) @ xs) = Ok c"
      using assms(2) by (cases "xs = []") (simp_all add: xor_encode_def k_def div_eq_0_iff)
    have "slice (to_le 4 (0 :: u32) @ xs) 0 4 = to_le 4 (0 :: u32)" by (simp add: slice_def)
    moreover have "xor_safe xs" using k0 by (simp add: xor_safe_def k_def)
    ultimately show ?thesis using assms(1)
      unfolding xor_decode_def verify_frame_compressed [OF f] rbind.simps
      by (simp add: try_reserve_def)
  next
    case (Cons w ws')
    have lenws: "k = Suc (length ws')" using arg_cong [OF Cons, of length] by (simp add: ws_def)
    define h where "h = to_le 4 (of_nat k :: u32) @ to_le 8 w"
    have inv: "bw_inv (bw_new h)" "bw_abs (bw_new h) = stream h" by (simp_all add: bw_inv_def bw_abs_def bw_new_def)
    note enc = xor_encode_loop_spec [OF inv(1), of w ws']
    obtain pad where "stream (bw_buf (bw_flush (xor_encode_loop w ws' (bw_new h)))) = stream h @ xor_stream w ws' @ pad"
      using bw_flush_spec [OF conjunct1 [OF enc]] conjunct2 [OF enc] inv(2) by auto
    from stream_prefix [OF this] obtain out
      where out: "bw_buf (bw_flush (xor_encode_loop w ws' (bw_new h))) = h @ out"
        "stream out = xor_stream w ws' @ pad" by blast
    have f: "frame_compressed crc alloc Xor (length xs) (h @ out @ rem) = Ok c"
      using assms(2) out(1) lenr Cons lenws
      unfolding xor_encode_def Let_def k_def [symmetric] ws_def [symmetric]
      by (cases "rem = []") (simp_all add: rem_def h_def mult.commute)
    have uk: "unat (of_nat k :: u32) = k" using conjunct1 [OF frame_Ok [OF f]] lenx by simp
    have body: "length h = 12" "from_le (slice (h @ out @ rem) 0 4) = (of_nat k :: u32)"
      "from_le (slice (h @ out @ rem) 4 12) = w" "drop 12 (h @ out @ rem) = out @ rem"
      using slice_mid [of "[]" 0 4 "to_le 4 (of_nat k :: u32)" "to_le 8 w @ out @ rem"]
        slice_mid [of "to_le 4 (of_nat k :: u32)" 4 12 "to_le 8 w" "out @ rem"]
      by (simp_all add: h_def)
    have "br_abs (br_new (out @ rem)) = xor_stream w ws' @ pad @ stream rem"
      by (simp add: br_abs_def br_new_def out(2))
    from xor_decode_loop_spec [OF this]
    have dec: "xor_decode_loop (length ws') w (br_new (out @ rem)) (to_le 8 w)
        = (if chain_safe w ws' then Ok (bytes_of 8 ws) else Panic)" by (simp add: Cons)
    have safe: "xor_safe xs = chain_safe w ws'" using Cons by (simp add: xor_safe_def ws_def k_def)
    show ?thesis
      unfolding xor_decode_def verify_frame_compressed [OF f] rbind.simps safe
      using assms(1) uk body xs dec unfolding lenx
      by (cases "rem = []") (simp_all add: Let_def try_reserve_def lenws lenx Cons)
  qed
qed

lemma xor_encode_no_panic: "xor_encode crc alloc xs \<noteq> Panic"
  by (simp add: xor_encode_def Let_def)

interpretation xor: lossless_codec "xor_encode crc alloc" "xor_decode crc alloc" xor_safe alloc for crc alloc
  by unfold_locales (simp_all add: xor_decode_encode xor_encode_no_panic)

end
