(* ===== verification/Codec_Select.thy ===== *)
theory Codec_Select
  imports Codec_Rle Codec_Pack Codec_Xor
begin

section \<open>Candidate evaluation and selection (\<open>CodecScorer\<close>)\<close>

text \<open>
  \<open>score cid n\<close> is the score the scorer computes for a candidate of compressed size \<open>n\<close>: in the code
  a float that adds the weighted wall-clock times to the size. The times are not a function of the
  input, so the score is a parameter, with values in any linear order (a score is not a NaN unless a
  weight is). The ratio and the two durations of \<open>CodecEvaluation\<close> play no part in the selection and
  are left out of the record.
\<close>

record 's codec_evaluation =
  ev_codec :: codec_id
  ev_original_bytes :: usize
  ev_compressed_bytes :: usize
  ev_score :: 's
  ev_verified_lossless :: bool

definition codec_encode :: "(bytes \<Rightarrow> u32) \<Rightarrow> (usize \<Rightarrow> bool) \<Rightarrow> codec_id \<Rightarrow> bytes \<Rightarrow> (bytes, codec_error) result" where
  "codec_encode crc alloc cid = (case cid of
       Raw \<Rightarrow> raw_encode crc alloc | Rle \<Rightarrow> rle_encode crc alloc | BitPack \<Rightarrow> bitpack_encode crc alloc
     | DeltaFor \<Rightarrow> deltafor_encode crc alloc | Xor \<Rightarrow> xor_encode crc alloc)"

definition codec_decode :: "(bytes \<Rightarrow> u32) \<Rightarrow> (usize \<Rightarrow> bool) \<Rightarrow> codec_id \<Rightarrow> bytes \<Rightarrow> usize \<Rightarrow> (bytes, codec_error) result" where
  "codec_decode crc alloc cid = (case cid of
       Raw \<Rightarrow> raw_decode crc alloc | Rle \<Rightarrow> rle_decode crc alloc | BitPack \<Rightarrow> bitpack_decode crc alloc
     | DeltaFor \<Rightarrow> deltafor_decode crc alloc | Xor \<Rightarrow> xor_decode crc alloc)"

definition evaluate_candidate :: "(bytes \<Rightarrow> u32) \<Rightarrow> (usize \<Rightarrow> bool) \<Rightarrow> (codec_id \<Rightarrow> usize \<Rightarrow> 's)
    \<Rightarrow> codec_id \<Rightarrow> bytes \<Rightarrow> ('s codec_evaluation, codec_error) result" where
  "evaluate_candidate crc alloc score cid data =
     rbind (codec_encode crc alloc cid data) (\<lambda>compressed.
     rbind (codec_decode crc alloc cid compressed (length data)) (\<lambda>decoded.
     if decoded \<noteq> data then Err (CxInvalidData ''roundtrip data corruption detected'')
     else Ok \<lparr>ev_codec = cid, ev_original_bytes = length data, ev_compressed_bytes = length compressed,
              ev_score = score cid (length compressed), ev_verified_lossless = True\<rparr>))"

text \<open>\<open>if let Ok(eval) = ...\<close>: errors are skipped, a panic is not caught.\<close>

fun collect_evaluations :: "(codec_id \<Rightarrow> ('s codec_evaluation, codec_error) result) \<Rightarrow> codec_id list
    \<Rightarrow> ('s codec_evaluation list, codec_error) result" where
  "collect_evaluations f [] = Ok []"
| "collect_evaluations f (c # cs) = (case f c of
       Ok e \<Rightarrow> rbind (collect_evaluations f cs) (\<lambda>es. Ok (e # es))
     | Err _ \<Rightarrow> collect_evaluations f cs
     | Panic \<Rightarrow> Panic)"

text \<open>\<open>Iterator::min_by\<close> keeps the earlier of two equal elements.\<close>

fun min_by_score :: "('s::linorder) codec_evaluation list \<Rightarrow> 's codec_evaluation option" where
  "min_by_score [] = None"
| "min_by_score (e # es) = Some (foldl (\<lambda>a b. if ev_score a > ev_score b then b else a) e es)"

definition select_best :: "(bytes \<Rightarrow> u32) \<Rightarrow> (usize \<Rightarrow> bool) \<Rightarrow> (codec_id \<Rightarrow> usize \<Rightarrow> 's::linorder)
    \<Rightarrow> bytes \<Rightarrow> ('s codec_evaluation, codec_error) result" where
  "select_best crc alloc score data =
     rbind (collect_evaluations (\<lambda>c. evaluate_candidate crc alloc score c data) [Raw, Rle, BitPack, DeltaFor, Xor])
       (\<lambda>evaluations.
     rbind (ok_or (List.find (\<lambda>e. ev_codec e = Raw) evaluations) (CxInvalidData ''raw codec evaluation missing''))
       (\<lambda>raw_eval.
     Ok (case min_by_score (filter (\<lambda>e. ev_compressed_bytes e < ev_compressed_bytes raw_eval) evaluations) of
           Some e \<Rightarrow> e | None \<Rightarrow> raw_eval)))"

subsection \<open>What the selection guarantees\<close>

lemma evaluate_candidate_Ok:
  "evaluate_candidate crc alloc score cid data = Ok e \<Longrightarrow>
   ev_codec e = cid \<and> ev_original_bytes e = length data \<and> ev_score e = score cid (ev_compressed_bytes e)
   \<and> ev_verified_lossless e
   \<and> (\<exists>c. codec_encode crc alloc cid data = Ok c \<and> length c = ev_compressed_bytes e
        \<and> codec_decode crc alloc cid c (length data) = Ok data)"
  by (auto simp: evaluate_candidate_def rbind_eq_Ok split: if_splits)

lemma collect_evaluations_Ok:
  "collect_evaluations f cs = Ok es \<Longrightarrow> set es = {e. \<exists>c \<in> set cs. f c = Ok e}"
  by (induction cs arbitrary: es) (auto simp: rbind_eq_Ok split: result.splits)

lemma collect_evaluations_Panic: "collect_evaluations f cs = Panic \<longleftrightarrow> (\<exists>c \<in> set cs. f c = Panic)"
  by (induction cs) (auto simp: rbind_eq_Panic split: result.splits)

lemma collect_evaluations_not_Err: "collect_evaluations f cs \<noteq> Err x"
  by (induction cs) (auto split: result.splits rbind_split)

lemma foldl_min_score:
  fixes e :: "('s::linorder) codec_evaluation"
  shows "foldl (\<lambda>a b. if ev_score a > ev_score b then b else a) e es \<in> set (e # es)
    \<and> (\<forall>x \<in> set (e # es). ev_score (foldl (\<lambda>a b. if ev_score a > ev_score b then b else a) e es) \<le> ev_score x)"
proof (induction es arbitrary: e)
  case (Cons b es)
  show ?case
  proof (cases "ev_score e > ev_score b")
    case True
    then show ?thesis using Cons.IH [of b] by auto
  next
    case False
    then show ?thesis using Cons.IH [of e] by (auto intro: order.trans)
  qed
qed simp

lemma min_by_score_Some:
  assumes "min_by_score es = Some e"
  shows "e \<in> set es \<and> (\<forall>x \<in> set es. ev_score e \<le> ev_score x)"
proof (cases es)
  case (Cons y ys)
  then show ?thesis using assms foldl_min_score [of y ys] by auto
qed (use assms in simp)

lemma min_by_score_None: "min_by_score es = None \<longleftrightarrow> es = []"
  by (cases es) auto

text \<open>Of the five codecs only the XOR codec can panic, and exactly on the unsafe inputs.\<close>

lemma evaluate_candidate_Panic:
  assumes "alloc (length data)"
  shows "evaluate_candidate crc alloc score cid data = Panic
     \<longleftrightarrow> cid = Xor \<and> \<not> xor_safe data \<and> is_ok (xor_encode crc alloc data)"
proof (cases "codec_encode crc alloc cid data")
  case (Ok c)
  then show ?thesis
    using assms
    by (cases cid) (simp_all add: evaluate_candidate_def codec_encode_def codec_decode_def raw.roundtrip
        rle.roundtrip bitpack.roundtrip deltafor.roundtrip xor_decode_encode)
next
  case (Err x)
  then show ?thesis by (cases cid) (simp_all add: evaluate_candidate_def codec_encode_def)
next
  case Panic
  then show ?thesis
    by (cases cid) (simp_all add: codec_encode_def raw.enc_no_panic rle.enc_no_panic bitpack.enc_no_panic
        deltafor.enc_no_panic xor.enc_no_panic)
qed

lemma all_codecs: "c \<in> set [Raw, Rle, BitPack, DeltaFor, Xor]"
  by (cases c) simp_all

lemma select_best_Ok:
  assumes "select_best crc alloc score data = Ok e"
  obtains r where "evaluate_candidate crc alloc score Raw data = Ok r"
    and "evaluate_candidate crc alloc score (ev_codec e) data = Ok e"
    and "e = r \<or> ev_compressed_bytes e < ev_compressed_bytes r"
    and "\<And>cid x. evaluate_candidate crc alloc score cid data = Ok x \<Longrightarrow>
           ev_compressed_bytes x < ev_compressed_bytes r \<Longrightarrow>
           ev_compressed_bytes e < ev_compressed_bytes r \<and> ev_score e \<le> ev_score x"
proof -
  let ?f = "\<lambda>c. evaluate_candidate crc alloc score c data"
  obtain es r where es: "collect_evaluations ?f [Raw, Rle, BitPack, DeltaFor, Xor] = Ok es"
    and r: "List.find (\<lambda>e. ev_codec e = Raw) es = Some r"
    and e: "e = (case min_by_score (filter (\<lambda>e. ev_compressed_bytes e < ev_compressed_bytes r) es) of
           Some e \<Rightarrow> e | None \<Rightarrow> r)"
    using assms by (auto simp: select_best_def rbind_eq_Ok ok_or_eq_Ok)
  have set: "x \<in> set es \<longleftrightarrow> (\<exists>c. ?f c = Ok x)" for x
    using collect_evaluations_Ok [OF es] all_codecs by blast
  have self: "x \<in> set es \<Longrightarrow> ?f (ev_codec x) = Ok x" for x
    using set [of x] evaluate_candidate_Ok by metis
  have "r \<in> set es" "ev_codec r = Raw" using r by (auto simp: find_Some_iff)
  then have 1: "?f Raw = Ok r" using self [of r] by simp
  show thesis
  proof (cases "min_by_score (filter (\<lambda>e. ev_compressed_bytes e < ev_compressed_bytes r) es)")
    case None
    then have "e = r" using e by simp
    moreover have "\<not> ev_compressed_bytes x < ev_compressed_bytes r" if "?f cid = Ok x" for cid x
      using that set None by (auto simp: min_by_score_None filter_empty_conv)
    ultimately show thesis using that 1 \<open>ev_codec r = Raw\<close> by metis
  next
    case (Some w)
    then have "e = w" using e by simp
    with min_by_score_Some [OF Some] show thesis
      using that [OF 1] self set by auto
  qed
qed

subsection \<open>Properties\<close>

lemma codec_encode_decode:
  assumes "alloc (length xs)" "codec_encode crc alloc cid xs = Ok c"
  shows "codec_decode crc alloc cid c (length xs) = (if cid = Xor \<and> \<not> xor_safe xs then Panic else Ok xs)"
  using assms
  by (cases cid) (simp_all add: codec_encode_def codec_decode_def raw.roundtrip rle.roundtrip bitpack.roundtrip
      deltafor.roundtrip xor_decode_encode)

lemma codec_encode_no_panic: "codec_encode crc alloc cid xs \<noteq> Panic"
  by (cases cid) (simp_all add: codec_encode_def raw.enc_no_panic rle.enc_no_panic bitpack.enc_no_panic
      deltafor.enc_no_panic xor.enc_no_panic)

lemma codec_encode_total:
  assumes "\<forall>n. alloc n" "length xs < 2 ^ 32"
  shows "is_ok (codec_encode crc alloc cid xs)"
proof -
  have f: "is_ok (frame_compressed crc alloc i (length xs) b)" for i b
    using assms by (simp add: frame_total)
  then show ?thesis
    using rle_encode_loop_ok [of xs "[]"]
    by (cases cid) (auto simp: codec_encode_def raw_encode_def rle_encode_def bitpack_encode_def
        deltafor_encode_def xor_encode_def Let_def sub_base_Ok)
qed

lemma is_ok_Ex: "is_ok m \<longleftrightarrow> (\<exists>x. m = Ok x)"
  by (cases m) auto

lemma select_best_safe:
  assumes "\<forall>n. alloc n" "length data < 2 ^ 32" "xor_safe data"
  shows "is_ok (select_best crc alloc score data)"
proof -
  let ?f = "\<lambda>c. evaluate_candidate crc alloc score c data"
  have "is_ok (?f cid)" for cid
  proof -
    obtain c where c: "codec_encode crc alloc cid data = Ok c"
      using codec_encode_total [OF assms(1,2)] by (auto simp: is_ok_Ex)
    then show ?thesis using codec_encode_decode [OF _ c] assms by (auto simp: evaluate_candidate_def)
  qed
  then obtain a b c d e where "?f Raw = Ok a" "?f Rle = Ok b" "?f BitPack = Ok c" "?f DeltaFor = Ok d" "?f Xor = Ok e"
    unfolding is_ok_Ex by metis
  moreover have "ev_codec a = Raw" using evaluate_candidate_Ok [OF \<open>?f Raw = Ok a\<close>] by simp
  ultimately show ?thesis by (simp add: select_best_def)
qed

text \<open>C7: The raw, run-length, bit-packing and frame-of-reference codecs are lossless: with memory
  available and an input below 4 GiB, encoding succeeds for every input, and decoding the frame with
  the original length returns exactly the input, whatever the checksum function is.\<close>

theorem codecs_lossless:
  assumes "\<forall>n. alloc n" "length xs < 2 ^ 32" "cid \<noteq> Xor"
  shows "\<exists>c. codec_encode crc alloc cid xs = Ok c \<and> codec_decode crc alloc cid c (length xs) = Ok xs"
proof -
  obtain c where c: "codec_encode crc alloc cid xs = Ok c"
    using codec_encode_total [OF assms(1,2)] by (auto simp: is_ok_Ex)
  then show ?thesis using codec_encode_decode [OF _ c] assms by simp
qed

theorem codecs_lossless_witness:
  "\<exists>c. codec_encode (\<lambda>bs. of_nat (length bs)) (\<lambda>_. True) DeltaFor [1, 2, 3, 4, 5, 6, 7, 8, 9] = Ok c
     \<and> codec_decode (\<lambda>bs. of_nat (length bs)) (\<lambda>_. True) DeltaFor c (length [1 :: u8, 2, 3, 4, 5, 6, 7, 8, 9]) = Ok [1, 2, 3, 4, 5, 6, 7, 8, 9]"
  by (rule codecs_lossless) simp_all

text \<open>C8: The XOR codec round-trips exactly the inputs in which no two neighbouring 64-bit words
  differ in both their lowest and their highest bit; on every other input the decoder, run on the
  frame the encoder produced, panics on a shift overflow. (The documentation calls every codec
  strictly lossless.)\<close>

theorem xor_codec_exact:
  assumes "\<forall>n. alloc n" "length xs < 2 ^ 32"
  shows "\<exists>c. xor_encode crc alloc xs = Ok c
     \<and> xor_decode crc alloc c (length xs) = (if xor_safe xs then Ok xs else Panic)"
proof -
  obtain c where c: "codec_encode crc alloc Xor xs = Ok c"
    using codec_encode_total [OF assms] by (auto simp: is_ok_Ex)
  then show ?thesis using codec_encode_decode [OF _ c] assms by (simp add: codec_encode_def codec_decode_def)
qed

lemma xor_unsafe_example: "\<not> xor_safe [0, 0, 0, 0, 0, 0, 0, 0, 1, 0, 0, 0, 0, 0, 0, 0x80]"
  by code_simp

theorem xor_codec_exact_witness:
  "\<exists>c. xor_encode (\<lambda>_. 0) (\<lambda>_. True) [0, 0, 0, 0, 0, 0, 0, 0, 1, 0, 0, 0, 0, 0, 0, 0x80] = Ok c
     \<and> xor_decode (\<lambda>_. 0) (\<lambda>_. True) c (length [0 :: u8, 0, 0, 0, 0, 0, 0, 0, 1, 0, 0, 0, 0, 0, 0, 0x80]) = Panic"
  using xor_codec_exact [of "\<lambda>_. True" "[0, 0, 0, 0, 0, 0, 0, 0, 1, 0, 0, 0, 0, 0, 0, 0x80]" "\<lambda>_. 0"]
  by (simp add: xor_unsafe_example)

text \<open>C9: Selection is safe and optimal among the candidates that are smaller than raw: the evaluation
  \<open>select_best\<close> returns is of a codec whose frame for this data has the reported size and decodes back to the
  data; it is the raw codec's exactly if no candidate is strictly smaller than raw, and otherwise it is strictly
  smaller and no smaller candidate has a lower score. The score of the raw codec plays no part: ADR 0003 and the
  comment on \<open>select_best\<close> ask a winner to improve on raw in its score as well, but a smaller candidate wins
  even if its score is worse than raw's, as the witness shows.\<close>

theorem select_best_correct:
  assumes "select_best crc alloc score data = Ok e"
  shows "\<exists>c r. codec_encode crc alloc (ev_codec e) data = Ok c \<and> length c = ev_compressed_bytes e
     \<and> codec_decode crc alloc (ev_codec e) c (length data) = Ok data \<and> ev_verified_lossless e
     \<and> evaluate_candidate crc alloc score Raw data = Ok r
     \<and> (e = r \<or> ev_compressed_bytes e < ev_compressed_bytes r)
     \<and> (e = r \<longleftrightarrow> \<not> (\<exists>cid x. evaluate_candidate crc alloc score cid data = Ok x \<and> ev_compressed_bytes x < ev_compressed_bytes r))
     \<and> (\<forall>cid x. evaluate_candidate crc alloc score cid data = Ok x
           \<and> ev_compressed_bytes x < ev_compressed_bytes r \<longrightarrow>
           ev_compressed_bytes e < ev_compressed_bytes r \<and> ev_score e \<le> ev_score x)"
proof -
  obtain r where r: "evaluate_candidate crc alloc score Raw data = Ok r"
    "evaluate_candidate crc alloc score (ev_codec e) data = Ok e"
    "e = r \<or> ev_compressed_bytes e < ev_compressed_bytes r"
    "\<And>cid x. evaluate_candidate crc alloc score cid data = Ok x \<Longrightarrow>
           ev_compressed_bytes x < ev_compressed_bytes r \<Longrightarrow>
           ev_compressed_bytes e < ev_compressed_bytes r \<and> ev_score e \<le> ev_score x"
    using select_best_Ok [OF assms] by blast
  have "e = r \<longleftrightarrow> \<not> (\<exists>cid x. evaluate_candidate crc alloc score cid data = Ok x \<and> ev_compressed_bytes x < ev_compressed_bytes r)"
    using r(2-4) by fastforce
  then show ?thesis using r(1,3,4) evaluate_candidate_Ok [OF r(2)] by blast
qed

text \<open>Three equal bytes: the run-length frame is smaller than the raw one and wins, although raw scores 0.\<close>

lemma length_frame: "frame_compressed crc alloc cid n body = Ok c \<Longrightarrow> length c = 20 + length body"
  by (auto simp: frame_compressed_def CODEC_MAGIC_def Let_def rbind_eq_Ok split: if_splits)

lemma rle_three: "rle_encode_loop [5, 5, 5] [] = Ok [0x80, 5]"
  by (simp add: rle_encode_loop.simps)

theorem select_best_correct_witness:
  "\<exists>e r. select_best (\<lambda>_. 0) (\<lambda>_. True) (\<lambda>cid n. if cid = Raw then 0 else Suc n) [5, 5, 5] = Ok e
     \<and> evaluate_candidate (\<lambda>_. 0) (\<lambda>_. True) (\<lambda>cid n. if cid = Raw then 0 else Suc n) Raw [5, 5, 5] = Ok r
     \<and> ev_compressed_bytes e < ev_compressed_bytes r \<and> ev_score r < ev_score e"
proof -
  let ?crc = "\<lambda>_ :: bytes. 0 :: u32" and ?alloc = "\<lambda>_ :: usize. True" and ?d = "[5, 5, 5] :: bytes"
    and ?score = "\<lambda>cid n. if cid = Raw then 0 else Suc n"
  let ?ev = "\<lambda>cid. evaluate_candidate ?crc ?alloc ?score cid ?d"
  have "is_ok (select_best ?crc ?alloc ?score ?d)" by (rule select_best_safe) (simp_all add: xor_safe_def)
  then obtain e where e: "select_best ?crc ?alloc ?score ?d = Ok e" unfolding is_ok_Ex by (elim exE)
  obtain r where r: "?ev Raw = Ok r" and small: "e = r \<or> ev_compressed_bytes e < ev_compressed_bytes r"
    and beats: "e = r \<longleftrightarrow> \<not> (\<exists>cid x. ?ev cid = Ok x \<and> ev_compressed_bytes x < ev_compressed_bytes r)"
    using select_best_correct [OF e] by (elim exE conjE) (rule that)
  have rb: "ev_compressed_bytes r = 23" "ev_score r = 0"
    using evaluate_candidate_Ok [OF r] length_frame by (fastforce simp: codec_encode_def raw_encode_def)+
  obtain c where c: "codec_encode ?crc ?alloc Rle ?d = Ok c"
    using codec_encode_total [of ?alloc ?d ?crc Rle] by (auto simp: is_ok_Ex)
  have "length c = 22" using c length_frame by (fastforce simp: codec_encode_def rle_encode_def rle_three)
  moreover have "codec_decode ?crc ?alloc Rle c (length ?d) = Ok ?d" using codec_encode_decode [OF _ c] by simp
  ultimately have "?ev Rle = Ok \<lparr>ev_codec = Rle, ev_original_bytes = 3, ev_compressed_bytes = 22, ev_score = 23, ev_verified_lossless = True\<rparr>"
    using c by (simp add: evaluate_candidate_def)
  then have ne: "e \<noteq> r" unfolding beats rb by (auto intro!: exI [of _ Rle])
  have e': "?ev (ev_codec e) = Ok e" using select_best_Ok [OF e] by metis
  have "ev_codec e \<noteq> Raw" using e' r ne by auto
  then have "0 < ev_score e" using evaluate_candidate_Ok [OF e'] by simp
  then show ?thesis using e r small ne rb(2) by (intro exI [of _ e] exI [of _ r]) simp
qed

text \<open>With memory available and an input below 4 GiB, the selection returns a winner exactly when
  the input is safe for the XOR codec, and otherwise panics in a build with overflow checks: the
  candidate evaluation does not shield the caller from the XOR decoder.\<close>

theorem select_best_total:
  assumes "\<forall>n. alloc n" "length data < 2 ^ 32"
  shows "if xor_safe data then is_ok (select_best crc alloc score data)
         else select_best crc alloc score data = Panic"
proof -
  let ?f = "\<lambda>c. evaluate_candidate crc alloc score c data"
  show ?thesis
  proof (cases "xor_safe data")
    case True
    then show ?thesis using select_best_safe [OF assms] by simp
  next
    case False
    then have "?f Xor = Panic"
      using codec_encode_total [OF assms, of crc Xor, unfolded codec_encode_def codec_id.case] evaluate_candidate_Panic [of alloc data crc score Xor] assms(1) [rule_format, of "length data"]
      by blast
    then have "collect_evaluations ?f [Raw, Rle, BitPack, DeltaFor, Xor] = Panic"
      unfolding collect_evaluations_Panic by simp
    then show ?thesis using False by (simp add: select_best_def)
  qed
qed

theorem select_best_total_witness:
  "is_ok (select_best (\<lambda>_. 0) (\<lambda>_. True) (\<lambda>_ n. n) [5, 5, 5])"
  using select_best_total [of "\<lambda>_. True" "[5, 5, 5]" "\<lambda>_. 0" "\<lambda>_ n. n"]
  by (simp add: xor_safe_def)

end
