(* ===== verification/Btree.thy ===== *)
theory Btree
  imports Rust_Prelude
begin

section \<open>Ordered maps: \<open>std::collections::BTreeMap\<close>\<close>

text \<open>
  A \<open>BTreeMap\<close> is modelled by the list of its entries in key order, which is what the code
  observes of it: \<open>get\<close>, \<open>insert\<close> (which replaces an existing entry), \<open>remove\<close> and iteration
  in ascending key order. The contract clients use is the locale \<open>ordered_map\<close>; its interpretation
  at the end discharges it for the list model.
\<close>

type_synonym ('k, 'v) btree = "('k \<times> 'v) list"

definition bt_get :: "('k, 'v) btree \<Rightarrow> 'k \<Rightarrow> 'v option" where
  "bt_get m k = map_of m k"

fun bt_insert :: "'k::linorder \<Rightarrow> 'v \<Rightarrow> ('k, 'v) btree \<Rightarrow> ('k, 'v) btree" where
  "bt_insert k v [] = [(k, v)]"
| "bt_insert k v ((k', v') # m) =
     (if k < k' then (k, v) # (k', v') # m
      else if k = k' then (k, v) # m
      else (k', v') # bt_insert k v m)"

definition bt_remove :: "'k \<Rightarrow> ('k, 'v) btree \<Rightarrow> ('k, 'v) btree" where
  "bt_remove k m = filter (\<lambda>e. fst e \<noteq> k) m"

definition bt_keys :: "('k, 'v) btree \<Rightarrow> 'k list" where
  "bt_keys m = map fst m"

definition bt_wf :: "('k::linorder, 'v) btree \<Rightarrow> bool" where
  "bt_wf m \<longleftrightarrow> sorted_wrt (<) (map fst m)"

subsection \<open>The contract\<close>

locale ordered_map =
  fixes empty :: "'m"
    and get :: "'m \<Rightarrow> 'k::linorder \<Rightarrow> 'v option"
    and ins :: "'k \<Rightarrow> 'v \<Rightarrow> 'm \<Rightarrow> 'm"
    and rem :: "'k \<Rightarrow> 'm \<Rightarrow> 'm"
    and keys :: "'m \<Rightarrow> 'k list"
    and invar :: "'m \<Rightarrow> bool"
  assumes invar_empty: "invar empty"
    and get_empty: "get empty k = None"
    and invar_ins: "invar m \<Longrightarrow> invar (ins k v m)"
    and get_ins: "invar m \<Longrightarrow> get (ins k v m) = (get m)(k \<mapsto> v)"
    and invar_rem: "invar m \<Longrightarrow> invar (rem k m)"
    and get_rem: "invar m \<Longrightarrow> get (rem k m) = (get m)(k := None)"
    and keys_sorted: "invar m \<Longrightarrow> sorted_wrt (<) (keys m)"
    and keys_dom: "invar m \<Longrightarrow> set (keys m) = dom (get m)"
begin

lemma finite_dom: "invar m \<Longrightarrow> finite (dom (get m))"
  using keys_dom by (metis List.finite_set)

lemma fold_ins_invar: "invar m \<Longrightarrow> invar (fold (\<lambda>(k, v). ins k v) kvs m)"
  by (induction kvs arbitrary: m) (auto simp: invar_ins)

lemma fold_ins_get:
  "invar m \<Longrightarrow> get (fold (\<lambda>(k, v). ins k v) kvs m) = get m ++ map_of (rev kvs)"
  by (induction kvs arbitrary: m) (auto simp: invar_ins get_ins)

end

subsection \<open>The list model satisfies it\<close>

lemma bt_wf_Nil [simp]: "bt_wf []"
  by (simp add: bt_wf_def)

lemma bt_wf_Cons [simp]: "bt_wf ((k, v) # m) \<longleftrightarrow> (\<forall>k' \<in> fst ` set m. k < k') \<and> bt_wf m"
  by (simp add: bt_wf_def)

lemma bt_insert_keys: "fst ` set (bt_insert k v m) = insert k (fst ` set m)"
  by (induction k v m rule: bt_insert.induct) auto

lemma bt_wf_insert [simp]: "bt_wf m \<Longrightarrow> bt_wf (bt_insert k v m)"
  by (induction k v m rule: bt_insert.induct) (auto simp: bt_insert_keys)

lemma bt_get_insert [simp]: "bt_get (bt_insert k v m) = (bt_get m)(k \<mapsto> v)"
  unfolding bt_get_def by (induction k v m rule: bt_insert.induct) auto

lemma bt_get_Nil [simp]: "bt_get [] k = None"
  by (simp add: bt_get_def)

lemma bt_get_remove: "bt_get (bt_remove k m) = (bt_get m)(k := None)"
  unfolding bt_get_def bt_remove_def by (induction m) auto

lemma bt_wf_remove: "bt_wf m \<Longrightarrow> bt_wf (bt_remove k m)"
  unfolding bt_wf_def bt_remove_def by (induction m) auto

lemma bt_keys_dom: "set (bt_keys m) = dom (bt_get m)"
  using dom_map_of_conv_image_fst [of m] by (simp add: bt_keys_def bt_get_def dom_def)

lemma bt_wf_distinct: "bt_wf m \<Longrightarrow> distinct (map fst m)"
  unfolding bt_wf_def by (simp add: strict_sorted_iff)

lemma bt_get_iff: "bt_wf m \<Longrightarrow> bt_get m k = Some v \<longleftrightarrow> (k, v) \<in> set m"
  by (simp add: bt_get_def bt_wf_distinct)

interpretation bt: ordered_map "[]" bt_get bt_insert bt_remove bt_keys bt_wf
  by unfold_locales
    (auto simp: bt_get_remove bt_wf_remove bt_keys_dom, auto simp: bt_wf_def bt_keys_def)

text \<open>Inserting the entries of an ordered map one by one, in key order, rebuilds the map.\<close>

lemma bt_insert_last: "\<forall>k' \<in> fst ` set m. k' < k \<Longrightarrow> bt_insert k v m = m @ [(k, v)]"
  by (induction k v m rule: bt_insert.induct) auto

lemma fold_bt_insert_append:
  "bt_wf (m @ kvs) \<Longrightarrow> fold (\<lambda>(k, v). bt_insert k v) kvs m = m @ kvs"
proof (induction kvs arbitrary: m)
  case (Cons kv kvs)
  obtain k v where kv: "kv = (k, v)" by (cases kv)
  have "\<forall>k' \<in> fst ` set m. k' < k"
    using Cons.prems by (auto simp: bt_wf_def kv sorted_wrt_append)
  then show ?case
    using Cons.IH [of "m @ [(k, v)]"] Cons.prems by (simp add: kv bt_insert_last)
qed simp

lemma fold_bt_insert_sorted: "bt_wf kvs \<Longrightarrow> fold (\<lambda>(k, v). bt_insert k v) kvs [] = kvs"
  using fold_bt_insert_append [of "[]"] by simp

lemma length_bt_keys [simp]: "length (bt_keys m) = length m"
  by (simp add: bt_keys_def)

text \<open>Writing through \<open>get_mut\<close> replaces the value of one entry in place.\<close>

lemma bt_insert_existing:
  "bt_wf m \<Longrightarrow> k \<in> fst ` set m \<Longrightarrow> bt_insert k v m = map (\<lambda>e. if fst e = k then (k, v) else e) m"
proof (induction k v m rule: bt_insert.induct)
  case (2 k v k' v' m)
  show ?case
  proof (cases "k = k'")
    case True
    then have "map (\<lambda>e. if fst e = k then (k, v) else e) m = m"
      using "2.prems"(1) by (intro map_idI) auto
    then show ?thesis using True by simp
  next
    case False
    moreover have "k \<in> fst ` set m" "\<not> k < k'" using False "2.prems" by auto
    ultimately show ?thesis using 2 by simp
  qed
qed simp

end
