(* ===== verification/Causal_Graph.thy ===== *)
theory Causal_Graph
  imports Core_Types Btree
begin

section \<open>The causal graph (\<open>temnion-causal\<close>: \<open>CausalGraph\<close>)\<close>

text \<open>
  Events with their declared causes, in both directions. The two breadth-first searches of the code
  (the ancestor test and the bounded trace) are loops over a queue and a visited set; they are
  functions whose termination rests on the number of unvisited nodes. \<open>edges_of m\<close> is the relation an
  adjacency map denotes, and every search is specified by it.
\<close>

type_synonym adjacency = "(event_id, event_id list) btree"

datatype causal_error =
    CgCycleDetected event_id event_id
  | CgEventNotFound event_id
  | CgFormat string
  | CgChecksumMismatch
  | CgInvalidMagic
  | CgUnsupportedVersion u16

record causal_graph =
  cg_causes :: adjacency
  cg_effects :: adjacency

definition graph_new :: causal_graph where
  "graph_new = \<lparr>cg_causes = [], cg_effects = []\<rparr>"

definition adjacent :: "adjacency \<Rightarrow> event_id \<Rightarrow> event_id list" where
  "adjacent m e = (case bt_get m e of Some cs \<Rightarrow> cs | None \<Rightarrow> [])"

definition immediate_causes :: "causal_graph \<Rightarrow> event_id \<Rightarrow> event_id list" where
  "immediate_causes g e = adjacent (cg_causes g) e"

definition immediate_effects :: "causal_graph \<Rightarrow> event_id \<Rightarrow> event_id list" where
  "immediate_effects g e = adjacent (cg_effects g) e"

definition edges_of :: "adjacency \<Rightarrow> (event_id \<times> event_id) set" where
  "edges_of m = {(x, y). y \<in> set (adjacent m x)}"

definition targets :: "adjacency \<Rightarrow> event_id set" where
  "targets m = (\<Union>(_, cs) \<in> set m. set cs)"

lemma finite_targets [simp]: "finite (targets m)"
  by (auto simp: targets_def)

lemma adjacent_targets: "set (adjacent m x) \<subseteq> targets m"
proof (cases "bt_get m x")
  case (Some cs)
  then have "(x, cs) \<in> set m" by (simp add: bt_get_def map_of_SomeD)
  then show ?thesis using Some by (auto simp: adjacent_def targets_def)
qed (simp add: adjacent_def)

subsection \<open>The ancestor test\<close>

text \<open>The inner \<open>for\<close> loop: \<open>None\<close> is the early \<open>return true\<close>.\<close>

fun visit_causes :: "event_id \<Rightarrow> event_id list \<Rightarrow> event_id list \<Rightarrow> event_id list
    \<Rightarrow> (event_id list \<times> event_id list) option" where
  "visit_causes ancestor [] queue visited = Some (queue, visited)"
| "visit_causes ancestor (c # cs) queue visited =
     (if c = ancestor then None
      else if c \<in> set visited then visit_causes ancestor cs queue visited
      else visit_causes ancestor cs (queue @ [c]) (c # visited))"

lemma visit_causes_Some:
  assumes "visit_causes a cs q v = Some (q', v')"
  shows "a \<notin> set cs \<and> (\<exists>new. q' = q @ new \<and> set v' = set v \<union> set new \<and> distinct new
     \<and> set new = set cs - set v)"
  using assms
proof (induction a cs q v rule: visit_causes.induct)
  case (2 a c cs q v)
  then have c: "c \<noteq> a" by (auto split: if_splits)
  show ?case
  proof (cases "c \<in> set v")
    case True
    then show ?thesis using 2 c by auto
  next
    case False
    then obtain new where "q' = (q @ [c]) @ new" "set v' = set (c # v) \<union> set new" "distinct new" "a \<notin> set cs"
      "set new = set cs - set (c # v)"
      using 2 c by auto
    then show ?thesis using False c by (intro conjI exI [of _ "c # new"]) auto
  qed
qed simp

lemma visit_causes_None: "visit_causes a cs q v = None \<longleftrightarrow> a \<in> set cs"
  by (induction a cs q v rule: visit_causes.induct) auto

text \<open>Queue length plus twice the number of unvisited nodes: a visit moves a node from the second to
  the first.\<close>

definition search_measure :: "adjacency \<Rightarrow> nat \<Rightarrow> event_id list \<Rightarrow> nat" where
  "search_measure m n visited = n + 2 * card (targets m - set visited)"

lemma search_measure_visit:
  assumes "set new \<subseteq> targets m" "set new \<inter> set v = {}" "distinct new" "set v' = set v \<union> set new"
  shows "search_measure m (n + length new) v' \<le> search_measure m n v"
proof -
  have "targets m - set v' = (targets m - set v) - set new" using assms by auto
  moreover have "card ((targets m - set v) - set new) = card (targets m - set v) - length new"
    using assms by (subst card_Diff_subset) (auto simp: distinct_card)
  moreover have "length new \<le> card (targets m - set v)"
    using assms card_mono [of "targets m - set v" "set new"] by (auto simp: distinct_card)
  ultimately show ?thesis by (simp add: search_measure_def)
qed

function ancestor_loop :: "adjacency \<Rightarrow> event_id \<Rightarrow> event_id list \<Rightarrow> event_id list \<Rightarrow> bool" where
  "ancestor_loop m ancestor [] visited = False"
| "ancestor_loop m ancestor (current # queue) visited =
     (case visit_causes ancestor (adjacent m current) queue visited of
        None \<Rightarrow> True
      | Some (queue', visited') \<Rightarrow> ancestor_loop m ancestor queue' visited')"
  by pat_completeness auto
termination
proof (relation "measure (\<lambda>(m, _, q, v). search_measure m (length q) v)")
  fix m a x q v p q' v'
  assume "visit_causes a (adjacent m x) q v = Some p" "(q', v') = p"
  then obtain new where new: "q' = q @ new" "set v' = set v \<union> set new" "distinct new"
    "set new = set (adjacent m x) - set v"
    using visit_causes_Some [of a "adjacent m x" q v q' v'] by auto
  then have "search_measure m (length q') v' \<le> search_measure m (length q) v"
    using search_measure_visit [of new m v v' "length q"] adjacent_targets [of m x] by auto
  then show "((m, a, q', v'), (m, a, x # q, v)) \<in> measure (\<lambda>(m, _, q, v). search_measure m (length q) v)"
    by (simp add: search_measure_def)
qed simp

definition is_ancestor_of :: "causal_graph \<Rightarrow> event_id \<Rightarrow> event_id \<Rightarrow> bool" where
  "is_ancestor_of g ancestor descendant =
     (ancestor = descendant \<or> ancestor_loop (cg_causes g) ancestor [descendant] [descendant])"

text \<open>Whatever has been visited and is no longer queued is closed under edges that avoid the target.\<close>

lemma reach_from_queue:
  assumes "(z, a) \<in> R\<^sup>+" "z \<in> V" "\<And>y w. y \<in> V - Q \<Longrightarrow> (y, w) \<in> R \<Longrightarrow> w \<in> V \<and> w \<noteq> a"
  shows "\<exists>y \<in> Q. (y, a) \<in> R\<^sup>+"
  using assms
proof (induction z rule: converse_trancl_induct)
  case (base y)
  then show ?case by (cases "y \<in> Q") auto
next
  case (step y z)
  then show ?case by (cases "y \<in> Q") (auto intro: trancl_into_trancl2)
qed

lemma ancestor_loop_iff:
  assumes "set q \<subseteq> set v"
    and "\<And>y w. y \<in> set v - set q \<Longrightarrow> (y, w) \<in> edges_of m \<Longrightarrow> w \<in> set v \<and> w \<noteq> a"
  shows "ancestor_loop m a q v \<longleftrightarrow> (\<exists>y \<in> set q. (y, a) \<in> (edges_of m)\<^sup>+)"
  using assms
proof (induction m a q v rule: ancestor_loop.induct)
  case (2 m a x q v)
  show ?case
  proof (cases "visit_causes a (adjacent m x) q v")
    case None
    then have "(x, a) \<in> edges_of m" by (simp add: visit_causes_None edges_of_def)
    then show ?thesis using None by auto
  next
    case (Some p)
    then obtain q' v' where s: "visit_causes a (adjacent m x) q v = Some (q', v')" by (cases p) auto
    then obtain new where new: "q' = q @ new" "set v' = set v \<union> set new" "set new = set (adjacent m x) - set v"
      and a: "a \<notin> set (adjacent m x)" using visit_causes_Some [OF s] by auto
    have closed: "\<And>y w. y \<in> set v' - set q' \<Longrightarrow> (y, w) \<in> edges_of m \<Longrightarrow> w \<in> set v' \<and> w \<noteq> a"
    proof -
      fix y w assume yw: "y \<in> set v' - set q'" "(y, w) \<in> edges_of m"
      show "w \<in> set v' \<and> w \<noteq> a"
      proof (cases "y = x")
        case True
        then show ?thesis using yw(2) a new by (auto simp: edges_of_def)
      next
        case False
        then have "y \<in> set v - set (x # q)" using yw(1) new by auto
        from "2.prems"(2) [OF this yw(2)] show ?thesis using new by simp
      qed
    qed
    have "set q' \<subseteq> set v'" using "2.prems"(1) new by auto
    from "2.IH" [OF s refl this closed]
    have "ancestor_loop m a (x # q) v \<longleftrightarrow> (\<exists>y \<in> set q'. (y, a) \<in> (edges_of m)\<^sup>+)" by (simp add: s)
    also have "\<dots> \<longleftrightarrow> (\<exists>y \<in> set (x # q). (y, a) \<in> (edges_of m)\<^sup>+)"
    proof
      assume "\<exists>y \<in> set q'. (y, a) \<in> (edges_of m)\<^sup>+"
      then show "\<exists>y \<in> set (x # q). (y, a) \<in> (edges_of m)\<^sup>+"
        using new by (auto simp: edges_of_def intro: trancl_into_trancl2)
    next
      assume "\<exists>y \<in> set (x # q). (y, a) \<in> (edges_of m)\<^sup>+"
      then obtain y where y: "y \<in> set v'" "(y, a) \<in> (edges_of m)\<^sup>+" using "2.prems"(1) new by auto
      from reach_from_queue [OF y(2,1), of "set q'"] closed
      show "\<exists>y \<in> set q'. (y, a) \<in> (edges_of m)\<^sup>+" by blast
    qed
    finally show ?thesis .
  qed
qed simp

lemma is_ancestor_of_iff: "is_ancestor_of g a d \<longleftrightarrow> (d, a) \<in> (edges_of (cg_causes g))\<^sup>*"
proof -
  have "ancestor_loop (cg_causes g) a [d] [d] \<longleftrightarrow> (d, a) \<in> (edges_of (cg_causes g))\<^sup>+"
    by (subst ancestor_loop_iff) auto
  then show ?thesis by (auto simp: is_ancestor_of_def rtrancl_eq_or_trancl)
qed

subsection \<open>Registering an event\<close>

fun check_cycle :: "causal_graph \<Rightarrow> event_id \<Rightarrow> event_id list \<Rightarrow> (unit, causal_error) result" where
  "check_cycle g event [] = Ok ()"
| "check_cycle g event (cause # cs) =
     (if cause = event \<or> is_ancestor_of g event cause then Err (CgCycleDetected event cause)
      else check_cycle g event cs)"

definition add_effect :: "event_id \<Rightarrow> event_id \<Rightarrow> adjacency \<Rightarrow> adjacency" where
  "add_effect event cause effects =
     (let effect_list = adjacent effects cause
      in bt_insert cause (if event \<in> set effect_list then effect_list else effect_list @ [event]) effects)"

definition entry_or_default :: "event_id \<Rightarrow> adjacency \<Rightarrow> adjacency" where
  "entry_or_default event effects = (case bt_get effects event of Some _ \<Rightarrow> effects | None \<Rightarrow> bt_insert event [] effects)"

text \<open>\<open>sort_unstable\<close> then \<open>dedup\<close>.\<close>

definition add_event :: "causal_graph \<Rightarrow> event_id \<Rightarrow> event_id list \<Rightarrow> (causal_graph, causal_error) result" where
  "add_event g event causes =
     (let causes = sort_dedup causes in
      rbind (check_cycle g event causes) (\<lambda>_.
      let effects = fold (add_effect event) causes (cg_effects g)
      in Ok \<lparr>cg_causes = bt_insert event causes (cg_causes g), cg_effects = entry_or_default event effects\<rparr>))"

lemma adjacent_insert [simp]: "adjacent (bt_insert k v m) e = (if e = k then v else adjacent m e)"
  by (simp add: adjacent_def)

lemma check_cycle_Ok: "check_cycle g e cs = Ok u \<longleftrightarrow> (\<forall>c \<in> set cs. (c, e) \<notin> (edges_of (cg_causes g))\<^sup>*)"
  by (induction g e cs rule: check_cycle.induct) (auto simp: is_ancestor_of_iff)

lemma check_cycle_cases:
  "check_cycle g e cs = Ok () \<or> (\<exists>c \<in> set cs. check_cycle g e cs = Err (CgCycleDetected e c) \<and> (c, e) \<in> (edges_of (cg_causes g))\<^sup>*)"
  by (induction g e cs rule: check_cycle.induct) (auto simp: is_ancestor_of_iff)

lemma add_event_Ok:
  "add_event g e cs = Ok g' \<longleftrightarrow> (\<forall>c \<in> set cs. (c, e) \<notin> (edges_of (cg_causes g))\<^sup>*)
     \<and> g' = \<lparr>cg_causes = bt_insert e (sort_dedup cs) (cg_causes g),
           cg_effects = entry_or_default e (fold (add_effect e) (sort_dedup cs) (cg_effects g))\<rparr>"
  by (auto simp: add_event_def Let_def rbind_eq_Ok check_cycle_Ok)

text \<open>Replacing the out-edges of \<open>e\<close> by edges to nodes that do not reach \<open>e\<close> creates no cycle.\<close>

lemma acyclic_redirect:
  assumes "acyclic R" and "\<forall>c \<in> C. (c, e) \<notin> R\<^sup>*"
  shows "acyclic ((R - {e} \<times> UNIV) \<union> {e} \<times> C)"
proof (rule acyclicI, intro allI notI)
  let ?S = "R - {e} \<times> UNIV" and ?T = "(R - {e} \<times> UNIV) \<union> {e} \<times> C"
  fix x assume cyc: "(x, x) \<in> ?T\<^sup>+"
  have walk: "(y, z) \<in> ?T\<^sup>+ \<Longrightarrow> (y, z) \<in> ?S\<^sup>+ \<or> ((y, e) \<in> ?T\<^sup>* \<and> (e, z) \<in> ?T\<^sup>+)" for y z
  proof (induction rule: trancl_induct)
    case (base z)
    then show ?case by (cases "y = e") auto
  next
    case (step z w)
    then show ?case
      by (cases "z = e") (auto intro: trancl_into_trancl dest: trancl_into_rtrancl)
  qed
  have from_c: "(c, z) \<in> ?T\<^sup>* \<Longrightarrow> c \<in> C \<Longrightarrow> (c, z) \<in> R\<^sup>* \<and> z \<noteq> e" for c z
  proof (induction rule: rtrancl_induct)
    case (step z w)
    then have "(c, w) \<in> R\<^sup>*" by (auto intro: rtrancl_into_rtrancl)
    then show ?case using assms(2) step.prems by auto
  qed (use assms(2) in auto)
  have no_e: "(e, e) \<notin> ?T\<^sup>+"
  proof
    assume "(e, e) \<in> ?T\<^sup>+"
    then obtain c where "(e, c) \<in> ?T" "(c, e) \<in> ?T\<^sup>*" by (meson tranclD)
    then show False using from_c by auto
  qed
  from walk [OF cyc] show False
  proof
    assume "(x, x) \<in> ?S\<^sup>+"
    then have "(x, x) \<in> R\<^sup>+" by (rule trancl_mono) auto
    then show False using assms(1) by (simp add: acyclic_def)
  next
    assume "(x, e) \<in> ?T\<^sup>* \<and> (e, x) \<in> ?T\<^sup>+"
    then show False using no_e by (meson trancl_rtrancl_trancl)
  qed
qed

lemma edges_of_insert: "edges_of (bt_insert e cs m) = (edges_of m - {e} \<times> UNIV) \<union> {e} \<times> set cs"
  by (auto simp: edges_of_def split: if_splits)

lemma add_event_acyclic:
  assumes "add_event g e cs = Ok g'" "acyclic (edges_of (cg_causes g))"
  shows "acyclic (edges_of (cg_causes g'))"
  using assms acyclic_redirect [of "edges_of (cg_causes g)" "set cs" e]
  by (auto simp: add_event_Ok edges_of_insert)

end
