(* ===== verification/Causal_Trace.thy ===== *)
theory Causal_Trace
  imports Causal_Graph
begin

section \<open>Bounded causal traces (\<open>trace_causes\<close>, \<open>trace_effects\<close>)\<close>

text \<open>
  \<open>trace_causes\<close> and \<open>trace_effects\<close> are the same breadth-first search on the two adjacency maps;
  \<open>trace_loop\<close> is that search. Its specification: a node is reported with depth \<open>d\<close> exactly when its
  shortest distance from the root is \<open>d\<close> and \<open>d\<close> is within the bound.
\<close>

record causal_trace =
  ct_events :: "event_id list"
  ct_depths :: "(event_id, usize) btree"
  ct_edges :: "(event_id \<times> event_id) list"

type_synonym trace_queue = "(event_id \<times> usize) list"

fun visit_edges :: "event_id \<Rightarrow> usize \<Rightarrow> event_id list \<Rightarrow> trace_queue \<Rightarrow> event_id list \<Rightarrow> causal_trace
    \<Rightarrow> trace_queue \<times> event_id list \<times> causal_trace" where
  "visit_edges cur depth [] queue visited tr = (queue, visited, tr)"
| "visit_edges cur depth (c # cs) queue visited tr =
     (let tr = tr\<lparr>ct_edges := ct_edges tr @ [(cur, c)]\<rparr> in
      if c \<in> set visited then visit_edges cur depth cs queue visited tr
      else visit_edges cur depth cs (queue @ [(c, depth + 1)]) (c # visited)
             (tr\<lparr>ct_events := ct_events tr @ [c], ct_depths := bt_insert c (depth + 1) (ct_depths tr)\<rparr>))"

text \<open>The nodes an inner loop discovers, in order.\<close>

lemma visit_edges_new:
  assumes "visit_edges x d cs q v t = (q', v', t')"
  obtains new where "q' = q @ map (\<lambda>c. (c, d + 1)) new" "set v' = set v \<union> set new" "distinct new"
    "set new = set cs - set v" "ct_events t' = ct_events t @ new"
    "ct_edges t' = ct_edges t @ map (Pair x) cs"
    "bt_get (ct_depths t') = (\<lambda>y. if y \<in> set new then Some (d + 1) else bt_get (ct_depths t) y)"
  using assms
proof (induction x d cs q v t arbitrary: thesis rule: visit_edges.induct)
  case (1 x d q v t)
  show ?case by (rule "1.prems"(1) [of "[]"]) (use "1.prems"(2) in auto)
next
  case (2 x d c cs q v t)
  let ?t = "t\<lparr>ct_edges := ct_edges t @ [(x, c)]\<rparr>"
  show ?case
  proof (cases "c \<in> set v")
    case True
    show ?thesis
    proof (rule "2.IH"(1) [OF refl True])
      show "visit_edges x d cs q v ?t = (q', v', t')" using "2.prems"(2) True by simp
      fix new assume "q' = q @ map (\<lambda>c. (c, d + 1)) new" "set v' = set v \<union> set new" "distinct new"
        "set new = set cs - set v" "ct_events t' = ct_events ?t @ new"
        "ct_edges t' = ct_edges ?t @ map (Pair x) cs"
        "bt_get (ct_depths t') = (\<lambda>y. if y \<in> set new then Some (d + 1) else bt_get (ct_depths ?t) y)"
      then show thesis using True by (intro "2.prems"(1) [of new]) auto
    qed
  next
    case False
    let ?t2 = "?t\<lparr>ct_events := ct_events ?t @ [c], ct_depths := bt_insert c (d + 1) (ct_depths ?t)\<rparr>"
    show ?thesis
    proof (rule "2.IH"(2) [OF refl False])
      show "visit_edges x d cs (q @ [(c, d + 1)]) (c # v) ?t2 = (q', v', t')" using "2.prems"(2) False by simp
      fix new assume "q' = (q @ [(c, d + 1)]) @ map (\<lambda>c. (c, d + 1)) new" "set v' = set (c # v) \<union> set new" "distinct new"
        "set new = set cs - set (c # v)" "ct_events t' = ct_events ?t2 @ new"
        "ct_edges t' = ct_edges ?t2 @ map (Pair x) cs"
        "bt_get (ct_depths t') = (\<lambda>y. if y \<in> set new then Some (d + 1) else bt_get (ct_depths ?t2) y)"
      then show thesis using False by (intro "2.prems"(1) [of "c # new"]) (auto simp: fun_eq_iff)
    qed
  qed
qed

function trace_loop :: "adjacency \<Rightarrow> usize \<Rightarrow> trace_queue \<Rightarrow> event_id list \<Rightarrow> causal_trace \<Rightarrow> causal_trace" where
  "trace_loop m max_depth [] visited tr = tr"
| "trace_loop m max_depth ((cur, depth) # queue) visited tr =
     (if depth \<ge> max_depth then trace_loop m max_depth queue visited tr
      else let (queue', visited', tr') = visit_edges cur depth (adjacent m cur) queue visited tr
           in trace_loop m max_depth queue' visited' tr')"
  by pat_completeness auto
termination
proof (relation "measure (\<lambda>(m, _, q, v, _). search_measure m (length q) v)")
  fix m md x d q v t p q' r v' t'
  assume p: "p = visit_edges x d (adjacent m x) q v t" "(q', r) = p" "(v', t') = r"
  then have "visit_edges x d (adjacent m x) q v t = (q', v', t')" by simp
  then obtain new where new: "q' = q @ map (\<lambda>c. (c, d + 1)) new" "set v' = set v \<union> set new" "distinct new"
    "set new = set (adjacent m x) - set v" by (rule visit_edges_new)
  then have "search_measure m (length q') v' \<le> search_measure m (length q) v"
    using search_measure_visit [of new m v v' "length q"] adjacent_targets [of m x] by auto
  then show "((m, md, q', v', t'), (m, md, (x, d) # q, v, t))
      \<in> measure (\<lambda>(m, _, q, v, _). search_measure m (length q) v)"
    by (simp add: search_measure_def)
qed (simp_all add: search_measure_def)

definition trace_from :: "adjacency \<Rightarrow> event_id \<Rightarrow> usize \<Rightarrow> causal_trace" where
  "trace_from m root max_depth =
     trace_loop m max_depth [(root, 0)] [root]
       \<lparr>ct_events = [root], ct_depths = bt_insert root 0 [], ct_edges = []\<rparr>"

definition trace_causes :: "causal_graph \<Rightarrow> event_id \<Rightarrow> usize \<Rightarrow> causal_trace" where
  "trace_causes g root max_depth = trace_from (cg_causes g) root max_depth"

definition trace_effects :: "causal_graph \<Rightarrow> event_id \<Rightarrow> usize \<Rightarrow> causal_trace" where
  "trace_effects g root max_depth = trace_from (cg_effects g) root max_depth"

subsection \<open>The search invariant\<close>

definition depth_at :: "causal_trace \<Rightarrow> event_id \<Rightarrow> usize option" where
  "depth_at t = bt_get (ct_depths t)"

definition trace_inv :: "adjacency \<Rightarrow> event_id \<Rightarrow> usize \<Rightarrow> trace_queue \<Rightarrow> event_id list \<Rightarrow> causal_trace \<Rightarrow> bool" where
  "trace_inv m root md q v t \<longleftrightarrow>
     dom (depth_at t) = set v \<and> set (ct_events t) = set v \<and> distinct (ct_events t)
   \<and> (\<forall>(x, d) \<in> set q. depth_at t x = Some d) \<and> distinct (map fst q) \<and> sorted (map snd q)
   \<and> (\<forall>x d. depth_at t x = Some d \<longrightarrow> (root, x) \<in> edges_of m ^^ d \<and> d \<le> md)
   \<and> (\<forall>x d y. depth_at t x = Some d \<and> x \<notin> fst ` set q \<and> d < md \<and> (x, y) \<in> edges_of m
        \<longrightarrow> (\<exists>d' \<le> d + 1. depth_at t y = Some d'))
   \<and> (q \<noteq> [] \<longrightarrow> (\<forall>x d. depth_at t x = Some d \<longrightarrow> d \<le> snd (hd q) + 1))
   \<and> depth_at t root = Some 0
   \<and> set (ct_edges t) = {(x, y). (x, y) \<in> edges_of m \<and> x \<notin> fst ` set q \<and> (\<exists>d. depth_at t x = Some d \<and> d < md)}"

lemma trace_invD:
  assumes "trace_inv m root md q v t"
  shows "dom (depth_at t) = set v" "set (ct_events t) = set v" "distinct (ct_events t)"
    "\<And>x d. (x, d) \<in> set q \<Longrightarrow> depth_at t x = Some d" "distinct (map fst q)" "sorted (map snd q)"
    "\<And>x d. depth_at t x = Some d \<Longrightarrow> (root, x) \<in> edges_of m ^^ d \<and> d \<le> md"
    "\<And>x d y. depth_at t x = Some d \<Longrightarrow> x \<notin> fst ` set q \<Longrightarrow> d < md \<Longrightarrow> (x, y) \<in> edges_of m
        \<Longrightarrow> \<exists>d' \<le> d + 1. depth_at t y = Some d'"
    "\<And>x d. q \<noteq> [] \<Longrightarrow> depth_at t x = Some d \<Longrightarrow> d \<le> snd (hd q) + 1"
    "depth_at t root = Some 0"
    "set (ct_edges t) = {(x, y). (x, y) \<in> edges_of m \<and> x \<notin> fst ` set q \<and> (\<exists>d. depth_at t x = Some d \<and> d < md)}"
  using assms unfolding trace_inv_def by - (elim conjE, simp; fail | elim conjE, blast)+

lemma trace_inv_pop:
  assumes inv: "trace_inv m root md ((x, d) # q) v t" and d: "d \<ge> md"
  shows "trace_inv m root md q v t"
proof -
  note D = trace_invD [OF inv]
  have x: "depth_at t x = Some d" "x \<notin> fst ` set q" using D(4) [of x d] D(5) by auto
  have hd: "d \<le> snd (hd q)" if "q \<noteq> []" using D(6) that by (cases q) auto
  show ?thesis
    unfolding trace_inv_def
  proof (intro conjI)
    show "\<forall>y e z. depth_at t y = Some e \<and> y \<notin> fst ` set q \<and> e < md \<and> (y, z) \<in> edges_of m
        \<longrightarrow> (\<exists>d' \<le> e + 1. depth_at t z = Some d')"
      using D(8) x d by fastforce
    show "q \<noteq> [] \<longrightarrow> (\<forall>y e. depth_at t y = Some e \<longrightarrow> e \<le> snd (hd q) + 1)"
      using D(9) hd by fastforce
    show "set (ct_edges t) = {(y, z). (y, z) \<in> edges_of m \<and> y \<notin> fst ` set q \<and> (\<exists>e. depth_at t y = Some e \<and> e < md)}"
      using D(11) x d by auto
  qed (use D in auto)
qed

lemma trace_inv_visit:
  assumes inv: "trace_inv m root md ((x, d) # q) v t" and d: "d < md"
    and step: "visit_edges x d (adjacent m x) q v t = (q', v', t')"
  shows "trace_inv m root md q' v' t'"
proof -
  note D = trace_invD [OF inv]
  obtain new where q': "q' = q @ map (\<lambda>c. (c, d + 1)) new" and v': "set v' = set v \<union> set new"
    and new: "distinct new" "set new = set (adjacent m x) - set v"
    and ev: "ct_events t' = ct_events t @ new" and ed: "ct_edges t' = ct_edges t @ map (Pair x) (adjacent m x)"
    and dep0: "bt_get (ct_depths t') = (\<lambda>y. if y \<in> set new then Some (d + 1) else bt_get (ct_depths t) y)"
    by (rule visit_edges_new [OF step])
  have dep: "depth_at t' = (\<lambda>y. if y \<in> set new then Some (d + 1) else depth_at t y)"
    using dep0 unfolding depth_at_def .
  have x: "depth_at t x = Some d" "x \<notin> fst ` set q" "x \<in> set v"
    using D(4) [of x d] D(5) D(1) by auto
  have le: "\<And>y e. depth_at t y = Some e \<Longrightarrow> e \<le> d + 1" using D(9) by fastforce
  have qv: "fst ` set q \<subseteq> set v" using D(1,4) by fastforce
  have hdq: "q' \<noteq> [] \<Longrightarrow> d \<le> snd (hd q')" using D(6) q' by (cases q; cases new) auto
  have old: "y \<notin> set new" if "depth_at t y = Some e" for y e using that D(1) new(2) by auto
  have domv: "y \<in> set v" if "depth_at t y = Some e" for y e using that D(1) by auto
  have qd: "depth_at t y = Some e \<and> y \<notin> set new" if "(y, e) \<in> set q" for y e
    using D(4) [of y e] old [of y e] that by simp
  have fq': "fst ` set q' = fst ` set q \<union> set new" using q' by force
  show ?thesis
    unfolding trace_inv_def
  proof (intro conjI)
    show "dom (depth_at t') = set v'" unfolding v' D(1) [symmetric] dep by (auto split: if_splits)
    show "set (ct_events t') = set v'" "distinct (ct_events t')" using ev D(2,3) v' new by auto
    show "\<forall>(y, e) \<in> set q'. depth_at t' y = Some e" using q' dep qd by auto
    show "distinct (map fst q')" using q' D(5) new qv by (auto simp: comp_def)
    have "e \<le> d + 1" if "(y, e) \<in> set q" for y e using le [of y e] qd [OF that] by simp
    then show "sorted (map snd q')" using q' D(6) by (auto simp: sorted_append comp_def map_replicate_const)
    show "\<forall>y e. depth_at t' y = Some e \<longrightarrow> (root, y) \<in> edges_of m ^^ e \<and> e \<le> md"
    proof (intro allI impI)
      fix y e assume y: "depth_at t' y = Some e"
      show "(root, y) \<in> edges_of m ^^ e \<and> e \<le> md"
      proof (cases "y \<in> set new")
        case True
        then have "(x, y) \<in> edges_of m" using new by (simp add: edges_of_def)
        then show ?thesis using True y dep d D(7) [OF x(1)] by auto
      qed (use y dep D(7) in simp)
    qed
    show "\<forall>y e z. depth_at t' y = Some e \<and> y \<notin> fst ` set q' \<and> e < md \<and> (y, z) \<in> edges_of m
        \<longrightarrow> (\<exists>d' \<le> e + 1. depth_at t' z = Some d')"
    proof (intro allI impI, elim conjE)
      fix y e z assume y: "depth_at t' y = Some e" "y \<notin> fst ` set q'" "e < md" "(y, z) \<in> edges_of m"
      have y': "depth_at t y = Some e" "y \<notin> set new" "y \<notin> fst ` set q" using y fq' dep by auto
      show "\<exists>d' \<le> e + 1. depth_at t' z = Some d'"
      proof (cases "y = x")
        case True
        then have "e = d" using x y' by simp
        show ?thesis
        proof (cases "z \<in> set new")
          case False
          then have "z \<in> set v" using y(4) True new by (auto simp: edges_of_def)
          then obtain f where "depth_at t z = Some f" using D(1) by auto
          then show ?thesis using le False dep \<open>e = d\<close> by auto
        qed (use dep \<open>e = d\<close> in simp)
      next
        case False
        then obtain f where "f \<le> e + 1" "depth_at t z = Some f"
          using D(8) [OF y'(1) _ y(3,4)] y'(3) by auto
        then show ?thesis using dep old by auto
      qed
    qed
    show "q' \<noteq> [] \<longrightarrow> (\<forall>y e. depth_at t' y = Some e \<longrightarrow> e \<le> snd (hd q') + 1)"
      using hdq le dep by (auto split: if_splits) fastforce+
    show "depth_at t' root = Some 0" using dep D(10) old by auto
    show "set (ct_edges t') = {(y, z). (y, z) \<in> edges_of m \<and> y \<notin> fst ` set q' \<and> (\<exists>e. depth_at t' y = Some e \<and> e < md)}"
      using ed D(11) x d fq' dep new(2) by (auto simp: edges_of_def split: if_splits dest: domv)
  qed
qed

lemma trace_loop_inv:
  "trace_inv m root md q v t \<Longrightarrow> \<exists>v'. trace_inv m root md [] v' (trace_loop m md q v t)"
proof (induction m md q v t rule: trace_loop.induct)
  case (2 m md x d q v t)
  show ?case
  proof (cases "d \<ge> md")
    case True
    then show ?thesis using 2 trace_inv_pop [OF "2.prems" True] by simp
  next
    case False
    obtain q' v' t' where s: "visit_edges x d (adjacent m x) q v t = (q', v', t')" by (metis prod_cases3)
    then show ?thesis using False "2.IH"(2) [OF False s [symmetric] refl refl] trace_inv_visit [OF "2.prems" _ s] by simp
  qed
qed auto

lemma trace_from_inv: "\<exists>v. trace_inv m root md [] v (trace_from m root md)"
  unfolding trace_from_def
  by (rule trace_loop_inv) (auto simp: trace_inv_def depth_at_def bt_get_def split: if_splits)

text \<open>At the end every reported depth is a shortest distance and every node within the bound is
  reported.\<close>

lemma trace_reaches:
  assumes inv: "trace_inv m root md [] v t" and path: "(root, x) \<in> edges_of m ^^ k" and "k \<le> md"
  shows "\<exists>d \<le> k. depth_at t x = Some d"
  using path \<open>k \<le> md\<close>
proof (induction k arbitrary: x)
  case 0
  then show ?case using trace_invD(10) [OF inv] by simp
next
  case (Suc k)
  then obtain y where y: "(root, y) \<in> edges_of m ^^ k" "(y, x) \<in> edges_of m" by auto
  then obtain d where "d \<le> k" "depth_at t y = Some d" using Suc.IH Suc.prems by fastforce
  then obtain d' where "d' \<le> d + 1" "depth_at t x = Some d'"
    using trace_invD(8) [OF inv, of y d x] y(2) Suc.prems by auto
  then show ?case using \<open>d \<le> k\<close> by (intro exI [of _ d']) simp
qed

lemma trace_depth_iff:
  assumes inv: "trace_inv m root md [] v t"
  shows "depth_at t x = Some d \<longleftrightarrow> d \<le> md \<and> (root, x) \<in> edges_of m ^^ d \<and> (\<forall>k < d. (root, x) \<notin> edges_of m ^^ k)"
    (is "_ \<longleftrightarrow> ?short")
proof
  assume x: "depth_at t x = Some d"
  have "(root, x) \<notin> edges_of m ^^ k" if "k < d" for k
    using trace_reaches [OF inv, of x k] that x trace_invD(7) [OF inv x] by fastforce
  then show ?short using trace_invD(7) [OF inv x] by blast
next
  assume s: ?short
  then obtain e where "e \<le> d" "depth_at t x = Some e" using trace_reaches [OF inv, of x d] by auto
  moreover from this s have "\<not> e < d" using trace_invD(7) [OF inv] by blast
  ultimately show "depth_at t x = Some d" by simp
qed

text \<open>C10: A trace of depth \<open>d\<close>, upstream or downstream, terminates and reports a node with depth \<open>k\<close>
  exactly when \<open>k\<close> is its shortest distance from the root and \<open>k \<le> d\<close>; it lists every reported node
  once, and its edges are exactly the graph's edges out of nodes closer than the bound.\<close>

theorem trace_shortest_paths:
  "(bt_get (ct_depths (trace_causes g root md)) x = Some d \<longleftrightarrow>
      d \<le> md \<and> (root, x) \<in> edges_of (cg_causes g) ^^ d \<and> (\<forall>k < d. (root, x) \<notin> edges_of (cg_causes g) ^^ k))
   \<and> (bt_get (ct_depths (trace_effects g root md)) x = Some d \<longleftrightarrow>
      d \<le> md \<and> (root, x) \<in> edges_of (cg_effects g) ^^ d \<and> (\<forall>k < d. (root, x) \<notin> edges_of (cg_effects g) ^^ k))
   \<and> distinct (ct_events (trace_causes g root md)) \<and> distinct (ct_events (trace_effects g root md))
   \<and> set (ct_events (trace_causes g root md)) = dom (bt_get (ct_depths (trace_causes g root md)))
   \<and> set (ct_events (trace_effects g root md)) = dom (bt_get (ct_depths (trace_effects g root md)))
   \<and> set (ct_edges (trace_causes g root md)) = {(y, z). (y, z) \<in> edges_of (cg_causes g)
        \<and> (\<exists>k < md. bt_get (ct_depths (trace_causes g root md)) y = Some k)}
   \<and> set (ct_edges (trace_effects g root md)) = {(y, z). (y, z) \<in> edges_of (cg_effects g)
        \<and> (\<exists>k < md. bt_get (ct_depths (trace_effects g root md)) y = Some k)}"
proof -
  obtain v w where inv: "trace_inv (cg_causes g) root md [] v (trace_causes g root md)"
      "trace_inv (cg_effects g) root md [] w (trace_effects g root md)"
    using trace_from_inv unfolding trace_causes_def trace_effects_def by blast
  note ends = trace_depth_iff [OF inv(1)] trace_depth_iff [OF inv(2)]
    trace_invD(1-3,11) [OF inv(1)] trace_invD(1-3,11) [OF inv(2)]
  show ?thesis
    using ends unfolding depth_at_def by (intro conjI) (simp_all, auto)
qed

theorem trace_shortest_paths_witness:
  "bt_get (ct_depths (trace_causes \<lparr>cg_causes = [(\<lparr>eid_source = 1, eid_epoch = 0, eid_sequence = 1\<rparr>,
       [\<lparr>eid_source = 1, eid_epoch = 0, eid_sequence = 0\<rparr>])], cg_effects = []\<rparr>
     \<lparr>eid_source = 1, eid_epoch = 0, eid_sequence = 1\<rparr> 5)) \<lparr>eid_source = 1, eid_epoch = 0, eid_sequence = 0\<rparr> = Some 1"
  unfolding conjunct1 [OF trace_shortest_paths] by (simp add: edges_of_def adjacent_def bt_get_def)

end
