(* ===== verification/Causal_Topo.thy ===== *)
theory Causal_Topo
  imports Causal_Graph
begin

section \<open>Registration histories and topological sorting\<close>

text \<open>
  \<open>topological_sort\<close> is Kahn's algorithm on the \<open>causes\<close> map, relaxing along the \<open>effects\<close> map. Its
  loop is a partial function: \<open>None\<close> means that it does not return. It returns a correct order on
  every graph in which each event was registered at most once (\<open>graph_exact\<close>); on a graph with a
  re-registered event the two maps disagree, and the loop can run for ever.
\<close>

subsection \<open>Histories of registrations\<close>

fun register_all :: "causal_graph \<Rightarrow> (event_id \<times> event_id list) list \<Rightarrow> causal_graph" where
  "register_all g [] = g"
| "register_all g ((e, cs) # xs) = (case add_event g e cs of Ok g' \<Rightarrow> register_all g' xs | _ \<Rightarrow> register_all g xs)"

lemma adjacent_entry [simp]: "adjacent (entry_or_default e m) x = adjacent m x"
  by (auto simp: entry_or_default_def adjacent_def split: option.splits)

lemma set_add_effect:
  "set (adjacent (add_effect e c m) x) = (if x = c then insert e (set (adjacent m x)) else set (adjacent m x))"
  by (auto simp: add_effect_def Let_def)

lemma set_fold_add_effect:
  "set (adjacent (fold (add_effect e) cs m) x) = (if x \<in> set cs then insert e (set (adjacent m x)) else set (adjacent m x))"
  by (induction cs arbitrary: m) (auto simp: set_add_effect)

lemma distinct_fold_add_effect:
  "distinct (adjacent m x) \<Longrightarrow> distinct (adjacent (fold (add_effect e) cs m) x)"
proof (induction cs arbitrary: m)
  case (Cons c cs)
  have "distinct (adjacent (add_effect e c m) x)" using Cons.prems by (auto simp: add_effect_def Let_def)
  then show ?case using Cons.IH by simp
qed simp

lemma add_event_edges:
  assumes "add_event g e cs = Ok g'"
  shows "edges_of (cg_causes g') = (edges_of (cg_causes g) - {e} \<times> UNIV) \<union> {e} \<times> set cs"
    and "edges_of (cg_effects g') = edges_of (cg_effects g) \<union> set cs \<times> {e}"
  using assms by (auto simp: add_event_Ok edges_of_insert) (auto simp: edges_of_def set_fold_add_effect split: if_splits)

definition graph_inv :: "causal_graph \<Rightarrow> bool" where
  "graph_inv g \<longleftrightarrow> bt_wf (cg_causes g) \<and> acyclic (edges_of (cg_causes g))
     \<and> (edges_of (cg_causes g))\<inverse> \<subseteq> edges_of (cg_effects g)
     \<and> (\<forall>e. distinct (adjacent (cg_causes g) e)) \<and> (\<forall>e. distinct (adjacent (cg_effects g) e))"

lemma graph_inv_new: "graph_inv graph_new"
  by (simp add: graph_inv_def graph_new_def edges_of_def adjacent_def acyclic_def)

lemma graph_inv_add:
  assumes "graph_inv g" "add_event g e cs = Ok g'"
  shows "graph_inv g'"
proof -
  have "bt_wf (cg_causes g')" "\<forall>x. distinct (adjacent (cg_causes g') x)" "\<forall>x. distinct (adjacent (cg_effects g') x)"
    using assms by (auto simp: graph_inv_def add_event_Ok distinct_fold_add_effect)
  moreover have "acyclic (edges_of (cg_causes g'))"
    using assms add_event_acyclic by (simp add: graph_inv_def)
  moreover have "(edges_of (cg_causes g'))\<inverse> \<subseteq> edges_of (cg_effects g')"
    using assms(1) by (auto simp: graph_inv_def add_event_edges [OF assms(2)])
  ultimately show ?thesis by (simp add: graph_inv_def)
qed

lemma graph_inv_register: "graph_inv g \<Longrightarrow> graph_inv (register_all g xs)"
  by (induction g xs rule: register_all.induct) (auto simp: graph_inv_add split: result.splits)

text \<open>With fresh subjects the effects are exactly the converse of the causes.\<close>

definition graph_exact :: "causal_graph \<Rightarrow> bool" where
  "graph_exact g \<longleftrightarrow> graph_inv g \<and> edges_of (cg_effects g) = (edges_of (cg_causes g))\<inverse>"

lemma register_all_exact:
  assumes "graph_exact g" "distinct (map fst xs)" "\<forall>e \<in> set (map fst xs). bt_get (cg_causes g) e = None"
  shows "graph_exact (register_all g xs)"
  using assms
proof (induction g xs rule: register_all.induct)
  case (2 g e cs xs)
  show ?case
  proof (cases "add_event g e cs")
    case (Ok g')
    have "adjacent (cg_causes g) e = []" using "2.prems"(3) by (simp add: adjacent_def)
    then have "edges_of (cg_causes g) - {e} \<times> UNIV = edges_of (cg_causes g)" by (auto simp: edges_of_def)
    then have "graph_exact g'"
      using "2.prems"(1) Ok by (auto simp: graph_exact_def graph_inv_add add_event_edges [OF Ok])
    moreover have "\<forall>e' \<in> set (map fst xs). bt_get (cg_causes g') e' = None"
      using "2.prems"(2,3) Ok by (auto simp: add_event_Ok)
    ultimately show ?thesis using "2.IH"(1) [OF Ok] "2.prems"(2) Ok by simp
  qed (use 2 in auto)
qed simp

subsection \<open>The sort\<close>

definition or_insert_zero :: "event_id \<Rightarrow> (event_id, usize) btree \<Rightarrow> (event_id, usize) btree" where
  "or_insert_zero e d = (case bt_get d e of Some _ \<Rightarrow> d | None \<Rightarrow> bt_insert e 0 d)"

definition count_causes :: "event_id \<times> event_id list \<Rightarrow> (event_id, usize) btree \<Rightarrow> (event_id, usize) btree" where
  "count_causes ec d =
     (let (e, causes) = ec;
          d = or_insert_zero e d;
          d = fold or_insert_zero causes d
      in bt_insert e ((case bt_get d e of Some n \<Rightarrow> n | None \<Rightarrow> 0) + length causes) d)"

definition in_degrees :: "adjacency \<Rightarrow> (event_id, usize) btree" where
  "in_degrees causes = fold count_causes causes []"

fun relax :: "event_id list \<Rightarrow> event_id list \<Rightarrow> (event_id, usize) btree \<Rightarrow> event_id list \<times> (event_id, usize) btree" where
  "relax [] queue d = (queue, d)"
| "relax (v # vs) queue d = (case bt_get d v of
       Some deg \<Rightarrow> relax vs (if deg - 1 = 0 then queue @ [v] else queue) (bt_insert v (deg - 1) d)
     | None \<Rightarrow> relax vs queue d)"

partial_function (option) topo_loop :: "adjacency \<Rightarrow> event_id list \<Rightarrow> (event_id, usize) btree \<Rightarrow> event_id list
    \<Rightarrow> event_id list option" where
  "topo_loop effects queue d order = (case queue of
       [] \<Rightarrow> Some order
     | u # queue' \<Rightarrow> (case relax (adjacent effects u) queue' d of
         (queue'', d') \<Rightarrow> topo_loop effects queue'' d' (order @ [u])))"

text \<open>The outer \<open>None\<close> is a loop that never ends.\<close>

definition topological_sort :: "causal_graph \<Rightarrow> (event_id list, causal_error) result option" where
  "topological_sort g =
     (let d = in_degrees (cg_causes g);
          zero_in_degree = map fst (filter (\<lambda>(_, deg). deg = 0) d)
      in case topo_loop (cg_effects g) zero_in_degree d [] of
           None \<Rightarrow> None
         | Some order \<Rightarrow> Some (if length order \<noteq> length d
                          then Err (CgFormat ''cycle detected during topological sorting'') else Ok order))"

subsection \<open>Degrees\<close>

definition nodes :: "adjacency \<Rightarrow> event_id set" where
  "nodes m = fst ` set m \<union> targets m"

lemma bt_get_or_insert_zero:
  "bt_get (or_insert_zero e d) x = (if x = e \<and> bt_get d x = None then Some 0 else bt_get d x)"
  by (auto simp: or_insert_zero_def split: option.splits)

lemma bt_get_fold_or_insert_zero:
  "bt_get (fold or_insert_zero cs d) x = (if x \<in> set cs \<and> bt_get d x = None then Some 0 else bt_get d x)"
  by (induction cs arbitrary: d) (auto simp: bt_get_or_insert_zero)

lemma bt_wf_or_insert_zero [simp]: "bt_wf d \<Longrightarrow> bt_wf (or_insert_zero e d)"
  by (auto simp: or_insert_zero_def split: option.splits)

lemma bt_wf_fold_or_insert_zero [simp]: "bt_wf d \<Longrightarrow> bt_wf (fold or_insert_zero cs d)"
  by (induction cs arbitrary: d) auto

lemma bt_get_count_causes:
  "bt_get (count_causes (e, cs) d) x =
     (if x = e then Some ((case bt_get d e of Some n \<Rightarrow> n | None \<Rightarrow> 0) + length cs)
      else if x \<in> set cs \<and> bt_get d x = None then Some 0 else bt_get d x)"
  by (auto simp: count_causes_def Let_def bt_get_or_insert_zero bt_get_fold_or_insert_zero split: option.splits)

lemma bt_wf_fold_count [simp]: "bt_wf d \<Longrightarrow> bt_wf (fold count_causes es d)"
  by (induction es arbitrary: d) (auto simp: count_causes_def Let_def)

lemma fold_count_causes:
  assumes "distinct (map fst es)"
  shows "bt_get (fold count_causes es d) x =
     (if x \<in> nodes es \<or> bt_get d x \<noteq> None
      then Some ((case bt_get d x of Some n \<Rightarrow> n | None \<Rightarrow> 0) + length (adjacent es x)) else None)"
  using assms
proof (induction es arbitrary: d)
  case Nil
  then show ?case by (auto simp: nodes_def targets_def adjacent_def split: option.splits)
next
  case (Cons ec es)
  obtain e cs where ec: "ec = (e, cs)" by (cases ec)
  have fresh: "adjacent es e = []"
    using Cons.prems by (simp add: ec adjacent_def bt_get_def map_of_eq_None_iff [THEN iffD2])
  have nodes: "nodes ((e, cs) # es) = insert e (set cs \<union> nodes es)" by (auto simp: nodes_def targets_def)
  have adj: "adjacent ((e, cs) # es) x = (if x = e then cs else adjacent es x)"
    by (simp add: adjacent_def bt_get_def)
  have IH: "bt_get (fold count_causes es (count_causes (e, cs) d)) x =
     (if x \<in> nodes es \<or> bt_get (count_causes (e, cs) d) x \<noteq> None
      then Some ((case bt_get (count_causes (e, cs) d) x of Some n \<Rightarrow> n | None \<Rightarrow> 0) + length (adjacent es x)) else None)"
    using Cons by simp
  show ?case
    using IH adj fresh nodes by (cases "x = e") (auto simp: ec bt_get_count_causes split: option.splits)
qed

lemma in_degrees_get:
  "bt_wf m \<Longrightarrow> bt_get (in_degrees m) x = (if x \<in> nodes m then Some (length (adjacent m x)) else None)"
  by (simp add: in_degrees_def fold_count_causes bt_wf_distinct)

lemma in_degrees_wf [simp]: "bt_wf (in_degrees m)"
  by (simp add: in_degrees_def)

lemma in_degrees_length: "bt_wf m \<Longrightarrow> length (in_degrees m) = card (nodes m)"
proof -
  assume wf: "bt_wf m"
  have "card (set (bt_keys (in_degrees m))) = length (in_degrees m)"
    using bt_wf_distinct [OF in_degrees_wf] by (simp add: bt_keys_def distinct_card [of "map fst _", simplified])
  moreover have "set (bt_keys (in_degrees m)) = nodes m"
    by (auto simp: bt_keys_dom in_degrees_get [OF wf] split: if_splits)
  ultimately show ?thesis by simp
qed

lemma in_degrees_zero:
  assumes "bt_wf m"
  shows "distinct (map fst (filter (\<lambda>(_, deg). deg = 0) (in_degrees m)))"
    and "set (map fst (filter (\<lambda>(_, deg). deg = 0) (in_degrees m))) = {x \<in> nodes m. adjacent m x = []}"
proof -
  show "distinct (map fst (filter (\<lambda>(_, deg). deg = 0) (in_degrees m)))"
    using bt_wf_distinct [OF in_degrees_wf] by (rule distinct_map_filter)
  have "(x, 0) \<in> set (in_degrees m) \<longleftrightarrow> x \<in> nodes m \<and> adjacent m x = []" for x
    using bt_get_iff [OF in_degrees_wf, of m x 0] by (auto simp: in_degrees_get [OF assms] split: if_splits)
  then show "set (map fst (filter (\<lambda>(_, deg). deg = 0) (in_degrees m))) = {x \<in> nodes m. adjacent m x = []}"
    by force
qed

subsection \<open>The loop\<close>

lemma relax_spec:
  assumes "distinct vs" "\<forall>v \<in> set vs. \<exists>n. bt_get d v = Some (Suc n)"
  shows "\<exists>d'. relax vs q d = (q @ filter (\<lambda>v. bt_get d v = Some 1) vs, d')
     \<and> bt_get d' = (\<lambda>x. if x \<in> set vs then map_option (\<lambda>n. n - 1) (bt_get d x) else bt_get d x)"
  using assms
proof (induction vs arbitrary: q d)
  case (Cons v vs)
  obtain n where n: "bt_get d v = Some (Suc n)" using Cons.prems(2) by auto
  let ?d = "bt_insert v n d" and ?q = "if n = 0 then q @ [v] else q"
  have "\<forall>w \<in> set vs. \<exists>k. bt_get ?d w = Some (Suc k)" using Cons.prems by auto
  then obtain d' where d': "relax vs ?q ?d = (?q @ filter (\<lambda>w. bt_get ?d w = Some 1) vs, d')"
      "bt_get d' = (\<lambda>x. if x \<in> set vs then map_option (\<lambda>n. n - 1) (bt_get ?d x) else bt_get ?d x)"
    using Cons.IH [of ?d ?q] Cons.prems(1) by auto
  have "filter (\<lambda>w. bt_get ?d w = Some 1) vs = filter (\<lambda>w. bt_get d w = Some 1) vs"
    using Cons.prems(1) by (intro filter_cong) auto
  then show ?case
    using d' n Cons.prems(1) by (intro exI [of _ d']) (auto simp: fun_eq_iff)
qed simp

text \<open>Degrees count the causes that are not yet in the order; queue and order hold exactly the nodes of
  degree zero; the order lists causes first.\<close>

definition topo_inv :: "causal_graph \<Rightarrow> event_id list \<Rightarrow> (event_id, usize) btree \<Rightarrow> event_id list \<Rightarrow> bool" where
  "topo_inv g q d order \<longleftrightarrow>
     distinct (order @ q)
   \<and> (\<forall>x. bt_get d x = (if x \<in> nodes (cg_causes g)
            then Some (card (set (adjacent (cg_causes g) x) - set order)) else None))
   \<and> set (order @ q) = {x \<in> nodes (cg_causes g). set (adjacent (cg_causes g) x) \<subseteq> set order}
   \<and> (\<forall>i < length order. set (adjacent (cg_causes g) (order ! i)) \<subseteq> set (take i order))"

lemma nodes_finite [simp]: "finite (nodes m)"
  by (simp add: nodes_def)

lemma edge_nodes: "(x, y) \<in> edges_of m \<Longrightarrow> x \<in> nodes m \<and> y \<in> nodes m"
proof (cases "bt_get m x")
  case (Some cs)
  assume "(x, y) \<in> edges_of m"
  then have "y \<in> set cs" using Some by (simp add: edges_of_def adjacent_def)
  moreover have "(x, cs) \<in> set m" using Some by (simp add: bt_get_def map_of_SomeD)
  ultimately show ?thesis by (force simp: nodes_def targets_def)
qed (simp add: edges_of_def adjacent_def)

lemma topo_inv_step:
  assumes g: "graph_exact g" and inv: "topo_inv g (u # q) d order"
  obtains q' d' where "relax (adjacent (cg_effects g) u) q d = (q', d')" "topo_inv g q' d' (order @ [u])"
proof -
  let ?c = "\<lambda>x. set (adjacent (cg_causes g) x)"
  let ?E = "adjacent (cg_effects g) u"
  have eff: "v \<in> set ?E \<longleftrightarrow> u \<in> ?c v" for v
    using g by (auto simp: graph_exact_def edges_of_def)
  have dist: "distinct ?E" using g by (simp add: graph_exact_def graph_inv_def)
  have deg: "bt_get d x = (if x \<in> nodes (cg_causes g) then Some (card (?c x - set order)) else None)" for x
    using inv by (auto simp: topo_inv_def)
  have zero: "set (order @ u # q) = {x \<in> nodes (cg_causes g). ?c x \<subseteq> set order}"
    and dis: "distinct (order @ u # q)"
    and top: "\<forall>i < length order. ?c (order ! i) \<subseteq> set (take i order)"
    using inv by (auto simp: topo_inv_def)
  have u: "u \<notin> set order" "?c u \<subseteq> set order" using dis zero by auto
  have node: "v \<in> nodes (cg_causes g)" if "u \<in> ?c v" for v
    using that edge_nodes [of v u "cg_causes g"] by (simp add: edges_of_def)
  have card_u: "card (?c v - set order) = Suc (card (?c v - set (order @ [u])))" if "u \<in> ?c v" for v
  proof -
    have "?c v - set (order @ [u]) = (?c v - set order) - {u}" by auto
    then show ?thesis using that u card_Suc_Diff1 [of "?c v - set order" u] by simp
  qed
  obtain d' where d': "relax ?E q d = (q @ filter (\<lambda>v. bt_get d v = Some 1) ?E, d')"
      "bt_get d' = (\<lambda>x. if x \<in> set ?E then map_option (\<lambda>n. n - 1) (bt_get d x) else bt_get d x)"
    using relax_spec [OF dist, of d q] deg card_u node eff by auto
  let ?new = "filter (\<lambda>v. bt_get d v = Some 1) ?E"
  have new: "v \<in> set ?new \<longleftrightarrow> u \<in> ?c v \<and> ?c v - set (order @ [u]) = {}" for v
    using deg [of v] node [of v] card_u [of v] eff [of v] by auto
  have deg': "bt_get d' x = (if x \<in> nodes (cg_causes g) then Some (card (?c x - set (order @ [u]))) else None)" for x
  proof (cases "u \<in> ?c x")
    case True
    then show ?thesis using d'(2) deg [of x] node [of x] card_u [of x] eff [of x] by simp
  next
    case False
    then have "?c x - set (order @ [u]) = ?c x - set order" by auto
    then show ?thesis using d'(2) deg [of x] eff [of x] False by simp
  qed
  have fresh: "set ?new \<inter> set (order @ u # q) = {}" using new zero u(1) by auto
  have "topo_inv g (q @ ?new) d' (order @ [u])"
    unfolding topo_inv_def
  proof (intro conjI allI impI)
    show "distinct ((order @ [u]) @ q @ ?new)" using dis fresh dist by auto
    show "bt_get d' x = (if x \<in> nodes (cg_causes g) then Some (card (?c x - set (order @ [u]))) else None)" for x
      by (rule deg')
    show "set ((order @ [u]) @ q @ ?new) = {x \<in> nodes (cg_causes g). ?c x \<subseteq> set (order @ [u])}"
    proof (rule set_eqI)
      fix x
      show "x \<in> set ((order @ [u]) @ q @ ?new) \<longleftrightarrow> x \<in> {x \<in> nodes (cg_causes g). ?c x \<subseteq> set (order @ [u])}"
        using zero new [of x] node [of x] by (cases "u \<in> ?c x") auto
    qed
    fix i assume "i < length (order @ [u])"
    then show "?c ((order @ [u]) ! i) \<subseteq> set (take i (order @ [u]))"
      using top u(2) by (cases "i < length order") (auto simp: nth_append not_less)
  qed
  with d'(1) show thesis by (rule that)
qed

lemma topo_loop_ok:
  assumes g: "graph_exact g" and inv: "topo_inv g q d order"
  shows "\<exists>order' d'. topo_loop (cg_effects g) q d order = Some order' \<and> topo_inv g [] d' order'"
  using inv
proof (induction "card (nodes (cg_causes g)) - length order" arbitrary: q d order rule: less_induct)
  case less
  show ?case
  proof (cases q)
    case Nil
    then show ?thesis using less.prems by (auto simp: topo_loop.simps)
  next
    case (Cons u q0)
    obtain q' d' where s: "relax (adjacent (cg_effects g) u) q0 d = (q', d')" "topo_inv g q' d' (order @ [u])"
      using topo_inv_step [OF g less.prems [unfolded Cons]] by blast
    have "distinct (order @ [u])" "set (order @ [u]) \<subseteq> nodes (cg_causes g)"
      using less.prems unfolding Cons topo_inv_def by auto
    then have "length (order @ [u]) \<le> card (nodes (cg_causes g))"
      by (metis card_mono distinct_card nodes_finite)
    then have "card (nodes (cg_causes g)) - length (order @ [u]) < card (nodes (cg_causes g)) - length order" by simp
    from less.hyps [OF this s(2)] show ?thesis
      using s(1) by (subst topo_loop.simps) (simp add: Cons)
  qed
qed

text \<open>A finite acyclic graph has no node left when the queue is empty.\<close>

lemma topo_inv_end:
  assumes g: "graph_exact g" and inv: "topo_inv g [] d order"
  shows "set order = nodes (cg_causes g)"
proof (rule ccontr)
  let ?R = "edges_of (cg_causes g)"
  assume "set order \<noteq> nodes (cg_causes g)"
  moreover have sub: "set order = {x \<in> nodes (cg_causes g). set (adjacent (cg_causes g) x) \<subseteq> set order}"
    using inv by (simp add: topo_inv_def)
  ultimately obtain x where x: "x \<in> nodes (cg_causes g) - set order" by auto
  have "finite ?R" by (rule finite_subset [of _ "nodes (cg_causes g) \<times> nodes (cg_causes g)"]) (auto dest: edge_nodes)
  then have "wf (?R\<inverse>)" using g by (simp add: graph_exact_def graph_inv_def finite_acyclic_wf_converse)
  then obtain z where z: "z \<in> nodes (cg_causes g) - set order" "\<And>y. (y, z) \<in> ?R\<inverse> \<Longrightarrow> y \<notin> nodes (cg_causes g) - set order"
    using x by (rule wfE_min) blast
  then have "set (adjacent (cg_causes g) z) \<subseteq> set order"
    using edge_nodes [of z _ "cg_causes g"] by (auto simp: edges_of_def)
  then show False using z sub by auto
qed

lemma topological_sort_exact:
  assumes g: "graph_exact g"
  shows "\<exists>order. topological_sort g = Some (Ok order) \<and> distinct order \<and> set order = nodes (cg_causes g)
     \<and> (\<forall>i < length order. set (adjacent (cg_causes g) (order ! i)) \<subseteq> set (take i order))"
proof -
  let ?d = "in_degrees (cg_causes g)"
  let ?q = "map fst (filter (\<lambda>(_, deg). deg = 0) ?d)"
  have wf: "bt_wf (cg_causes g)" and dist: "\<And>x. distinct (adjacent (cg_causes g) x)"
    using g by (simp_all add: graph_exact_def graph_inv_def)
  have "topo_inv g ?q ?d []"
    using in_degrees_zero [OF wf] dist by (auto simp: topo_inv_def in_degrees_get [OF wf] distinct_card)
  then obtain order d' where ord: "topo_loop (cg_effects g) ?q ?d [] = Some order" "topo_inv g [] d' order"
    using topo_loop_ok [OF g] by blast
  have set: "set order = nodes (cg_causes g)" by (rule topo_inv_end [OF g ord(2)])
  moreover have "distinct order" using ord(2) by (simp add: topo_inv_def)
  ultimately have "length order = length ?d"
    using in_degrees_length [OF wf] distinct_card by metis
  then show ?thesis
    using ord set by (simp add: topological_sort_def topo_inv_def)
qed

subsection \<open>Properties\<close>

lemma is_ok_add_event: "is_ok (add_event g e cs) \<longleftrightarrow> (\<forall>c \<in> set cs. (c, e) \<notin> (edges_of (cg_causes g))\<^sup>*)"
  using add_event_Ok [of g e cs] by (cases "add_event g e cs") auto

lemma add_event_refused:
  "\<not> is_ok (add_event g e cs) \<Longrightarrow> \<exists>c \<in> set cs. add_event g e cs = Err (CgCycleDetected e c)"
  using check_cycle_cases [of g e "sort_dedup cs"] by (auto simp: add_event_def Let_def)

text \<open>C11: After any history of registrations (including re-registrations and refused ones) the causes
  form an acyclic graph and every cause lists its effect; a further registration is accepted exactly
  when none of the declared causes reaches the event, and is otherwise refused naming a cause.\<close>

theorem causal_graph_stays_acyclic:
  "acyclic (edges_of (cg_causes (register_all graph_new xs)))
   \<and> (edges_of (cg_causes (register_all graph_new xs)))\<inverse> \<subseteq> edges_of (cg_effects (register_all graph_new xs))
   \<and> (is_ok (add_event (register_all graph_new xs) e cs)
        \<longleftrightarrow> (\<forall>c \<in> set cs. (c, e) \<notin> (edges_of (cg_causes (register_all graph_new xs)))\<^sup>*))
   \<and> (is_ok (add_event (register_all graph_new xs) e cs)
        \<or> (\<exists>c \<in> set cs. add_event (register_all graph_new xs) e cs = Err (CgCycleDetected e c)))"
  using graph_inv_register [OF graph_inv_new, of xs] is_ok_add_event [of "register_all graph_new xs" e cs]
    add_event_refused [of "register_all graph_new xs" e cs]
  by (auto simp: graph_inv_def)

definition ev :: "u64 \<Rightarrow> event_id" where
  "ev n = \<lparr>eid_source = 1, eid_epoch = 0, eid_sequence = n\<rparr>"

lemma ev_eq [simp]: "ev m = ev n \<longleftrightarrow> m = n" "ev m < ev n \<longleftrightarrow> m < n" "ev m \<le> ev n \<longleftrightarrow> m \<le> n"
  by (auto simp: ev_def less_event_id_ext_def less_eq_event_id_ext_def)

lemma refuses_two_cycle: "\<not> is_ok (add_event (register_all graph_new [(ev 1, [ev 0])]) (ev 0) [ev 1])"
  by (simp add: add_event_def graph_new_def sort_dedup_def is_ancestor_of_def adjacent_def bt_get_def
      add_effect_def entry_or_default_def)

theorem causal_graph_stays_acyclic_witness:
  "add_event (register_all graph_new [(ev 1, [ev 0])]) (ev 0) [ev 1] = Err (CgCycleDetected (ev 0) (ev 1))"
  using causal_graph_stays_acyclic [of "[(ev 1, [ev 0])]" "ev 0" "[ev 1]"] refuses_two_cycle
  by (simp del: register_all.simps)

text \<open>C12: If no event is registered twice, topological sorting terminates and returns every event of
  the graph exactly once, each after all of its causes.\<close>

theorem topological_sort_correct:
  assumes "distinct (map fst xs)"
  shows "\<exists>order. topological_sort (register_all graph_new xs) = Some (Ok order) \<and> distinct order
     \<and> set order = nodes (cg_causes (register_all graph_new xs))
     \<and> (\<forall>i < length order. set (immediate_causes (register_all graph_new xs) (order ! i)) \<subseteq> set (take i order))"
proof -
  have "graph_exact graph_new"
    by (simp add: graph_exact_def graph_inv_new) (simp add: graph_new_def edges_of_def adjacent_def)
  then have "graph_exact (register_all graph_new xs)"
    using assms by (intro register_all_exact) (simp_all add: graph_new_def)
  from topological_sort_exact [OF this] show ?thesis by (simp add: immediate_causes_def)
qed

theorem topological_sort_correct_witness:
  "\<exists>order. topological_sort (register_all graph_new [(ev 1, [ev 0]), (ev 2, [ev 1, ev 0])]) = Some (Ok order) \<and> distinct order"
  using topological_sort_correct [of "[(ev 1, [ev 0]), (ev 2, [ev 1, ev 0])]"] by auto

definition stale_graph :: causal_graph where
  "stale_graph = \<lparr>cg_causes = [(ev 0, [ev 1]), (ev 1, [])], cg_effects = [(ev 0, [ev 1]), (ev 1, [ev 0])]\<rparr>"

lemma stale_graph_registered: "register_all graph_new [(ev 1, [ev 0]), (ev 1, []), (ev 0, [ev 1])] = stale_graph"
  by (simp add: add_event_def graph_new_def sort_dedup_def is_ancestor_of_def adjacent_def bt_get_def
      add_effect_def entry_or_default_def stale_graph_def Let_def)

definition stale_state :: "adjacency \<Rightarrow> event_id list \<Rightarrow> (event_id, usize) btree \<Rightarrow> bool" where
  "stale_state eff q d \<longleftrightarrow> eff = cg_effects stale_graph
     \<and> (q = [ev 0] \<and> d = [(ev 0, 0), (ev 1, 0)]
        \<or> q = [ev 1] \<and> (d = [(ev 0, 0), (ev 1, 0)] \<or> d = [(ev 0, 1), (ev 1, 0)]))"

lemma stale_loop: "topo_loop eff q d order = Some r \<Longrightarrow> \<not> stale_state eff q d"
proof (rule topo_loop.raw_induct [where P = "\<lambda>eff q d order r. \<not> stale_state eff q d"])
  fix loop eff q d order r
  assume IH: "\<And>eff q d order r. loop eff q d order = Some r \<Longrightarrow> \<not> stale_state eff q d"
    and step: "(case q of [] \<Rightarrow> Some order | u # queue' \<Rightarrow>
        (case relax (adjacent eff u) queue' d of (queue'', d') \<Rightarrow> loop eff queue'' d' (order @ [u]))) = Some r"
  show "\<not> stale_state eff q d"
    using step by (auto simp: stale_state_def stale_graph_def adjacent_def bt_get_def dest!: IH)
qed

text \<open>Registering an event again leaves its old effects behind, and topological sorting can then
  loop for ever: after registering 1 with cause 0, then 1 without causes, then 0 with cause 1, all
  three accepted, the sort does not return.\<close>

theorem topological_sort_diverges:
  "topological_sort (register_all graph_new [(ev 1, [ev 0]), (ev 1, []), (ev 0, [ev 1])]) = None"
proof -
  have d: "in_degrees (cg_causes stale_graph) = [(ev 0, 1), (ev 1, 0)]"
    by (simp add: in_degrees_def stale_graph_def count_causes_def or_insert_zero_def bt_get_def)
  have "topo_loop (cg_effects stale_graph) [ev 1] [(ev 0, 1), (ev 1, 0)] [] = None"
    using stale_loop [unfolded stale_state_def, of "cg_effects stale_graph" "[ev 1]" "[(ev 0, 1), (ev 1, 0)]" "[]"]
    by (cases "topo_loop (cg_effects stale_graph) [ev 1] [(ev 0, 1), (ev 1, 0)] []") auto
  then show ?thesis unfolding stale_graph_registered topological_sort_def d by simp
qed

end
