(* ===== verification/Causal_Csr.thy ===== *)
theory Causal_Csr
  imports Causal_Topo Bit_Stream
begin

section \<open>The packed causal graph (\<open>CsrCausalGraph\<close>)\<close>

text \<open>
  The compressed-sparse-row form of a causal graph and its byte format. In the loop of \<open>to_csr\<close> the
  cause and effect rows are built side by side and independently; \<open>csr_rows\<close> is that loop for one
  direction. In \<open>decode\<close> the variable \<open>offset\<close> only moves forward, so the definitions carry the rest
  of the body from it on.
\<close>

record csr_graph =
  csr_events :: "event_id list"
  csr_cause_offsets :: "usize list"
  csr_cause_indices :: "u32 list"
  csr_effect_offsets :: "usize list"
  csr_effect_indices :: "u32 list"

definition CAUSAL_MAGIC :: bytes where
  "CAUSAL_MAGIC = [0x54, 0x4E, 0x43, 0x47]"

definition CAUSAL_VERSION :: u16 where
  "CAUSAL_VERSION = 1"

fun csr_rows :: "adjacency \<Rightarrow> (event_id, usize) btree \<Rightarrow> event_id list \<Rightarrow> usize list \<Rightarrow> u32 list \<Rightarrow> usize list \<times> u32 list" where
  "csr_rows m event_to_idx [] offsets indices = (offsets @ [length indices], indices)"
| "csr_rows m event_to_idx (e # es) offsets indices =
     csr_rows m event_to_idx es (offsets @ [length indices])
       (indices @ map of_nat (List.map_filter (bt_get event_to_idx) (adjacent m e)))"

definition to_csr :: "causal_graph \<Rightarrow> csr_graph" where
  "to_csr g =
     (let events = bt_keys (cg_causes g);
          events = foldl (\<lambda>evs k. if k \<in> set evs then evs else evs @ [k]) events (bt_keys (cg_effects g));
          events = sort_dedup events;
          event_to_idx = zip events [0..<length events];
          (cause_offsets, cause_indices) = csr_rows (cg_causes g) event_to_idx events [] [];
          (effect_offsets, effect_indices) = csr_rows (cg_effects g) event_to_idx events [] []
      in \<lparr>csr_events = events, csr_cause_offsets = cause_offsets, csr_cause_indices = cause_indices,
          csr_effect_offsets = effect_offsets, csr_effect_indices = effect_indices\<rparr>)"

text \<open>Rows: both indexings and the slice can panic; an index past the last event gives the empty row.\<close>

definition csr_row :: "event_id list \<Rightarrow> usize list \<Rightarrow> u32 list \<Rightarrow> usize \<Rightarrow> (u32 list, 'e) result" where
  "csr_row events offsets indices i =
     (if i \<ge> length events then Ok []
      else rbind (index offsets i) (\<lambda>start. rbind (index offsets (i + 1)) (\<lambda>stop.
        if start \<le> stop \<and> stop \<le> length indices then Ok (slice indices start stop) else Panic)))"

definition csr_immediate_causes :: "csr_graph \<Rightarrow> usize \<Rightarrow> (u32 list, causal_error) result" where
  "csr_immediate_causes c i = csr_row (csr_events c) (csr_cause_offsets c) (csr_cause_indices c) i"

definition csr_immediate_effects :: "csr_graph \<Rightarrow> usize \<Rightarrow> (u32 list, causal_error) result" where
  "csr_immediate_effects c i = csr_row (csr_events c) (csr_effect_offsets c) (csr_effect_indices c) i"

definition encode_event_id :: "event_id \<Rightarrow> bytes" where
  "encode_event_id e = to_le 4 (eid_source e) @ to_le 8 (eid_epoch e) @ to_le 8 (eid_sequence e)"

definition encode_section :: "usize list \<Rightarrow> u32 list \<Rightarrow> bytes" where
  "encode_section offsets indices =
     to_le 4 (of_nat (length indices) :: u32) @ bytes_of 4 (map of_nat offsets :: u32 list) @ bytes_of 4 indices"

definition csr_encode :: "(bytes \<Rightarrow> u32) \<Rightarrow> csr_graph \<Rightarrow> bytes" where
  "csr_encode crc c =
     (let buf = CAUSAL_MAGIC @ to_le 2 CAUSAL_VERSION @ to_le 4 (of_nat (length (csr_events c)) :: u32);
          body = concat (map encode_event_id (csr_events c))
                 @ encode_section (csr_cause_offsets c) (csr_cause_indices c)
                 @ encode_section (csr_effect_offsets c) (csr_effect_indices c)
      in buf @ to_le 4 (crc body) @ body)"

fun decode_events :: "nat \<Rightarrow> bytes \<Rightarrow> (event_id list \<times> bytes, causal_error) result" where
  "decode_events 0 rest = Ok ([], rest)"
| "decode_events (Suc n) rest =
     (if length rest < 20 then Err (CgFormat ''truncated event records'')
      else let e = \<lparr>eid_source = from_le (slice rest 0 4), eid_epoch = from_le (slice rest 4 12),
                   eid_sequence = from_le (slice rest 12 20)\<rparr>
           in rbind (decode_events n (drop 20 rest)) (\<lambda>(es, r). Ok (e # es, r)))"

definition decode_section :: "string \<Rightarrow> string \<Rightarrow> nat \<Rightarrow> bytes \<Rightarrow> (usize list \<times> u32 list \<times> bytes, causal_error) result" where
  "decode_section short_len short_rows event_count rest =
     (if length rest < 4 then Err (CgFormat short_len)
      else let indices_len = unat (from_le (slice rest 0 4) :: u32); rest = drop 4 rest in
      if length rest < (event_count + 1) * 4 + indices_len * 4 then Err (CgFormat short_rows)
      else let offsets = map unat (words_of 4 (event_count + 1) rest :: u32 list);
               rest = drop ((event_count + 1) * 4) rest;
               indices = words_of 4 indices_len rest
           in Ok (offsets, indices, drop (indices_len * 4) rest))"

definition csr_decode :: "(bytes \<Rightarrow> u32) \<Rightarrow> bytes \<Rightarrow> (csr_graph, causal_error) result" where
  "csr_decode crc bs =
     (if length bs < 14 then Err (CgFormat ''truncated causal graph header'')
      else if slice bs 0 4 \<noteq> CAUSAL_MAGIC then Err CgInvalidMagic
      else let version = from_le (slice bs 4 6) in
      if version \<noteq> CAUSAL_VERSION then Err (CgUnsupportedVersion version)
      else let event_count = unat (from_le (slice bs 6 10) :: u32);
               expected_checksum = from_le (slice bs 10 14);
               body = drop 14 bs in
      if crc body \<noteq> expected_checksum then Err CgChecksumMismatch
      else rbind (decode_events event_count body) (\<lambda>(events, rest).
           rbind (decode_section ''truncated cause indices length'' ''truncated cause offsets/indices'' event_count rest)
             (\<lambda>(cause_offsets, cause_indices, rest).
           rbind (decode_section ''truncated effect indices length'' ''truncated effect offsets/indices'' event_count rest)
             (\<lambda>(effect_offsets, effect_indices, rest).
           Ok \<lparr>csr_events = events, csr_cause_offsets = cause_offsets, csr_cause_indices = cause_indices,
              csr_effect_offsets = effect_offsets, csr_effect_indices = effect_indices\<rparr>))))"

subsection \<open>Round trip of the byte format\<close>

definition csr_encodable :: "csr_graph \<Rightarrow> bool" where
  "csr_encodable c \<longleftrightarrow> length (csr_events c) < 2 ^ 32
     \<and> length (csr_cause_offsets c) = length (csr_events c) + 1 \<and> length (csr_effect_offsets c) = length (csr_events c) + 1
     \<and> length (csr_cause_indices c) < 2 ^ 32 \<and> length (csr_effect_indices c) < 2 ^ 32
     \<and> (\<forall>n \<in> set (csr_cause_offsets c) \<union> set (csr_effect_offsets c). n < 2 ^ 32)"

lemma length_encode_event_id [simp, enc_len]: "length (encode_event_id e) = 20"
  by (simp add: encode_event_id_def)

lemma decode_events_encode: "decode_events (length es) (concat (map encode_event_id es) @ r) = Ok (es, r)"
proof (induction es)
  case (Cons e es)
  have "slice (encode_event_id e @ xs) 0 4 = to_le 4 (eid_source e)"
    "slice (encode_event_id e @ xs) 4 12 = to_le 8 (eid_epoch e)"
    "slice (encode_event_id e @ xs) 12 20 = to_le 8 (eid_sequence e)" for xs
    by (simp_all add: encode_event_id_def slice_def)
  then show ?case using Cons by simp
qed simp

lemma decode_section_encode:
  assumes "length offs = n + 1" "length inds < 2 ^ 32" "\<forall>k \<in> set offs. k < 2 ^ 32"
  shows "decode_section m1 m2 n (encode_section offs inds @ r) = Ok (offs, inds, r)"
proof -
  let ?ow = "map of_nat offs :: u32 list"
  have l: "slice (encode_section offs inds @ r) 0 4 = to_le 4 (of_nat (length inds) :: u32)"
    "drop 4 (encode_section offs inds @ r) = bytes_of 4 ?ow @ bytes_of 4 inds @ r"
    by (simp_all add: encode_section_def slice_def)
  have u: "unat (of_nat (length inds) :: u32) = length inds" using assms(2) by simp
  have ow: "words_of 4 (n + 1) (bytes_of 4 ?ow @ bytes_of 4 inds @ r) = ?ow"
    using words_of_bytes_of [of 4 ?ow "bytes_of 4 inds @ r"] assms(1) by simp
  have "map unat ?ow = offs" using assms(3) by (simp add: map_idI)
  moreover have "drop ((n + 1) * 4) (bytes_of 4 ?ow @ bytes_of 4 inds @ r) = bytes_of 4 inds @ r"
    using assms(1) by simp
  moreover have "words_of 4 (length inds) (bytes_of 4 inds @ r) = inds"
    using words_of_bytes_of [of 4 inds r] by simp
  ultimately show ?thesis
    using assms(1) l u ow by (simp add: decode_section_def Let_def) (simp add: encode_section_def)
qed

lemma csr_decode_encode:
  assumes "csr_encodable c"
  shows "csr_decode crc (csr_encode crc c) = Ok c"
proof -
  let ?n = "of_nat (length (csr_events c)) :: u32"
  define body where "body = concat (map encode_event_id (csr_events c))
      @ encode_section (csr_cause_offsets c) (csr_cause_indices c)
      @ encode_section (csr_effect_offsets c) (csr_effect_indices c)"
  have bs: "csr_encode crc c = CAUSAL_MAGIC @ to_le 2 CAUSAL_VERSION @ to_le 4 ?n @ to_le 4 (crc body) @ body"
    by (simp add: csr_encode_def Let_def body_def)
  have sl: "length (csr_encode crc c) = 14 + length body" "slice (csr_encode crc c) 0 4 = CAUSAL_MAGIC"
    "slice (csr_encode crc c) 4 6 = to_le 2 CAUSAL_VERSION" "slice (csr_encode crc c) 6 10 = to_le 4 ?n"
    "slice (csr_encode crc c) 10 14 = to_le 4 (crc body)" "drop 14 (csr_encode crc c) = body"
    unfolding bs by (simp_all add: slice_def CAUSAL_MAGIC_def)
  have ev: "decode_events (length (csr_events c)) body = Ok (csr_events c,
      encode_section (csr_cause_offsets c) (csr_cause_indices c)
      @ encode_section (csr_effect_offsets c) (csr_effect_indices c))"
    unfolding body_def by (rule decode_events_encode)
  have c1: "decode_section m1 m2 (length (csr_events c)) (encode_section (csr_cause_offsets c) (csr_cause_indices c) @ r)
      = Ok (csr_cause_offsets c, csr_cause_indices c, r)" for m1 m2 r
    using assms by (intro decode_section_encode) (auto simp: csr_encodable_def)
  have c2: "decode_section m1 m2 (length (csr_events c)) (encode_section (csr_effect_offsets c) (csr_effect_indices c) @ [])
      = Ok (csr_effect_offsets c, csr_effect_indices c, [])" for m1 m2
    using assms by (intro decode_section_encode) (auto simp: csr_encodable_def)
  have "unat ?n = length (csr_events c)" using assms by (simp add: csr_encodable_def)
  then show ?thesis using sl ev c1 c2 by (simp add: csr_decode_def)
qed

subsection \<open>Rows of the packed graph\<close>

definition csr_row_of :: "adjacency \<Rightarrow> (event_id, usize) btree \<Rightarrow> event_id \<Rightarrow> u32 list" where
  "csr_row_of m idx e = map of_nat (List.map_filter (bt_get idx) (adjacent m e))"

lemma csr_rows_spec:
  "csr_rows m idx es offs inds =
     (offs @ map (\<lambda>i. length inds + length (concat (map (csr_row_of m idx) (take i es)))) [0..<length es + 1],
      inds @ concat (map (csr_row_of m idx) es))"
proof (induction es arbitrary: offs inds)
  case (Cons e es)
  have "[0..<length (e # es) + 1] = 0 # map Suc [0..<length es + 1]" by (simp add: upt_conv_Cons map_Suc_upt del: upt_Suc)
  then show ?case
    using Cons.IH [of "offs @ [length inds]" "inds @ csr_row_of m idx e"]
    by (simp add: csr_row_of_def comp_def add.assoc del: upt_Suc)
qed simp

lemma slice_concat:
  "i < length xss \<Longrightarrow> slice (concat xss) (length (concat (take i xss))) (length (concat (take (Suc i) xss))) = xss ! i"
proof -
  assume i: "i < length xss"
  then have "concat xss = concat (take i xss) @ xss ! i @ concat (drop (Suc i) xss)"
    by (metis concat.simps(2) concat_append id_take_nth_drop)
  moreover have "length (concat (take (Suc i) xss)) = length (concat (take i xss)) + length (xss ! i)"
    using i by (simp add: take_Suc_conv_app_nth)
  ultimately show ?thesis by (simp add: slice_def)
qed

lemma csr_row_rows:
  assumes "i < length es" "csr_rows m idx es [] [] = (offs, inds)"
  shows "csr_row es offs inds i = Ok (csr_row_of m idx (es ! i))"
proof -
  let ?xss = "map (csr_row_of m idx) es"
  have offs: "offs = map (\<lambda>i. length (concat (take i ?xss))) [0..<length es + 1]" and inds: "inds = concat ?xss"
    using assms(2) by (auto simp: csr_rows_spec take_map simp del: upt_Suc)
  have at: "k < length offs" "offs ! k = length (concat (take k ?xss))" if "k \<le> length es" for k
    using that by (simp_all add: offs nth_append del: upt_Suc)
  have split: "concat ?xss = concat (take k ?xss) @ concat (drop k ?xss)" for k
    by (metis append_take_drop_id concat_append)
  have "length (concat (take i ?xss)) \<le> length (concat (take (Suc i) ?xss))"
    using assms(1) by (simp add: take_Suc_conv_app_nth)
  moreover have "length (concat (take (Suc i) ?xss)) \<le> length (concat ?xss)"
    using arg_cong [OF split [of "Suc i"], of length] by simp
  ultimately show ?thesis
    using assms(1) at [of i] at [of "Suc i"] slice_concat [of i ?xss] by (simp add: csr_row_def index_def inds)
qed

lemma bt_get_zip_index: "distinct es \<Longrightarrow> bt_get (zip es [0..<length es]) x = Some i \<longleftrightarrow> i < length es \<and> es ! i = x"
  by (auto simp: bt_get_def map_of_zip_nth in_set_conv_nth dest!: map_of_SomeD)

text \<open>Reading a row back through the event table gives the adjacency list.\<close>

lemma csr_row_of_events:
  assumes "distinct es" "length es < 2 ^ 32" "set (adjacent m e) \<subseteq> set es"
  shows "map (\<lambda>j. es ! unat j) (csr_row_of m (zip es [0..<length es]) e) = adjacent m e"
proof -
  have "map (\<lambda>j. es ! unat (of_nat j :: u32)) (List.map_filter (bt_get (zip es [0..<length es])) xs) = xs"
    if "set xs \<subseteq> set es" for xs
    using that
  proof (induction xs)
    case (Cons x xs)
    then obtain i where i: "i < length es" "es ! i = x" by (auto simp: in_set_conv_nth)
    then have "bt_get (zip es [0..<length es]) x = Some i" using bt_get_zip_index [OF assms(1)] by simp
    then show ?case using Cons i assms(2) by (simp add: map_filter_simps)
  qed (simp add: map_filter_simps)
  from this [OF assms(3)] show ?thesis by (simp add: csr_row_of_def comp_def)
qed

subsection \<open>Packing a registered graph\<close>

lemma effects_registered:
  "(\<And>c. set (adjacent (cg_effects g) c) \<subseteq> dom (bt_get (cg_causes g))) \<Longrightarrow>
     set (adjacent (cg_effects (register_all g xs)) c) \<subseteq> dom (bt_get (cg_causes (register_all g xs)))"
proof (induction g xs rule: register_all.induct)
  case (2 g e cs xs)
  show ?case
  proof (cases "add_event g e cs")
    case (Ok g')
    then have "set (adjacent (cg_effects g') c) \<subseteq> dom (bt_get (cg_causes g'))" for c
      using "2.prems" [of c] by (auto simp: add_event_Ok set_fold_add_effect)
    then show ?thesis using "2.IH"(1) [OF Ok] Ok by simp
  qed (use 2 in auto)
qed simp

definition all_events :: "causal_graph \<Rightarrow> event_id set" where
  "all_events g = dom (bt_get (cg_causes g)) \<union> dom (bt_get (cg_effects g))"

lemma foldl_push_new:
  "set (foldl (\<lambda>evs k. if k \<in> set evs then evs else evs @ [k]) es ks) = set es \<union> set ks"
  by (induction ks arbitrary: es) auto

lemma csr_events_to_csr: "distinct (csr_events (to_csr g)) \<and> set (csr_events (to_csr g)) = all_events g"
  by (auto simp: to_csr_def Let_def split_beta foldl_push_new bt_keys_dom all_events_def)

lemma adjacent_keys: "adjacent m e \<noteq> [] \<Longrightarrow> e \<in> dom (bt_get m)"
  by (auto simp: adjacent_def split: option.splits)

lemma registered_closed:
  fixes xs
  defines "g \<equiv> register_all graph_new xs"
  shows "set (adjacent (cg_causes g) e) \<subseteq> all_events g" and "set (adjacent (cg_effects g) e) \<subseteq> all_events g"
proof -
  have "graph_inv g" unfolding g_def by (rule graph_inv_register [OF graph_inv_new])
  then have bk: "e \<in> set (adjacent (cg_effects g) c)" if "c \<in> set (adjacent (cg_causes g) e)" for c
    using that by (auto simp: graph_inv_def edges_of_def)
  have "c \<in> dom (bt_get (cg_effects g))" if "c \<in> set (adjacent (cg_causes g) e)" for c
    by (rule adjacent_keys) (use bk [OF that] in auto)
  then show "set (adjacent (cg_causes g) e) \<subseteq> all_events g"
    by (auto simp: all_events_def)
  show "set (adjacent (cg_effects g) e) \<subseteq> all_events g"
    using effects_registered [of graph_new xs e] by (auto simp: g_def all_events_def graph_new_def adjacent_def)
qed

lemma csr_rows_to_csr:
  fixes g
  defines "es \<equiv> csr_events (to_csr g)"
  shows "csr_rows (cg_causes g) (zip es [0..<length es]) es [] [] = (csr_cause_offsets (to_csr g), csr_cause_indices (to_csr g))"
    and "csr_rows (cg_effects g) (zip es [0..<length es]) es [] [] = (csr_effect_offsets (to_csr g), csr_effect_indices (to_csr g))"
  by (simp_all add: es_def to_csr_def Let_def split_beta)

lemma to_csr_rows:
  assumes "i < length (csr_events (to_csr g))"
  shows "csr_immediate_causes (to_csr g) i = Ok (csr_row_of (cg_causes g)
           (zip (csr_events (to_csr g)) [0..<length (csr_events (to_csr g))]) (csr_events (to_csr g) ! i))"
    and "csr_immediate_effects (to_csr g) i = Ok (csr_row_of (cg_effects g)
           (zip (csr_events (to_csr g)) [0..<length (csr_events (to_csr g))]) (csr_events (to_csr g) ! i))"
  unfolding csr_immediate_causes_def csr_immediate_effects_def
  using csr_row_rows [OF assms csr_rows_to_csr(1)] csr_row_rows [OF assms csr_rows_to_csr(2)] by simp_all

lemma csr_rows_offsets:
  assumes "csr_rows m idx es [] [] = (offs, inds)"
  shows "length offs = length es + 1 \<and> (\<forall>k \<in> set offs. k \<le> length inds)"
proof -
  have "length (concat (map (csr_row_of m idx) (take i es))) \<le> length (concat (map (csr_row_of m idx) es))" for i
    by (metis append_take_drop_id concat_append le_add1 length_append map_append)
  then show ?thesis using assms by (auto simp: csr_rows_spec)
qed

lemma to_csr_encodable:
  assumes "length (csr_events (to_csr g)) < 2 ^ 32"
    "length (csr_cause_indices (to_csr g)) < 2 ^ 32" "length (csr_effect_indices (to_csr g)) < 2 ^ 32"
  shows "csr_encodable (to_csr g)"
  unfolding csr_encodable_def
  using assms csr_rows_offsets [OF csr_rows_to_csr(1) [of g]] csr_rows_offsets [OF csr_rows_to_csr(2) [of g]] by auto

subsection \<open>Properties\<close>

text \<open>Packing loses nothing: for every history of registrations with fewer than \<open>2 ^ 32\<close> events
  and edges, the packed graph lists every event once, the row of each event reads back, through the
  event table, as its list of direct causes and of direct effects, and decoding the encoded bytes
  returns the packed graph.\<close>

theorem csr_packing_faithful:
  assumes "g = register_all graph_new xs" "c = to_csr g" "length (csr_events c) < 2 ^ 32"
    "length (csr_cause_indices c) < 2 ^ 32" "length (csr_effect_indices c) < 2 ^ 32"
  shows "distinct (csr_events c) \<and> set (csr_events c) = all_events g
     \<and> (\<forall>i < length (csr_events c). \<exists>rc re. csr_immediate_causes c i = Ok rc \<and> csr_immediate_effects c i = Ok re
          \<and> map (\<lambda>j. csr_events c ! unat j) rc = immediate_causes g (csr_events c ! i)
          \<and> map (\<lambda>j. csr_events c ! unat j) re = immediate_effects g (csr_events c ! i))
     \<and> csr_decode crc (csr_encode crc c) = Ok c"
proof (intro conjI allI impI)
  show "distinct (csr_events c)" "set (csr_events c) = all_events g"
    using csr_events_to_csr [of g] assms(2) by simp_all
  show "csr_decode crc (csr_encode crc c) = Ok c"
    using to_csr_encodable assms csr_decode_encode by blast
  fix i assume i: "i < length (csr_events c)"
  have "map (\<lambda>j. csr_events c ! unat j) (csr_row_of m (zip (csr_events c) [0..<length (csr_events c)]) e) = adjacent m e"
    if "set (adjacent m e) \<subseteq> all_events g" for m e
    using csr_row_of_events [of "csr_events c"] csr_events_to_csr [of g] assms that by auto
  then show "\<exists>rc re. csr_immediate_causes c i = Ok rc \<and> csr_immediate_effects c i = Ok re
          \<and> map (\<lambda>j. csr_events c ! unat j) rc = immediate_causes g (csr_events c ! i)
          \<and> map (\<lambda>j. csr_events c ! unat j) re = immediate_effects g (csr_events c ! i)"
    using to_csr_rows [of i g] i assms(1,2) registered_closed [of xs]
    by (simp add: immediate_causes_def immediate_effects_def)
qed

theorem csr_packing_faithful_witness:
  "csr_decode (\<lambda>_. 7) (csr_encode (\<lambda>_. 7) (to_csr (register_all graph_new [(ev 1, [ev 0])])))
     = Ok (to_csr (register_all graph_new [(ev 1, [ev 0])]))"
proof -
  have "register_all graph_new [(ev 1, [ev 0])] = \<lparr>cg_causes = [(ev 1, [ev 0])], cg_effects = [(ev 0, [ev 1]), (ev 1, [])]\<rparr>"
    by (simp add: add_event_def graph_new_def sort_dedup_def is_ancestor_of_def adjacent_def bt_get_def
      add_effect_def entry_or_default_def Let_def)
  moreover have "length (csr_events (to_csr \<lparr>cg_causes = [(ev 1, [ev 0])], cg_effects = [(ev 0, [ev 1]), (ev 1, [])]\<rparr>)) = 2"
    "length (csr_cause_indices (to_csr \<lparr>cg_causes = [(ev 1, [ev 0])], cg_effects = [(ev 0, [ev 1]), (ev 1, [])]\<rparr>)) = 1"
    "length (csr_effect_indices (to_csr \<lparr>cg_causes = [(ev 1, [ev 0])], cg_effects = [(ev 0, [ev 1]), (ev 1, [])]\<rparr>)) = 1"
    by (simp_all add: to_csr_def Let_def bt_keys_def sort_dedup_def adjacent_def bt_get_def map_filter_simps)
  ultimately show ?thesis
    using csr_packing_faithful [OF refl refl, of "[(ev 1, [ev 0])]" "\<lambda>_. 7"] by (simp del: register_all.simps)
qed

text \<open>Decoding checks the checksum and the lengths but not the offsets: a frame with offsets beyond
  its index array is accepted, and reading the first row then panics.\<close>

theorem csr_decode_accepts_bad_offsets:
  "\<exists>bs c. csr_decode crc bs = Ok c \<and> csr_immediate_causes c 0 = Panic"
proof -
  let ?c = "\<lparr>csr_events = [ev 0], csr_cause_offsets = [0, 5], csr_cause_indices = [],
            csr_effect_offsets = [0, 0], csr_effect_indices = []\<rparr>"
  have "csr_decode crc (csr_encode crc ?c) = Ok ?c" by (rule csr_decode_encode) (simp add: csr_encodable_def)
  moreover have "csr_immediate_causes ?c 0 = Panic" by (simp add: csr_immediate_causes_def csr_row_def index_def)
  ultimately show ?thesis by blast
qed

end
