(* ===== verification/Wal_Format.thy ===== *)
theory Wal_Format
  imports Core_Types
begin

section \<open>The write-ahead-log and segment formats (\<open>temnion-format\<close>)\<close>

text \<open>
  Encoders and decoders of the log header, of record batches and of sealed segments, with the limits
  that bound every allocation. \<open>crc\<close> is \<open>crc32fast::hash\<close>, \<open>alloc\<close> the allocator. An encoder that
  fills a zeroed buffer at fixed offsets is written as the concatenation of its fields in offset
  order. The body readers represent the cursor by the bytes from it on (\<open>read_fixed\<close> of the prelude);
  a cursor cannot overflow, since no slice is longer than \<open>isize::MAX\<close>, and \<open>usize::try_from\<close> of a
  \<open>u32\<close> cannot fail.

  The main results say that each decoder accepts exactly the bytes its encoder produces.
\<close>

record stored_event =
  se_id :: event_id
  se_entity :: entity_id
  se_times :: event_times
  se_schema :: schema_id
  se_payload :: bytes
  se_causes :: "event_id list"

record wal_header =
  wh_database :: database_id
  wh_source :: source_id
  wh_epoch :: source_epoch

record limits =
  max_frame_bytes :: usize
  max_records :: usize
  max_payload_bytes :: usize
  max_causes :: usize
  max_segment_bytes :: usize

definition limits_default :: limits where
  "limits_default = \<lparr>max_frame_bytes = 4 * 1024 * 1024, max_records = 65536, max_payload_bytes = 1024 * 1024,
     max_causes = 64, max_segment_bytes = 64 * 1024 * 1024\<rparr>"

record segment =
  sg_header :: wal_header
  sg_records :: "stored_event list"

datatype format_error =
    FxIncomplete usize usize
  | FxInvalidMagic
  | FxUnsupportedVersion u16
  | FxChecksumMismatch
  | FxLimitExceeded string
  | FxInvalidData string
  | FxAllocationFailed

definition WAL_MAGIC :: bytes where "WAL_MAGIC = [0x54, 0x4E, 0x57, 0x4C]"
definition BATCH_MAGIC :: bytes where "BATCH_MAGIC = [0x54, 0x4E, 0x57, 0x42]"
definition SEGMENT_MAGIC :: bytes where "SEGMENT_MAGIC = [0x54, 0x4E, 0x53, 0x46]"
definition SEGMENT_FOOTER_MAGIC :: bytes where "SEGMENT_FOOTER_MAGIC = [0x54, 0x4E, 0x46, 0x54]"

definition FORMAT_VERSION :: u16 where "FORMAT_VERSION = 1"
definition NO_FLAGS :: u16 where "NO_FLAGS = 0"
definition OBSERVED_FLAG :: u16 where "OBSERVED_FLAG = 1"

definition EVENT_ID_LEN :: usize where "EVENT_ID_LEN = 4 + 8 + 8"
definition TIMESTAMP_LEN :: usize where "TIMESTAMP_LEN = 4 + 8"
definition RECORD_FIXED_LEN :: usize where
  "RECORD_FIXED_LEN = EVENT_ID_LEN + 12 + TIMESTAMP_LEN + TIMESTAMP_LEN + 4 + 2 + 2 + 4"
definition WAL_HEADER_LEN :: usize where "WAL_HEADER_LEN = 40"
definition BATCH_HEADER_LEN :: usize where "BATCH_HEADER_LEN = 24"
definition SEGMENT_HEADER_LEN :: usize where "SEGMENT_HEADER_LEN = 52"
definition SEGMENT_FOOTER_LEN :: usize where "SEGMENT_FOOTER_LEN = 16"

lemmas wal_consts = WAL_MAGIC_def BATCH_MAGIC_def SEGMENT_MAGIC_def SEGMENT_FOOTER_MAGIC_def
  WAL_HEADER_LEN_def BATCH_HEADER_LEN_def SEGMENT_HEADER_LEN_def SEGMENT_FOOTER_LEN_def

definition get_u16 :: "bytes \<Rightarrow> usize \<Rightarrow> u16" where
  "get_u16 bs offset = from_le (slice bs offset (offset + 2))"

definition get_u32 :: "bytes \<Rightarrow> usize \<Rightarrow> u32" where
  "get_u32 bs offset = from_le (slice bs offset (offset + 4))"

definition get_u64 :: "bytes \<Rightarrow> usize \<Rightarrow> u64" where
  "get_u64 bs offset = from_le (slice bs offset (offset + 8))"

subsection \<open>The log header\<close>

definition encode_wal_header :: "(bytes \<Rightarrow> u32) \<Rightarrow> wal_header \<Rightarrow> bytes" where
  "encode_wal_header crc h =
     (let b = WAL_MAGIC @ to_le 2 FORMAT_VERSION @ to_le 2 NO_FLAGS @ wh_database h
              @ to_le 4 (wh_source h) @ to_le 8 (wh_epoch h)
      in b @ to_le 4 (crc b))"

definition decode_wal_header :: "(bytes \<Rightarrow> u32) \<Rightarrow> bytes \<Rightarrow> (wal_header, format_error) result" where
  "decode_wal_header crc bs =
     (if length bs < WAL_HEADER_LEN then Err (FxIncomplete WAL_HEADER_LEN (length bs))
      else if length bs > WAL_HEADER_LEN then Err (FxInvalidData ''trailing WAL header bytes'')
      else if slice bs 0 4 \<noteq> WAL_MAGIC then Err FxInvalidMagic
      else if get_u16 bs 4 \<noteq> FORMAT_VERSION then Err (FxUnsupportedVersion (get_u16 bs 4))
      else if get_u16 bs 6 \<noteq> NO_FLAGS then Err (FxInvalidData ''unsupported WAL header flags'')
      else if get_u32 bs 36 \<noteq> crc (slice bs 0 36) then Err FxChecksumMismatch
      else Ok \<lparr>wh_database = slice bs 8 24, wh_source = get_u32 bs 24, wh_epoch = get_u64 bs 28\<rparr>)"

subsection \<open>Records\<close>

definition encoded_record_len :: "stored_event \<Rightarrow> limits \<Rightarrow> (usize, format_error) result" where
  "encoded_record_len r l =
     (if length (se_payload r) > max_payload_bytes l then Err (FxLimitExceeded ''payload bytes'')
      else if length (se_payload r) > unat (- 1 :: u32) then Err (FxLimitExceeded ''payload bytes'')
      else if length (se_causes r) > max_causes l then Err (FxLimitExceeded ''causes per event'')
      else if length (se_causes r) > unat (- 1 :: u16) then Err (FxLimitExceeded ''causes per event'')
      else let observed_len = (if et_observed (se_times r) \<noteq> None then TIMESTAMP_LEN else 0) in
        rbind (ok_or (checked_mul_usize (length (se_causes r)) EVENT_ID_LEN) (FxInvalidData ''record length overflow''))
          (\<lambda>causes_len.
        ok_or (Option.bind (checked_add_usize RECORD_FIXED_LEN observed_len) (\<lambda>len.
               Option.bind (checked_add_usize len causes_len) (\<lambda>len.
               checked_add_usize len (length (se_payload r)))))
          (FxInvalidData ''record length overflow'')))"

definition put_event_id :: "event_id \<Rightarrow> bytes" where
  "put_event_id e = to_le 4 (eid_source e) @ to_le 8 (eid_epoch e) @ to_le 8 (eid_sequence e)"

definition put_timestamp :: "timestamp \<Rightarrow> bytes" where
  "put_timestamp t = to_le 4 (ts_clock t) @ to_le 8 (ts_ticks t)"

definition encode_record_body :: "stored_event \<Rightarrow> (bytes, format_error) result" where
  "encode_record_body r =
     rbind (ok_or (try_from_usize (length (se_payload r))) (FxLimitExceeded ''payload bytes'')) (\<lambda>payload_len :: u32.
     rbind (ok_or (try_from_usize (length (se_causes r))) (FxLimitExceeded ''causes per event'')) (\<lambda>cause_count :: u16.
     Ok (put_event_id (se_id r)
         @ to_le 4 (ent_shard (se_entity r)) @ to_le 4 (ent_slot (se_entity r)) @ to_le 4 (ent_generation (se_entity r))
         @ put_timestamp (et_valid (se_times r)) @ put_timestamp (et_known (se_times r))
         @ to_le 4 (se_schema r)
         @ to_le 2 (if et_observed (se_times r) \<noteq> None then OBSERVED_FLAG else NO_FLAGS)
         @ to_le 2 cause_count @ to_le 4 payload_len
         @ (case et_observed (se_times r) of Some t \<Rightarrow> put_timestamp t | None \<Rightarrow> [])
         @ concat (map put_event_id (se_causes r)) @ se_payload r)))"

definition read_event_id :: "string \<Rightarrow> string \<Rightarrow> string \<Rightarrow> bytes \<Rightarrow> (event_id \<times> bytes, format_error) result" where
  "read_event_id e1 e2 e3 rest =
     rbind (read_u32 (FxInvalidData e1) rest) (\<lambda>(source, rest).
     rbind (read_u64 (FxInvalidData e2) rest) (\<lambda>(epoch, rest).
     rbind (read_u64 (FxInvalidData e3) rest) (\<lambda>(sq, rest).
     Ok (\<lparr>eid_source = source, eid_epoch = epoch, eid_sequence = sq\<rparr>, rest))))"

definition read_timestamp :: "string \<Rightarrow> string \<Rightarrow> bytes \<Rightarrow> (timestamp \<times> bytes, format_error) result" where
  "read_timestamp e1 e2 rest =
     rbind (read_u32 (FxInvalidData e1) rest) (\<lambda>(clock, rest).
     rbind (read_u64 (FxInvalidData e2) rest) (\<lambda>(ticks, rest).
     Ok (\<lparr>ts_clock = clock, ts_ticks = ticks\<rparr>, rest)))"

fun read_causes :: "nat \<Rightarrow> bytes \<Rightarrow> (event_id list \<times> bytes, format_error) result" where
  "read_causes 0 rest = Ok ([], rest)"
| "read_causes (Suc n) rest =
     rbind (read_event_id ''truncated cause source'' ''truncated cause epoch'' ''truncated cause sequence'' rest)
       (\<lambda>(c, rest). rbind (read_causes n rest) (\<lambda>(cs, rest). Ok (c # cs, rest)))"

definition decode_record_body :: "(usize \<Rightarrow> bool) \<Rightarrow> limits \<Rightarrow> bytes \<Rightarrow> (stored_event \<times> bytes, format_error) result" where
  "decode_record_body alloc l rest =
     rbind (read_event_id ''truncated event source'' ''truncated event epoch'' ''truncated event sequence'' rest)
       (\<lambda>(eid, rest).
     rbind (read_u32 (FxInvalidData ''truncated entity shard'') rest) (\<lambda>(shard, rest).
     rbind (read_u32 (FxInvalidData ''truncated entity slot'') rest) (\<lambda>(slot, rest).
     rbind (read_u32 (FxInvalidData ''truncated entity generation'') rest) (\<lambda>(generation, rest).
     rbind (read_timestamp ''truncated valid clock'' ''truncated valid ticks'' rest) (\<lambda>(valid, rest).
     rbind (read_timestamp ''truncated known clock'' ''truncated known ticks'' rest) (\<lambda>(known, rest).
     rbind (read_u32 (FxInvalidData ''truncated schema id'') rest) (\<lambda>(schema, rest).
     rbind (read_u16 (FxInvalidData ''truncated record flags'') rest) (\<lambda>(flags, rest).
     if flags AND NOT OBSERVED_FLAG \<noteq> 0 then Err (FxInvalidData ''unsupported record flags'') else
     rbind (read_u16 (FxInvalidData ''truncated cause count'') rest) (\<lambda>(cause_count, rest).
     if unat cause_count > max_causes l then Err (FxLimitExceeded ''causes per event'') else
     rbind (read_u32 (FxInvalidData ''truncated payload length'') rest) (\<lambda>(payload_len, rest).
     if unat payload_len > max_payload_bytes l then Err (FxLimitExceeded ''payload bytes'') else
     rbind (if flags AND OBSERVED_FLAG \<noteq> 0
            then rbind (read_timestamp ''truncated observed clock'' ''truncated observed ticks'' rest)
                   (\<lambda>(t, rest). Ok (Some t, rest))
            else Ok (None, rest)) (\<lambda>(observed, rest).
     rbind (try_reserve alloc (unat cause_count) FxAllocationFailed) (\<lambda>_.
     rbind (read_causes (unat cause_count) rest) (\<lambda>(causes, rest).
     rbind (read_fixed (unat payload_len) (FxInvalidData ''truncated payload bytes'') rest) (\<lambda>(payload, rest).
     rbind (try_reserve alloc (unat payload_len) FxAllocationFailed) (\<lambda>_.
     Ok (\<lparr>se_id = eid, se_entity = \<lparr>ent_shard = shard, ent_slot = slot, ent_generation = generation\<rparr>,
          se_times = \<lparr>et_valid = valid, et_observed = observed, et_known = known\<rparr>,
          se_schema = schema, se_payload = payload, se_causes = causes\<rparr>, rest))))))))))))))))"

lemma read_event_id_Ok [result_ok]: "read_event_id e1 e2 e3 rest = Ok (x, r) \<longleftrightarrow> rest = put_event_id x @ r"
  by (cases x) (auto simp: read_event_id_def put_event_id_def result_ok)

lemma read_timestamp_Ok [result_ok]: "read_timestamp e1 e2 rest = Ok (t, r) \<longleftrightarrow> rest = put_timestamp t @ r"
  by (cases t) (auto simp: read_timestamp_def put_timestamp_def result_ok)

lemma read_causes_Ok [result_ok]:
  "read_causes n rest = Ok (cs, r) \<longleftrightarrow> length cs = n \<and> rest = concat (map put_event_id cs) @ r"
  by (induction n arbitrary: rest cs) (auto simp: result_ok length_Suc_conv)

lemma length_put [simp, enc_len]: "length (put_event_id e) = 20" "length (put_timestamp t) = 12"
  by (simp_all add: put_event_id_def put_timestamp_def)

text \<open>The flag word of a record is canonical.\<close>

lemma record_flags: "flags AND NOT OBSERVED_FLAG = (0 :: u16) \<longleftrightarrow> flags = NO_FLAGS \<or> flags = OBSERVED_FLAG"
proof
  assume z: "flags AND NOT OBSERVED_FLAG = 0"
  have "bit flags i \<Longrightarrow> i = 0" for i
    using arg_cong [OF z, of "\<lambda>w. bit w i"] bit_imp_le_length [of flags i]
    by (auto simp: bit_simps OBSERVED_FLAG_def)
  then have "flags = (if bit flags 0 then 1 else 0)"
    by (intro bit_word_eqI) (auto simp: bit_simps)
  then show "flags = NO_FLAGS \<or> flags = OBSERVED_FLAG" by (auto simp: NO_FLAGS_def OBSERVED_FLAG_def split: if_splits)
qed (auto simp: NO_FLAGS_def OBSERVED_FLAG_def)

lemma flag_facts [simp]:
  "NO_FLAGS AND OBSERVED_FLAG = 0" "OBSERVED_FLAG AND OBSERVED_FLAG \<noteq> 0" "OBSERVED_FLAG \<noteq> 0"
  by (simp_all add: NO_FLAGS_def OBSERVED_FLAG_def)

definition record_within :: "limits \<Rightarrow> stored_event \<Rightarrow> bool" where
  "record_within l r \<longleftrightarrow> length (se_payload r) \<le> max_payload_bytes l \<and> length (se_payload r) < 2 ^ 32
     \<and> length (se_causes r) \<le> max_causes l \<and> length (se_causes r) < 2 ^ 16"

definition record_bytes :: "stored_event \<Rightarrow> bytes" where
  "record_bytes r =
     put_event_id (se_id r)
     @ to_le 4 (ent_shard (se_entity r)) @ to_le 4 (ent_slot (se_entity r)) @ to_le 4 (ent_generation (se_entity r))
     @ put_timestamp (et_valid (se_times r)) @ put_timestamp (et_known (se_times r))
     @ to_le 4 (se_schema r)
     @ to_le 2 (if et_observed (se_times r) \<noteq> None then OBSERVED_FLAG else NO_FLAGS)
     @ to_le 2 (of_nat (length (se_causes r)) :: u16) @ to_le 4 (of_nat (length (se_payload r)) :: u32)
     @ (case et_observed (se_times r) of Some t \<Rightarrow> put_timestamp t | None \<Rightarrow> [])
     @ concat (map put_event_id (se_causes r)) @ se_payload r"

lemma encode_record_body_Ok:
  "encode_record_body r = Ok bs \<longleftrightarrow> length (se_payload r) < 2 ^ 32 \<and> length (se_causes r) < 2 ^ 16 \<and> bs = record_bytes r"
  by (auto simp: encode_record_body_def record_bytes_def rbind_eq_Ok ok_or_eq_Ok try_from_usize_Some)

lemma record_bytes_length:
  "length (record_bytes r) = 68 + (if et_observed (se_times r) \<noteq> None then 12 else 0)
     + 20 * length (se_causes r) + length (se_payload r)"
proof -
  have "length (concat (map put_event_id cs)) = 20 * length cs" for cs by (induction cs) simp_all
  then show ?thesis by (simp add: record_bytes_def split: option.splits)
qed

lemma read_put [simp]:
  "read_event_id e1 e2 e3 (put_event_id x @ r) = Ok (x, r)"
  "read_timestamp e4 e5 (put_timestamp t @ r) = Ok (t, r)"
  by (simp_all add: result_ok)

lemma decode_record_bytes:
  assumes "record_within l r" "\<forall>n. alloc n"
  shows "decode_record_body alloc l (record_bytes r @ rest) = Ok (r, rest)"
proof -
  have u: "unat (of_nat (length (se_causes r)) :: u16) = length (se_causes r)"
    "unat (of_nat (length (se_payload r)) :: u32) = length (se_payload r)"
    using assms(1) by (simp_all add: record_within_def)
  have cs: "read_causes (length (se_causes r)) (concat (map put_event_id (se_causes r)) @ xs) = Ok (se_causes r, xs)" for xs
    by (simp add: result_ok)
  have pl: "read_fixed (length (se_payload r)) e (se_payload r @ rest) = Ok (se_payload r, rest)" for e :: format_error
    by (simp add: result_ok)
  show ?thesis
    using assms u cs pl
    by (cases "et_observed (se_times r)")
       (simp_all add: decode_record_body_def record_bytes_def record_within_def try_reserve_def
         NO_FLAGS_def OBSERVED_FLAG_def)
qed

lemma decode_record_bytes_inv:
  assumes "decode_record_body alloc l bs = Ok (r, rest)"
  shows "record_within l r \<and> bs = record_bytes r @ rest"
proof -
  have "of_nat (unat (w :: 'w::len word)) = w" for w by simp
  then show ?thesis
    using assms unfolding decode_record_body_def
    by (auto simp: result_ok record_flags record_within_def record_bytes_def split: if_splits)
qed

subsection \<open>Batches\<close>

text \<open>The loop that adds up the record lengths.\<close>

fun batch_body_len :: "limits \<Rightarrow> usize \<Rightarrow> stored_event list \<Rightarrow> (usize, format_error) result" where
  "batch_body_len l body_len [] = Ok body_len"
| "batch_body_len l body_len (r # rs) =
     rbind (encoded_record_len r l) (\<lambda>n.
     rbind (ok_or (checked_add_usize body_len n) (FxInvalidData ''frame length overflow'')) (\<lambda>body_len.
     batch_body_len l body_len rs))"

definition encode_batch :: "(bytes \<Rightarrow> u32) \<Rightarrow> (usize \<Rightarrow> bool) \<Rightarrow> stored_event list \<Rightarrow> limits \<Rightarrow> (bytes, format_error) result" where
  "encode_batch crc alloc records l =
     (if length records > max_records l then Err (FxLimitExceeded ''records per batch'') else
      rbind (batch_body_len l 0 records) (\<lambda>body_len.
      rbind (ok_or (checked_add_usize BATCH_HEADER_LEN body_len) (FxInvalidData ''frame length overflow'')) (\<lambda>frame_len.
      if frame_len > max_frame_bytes l then Err (FxLimitExceeded ''frame bytes'') else
      rbind (ok_or (try_from_usize frame_len) (FxLimitExceeded ''frame bytes'')) (\<lambda>frame_len_u32 :: u32.
      rbind (ok_or (try_from_usize (length records)) (FxLimitExceeded ''records per batch'')) (\<lambda>record_count :: u32.
      rbind (try_reserve alloc frame_len FxAllocationFailed) (\<lambda>_.
      rbind (map_result encode_record_body records) (\<lambda>bodies.
      let body = concat bodies;
          h = BATCH_MAGIC @ to_le 2 FORMAT_VERSION @ to_le 2 NO_FLAGS @ to_le 4 frame_len_u32 @ to_le 4 record_count
              @ to_le 4 (crc body)
      in Ok (h @ to_le 4 (crc h) @ body))))))))"

definition frame_length :: "(bytes \<Rightarrow> u32) \<Rightarrow> bytes \<Rightarrow> limits \<Rightarrow> (usize, format_error) result" where
  "frame_length crc p l =
     (if length p < BATCH_HEADER_LEN then Err (FxIncomplete BATCH_HEADER_LEN (length p))
      else if slice p 0 4 \<noteq> BATCH_MAGIC then Err FxInvalidMagic
      else if get_u16 p 4 \<noteq> FORMAT_VERSION then Err (FxUnsupportedVersion (get_u16 p 4))
      else if get_u16 p 6 \<noteq> NO_FLAGS then Err (FxInvalidData ''unsupported batch flags'')
      else if get_u32 p 20 \<noteq> crc (slice p 0 20) then Err FxChecksumMismatch
      else let frame_len = unat (get_u32 p 8) in
      if frame_len < BATCH_HEADER_LEN then Err (FxInvalidData ''frame length smaller than header'')
      else if frame_len > max_frame_bytes l then Err (FxLimitExceeded ''frame bytes'')
      else if unat (get_u32 p 12) > max_records l then Err (FxLimitExceeded ''records per batch'')
      else Ok frame_len)"

fun decode_records :: "(usize \<Rightarrow> bool) \<Rightarrow> limits \<Rightarrow> nat \<Rightarrow> bytes \<Rightarrow> (stored_event list \<times> bytes, format_error) result" where
  "decode_records alloc l 0 rest = Ok ([], rest)"
| "decode_records alloc l (Suc n) rest =
     rbind (decode_record_body alloc l rest) (\<lambda>(r, rest).
     rbind (decode_records alloc l n rest) (\<lambda>(rs, rest). Ok (r # rs, rest)))"

definition decode_batch :: "(bytes \<Rightarrow> u32) \<Rightarrow> (usize \<Rightarrow> bool) \<Rightarrow> bytes \<Rightarrow> limits \<Rightarrow> (stored_event list, format_error) result" where
  "decode_batch crc alloc frame l =
     rbind (frame_length crc frame l) (\<lambda>frame_len.
     if length frame < frame_len then Err (FxIncomplete frame_len (length frame))
     else if length frame > frame_len then Err (FxInvalidData ''trailing batch bytes'')
     else if get_u32 frame 16 \<noteq> crc (drop BATCH_HEADER_LEN frame) then Err FxChecksumMismatch
     else let record_count = unat (get_u32 frame 12); body = slice frame BATCH_HEADER_LEN frame_len in
       rbind (try_reserve alloc record_count FxAllocationFailed) (\<lambda>_.
       rbind (decode_records alloc l record_count body) (\<lambda>(records, rest).
       if rest \<noteq> [] then Err (FxInvalidData ''trailing record bytes'') else Ok records)))"

text \<open>\<open>encoded_record_len\<close> is the length of the encoding, and fails exactly outside the limits.\<close>

lemma encoded_record_len_Ok:
  "encoded_record_len r l = Ok n \<longleftrightarrow> record_within l r \<and> n = length (record_bytes r)"
proof -
  have len: "length (record_bytes r) = RECORD_FIXED_LEN + (if et_observed (se_times r) \<noteq> None then TIMESTAMP_LEN else 0)
      + length (se_causes r) * EVENT_ID_LEN + length (se_payload r)"
    by (simp add: record_bytes_length RECORD_FIXED_LEN_def TIMESTAMP_LEN_def EVENT_ID_LEN_def)
  have u: "unat (- 1 :: u32) = 4294967295" "unat (- 1 :: u16) = 65535"
    by (simp_all add: unsigned_minus_1_eq_mask mask_eq_exp_minus_1)
  have lim: "RECORD_FIXED_LEN = 68" "TIMESTAMP_LEN = 12" "EVENT_ID_LEN = 20"
    by (simp_all add: RECORD_FIXED_LEN_def TIMESTAMP_LEN_def EVENT_ID_LEN_def)
  show ?thesis
    by (auto simp: encoded_record_len_def record_within_def len u lim Let_def checked_mul_usize_def
        checked_add_usize_def ok_or_def split: if_splits)
qed

lemma batch_body_len_Ok:
  "batch_body_len l acc rs = Ok n \<longleftrightarrow>
     (\<forall>r \<in> set rs. record_within l r) \<and> n = acc + length (concat (map record_bytes rs)) \<and> (rs = [] \<or> n < usize_limit)"
proof (induction rs arbitrary: acc)
  case (Cons r rs)
  show ?case
    by (auto simp: rbind_eq_Ok ok_or_eq_Ok encoded_record_len_Ok checked_add_usize_Some Cons.IH)
qed auto

lemma map_encode_record_body:
  "map_result encode_record_body rs = Ok bss \<longleftrightarrow>
     (\<forall>r \<in> set rs. length (se_payload r) < 2 ^ 32 \<and> length (se_causes r) < 2 ^ 16) \<and> bss = map record_bytes rs"
proof (induction rs arbitrary: bss)
  case (Cons r rs)
  show ?case by (auto simp: rbind_eq_Ok encode_record_body_Ok Cons.IH)
qed auto

lemma decode_records_Ok:
  assumes "\<forall>n. alloc n"
  shows "decode_records alloc l n bs = Ok (rs, rest) \<longleftrightarrow>
     length rs = n \<and> (\<forall>r \<in> set rs. record_within l r) \<and> bs = concat (map record_bytes rs) @ rest"
proof (induction n arbitrary: bs rs)
  case (Suc n)
  have "decode_record_body alloc l bs = Ok (r, rest') \<longleftrightarrow> record_within l r \<and> bs = record_bytes r @ rest'" for r rest'
    using decode_record_bytes [OF _ assms] decode_record_bytes_inv by blast
  then show ?case by (auto simp: rbind_eq_Ok Suc.IH length_Suc_conv)
qed auto

text \<open>The header every accepted frame starts with.\<close>

definition batch_header :: "(bytes \<Rightarrow> u32) \<Rightarrow> nat \<Rightarrow> nat \<Rightarrow> bytes \<Rightarrow> bytes" where
  "batch_header crc frame_len count body =
     BATCH_MAGIC @ to_le 2 FORMAT_VERSION @ to_le 2 NO_FLAGS @ to_le 4 (of_nat frame_len :: u32)
     @ to_le 4 (of_nat count :: u32) @ to_le 4 (crc body)"

definition batch_bytes :: "(bytes \<Rightarrow> u32) \<Rightarrow> stored_event list \<Rightarrow> bytes" where
  "batch_bytes crc rs =
     (let body = concat (map record_bytes rs); h = batch_header crc (24 + length body) (length rs) body
      in h @ to_le 4 (crc h) @ body)"

definition batch_within :: "limits \<Rightarrow> stored_event list \<Rightarrow> bool" where
  "batch_within l rs \<longleftrightarrow> length rs \<le> max_records l \<and> length rs < 2 ^ 32 \<and> (\<forall>r \<in> set rs. record_within l r)
     \<and> 24 + length (concat (map record_bytes rs)) \<le> max_frame_bytes l
     \<and> 24 + length (concat (map record_bytes rs)) < 2 ^ 32"

lemma encode_batch_Ok:
  assumes "\<forall>n. alloc n"
  shows "encode_batch crc alloc rs l = Ok bs \<longleftrightarrow> batch_within l rs \<and> bs = batch_bytes crc rs"
proof -
  let ?n = "length (concat (map record_bytes rs))"
  have "encode_batch crc alloc rs l = Ok bs \<longleftrightarrow> length rs \<le> max_records l \<and> length rs < 2 ^ 32
     \<and> (\<forall>r \<in> set rs. record_within l r) \<and> (rs = [] \<or> ?n < usize_limit) \<and> 24 + ?n < usize_limit
     \<and> 24 + ?n \<le> max_frame_bytes l \<and> 24 + ?n < 2 ^ 32
     \<and> (\<forall>r \<in> set rs. length (se_payload r) < 2 ^ 32 \<and> length (se_causes r) < 2 ^ 16) \<and> bs = batch_bytes crc rs"
    using assms
    by (auto simp: encode_batch_def rbind_eq_Ok ok_or_eq_Ok batch_body_len_Ok checked_add_usize_Some try_from_usize_Some
        try_reserve_Ok map_encode_record_body batch_bytes_def batch_header_def BATCH_HEADER_LEN_def Let_def)
  also have "\<dots> \<longleftrightarrow> batch_within l rs \<and> bs = batch_bytes crc rs"
    by (auto simp: batch_within_def record_within_def)
  finally show ?thesis .
qed

lemma get_eq_iff:
  "k + 2 \<le> length bs \<Longrightarrow> get_u16 bs k = h \<longleftrightarrow> slice bs k (k + 2) = to_le 2 h"
  "k + 4 \<le> length bs \<Longrightarrow> get_u32 bs k = w \<longleftrightarrow> slice bs k (k + 4) = to_le 4 w"
  "k + 8 \<le> length bs \<Longrightarrow> get_u64 bs k = d \<longleftrightarrow> slice bs k (k + 8) = to_le 8 d"
  by (simp_all add: get_u16_def get_u32_def get_u64_def from_le_eq_iff)

lemma slice_get:
  "k + 2 \<le> length bs \<Longrightarrow> slice bs k (k + 2) = to_le 2 (get_u16 bs k)"
  "k + 4 \<le> length bs \<Longrightarrow> slice bs k (k + 4) = to_le 4 (get_u32 bs k)"
  "k + 8 \<le> length bs \<Longrightarrow> slice bs k (k + 8) = to_le 8 (get_u64 bs k)"
  by (rule get_eq_iff [THEN iffD1, OF _ refl], assumption)+

definition batch_h20 :: "u32 \<Rightarrow> u32 \<Rightarrow> u32 \<Rightarrow> bytes" where
  "batch_h20 fl cnt c = BATCH_MAGIC @ to_le 2 FORMAT_VERSION @ to_le 2 NO_FLAGS @ to_le 4 fl @ to_le 4 cnt @ to_le 4 c"

lemma length_batch_h20 [simp]: "length (batch_h20 a b c) = 20"
  by (simp add: batch_h20_def BATCH_MAGIC_def)

lemma batch_h20_fields:
  fixes fl cnt c k :: u32 and rest :: bytes
  defines "p \<equiv> batch_h20 fl cnt c @ to_le 4 k @ rest"
  shows "length p = 24 + length rest" "slice p 0 4 = BATCH_MAGIC" "get_u16 p 4 = FORMAT_VERSION" "get_u16 p 6 = NO_FLAGS"
    "get_u32 p 8 = fl" "get_u32 p 12 = cnt" "get_u32 p 16 = c" "get_u32 p 20 = k" "slice p 0 20 = batch_h20 fl cnt c"
    "drop 24 p = rest" "slice p 24 (24 + length rest) = rest"
  by (simp_all add: p_def batch_h20_def BATCH_MAGIC_def get_u16_def get_u32_def slice_def)

lemma batch_h20_split:
  assumes "24 \<le> length p" "slice p 0 4 = BATCH_MAGIC" "get_u16 p 4 = FORMAT_VERSION" "get_u16 p 6 = NO_FLAGS"
    "get_u32 p 20 = crc (slice p 0 20)"
  shows "p = batch_h20 (get_u32 p 8) (get_u32 p 12) (get_u32 p 16)
     @ to_le 4 (crc (batch_h20 (get_u32 p 8) (get_u32 p 12) (get_u32 p 16))) @ drop 24 p"
proof -
  have f: "slice p 4 6 = to_le 2 FORMAT_VERSION" "slice p 6 8 = to_le 2 NO_FLAGS" "slice p 8 12 = to_le 4 (get_u32 p 8)"
    "slice p 12 16 = to_le 4 (get_u32 p 12)" "slice p 16 20 = to_le 4 (get_u32 p 16)"
    "slice p 20 24 = to_le 4 (crc (slice p 0 20))"
    using assms slice_get(1) [of 4 p] slice_get(1) [of 6 p] slice_get(2) [of 8 p] slice_get(2) [of 12 p]
      slice_get(2) [of 16 p] slice_get(2) [of 20 p] by simp_all
  have "p = slice p 0 4 @ slice p 4 6 @ slice p 6 8 @ slice p 8 12 @ slice p 12 16 @ slice p 16 20 @ drop 20 p"
    by (simp flip: drop_slice)
  moreover have "drop 20 p = slice p 20 24 @ drop 24 p" by (simp flip: drop_slice)
  ultimately have p: "p = batch_h20 (get_u32 p 8) (get_u32 p 12) (get_u32 p 16) @ slice p 20 24 @ drop 24 p"
    using f assms(2) by (simp add: batch_h20_def)
  have "slice p 0 20 = batch_h20 (get_u32 p 8) (get_u32 p 12) (get_u32 p 16)"
    by (subst p) (simp add: slice_def)
  with p f show ?thesis by simp
qed

lemma frame_length_Ok:
  "frame_length crc p l = Ok n \<longleftrightarrow> (\<exists>fl cnt c rest. p = batch_h20 fl cnt c @ to_le 4 (crc (batch_h20 fl cnt c)) @ rest
     \<and> n = unat fl \<and> 24 \<le> n \<and> n \<le> max_frame_bytes l \<and> unat cnt \<le> max_records l)" (is "?lhs \<longleftrightarrow> ?rhs")
proof
  assume ?lhs
  then have "24 \<le> length p" "slice p 0 4 = BATCH_MAGIC" "get_u16 p 4 = FORMAT_VERSION" "get_u16 p 6 = NO_FLAGS"
    "get_u32 p 20 = crc (slice p 0 20)" and "n = unat (get_u32 p 8)" "24 \<le> n" "n \<le> max_frame_bytes l"
    "unat (get_u32 p 12) \<le> max_records l"
    by (auto simp: frame_length_def BATCH_HEADER_LEN_def Let_def split: if_splits)
  with batch_h20_split [of p crc] show ?rhs by blast
next
  assume ?rhs
  then show ?lhs
    by (auto simp: frame_length_def BATCH_HEADER_LEN_def batch_h20_fields Let_def)
qed

lemma decode_batch_Ok:
  assumes al: "\<forall>n. alloc n"
  shows "decode_batch crc alloc bs l = Ok rs \<longleftrightarrow> batch_within l rs \<and> bs = batch_bytes crc rs" (is "?lhs \<longleftrightarrow> ?rhs")
proof
  assume ?lhs
  then obtain n where n: "frame_length crc bs l = Ok n" and "length bs = n"
    and crc: "get_u32 bs 16 = crc (drop 24 bs)"
    and dec: "decode_records alloc l (unat (get_u32 bs 12)) (slice bs 24 n) = Ok (rs, [])"
    using al by (auto simp: decode_batch_def rbind_eq_Ok try_reserve_def BATCH_HEADER_LEN_def Let_def split: if_splits)
  obtain fl cnt c rest where p: "bs = batch_h20 fl cnt c @ to_le 4 (crc (batch_h20 fl cnt c)) @ rest"
    and lim: "n = unat fl" "24 \<le> n" "n \<le> max_frame_bytes l" "unat cnt \<le> max_records l"
    using n unfolding frame_length_Ok by blast
  note F = batch_h20_fields [of fl cnt c "crc (batch_h20 fl cnt c)" rest, folded p]
  have len: "n = 24 + length rest" using F(1) \<open>length bs = n\<close> by simp
  have dec': "length rs = unat cnt" "\<forall>r \<in> set rs. record_within l r" "rest = concat (map record_bytes rs)"
    using dec F(6,11) decode_records_Ok [OF al, of l "unat cnt" rest rs "[]"] by (simp_all add: len)
  have "of_nat (unat fl) = fl" by simp
  then have w: "fl = of_nat (24 + length rest)" using len lim(1) by metis
  have w': "cnt = of_nat (length rs)" "c = crc rest"
    using dec'(1) crc F(7,10) by simp_all
  have "batch_within l rs"
    using dec' lim len unat_bounds(3) [of fl] unat_bounds(3) [of cnt] by (simp add: batch_within_def)
  moreover have "bs = batch_bytes crc rs"
    unfolding p w w' dec'(3) batch_bytes_def batch_header_def batch_h20_def Let_def by simp
  ultimately show ?rhs ..
next
  assume r: ?rhs
  let ?body = "concat (map record_bytes rs)"
  define N where "N = 24 + length ?body"
  let ?h = "batch_h20 (of_nat N) (of_nat (length rs)) (crc ?body)"
  have bs: "bs = ?h @ to_le 4 (crc ?h) @ ?body"
    using r unfolding batch_bytes_def batch_header_def batch_h20_def Let_def N_def by simp
  have u: "unat (of_nat N :: u32) = N" "unat (of_nat (length rs) :: u32) = length rs"
    using r unfolding batch_within_def N_def [symmetric] by simp_all
  have "frame_length crc bs l = Ok N"
    unfolding frame_length_Ok
  proof (intro exI conjI)
    show "bs = ?h @ to_le 4 (crc ?h) @ ?body" by (rule bs)
    show "N = unat (of_nat N :: u32)" "24 \<le> N" "N \<le> max_frame_bytes l" "unat (of_nat (length rs) :: u32) \<le> max_records l"
      using r u unfolding batch_within_def N_def [symmetric] by (simp_all add: N_def)
  qed
  moreover note F = batch_h20_fields [of "of_nat N" "of_nat (length rs)" "crc ?body" "crc ?h" ?body, folded bs, folded N_def]
  moreover have "decode_records alloc l (length rs) ?body = Ok (rs, [])"
    using r decode_records_Ok [OF al, of l "length rs" ?body rs "[]"] by (simp add: batch_within_def)
  ultimately show ?lhs using u al by (simp add: decode_batch_def BATCH_HEADER_LEN_def try_reserve_def)
qed

end
