(* ===== verification/Wal_Segment.thy ===== *)
theory Wal_Segment
  imports Wal_Format
begin

section \<open>Log headers and sealed segments (\<open>temnion-format\<close>, continued)\<close>

text \<open>\<open>encode_segment\<close> wraps one batch in a header that names the database, source and epoch and in a
  footer; \<open>decode_segment\<close> checks every field of both. The log header codec is in \<open>Wal_Format\<close>; its
  exactness is proved here with the segment's.\<close>

definition matches_header :: "wal_header \<Rightarrow> stored_event \<Rightarrow> bool" where
  "matches_header h r \<longleftrightarrow> eid_source (se_id r) = wh_source h \<and> eid_epoch (se_id r) = wh_epoch h"

definition encode_segment :: "(bytes \<Rightarrow> u32) \<Rightarrow> (usize \<Rightarrow> bool) \<Rightarrow> wal_header \<Rightarrow> stored_event list \<Rightarrow> limits
    \<Rightarrow> (bytes, format_error) result" where
  "encode_segment crc alloc header records l =
     (if \<not> list_all (matches_header header) records
      then Err (FxInvalidData ''record source or epoch differs from segment header'') else
      rbind (encode_batch crc alloc records l) (\<lambda>batch.
      rbind (ok_or (try_from_usize (length batch)) (FxLimitExceeded ''frame bytes'')) (\<lambda>batch_len_u32 :: u32.
      rbind (ok_or (try_from_usize (length records)) (FxLimitExceeded ''records per batch'')) (\<lambda>record_count :: u32.
      rbind (ok_or (Option.bind (checked_add_usize SEGMENT_HEADER_LEN (length batch))
                      (\<lambda>len. checked_add_usize len SEGMENT_FOOTER_LEN))
               (FxInvalidData ''segment length overflow'')) (\<lambda>total_len.
      if total_len > max_segment_bytes l then Err (FxLimitExceeded ''segment bytes'') else
      rbind (try_reserve alloc total_len FxAllocationFailed) (\<lambda>_.
      let head = SEGMENT_MAGIC @ to_le 2 FORMAT_VERSION @ to_le 2 NO_FLAGS @ wh_database header
                 @ to_le 4 (wh_source header) @ to_le 8 (wh_epoch header)
                 @ to_le 4 batch_len_u32 @ to_le 4 record_count @ to_le 4 (crc batch);
          foot = SEGMENT_FOOTER_MAGIC @ to_le 2 FORMAT_VERSION @ to_le 2 NO_FLAGS @ to_le 4 (0 :: u32)
      in Ok (head @ to_le 4 (crc head) @ batch @ foot @ to_le 4 (crc foot))))))))"

definition decode_segment :: "(bytes \<Rightarrow> u32) \<Rightarrow> (usize \<Rightarrow> bool) \<Rightarrow> bytes \<Rightarrow> limits \<Rightarrow> (segment, format_error) result" where
  "decode_segment crc alloc bs l =
     (if length bs < SEGMENT_HEADER_LEN then Err (FxIncomplete SEGMENT_HEADER_LEN (length bs))
      else if slice bs 0 4 \<noteq> SEGMENT_MAGIC then Err FxInvalidMagic
      else if get_u16 bs 4 \<noteq> FORMAT_VERSION then Err (FxUnsupportedVersion (get_u16 bs 4))
      else if get_u16 bs 6 \<noteq> NO_FLAGS then Err (FxInvalidData ''unsupported segment flags'')
      else if get_u32 bs 48 \<noteq> crc (slice bs 0 48) then Err FxChecksumMismatch
      else let body_len = unat (get_u32 bs 36) in
      rbind (ok_or (Option.bind (checked_add_usize SEGMENT_HEADER_LEN body_len)
                      (\<lambda>len. checked_add_usize len SEGMENT_FOOTER_LEN))
               (FxInvalidData ''segment length overflow'')) (\<lambda>total_len.
      if total_len > max_segment_bytes l then Err (FxLimitExceeded ''segment bytes'')
      else if length bs < total_len then Err (FxIncomplete total_len (length bs))
      else if length bs > total_len then Err (FxInvalidData ''trailing segment bytes'')
      else let fs = SEGMENT_HEADER_LEN + body_len in
      if slice bs fs (fs + 4) \<noteq> SEGMENT_FOOTER_MAGIC then Err FxInvalidMagic
      else if get_u16 bs (fs + 4) \<noteq> FORMAT_VERSION then Err (FxUnsupportedVersion (get_u16 bs (fs + 4)))
      else if get_u16 bs (fs + 6) \<noteq> NO_FLAGS then Err (FxInvalidData ''unsupported segment footer flags'')
      else if get_u32 bs (fs + 8) \<noteq> 0 then Err (FxInvalidData ''nonzero segment directory length'')
      else if get_u32 bs (fs + 12) \<noteq> crc (slice bs fs (fs + 12)) then Err FxChecksumMismatch
      else let body = slice bs SEGMENT_HEADER_LEN fs in
      if crc body \<noteq> get_u32 bs 44 then Err FxChecksumMismatch
      else if body_len < BATCH_HEADER_LEN then Err (FxInvalidData ''segment body shorter than embedded batch header'')
      else let header = \<lparr>wh_database = slice bs 8 24, wh_source = get_u32 bs 24, wh_epoch = get_u64 bs 28\<rparr>;
               expected_count = unat (get_u32 bs 40) in
      if expected_count > max_records l then Err (FxLimitExceeded ''records per batch'')
      else rbind (case decode_batch crc alloc body l of
                    Err (FxIncomplete _ _) \<Rightarrow> Err (FxInvalidData ''complete segment contains a truncated embedded batch'')
                  | other \<Rightarrow> other) (\<lambda>records.
           if length records \<noteq> expected_count
           then Err (FxInvalidData ''segment record count differs from embedded batch'')
           else if list_ex (\<lambda>r. \<not> matches_header header r) records
           then Err (FxInvalidData ''record source or epoch differs from segment header'')
           else Ok \<lparr>sg_header = header, sg_records = records\<rparr>)))"

subsection \<open>Layout\<close>

definition segment_head :: "(bytes \<Rightarrow> u32) \<Rightarrow> wal_header \<Rightarrow> bytes \<Rightarrow> nat \<Rightarrow> bytes" where
  "segment_head crc h batch n = SEGMENT_MAGIC @ to_le 2 FORMAT_VERSION @ to_le 2 NO_FLAGS @ wh_database h
     @ to_le 4 (wh_source h) @ to_le 8 (wh_epoch h)
     @ to_le 4 (of_nat (length batch) :: u32) @ to_le 4 (of_nat n :: u32) @ to_le 4 (crc batch)"

definition segment_foot :: bytes where
  "segment_foot = SEGMENT_FOOTER_MAGIC @ to_le 2 FORMAT_VERSION @ to_le 2 NO_FLAGS @ to_le 4 (0 :: u32)"

definition segment_bytes :: "(bytes \<Rightarrow> u32) \<Rightarrow> segment \<Rightarrow> bytes" where
  "segment_bytes crc s =
     (let batch = batch_bytes crc (sg_records s); head = segment_head crc (sg_header s) batch (length (sg_records s))
      in head @ to_le 4 (crc head) @ batch @ segment_foot @ to_le 4 (crc segment_foot))"

definition segment_within :: "limits \<Rightarrow> segment \<Rightarrow> bool" where
  "segment_within l s \<longleftrightarrow> batch_within l (sg_records s) \<and> list_all (matches_header (sg_header s)) (sg_records s)
     \<and> 92 + length (concat (map record_bytes (sg_records s))) \<le> max_segment_bytes l"

lemma length_batch_bytes: "length (batch_bytes crc rs) = 24 + length (concat (map record_bytes rs))"
  by (simp add: batch_bytes_def batch_header_def Let_def BATCH_MAGIC_def)

lemma length_segment_foot [simp]: "length segment_foot = 12"
  by (simp add: segment_foot_def SEGMENT_FOOTER_MAGIC_def)

lemma length_segment_head [simp]: "wf_database_id (wh_database h) \<Longrightarrow> length (segment_head crc h b n) = 48"
  by (simp add: segment_head_def SEGMENT_MAGIC_def wf_database_id_def)

lemma encode_segment_Ok:
  assumes al: "\<forall>n. alloc n"
  shows "encode_segment crc alloc h rs l = Ok bs \<longleftrightarrow>
     segment_within l \<lparr>sg_header = h, sg_records = rs\<rparr> \<and> bs = segment_bytes crc \<lparr>sg_header = h, sg_records = rs\<rparr>"
proof -
  let ?n = "length (concat (map record_bytes rs))"
  have "encode_segment crc alloc h rs l = Ok bs \<longleftrightarrow> list_all (matches_header h) rs \<and> batch_within l rs
     \<and> 24 + ?n < 2 ^ 32 \<and> length rs < 2 ^ 32 \<and> 76 + ?n < usize_limit \<and> 92 + ?n < usize_limit \<and> 92 + ?n \<le> max_segment_bytes l
     \<and> bs = segment_bytes crc \<lparr>sg_header = h, sg_records = rs\<rparr>"
    using al
    by (auto simp: encode_segment_def rbind_eq_Ok ok_or_eq_Ok encode_batch_Ok [OF al] try_from_usize_Some
        checked_add_usize_Some bind_eq_Some_conv try_reserve_Ok length_batch_bytes Let_def
        segment_bytes_def segment_head_def segment_foot_def SEGMENT_HEADER_LEN_def SEGMENT_FOOTER_LEN_def)
  then show ?thesis
    by (auto simp: segment_within_def batch_within_def)
qed

subsection \<open>Exactness of the decoders\<close>

lemma wal_header_exact:
  "decode_wal_header crc bs = Ok h \<longleftrightarrow> wf_database_id (wh_database h) \<and> bs = encode_wal_header crc h" (is "?lhs \<longleftrightarrow> ?rhs")
proof
  assume ?lhs
  then have a: "length bs = 40" "slice bs 0 4 = WAL_MAGIC" "get_u16 bs 4 = FORMAT_VERSION" "get_u16 bs 6 = NO_FLAGS"
    "get_u32 bs 36 = crc (slice bs 0 36)"
    and h: "h = \<lparr>wh_database = slice bs 8 24, wh_source = get_u32 bs 24, wh_epoch = get_u64 bs 28\<rparr>"
    by (auto simp: decode_wal_header_def WAL_HEADER_LEN_def split: if_splits)
  have f: "slice bs 4 6 = to_le 2 FORMAT_VERSION" "slice bs 6 8 = to_le 2 NO_FLAGS"
    "slice bs 24 28 = to_le 4 (wh_source h)" "slice bs 28 36 = to_le 8 (wh_epoch h)" "slice bs 8 24 = wh_database h"
    "slice bs 36 40 = to_le 4 (crc (slice bs 0 36))"
    using a h slice_get(1) [of 4 bs] slice_get(1) [of 6 bs] slice_get(2) [of 24 bs] slice_get(3) [of 28 bs]
      slice_get(2) [of 36 bs] by simp_all
  have b36: "slice bs 0 36 = WAL_MAGIC @ to_le 2 FORMAT_VERSION @ to_le 2 NO_FLAGS @ wh_database h
              @ to_le 4 (wh_source h) @ to_le 8 (wh_epoch h)"
    using slice_split [of 0 4 36 bs] slice_split [of 4 6 36 bs] slice_split [of 6 8 36 bs] slice_split [of 8 24 36 bs]
      slice_split [of 24 28 36 bs] a(2) f(1-5) by simp
  have "bs = slice bs 0 36 @ slice bs 36 40 @ drop 40 bs" by (simp flip: drop_slice)
  then have "bs = encode_wal_header crc h" using b36 f(6) a(1) by (simp add: encode_wal_header_def Let_def)
  moreover have "wf_database_id (wh_database h)" using h a(1) by (simp add: wf_database_id_def)
  ultimately show ?rhs by blast
next
  assume r: ?rhs
  then have "length (wh_database h) = 16" by (simp add: wf_database_id_def)
  then show ?lhs using r
    by (cases h) (simp add: decode_wal_header_def encode_wal_header_def Let_def WAL_HEADER_LEN_def WAL_MAGIC_def
        get_u16_def get_u32_def get_u64_def slice_def)
qed

lemma segment_fields:
  fixes batch :: bytes and h :: wal_header and crc :: "bytes \<Rightarrow> u32" and n :: nat
  assumes wf: "wf_database_id (wh_database h)"
  defines "hd48 \<equiv> segment_head crc h batch n"
  defines "bs \<equiv> hd48 @ to_le 4 (crc hd48) @ batch @ segment_foot @ to_le 4 (crc segment_foot)"
  defines "fs \<equiv> 52 + length batch"
  shows "length bs = 68 + length batch" "slice bs 0 4 = SEGMENT_MAGIC" "get_u16 bs 4 = FORMAT_VERSION"
    "get_u16 bs 6 = NO_FLAGS" "slice bs 8 24 = wh_database h" "get_u32 bs 24 = wh_source h" "get_u64 bs 28 = wh_epoch h"
    "get_u32 bs 36 = of_nat (length batch)" "get_u32 bs 40 = of_nat n" "get_u32 bs 44 = crc batch"
    "get_u32 bs 48 = crc hd48" "slice bs 0 48 = hd48" "slice bs 52 fs = batch"
    "slice bs fs (fs + 4) = SEGMENT_FOOTER_MAGIC" "get_u16 bs (fs + 4) = FORMAT_VERSION" "get_u16 bs (fs + 6) = NO_FLAGS"
    "get_u32 bs (fs + 8) = 0" "get_u32 bs (fs + 12) = crc segment_foot" "slice bs fs (fs + 12) = segment_foot"
proof -
  have db: "length (wh_database h) = 16" using wf by (simp add: wf_database_id_def)
  then have l: "length hd48 = 48" using wf by (simp add: hd48_def)
  show "length bs = 68 + length batch" "slice bs 0 48 = hd48" "get_u32 bs 48 = crc hd48" "slice bs 52 fs = batch"
    "slice bs fs (fs + 4) = SEGMENT_FOOTER_MAGIC" "get_u16 bs (fs + 4) = FORMAT_VERSION" "get_u16 bs (fs + 6) = NO_FLAGS"
    "get_u32 bs (fs + 8) = 0" "get_u32 bs (fs + 12) = crc segment_foot" "slice bs fs (fs + 12) = segment_foot"
    using l by (simp_all add: bs_def fs_def slice_def get_u16_def get_u32_def segment_foot_def SEGMENT_FOOTER_MAGIC_def)
  show "slice bs 0 4 = SEGMENT_MAGIC" "get_u16 bs 4 = FORMAT_VERSION"
    "get_u16 bs 6 = NO_FLAGS" "slice bs 8 24 = wh_database h" "get_u32 bs 24 = wh_source h" "get_u64 bs 28 = wh_epoch h"
    "get_u32 bs 36 = of_nat (length batch)" "get_u32 bs 40 = of_nat n" "get_u32 bs 44 = crc batch"
    using db by (simp_all add: bs_def hd48_def segment_head_def slice_def get_u16_def get_u32_def get_u64_def SEGMENT_MAGIC_def)
qed

text \<open>The bytes a decoder has checked are those of the layout.\<close>

lemma segment_reassemble:
  fixes crc :: "bytes \<Rightarrow> u32" and bs :: bytes and k n :: nat
  assumes len: "length bs = 68 + k" and k: "unat (get_u32 bs 36) = k"
    and a: "slice bs 0 4 = SEGMENT_MAGIC" "get_u16 bs 4 = FORMAT_VERSION" "get_u16 bs 6 = NO_FLAGS"
      "get_u32 bs 48 = crc (slice bs 0 48)" "get_u32 bs 44 = crc (slice bs 52 (52 + k))"
      "slice bs (52 + k) (52 + k + 4) = SEGMENT_FOOTER_MAGIC" "get_u16 bs (52 + k + 4) = FORMAT_VERSION"
      "get_u16 bs (52 + k + 6) = NO_FLAGS" "get_u32 bs (52 + k + 8) = 0"
      "get_u32 bs (52 + k + 12) = crc (slice bs (52 + k) (52 + k + 12))"
    and n: "unat (get_u32 bs 40) = n"
  defines "h \<equiv> \<lparr>wh_database = slice bs 8 24, wh_source = get_u32 bs 24, wh_epoch = get_u64 bs 28\<rparr>"
  defines "batch \<equiv> slice bs 52 (52 + k)"
  shows "bs = segment_head crc h batch n @ to_le 4 (crc (segment_head crc h batch n)) @ batch
     @ segment_foot @ to_le 4 (crc segment_foot)"
proof -
  have "length batch = k" using len by (simp add: batch_def)
  then have kn: "get_u32 bs 36 = of_nat (length batch)" "get_u32 bs 40 = of_nat n"
    by (simp_all flip: k n)
  have f: "slice bs 4 6 = to_le 2 FORMAT_VERSION" "slice bs 6 8 = to_le 2 NO_FLAGS" "slice bs 8 24 = wh_database h"
    "slice bs 24 28 = to_le 4 (wh_source h)" "slice bs 28 36 = to_le 8 (wh_epoch h)"
    "slice bs 36 40 = to_le 4 (of_nat (length batch) :: u32)" "slice bs 40 44 = to_le 4 (of_nat n :: u32)"
    "slice bs 44 48 = to_le 4 (crc batch)" "slice bs 48 52 = to_le 4 (crc (slice bs 0 48))"
    using a len kn slice_get(1) [of 4 bs] slice_get(1) [of 6 bs] slice_get(2) [of 24 bs] slice_get(3) [of 28 bs]
      slice_get(2) [of 36 bs] slice_get(2) [of 40 bs] slice_get(2) [of 44 bs] slice_get(2) [of 48 bs]
    by (simp_all add: h_def batch_def)
  have head: "slice bs 0 48 = segment_head crc h batch n"
    using slice_split [of 0 4 48 bs] slice_split [of 4 6 48 bs] slice_split [of 6 8 48 bs] slice_split [of 8 24 48 bs]
      slice_split [of 24 28 48 bs] slice_split [of 28 36 48 bs] slice_split [of 36 40 48 bs] slice_split [of 40 44 48 bs]
      a(1) f by (simp add: segment_head_def)
  let ?fs = "52 + k"
  have g: "slice bs (?fs + 4) (?fs + 6) = to_le 2 FORMAT_VERSION" "slice bs (?fs + 6) (?fs + 8) = to_le 2 NO_FLAGS"
    "slice bs (?fs + 8) (?fs + 12) = to_le 4 (0 :: u32)" "slice bs (?fs + 12) (?fs + 16) = to_le 4 (crc (slice bs ?fs (?fs + 12)))"
    using a len slice_get(1) [of "?fs + 4" bs] slice_get(1) [of "?fs + 6" bs] slice_get(2) [of "?fs + 8" bs]
      slice_get(2) [of "?fs + 12" bs] by (simp_all add: add.assoc)
  have foot: "slice bs ?fs (?fs + 12) = segment_foot"
    using slice_split [of ?fs "?fs + 4" "?fs + 12" bs] slice_split [of "?fs + 4" "?fs + 6" "?fs + 12" bs]
      slice_split [of "?fs + 6" "?fs + 8" "?fs + 12" bs] a(6) g by (simp add: segment_foot_def)
  have "bs = slice bs 0 (?fs + 16)" using len by (simp add: slice_def)
  also have "\<dots> = slice bs 0 48 @ slice bs 48 52 @ batch @ slice bs ?fs (?fs + 12) @ slice bs (?fs + 12) (?fs + 16)"
    using slice_split [of 0 48 "?fs + 16" bs] slice_split [of 48 52 "?fs + 16" bs] slice_split [of 52 ?fs "?fs + 16" bs]
      slice_split [of ?fs "?fs + 12" "?fs + 16" bs] by (simp add: batch_def)
  finally show ?thesis using head foot f(9) g(4) by simp
qed

lemma decode_segment_Ok:
  assumes al: "\<forall>n. alloc n"
  shows "decode_segment crc alloc bs l = Ok s \<longleftrightarrow>
     wf_database_id (wh_database (sg_header s)) \<and> segment_within l s \<and> bs = segment_bytes crc s" (is "?lhs \<longleftrightarrow> ?rhs")
proof
  assume L: ?lhs
  define k where "k = unat (get_u32 bs 36)"
  let ?h = "\<lparr>wh_database = slice bs 8 24, wh_source = get_u32 bs 24, wh_epoch = get_u64 bs 28\<rparr>"
  let ?b = "slice bs 52 (52 + k)"
  have a: "length bs = 68 + k" "slice bs 0 4 = SEGMENT_MAGIC" "get_u16 bs 4 = FORMAT_VERSION" "get_u16 bs 6 = NO_FLAGS"
      "get_u32 bs 48 = crc (slice bs 0 48)" "get_u32 bs 44 = crc ?b"
      "slice bs (52 + k) (52 + k + 4) = SEGMENT_FOOTER_MAGIC" "get_u16 bs (52 + k + 4) = FORMAT_VERSION"
      "get_u16 bs (52 + k + 6) = NO_FLAGS" "get_u32 bs (52 + k + 8) = 0"
      "get_u32 bs (52 + k + 12) = crc (slice bs (52 + k) (52 + k + 12))" "68 + k \<le> max_segment_bytes l"
    and d: "decode_batch crc alloc ?b l = Ok (sg_records s)" "length (sg_records s) = unat (get_u32 bs 40)"
      "list_all (matches_header ?h) (sg_records s)" "sg_header s = ?h"
    using L by (auto simp: decode_segment_def SEGMENT_HEADER_LEN_def SEGMENT_FOOTER_LEN_def BATCH_HEADER_LEN_def k_def Let_def
        rbind_eq_Ok ok_or_eq_Ok bind_eq_Some_conv checked_add_usize_Some list_all_iff list_ex_iff
        split: if_splits result.splits format_error.splits)
  have b: "batch_within l (sg_records s)" "?b = batch_bytes crc (sg_records s)"
    using d(1) decode_batch_Ok [OF al] by blast+
  have "wf_database_id (wh_database (sg_header s))" using d(4) a(1) by (simp add: wf_database_id_def)
  moreover have "length ?b = k" using a(1) by simp
  then have "24 + length (concat (map record_bytes (sg_records s))) = k"
    unfolding b(2) length_batch_bytes .
  then have "segment_within l s"
    using b(1) d(3,4) a(12) by (simp add: segment_within_def)
  moreover have "bs = segment_bytes crc s"
    using segment_reassemble [OF a(1) k_def [symmetric] a(2-11) refl] d b(2) by (simp add: segment_bytes_def Let_def)
  ultimately show ?rhs by blast
next
  assume r: ?rhs
  let ?rs = "sg_records s" and ?h = "sg_header s"
  define batch where "batch = batch_bytes crc ?rs"
  have wf: "wf_database_id (wh_database ?h)" and w: "segment_within l s" using r by auto
  have bs: "bs = segment_head crc ?h batch (length ?rs) @ to_le 4 (crc (segment_head crc ?h batch (length ?rs)))
      @ batch @ segment_foot @ to_le 4 (crc segment_foot)"
    using r by (simp add: segment_bytes_def Let_def batch_def)
  note F = segment_fields [OF wf, of crc batch "length ?rs", folded bs]
  have lb: "length batch = 24 + length (concat (map record_bytes ?rs))" by (simp add: batch_def length_batch_bytes)
  have u: "unat (of_nat (length batch) :: u32) = length batch" "unat (of_nat (length ?rs) :: u32) = length ?rs"
    using w unfolding lb segment_within_def batch_within_def by (auto simp del: of_nat_add)
  have d: "decode_batch crc alloc batch l = Ok ?rs"
    using w decode_batch_Ok [OF al] by (simp add: batch_def segment_within_def)
  have lim: "68 + length batch \<le> max_segment_bytes l" "24 \<le> length batch" "length batch < 4294967296"
    "length ?rs \<le> max_records l" "list_all (matches_header ?h) ?rs"
    using w unfolding lb by (auto simp: segment_within_def batch_within_def)
  then have "checked_add_usize 52 (length batch) = Some (52 + length batch)"
    "checked_add_usize (52 + length batch) 16 = Some (68 + length batch)" by (simp_all add: checked_add_usize_def)
  with F u d lim show ?lhs
    by (simp add: decode_segment_def SEGMENT_HEADER_LEN_def SEGMENT_FOOTER_LEN_def BATCH_HEADER_LEN_def
        list_all_iff list_ex_iff Let_def matches_header_def)
qed

subsection \<open>Properties\<close>

text \<open>Batch decoding is the exact inverse of batch encoding: with memory available, a byte string
  decodes to a list of records under given limits if and only if it is the encoding of that list under
  the same limits; so every accepted frame is canonical, and every encoded batch decodes to itself.
  The length prefix then announces exactly the frame, within the frame limit.\<close>

theorem batch_codec_exact:
  assumes "\<forall>n. alloc n"
  shows "(decode_batch crc alloc bs l = Ok rs \<longleftrightarrow> encode_batch crc alloc rs l = Ok bs)
     \<and> (encode_batch crc alloc rs l = Ok bs \<longrightarrow>
          frame_length crc bs l = Ok (length bs) \<and> length bs \<le> max_frame_bytes l)"
proof -
  have iff: "decode_batch crc alloc bs l = Ok rs \<longleftrightarrow> encode_batch crc alloc rs l = Ok bs"
    using decode_batch_Ok [OF assms] encode_batch_Ok [OF assms] by simp
  have "frame_length crc bs l = Ok (length bs)" if "decode_batch crc alloc bs l = Ok rs"
    using that by (auto simp: decode_batch_def rbind_eq_Ok split: if_splits)
  then show ?thesis using iff by (auto simp: frame_length_def Let_def split: if_splits)
qed

text \<open>A batch is encoded exactly when it respects every limit (records, frame size, and payload and
  causes of each record) and the widths of the length fields; the encoder then allocates and produces
  the announced length, which is the 24-byte header plus 68 bytes per record, 12 for an observed time,
  20 per cause and the payload.\<close>

theorem encode_batch_limits:
  assumes "\<forall>n. alloc n"
  shows "(is_ok (encode_batch crc alloc rs l) \<longleftrightarrow>
       length rs \<le> max_records l \<and> length rs < 2 ^ 32
       \<and> (\<forall>r \<in> set rs. length (se_payload r) \<le> max_payload_bytes l \<and> length (se_payload r) < 2 ^ 32
            \<and> length (se_causes r) \<le> max_causes l \<and> length (se_causes r) < 2 ^ 16)
       \<and> 24 + (\<Sum>r \<leftarrow> rs. 68 + (if et_observed (se_times r) \<noteq> None then 12 else 0)
            + 20 * length (se_causes r) + length (se_payload r)) \<le> min (max_frame_bytes l) (2 ^ 32 - 1))
     \<and> (\<forall>bs. encode_batch crc alloc rs l = Ok bs \<longrightarrow>
          length bs = 24 + (\<Sum>r \<leftarrow> rs. 68 + (if et_observed (se_times r) \<noteq> None then 12 else 0)
            + 20 * length (se_causes r) + length (se_payload r)))"
proof -
  have sum: "length (concat (map record_bytes rs)) = (\<Sum>r \<leftarrow> rs. 68 + (if et_observed (se_times r) \<noteq> None then 12 else 0)
            + 20 * length (se_causes r) + length (se_payload r))"
    by (induction rs) (simp_all add: record_bytes_length)
  have "is_ok (encode_batch crc alloc rs l) \<longleftrightarrow> (\<exists>bs. encode_batch crc alloc rs l = Ok bs)"
    by (cases "encode_batch crc alloc rs l") simp_all
  also have "\<dots> \<longleftrightarrow> batch_within l rs" by (simp add: encode_batch_Ok [OF assms])
  finally show ?thesis
    by (auto simp: batch_within_def record_within_def sum encode_batch_Ok [OF assms] length_batch_bytes)
qed

text \<open>C13: Segment decoding and log-header decoding are exact inverses of their encoders as well: a
  segment is accepted only if every byte of its header, batch and footer is what the encoder writes
  for the returned header and records, and all records belong to the header's source and epoch.\<close>

theorem segment_codec_exact:
  assumes "\<forall>n. alloc n" "wf_database_id (wh_database h)"
  shows "(decode_segment crc alloc bs l = Ok \<lparr>sg_header = h, sg_records = rs\<rparr> \<longleftrightarrow> encode_segment crc alloc h rs l = Ok bs)
     \<and> (decode_segment crc alloc bs l = Ok \<lparr>sg_header = h, sg_records = rs\<rparr> \<longrightarrow>
          length bs \<le> max_segment_bytes l \<and> (\<forall>r \<in> set rs. eid_source (se_id r) = wh_source h \<and> eid_epoch (se_id r) = wh_epoch h))
     \<and> (decode_wal_header crc bs = Ok h \<longleftrightarrow> encode_wal_header crc h = bs)"
proof -
  have len: "length (segment_bytes crc \<lparr>sg_header = h, sg_records = rs\<rparr>) = 92 + length (concat (map record_bytes rs))"
    using assms(2) by (simp add: segment_bytes_def Let_def length_batch_bytes)
  show ?thesis
    using assms(2) by (auto simp: decode_segment_Ok [OF assms(1)] encode_segment_Ok [OF assms(1)] wal_header_exact
        segment_within_def len list_all_iff matches_header_def)
qed

definition sample_event :: stored_event where
  "sample_event = \<lparr>se_id = \<lparr>eid_source = 1, eid_epoch = 2, eid_sequence = 3\<rparr>,
     se_entity = \<lparr>ent_shard = 7, ent_slot = 11, ent_generation = 13\<rparr>,
     se_times = \<lparr>et_valid = \<lparr>ts_clock = 1, ts_ticks = 100\<rparr>, et_observed = None, et_known = \<lparr>ts_clock = 2, ts_ticks = 200\<rparr>\<rparr>,
     se_schema = 9, se_payload = [1, 2, 3], se_causes = []\<rparr>"

lemma sample_event_within: "batch_within limits_default [sample_event]"
  by (simp add: batch_within_def record_within_def record_bytes_length limits_default_def sample_event_def)

theorem batch_codec_exact_witness:
  "decode_batch (\<lambda>_. 5) (\<lambda>_. True) (batch_bytes (\<lambda>_. 5) [sample_event]) limits_default = Ok [sample_event]"
  using batch_codec_exact [of "\<lambda>_. True" "\<lambda>_. 5" "batch_bytes (\<lambda>_. 5) [sample_event]" limits_default "[sample_event]"]
    encode_batch_Ok [of "\<lambda>_. True" "\<lambda>_. 5" "[sample_event]" limits_default] sample_event_within by simp

theorem encode_batch_limits_witness: "is_ok (encode_batch (\<lambda>_. 5) (\<lambda>_. True) [sample_event] limits_default)"
  using encode_batch_limits [of "\<lambda>_. True" "\<lambda>_. 5" "[sample_event]" limits_default]
  by (simp add: limits_default_def sample_event_def)

theorem segment_codec_exact_witness:
  "\<exists>bs. decode_segment (\<lambda>_. 5) (\<lambda>_. True) bs limits_default
     = Ok \<lparr>sg_header = \<lparr>wh_database = replicate 16 0, wh_source = 1, wh_epoch = 2\<rparr>, sg_records = [sample_event]\<rparr>"
proof -
  let ?h = "\<lparr>wh_database = replicate 16 0, wh_source = 1, wh_epoch = 2\<rparr>"
  have "segment_within limits_default \<lparr>sg_header = ?h, sg_records = [sample_event]\<rparr>"
    using sample_event_within
    by (simp add: segment_within_def matches_header_def record_bytes_length limits_default_def sample_event_def)
  then show ?thesis
    using segment_codec_exact [of "\<lambda>_. True" ?h "\<lambda>_. 5" _ limits_default "[sample_event]"]
    by (simp add: wf_database_id_def encode_segment_Ok)
qed

end
