(* ===== verification/Runtime_Shards.thy ===== *)
theory Runtime_Shards
  imports Core_Types "HOL-Library.Multiset"
begin

section \<open>Virtual-shard execution (\<open>temnion-runtime\<close>: router, partitions, coordinator)\<close>

text \<open>
  A \<open>HashMap\<close> is a map; where the code iterates over one, the iteration order is a list \<open>ks\<close> that
  enumerates its keys (\<open>enumerates\<close>), about which nothing else is known. \<open>sort_unstable_by\<close> returns
  some permutation that is sorted by the comparison, so the outcome of a fanout query is a predicate,
  \<open>fanout_outcome\<close>, and determinism is the statement that it has one solution.
\<close>

datatype runtime_error =
    RtInvalidConfiguration string
  | RtPartitionNotFound u32
  | RtTaskNotFound u64
  | RtDependencyCycleDetected
  | RtTaskPrerequisitesNotMet u64
  | RtSegmentNotFound u64
  | RtCapacityExceeded string

type_synonym virtual_shard_id = u32

datatype shard_router = Modular u32 | Explicit "(shard_id \<times> virtual_shard_id) list"

definition new_modular :: "u32 \<Rightarrow> (shard_router, runtime_error) result" where
  "new_modular n = (if n = 0 then Err (RtInvalidConfiguration ''partition count must be at least 1'') else Ok (Modular n))"

definition new_explicit :: "(shard_id \<times> virtual_shard_id) list \<Rightarrow> (shard_router, runtime_error) result" where
  "new_explicit m = (if m = [] then Err (RtInvalidConfiguration ''explicit mapping cannot be empty'') else Ok (Explicit m))"

text \<open>A remainder by zero would panic.\<close>

fun route :: "shard_router \<Rightarrow> shard_id \<Rightarrow> (virtual_shard_id, 'e) result" where
  "route (Modular n) shard = (if n = 0 then Panic else Ok (shard mod n))"
| "route (Explicit m) shard = Ok (case map_of m shard of Some v \<Rightarrow> v | None \<Rightarrow> 0)"

record runtime_event =
  re_id :: event_id
  re_entity :: entity_id
  re_schema :: schema_id
  re_times :: event_times
  re_payload :: bytes

record partition =
  vp_id :: virtual_shard_id
  vp_events :: "runtime_event list"
  vp_next_sequence :: u64

definition partition_new :: "virtual_shard_id \<Rightarrow> partition" where
  "partition_new i = \<lparr>vp_id = i, vp_events = [], vp_next_sequence = 0\<rparr>"

definition partition_append :: "partition \<Rightarrow> runtime_event \<Rightarrow> (u64 \<times> partition, 'e) result" where
  "partition_append p e =
     (let sq = vp_next_sequence p;
          e = e\<lparr>re_id := (re_id e)\<lparr>eid_sequence := sq\<rparr>\<rparr>
      in rbind (add_or_panic sq 1) (\<lambda>next. Ok (sq, p\<lparr>vp_events := vp_events p @ [e], vp_next_sequence := next\<rparr>)))"

record runtime_filter =
  rf_entity :: "entity_id option"
  rf_schema :: "schema_id option"
  rf_clock :: "clock_id option"
  rf_min_tick :: "u64 option"
  rf_max_tick :: "u64 option"

definition filter_matches :: "runtime_filter \<Rightarrow> runtime_event \<Rightarrow> bool" where
  "filter_matches f e \<longleftrightarrow>
     (case rf_entity f of Some x \<Rightarrow> re_entity e = x | None \<Rightarrow> True)
   \<and> (case rf_schema f of Some s \<Rightarrow> re_schema e = s | None \<Rightarrow> True)
   \<and> (case rf_clock f of None \<Rightarrow> True
      | Some c \<Rightarrow> ts_clock (et_valid (re_times e)) = c
          \<and> (case rf_min_tick f of Some t \<Rightarrow> \<not> ts_ticks (et_valid (re_times e)) < t | None \<Rightarrow> True)
          \<and> (case rf_max_tick f of Some t \<Rightarrow> \<not> ts_ticks (et_valid (re_times e)) > t | None \<Rightarrow> True))"

record coordinator =
  co_router :: shard_router
  co_partitions :: "virtual_shard_id \<rightharpoonup> partition"

definition coordinator_new :: "shard_router \<Rightarrow> virtual_shard_id list \<Rightarrow> coordinator" where
  "coordinator_new r ids = \<lparr>co_router = r, co_partitions = foldl (\<lambda>m i. m(i \<mapsto> partition_new i)) Map.empty ids\<rparr>"

definition coordinator_append :: "coordinator \<Rightarrow> runtime_event
    \<Rightarrow> (virtual_shard_id \<times> u64 \<times> coordinator, runtime_error) result" where
  "coordinator_append c e =
     rbind (route (co_router c) (ent_shard (re_entity e))) (\<lambda>target.
     rbind (ok_or (co_partitions c target) (RtPartitionNotFound target)) (\<lambda>p.
     rbind (partition_append p e) (\<lambda>(sq, p').
     Ok (target, sq, c\<lparr>co_partitions := (co_partitions c)(target \<mapsto> p')\<rparr>))))"

definition enumerates :: "'k list \<Rightarrow> ('k \<rightharpoonup> 'v) \<Rightarrow> bool" where
  "enumerates ks m \<longleftrightarrow> distinct ks \<and> set ks = dom m"

definition fanout_collect :: "virtual_shard_id list \<Rightarrow> coordinator \<Rightarrow> runtime_filter \<Rightarrow> runtime_event list" where
  "fanout_collect ks c f =
     concat (map (\<lambda>k. case co_partitions c k of Some p \<Rightarrow> filter (filter_matches f) (vp_events p) | None \<Rightarrow> []) ks)"

definition fanout_key :: "runtime_event \<Rightarrow> u32 \<times> u64 \<times> u32 \<times> u64 \<times> u64" where
  "fanout_key e = (ts_clock (et_valid (re_times e)), ts_ticks (et_valid (re_times e)),
     eid_source (re_id e), eid_epoch (re_id e), eid_sequence (re_id e))"

definition fanout_outcome :: "virtual_shard_id list \<Rightarrow> coordinator \<Rightarrow> runtime_filter \<Rightarrow> runtime_event list \<Rightarrow> bool" where
  "fanout_outcome ks c f rs \<longleftrightarrow> mset rs = mset (fanout_collect ks c f) \<and> sorted (map fanout_key rs)"

definition total_events :: "virtual_shard_id list \<Rightarrow> coordinator \<Rightarrow> usize" where
  "total_events ks c = (\<Sum>k \<leftarrow> ks. case co_partitions c k of Some p \<Rightarrow> length (vp_events p) | None \<Rightarrow> 0)"

subsection \<open>Invariant of a coordinator\<close>

text \<open>Partition \<open>k\<close> is stored under its id, numbers its events from 0 and holds only events routed to
  it.\<close>

definition coordinator_inv :: "coordinator \<Rightarrow> bool" where
  "coordinator_inv c \<longleftrightarrow> (\<forall>k p. co_partitions c k = Some p \<longrightarrow>
     vp_id p = k \<and> unat (vp_next_sequence p) = length (vp_events p)
   \<and> (\<forall>i < length (vp_events p). unat (eid_sequence (re_id (vp_events p ! i))) = i
        \<and> route (co_router c) (ent_shard (re_entity (vp_events p ! i))) = (Ok k :: (_, runtime_error) result)))"

lemma coordinator_new_partitions: "co_partitions (coordinator_new r ids) k = (if k \<in> set ids then Some (partition_new k) else None)"
proof -
  have "foldl (\<lambda>m i. m(i \<mapsto> partition_new i)) m ids k = (if k \<in> set ids then Some (partition_new k) else m k)" for m
    by (induction ids arbitrary: m) auto
  then show ?thesis by (simp add: coordinator_new_def)
qed

lemma coordinator_inv_new: "coordinator_inv (coordinator_new r ids)"
  by (auto simp: coordinator_inv_def coordinator_new_partitions partition_new_def)

lemma coordinator_append_Ok:
  assumes "coordinator_append c e = Ok (k, sq, c')"
  obtains p where "route (co_router c) (ent_shard (re_entity e)) = (Ok k :: (_, runtime_error) result)"
    "co_partitions c k = Some p" "sq = vp_next_sequence p" "unat sq + 1 < 2 ^ 64" "co_router c' = co_router c"
    "co_partitions c' = (co_partitions c)(k \<mapsto>
       p\<lparr>vp_events := vp_events p @ [e\<lparr>re_id := (re_id e)\<lparr>eid_sequence := sq\<rparr>\<rparr>], vp_next_sequence := sq + 1\<rparr>)"
  using assms
  by (auto simp: coordinator_append_def partition_append_def result_ok Let_def add_or_panic_def checked_add_def
      split: if_splits option.splits)

lemma coordinator_inv_append:
  assumes inv: "coordinator_inv c" and app: "coordinator_append c e = Ok (k, sq, c')"
  shows "coordinator_inv c'"
proof -
  obtain p where p: "route (co_router c) (ent_shard (re_entity e)) = (Ok k :: (_, runtime_error) result)"
    "co_partitions c k = Some p" "sq = vp_next_sequence p" "unat sq + 1 < 2 ^ 64" "co_router c' = co_router c"
    "co_partitions c' = (co_partitions c)(k \<mapsto>
       p\<lparr>vp_events := vp_events p @ [e\<lparr>re_id := (re_id e)\<lparr>eid_sequence := sq\<rparr>\<rparr>], vp_next_sequence := sq + 1\<rparr>)"
    by (rule coordinator_append_Ok [OF app])
  have old: "vp_id p = k" "unat (vp_next_sequence p) = length (vp_events p)"
    "\<And>i. i < length (vp_events p) \<Longrightarrow> unat (eid_sequence (re_id (vp_events p ! i))) = i
        \<and> route (co_router c) (ent_shard (re_entity (vp_events p ! i))) = (Ok k :: (_, runtime_error) result)"
    using inv p(2) unfolding coordinator_inv_def by blast+
  have nxt: "unat (sq + 1) = Suc (length (vp_events p))"
    using p(3,4) old(2) by (simp add: unat_word_ariths)
  show ?thesis
    unfolding coordinator_inv_def
  proof (intro allI impI)
    fix k' p' assume k': "co_partitions c' k' = Some p'"
    show "vp_id p' = k' \<and> unat (vp_next_sequence p') = length (vp_events p')
       \<and> (\<forall>i < length (vp_events p'). unat (eid_sequence (re_id (vp_events p' ! i))) = i
          \<and> route (co_router c') (ent_shard (re_entity (vp_events p' ! i))) = (Ok k' :: (_, runtime_error) result))"
    proof (cases "k' = k")
      case True
      then have p': "p' = p\<lparr>vp_events := vp_events p @ [e\<lparr>re_id := (re_id e)\<lparr>eid_sequence := sq\<rparr>\<rparr>], vp_next_sequence := sq + 1\<rparr>"
        using k' p(6) by simp
      show ?thesis
        using old nxt p(1,3,5) True by (auto simp: p' nth_append less_Suc_eq)
    next
      case False
      then have "co_partitions c k' = Some p'" using k' p(6) by simp
      then show ?thesis using inv p(5) unfolding coordinator_inv_def by simp
    qed
  qed
qed

fun append_all :: "coordinator \<Rightarrow> runtime_event list \<Rightarrow> coordinator" where
  "append_all c [] = c"
| "append_all c (e # es) = (case coordinator_append c e of Ok (_, _, c') \<Rightarrow> append_all c' es | _ \<Rightarrow> append_all c es)"

lemma coordinator_inv_append_all: "coordinator_inv c \<Longrightarrow> coordinator_inv (append_all c es)"
proof (induction es arbitrary: c)
  case (Cons e es)
  show ?case
  proof (cases "coordinator_append c e")
    case (Ok r)
    then obtain k sq c' where "coordinator_append c e = Ok (k, sq, c')" by (cases r) auto
    then show ?thesis using Cons coordinator_inv_append [of c e k sq c'] by simp
  qed (use Cons in simp_all)
qed simp

subsection \<open>Fanout\<close>

lemma mset_concat_map: "mset (concat (map g ks)) = (\<Sum>k \<in># mset ks. mset (g k))"
  by (induction ks) simp_all

lemma fanout_collect_mset:
  assumes "enumerates ks (co_partitions c)" "enumerates ks' (co_partitions c)"
  shows "mset (fanout_collect ks c f) = mset (fanout_collect ks' c f)"
proof -
  have "mset ks = mset ks'" using assms set_eq_iff_mset_eq_distinct [of ks ks'] by (simp add: enumerates_def)
  then show ?thesis unfolding fanout_collect_def mset_concat_map by simp
qed

lemma set_fanout_collect:
  "enumerates ks (co_partitions c) \<Longrightarrow>
     set (fanout_collect ks c f) = {e. \<exists>k p. co_partitions c k = Some p \<and> e \<in> set (vp_events p) \<and> filter_matches f e}"
  unfolding enumerates_def fanout_collect_def by (auto split: option.splits) (metis domI option.inject)+

lemma sorted_key_unique:
  assumes "mset xs = mset ys" "sorted (map k xs)" "sorted (map k ys)" "inj_on k (set xs)"
  shows "xs = ys"
proof -
  have "map k xs = map k ys"
    using assms by (metis mset_map sorted_list_of_multiset_mset sorted_sort_id)
  moreover have "set xs = set ys" using assms(1) by (metis mset_eq_setD)
  ultimately show ?thesis using assms(4) by (metis inj_on_map_eq_map sup.idem)
qed

text \<open>Keys of one partition are distinct, because its sequence numbers are.\<close>

lemma partition_keys_inj:
  assumes "coordinator_inv c" "co_partitions c k = Some p" "x \<in> set (vp_events p)" "y \<in> set (vp_events p)"
    "fanout_key x = fanout_key y"
  shows "x = y"
proof -
  obtain i j where ij: "i < length (vp_events p)" "x = vp_events p ! i" "j < length (vp_events p)" "y = vp_events p ! j"
    using assms(3,4) by (metis in_set_conv_nth)
  moreover have "eid_sequence (re_id x) = eid_sequence (re_id y)" using assms(5) by (simp add: fanout_key_def)
  ultimately have "i = j" using assms(1,2) unfolding coordinator_inv_def by metis
  then show ?thesis using ij by simp
qed

subsection \<open>Properties\<close>

text \<open>A fanout query returns exactly the matching events of all partitions, each once, ordered by
  valid clock, valid tick, source, epoch and sequence; and if matching events of different partitions
  never agree on that key, its answer does not depend on the hash order or on the sort.\<close>

theorem fanout_deterministic:
  assumes c: "c = append_all (coordinator_new r ids) es"
    and ks: "enumerates ks (co_partitions c)" "enumerates ks' (co_partitions c)"
    and o: "fanout_outcome ks c f rs"
  shows "set rs = {e. \<exists>k p. co_partitions c k = Some p \<and> e \<in> set (vp_events p) \<and> filter_matches f e}
     \<and> sorted (map fanout_key rs)
     \<and> ((\<forall>k p k' p' x y. co_partitions c k = Some p \<and> co_partitions c k' = Some p' \<and> k \<noteq> k'
            \<and> x \<in> set (vp_events p) \<and> y \<in> set (vp_events p') \<longrightarrow> fanout_key x \<noteq> fanout_key y)
         \<longrightarrow> (\<forall>rs'. fanout_outcome ks' c f rs' \<longrightarrow> rs' = rs))"
proof -
  have inv: "coordinator_inv c" unfolding c by (rule coordinator_inv_append_all [OF coordinator_inv_new])
  have rs: "mset rs = mset (fanout_collect ks c f)" "sorted (map fanout_key rs)" using o by (simp_all add: fanout_outcome_def)
  then have set: "set rs = {e. \<exists>k p. co_partitions c k = Some p \<and> e \<in> set (vp_events p) \<and> filter_matches f e}"
    using set_fanout_collect [OF ks(1)] by (metis mset_eq_setD)
  have "rs' = rs" if cross: "\<forall>k p k' p' x y. co_partitions c k = Some p \<and> co_partitions c k' = Some p' \<and> k \<noteq> k'
            \<and> x \<in> set (vp_events p) \<and> y \<in> set (vp_events p') \<longrightarrow> fanout_key x \<noteq> fanout_key y"
    and o': "fanout_outcome ks' c f rs'" for rs'
  proof -
    have "inj_on fanout_key (set rs)"
      unfolding inj_on_def set using cross partition_keys_inj [OF inv] by (smt (verit) mem_Collect_eq option.inject)
    moreover have "mset rs = mset rs'" "sorted (map fanout_key rs')"
      using o' rs(1) fanout_collect_mset [OF ks] by (simp_all add: fanout_outcome_def)
    ultimately show ?thesis using sorted_key_unique rs(2) by metis
  qed
  with set rs(2) show ?thesis by blast
qed

definition sample_runtime_event :: "shard_id \<Rightarrow> runtime_event" where
  "sample_runtime_event s = \<lparr>re_id = \<lparr>eid_source = 1, eid_epoch = 1, eid_sequence = 0\<rparr>,
     re_entity = \<lparr>ent_shard = s, ent_slot = 0, ent_generation = 0\<rparr>, re_schema = 1,
     re_times = \<lparr>et_valid = \<lparr>ts_clock = 1, ts_ticks = 5\<rparr>, et_observed = None, et_known = \<lparr>ts_clock = 1, ts_ticks = 5\<rparr>\<rparr>,
     re_payload = []\<rparr>"

definition no_filter :: runtime_filter where
  "no_filter = \<lparr>rf_entity = None, rf_schema = None, rf_clock = None, rf_min_tick = None, rf_max_tick = None\<rparr>"

lemma two_partition_run:
  "co_partitions (append_all (coordinator_new (Modular 2) [0, 1]) [sample_runtime_event 0, sample_runtime_event 1])
     = [0 \<mapsto> \<lparr>vp_id = 0, vp_events = [sample_runtime_event 0], vp_next_sequence = 1\<rparr>,
        1 \<mapsto> \<lparr>vp_id = 1, vp_events = [sample_runtime_event 1], vp_next_sequence = 1\<rparr>]"
  by (simp add: coordinator_append_def partition_append_def coordinator_new_def partition_new_def
      sample_runtime_event_def add_or_panic_def checked_add_def)

lemma two_partition_collect:
  "fanout_collect [0, 1] (append_all (coordinator_new (Modular 2) [0, 1]) [sample_runtime_event 0, sample_runtime_event 1]) no_filter
     = [sample_runtime_event 0, sample_runtime_event 1]"
  unfolding fanout_collect_def two_partition_run by (simp add: filter_matches_def no_filter_def)

text \<open>The order is not total across partitions: each partition numbers its events from 0, so two
  events of one source and one valid time, routed to different partitions, have equal keys, and both
  orders of them are possible answers of the same query.\<close>

theorem fanout_order_ambiguous:
  "\<exists>c rs rs'. c = append_all (coordinator_new (Modular 2) [0, 1]) [sample_runtime_event 0, sample_runtime_event 1]
     \<and> enumerates [0, 1] (co_partitions c) \<and> rs \<noteq> rs'
     \<and> fanout_outcome [0, 1] c no_filter rs \<and> fanout_outcome [0, 1] c no_filter rs'"
proof -
  let ?c = "append_all (coordinator_new (Modular 2) [0, 1]) [sample_runtime_event 0, sample_runtime_event 1]"
  have "enumerates [0, 1] (co_partitions ?c)"
    unfolding enumerates_def two_partition_run by auto
  moreover have "fanout_outcome [0, 1] ?c no_filter [sample_runtime_event 0, sample_runtime_event 1]"
    "fanout_outcome [0, 1] ?c no_filter [sample_runtime_event 1, sample_runtime_event 0]"
    unfolding fanout_outcome_def two_partition_collect by (simp_all add: fanout_key_def sample_runtime_event_def)
  moreover have "[sample_runtime_event 0, sample_runtime_event 1] \<noteq> [sample_runtime_event 1, sample_runtime_event 0]"
    by (simp add: sample_runtime_event_def)
  ultimately show ?thesis by blast
qed

theorem fanout_deterministic_witness:
  "sorted (map fanout_key [sample_runtime_event 0])
   \<and> fanout_outcome [0] (append_all (coordinator_new (Modular 1) [0]) [sample_runtime_event 0]) no_filter [sample_runtime_event 0]"
proof -
  let ?c = "append_all (coordinator_new (Modular 1) [0]) [sample_runtime_event 0]"
  have p: "co_partitions ?c = [0 \<mapsto> \<lparr>vp_id = 0, vp_events = [sample_runtime_event 0], vp_next_sequence = 1\<rparr>]"
    by (simp add: coordinator_append_def partition_append_def coordinator_new_def partition_new_def
      sample_runtime_event_def add_or_panic_def checked_add_def)
  have ks: "enumerates [0] (co_partitions ?c)" unfolding enumerates_def p by simp
  have out: "fanout_outcome [0] ?c no_filter [sample_runtime_event 0]"
    unfolding fanout_outcome_def fanout_collect_def p by (simp add: filter_matches_def no_filter_def)
  show ?thesis using fanout_deterministic [OF refl ks ks out] out by blast
qed

end
