(* ===== verification/Runtime_Tasks.thy ===== *)
theory Runtime_Tasks
  imports Runtime_Shards
begin

section \<open>Background task graph and foreground pressure (\<open>temnion-runtime\<close>: \<open>TaskDag\<close>, \<open>PressureController\<close>)\<close>

text \<open>
  Tasks are a \<open>HashMap\<close> from ids to nodes, so the operations that iterate take the iteration orders
  \<open>ks\<close> (of the tasks) and \<open>qs\<close> (of the degree table) as arguments. \<open>has_cycle\<close> is Kahn's algorithm on
  a stack; its loop is a partial function whose \<open>None\<close> is non-termination, and a missing key or a
  degree that would go below zero is a \<open>Panic\<close>. An operation that takes \<open>&mut self\<close> returns its result
  and the new state, on errors too.
\<close>

datatype task_class = Seal | Compress | Index | Summary | Maintenance

fun class_discriminant :: "task_class \<Rightarrow> nat" where
  "class_discriminant Seal = 4"
| "class_discriminant Compress = 3"
| "class_discriminant Index = 2"
| "class_discriminant Summary = 1"
| "class_discriminant Maintenance = 0"

text \<open>The derived order of the enum is the order of its discriminants.\<close>

instantiation task_class :: linorder
begin

definition less_eq_task_class :: "task_class \<Rightarrow> task_class \<Rightarrow> bool" where
  "a \<le> b \<longleftrightarrow> class_discriminant a \<le> class_discriminant b"

definition less_task_class :: "task_class \<Rightarrow> task_class \<Rightarrow> bool" where
  "a < b \<longleftrightarrow> class_discriminant a < class_discriminant b"

instance
proof
  fix a b :: task_class
  show "a \<le> b \<Longrightarrow> b \<le> a \<Longrightarrow> a = b"
    by (cases a; cases b) (simp_all add: less_eq_task_class_def)
qed (auto simp: less_eq_task_class_def less_task_class_def)

end

fun priority_weight :: "task_class \<Rightarrow> u32" where
  "priority_weight Seal = 100"
| "priority_weight Compress = 80"
| "priority_weight Index = 60"
| "priority_weight Summary = 40"
| "priority_weight Maintenance = 20"

datatype task_status = Pending | Running | Completed | Failed

record task_node =
  tn_id :: u64
  tn_class :: task_class
  tn_description :: string
  tn_status :: task_status
  tn_dependencies :: "u64 list"

record task_dag =
  td_tasks :: "u64 \<rightharpoonup> task_node"
  td_next_id :: u64

definition dag_new :: task_dag where
  "dag_new = \<lparr>td_tasks = Map.empty, td_next_id = 0\<rparr>"

subsection \<open>Cycle detection\<close>

definition in_degree_init :: "u64 list \<Rightarrow> u64 \<rightharpoonup> usize" where
  "in_degree_init ks = foldl (\<lambda>m i. m(i \<mapsto> 0)) Map.empty ks"

definition adj_init :: "u64 list \<Rightarrow> u64 \<rightharpoonup> u64 list" where
  "adj_init ks = foldl (\<lambda>m i. m(i \<mapsto> [])) Map.empty ks"

definition add_edge :: "u64 \<Rightarrow> u64 \<Rightarrow> (u64 \<rightharpoonup> u64 list) \<times> (u64 \<rightharpoonup> usize) \<Rightarrow> (u64 \<rightharpoonup> u64 list) \<times> (u64 \<rightharpoonup> usize)" where
  "add_edge node dep st = (case st of (adj, deg) \<Rightarrow>
     (adj(dep \<mapsto> (case adj dep of Some vs \<Rightarrow> vs | None \<Rightarrow> []) @ [node]),
      deg(node \<mapsto> (case deg node of Some n \<Rightarrow> n | None \<Rightarrow> 0) + 1)))"

definition add_node_edges :: "(u64 \<rightharpoonup> task_node) \<Rightarrow> u64 \<Rightarrow> (u64 \<rightharpoonup> u64 list) \<times> (u64 \<rightharpoonup> usize) \<Rightarrow> (u64 \<rightharpoonup> u64 list) \<times> (u64 \<rightharpoonup> usize)" where
  "add_node_edges tasks k st = (case tasks k of Some node \<Rightarrow> fold (add_edge (tn_id node)) (tn_dependencies node) st | None \<Rightarrow> st)"

fun dag_relax :: "u64 list \<Rightarrow> u64 list \<Rightarrow> (u64 \<rightharpoonup> usize) \<Rightarrow> (u64 list \<times> (u64 \<rightharpoonup> usize), runtime_error) result" where
  "dag_relax [] stack deg = Ok (stack, deg)"
| "dag_relax (v # vs) stack deg = (case deg v of
       None \<Rightarrow> Panic
     | Some n \<Rightarrow> if n = 0 then Panic
                 else dag_relax vs (if n - 1 = 0 then stack @ [v] else stack) (deg(v \<mapsto> n - 1)))"

partial_function (option) dag_kahn :: "(u64 \<rightharpoonup> u64 list) \<Rightarrow> u64 list \<Rightarrow> (u64 \<rightharpoonup> usize) \<Rightarrow> usize \<Rightarrow> (usize, runtime_error) result option" where
  "dag_kahn adj stack deg visited = (case vec_pop stack of
       None \<Rightarrow> Some (Ok visited)
     | Some (u, stack') \<Rightarrow> (case adj u of
         None \<Rightarrow> Some Panic
       | Some vs \<Rightarrow> (case dag_relax vs stack' deg of
           Ok (stack'', deg') \<Rightarrow> dag_kahn adj stack'' deg' (visited + 1)
         | Err e \<Rightarrow> Some (Err e)
         | Panic \<Rightarrow> Some Panic)))"

definition has_cycle :: "u64 list \<Rightarrow> u64 list \<Rightarrow> (u64 \<rightharpoonup> task_node) \<Rightarrow> (bool, runtime_error) result option" where
  "has_cycle ks qs tasks =
     (let (adj, deg) = fold (add_node_edges tasks) ks (adj_init ks, in_degree_init ks);
          queue = filter (\<lambda>i. deg i = Some 0) qs
      in map_option (\<lambda>r. rbind r (\<lambda>visited. Ok (visited \<noteq> length ks))) (dag_kahn adj queue deg 0))"

subsection \<open>Operations\<close>

text \<open>The first missing dependency.\<close>

definition add_task :: "u64 list \<Rightarrow> u64 list \<Rightarrow> task_dag \<Rightarrow> task_class \<Rightarrow> string \<Rightarrow> u64 list
    \<Rightarrow> ((u64, runtime_error) result \<times> task_dag) option" where
  "add_task ks qs d cls desc deps =
     (case List.find (\<lambda>dep. td_tasks d dep = None) deps of
        Some dep \<Rightarrow> Some (Err (RtTaskNotFound dep), d)
      | None \<Rightarrow>
          let i = td_next_id d;
              node = \<lparr>tn_id = i, tn_class = cls, tn_description = desc, tn_status = Pending, tn_dependencies = deps\<rparr>;
              tasks = (td_tasks d)(i \<mapsto> node)
          in case checked_add i 1 of
               None \<Rightarrow> Some (Panic, d)
             | Some nxt \<Rightarrow> map_option (\<lambda>r. case r of
                   Ok True \<Rightarrow> (Err RtDependencyCycleDetected, \<lparr>td_tasks = tasks(i := None), td_next_id = nxt\<rparr>)
                 | Ok False \<Rightarrow> (Ok i, \<lparr>td_tasks = tasks, td_next_id = nxt\<rparr>)
                 | Err e \<Rightarrow> (Err e, \<lparr>td_tasks = tasks, td_next_id = nxt\<rparr>)
                 | Panic \<Rightarrow> (Panic, \<lparr>td_tasks = tasks, td_next_id = nxt\<rparr>)) (has_cycle ks qs tasks))"

text \<open>\<open>&self.tasks[&dep]\<close> panics on a missing key.\<close>

definition dep_completed :: "(u64 \<rightharpoonup> task_node) \<Rightarrow> u64 \<Rightarrow> (bool, runtime_error) result" where
  "dep_completed tasks dep = (case tasks dep of None \<Rightarrow> Panic | Some n \<Rightarrow> Ok (tn_status n = Completed))"

fun all_deps_done :: "(u64 \<rightharpoonup> task_node) \<Rightarrow> u64 list \<Rightarrow> (bool, runtime_error) result" where
  "all_deps_done tasks [] = Ok True"
| "all_deps_done tasks (dep # deps) =
     rbind (dep_completed tasks dep) (\<lambda>b. if b then all_deps_done tasks deps else Ok False)"

definition set_status :: "task_dag \<Rightarrow> u64 \<Rightarrow> task_node \<Rightarrow> task_status \<Rightarrow> task_dag" where
  "set_status d i node st = d\<lparr>td_tasks := (td_tasks d)(i \<mapsto> node\<lparr>tn_status := st\<rparr>)\<rparr>"

definition mark_running :: "task_dag \<Rightarrow> u64 \<Rightarrow> (task_dag, runtime_error) result" where
  "mark_running d i =
     rbind (ok_or (td_tasks d i) (RtTaskNotFound i)) (\<lambda>node.
     rbind (all_deps_done (td_tasks d) (tn_dependencies node)) (\<lambda>b.
     if b then Ok (set_status d i node Running) else Err (RtTaskPrerequisitesNotMet i)))"

definition mark_completed :: "task_dag \<Rightarrow> u64 \<Rightarrow> (task_dag, runtime_error) result" where
  "mark_completed d i = rbind (ok_or (td_tasks d i) (RtTaskNotFound i)) (\<lambda>node. Ok (set_status d i node Completed))"

definition mark_failed :: "task_dag \<Rightarrow> u64 \<Rightarrow> (task_dag, runtime_error) result" where
  "mark_failed d i = rbind (ok_or (td_tasks d i) (RtTaskNotFound i)) (\<lambda>node. Ok (set_status d i node Failed))"

definition ready_nodes :: "u64 list \<Rightarrow> task_dag \<Rightarrow> (task_node list, runtime_error) result" where
  "ready_nodes ks d =
     rbind (map_result (\<lambda>k. case td_tasks d k of
         None \<Rightarrow> Ok []
       | Some node \<Rightarrow> if tn_status node \<noteq> Pending then Ok []
                      else rbind (all_deps_done (td_tasks d) (tn_dependencies node)) (\<lambda>b. Ok (if b then [node] else []))) ks)
     (\<lambda>nss. Ok (concat nss))"

text \<open>The sort key: class descending, then id ascending. Ids are unique, so the unstable sort has one
  possible result.\<close>

definition ready_key :: "task_node \<Rightarrow> nat \<times> u64" where
  "ready_key n = (4 - class_discriminant (tn_class n), tn_id n)"

definition ready_tasks :: "u64 list \<Rightarrow> task_dag \<Rightarrow> (u64 list, runtime_error) result" where
  "ready_tasks ks d = rbind (ready_nodes ks d) (\<lambda>ns. Ok (map tn_id (sort_key ready_key ns)))"

subsection \<open>Foreground pressure\<close>

datatype pressure = Normal | Moderate | High | Critical

record pressure_controller =
  pc_foreground_queue_limit :: usize
  pc_current_queue_depth :: usize

definition pressure_new :: "usize \<Rightarrow> pressure_controller" where
  "pressure_new lim = \<lparr>pc_foreground_queue_limit = lim, pc_current_queue_depth = 0\<rparr>"

definition set_queue_depth :: "pressure_controller \<Rightarrow> usize \<Rightarrow> pressure_controller" where
  "set_queue_depth c depth = c\<lparr>pc_current_queue_depth := depth\<rparr>"

definition pressure_level :: "pressure_controller \<Rightarrow> (pressure, 'e) result" where
  "pressure_level c =
     (if pc_foreground_queue_limit c = 0 then Ok Normal
      else case checked_mul_usize (pc_current_queue_depth c) 100 of
        None \<Rightarrow> Panic
      | Some x \<Rightarrow> let ratio = x div pc_foreground_queue_limit c in
          Ok (if ratio \<ge> 90 then Critical else if ratio \<ge> 70 then High else if ratio \<ge> 40 then Moderate else Normal))"

definition should_throttle :: "pressure_controller \<Rightarrow> (bool, 'e) result" where
  "should_throttle c = rbind (pressure_level c) (\<lambda>l. Ok (l = High \<or> l = Critical))"

definition should_yield :: "pressure_controller \<Rightarrow> task_class \<Rightarrow> (bool, 'e) result" where
  "should_yield c cls = rbind (pressure_level c) (\<lambda>l. Ok (case l of
       Critical \<Rightarrow> True | High \<Rightarrow> cls \<noteq> Seal | Moderate \<Rightarrow> cls \<le> Index | Normal \<Rightarrow> False))"

subsection \<open>Degrees and edges\<close>

lemma foldl_upd_const: "foldl (\<lambda>m i. m(i \<mapsto> x)) m ks k = (if k \<in> set ks then Some x else m k)"
  by (induction ks arbitrary: m) auto

lemma in_degree_init_get: "in_degree_init ks k = (if k \<in> set ks then Some 0 else None)"
  by (simp add: in_degree_init_def foldl_upd_const)

lemma adj_init_get: "adj_init ks k = (if k \<in> set ks then Some [] else None)"
  by (simp add: adj_init_def foldl_upd_const)

definition deps_of :: "(u64 \<rightharpoonup> task_node) \<Rightarrow> u64 \<Rightarrow> u64 list" where
  "deps_of tasks k = (case tasks k of Some n \<Rightarrow> tn_dependencies n | None \<Rightarrow> [])"

text \<open>The well-formed task graphs: nodes stored under their ids, dependencies present and older.\<close>

definition tasks_wf :: "(u64 \<rightharpoonup> task_node) \<Rightarrow> bool" where
  "tasks_wf tasks \<longleftrightarrow> (\<forall>k n. tasks k = Some n \<longrightarrow> tn_id n = k \<and> (\<forall>dep \<in> set (tn_dependencies n). dep \<in> dom tasks \<and> dep < k))"

lemma tasks_wf_deps: "tasks_wf tasks \<Longrightarrow> d \<in> set (deps_of tasks k) \<Longrightarrow> d \<in> dom tasks \<and> d < k"
  unfolding tasks_wf_def deps_of_def by (cases "tasks k") force+

definition list_at :: "(u64 \<rightharpoonup> u64 list) \<Rightarrow> u64 \<Rightarrow> u64 list" where
  "list_at adj u = (case adj u of Some vs \<Rightarrow> vs | None \<Rightarrow> [])"

definition nat_at :: "(u64 \<rightharpoonup> usize) \<Rightarrow> u64 \<Rightarrow> usize" where
  "nat_at deg v = (case deg v of Some n \<Rightarrow> n | None \<Rightarrow> 0)"

lemma add_edge_at:
  "list_at (fst (add_edge node dep st)) u = (if u = dep then list_at (fst st) u @ [node] else list_at (fst st) u)"
  "nat_at (snd (add_edge node dep st)) v = (if v = node then nat_at (snd st) v + 1 else nat_at (snd st) v)"
  "dom (fst (add_edge node dep st)) = insert dep (dom (fst st))"
  "dom (snd (add_edge node dep st)) = insert node (dom (snd st))"
  by (auto simp: add_edge_def list_at_def nat_at_def split: prod.splits)

lemma fold_add_edge:
  "count_list (list_at (fst (fold (add_edge node) deps st)) u) v
     = count_list (list_at (fst st) u) v + (if v = node then count_list deps u else 0)"
  "nat_at (snd (fold (add_edge node) deps st)) v = nat_at (snd st) v + (if v = node then length deps else 0)"
  "dom (fst (fold (add_edge node) deps st)) = dom (fst st) \<union> set deps"
  "node \<in> dom (snd st) \<Longrightarrow> dom (snd (fold (add_edge node) deps st)) = dom (snd st)"
  by (induction deps arbitrary: st) (auto simp: add_edge_at)

lemma add_node_edges_at:
  assumes "tasks_wf tasks" "k \<in> dom tasks" "dom (fst st) = dom tasks" "dom (snd st) = dom tasks"
  shows "count_list (list_at (fst (add_node_edges tasks k st)) u) v
     = count_list (list_at (fst st) u) v + (if v = k then count_list (deps_of tasks k) u else 0)"
  "nat_at (snd (add_node_edges tasks k st)) v = nat_at (snd st) v + (if v = k then length (deps_of tasks k) else 0)"
  "dom (fst (add_node_edges tasks k st)) = dom tasks" "dom (snd (add_node_edges tasks k st)) = dom tasks"
proof -
  obtain node where node: "tasks k = Some node" "tn_id node = k" using assms(1,2) by (auto simp: tasks_wf_def)
  then have n: "add_node_edges tasks k st = fold (add_edge k) (deps_of tasks k) st"
    by (simp add: add_node_edges_def deps_of_def)
  show "count_list (list_at (fst (add_node_edges tasks k st)) u) v
     = count_list (list_at (fst st) u) v + (if v = k then count_list (deps_of tasks k) u else 0)"
    "nat_at (snd (add_node_edges tasks k st)) v = nat_at (snd st) v + (if v = k then length (deps_of tasks k) else 0)"
    unfolding n by (simp_all add: fold_add_edge)
  show "dom (snd (add_node_edges tasks k st)) = dom tasks"
    unfolding n using assms by (simp add: fold_add_edge(4))
  show "dom (fst (add_node_edges tasks k st)) = dom tasks"
    unfolding n fold_add_edge(3) using assms(3) tasks_wf_deps [OF assms(1)] by blast
qed

lemma fold_add_node_edges:
  assumes "tasks_wf tasks" "set ks \<subseteq> dom tasks" "distinct ks" "dom (fst st) = dom tasks" "dom (snd st) = dom tasks"
  shows "count_list (list_at (fst (fold (add_node_edges tasks) ks st)) u) v
     = count_list (list_at (fst st) u) v + (if v \<in> set ks then count_list (deps_of tasks v) u else 0)
   \<and> nat_at (snd (fold (add_node_edges tasks) ks st)) v = nat_at (snd st) v + (if v \<in> set ks then length (deps_of tasks v) else 0)
   \<and> dom (fst (fold (add_node_edges tasks) ks st)) = dom tasks \<and> dom (snd (fold (add_node_edges tasks) ks st)) = dom tasks"
  using assms(2-5)
proof (induction ks arbitrary: st)
  case (Cons k ks)
  then have k: "k \<in> dom tasks" by simp
  note A = add_node_edges_at [OF assms(1) k Cons.prems(3,4)]
  from Cons.IH [of "add_node_edges tasks k st"] Cons.prems A show ?case by auto
qed simp

lemma dag_edges:
  assumes wf: "tasks_wf tasks" and ks: "enumerates ks tasks"
    and st: "fold (add_node_edges tasks) ks (adj_init ks, in_degree_init ks) = (adj, deg)"
  shows "dom adj = dom tasks" "count_list (list_at adj u) v = count_list (deps_of tasks v) u"
    "deg v = (if v \<in> dom tasks then Some (length (deps_of tasks v)) else None)"
    "set (list_at adj u) \<subseteq> dom tasks"
proof -
  have ks': "distinct ks" "set ks = dom tasks" using ks by (simp_all add: enumerates_def)
  have z: "list_at (adj_init ks) u = []" "nat_at (in_degree_init ks) v = 0" for u v
    by (simp_all add: list_at_def nat_at_def adj_init_get in_degree_init_get)
  have d: "dom (adj_init ks) = dom tasks" "dom (in_degree_init ks) = dom tasks"
    using ks'(2) by (auto simp: adj_init_get in_degree_init_get dom_def)
  have E: "count_list (list_at adj u) v = (if v \<in> dom tasks then count_list (deps_of tasks v) u else 0)"
    "nat_at deg v = (if v \<in> dom tasks then length (deps_of tasks v) else 0)" "dom adj = dom tasks" "dom deg = dom tasks" for u v
    using fold_add_node_edges [OF wf _ ks'(1), of "(adj_init ks, in_degree_init ks)" u v] ks'(2) d st z by simp_all
  show "dom adj = dom tasks" by (rule E(3))
  show "count_list (list_at adj u) v = count_list (deps_of tasks v) u"
    using E(1) [of u v] by (cases "tasks v") (auto simp: deps_of_def)
  show "deg v = (if v \<in> dom tasks then Some (length (deps_of tasks v)) else None)"
    using E(2) [of v] E(4) by (cases "deg v") (auto simp: nat_at_def)
  show "set (list_at adj u) \<subseteq> dom tasks"
    using E(1) [of u] by (metis count_list_0_iff subsetI)
qed

subsection \<open>Kahn's loop\<close>

lemma dag_relax_ok:
  assumes "\<And>v. v \<in> set vs \<Longrightarrow> \<exists>n. deg v = Some n \<and> count_list vs v \<le> n"
  shows "\<exists>new. dag_relax vs stack deg = Ok (stack @ new, \<lambda>v. map_option (\<lambda>n. n - count_list vs v) (deg v))
     \<and> distinct new \<and> set new = {v \<in> set vs. deg v = Some (count_list vs v)}"
  using assms
proof (induction vs arbitrary: stack deg)
  case Nil
  show ?case by (simp add: map_option.identity)
next
  case (Cons v vs)
  obtain n where n: "deg v = Some n" "Suc (count_list vs v) \<le> n" using Cons.prems [of v] by auto
  let ?deg = "deg(v \<mapsto> n - 1)" and ?st = "if n - 1 = 0 then stack @ [v] else stack"
  have "\<exists>k. ?deg w = Some k \<and> count_list vs w \<le> k" if "w \<in> set vs" for w
    using Cons.prems [of w] n that by auto
  then obtain new where new: "dag_relax vs ?st ?deg = Ok (?st @ new, \<lambda>w. map_option (\<lambda>k. k - count_list vs w) (?deg w))"
    "distinct new" "set new = {w \<in> set vs. ?deg w = Some (count_list vs w)}"
    using Cons.IH [of ?deg ?st] by blast
  have deg: "(\<lambda>w. map_option (\<lambda>k. k - count_list vs w) (?deg w)) = (\<lambda>w. map_option (\<lambda>k. k - count_list (v # vs) w) (deg w))"
    using n by (auto simp: fun_eq_iff)
  show ?case
  proof (cases "n = 1")
    case True
    then have "v \<notin> set vs" using n by (simp add: count_list_0_iff [symmetric])
    then show ?thesis using new deg n True by (intro exI [of _ "v # new"]) auto
  next
    case False
    then have "v \<notin> set vs \<Longrightarrow> n \<noteq> Suc (count_list vs v)" by (auto simp: count_list_0_iff)
    then show ?thesis using new deg n False by (intro exI [of _ new]) auto
  qed
qed

lemma filter_notin_insert:
  "u \<notin> V \<Longrightarrow> length (filter (\<lambda>d. d \<notin> V) ds) = length (filter (\<lambda>d. d \<notin> insert u V) ds) + count_list ds u"
  by (induction ds) auto

definition kahn_inv :: "(u64 \<rightharpoonup> task_node) \<Rightarrow> u64 set \<Rightarrow> u64 list \<Rightarrow> (u64 \<rightharpoonup> usize) \<Rightarrow> bool" where
  "kahn_inv tasks V stack deg \<longleftrightarrow> distinct stack \<and> set stack \<inter> V = {}
     \<and> (\<forall>v. deg v = (if v \<in> dom tasks then Some (length (filter (\<lambda>d. d \<notin> V) (deps_of tasks v))) else None))
     \<and> set stack \<union> V = {v \<in> dom tasks. set (deps_of tasks v) \<subseteq> V}"

lemma kahn_step:
  assumes inv: "kahn_inv tasks V (stack @ [u]) deg"
    and cnt: "\<And>v. count_list vs v = count_list (deps_of tasks v) u" and sub: "set vs \<subseteq> dom tasks"
  obtains stack' deg' where "dag_relax vs stack deg = Ok (stack', deg')" "kahn_inv tasks (insert u V) stack' deg'"
proof -
  let ?D = "deps_of tasks"
  have dis: "distinct (stack @ [u])" "set (stack @ [u]) \<inter> V = {}"
    and deg: "\<And>v. deg v = (if v \<in> dom tasks then Some (length (filter (\<lambda>d. d \<notin> V) (?D v))) else None)"
    and fr: "set (stack @ [u]) \<union> V = {v \<in> dom tasks. set (?D v) \<subseteq> V}"
    using inv unfolding kahn_inv_def by blast+
  have u: "u \<notin> V" using dis by simp
  have split: "length (filter (\<lambda>d. d \<notin> V) (?D v)) = length (filter (\<lambda>d. d \<notin> insert u V) (?D v)) + count_list vs v" for v
    unfolding cnt by (rule filter_notin_insert [OF u])
  have mem: "v \<in> set vs \<longleftrightarrow> u \<in> set (?D v)" for v using cnt [of v] by (metis count_list_0_iff)
  have "\<exists>n. deg v = Some n \<and> count_list vs v \<le> n" if "v \<in> set vs" for v
    using that sub deg [of v] split [of v] by auto
  then obtain new where new: "dag_relax vs stack deg = Ok (stack @ new, \<lambda>v. map_option (\<lambda>n. n - count_list vs v) (deg v))"
    "distinct new" "set new = {v \<in> set vs. deg v = Some (count_list vs v)}"
    using dag_relax_ok [of vs deg stack] by blast
  have set_new: "v \<in> set new \<longleftrightarrow> u \<in> set (?D v) \<and> set (?D v) \<subseteq> insert u V" for v
    using new(3) deg [of v] split [of v] sub mem [of v] by (auto simp: filter_empty_conv)
  have "kahn_inv tasks (insert u V) (stack @ new) (\<lambda>v. map_option (\<lambda>n. n - count_list vs v) (deg v))"
    unfolding kahn_inv_def
  proof (intro conjI allI)
    have old: "v \<in> set (stack @ [u]) \<union> V \<Longrightarrow> u \<notin> set (?D v)" for v using fr u by auto
    show "distinct (stack @ new)" using dis new(2) set_new old by auto
    show "set (stack @ new) \<inter> insert u V = {}" using dis set_new old by auto
    show "map_option (\<lambda>n. n - count_list vs v) (deg v)
        = (if v \<in> dom tasks then Some (length (filter (\<lambda>d. d \<notin> insert u V) (?D v))) else None)" for v
      using deg [of v] split [of v] by simp
    show "set (stack @ new) \<union> insert u V = {v \<in> dom tasks. set (?D v) \<subseteq> insert u V}"
    proof (rule set_eqI)
      fix v
      have "v \<in> set new \<Longrightarrow> v \<in> dom tasks" using new(3) sub by auto
      then show "v \<in> set (stack @ new) \<union> insert u V \<longleftrightarrow> v \<in> {v \<in> dom tasks. set (?D v) \<subseteq> insert u V}"
        using fr set_new [of v] sub mem [of v] by (cases "u \<in> set (?D v)") auto
    qed
  qed
  with new(1) show thesis by (rule that)
qed

lemma dag_kahn_ok:
  assumes wf: "tasks_wf tasks" and fin: "finite (dom tasks)"
    and adj: "dom adj = dom tasks" "\<And>u v. count_list (list_at adj u) v = count_list (deps_of tasks v) u"
      "\<And>u. set (list_at adj u) \<subseteq> dom tasks"
    and inv: "kahn_inv tasks V stack deg" "V \<subseteq> dom tasks"
  shows "dag_kahn adj stack deg (card V) = Some (Ok (card (dom tasks)))"
  using inv
proof (induction "card (dom tasks) - card V" arbitrary: V stack deg rule: less_induct)
  case less
  have fV: "finite V" using less.prems(2) fin finite_subset by blast
  have fr: "set stack \<union> V = {v \<in> dom tasks. set (deps_of tasks v) \<subseteq> V}" using less.prems(1) by (simp add: kahn_inv_def)
  show ?case
  proof (cases stack rule: rev_cases)
    case Nil
    have "v \<in> V" if "v \<in> dom tasks" for v
      using that
    proof (induction "unat v" arbitrary: v rule: less_induct)
      case (less v)
      then have "set (deps_of tasks v) \<subseteq> V"
        using tasks_wf_deps [OF wf] by (meson subsetI word_less_nat_alt)
      then show ?case using fr Nil less.prems by auto
    qed
    then have "V = dom tasks" using less.prems(2) by blast
    then show ?thesis by (subst dag_kahn.simps) (simp add: Nil)
  next
    case (snoc st u)
    then have u: "u \<in> dom tasks" "u \<notin> V" using fr less.prems(1) by (auto simp: kahn_inv_def)
    then obtain vs where vs: "adj u = Some vs" using adj(1) by auto
    then have "list_at adj u = vs" by (simp add: list_at_def)
    then obtain st' deg' where s: "dag_relax vs st deg = Ok (st', deg')" "kahn_inv tasks (insert u V) st' deg'"
      using kahn_step [of tasks V st u deg vs] less.prems(1) snoc adj(2,3) by metis
    have "card (insert u V) = card V + 1" using u(2) fV by simp
    moreover have "card (insert u V) \<le> card (dom tasks)" using u(1) less.prems(2) fin by (simp add: card_mono)
    ultimately have "dag_kahn adj st' deg' (card V + 1) = Some (Ok (card (dom tasks)))"
      using less.hyps [of "insert u V" st' deg'] s(2) u(1) less.prems(2) by simp
    then show ?thesis using s(1) vs by (subst dag_kahn.simps) (simp add: snoc vec_pop_def)
  qed
qed

text \<open>A well-formed task graph is found acyclic, whatever the iteration orders.\<close>

lemma has_cycle_wf:
  assumes wf: "tasks_wf tasks" and ks: "enumerates ks tasks" "enumerates qs tasks"
  shows "has_cycle ks qs tasks = Some (Ok False)"
proof -
  obtain adj deg where st: "fold (add_node_edges tasks) ks (adj_init ks, in_degree_init ks) = (adj, deg)" by (metis prod.exhaust)
  note E = dag_edges [OF wf ks(1) st]
  have d: "finite (dom tasks)" "card (dom tasks) = length ks" "distinct qs" "set qs = dom tasks"
    using ks distinct_card [of ks] by (auto simp: enumerates_def)
  have inv: "kahn_inv tasks {} (filter (\<lambda>i. deg i = Some 0) qs) deg"
    using d(3,4) E(3) by (auto simp: kahn_inv_def split: if_splits)
  have "dag_kahn adj (filter (\<lambda>i. deg i = Some 0) qs) deg (card ({} :: u64 set)) = Some (Ok (card (dom tasks)))"
    by (rule dag_kahn_ok [OF wf d(1) _ _ _ inv]) (use E in auto)
  then show ?thesis by (simp add: has_cycle_def st d(2))
qed

subsection \<open>Reachable task graphs\<close>

definition orders :: "task_dag \<Rightarrow> u64 list \<Rightarrow> u64 list \<Rightarrow> bool" where
  "orders d ks qs \<longleftrightarrow> distinct ks \<and> distinct qs
     \<and> set ks = insert (td_next_id d) (dom (td_tasks d)) \<and> set qs = insert (td_next_id d) (dom (td_tasks d))"

inductive dag_reachable :: "task_dag \<Rightarrow> bool" where
  new: "dag_reachable dag_new"
| add: "dag_reachable d \<Longrightarrow> orders d ks qs \<Longrightarrow> add_task ks qs d cls desc deps = Some (r, d') \<Longrightarrow> r \<noteq> Panic \<Longrightarrow> dag_reachable d'"
| running: "dag_reachable d \<Longrightarrow> mark_running d i = Ok d' \<Longrightarrow> dag_reachable d'"
| completed: "dag_reachable d \<Longrightarrow> mark_completed d i = Ok d' \<Longrightarrow> dag_reachable d'"
| failed: "dag_reachable d \<Longrightarrow> mark_failed d i = Ok d' \<Longrightarrow> dag_reachable d'"

definition dag_inv :: "task_dag \<Rightarrow> bool" where
  "dag_inv d \<longleftrightarrow> tasks_wf (td_tasks d) \<and> (\<forall>k \<in> dom (td_tasks d). k < td_next_id d)"

lemma dag_inv_set_status:
  "dag_inv d \<Longrightarrow> td_tasks d i = Some node \<Longrightarrow> dag_inv (set_status d i node st)"
  unfolding dag_inv_def tasks_wf_def set_status_def by (auto split: if_splits)

lemma mark_inv:
  assumes "dag_inv d"
  shows "mark_running d i = Ok d' \<Longrightarrow> dag_inv d'" "mark_completed d i = Ok d' \<Longrightarrow> dag_inv d'" "mark_failed d i = Ok d' \<Longrightarrow> dag_inv d'"
  using dag_inv_set_status [OF assms]
  by (auto simp: mark_running_def mark_completed_def mark_failed_def result_ok split: if_splits)

lemma add_node_wf:
  assumes inv: "dag_inv d" and deps: "\<forall>dep \<in> set deps. td_tasks d dep \<noteq> None"
  shows "tasks_wf ((td_tasks d)(td_next_id d \<mapsto>
     \<lparr>tn_id = td_next_id d, tn_class = cls, tn_description = desc, tn_status = Pending, tn_dependencies = deps\<rparr>))"
proof -
  have "dep \<in> dom (td_tasks d)" if "dep \<in> set deps" for dep using deps that by auto
  then have "dep \<in> dom (td_tasks d) \<and> dep < td_next_id d" if "dep \<in> set deps" for dep
    using inv that by (auto simp: dag_inv_def)
  then show ?thesis using inv unfolding dag_inv_def tasks_wf_def by (auto split: if_splits)
qed

lemma add_task_result:
  assumes inv: "dag_inv d" and ord: "orders d ks qs" and lim: "td_next_id d \<noteq> - 1"
  shows "add_task ks qs d cls desc deps = Some (case List.find (\<lambda>dep. td_tasks d dep = None) deps of
       Some dep \<Rightarrow> (Err (RtTaskNotFound dep), d)
     | None \<Rightarrow> (Ok (td_next_id d), \<lparr>td_tasks = (td_tasks d)(td_next_id d \<mapsto>
          \<lparr>tn_id = td_next_id d, tn_class = cls, tn_description = desc, tn_status = Pending, tn_dependencies = deps\<rparr>),
          td_next_id = td_next_id d + 1\<rparr>))"
proof (cases "List.find (\<lambda>dep. td_tasks d dep = None) deps")
  case None
  let ?t = "(td_tasks d)(td_next_id d \<mapsto>
     \<lparr>tn_id = td_next_id d, tn_class = cls, tn_description = desc, tn_status = Pending, tn_dependencies = deps\<rparr>)"
  have "\<forall>dep \<in> set deps. td_tasks d dep \<noteq> None" using None by (simp add: find_None_iff)
  from add_node_wf [OF inv this] have "tasks_wf ?t" .
  moreover have "enumerates ks ?t" "enumerates qs ?t" using ord by (simp_all add: orders_def enumerates_def)
  ultimately have "has_cycle ks qs ?t = Some (Ok False)" by (rule has_cycle_wf)
  moreover have "checked_add (td_next_id d) 1 = Some (td_next_id d + 1)"
    using not_max_u64 [OF lim] by (simp add: checked_add_def)
  ultimately show ?thesis using None by (simp add: add_task_def Let_def)
qed (simp add: add_task_def)

lemma add_task_inv:
  assumes inv: "dag_inv d" and ord: "orders d ks qs" and add: "add_task ks qs d cls desc deps = Some (r, d')" and r: "r \<noteq> Panic"
  shows "dag_inv d'"
proof (cases "td_next_id d = - 1")
  case True
  then have "checked_add (td_next_id d) 1 = None" by (simp add: checked_add_def unsigned_minus_1_eq_mask mask_eq_exp_minus_1)
  then show ?thesis using add r inv by (auto simp: add_task_def Let_def split: option.splits)
next
  case False
  have lt: "td_next_id d < td_next_id d + 1"
    using not_max_u64 [OF False] by (simp add: word_less_nat_alt unat_word_ariths)
  from add_task_result [OF inv ord False, of cls desc deps] add show ?thesis
  proof (cases "List.find (\<lambda>dep. td_tasks d dep = None) deps")
    case None
    then have "\<forall>dep \<in> set deps. td_tasks d dep \<noteq> None" by (simp add: find_None_iff)
    from add_node_wf [OF inv this] add_task_result [OF inv ord False, of cls desc deps] add None
    show ?thesis using inv lt by (auto simp: dag_inv_def intro: order.strict_trans)
  qed (use inv in auto)
qed

lemma dag_reachable_inv: "dag_reachable d \<Longrightarrow> dag_inv d"
proof (induction rule: dag_reachable.induct)
  case new
  show ?case by (simp add: dag_inv_def dag_new_def tasks_wf_def)
next
  case (add d ks qs cls desc deps r d')
  then show ?case by (blast intro: add_task_inv)
qed (blast intro: mark_inv)+

subsection \<open>Ready tasks\<close>

definition is_ready :: "task_dag \<Rightarrow> u64 \<Rightarrow> bool" where
  "is_ready d i \<longleftrightarrow> (\<exists>n. td_tasks d i = Some n \<and> tn_status n = Pending
     \<and> (\<forall>dep \<in> set (tn_dependencies n). \<exists>m. td_tasks d dep = Some m \<and> tn_status m = Completed))"

lemma all_deps_done_ok:
  "\<forall>dep \<in> set deps. dep \<in> dom tasks \<Longrightarrow>
     all_deps_done tasks deps = Ok (\<forall>dep \<in> set deps. \<exists>m. tasks dep = Some m \<and> tn_status m = Completed)"
proof (induction deps)
  case (Cons d deps)
  then obtain m where "tasks d = Some m" by auto
  then show ?case using Cons by (cases "tn_status m = Completed") (auto simp: dep_completed_def)
qed simp

lemma ready_nodes_ok:
  assumes inv: "dag_inv d" and ks: "enumerates ks (td_tasks d)"
  shows "ready_nodes ks d = Ok (map (\<lambda>k. the (td_tasks d k)) (filter (is_ready d) ks))"
proof -
  let ?g = "\<lambda>k. if is_ready d k then [the (td_tasks d k)] else []"
  have "(case td_tasks d k of None \<Rightarrow> Ok []
       | Some node \<Rightarrow> if tn_status node \<noteq> Pending then Ok []
                      else rbind (all_deps_done (td_tasks d) (tn_dependencies node)) (\<lambda>b. Ok (if b then [node] else [])))
      = (Ok (?g k) :: (_, runtime_error) result)" for k
  proof (cases "td_tasks d k")
    case (Some node)
    then have "\<forall>dep \<in> set (tn_dependencies node). dep \<in> dom (td_tasks d)"
      using inv tasks_wf_deps [of "td_tasks d" _ k] by (simp add: dag_inv_def deps_of_def)
    then show ?thesis using Some by (auto simp: all_deps_done_ok is_ready_def)
  qed (simp add: is_ready_def)
  then have "map_result (\<lambda>k. case td_tasks d k of None \<Rightarrow> Ok []
       | Some node \<Rightarrow> if tn_status node \<noteq> Pending then Ok []
                      else rbind (all_deps_done (td_tasks d) (tn_dependencies node)) (\<lambda>b. Ok (if b then [node] else []))) ks
      = (Ok (map ?g ks) :: (_, runtime_error) result)" by (intro map_result_Ok) simp
  moreover have "concat (map ?g ks) = map (\<lambda>k. the (td_tasks d k)) (filter (is_ready d) ks)" by (induction ks) simp_all
  ultimately show ?thesis by (simp add: ready_nodes_def)
qed

text \<open>The order of the returned ids: class descending, then id ascending.\<close>

definition before :: "task_dag \<Rightarrow> u64 \<Rightarrow> u64 \<Rightarrow> bool" where
  "before d i j \<longleftrightarrow> (let a = tn_class (the (td_tasks d i)); b = tn_class (the (td_tasks d j)) in b < a \<or> a = b \<and> i < j)"

lemma ready_key_le:
  "ready_key m \<le> ready_key n \<longleftrightarrow> tn_class n < tn_class m \<or> tn_class m = tn_class n \<and> tn_id m \<le> tn_id n"
  unfolding ready_key_def less_task_class_def
  by (cases "tn_class m"; cases "tn_class n") auto

lemma sorted_before:
  assumes "\<And>k. k \<in> set js \<Longrightarrow> tn_id (the (td_tasks d k)) = k"
    and "distinct js" and "sorted (map (\<lambda>k. ready_key (the (td_tasks d k))) js)"
  shows "sorted_wrt (before d) js"
  using assms
proof (induction js)
  case (Cons j js)
  have "before d j k" if "k \<in> set js" for k
  proof -
    have "ready_key (the (td_tasks d j)) \<le> ready_key (the (td_tasks d k))" "j \<noteq> k" using Cons.prems(2,3) that by auto
    then show ?thesis using Cons.prems(1) [of j] Cons.prems(1) [of k] that
      by (auto simp: ready_key_le before_def Let_def)
  qed
  then show ?case using Cons by simp
qed simp

lemma ready_tasks_sorted:
  assumes inv: "dag_inv d" and ks: "enumerates ks (td_tasks d)"
  obtains js where "ready_tasks ks d = Ok js" "distinct js" "set js = {i. is_ready d i}" "sorted_wrt (before d) js"
proof -
  let ?n = "\<lambda>k. the (td_tasks d k)"
  let ?js = "sort_key (\<lambda>k. ready_key (?n k)) (filter (is_ready d) ks)"
  have id: "tn_id (?n k) = k" if "k \<in> dom (td_tasks d)" for k using that inv by (auto simp: dag_inv_def tasks_wf_def)
  have mem: "set ?js = {i. is_ready d i}" "distinct ?js" using ks by (auto simp: enumerates_def is_ready_def)
  have dom: "k \<in> dom (td_tasks d)" if "k \<in> set ?js" for k using that ks by (simp add: enumerates_def)
  have ms: "mset (sort_key ready_key (map ?n (filter (is_ready d) ks))) = mset (map ?n ?js)" by simp
  have "inj_on ready_key (set (map ?n ?js))"
  proof (rule inj_onI)
    fix m n assume "m \<in> set (map ?n ?js)" "n \<in> set (map ?n ?js)" "ready_key m = ready_key n"
    then obtain j k where jk: "m = ?n j" "j \<in> set ?js" "n = ?n k" "k \<in> set ?js" and "tn_id m = tn_id n"
      by (auto simp: ready_key_def)
    then have "j = k" using id [OF dom [OF jk(2)]] id [OF dom [OF jk(4)]] by simp
    with jk show "m = n" by simp
  qed
  moreover have "sorted (map ready_key (map ?n ?js))"
    using sorted_sort_key [of "\<lambda>k. ready_key (?n k)" "filter (is_ready d) ks"] by (simp add: comp_def)
  ultimately have "map ?n ?js = sort_key ready_key (map ?n (filter (is_ready d) ks))"
    using ms by (intro sorted_key_unique [where k = ready_key]) simp_all
  from this [symmetric] have "map tn_id (sort_key ready_key (map ?n (filter (is_ready d) ks))) = map (\<lambda>k. tn_id (?n k)) ?js"
    by (simp only: map_map comp_def)
  also have "\<dots> = ?js" using id dom by (intro map_idI) blast
  finally have "ready_tasks ks d = Ok ?js"
    unfolding ready_tasks_def ready_nodes_ok [OF inv ks] rbind.simps by (rule arg_cong)
  moreover have "sorted_wrt (before d) ?js"
    using id dom mem(2) by (intro sorted_before) auto
  ultimately show thesis using mem by (intro that)
qed

lemma ready_tasks_order_free:
  assumes inv: "dag_inv d" and ks: "enumerates ks (td_tasks d)" "enumerates ks' (td_tasks d)"
  shows "ready_tasks ks' d = ready_tasks ks d"
proof -
  let ?ns = "\<lambda>ks. map (\<lambda>k. the (td_tasks d k)) (filter (is_ready d) ks)"
  have "mset ks' = mset ks" using ks set_eq_iff_mset_eq_distinct [of ks' ks] by (simp add: enumerates_def)
  then have ms: "mset (sort_key ready_key (?ns ks')) = mset (sort_key ready_key (?ns ks))" by simp
  have "tn_id (the (td_tasks d k)) = k" if "k \<in> set ks'" for k
    using that ks inv by (auto simp: enumerates_def dag_inv_def tasks_wf_def)
  then have "inj_on ready_key (set (sort_key ready_key (?ns ks')))" by (auto simp: inj_on_def ready_key_def)
  then have "sort_key ready_key (?ns ks') = sort_key ready_key (?ns ks)"
    using ms by (intro sorted_key_unique [where k = ready_key]) simp_all
  then show ?thesis by (simp add: ready_tasks_def ready_nodes_ok [OF inv ks(1)] ready_nodes_ok [OF inv ks(2)])
qed

lemma ready_runs:
  assumes inv: "dag_inv d" and i: "is_ready d i"
  shows "mark_running d i = Ok (set_status d i (the (td_tasks d i)) Running)"
proof -
  obtain n where n: "td_tasks d i = Some n"
    "\<forall>dep \<in> set (tn_dependencies n). \<exists>m. td_tasks d dep = Some m \<and> tn_status m = Completed"
    using i by (auto simp: is_ready_def)
  then have "all_deps_done (td_tasks d) (tn_dependencies n) = Ok True"
    by (subst all_deps_done_ok) auto
  then show ?thesis using n(1) by (simp add: mark_running_def)
qed

text \<open>The oldest pending task is ready when no task failed or still runs.\<close>

lemma pending_ready:
  assumes inv: "dag_inv d" and i: "td_tasks d i = Some n" "tn_status n = Pending"
    and all: "\<forall>m \<in> ran (td_tasks d). tn_status m = Pending \<or> tn_status m = Completed"
  shows "\<exists>j. is_ready d j"
  using i
proof (induction "unat i" arbitrary: i n rule: less_induct)
  case less
  show ?case
  proof (cases "is_ready d i")
    case False
    then obtain dep where dep: "dep \<in> set (tn_dependencies n)" "\<not> (\<exists>m. td_tasks d dep = Some m \<and> tn_status m = Completed)"
      using less.prems by (auto simp: is_ready_def)
    then have lt: "dep \<in> dom (td_tasks d)" "dep < i" using less.prems(1) inv by (auto simp: dag_inv_def tasks_wf_def)
    then obtain m where m: "td_tasks d dep = Some m" by auto
    then have "tn_status m = Pending" using dep(2) all by (auto simp: ran_def)
    then show ?thesis using less.hyps [of dep m] m lt(2) by (simp add: word_less_nat_alt)
  qed blast
qed

subsection \<open>Properties\<close>

text \<open>C14: Adding a task to any reachable task graph, whatever the iteration orders of the hash maps:
  the cycle check terminates without panicking and never reports a cycle, because a dependency has to
  exist before the task that names it; the only error is the first unknown dependency, which leaves
  the graph as it was, and a success stores the task as pending under the next id.\<close>

theorem add_task_never_cyclic:
  assumes "dag_reachable d" "orders d ks qs" "td_next_id d \<noteq> - 1"
  shows "add_task ks qs d cls desc deps = Some (case List.find (\<lambda>dep. td_tasks d dep = None) deps of
       Some dep \<Rightarrow> (Err (RtTaskNotFound dep), d)
     | None \<Rightarrow> (Ok (td_next_id d), \<lparr>td_tasks = (td_tasks d)(td_next_id d \<mapsto>
          \<lparr>tn_id = td_next_id d, tn_class = cls, tn_description = desc, tn_status = Pending, tn_dependencies = deps\<rparr>),
          td_next_id = td_next_id d + 1\<rparr>))"
  using assms dag_reachable_inv by (blast intro: add_task_result)

text \<open>C15: On any reachable task graph \<open>ready_tasks\<close> returns, once each, exactly the pending tasks
  whose dependencies are all completed, ordered by class descending and id ascending; the answer does
  not depend on the hash map's iteration order; each returned task can be started; and the graph never
  deadlocks: if a task is pending and every task is pending or completed, the answer is not empty.\<close>

theorem ready_tasks_correct:
  assumes "dag_reachable d" "enumerates ks (td_tasks d)" "enumerates ks' (td_tasks d)"
  shows "\<exists>js. ready_tasks ks d = Ok js \<and> ready_tasks ks' d = Ok js
     \<and> distinct js \<and> set js = {i. is_ready d i} \<and> sorted_wrt (before d) js
     \<and> (\<forall>i \<in> set js. mark_running d i = Ok (set_status d i (the (td_tasks d i)) Running))
     \<and> ((\<exists>n \<in> ran (td_tasks d). tn_status n = Pending)
         \<and> (\<forall>n \<in> ran (td_tasks d). tn_status n = Pending \<or> tn_status n = Completed) \<longrightarrow> js \<noteq> [])"
proof -
  have inv: "dag_inv d" using assms(1) by (rule dag_reachable_inv)
  obtain js where js: "ready_tasks ks d = Ok js" "distinct js" "set js = {i. is_ready d i}" "sorted_wrt (before d) js"
    using ready_tasks_sorted [OF inv assms(2)] .
  have "ready_tasks ks' d = ready_tasks ks d" using ready_tasks_order_free [OF inv assms(2,3)] by simp
  moreover have "js \<noteq> []" if "n \<in> ran (td_tasks d)" "tn_status n = Pending"
    "\<forall>n \<in> ran (td_tasks d). tn_status n = Pending \<or> tn_status n = Completed" for n
    using that pending_ready [OF inv] js(3) by (fastforce simp: ran_def)
  ultimately show ?thesis using js ready_runs [OF inv] by auto
qed

text \<open>A run: a seal task, and a compression that waits for it.\<close>

definition sample_task :: "u64 \<Rightarrow> task_class \<Rightarrow> u64 list \<Rightarrow> task_node" where
  "sample_task i cls deps = \<lparr>tn_id = i, tn_class = cls, tn_description = [], tn_status = Pending, tn_dependencies = deps\<rparr>"

definition sample_dag :: task_dag where
  "sample_dag = \<lparr>td_tasks = [0 \<mapsto> sample_task 0 Seal [], 1 \<mapsto> sample_task 1 Compress [0]], td_next_id = 2\<rparr>"

theorem add_task_never_cyclic_witness:
  "add_task [0] [0] dag_new Seal [] [] = Some (Ok 0, \<lparr>td_tasks = [0 \<mapsto> sample_task 0 Seal []], td_next_id = 1\<rparr>)"
proof -
  have "orders dag_new [0] [0]" "td_next_id dag_new \<noteq> - 1" by (simp_all add: orders_def dag_new_def)
  from add_task_never_cyclic [OF dag_reachable.new this, of Seal "[]" "[]"]
  show ?thesis by (simp add: sample_task_def dag_new_def)
qed

lemma sample_dag_reachable: "dag_reachable sample_dag"
proof -
  let ?d = "\<lparr>td_tasks = [0 \<mapsto> sample_task 0 Seal []], td_next_id = 1\<rparr>"
  have o: "orders dag_new [0] [0]" "orders ?d [0, 1] [0, 1]" by (auto simp: orders_def dag_new_def)
  have inv: "dag_inv dag_new" by (rule dag_reachable_inv [OF dag_reachable.new])
  have "add_task [0] [0] dag_new Seal [] [] = Some (Ok 0, ?d)"
    by (subst add_task_result [OF inv o(1)]) (simp_all add: sample_task_def dag_new_def)
  from dag_reachable.add [OF dag_reachable.new o(1) this] have d: "dag_reachable ?d" by simp
  have "add_task [0, 1] [0, 1] ?d Compress [] [0] = Some (Ok 1, sample_dag)"
    by (subst add_task_result [OF dag_reachable_inv [OF d] o(2)]) (simp_all add: sample_task_def sample_dag_def)
  from dag_reachable.add [OF d o(2) this] show ?thesis by simp
qed

theorem ready_tasks_correct_witness:
  "\<exists>js. ready_tasks [1, 0] sample_dag = Ok js \<and> js \<noteq> []"
proof -
  have ks: "enumerates [1, 0] (td_tasks sample_dag)" by (auto simp: enumerates_def sample_dag_def)
  have "ran (td_tasks sample_dag) = {sample_task 0 Seal [], sample_task 1 Compress [0]}"
    by (simp add: sample_dag_def insert_commute)
  then have "(\<exists>n \<in> ran (td_tasks sample_dag). tn_status n = Pending)
     \<and> (\<forall>n \<in> ran (td_tasks sample_dag). tn_status n = Pending \<or> tn_status n = Completed)"
    by (simp add: sample_task_def)
  then show ?thesis using ready_tasks_correct [OF sample_dag_reachable ks ks] by blast
qed

end
