(* ===== verification/Runtime_Tiers.thy ===== *)
theory Runtime_Tiers
  imports Runtime_Shards Btree
begin

section \<open>Storage tiers and eviction (\<open>temnion-runtime\<close>: \<open>TieredStorageManager\<close>)\<close>

text \<open>
  The manager keeps an ordered map of segments with their tier, size and access statistics.
  \<open>enforce_capacity\<close> runs two loops that demote the least recently used segment of a tier while the
  tier is over its budget; both are instances of \<open>evict_loop\<close>, a partial function whose \<open>None\<close> is
  non-termination. Sums and counters are checked as in a debug build: an overflow is a \<open>Panic\<close>.
\<close>

datatype storage_tier = HotDram | WarmMapped | ColdMedia

fun tier_discriminant :: "storage_tier \<Rightarrow> nat" where
  "tier_discriminant HotDram = 2"
| "tier_discriminant WarmMapped = 1"
| "tier_discriminant ColdMedia = 0"

record tiered_segment =
  sg_id :: u64
  sg_byte_size :: usize
  sg_tier :: storage_tier
  sg_access_count :: u64
  sg_last_access :: u64

type_synonym segments = "(u64, tiered_segment) btree"

record tier_manager =
  tm_hot_capacity :: usize
  tm_warm_capacity :: usize
  tm_step :: u64
  tm_segments :: segments

definition tiers_new :: "usize \<Rightarrow> usize \<Rightarrow> tier_manager" where
  "tiers_new hot warm = \<lparr>tm_hot_capacity = hot, tm_warm_capacity = warm, tm_step = 0, tm_segments = []\<rparr>"

definition register_segment :: "tier_manager \<Rightarrow> u64 \<Rightarrow> usize \<Rightarrow> storage_tier \<Rightarrow> tier_manager" where
  "register_segment m i byte_size tier = m\<lparr>tm_segments := bt_insert i
     \<lparr>sg_id = i, sg_byte_size = byte_size, sg_tier = tier, sg_access_count = 0, sg_last_access = tm_step m\<rparr> (tm_segments m)\<rparr>"

definition tier_of :: "tier_manager \<Rightarrow> u64 \<Rightarrow> storage_tier option" where
  "tier_of m i = map_option sg_tier (bt_get (tm_segments m) i)"

definition tier_bytes :: "segments \<Rightarrow> storage_tier \<Rightarrow> nat" where
  "tier_bytes segs tier = sum_list (map sg_byte_size (filter (\<lambda>s. sg_tier s = tier) (map snd segs)))"

definition total_bytes_in_tier :: "segments \<Rightarrow> storage_tier \<Rightarrow> (usize, 'e) result" where
  "total_bytes_in_tier segs tier = (let n = tier_bytes segs tier in if n < usize_limit then Ok n else Panic)"

text \<open>\<open>Iterator::min_by_key\<close> keeps the first of several minimal elements.\<close>

fun min_by_key :: "('a \<Rightarrow> 'k::linorder) \<Rightarrow> 'a list \<Rightarrow> 'a option" where
  "min_by_key f [] = None"
| "min_by_key f (x # xs) = Some (fold (\<lambda>y best. if f y < f best then y else best) xs x)"

definition lru_id :: "segments \<Rightarrow> storage_tier \<Rightarrow> u64 option" where
  "lru_id segs tier = map_option sg_id (min_by_key sg_last_access (filter (\<lambda>s. sg_tier s = tier) (map snd segs)))"

partial_function (option) evict_loop :: "storage_tier \<Rightarrow> storage_tier \<Rightarrow> usize \<Rightarrow> segments \<Rightarrow> (segments, runtime_error) result option" where
  "evict_loop tier below cap segs = (case total_bytes_in_tier segs tier of
       Err e \<Rightarrow> Some (Err e)
     | Panic \<Rightarrow> Some Panic
     | Ok used \<Rightarrow>
         if used > cap then
           (case lru_id segs tier of
              None \<Rightarrow> Some (Ok segs)
            | Some i \<Rightarrow> (case bt_get segs i of
                None \<Rightarrow> Some Panic
              | Some s \<Rightarrow> evict_loop tier below cap (bt_insert i (s\<lparr>sg_tier := below\<rparr>) segs)))
         else Some (Ok segs))"

definition enforce_capacity :: "tier_manager \<Rightarrow> (tier_manager, runtime_error) result option" where
  "enforce_capacity m =
     pbind (evict_loop HotDram WarmMapped (tm_hot_capacity m) (tm_segments m)) (\<lambda>segs.
     pbind (evict_loop WarmMapped ColdMedia (tm_warm_capacity m) segs) (\<lambda>segs.
     Some (Ok (m\<lparr>tm_segments := segs\<rparr>))))"

text \<open>\<open>record_access\<close> returns the tier the segment has before the budgets are enforced; the step
  counter has advanced even when the segment is unknown.\<close>

definition touch :: "u64 \<Rightarrow> u64 \<Rightarrow> tiered_segment \<Rightarrow> tiered_segment" where
  "touch step cnt s = s\<lparr>sg_access_count := cnt, sg_last_access := step,
     sg_tier := (if sg_tier s = ColdMedia \<and> cnt \<ge> 2 then WarmMapped else sg_tier s)\<rparr>"

definition record_access :: "tier_manager \<Rightarrow> u64 \<Rightarrow> ((storage_tier, runtime_error) result \<times> tier_manager) option" where
  "record_access m i = (case checked_add (tm_step m) 1 of
       None \<Rightarrow> Some (Panic, m)
     | Some step \<Rightarrow>
         let m = m\<lparr>tm_step := step\<rparr> in
         (case bt_get (tm_segments m) i of
            None \<Rightarrow> Some (Err (RtSegmentNotFound i), m)
          | Some s \<Rightarrow> (case checked_add (sg_access_count s) 1 of
              None \<Rightarrow> Some (Panic, m)
            | Some cnt \<Rightarrow>
                let s = touch step cnt s;
                    m = m\<lparr>tm_segments := bt_insert i s (tm_segments m)\<rparr>
                in map_option (\<lambda>r. case r of
                     Ok m' \<Rightarrow> (Ok (sg_tier s), m')
                   | Err e \<Rightarrow> (Err e, m)
                   | Panic \<Rightarrow> (Panic, m)) (enforce_capacity m))))"

definition migrate :: "tier_manager \<Rightarrow> u64 \<Rightarrow> storage_tier \<Rightarrow> ((unit, runtime_error) result \<times> tier_manager) option" where
  "migrate m i target = (case bt_get (tm_segments m) i of
       None \<Rightarrow> Some (Err (RtSegmentNotFound i), m)
     | Some s \<Rightarrow>
         let m = m\<lparr>tm_segments := bt_insert i (s\<lparr>sg_tier := target\<rparr>) (tm_segments m)\<rparr>
         in map_option (\<lambda>r. case r of
              Ok m' \<Rightarrow> (Ok (), m')
            | Err e \<Rightarrow> (Err e, m)
            | Panic \<Rightarrow> (Panic, m)) (enforce_capacity m))"

subsection \<open>The least recently used segment\<close>

lemma fold_min:
  "fold (\<lambda>y best. if f y < f best then y else best) xs x \<in> insert x (set xs)"
  "y \<in> insert x (set xs) \<Longrightarrow> f (fold (\<lambda>y best. if f y < f best then y else best) xs x) \<le> (f y :: 'k::linorder)"
proof (induction xs arbitrary: x y)
  case (Cons z zs)
  { case 1 show ?case using Cons.IH(1) [of "if f z < f x then z else x"] by (auto split: if_splits) }
  { case 2 then show ?case
      using Cons.IH(2) [of y "if f z < f x then z else x"] Cons.IH(2) [of "if f z < f x then z else x" "if f z < f x then z else x"]
      by (auto split: if_splits) }
qed auto

lemma min_by_key_Some:
  "min_by_key f xs = Some x \<Longrightarrow> x \<in> set xs \<and> (\<forall>y \<in> set xs. f x \<le> f y)"
proof (cases xs)
  case (Cons z zs)
  assume "min_by_key f xs = Some x"
  then show ?thesis using fold_min [where f = f and xs = zs and x = z] Cons by auto
qed simp

lemma min_by_key_None [simp]: "min_by_key f xs = None \<longleftrightarrow> xs = []"
  by (cases xs) auto

definition segs_wf :: "segments \<Rightarrow> bool" where
  "segs_wf segs \<longleftrightarrow> bt_wf segs \<and> (\<forall>i s. bt_get segs i = Some s \<longrightarrow> sg_id s = i)"

lemma segs_mem: "segs_wf segs \<Longrightarrow> s \<in> set (map snd segs) \<longleftrightarrow> bt_get segs (sg_id s) = Some s"
proof -
  assume wf: "segs_wf segs"
  then have g: "bt_get segs k = Some s \<longleftrightarrow> (k, s) \<in> set segs" for k by (simp add: segs_wf_def bt_get_iff)
  show ?thesis
  proof
    assume "s \<in> set (map snd segs)"
    then obtain k where k: "(k, s) \<in> set segs" by auto
    then have "sg_id s = k" using g [of k] wf by (simp add: segs_wf_def)
    with k show "bt_get segs (sg_id s) = Some s" using g [of k] by simp
  next
    assume "bt_get segs (sg_id s) = Some s"
    then have "snd (sg_id s, s) \<in> snd ` set segs" using g by blast
    then show "s \<in> set (map snd segs)" by simp
  qed
qed

lemma lru_id_Some:
  assumes "segs_wf segs" "lru_id segs tier = Some i"
  obtains s where "bt_get segs i = Some s" "sg_tier s = tier"
    "\<And>k t. bt_get segs k = Some t \<Longrightarrow> sg_tier t = tier \<Longrightarrow> sg_last_access s \<le> sg_last_access t"
proof -
  obtain s where s: "min_by_key sg_last_access (filter (\<lambda>s. sg_tier s = tier) (map snd segs)) = Some s" "i = sg_id s"
    using assms(2) by (auto simp: lru_id_def)
  have "bt_get segs i = Some s" "sg_tier s = tier"
    using min_by_key_Some [OF s(1)] segs_mem [OF assms(1)] s(2) by auto
  moreover have "sg_last_access s \<le> sg_last_access t" if t: "bt_get segs k = Some t" "sg_tier t = tier" for k t
  proof -
    have "sg_id t = k" using t assms(1) by (simp add: segs_wf_def)
    then have "t \<in> set (map snd segs)" using segs_mem [OF assms(1), of t] t(1) by simp
    then show ?thesis using min_by_key_Some [OF s(1)] t(2) by simp
  qed
  ultimately show thesis by (rule that)
qed

lemma lru_id_None: "lru_id segs tier = None \<Longrightarrow> tier_bytes segs tier = 0"
  by (simp add: lru_id_def tier_bytes_def)

subsection \<open>Eviction\<close>

definition all_bytes :: "segments \<Rightarrow> nat" where
  "all_bytes segs = sum_list (map sg_byte_size (map snd segs))"

lemma tier_bytes_le: "tier_bytes segs tier \<le> all_bytes segs"
  unfolding tier_bytes_def all_bytes_def by (induction segs) auto

lemma total_bytes_Ok: "all_bytes segs < usize_limit \<Longrightarrow> total_bytes_in_tier segs tier = Ok (tier_bytes segs tier)"
  using tier_bytes_le [of segs tier] by (simp add: total_bytes_in_tier_def Let_def)

lemma tier_bytes_if: "tier_bytes segs tier = sum_list (map (\<lambda>s. if sg_tier s = tier then sg_byte_size s else 0) (map snd segs))"
  unfolding tier_bytes_def by (induction segs) auto

definition residents :: "segments \<Rightarrow> storage_tier \<Rightarrow> u64 set" where
  "residents segs tier = {i. \<exists>s. bt_get segs i = Some s \<and> sg_tier s = tier}"

lemma finite_residents [simp]: "segs_wf segs \<Longrightarrow> finite (residents segs tier)"
proof -
  assume "segs_wf segs"
  then have "finite (dom (bt_get segs))" by (intro bt.finite_dom) (simp add: segs_wf_def)
  moreover have "residents segs tier \<subseteq> dom (bt_get segs)" by (auto simp: residents_def)
  ultimately show ?thesis by (rule rev_finite_subset)
qed

text \<open>Replacing the segment stored under a key by one with the same id and size.\<close>

lemma update_segment:
  assumes wf: "segs_wf segs" and s: "bt_get segs i = Some s"
    and t: "sg_id t = sg_id s" "sg_byte_size t = sg_byte_size s"
  shows "segs_wf (bt_insert i t segs)" "all_bytes (bt_insert i t segs) = all_bytes segs"
    "sg_tier s \<noteq> x \<Longrightarrow> sg_tier t \<noteq> x \<Longrightarrow> tier_bytes (bt_insert i t segs) x = tier_bytes segs x"
proof -
  have b: "bt_wf segs" using wf by (simp add: segs_wf_def)
  have i: "i \<in> fst ` set segs" using s b by (auto simp: bt_get_iff intro: image_eqI [of _ fst "(i, s)"])
  have at: "e \<in> set segs \<Longrightarrow> fst e = i \<Longrightarrow> snd e = s" for e
    using s b by (metis bt_get_iff option.inject prod.collapse)
  note ins = bt_insert_existing [OF b i]
  show "segs_wf (bt_insert i t segs)" using wf s t(1) by (auto simp: segs_wf_def)
  show "all_bytes (bt_insert i t segs) = all_bytes segs"
    unfolding all_bytes_def ins map_map using at t(2) by (intro arg_cong [of _ _ sum_list] map_cong) auto
  show "tier_bytes (bt_insert i t segs) x = tier_bytes segs x" if "sg_tier s \<noteq> x" "sg_tier t \<noteq> x"
    unfolding tier_bytes_if ins map_map using at that by (intro arg_cong [of _ _ sum_list] map_cong) auto
qed

text \<open>What a run of the loop does to the segments: some segments of the tier move below, nothing else
  changes, and each of them was used no later than every segment that stays.\<close>

definition demotes :: "storage_tier \<Rightarrow> storage_tier \<Rightarrow> segments \<Rightarrow> segments \<Rightarrow> bool" where
  "demotes tier below segs segs' \<longleftrightarrow>
     (\<forall>i. bt_get segs' i = bt_get segs i
        \<or> (\<exists>s. bt_get segs i = Some s \<and> sg_tier s = tier \<and> bt_get segs' i = Some (s\<lparr>sg_tier := below\<rparr>)
             \<and> (\<forall>k t. bt_get segs' k = Some t \<and> sg_tier t = tier \<longrightarrow> sg_last_access s \<le> sg_last_access t)))"

lemma demotes_step:
  assumes "bt_get segs i = Some s" "sg_tier s = tier" "tier \<noteq> below"
    and min: "\<And>k t. bt_get segs k = Some t \<Longrightarrow> sg_tier t = tier \<Longrightarrow> sg_last_access s \<le> sg_last_access t"
    and rest: "demotes tier below (bt_insert i (s\<lparr>sg_tier := below\<rparr>) segs) segs'"
  shows "demotes tier below segs segs'"
  unfolding demotes_def
proof (rule allI)
  fix k
  let ?g = "(bt_get segs)(i \<mapsto> s\<lparr>sg_tier := below\<rparr>)"
  have R: "bt_get segs' k = ?g k \<or> (\<exists>s. ?g k = Some s \<and> sg_tier s = tier \<and> bt_get segs' k = Some (s\<lparr>sg_tier := below\<rparr>)
      \<and> (\<forall>k t. bt_get segs' k = Some t \<and> sg_tier t = tier \<longrightarrow> sg_last_access s \<le> sg_last_access t))" for k
    using rest by (simp add: demotes_def)
  show "bt_get segs' k = bt_get segs k
        \<or> (\<exists>s. bt_get segs k = Some s \<and> sg_tier s = tier \<and> bt_get segs' k = Some (s\<lparr>sg_tier := below\<rparr>)
             \<and> (\<forall>k t. bt_get segs' k = Some t \<and> sg_tier t = tier \<longrightarrow> sg_last_access s \<le> sg_last_access t))"
  proof (cases "k = i")
    case True
    have "bt_get segs' i = Some (s\<lparr>sg_tier := below\<rparr>)" using R [of i] assms(3) by auto
    moreover have "sg_last_access s \<le> sg_last_access t" if "bt_get segs' j = Some t" "sg_tier t = tier" for j t
      using R [of j] that min assms(3) by (auto split: if_splits)
    ultimately show ?thesis using True assms(1,2) by blast
  next
    case False
    then show ?thesis using R [of k] by simp
  qed
qed

definition evict_outcome :: "storage_tier \<Rightarrow> storage_tier \<Rightarrow> usize \<Rightarrow> segments \<Rightarrow> segments \<Rightarrow> bool" where
  "evict_outcome tier below cap segs segs' \<longleftrightarrow> segs_wf segs' \<and> all_bytes segs' = all_bytes segs
     \<and> tier_bytes segs' tier \<le> cap \<and> demotes tier below segs segs'
     \<and> (\<forall>x. x \<noteq> tier \<and> x \<noteq> below \<longrightarrow> tier_bytes segs' x = tier_bytes segs x)"

lemma evict_loop_total:
  assumes "segs_wf segs" "tier \<noteq> below"
  shows "evict_loop tier below cap segs = Some Panic \<and> usize_limit \<le> all_bytes segs
     \<or> (\<exists>segs'. evict_loop tier below cap segs = Some (Ok segs') \<and> evict_outcome tier below cap segs segs')"
  using assms(1)
proof (induction "card (residents segs tier)" arbitrary: segs rule: less_induct)
  case less
  consider (over) "usize_limit \<le> tier_bytes segs tier" | (fits) "tier_bytes segs tier < usize_limit" "tier_bytes segs tier \<le> cap"
    | (evict) "tier_bytes segs tier < usize_limit" "tier_bytes segs tier > cap" by linarith
  then show ?case
  proof cases
    case over
    then have "total_bytes_in_tier segs tier = (Panic :: (usize, runtime_error) result)" by (simp add: total_bytes_in_tier_def)
    moreover have "usize_limit \<le> all_bytes segs" using over tier_bytes_le by (rule order_trans)
    ultimately show ?thesis by (subst (1) evict_loop.simps) simp
  next
    case fits
    then have "evict_loop tier below cap segs = Some (Ok segs)" by (subst evict_loop.simps) (simp add: total_bytes_in_tier_def)
    then show ?thesis using fits less.prems by (simp add: demotes_def evict_outcome_def)
  next
    case evict
    then obtain i where i: "lru_id segs tier = Some i" using lru_id_None [of segs tier] by (cases "lru_id segs tier") auto
    obtain s where s: "bt_get segs i = Some s" "sg_tier s = tier"
      "\<And>k t. bt_get segs k = Some t \<Longrightarrow> sg_tier t = tier \<Longrightarrow> sg_last_access s \<le> sg_last_access t"
      using lru_id_Some [OF less.prems i] by blast
    let ?segs = "bt_insert i (s\<lparr>sg_tier := below\<rparr>) segs"
    note U = update_segment [OF less.prems s(1), of "s\<lparr>sg_tier := below\<rparr>"]
    have "residents ?segs tier = residents segs tier - {i}" "i \<in> residents segs tier"
      using s assms(2) by (auto simp: residents_def)
    then have "card (residents ?segs tier) < card (residents segs tier)"
      using less.prems by (metis card_Diff1_less finite_residents)
    note IH = less.hyps [OF this U(1)]
    have step: "evict_loop tier below cap segs = evict_loop tier below cap ?segs"
      using evict by (subst evict_loop.simps) (simp add: total_bytes_in_tier_def i s(1))
    have "evict_outcome tier below cap segs segs'" if o: "evict_outcome tier below cap ?segs segs'" for segs'
    proof -
      have "demotes tier below segs segs'"
        by (rule demotes_step [OF s(1,2) assms(2)]) (use s(3) o in \<open>auto simp: evict_outcome_def\<close>)
      then show ?thesis using o U(2,3) s(2) by (auto simp: evict_outcome_def)
    qed
    then show ?thesis using IH U(2) by (auto simp: step)
  qed
qed

lemma evict_loop_ok:
  assumes "segs_wf segs" "tier \<noteq> below" "all_bytes segs < usize_limit"
  shows "\<exists>segs'. evict_loop tier below cap segs = Some (Ok segs') \<and> evict_outcome tier below cap segs segs'"
  using evict_loop_total [OF assms(1,2), of cap] assms(3) by auto

subsection \<open>Enforcing both budgets\<close>

definition evicted :: "segments \<Rightarrow> segments \<Rightarrow> bool" where
  "evicted segs segs' \<longleftrightarrow>
     (\<forall>i. case bt_get segs i of
        None \<Rightarrow> bt_get segs' i = None
      | Some s \<Rightarrow> \<exists>t. bt_get segs' i = Some (s\<lparr>sg_tier := t\<rparr>) \<and> tier_discriminant t \<le> tier_discriminant (sg_tier s))
   \<and> (\<forall>i s s' k u. bt_get segs i = Some s \<and> bt_get segs' i = Some s' \<and> bt_get segs' k = Some u
        \<and> tier_discriminant (sg_tier s') < tier_discriminant (sg_tier u)
        \<and> tier_discriminant (sg_tier u) \<le> tier_discriminant (sg_tier s)
        \<longrightarrow> sg_last_access s \<le> sg_last_access u)"

lemma demotes_cases:
  assumes "demotes tier below segs segs'" "bt_get segs i = Some s"
  obtains "bt_get segs' i = Some s"
  | "sg_tier s = tier" "bt_get segs' i = Some (s\<lparr>sg_tier := below\<rparr>)"
    "\<And>k t. bt_get segs' k = Some t \<Longrightarrow> sg_tier t = tier \<Longrightarrow> sg_last_access s \<le> sg_last_access t"
  using assms unfolding demotes_def by (metis option.inject)

lemma demotes_tier:
  assumes "demotes tier below segs segs'" "bt_get segs i = Some s" "tier_discriminant below \<le> tier_discriminant tier"
  shows "\<exists>t. bt_get segs' i = Some (s\<lparr>sg_tier := t\<rparr>) \<and> tier_discriminant t \<le> tier_discriminant (sg_tier s)"
  using assms(1,2)
proof (cases rule: demotes_cases)
  case 1
  then show ?thesis by (intro exI [of _ "sg_tier s"]) simp
qed (use assms(3) in auto)

lemma demotes_stays:
  assumes "demotes tier below segs segs'" "bt_get segs' i = Some s" "sg_tier s \<noteq> below"
  shows "bt_get segs i = Some s"
  using assms unfolding demotes_def by (metis option.inject tiered_segment.select_convs(3) tiered_segment.surjective tiered_segment.update_convs(3))

lemma demotes_dom: "demotes tier below segs segs' \<Longrightarrow> bt_get segs i = None \<Longrightarrow> bt_get segs' i = None"
  unfolding demotes_def by (metis option.distinct(1))

lemma evicted_twice:
  assumes D1: "demotes HotDram WarmMapped segs mid" and D2: "demotes WarmMapped ColdMedia mid segs'"
  shows "evicted segs segs'"
  unfolding evicted_def
proof (intro conjI allI impI)
  fix i
  show "case bt_get segs i of
        None \<Rightarrow> bt_get segs' i = None
      | Some s \<Rightarrow> \<exists>t. bt_get segs' i = Some (s\<lparr>sg_tier := t\<rparr>) \<and> tier_discriminant t \<le> tier_discriminant (sg_tier s)"
  proof (cases "bt_get segs i")
    case None
    then show ?thesis using demotes_dom [OF D1] demotes_dom [OF D2] by simp
  next
    case (Some s)
    obtain t where t: "bt_get mid i = Some (s\<lparr>sg_tier := t\<rparr>)" "tier_discriminant t \<le> tier_discriminant (sg_tier s)"
      using demotes_tier [OF D1 Some] by auto
    then show ?thesis using demotes_tier [OF D2 t(1)] Some by force
  qed
next
  fix i s s' k u
  assume A: "bt_get segs i = Some s \<and> bt_get segs' i = Some s' \<and> bt_get segs' k = Some u
        \<and> tier_discriminant (sg_tier s') < tier_discriminant (sg_tier u)
        \<and> tier_discriminant (sg_tier u) \<le> tier_discriminant (sg_tier s)"
  then have s: "bt_get segs i = Some s" by blast
  show "sg_last_access s \<le> sg_last_access u"
  proof (cases "sg_tier u")
    case HotDram
    then have "bt_get mid k = Some u" using A demotes_stays [OF D2] by simp
    with s A HotDram show ?thesis
      by - (rule demotes_cases [OF D1 s]; erule demotes_cases [OF D2]; auto)
  next
    case WarmMapped
    with s A show ?thesis
      by - (rule demotes_cases [OF D1 s]; erule demotes_cases [OF D2]; fastforce)
  qed (use A in simp)
qed

definition settles :: "tier_manager \<Rightarrow> tier_manager \<Rightarrow> bool" where
  "settles m m' \<longleftrightarrow> m' = m\<lparr>tm_segments := tm_segments m'\<rparr> \<and> evicted (tm_segments m) (tm_segments m')
     \<and> tier_bytes (tm_segments m') HotDram \<le> tm_hot_capacity m
     \<and> tier_bytes (tm_segments m') WarmMapped \<le> tm_warm_capacity m"

lemma enforce_capacity_ok:
  assumes "segs_wf (tm_segments m)" "all_bytes (tm_segments m) < usize_limit"
  shows "\<exists>m'. enforce_capacity m = Some (Ok m') \<and> settles m m' \<and> segs_wf (tm_segments m')"
proof -
  obtain mid where A: "evict_loop HotDram WarmMapped (tm_hot_capacity m) (tm_segments m) = Some (Ok mid)" "segs_wf mid"
    "all_bytes mid = all_bytes (tm_segments m)" "tier_bytes mid HotDram \<le> tm_hot_capacity m"
    "demotes HotDram WarmMapped (tm_segments m) mid"
    using evict_loop_ok [OF assms(1) _ assms(2), of HotDram WarmMapped "tm_hot_capacity m"] by (auto simp: evict_outcome_def)
  obtain segs where B: "evict_loop WarmMapped ColdMedia (tm_warm_capacity m) mid = Some (Ok segs)" "segs_wf segs"
    "tier_bytes segs WarmMapped \<le> tm_warm_capacity m" "demotes WarmMapped ColdMedia mid segs"
    "tier_bytes segs HotDram = tier_bytes mid HotDram"
    using evict_loop_ok [OF A(2), of WarmMapped ColdMedia "tm_warm_capacity m"] A(3) assms(2) by (auto simp: evict_outcome_def)
  have "enforce_capacity m = Some (Ok (m\<lparr>tm_segments := segs\<rparr>))" by (simp add: enforce_capacity_def A(1) B(1))
  moreover have "settles m (m\<lparr>tm_segments := segs\<rparr>)"
    using A(4) B(3,5) evicted_twice [OF A(5) B(4)] by (simp add: settles_def)
  ultimately show ?thesis using B(2) by auto
qed

subsection \<open>Reachable managers\<close>

inductive tiers_reachable :: "tier_manager \<Rightarrow> bool" where
  new: "tiers_reachable (tiers_new hot warm)"
| register: "tiers_reachable m \<Longrightarrow> tiers_reachable (register_segment m i byte_size tier)"
| access: "tiers_reachable m \<Longrightarrow> record_access m i = Some (r, m') \<Longrightarrow> r \<noteq> Panic \<Longrightarrow> tiers_reachable m'"
| move: "tiers_reachable m \<Longrightarrow> migrate m i tier = Some (r, m') \<Longrightarrow> r \<noteq> Panic \<Longrightarrow> tiers_reachable m'"

definition tiers_inv :: "tier_manager \<Rightarrow> bool" where
  "tiers_inv m \<longleftrightarrow> segs_wf (tm_segments m)
     \<and> (\<forall>i s. bt_get (tm_segments m) i = Some s \<longrightarrow> sg_access_count s \<le> tm_step m)"

text \<open>Whatever an eviction loop returns, it only moved segments between tiers.\<close>

definition same_but_tier :: "segments \<Rightarrow> segments \<Rightarrow> bool" where
  "same_but_tier segs segs' \<longleftrightarrow> (\<forall>i. map_option (\<lambda>s. s\<lparr>sg_tier := ColdMedia\<rparr>) (bt_get segs' i)
     = map_option (\<lambda>s. s\<lparr>sg_tier := ColdMedia\<rparr>) (bt_get segs i))"

lemma demotes_same: "demotes tier below segs segs' \<Longrightarrow> same_but_tier segs segs'"
  unfolding same_but_tier_def demotes_def by (smt (verit) option.map(2) tiered_segment.surjective tiered_segment.update_convs(3))

lemma evict_loop_same:
  assumes "evict_loop tier below cap segs = Some (Ok segs')" "segs_wf segs" "tier \<noteq> below"
  shows "segs_wf segs' \<and> same_but_tier segs segs'"
  using evict_loop_total [OF assms(2,3), of cap] assms(1) demotes_same by (auto simp: evict_outcome_def)

lemma enforce_inv:
  assumes "enforce_capacity m = Some (Ok m')" "tiers_inv m"
  shows "tiers_inv m'"
proof -
  obtain mid segs where L: "evict_loop HotDram WarmMapped (tm_hot_capacity m) (tm_segments m) = Some (Ok mid)"
    "evict_loop WarmMapped ColdMedia (tm_warm_capacity m) mid = Some (Ok segs)" "m' = m\<lparr>tm_segments := segs\<rparr>"
    using assms(1) unfolding enforce_capacity_def by (auto elim!: pbind_Some_Ok)
  have wf: "segs_wf (tm_segments m)" using assms(2) by (simp add: tiers_inv_def)
  from evict_loop_same [OF L(1) wf] evict_loop_same [OF L(2)]
  have S: "segs_wf segs" "same_but_tier (tm_segments m) segs" by (auto simp: same_but_tier_def)
  have "sg_access_count s' \<le> tm_step m" if s': "bt_get segs i = Some s'" for i s'
  proof -
    have "Some (s'\<lparr>sg_tier := ColdMedia\<rparr>) = map_option (\<lambda>s. s\<lparr>sg_tier := ColdMedia\<rparr>) (bt_get (tm_segments m) i)"
      using S(2) s' by (metis same_but_tier_def option.map(2))
    then obtain s where s: "bt_get (tm_segments m) i = Some s" "s'\<lparr>sg_tier := ColdMedia\<rparr> = s\<lparr>sg_tier := ColdMedia\<rparr>"
      by (cases "bt_get (tm_segments m) i") auto
    from arg_cong [OF s(2), of sg_access_count] have "sg_access_count s' = sg_access_count s" by simp
    then show ?thesis using assms(2) s(1) by (simp add: tiers_inv_def)
  qed
  then show ?thesis using S(1) by (simp add: tiers_inv_def L(3))
qed

lemma tiers_inv_update:
  assumes "tiers_inv m" "bt_get (tm_segments m) i = Some s" "sg_id t = sg_id s" "sg_byte_size t = sg_byte_size s"
    "tm_step m \<le> step" "sg_access_count t \<le> step"
  shows "tiers_inv (m\<lparr>tm_step := step, tm_segments := bt_insert i t (tm_segments m)\<rparr>)"
  using assms update_segment(1) [OF _ assms(2-4)] unfolding tiers_inv_def by (auto intro: order_trans)

text \<open>What an access and a migration do before the budgets are enforced.\<close>

definition accessed :: "tier_manager \<Rightarrow> u64 \<Rightarrow> tiered_segment \<Rightarrow> tier_manager" where
  "accessed m i s = m\<lparr>tm_step := tm_step m + 1,
     tm_segments := bt_insert i (touch (tm_step m + 1) (sg_access_count s + 1) s) (tm_segments m)\<rparr>"

definition moved :: "tier_manager \<Rightarrow> u64 \<Rightarrow> tiered_segment \<Rightarrow> storage_tier \<Rightarrow> tier_manager" where
  "moved m i s target = m\<lparr>tm_segments := bt_insert i (s\<lparr>sg_tier := target\<rparr>) (tm_segments m)\<rparr>"

lemma step_no_overflow:
  assumes "tiers_inv m" "tm_step m \<noteq> - 1"
  shows "checked_add (tm_step m) 1 = Some (tm_step m + 1)" "tm_step m \<le> tm_step m + 1"
    "bt_get (tm_segments m) i = Some s \<Longrightarrow> checked_add (sg_access_count s) 1 = Some (sg_access_count s + 1)"
    "bt_get (tm_segments m) i = Some s \<Longrightarrow> sg_access_count s + 1 \<le> tm_step m + 1"
proof -
  note lt = not_max_u64 [OF assms(2)]
  then show "checked_add (tm_step m) 1 = Some (tm_step m + 1)" "tm_step m \<le> tm_step m + 1"
    by (simp_all add: checked_add_def word_le_nat_alt unat_word_ariths)
  assume "bt_get (tm_segments m) i = Some s"
  then have "unat (sg_access_count s) \<le> unat (tm_step m)" using assms(1) by (simp add: tiers_inv_def word_le_nat_alt)
  then show "checked_add (sg_access_count s) 1 = Some (sg_access_count s + 1)" "sg_access_count s + 1 \<le> tm_step m + 1"
    using lt by (simp_all add: checked_add_def word_le_nat_alt unat_word_ariths)
qed

lemma accessed_inv:
  assumes "tiers_inv m" "tm_step m \<noteq> - 1" "bt_get (tm_segments m) i = Some s"
  shows "tiers_inv (accessed m i s)"
  unfolding accessed_def using assms step_no_overflow [OF assms(1,2)]
  by (intro tiers_inv_update) (auto simp: touch_def)

lemma moved_inv: "tiers_inv m \<Longrightarrow> bt_get (tm_segments m) i = Some s \<Longrightarrow> tiers_inv (moved m i s target)"
  using tiers_inv_update [of m i s "s\<lparr>sg_tier := target\<rparr>" "tm_step m"] by (auto simp: moved_def tiers_inv_def)

lemma record_access_eq:
  assumes inv: "tiers_inv m" and step: "tm_step m \<noteq> - 1"
  shows "record_access m i = (case bt_get (tm_segments m) i of
       None \<Rightarrow> Some (Err (RtSegmentNotFound i), m\<lparr>tm_step := tm_step m + 1\<rparr>)
     | Some s \<Rightarrow> map_option (\<lambda>r. case r of
           Ok m' \<Rightarrow> (Ok (sg_tier (touch (tm_step m + 1) (sg_access_count s + 1) s)), m')
         | Err e \<Rightarrow> (Err e, accessed m i s)
         | Panic \<Rightarrow> (Panic, accessed m i s)) (enforce_capacity (accessed m i s)))"
  using step_no_overflow [OF inv step]
  by (auto simp: record_access_def Let_def accessed_def split: option.splits)

lemma enforce_total:
  assumes "segs_wf (tm_segments m)"
  obtains "enforce_capacity m = Some Panic" | m' where "enforce_capacity m = Some (Ok m')"
proof -
  consider "evict_loop HotDram WarmMapped (tm_hot_capacity m) (tm_segments m) = Some Panic"
    | mid where "evict_loop HotDram WarmMapped (tm_hot_capacity m) (tm_segments m) = Some (Ok mid)" "segs_wf mid"
    using evict_loop_total [OF assms, of HotDram WarmMapped "tm_hot_capacity m"] by (auto simp: evict_outcome_def)
  then show thesis
  proof cases
    case 1
    then show thesis by (intro that(1)) (simp add: enforce_capacity_def)
  next
    case (2 mid)
    then show thesis using that evict_loop_total [OF 2(2), of WarmMapped ColdMedia "tm_warm_capacity m"]
      by (auto simp: enforce_capacity_def)
  qed
qed

lemma tiers_reachable_inv: "tiers_reachable m \<Longrightarrow> tiers_inv m"
proof (induction rule: tiers_reachable.induct)
  case (new hot warm)
  show ?case by (simp add: tiers_inv_def segs_wf_def tiers_new_def)
next
  case (register m i byte_size tier)
  then show ?case by (auto simp: tiers_inv_def segs_wf_def register_segment_def)
next
  case (access m i r m')
  show ?case
  proof (cases "tm_step m = - 1")
    case True
    then have "checked_add (tm_step m) 1 = None" by (simp add: checked_add_def unsigned_minus_1_eq_mask mask_eq_exp_minus_1)
    then show ?thesis using access by (simp add: record_access_def)
  next
    case False
    show ?thesis
    proof (cases "bt_get (tm_segments m) i")
      case None
      then have "m' = m\<lparr>tm_step := tm_step m + 1\<rparr>" using access record_access_eq [OF access.IH False, of i] by simp
      then show ?thesis using access.IH step_no_overflow(2) [OF access.IH False] by (auto simp: tiers_inv_def intro: order_trans)
    next
      case (Some s)
      then have inv: "tiers_inv (accessed m i s)" by (rule accessed_inv [OF access.IH False])
      then have "segs_wf (tm_segments (accessed m i s))" by (simp add: tiers_inv_def)
      then show ?thesis
        by (cases rule: enforce_total) (use access record_access_eq [OF access.IH False, of i] Some enforce_inv [OF _ inv] in auto)
    qed
  qed
next
  case (move m i tier r m')
  show ?case
  proof (cases "bt_get (tm_segments m) i")
    case None
    then show ?thesis using move by (simp add: migrate_def)
  next
    case (Some s)
    then have inv: "tiers_inv (moved m i s tier)" by (rule moved_inv [OF move.IH])
    then have "segs_wf (tm_segments (moved m i s tier))" by (simp add: tiers_inv_def)
    then show ?thesis
      by (cases rule: enforce_total) (use move Some enforce_inv [OF _ inv] in \<open>auto simp: migrate_def moved_def\<close>)
  qed
qed

subsection \<open>Properties\<close>

text \<open>C16: An access and a migration on any reachable manager, if the segment sizes do not overflow a
  \<open>usize\<close> and the step counter is not exhausted: both terminate without a panic; an unknown segment is
  the only error; otherwise both budgets hold afterwards, segments only moved to lower tiers, and a
  segment that was pushed out of a tier was last used no later than any segment that the tier still holds.\<close>

theorem tier_budgets_enforced:
  assumes m: "tiers_reachable m" and bytes: "all_bytes (tm_segments m) < usize_limit" and step: "tm_step m \<noteq> - 1"
  shows "(case bt_get (tm_segments m) i of
       None \<Rightarrow> record_access m i = Some (Err (RtSegmentNotFound i), m\<lparr>tm_step := tm_step m + 1\<rparr>)
             \<and> migrate m i target = Some (Err (RtSegmentNotFound i), m)
     | Some s \<Rightarrow>
         (\<exists>m'. record_access m i = Some (Ok (sg_tier (touch (tm_step m + 1) (sg_access_count s + 1) s)), m')
               \<and> settles (accessed m i s) m')
       \<and> (\<exists>m'. migrate m i target = Some (Ok (), m') \<and> settles (moved m i s target) m'))"
proof (cases "bt_get (tm_segments m) i")
  case None
  then show ?thesis using record_access_eq [OF tiers_reachable_inv [OF m] step, of i] by (simp add: migrate_def)
next
  case (Some s)
  have inv: "tiers_inv m" by (rule tiers_reachable_inv [OF m])
  then have wf: "segs_wf (tm_segments m)" by (simp add: tiers_inv_def)
  have b: "all_bytes (tm_segments (accessed m i s)) < usize_limit" "all_bytes (tm_segments (moved m i s target)) < usize_limit"
    using bytes update_segment(2) [OF wf Some] by (simp_all add: accessed_def moved_def touch_def)
  have w: "segs_wf (tm_segments (accessed m i s))" "segs_wf (tm_segments (moved m i s target))"
    using accessed_inv [OF inv step Some] moved_inv [OF inv Some, of target] unfolding tiers_inv_def by blast+
  obtain m1 where m1: "enforce_capacity (accessed m i s) = Some (Ok m1)" "settles (accessed m i s) m1"
    using enforce_capacity_ok [OF w(1) b(1)] by blast
  obtain m2 where m2: "enforce_capacity (moved m i s target) = Some (Ok m2)" "settles (moved m i s target) m2"
    using enforce_capacity_ok [OF w(2) b(2)] by blast
  have "record_access m i = Some (Ok (sg_tier (touch (tm_step m + 1) (sg_access_count s + 1) s)), m1)"
    by (simp add: record_access_eq [OF inv step] Some m1(1))
  moreover have "migrate m i target = Some (Ok (), m2)"
    using m2(1) by (simp add: migrate_def Some moved_def)
  ultimately show ?thesis using Some m1(2) m2(2) by simp
qed

theorem tier_budgets_enforced_witness:
  "\<exists>m'. migrate (register_segment (tiers_new 10 100) 7 50 ColdMedia) 7 HotDram = Some (Ok (), m')
     \<and> tier_bytes (tm_segments m') HotDram \<le> 10"
proof -
  let ?m = "register_segment (tiers_new 10 100) 7 50 ColdMedia"
  have r: "tiers_reachable ?m" by (intro tiers_reachable.register tiers_reachable.new)
  have "all_bytes (tm_segments ?m) < usize_limit" "tm_step ?m \<noteq> - 1"
    by (simp_all add: register_segment_def tiers_new_def all_bytes_def)
  from tier_budgets_enforced [OF r this, of 7 HotDram] show ?thesis
    by (auto simp: register_segment_def tiers_new_def settles_def moved_def bt_get_def)
qed

end
