(* ===== verification/Index_Summary.thy ===== *)
theory Index_Summary
  imports Event_Log Wal_Format
begin

section \<open>Block and segment summaries (\<open>temnion-index\<close>: zone maps, Bloom filter, pruning)\<close>

text \<open>
  A summary is built from the first record of a block and extended with the others. What every kind of
  summary promises is the locale \<open>summary\<close>: a record that was put in stays covered. Zone maps, clock
  zone maps and the Bloom filter interpret it, and the pruning decisions of blocks and segments
  rest on those interpretations.
\<close>

locale summary =
  fixes single :: "'r \<Rightarrow> 's" and extend :: "'r \<Rightarrow> 's \<Rightarrow> 's" and covers :: "'s \<Rightarrow> 'r \<Rightarrow> bool" and ok :: "'s \<Rightarrow> bool"
  assumes ok_single: "ok (single r)"
    and ok_extend: "ok s \<Longrightarrow> ok (extend r s)"
    and covers_single: "covers (single r) r"
    and covers_extend: "ok s \<Longrightarrow> covers (extend r s) r"
    and covers_keep: "ok s \<Longrightarrow> covers s r' \<Longrightarrow> covers (extend r s) r'"
begin

lemma fold_keep: "ok s \<Longrightarrow> covers s r \<Longrightarrow> ok (fold extend rs s) \<and> covers (fold extend rs s) r"
  by (induction rs arbitrary: s) (auto simp: ok_extend covers_keep)

lemma fold_covers: "ok s \<Longrightarrow> r \<in> set rs \<Longrightarrow> covers (fold extend rs s) r"
proof (induction rs arbitrary: s)
  case (Cons x rs)
  then show ?case using fold_keep [of "extend x s" x rs] by (auto simp: ok_extend covers_extend)
qed simp

lemma covers_all: "r \<in> insert x (set rs) \<Longrightarrow> covers (fold extend rs (single x)) r"
  using fold_keep [of "single x" x rs] fold_covers [of "single x" r rs] by (auto simp: ok_single covers_single)

end

subsection \<open>Zone maps\<close>

record 'a zone_map =
  zm_min :: 'a
  zm_max :: 'a

definition zone_new :: "'a \<Rightarrow> 'a zone_map" where
  "zone_new v = \<lparr>zm_min = v, zm_max = v\<rparr>"

definition zone_update :: "'a::linorder \<Rightarrow> 'a zone_map \<Rightarrow> 'a zone_map" where
  "zone_update v z = (let z = (if v < zm_min z then z\<lparr>zm_min := v\<rparr> else z) in
     if v > zm_max z then z\<lparr>zm_max := v\<rparr> else z)"

definition zone_contains :: "'a::linorder zone_map \<Rightarrow> 'a \<Rightarrow> bool" where
  "zone_contains z v \<longleftrightarrow> v \<ge> zm_min z \<and> v \<le> zm_max z"

definition zone_overlaps :: "'a::linorder zone_map \<Rightarrow> 'a zone_map \<Rightarrow> bool" where
  "zone_overlaps z y \<longleftrightarrow> zm_min z \<le> zm_max y \<and> zm_max z \<ge> zm_min y"

definition zone_overlaps_bounds :: "'a::linorder zone_map \<Rightarrow> 'a option \<Rightarrow> 'a option \<Rightarrow> bool" where
  "zone_overlaps_bounds z start stop =
     (if (case start of Some s \<Rightarrow> zm_max z < s | None \<Rightarrow> False) then False
      else if (case stop of Some e \<Rightarrow> zm_min z > e | None \<Rightarrow> False) then False
      else True)"

lemma zone_update_fields: "zm_min (zone_update v z) = min v (zm_min z)" "zm_max (zone_update v z) = max v (zm_max z)"
  by (auto simp: zone_update_def Let_def min_def max_def)

interpretation zone: summary zone_new zone_update zone_contains "\<lambda>_. True"
  by unfold_locales (auto simp: zone_new_def zone_contains_def zone_update_fields min_le_iff_disj le_max_iff_disj)

record ts_zone_map =
  tz_clock :: clock_id
  tz_min :: u64
  tz_max :: u64

definition ts_zone_new :: "timestamp \<Rightarrow> ts_zone_map" where
  "ts_zone_new t = \<lparr>tz_clock = ts_clock t, tz_min = ts_ticks t, tz_max = ts_ticks t\<rparr>"

definition ts_zone_update :: "timestamp \<Rightarrow> ts_zone_map \<Rightarrow> ts_zone_map" where
  "ts_zone_update t z =
     (if ts_clock t = tz_clock z then
        (let z = (if ts_ticks t < tz_min z then z\<lparr>tz_min := ts_ticks t\<rparr> else z) in
         if ts_ticks t > tz_max z then z\<lparr>tz_max := ts_ticks t\<rparr> else z)
      else z)"

definition overlaps_range :: "ts_zone_map \<Rightarrow> time_range \<Rightarrow> bool" where
  "overlaps_range z r = (if tz_clock z \<noteq> tr_clock r then True else tz_min z < tr_end r \<and> tz_max z \<ge> tr_start r)"

definition can_contain_known :: "ts_zone_map \<Rightarrow> timestamp \<Rightarrow> bool" where
  "can_contain_known z cutoff = (if tz_clock z \<noteq> ts_clock cutoff then True else tz_min z \<le> ts_ticks cutoff)"

text \<open>A clock zone covers a timestamp if it is on another clock or between the bounds.\<close>

definition tz_covers :: "ts_zone_map \<Rightarrow> timestamp \<Rightarrow> bool" where
  "tz_covers z t \<longleftrightarrow> (ts_clock t = tz_clock z \<longrightarrow> tz_min z \<le> ts_ticks t \<and> ts_ticks t \<le> tz_max z)"

lemma ts_zone_update_clock [simp]: "tz_clock (ts_zone_update t z) = tz_clock z"
  by (simp add: ts_zone_update_def Let_def)

lemma fold_ts_zone_clock [simp]: "tz_clock (fold ts_zone_update ts z) = tz_clock z"
  by (induction ts arbitrary: z) simp_all

lemma ts_zone_update_fields:
  "tz_min (ts_zone_update t z) = (if ts_clock t = tz_clock z then min (ts_ticks t) (tz_min z) else tz_min z)"
  "tz_max (ts_zone_update t z) = (if ts_clock t = tz_clock z then max (ts_ticks t) (tz_max z) else tz_max z)"
  by (auto simp: ts_zone_update_def Let_def min_def max_def)

interpretation tzone: summary ts_zone_new ts_zone_update tz_covers "\<lambda>_. True"
  by unfold_locales (auto simp: ts_zone_new_def tz_covers_def ts_zone_update_fields min_le_iff_disj le_max_iff_disj)

lemma overlaps_range_sound: "tz_covers z t \<Longrightarrow> range_contains r t \<Longrightarrow> overlaps_range z r"
  by (auto simp: tz_covers_def range_contains_def overlaps_range_def)

lemma can_contain_known_sound:
  "tz_covers z t \<Longrightarrow> ts_clock t = tz_clock z \<Longrightarrow> ts_ticks t \<le> ts_ticks cutoff \<Longrightarrow> can_contain_known z cutoff"
  by (auto simp: tz_covers_def can_contain_known_def)

subsection \<open>The entity Bloom filter\<close>

type_synonym bloom = bytes

definition bloom_new :: bloom where
  "bloom_new = replicate 64 0"

definition bloom_is_empty :: "bloom \<Rightarrow> bool" where
  "bloom_is_empty b = list_all (\<lambda>x. x = 0) b"

definition hash_entity :: "entity_id \<Rightarrow> u64 \<Rightarrow> usize" where
  "hash_entity e seed =
     (let h = seed + 0x9e3779b97f4a7c15;
          h = h XOR (push_bit 32 (ucast (ent_shard e)) OR ucast (ent_slot e));
          h = h * 0xbf58476d1ce4e5b9;
          h = h XOR drop_bit 30 h;
          h = h XOR (ucast (ent_generation e) * 0x94d049bb133111eb);
          h = h * 0xbf58476d1ce4e5b9;
          h = h XOR drop_bit 32 h
      in unat (h mod 512))"

definition SEEDS :: "u64 list" where
  "SEEDS = [0x517cc1b727220a95, 0x6e3a39e7b401e62a, 0x9b6b79f324e93081, 0xc6a4a7935bd1e995]"

definition set_bloom_bit :: "usize \<Rightarrow> bloom \<Rightarrow> bloom" where
  "set_bloom_bit i b = b[i div 8 := (b ! (i div 8)) OR push_bit (i mod 8) 1]"

definition get_bloom_bit :: "bloom \<Rightarrow> usize \<Rightarrow> bool" where
  "get_bloom_bit b i \<longleftrightarrow> (b ! (i div 8)) AND push_bit (i mod 8) 1 \<noteq> 0"

definition bloom_insert :: "entity_id \<Rightarrow> bloom \<Rightarrow> bloom" where
  "bloom_insert e b = fold (\<lambda>seed. set_bloom_bit (hash_entity e seed)) SEEDS b"

definition may_contain :: "bloom \<Rightarrow> entity_id \<Rightarrow> bool" where
  "may_contain b e = list_all (\<lambda>seed. get_bloom_bit b (hash_entity e seed)) SEEDS"

lemma hash_entity_bound: "hash_entity e seed < 512"
  unfolding hash_entity_def Let_def by (simp add: unat_mod word_mod_less_divisor)

lemma length_set_bloom_bit [simp]: "length (set_bloom_bit i b) = length b"
  by (simp add: set_bloom_bit_def)

lemma get_bloom_bit_iff: "get_bloom_bit b i \<longleftrightarrow> bit (b ! (i div 8)) (i mod 8)"
  by (simp add: get_bloom_bit_def push_bit_of_1 and_exp_eq_0_iff_not_bit)

lemma set_then_get: "i < 8 * length b \<Longrightarrow> get_bloom_bit (set_bloom_bit i b) i"
  unfolding get_bloom_bit_iff set_bloom_bit_def by (simp add: bit_simps)

lemma set_keeps_get: "get_bloom_bit b j \<Longrightarrow> get_bloom_bit (set_bloom_bit i b) j"
  unfolding get_bloom_bit_iff set_bloom_bit_def
  by (cases "i div 8 < length b") (auto simp: nth_list_update bit_simps list_update_beyond)

lemma fold_set_keeps: "get_bloom_bit b j \<Longrightarrow> get_bloom_bit (fold (\<lambda>s. set_bloom_bit (h s)) ss b) j"
  by (induction ss arbitrary: b) (simp_all add: set_keeps_get)

lemma fold_set_length [simp]: "length (fold (\<lambda>s. set_bloom_bit (h s)) ss b) = length b"
  by (induction ss arbitrary: b) simp_all

lemma fold_set_gets:
  "length b = 64 \<Longrightarrow> s \<in> set ss \<Longrightarrow> (\<And>s. h s < 512) \<Longrightarrow> get_bloom_bit (fold (\<lambda>s. set_bloom_bit (h s)) ss b) (h s)"
  by (induction ss arbitrary: b) (auto simp: fold_set_keeps set_then_get)

interpretation bloom: summary "\<lambda>e. bloom_insert e bloom_new" bloom_insert may_contain "\<lambda>b. length b = 64"
  by unfold_locales
    (auto simp: bloom_insert_def bloom_new_def may_contain_def list_all_iff fold_set_gets fold_set_keeps hash_entity_bound)

subsection \<open>Block summaries\<close>

datatype index_error =
    IxIo string
  | IxFormat string
  | IxChecksumMismatch
  | IxInvalidMagic
  | IxUnsupportedVersion u16

datatype skip_decision = Skip | MustScan

record block_summary =
  bk_batch_index :: u32
  bk_record_count :: u32
  bk_byte_offset :: u64
  bk_byte_length :: u32
  bk_sequence_range :: "u64 zone_map"
  bk_valid_time_range :: ts_zone_map
  bk_known_time_range :: ts_zone_map
  bk_entity_range :: "entity_id zone_map"
  bk_entity_bloom :: bloom
  bk_schema_mask :: u64

definition schema_bit :: "schema_id \<Rightarrow> u64" where
  "schema_bit schema = (if schema < 64 then push_bit (unat schema) 1 else 0)"

definition block_new :: "u32 \<Rightarrow> u64 \<Rightarrow> u32 \<Rightarrow> u64 \<Rightarrow> entity_id \<Rightarrow> schema_id \<Rightarrow> event_times \<Rightarrow> block_summary" where
  "block_new batch_index byte_offset byte_length sq entity schema tms =
     \<lparr>bk_batch_index = batch_index, bk_record_count = 1, bk_byte_offset = byte_offset, bk_byte_length = byte_length,
      bk_sequence_range = zone_new sq, bk_valid_time_range = ts_zone_new (et_valid tms),
      bk_known_time_range = ts_zone_new (et_known tms), bk_entity_range = zone_new entity,
      bk_entity_bloom = bloom_insert entity bloom_new, bk_schema_mask = schema_bit schema\<rparr>"

definition block_update :: "u64 \<Rightarrow> entity_id \<Rightarrow> schema_id \<Rightarrow> event_times \<Rightarrow> block_summary \<Rightarrow> (block_summary, 'e) result" where
  "block_update sq entity schema tms b =
     rbind (add_or_panic (bk_record_count b) 1) (\<lambda>n.
     Ok (b\<lparr>bk_record_count := n,
       bk_sequence_range := zone_update sq (bk_sequence_range b),
       bk_valid_time_range := ts_zone_update (et_valid tms) (bk_valid_time_range b),
       bk_known_time_range := ts_zone_update (et_known tms) (bk_known_time_range b),
       bk_entity_range := zone_update entity (bk_entity_range b),
       bk_entity_bloom := bloom_insert entity (bk_entity_bloom b),
       bk_schema_mask := bk_schema_mask b OR schema_bit schema\<rparr>))"

definition block_matches :: "block_summary \<Rightarrow> history_filter \<Rightarrow> skip_decision" where
  "block_matches b f =
     (if (case hf_entity f of None \<Rightarrow> False
          | Some e \<Rightarrow> \<not> zone_contains (bk_entity_range b) e \<or> \<not> may_contain (bk_entity_bloom b) e) then Skip
      else if (case hf_known_as_of f of None \<Rightarrow> False
          | Some cutoff \<Rightarrow> \<not> can_contain_known (bk_known_time_range b) cutoff) then Skip
      else if (case hf_time f of None \<Rightarrow> False
          | Some (axis, r) \<Rightarrow> (case axis of
                Valid \<Rightarrow> \<not> overlaps_range (bk_valid_time_range b) r
              | Known \<Rightarrow> \<not> overlaps_range (bk_known_time_range b) r
              | Observed \<Rightarrow> False)) then Skip
      else MustScan)"

definition matches_sequence_range :: "block_summary \<Rightarrow> u64 \<Rightarrow> u64 \<Rightarrow> skip_decision" where
  "matches_sequence_range b start stop =
     (if zm_min (bk_sequence_range b) > stop \<or> zm_max (bk_sequence_range b) < start then Skip else MustScan)"

text \<open>The summary of a frame, as the store builds it: from its first record, extended with the others.\<close>

definition block_add :: "stored_event \<Rightarrow> block_summary \<Rightarrow> (block_summary, 'e) result" where
  "block_add r = block_update (eid_sequence (se_id r)) (se_entity r) (se_schema r) (se_times r)"

definition summarize :: "u32 \<Rightarrow> u64 \<Rightarrow> u32 \<Rightarrow> stored_event list \<Rightarrow> (block_summary, 'e) result" where
  "summarize batch_index offset len records = (case records of
       [] \<Rightarrow> Panic
     | r # rs \<Rightarrow> fold_result block_add rs
         (block_new batch_index offset len (eid_sequence (se_id r)) (se_entity r) (se_schema r) (se_times r)))"

text \<open>The filter of a history query on a stored record.\<close>

definition stored_keeps :: "history_filter \<Rightarrow> stored_event \<Rightarrow> bool" where
  "stored_keeps f r \<longleftrightarrow>
     \<not> ((case hf_entity f of None \<Rightarrow> False | Some e \<Rightarrow> e \<noteq> se_entity r)
      \<or> (case hf_known_as_of f of None \<Rightarrow> False | Some cutoff \<Rightarrow> ts_ticks (et_known (se_times r)) > ts_ticks cutoff)
      \<or> (case hf_time f of None \<Rightarrow> False
         | Some (axis, rg) \<Rightarrow> \<not> (case times_on (se_times r) axis of None \<Rightarrow> False | Some t \<Rightarrow> range_contains rg t)))"

lemma fold_block_update:
  "fold_result block_add rs b = (Ok b' :: (_, 'e) result) \<Longrightarrow>
     bk_sequence_range b' = fold zone_update (map (\<lambda>r. eid_sequence (se_id r)) rs) (bk_sequence_range b)
   \<and> bk_valid_time_range b' = fold ts_zone_update (map (\<lambda>r. et_valid (se_times r)) rs) (bk_valid_time_range b)
   \<and> bk_known_time_range b' = fold ts_zone_update (map (\<lambda>r. et_known (se_times r)) rs) (bk_known_time_range b)
   \<and> bk_entity_range b' = fold zone_update (map se_entity rs) (bk_entity_range b)
   \<and> bk_entity_bloom b' = fold bloom_insert (map se_entity rs) (bk_entity_bloom b)
   \<and> unat (bk_record_count b') = unat (bk_record_count b) + length rs"
proof (induction rs arbitrary: b)
  case (Cons r rs)
  from Cons.prems obtain b1 where b1: "block_add r b = (Ok b1 :: (_, 'e) result)" "fold_result block_add rs b1 = (Ok b' :: (_, 'e) result)"
    by (auto simp: rbind_eq_Ok)
  from b1(1) obtain n where n: "checked_add (bk_record_count b) 1 = Some n"
    by (auto simp: block_add_def block_update_def add_or_panic_def split: option.splits)
  show ?case using Cons.IH [OF b1(2)] b1(1) n checked_add_Some [OF n]
    by (auto simp: block_add_def block_update_def add_or_panic_def)
qed simp

text \<open>What the summary of a frame covers.\<close>

definition block_covers :: "block_summary \<Rightarrow> stored_event \<Rightarrow> bool" where
  "block_covers b r \<longleftrightarrow> zone_contains (bk_sequence_range b) (eid_sequence (se_id r))
     \<and> tz_covers (bk_valid_time_range b) (et_valid (se_times r)) \<and> tz_covers (bk_known_time_range b) (et_known (se_times r))
     \<and> zone_contains (bk_entity_range b) (se_entity r) \<and> may_contain (bk_entity_bloom b) (se_entity r)"

lemma summarize_covers:
  assumes "summarize i off len records = (Ok b :: (_, 'e) result)"
  shows "\<forall>r \<in> set records. block_covers b r" "unat (bk_record_count b) = length records"
    "tz_clock (bk_known_time_range b) = ts_clock (et_known (se_times (hd records)))"
    "tz_clock (bk_valid_time_range b) = ts_clock (et_valid (se_times (hd records)))" "records \<noteq> []"
proof -
  obtain x xs where rs: "records = x # xs" using assms by (cases records) (auto simp: summarize_def)
  have step: "fold_result block_add xs
     (block_new i off len (eid_sequence (se_id x)) (se_entity x) (se_schema x) (se_times x)) = (Ok b :: (_, 'e) result)"
    using assms by (simp add: rs summarize_def)
  note F = fold_block_update [OF step, simplified block_new_def, simplified]
  show "\<forall>r \<in> set records. block_covers b r"
  proof
    fix r assume r: "r \<in> set records"
    have m: "f r \<in> insert (f x) (set (map f xs))" for f :: "stored_event \<Rightarrow> 'z" using r by (auto simp: rs)
    show "block_covers b r" unfolding block_covers_def
      using F zone.covers_all [OF m [of "\<lambda>r. eid_sequence (se_id r)"]] zone.covers_all [OF m [of se_entity]]
        tzone.covers_all [OF m [of "\<lambda>r. et_valid (se_times r)"]] tzone.covers_all [OF m [of "\<lambda>r. et_known (se_times r)"]]
        bloom.covers_all [OF m [of se_entity]] by simp
  qed
  show "unat (bk_record_count b) = length records" "tz_clock (bk_known_time_range b) = ts_clock (et_known (se_times (hd records)))"
    "tz_clock (bk_valid_time_range b) = ts_clock (et_valid (se_times (hd records)))" "records \<noteq> []"
    using F by (simp_all add: rs ts_zone_new_def)
qed

lemma block_covers_sound:
  assumes "block_covers b r" "ts_clock (et_known (se_times r)) = tz_clock (bk_known_time_range b)" "stored_keeps f r"
  shows "block_matches b f = MustScan"
  using assms overlaps_range_sound can_contain_known_sound [of "bk_known_time_range b" "et_known (se_times r)"]
  by (auto simp: block_matches_def block_covers_def stored_keeps_def split: option.splits prod.splits time_axis.splits)

end
