(* ===== verification/Index_Segment.thy ===== *)
theory Index_Segment
  imports Index_Summary
begin

section \<open>Segment summaries (\<open>temnion-index\<close>: \<open>SegmentSummary\<close>)\<close>

text \<open>
  The aggregate of the block summaries of a segment, its pruning decision and its binary form. The
  decoder checks the total length once and then reads by indexing; a read past the end would be a
  panic. The checksum is the parameter \<open>crc\<close>.
\<close>

record segment_summary =
  ss_database :: database_id
  ss_source :: source_id
  ss_epoch :: source_epoch
  ss_sequence_range :: "u64 zone_map"
  ss_valid_time_range :: ts_zone_map
  ss_known_time_range :: ts_zone_map
  ss_entity_range :: "entity_id zone_map"
  ss_total_records :: u64
  ss_blocks :: "block_summary list"

definition tz_absorb :: "ts_zone_map \<Rightarrow> ts_zone_map \<Rightarrow> ts_zone_map" where
  "tz_absorb y z = ts_zone_update \<lparr>ts_clock = tz_clock y, ts_ticks = tz_max y\<rparr>
     (ts_zone_update \<lparr>ts_clock = tz_clock y, ts_ticks = tz_min y\<rparr> z)"

definition zone_absorb :: "'a::linorder zone_map \<Rightarrow> 'a zone_map \<Rightarrow> 'a zone_map" where
  "zone_absorb y z = zone_update (zm_max y) (zone_update (zm_min y) z)"

definition segment_absorb :: "block_summary \<Rightarrow> segment_summary \<Rightarrow> (segment_summary, index_error) result" where
  "segment_absorb b s =
     rbind (add_or_panic (ss_total_records s) (ucast (bk_record_count b))) (\<lambda>n.
     Ok (s\<lparr>ss_sequence_range := zone_absorb (bk_sequence_range b) (ss_sequence_range s),
       ss_valid_time_range := tz_absorb (bk_valid_time_range b) (ss_valid_time_range s),
       ss_known_time_range := tz_absorb (bk_known_time_range b) (ss_known_time_range s),
       ss_entity_range := zone_absorb (bk_entity_range b) (ss_entity_range s),
       ss_total_records := n\<rparr>))"

definition segment_summary_new :: "database_id \<Rightarrow> source_id \<Rightarrow> source_epoch \<Rightarrow> block_summary list
    \<Rightarrow> (segment_summary, index_error) result" where
  "segment_summary_new database source epoch blocks = (case blocks of
       [] \<Rightarrow> Err (IxFormat ''cannot create segment summary from empty blocks'')
     | first # _ \<Rightarrow> fold_result segment_absorb blocks
         \<lparr>ss_database = database, ss_source = source, ss_epoch = epoch, ss_sequence_range = bk_sequence_range first,
          ss_valid_time_range = bk_valid_time_range first, ss_known_time_range = bk_known_time_range first,
          ss_entity_range = bk_entity_range first, ss_total_records = 0, ss_blocks = blocks\<rparr>)"

definition segment_matches :: "segment_summary \<Rightarrow> history_filter \<Rightarrow> skip_decision" where
  "segment_matches s f =
     (if (case hf_entity f of None \<Rightarrow> False | Some e \<Rightarrow> \<not> zone_contains (ss_entity_range s) e) then Skip
      else if (case hf_known_as_of f of None \<Rightarrow> False
          | Some cutoff \<Rightarrow> \<not> can_contain_known (ss_known_time_range s) cutoff) then Skip
      else if (case hf_time f of None \<Rightarrow> False
          | Some (axis, r) \<Rightarrow> (case axis of
                Valid \<Rightarrow> \<not> overlaps_range (ss_valid_time_range s) r
              | Known \<Rightarrow> \<not> overlaps_range (ss_known_time_range s) r
              | Observed \<Rightarrow> False)) then Skip
      else MustScan)"

subsection \<open>Binary form\<close>

definition SUMMARY_MAGIC :: bytes where "SUMMARY_MAGIC = [0x54, 0x4E, 0x53, 0x4D]"
definition SUMMARY_VERSION :: u16 where "SUMMARY_VERSION = 1"
definition BLOCK_BYTES :: usize where "BLOCK_BYTES = 4 + 4 + 8 + 4 + 16 + 20 + 20 + 12 + 12 + 8 + 64"

definition encode_tz :: "ts_zone_map \<Rightarrow> bytes" where
  "encode_tz z = to_le 4 (tz_clock z) @ to_le 8 (tz_min z) @ to_le 8 (tz_max z)"

definition encode_entity :: "entity_id \<Rightarrow> bytes" where
  "encode_entity e = to_le 4 (ent_shard e) @ to_le 4 (ent_slot e) @ to_le 4 (ent_generation e)"

definition encode_block :: "block_summary \<Rightarrow> bytes" where
  "encode_block b = to_le 4 (bk_batch_index b) @ to_le 4 (bk_record_count b) @ to_le 8 (bk_byte_offset b)
     @ to_le 4 (bk_byte_length b) @ to_le 8 (zm_min (bk_sequence_range b)) @ to_le 8 (zm_max (bk_sequence_range b))
     @ encode_tz (bk_valid_time_range b) @ encode_tz (bk_known_time_range b)
     @ encode_entity (zm_min (bk_entity_range b)) @ encode_entity (zm_max (bk_entity_range b))
     @ to_le 8 (bk_schema_mask b) @ bk_entity_bloom b"

definition segment_summary_encode :: "(bytes \<Rightarrow> u32) \<Rightarrow> segment_summary \<Rightarrow> bytes" where
  "segment_summary_encode crc s =
     (let body = ss_database s @ to_le 4 (ss_source s) @ to_le 8 (ss_epoch s) @ to_le 8 (ss_total_records s)
            @ to_le 4 (of_nat (length (ss_blocks s)) :: u32) @ concat (map encode_block (ss_blocks s))
      in SUMMARY_MAGIC @ to_le 2 SUMMARY_VERSION @ to_le 4 (crc body) @ body)"

definition decode_tz :: "bytes \<Rightarrow> (ts_zone_map \<times> bytes, index_error) result" where
  "decode_tz rest =
     rbind (slice_le 4 rest) (\<lambda>(clock, rest).
     rbind (slice_le 8 rest) (\<lambda>(mn, rest).
     rbind (slice_le 8 rest) (\<lambda>(mx, rest).
     Ok (\<lparr>tz_clock = clock, tz_min = mn, tz_max = mx\<rparr>, rest))))"

definition decode_entity :: "bytes \<Rightarrow> (entity_id \<times> bytes, index_error) result" where
  "decode_entity rest =
     rbind (slice_le 4 rest) (\<lambda>(shard, rest).
     rbind (slice_le 4 rest) (\<lambda>(slot, rest).
     rbind (slice_le 4 rest) (\<lambda>(generation, rest).
     Ok (\<lparr>ent_shard = shard, ent_slot = slot, ent_generation = generation\<rparr>, rest))))"

definition decode_block :: "bytes \<Rightarrow> (block_summary \<times> bytes, index_error) result" where
  "decode_block rest =
     rbind (slice_le 4 rest) (\<lambda>(batch_index, rest).
     rbind (slice_le 4 rest) (\<lambda>(record_count, rest).
     rbind (slice_le 8 rest) (\<lambda>(byte_offset, rest).
     rbind (slice_le 4 rest) (\<lambda>(byte_length, rest).
     rbind (slice_le 8 rest) (\<lambda>(seq_min, rest).
     rbind (slice_le 8 rest) (\<lambda>(seq_max, rest).
     rbind (decode_tz rest) (\<lambda>(valid, rest).
     rbind (decode_tz rest) (\<lambda>(known, rest).
     rbind (decode_entity rest) (\<lambda>(e_min, rest).
     rbind (decode_entity rest) (\<lambda>(e_max, rest).
     rbind (slice_le 8 rest) (\<lambda>(schema_mask, rest).
     rbind (slice_bytes 64 rest) (\<lambda>(bloom_bits, rest).
     Ok (\<lparr>bk_batch_index = batch_index, bk_record_count = record_count, bk_byte_offset = byte_offset,
          bk_byte_length = byte_length, bk_sequence_range = \<lparr>zm_min = seq_min, zm_max = seq_max\<rparr>,
          bk_valid_time_range = valid, bk_known_time_range = known,
          bk_entity_range = \<lparr>zm_min = e_min, zm_max = e_max\<rparr>, bk_entity_bloom = bloom_bits,
          bk_schema_mask = schema_mask\<rparr>, rest)))))))))))))"

fun decode_blocks :: "nat \<Rightarrow> bytes \<Rightarrow> (block_summary list \<times> bytes, index_error) result" where
  "decode_blocks 0 rest = Ok ([], rest)"
| "decode_blocks (Suc n) rest =
     rbind (decode_block rest) (\<lambda>(b, rest). rbind (decode_blocks n rest) (\<lambda>(bs, rest). Ok (b # bs, rest)))"

definition segment_summary_decode :: "(bytes \<Rightarrow> u32) \<Rightarrow> bytes \<Rightarrow> (segment_summary, index_error) result" where
  "segment_summary_decode crc bs =
     (if length bs < 10 + 16 + 4 + 8 + 8 + 4 then Err (IxFormat ''summary payload too short for header'')
      else if slice bs 0 4 \<noteq> SUMMARY_MAGIC then Err IxInvalidMagic
      else if from_le (slice bs 4 6) \<noteq> SUMMARY_VERSION then Err (IxUnsupportedVersion (from_le (slice bs 4 6)))
      else let body = drop 10 bs in
      if crc body \<noteq> from_le (slice bs 6 10) then Err IxChecksumMismatch
      else
        rbind (slice_bytes 16 body) (\<lambda>(database, rest).
        rbind (slice_le 4 rest) (\<lambda>(source, rest).
        rbind (slice_le 8 rest) (\<lambda>(epoch, rest).
        rbind (slice_le 8 rest) (\<lambda>(total_records :: u64, rest).
        rbind (slice_le 4 rest) (\<lambda>(block_count :: u32, rest).
        if length rest < unat block_count * BLOCK_BYTES then Err (IxFormat ''truncated block summaries'')
        else rbind (decode_blocks (unat block_count) rest) (\<lambda>(blocks, rest).
             segment_summary_new database source epoch blocks)))))))"

subsection \<open>Decoding\<close>

lemma length_encode_block: "length (bk_entity_bloom b) = 64 \<Longrightarrow> length (encode_block b) = BLOCK_BYTES"
  by (simp add: encode_block_def encode_tz_def encode_entity_def BLOCK_BYTES_def)

lemma decode_tz_encode [simp]: "decode_tz (encode_tz z @ r) = Ok (z, r)"
  by (simp add: decode_tz_def encode_tz_def)

lemma decode_entity_encode [simp]: "decode_entity (encode_entity e @ r) = Ok (e, r)"
  by (simp add: decode_entity_def encode_entity_def)

lemma decode_block_encode: "length (bk_entity_bloom b) = 64 \<Longrightarrow> decode_block (encode_block b @ r) = Ok (b, r)"
  by (simp add: decode_block_def encode_block_def)

lemma decode_blocks_encode:
  "\<forall>b \<in> set bs. length (bk_entity_bloom b) = 64 \<Longrightarrow> decode_blocks (length bs) (concat (map encode_block bs) @ r) = Ok (bs, r)"
  by (induction bs) (simp_all add: decode_block_encode)

lemma length_encode_blocks:
  "\<forall>b \<in> set bs. length (bk_entity_bloom b) = 64 \<Longrightarrow> length (concat (map encode_block bs)) = length bs * BLOCK_BYTES"
  by (induction bs) (simp_all add: length_encode_block)

lemma summary_decode_encode:
  assumes new: "segment_summary_new database source epoch blocks = Ok s"
    and s: "ss_database s = database" "ss_source s = source" "ss_epoch s = epoch" "ss_blocks s = blocks"
    and wf: "wf_database_id database" "length blocks < 2 ^ 32" "\<forall>b \<in> set blocks. length (bk_entity_bloom b) = 64"
  shows "segment_summary_decode crc (segment_summary_encode crc s) = Ok s"
proof -
  define bl where "bl = concat (map encode_block blocks)"
  define n where "n = (of_nat (length blocks) :: u32)"
  define body where "body = database @ to_le 4 source @ to_le 8 epoch @ to_le 8 (ss_total_records s) @ to_le 4 n @ bl"
  let ?bs = "segment_summary_encode crc s"
  have bs: "?bs = SUMMARY_MAGIC @ to_le 2 SUMMARY_VERSION @ to_le 4 (crc body) @ body"
    by (simp add: segment_summary_encode_def s body_def bl_def n_def Let_def)
  have db: "length database = 16" using wf(1) by (simp add: wf_database_id_def)
  have sl: "length ?bs = 10 + length body" "slice ?bs 0 4 = SUMMARY_MAGIC" "slice ?bs 4 6 = to_le 2 SUMMARY_VERSION"
    "slice ?bs 6 10 = to_le 4 (crc body)" "drop 10 ?bs = body"
    unfolding bs by (simp_all add: slice_def SUMMARY_MAGIC_def)
  have len: "length body \<ge> 40" by (simp add: body_def db)
  have n: "unat n = length blocks" using wf(2) by (simp add: n_def)
  have "length bl = length blocks * BLOCK_BYTES" unfolding bl_def by (rule length_encode_blocks [OF wf(3)])
  moreover have "decode_blocks (length blocks) bl = Ok (blocks, [])"
    using decode_blocks_encode [OF wf(3), of "[]"] by (simp add: bl_def)
  ultimately have "segment_summary_decode crc ?bs = segment_summary_new database source epoch blocks"
    using sl len n db unfolding segment_summary_decode_def by (simp add: body_def)
  then show ?thesis using new by simp
qed

subsection \<open>What a segment summary covers\<close>

definition zone_within :: "'a::linorder zone_map \<Rightarrow> 'a zone_map \<Rightarrow> bool" where
  "zone_within z y \<longleftrightarrow> zm_min z \<le> zm_min y \<and> zm_max y \<le> zm_max z"

definition tz_within :: "ts_zone_map \<Rightarrow> ts_zone_map \<Rightarrow> bool" where
  "tz_within z y \<longleftrightarrow> (tz_clock y = tz_clock z \<longrightarrow> tz_min z \<le> tz_min y \<and> tz_max y \<le> tz_max z)"

lemma zone_absorb_fields:
  "zm_min (zone_absorb y z) = min (zm_max y) (min (zm_min y) (zm_min z))"
  "zm_max (zone_absorb y z) = max (zm_max y) (max (zm_min y) (zm_max z))"
  by (simp_all add: zone_absorb_def zone_update_fields)

lemma tz_absorb_fields:
  "tz_clock (tz_absorb y z) = tz_clock z"
  "tz_clock y = tz_clock z \<Longrightarrow> tz_min (tz_absorb y z) = min (tz_max y) (min (tz_min y) (tz_min z))"
  "tz_clock y = tz_clock z \<Longrightarrow> tz_max (tz_absorb y z) = max (tz_max y) (max (tz_min y) (tz_max z))"
  "tz_clock y \<noteq> tz_clock z \<Longrightarrow> tz_absorb y z = z"
  by (simp_all add: tz_absorb_def ts_zone_update_fields ts_zone_update_def [of _ z])

interpretation zones: summary "\<lambda>y. y" zone_absorb zone_within "\<lambda>_. True"
  by unfold_locales (auto simp: zone_within_def zone_absorb_fields min_le_iff_disj le_max_iff_disj)

interpretation tzones: summary "\<lambda>y. y" tz_absorb tz_within "\<lambda>_. True"
proof unfold_locales
  fix z y :: ts_zone_map
  show "tz_within (tz_absorb y z) y"
    by (simp add: tz_within_def tz_absorb_fields min_le_iff_disj le_max_iff_disj)
next
  fix z y x :: ts_zone_map
  assume "tz_within z y"
  then show "tz_within (tz_absorb x z) y"
    by (cases "tz_clock x = tz_clock z") (auto simp: tz_within_def tz_absorb_fields min_le_iff_disj le_max_iff_disj)
qed (auto simp: tz_within_def)

lemma fold_segment_absorb:
  "fold_result segment_absorb bs s = Ok s' \<Longrightarrow>
     ss_entity_range s' = fold zone_absorb (map bk_entity_range bs) (ss_entity_range s)
   \<and> ss_sequence_range s' = fold zone_absorb (map bk_sequence_range bs) (ss_sequence_range s)
   \<and> ss_valid_time_range s' = fold tz_absorb (map bk_valid_time_range bs) (ss_valid_time_range s)
   \<and> ss_known_time_range s' = fold tz_absorb (map bk_known_time_range bs) (ss_known_time_range s)
   \<and> ss_database s' = ss_database s \<and> ss_source s' = ss_source s \<and> ss_epoch s' = ss_epoch s \<and> ss_blocks s' = ss_blocks s"
proof (induction bs arbitrary: s)
  case (Cons b bs)
  from Cons.prems obtain s1 where s1: "segment_absorb b s = Ok s1" "fold_result segment_absorb bs s1 = Ok s'"
    by (auto simp: rbind_eq_Ok)
  then show ?case using Cons.IH [OF s1(2)] by (auto simp: segment_absorb_def rbind_eq_Ok)
qed simp

lemma fold_tz_absorb_clock [simp]: "tz_clock (fold tz_absorb ys z) = tz_clock z"
  by (induction ys arbitrary: z) (simp_all add: tz_absorb_fields(1))

lemma segment_summary_covers:
  assumes "segment_summary_new database source epoch blocks = Ok s"
  shows "\<forall>b \<in> set blocks. zone_within (ss_entity_range s) (bk_entity_range b)
       \<and> zone_within (ss_sequence_range s) (bk_sequence_range b)
       \<and> tz_within (ss_valid_time_range s) (bk_valid_time_range b) \<and> tz_within (ss_known_time_range s) (bk_known_time_range b)"
    "tz_clock (ss_valid_time_range s) = tz_clock (bk_valid_time_range (hd blocks))"
    "tz_clock (ss_known_time_range s) = tz_clock (bk_known_time_range (hd blocks))"
    "ss_database s = database" "ss_source s = source" "ss_epoch s = epoch" "ss_blocks s = blocks"
proof -
  obtain x xs where bl: "blocks = x # xs" using assms by (cases blocks) (auto simp: segment_summary_new_def)
  have F: "ss_entity_range s = fold zone_absorb (map bk_entity_range blocks) (bk_entity_range x)"
    "ss_sequence_range s = fold zone_absorb (map bk_sequence_range blocks) (bk_sequence_range x)"
    "ss_valid_time_range s = fold tz_absorb (map bk_valid_time_range blocks) (bk_valid_time_range x)"
    "ss_known_time_range s = fold tz_absorb (map bk_known_time_range blocks) (bk_known_time_range x)"
    "ss_database s = database" "ss_source s = source" "ss_epoch s = epoch" "ss_blocks s = blocks"
    using assms fold_segment_absorb [of blocks _ s] by (auto simp: bl segment_summary_new_def)
  show "\<forall>b \<in> set blocks. zone_within (ss_entity_range s) (bk_entity_range b)
       \<and> zone_within (ss_sequence_range s) (bk_sequence_range b)
       \<and> tz_within (ss_valid_time_range s) (bk_valid_time_range b) \<and> tz_within (ss_known_time_range s) (bk_known_time_range b)"
    unfolding F by (auto intro!: zones.fold_covers tzones.fold_covers)
  show "tz_clock (ss_valid_time_range s) = tz_clock (bk_valid_time_range (hd blocks))"
    "tz_clock (ss_known_time_range s) = tz_clock (bk_known_time_range (hd blocks))"
    "ss_database s = database" "ss_source s = source" "ss_epoch s = epoch" "ss_blocks s = blocks"
    unfolding F by (simp_all add: bl del: fold_simps list.map)
qed

lemma zone_within_contains: "zone_within z y \<Longrightarrow> zone_contains y v \<Longrightarrow> zone_contains z v"
  by (auto simp: zone_within_def zone_contains_def)

lemma tz_within_covers: "tz_within z y \<Longrightarrow> tz_clock y = tz_clock z \<Longrightarrow> tz_covers y t \<Longrightarrow> tz_covers z t"
  by (auto simp: tz_within_def tz_covers_def)

lemma segment_covers_sound:
  assumes s: "segment_summary_new database source epoch blocks = Ok s" and b: "b \<in> set blocks" "block_covers b r"
    and clocks: "\<forall>b \<in> set blocks. tz_clock (bk_valid_time_range b) = vclock \<and> tz_clock (bk_known_time_range b) = kclock"
    and known: "ts_clock (et_known (se_times r)) = kclock" and keep: "stored_keeps f r"
  shows "segment_matches s f = MustScan"
proof -
  note S = segment_summary_covers [OF s]
  have bl: "hd blocks \<in> set blocks" using b(1) by (cases blocks) auto
  have "tz_covers (ss_valid_time_range s) (et_valid (se_times r))" "tz_covers (ss_known_time_range s) (et_known (se_times r))"
    "zone_contains (ss_entity_range s) (se_entity r)" "ts_clock (et_known (se_times r)) = tz_clock (ss_known_time_range s)"
    using S(1-3) b bl clocks known unfolding block_covers_def by (metis tz_within_covers zone_within_contains)+
  then show ?thesis
    using keep overlaps_range_sound can_contain_known_sound [of "ss_known_time_range s" "et_known (se_times r)"]
    by (auto simp: segment_matches_def stored_keeps_def split: option.splits prod.splits time_axis.splits)
qed

subsection \<open>Properties\<close>

text \<open>C17: Pruning has no false negatives: if a block of records of one known clock was summarised, a
  history filter that keeps one of them is never answered with \<open>Skip\<close> by the block's summary; and if
  the blocks of a segment agree on the clocks of their zones, not by the segment's summary either.\<close>

theorem skip_sound:
  assumes blocks: "list_all2 (\<lambda>rs b. \<exists>i off len. summarize i off len rs = (Ok b :: (_, index_error) result)) rss blocks"
    and s: "segment_summary_new database source epoch blocks = Ok s"
    and known: "\<forall>rs \<in> set rss. \<forall>r \<in> set rs. ts_clock (et_known (se_times r)) = kclock"
    and r: "n < length rss" "r \<in> set (rss ! n)" "stored_keeps f r"
  shows "block_matches (blocks ! n) f = MustScan
    \<and> ((\<forall>b \<in> set blocks. tz_clock (bk_valid_time_range b) = vclock) \<longrightarrow> segment_matches s f = MustScan)"
proof -
  have len: "length blocks = length rss" using blocks by (simp add: list_all2_lengthD)
  have sum: "\<exists>i off len. summarize i off len (rss ! k) = (Ok (blocks ! k) :: (_, index_error) result)" if "k < length rss" for k
    using blocks that by (simp add: list_all2_conv_all_nth)
  have kc: "tz_clock (bk_known_time_range (blocks ! k)) = kclock" if "k < length rss" for k
    using sum [OF that] summarize_covers(3,5) known that by (metis hd_in_set nth_mem)
  have cov: "block_covers (blocks ! n) r" using sum [OF r(1)] summarize_covers(1) r(2) by blast
  have kr: "ts_clock (et_known (se_times r)) = kclock" using known r(1,2) by (metis nth_mem)
  have "block_matches (blocks ! n) f = MustScan"
    using block_covers_sound [OF cov _ r(3)] kc [OF r(1)] kr by simp
  moreover have "segment_matches s f = MustScan" if "\<forall>b \<in> set blocks. tz_clock (bk_valid_time_range b) = vclock"
  proof (rule segment_covers_sound [OF s _ cov _ kr r(3)])
    show "blocks ! n \<in> set blocks" using r(1) len by simp
    show "\<forall>b \<in> set blocks. tz_clock (bk_valid_time_range b) = vclock \<and> tz_clock (bk_known_time_range b) = kclock"
      using that kc len by (auto simp: in_set_conv_nth)
  qed
  ultimately show ?thesis by blast
qed

definition stamped :: "u64 \<Rightarrow> clock_id \<Rightarrow> u64 \<Rightarrow> stored_event" where
  "stamped sq clock ticks = \<lparr>se_id = \<lparr>eid_source = 1, eid_epoch = 1, eid_sequence = sq\<rparr>,
     se_entity = \<lparr>ent_shard = 0, ent_slot = 0, ent_generation = 0\<rparr>,
     se_times = \<lparr>et_valid = \<lparr>ts_clock = clock, ts_ticks = ticks\<rparr>, et_observed = None, et_known = \<lparr>ts_clock = 9, ts_ticks = sq\<rparr>\<rparr>,
     se_schema = 1, se_payload = [], se_causes = []\<rparr>"

definition valid_from :: "clock_id \<Rightarrow> u64 \<Rightarrow> u64 \<Rightarrow> history_filter" where
  "valid_from clock start stop = \<lparr>hf_entity = None,
     hf_time = Some (Valid, \<lparr>tr_clock = clock, tr_start = start, tr_end = stop\<rparr>), hf_known_as_of = None\<rparr>"

text \<open>The segment level can drop matching records when the valid clocks of the blocks differ: a block
  whose first record is on another valid clock contributes nothing to the segment's zone, although it
  can hold later records on the zone's clock. Here the second block holds a record that the filter
  keeps, its block summary says \<open>MustScan\<close>, and the segment summary says \<open>Skip\<close>.\<close>

theorem segment_skip_loses_records:
  "\<exists>b1 b2 s. summarize 0 0 100 [stamped 0 1 10] = (Ok b1 :: (_, index_error) result)
     \<and> summarize 1 100 200 [stamped 1 2 5, stamped 2 1 50] = (Ok b2 :: (_, index_error) result)
     \<and> segment_summary_new (replicate 16 0) 1 1 [b1, b2] = Ok s
     \<and> stored_keeps (valid_from 1 50 51) (stamped 2 1 50)
     \<and> block_matches b2 (valid_from 1 50 51) = MustScan
     \<and> segment_matches s (valid_from 1 50 51) = Skip"
  by (simp add: summarize_def block_new_def block_add_def block_update_def stamped_def valid_from_def add_or_panic_def
      checked_add_def segment_summary_new_def segment_absorb_def stored_keeps_def range_contains_def block_matches_def
      segment_matches_def overlaps_range_def ts_zone_new_def ts_zone_update_def tz_absorb_def)

text \<open>The binary form of a segment summary is lossless: a summary built from block summaries with
  64-byte filters decodes from its encoding to itself.\<close>

theorem summary_roundtrip:
  assumes "segment_summary_new database source epoch blocks = Ok s" "wf_database_id database" "length blocks < 2 ^ 32"
    "\<forall>b \<in> set blocks. length (bk_entity_bloom b) = 64"
  shows "segment_summary_decode crc (segment_summary_encode crc s) = Ok s"
  using assms segment_summary_covers(4-7) [OF assms(1)] by (intro summary_decode_encode)

theorem skip_sound_witness:
  "\<exists>b. summarize 0 0 100 [stamped 0 1 10] = (Ok b :: (_, index_error) result) \<and> block_matches b (valid_from 1 10 11) = MustScan"
proof -
  obtain b where b: "summarize 0 0 100 [stamped 0 1 10] = (Ok b :: (_, index_error) result)" by (simp add: summarize_def)
  obtain s where s: "segment_summary_new (replicate 16 0) 1 1 [b] = Ok s"
    using summarize_covers(2) [OF b] by (simp add: segment_summary_new_def segment_absorb_def add_or_panic_def checked_add_def)
  have "stored_keeps (valid_from 1 10 11) (stamped 0 1 10)"
    by (simp add: stored_keeps_def valid_from_def stamped_def range_contains_def)
  moreover have "list_all2 (\<lambda>rs b. \<exists>i off len. summarize i off len rs = (Ok b :: (_, index_error) result)) [[stamped 0 1 10]] [b]"
    using b by auto
  ultimately have "block_matches ([b] ! 0) (valid_from 1 10 11) = MustScan"
    using skip_sound [OF _ s, of "[[stamped 0 1 10]]" 9 0 "stamped 0 1 10" "valid_from 1 10 11" 1]
    by (simp add: stamped_def [of 0 1 10])
  then show ?thesis using b by auto
qed

theorem summary_roundtrip_witness:
  "\<exists>s. segment_summary_decode (\<lambda>_. 7) (segment_summary_encode (\<lambda>_. 7) s) = Ok s"
proof -
  let ?b = "block_new 0 0 100 0 \<lparr>ent_shard = 0, ent_slot = 0, ent_generation = 0\<rparr> 1 (se_times (stamped 0 1 10))"
  obtain s where s: "segment_summary_new (replicate 16 0) 1 1 [?b] = Ok s"
    by (simp add: segment_summary_new_def segment_absorb_def add_or_panic_def checked_add_def block_new_def)
  have "length (bk_entity_bloom ?b) = 64" by (simp add: block_new_def bloom_insert_def bloom_new_def)
  then show ?thesis using summary_roundtrip [OF s, of "\<lambda>_. 7"] by (auto simp: wf_database_id_def)
qed

end
