(* ===== verification/Index_Morton.thy ===== *)
theory Index_Morton
  imports Index_Segment
begin

section \<open>Space-filling curves and grid chunks (\<open>temnion-index\<close>: Morton codes, bounding boxes)\<close>

text \<open>
  The Morton code interleaves the bits of the coordinates. The two-dimensional routines spread and
  compact by masked shifts in five steps; \<open>spread_2d_bit\<close> and \<open>compact_2d_bit\<close> say what
  each result bit is, found by going through the 64 positions, and everything else rests on them.
  \<open>shl\<close> and \<open>shr\<close> are the shift operators.
\<close>

definition shl :: "'w::len word \<Rightarrow> nat \<Rightarrow> 'w word" where
  "shl x n = push_bit n x"

definition shr :: "'w::len word \<Rightarrow> nat \<Rightarrow> 'w word" where
  "shr x n = drop_bit n x"

definition morton_spread_2d :: "u32 \<Rightarrow> u64" where
  "morton_spread_2d v =
     (let x = ucast v;
          x = (x OR shl x 16) AND 0x0000ffff0000ffff;
          x = (x OR shl x 8) AND 0x00ff00ff00ff00ff;
          x = (x OR shl x 4) AND 0x0f0f0f0f0f0f0f0f;
          x = (x OR shl x 2) AND 0x3333333333333333;
          x = (x OR shl x 1) AND 0x5555555555555555
      in x)"

definition morton_compact_2d :: "u64 \<Rightarrow> u32" where
  "morton_compact_2d x =
     (let x = x AND 0x5555555555555555;
          x = (x OR shr x 1) AND 0x3333333333333333;
          x = (x OR shr x 2) AND 0x0f0f0f0f0f0f0f0f;
          x = (x OR shr x 4) AND 0x00ff00ff00ff00ff;
          x = (x OR shr x 8) AND 0x0000ffff0000ffff;
          x = (x OR shr x 16) AND 0x00000000ffffffff
      in ucast x)"

definition morton_encode_2d :: "u32 \<Rightarrow> u32 \<Rightarrow> u64" where
  "morton_encode_2d x y = morton_spread_2d x OR shl (morton_spread_2d y) 1"

definition morton_decode_2d :: "u64 \<Rightarrow> u32 \<times> u32" where
  "morton_decode_2d code = (morton_compact_2d code, morton_compact_2d (shr code 1))"

definition morton_spread_3d :: "u32 \<Rightarrow> u64" where
  "morton_spread_3d v = fold (\<lambda>i code. code OR shl (shr (ucast v) i AND 1) (3 * i)) [0..<21] 0"

definition morton_compact_3d :: "u64 \<Rightarrow> u32" where
  "morton_compact_3d code = fold (\<lambda>i v. v OR shl (ucast (shr code (3 * i) AND 1)) i) [0..<21] 0"

definition morton_encode_3d :: "u32 \<Rightarrow> u32 \<Rightarrow> u32 \<Rightarrow> u64" where
  "morton_encode_3d x y z = morton_spread_3d x OR shl (morton_spread_3d y) 1 OR shl (morton_spread_3d z) 2"

definition morton_decode_3d :: "u64 \<Rightarrow> u32 \<times> u32 \<times> u32" where
  "morton_decode_3d code = (morton_compact_3d code, morton_compact_3d (shr code 1), morton_compact_3d (shr code 2))"

subsection \<open>Bits of the codes\<close>

lemma bit_shl: "bit (shl x n :: 'w::len word) i \<longleftrightarrow> i < LENGTH('w) \<and> n \<le> i \<and> bit x (i - n)"
  by (auto simp: shl_def bit_simps)

lemma bit_shr: "bit (shr x n) i \<longleftrightarrow> bit x (i + n)"
  by (simp add: shr_def bit_simps add.commute)

lemma no_high_bit: "32 \<le> n \<Longrightarrow> \<not> bit (v :: u32) n" "64 \<le> n \<Longrightarrow> \<not> bit (w :: u64) n"
  by (auto dest: bit_imp_le_length)

lemma all_below_64: "(\<forall>i<64. P (i :: nat)) \<longleftrightarrow> list_all P
     [0, 1, 2, 3, 4, 5, 6, 7, 8, 9, 10, 11, 12, 13, 14, 15, 16, 17, 18, 19, 20, 21, 22, 23, 24, 25, 26,
      27, 28, 29, 30, 31, 32, 33, 34, 35, 36, 37, 38, 39, 40, 41, 42, 43, 44, 45, 46, 47, 48, 49, 50, 51,
      52, 53, 54, 55, 56, 57, 58, 59, 60, 61, 62, 63]"
proof -
  have "(\<forall>i<64. P i) \<longleftrightarrow> list_all P [0..<64]" by (auto simp: list_all_iff)
  moreover have "[0..<64] =
     [0, 1, 2, 3, 4, 5, 6, 7, 8, 9, 10, 11, 12, 13, 14, 15, 16, 17, 18, 19, 20, 21, 22, 23, 24, 25, 26,
      27, 28, 29, 30, 31, 32, 33, 34, 35, 36, 37, 38, 39, 40, 41, 42, 43, 44, 45, 46, 47, 48, 49, 50, 51,
      52, 53, 54, 55, 56, 57, 58, 59, 60, 61, 62, 63]" by code_simp
  ultimately show ?thesis by simp
qed

lemma spread_2d_low: "\<forall>i<64. bit (morton_spread_2d v) i \<longleftrightarrow> even i \<and> bit v (i div 2)"
  unfolding all_below_64 morton_spread_2d_def Let_def by (simp add: bit_simps bit_shl no_high_bit)

lemma spread_2d_bit: "bit (morton_spread_2d v) i \<longleftrightarrow> i < 64 \<and> even i \<and> bit v (i div 2)"
  using spread_2d_low no_high_bit(2) by (meson not_le)

lemma compact_2d_low: "\<forall>i<64. bit (morton_compact_2d x) i \<longleftrightarrow> i < 32 \<and> bit x (2 * i)"
  unfolding all_below_64 morton_compact_2d_def Let_def
  by (simp add: bit_simps bit_shr no_high_bit flip: numeral_2_eq_2)

lemma compact_2d_bit: "bit (morton_compact_2d x) i \<longleftrightarrow> i < 32 \<and> bit x (2 * i)"
proof (cases "i < 64")
  case True
  then show ?thesis using compact_2d_low [of x] by blast
next
  case False
  then show ?thesis using no_high_bit(1) [of i "morton_compact_2d x"] by simp
qed

lemma encode_2d_bit:
  "bit (morton_encode_2d x y) i \<longleftrightarrow> i < 64 \<and> bit (if even i then x else y) (i div 2)"
proof (cases "even i")
  case True
  then show ?thesis by (auto simp: morton_encode_2d_def bit_or_iff bit_shl spread_2d_bit)
next
  case False
  then obtain k where "i = 2 * k + 1" by (elim oddE)
  then show ?thesis by (auto simp: morton_encode_2d_def bit_or_iff bit_shl spread_2d_bit)
qed

lemma decode_encode_2d: "morton_decode_2d (morton_encode_2d x y) = (x, y)"
  by (auto simp: morton_decode_2d_def encode_2d_bit compact_2d_bit bit_shr dest: bit_imp_le_length intro!: bit_word_eqI)

lemma encode_decode_2d: "case morton_decode_2d code of (x, y) \<Rightarrow> morton_encode_2d x y = code"
proof -
  have "bit (morton_encode_2d (morton_compact_2d code) (morton_compact_2d (shr code 1))) i = bit code i" if "i < 64" for i
  proof (cases "even i")
    case True
    then show ?thesis using that by (auto simp: encode_2d_bit compact_2d_bit)
  next
    case False
    then obtain k where "i = 2 * k + 1" by (elim oddE)
    then show ?thesis using that by (auto simp: encode_2d_bit compact_2d_bit bit_shr)
  qed
  then show ?thesis by (auto simp: morton_decode_2d_def intro: bit_word_eqI)
qed

lemma fold_or_bit: "bit (fold (\<lambda>i acc. acc OR g i) ks a) j \<longleftrightarrow> bit (a :: 'w::len word) j \<or> (\<exists>i \<in> set ks. bit (g i) j)"
  by (induction ks arbitrary: a) (auto simp: bit_or_iff)

lemma bit_and_one: "bit ((w :: 'w::len word) AND 1) n \<longleftrightarrow> n = 0 \<and> bit w 0"
  by (auto simp: bit_and_iff bit_1_iff)

lemma spread_3d_bit: "bit (morton_spread_3d v) j \<longleftrightarrow> j < 63 \<and> 3 dvd j \<and> bit v (j div 3)"
proof -
  have "bit (morton_spread_3d v) j \<longleftrightarrow> (\<exists>i<21. j < 64 \<and> j = 3 * i \<and> bit v i)"
    unfolding morton_spread_3d_def fold_or_bit
    by (auto simp: bit_shl bit_and_one bit_shr bit_ucast_iff dest: bit_imp_le_length)
  also have "\<dots> \<longleftrightarrow> j < 63 \<and> 3 dvd j \<and> bit v (j div 3)" by (auto elim!: dvdE)
  finally show ?thesis .
qed

lemma compact_3d_bit: "bit (morton_compact_3d code) j \<longleftrightarrow> j < 21 \<and> bit code (3 * j)"
  unfolding morton_compact_3d_def fold_or_bit
  by (auto simp: bit_shl bit_ucast_iff bit_and_one bit_shr)

lemma encode_3d_bit:
  "bit (morton_encode_3d x y z) j \<longleftrightarrow> j < 63 \<and> bit (if j mod 3 = 0 then x else if j mod 3 = 1 then y else z) (j div 3)"
proof -
  have "j mod 3 = 0 \<or> j mod 3 = 1 \<or> j mod 3 = 2" by presburger
  then obtain k where j: "j = 3 * k \<or> j = 3 * k + 1 \<or> j = 3 * k + 2" by (metis add.right_neutral mult_div_mod_eq)
  have nd: "\<not> 3 dvd 3 * k + 1" "\<not> 3 dvd 3 * k + 2" "1 \<le> 3 * k \<Longrightarrow> \<not> 3 dvd 3 * k - 1" "2 \<le> 3 * k \<Longrightarrow> \<not> 3 dvd 3 * k - 2"
    "2 \<le> 3 * k + 1 \<Longrightarrow> \<not> 3 dvd 3 * k + 1 - 2" "\<not> 3 dvd 3 * k + 2 - 1" for k :: nat
    by presburger+
  consider "j = 3 * k" | "j = 3 * k + 1" | "j = 3 * k + 2" using j by blast
  then show ?thesis
  proof cases
    case 1
    then show ?thesis using nd(3,4) [of k] by (auto simp: morton_encode_3d_def bit_or_iff bit_shl spread_3d_bit)
  next
    case 2
    have d: "j mod 3 = 1" "j div 3 = k" "j - 1 = 3 * k" unfolding 2 by presburger+
    show ?thesis using nd(1,5) [of k] d 2 by (auto simp: morton_encode_3d_def bit_or_iff bit_shl spread_3d_bit)
  next
    case 3
    have d: "j mod 3 = 2" "j div 3 = k" "j - 2 = 3 * k" unfolding 3 by presburger+
    show ?thesis using nd(2,6) [of k] d 3 by (auto simp: morton_encode_3d_def bit_or_iff bit_shl spread_3d_bit)
  qed
qed

lemma decode_encode_3d: "morton_decode_3d (morton_encode_3d x y z) = (take_bit 21 x, take_bit 21 y, take_bit 21 z)"
proof -
  have m: "Suc (3 * j) mod 3 = 1" "Suc (Suc (3 * j)) mod 3 = 2" "Suc (3 * j) div 3 = j" "Suc (Suc (3 * j)) div 3 = j" for j :: nat
    by presburger+
  show ?thesis
    by (auto simp: morton_decode_3d_def encode_3d_bit compact_3d_bit bit_shr bit_take_bit_iff m intro!: bit_word_eqI)
qed

end
