(* ===== verification/Index_Boxes.thy ===== *)
theory Index_Boxes
  imports Index_Morton
begin

section \<open>Bounding boxes and grid chunks (\<open>temnion-index\<close>)\<close>

text \<open>
  A box is decomposed into intervals of chunk codes: the codes of all chunks between the corners are
  collected, sorted, deduplicated and merged into runs. A chunk size of 0, which the constructor
  refuses, would panic on the division; \<open>end + 1\<close> in the merge is checked arithmetic.
\<close>

record bounding_box_2d =
  b2_min_x :: u32
  b2_min_y :: u32
  b2_max_x :: u32
  b2_max_y :: u32

record bounding_box_3d =
  b3_min_x :: u32
  b3_min_y :: u32
  b3_min_z :: u32
  b3_max_x :: u32
  b3_max_y :: u32
  b3_max_z :: u32

definition contains_point_2d :: "bounding_box_2d \<Rightarrow> u32 \<Rightarrow> u32 \<Rightarrow> bool" where
  "contains_point_2d b x y \<longleftrightarrow> x \<ge> b2_min_x b \<and> x \<le> b2_max_x b \<and> y \<ge> b2_min_y b \<and> y \<le> b2_max_y b"

definition intersects_2d :: "bounding_box_2d \<Rightarrow> bounding_box_2d \<Rightarrow> bool" where
  "intersects_2d a b \<longleftrightarrow> b2_min_x a \<le> b2_max_x b \<and> b2_max_x a \<ge> b2_min_x b \<and> b2_min_y a \<le> b2_max_y b \<and> b2_max_y a \<ge> b2_min_y b"

definition contains_point_3d :: "bounding_box_3d \<Rightarrow> u32 \<Rightarrow> u32 \<Rightarrow> u32 \<Rightarrow> bool" where
  "contains_point_3d b x y z \<longleftrightarrow> x \<ge> b3_min_x b \<and> x \<le> b3_max_x b \<and> y \<ge> b3_min_y b \<and> y \<le> b3_max_y b
     \<and> z \<ge> b3_min_z b \<and> z \<le> b3_max_z b"

definition intersects_3d :: "bounding_box_3d \<Rightarrow> bounding_box_3d \<Rightarrow> bool" where
  "intersects_3d a b \<longleftrightarrow> b3_min_x a \<le> b3_max_x b \<and> b3_max_x a \<ge> b3_min_x b \<and> b3_min_y a \<le> b3_max_y b
     \<and> b3_max_y a \<ge> b3_min_y b \<and> b3_min_z a \<le> b3_max_z b \<and> b3_max_z a \<ge> b3_min_z b"

text \<open>\<open>GridChunker2D\<close> and \<open>GridChunker3D\<close> both hold one chunk size.\<close>

record grid_chunker =
  gc_chunk_size :: u32

definition grid_new :: "u32 \<Rightarrow> (grid_chunker, index_error) result" where
  "grid_new n = (if n = 0 then Err (IxFormat ''chunk size must be positive'') else Ok \<lparr>gc_chunk_size = n\<rparr>)"

definition div_or_panic :: "u32 \<Rightarrow> u32 \<Rightarrow> (u32, 'e) result" where
  "div_or_panic a b = (if b = 0 then Panic else Ok (a div b))"

definition chunk_coords_2d :: "grid_chunker \<Rightarrow> u32 \<Rightarrow> u32 \<Rightarrow> (u32 \<times> u32, 'e) result" where
  "chunk_coords_2d g x y =
     rbind (div_or_panic x (gc_chunk_size g)) (\<lambda>cx. rbind (div_or_panic y (gc_chunk_size g)) (\<lambda>cy. Ok (cx, cy)))"

definition chunk_coords_3d :: "grid_chunker \<Rightarrow> u32 \<Rightarrow> u32 \<Rightarrow> u32 \<Rightarrow> (u32 \<times> u32 \<times> u32, 'e) result" where
  "chunk_coords_3d g x y z =
     rbind (div_or_panic x (gc_chunk_size g)) (\<lambda>cx. rbind (div_or_panic y (gc_chunk_size g)) (\<lambda>cy.
     rbind (div_or_panic z (gc_chunk_size g)) (\<lambda>cz. Ok (cx, cy, cz))))"

definition chunk_morton_2d :: "grid_chunker \<Rightarrow> u32 \<Rightarrow> u32 \<Rightarrow> (u64, 'e) result" where
  "chunk_morton_2d g x y = rbind (chunk_coords_2d g x y) (\<lambda>(cx, cy). Ok (morton_encode_2d cx cy))"

definition chunk_morton_3d :: "grid_chunker \<Rightarrow> u32 \<Rightarrow> u32 \<Rightarrow> u32 \<Rightarrow> (u64, 'e) result" where
  "chunk_morton_3d g x y z = rbind (chunk_coords_3d g x y z) (\<lambda>(cx, cy, cz). Ok (morton_encode_3d cx cy cz))"

fun merge_loop :: "u64 \<Rightarrow> u64 \<Rightarrow> u64 list \<Rightarrow> ((u64 \<times> u64) list, 'e) result" where
  "merge_loop start stop [] = Ok [(start, stop)]"
| "merge_loop start stop (code # codes) =
     rbind (add_or_panic stop 1) (\<lambda>succ.
       if code = succ then merge_loop start code codes
       else rbind (merge_loop code code codes) (\<lambda>is. Ok ((start, stop) # is)))"

definition merge_consecutive_codes :: "u64 list \<Rightarrow> ((u64 \<times> u64) list, 'e) result" where
  "merge_consecutive_codes codes = (case codes of [] \<Rightarrow> Ok [] | c # cs \<Rightarrow> merge_loop c c cs)"

text \<open>The inclusive range \<open>a..=b\<close>, empty if \<open>a > b\<close>.\<close>

definition range_inclusive :: "u32 \<Rightarrow> u32 \<Rightarrow> u32 list" where
  "range_inclusive a b = map of_nat [unat a..<Suc (unat b)]"

definition morton_intervals_2d :: "bounding_box_2d \<Rightarrow> grid_chunker \<Rightarrow> ((u64 \<times> u64) list, 'e) result" where
  "morton_intervals_2d b g =
     rbind (chunk_coords_2d g (b2_min_x b) (b2_min_y b)) (\<lambda>(min_cx, min_cy).
     rbind (chunk_coords_2d g (b2_max_x b) (b2_max_y b)) (\<lambda>(max_cx, max_cy).
     let codes = concat (map (\<lambda>cy. map (\<lambda>cx. morton_encode_2d cx cy) (range_inclusive min_cx max_cx)) (range_inclusive min_cy max_cy))
     in merge_consecutive_codes (sort_dedup codes)))"

definition morton_intervals_3d :: "bounding_box_3d \<Rightarrow> grid_chunker \<Rightarrow> ((u64 \<times> u64) list, 'e) result" where
  "morton_intervals_3d b g =
     rbind (chunk_coords_3d g (b3_min_x b) (b3_min_y b) (b3_min_z b)) (\<lambda>(min_cx, min_cy, min_cz).
     rbind (chunk_coords_3d g (b3_max_x b) (b3_max_y b) (b3_max_z b)) (\<lambda>(max_cx, max_cy, max_cz).
     let codes = concat (map (\<lambda>cz. concat (map (\<lambda>cy. map (\<lambda>cx. morton_encode_3d cx cy cz)
            (range_inclusive min_cx max_cx)) (range_inclusive min_cy max_cy))) (range_inclusive min_cz max_cz))
     in merge_consecutive_codes (sort_dedup codes)))"

subsection \<open>Merging\<close>

definition in_intervals :: "(u64 \<times> u64) list \<Rightarrow> u64 \<Rightarrow> bool" where
  "in_intervals is c \<longleftrightarrow> (\<exists>(s, e) \<in> set is. s \<le> c \<and> c \<le> e)"

text \<open>Maximal runs: nonempty intervals in order, with a gap between neighbours.\<close>

definition maximal_runs :: "(u64 \<times> u64) list \<Rightarrow> bool" where
  "maximal_runs is \<longleftrightarrow> (\<forall>(s, e) \<in> set is. s \<le> e)
     \<and> sorted_wrt (\<lambda>(s, e) (s', e'). unat e + 1 < unat s') is"

lemma in_intervals_Cons: "in_intervals ((s, e) # is) c \<longleftrightarrow> s \<le> c \<and> c \<le> e \<or> in_intervals is c"
  by (simp add: in_intervals_def)

lemma merge_loop_ok:
  assumes "start \<le> stop" "sorted_wrt (<) (stop # codes)"
  shows "\<exists>is. merge_loop start stop codes = (Ok is :: (_, 'e) result) \<and> maximal_runs is
     \<and> (\<forall>c. in_intervals is c \<longleftrightarrow> start \<le> c \<and> c \<le> stop \<or> c \<in> set codes) \<and> (\<forall>(s, e) \<in> set is. start \<le> s)"
  using assms
proof (induction codes arbitrary: start stop)
  case Nil
  then show ?case by (auto simp: maximal_runs_def in_intervals_def)
next
  case (Cons code codes)
  have lt: "stop < code" "sorted_wrt (<) (code # codes)" using Cons.prems(2) by auto
  then have u: "unat stop < unat code" by (simp add: word_less_nat_alt)
  then have nm: "stop \<noteq> - 1" using lt(1) word_order.not_eq_extremum by (metis not_less word_order.extremum)
  have succ: "add_or_panic stop 1 = (Ok (stop + 1) :: (_, 'e) result)" "unat (stop + 1) = unat stop + 1"
    using not_max_u64 [OF nm] by (simp_all add: add_or_panic_def checked_add_def unat_word_ariths)
  show ?case
  proof (cases "code = stop + 1")
    case True
    have "start \<le> code" using Cons.prems(1) lt(1) by simp
    from Cons.IH [OF this lt(2)] obtain js where js: "merge_loop start code codes = (Ok js :: (_, 'e) result)" "maximal_runs js"
      "\<forall>c. in_intervals js c \<longleftrightarrow> start \<le> c \<and> c \<le> code \<or> c \<in> set codes" "\<forall>(s, e) \<in> set js. start \<le> s" by auto
    have "c \<le> code \<longleftrightarrow> c \<le> stop \<or> c = code" for c
      using succ(2) True by (auto simp: word_le_nat_alt word_unat_eq_iff)
    then show ?thesis using js succ(1) True \<open>start \<le> code\<close> by auto
  next
    case False
    from Cons.IH [OF order.refl lt(2)] obtain js where js: "merge_loop code code codes = (Ok js :: (_, 'e) result)" "maximal_runs js"
      "\<forall>c. in_intervals js c \<longleftrightarrow> code \<le> c \<and> c \<le> code \<or> c \<in> set codes" "\<forall>(s, e) \<in> set js. code \<le> s" by auto
    have gap: "unat stop + 1 < unat code" using u False succ(2) by (metis Suc_eq_plus1 Suc_lessI word_unat_eq_iff)
    have "maximal_runs ((start, stop) # js)"
      using js(2,4) gap Cons.prems(1) by (fastforce simp: maximal_runs_def word_le_nat_alt)
    moreover have "\<forall>c. in_intervals ((start, stop) # js) c \<longleftrightarrow> start \<le> c \<and> c \<le> stop \<or> c \<in> set (code # codes)"
      using js(3) by (auto simp: in_intervals_Cons)
    moreover have "\<forall>(s, e) \<in> set ((start, stop) # js). start \<le> s"
      using js(4) Cons.prems(1) lt(1) by fastforce
    ultimately show ?thesis using js(1) succ(1) False by auto
  qed
qed

lemma merge_codes_ok:
  "\<exists>is. merge_consecutive_codes (sort_dedup xs) = Ok is \<and> maximal_runs is \<and> (\<forall>c. in_intervals is c \<longleftrightarrow> c \<in> set xs)"
proof (cases "sort_dedup xs")
  case Nil
  then show ?thesis using set_sort_dedup [of xs]
    by (auto simp: merge_consecutive_codes_def maximal_runs_def in_intervals_def)
next
  case (Cons c cs)
  then have "sorted_wrt (<) (c # cs)" "set xs = insert c (set cs)" using set_sort_dedup [of xs] sorted_sort_dedup [of xs] by auto
  then show ?thesis using merge_loop_ok [OF order.refl, of c cs] by (fastforce simp: Cons merge_consecutive_codes_def)
qed

subsection \<open>Boxes\<close>

lemma set_range_inclusive: "set (range_inclusive a b) = {a..b}"
proof -
  have "c \<in> {a..b} \<longleftrightarrow> c \<in> of_nat ` {unat a..<Suc (unat b)}" for c :: u32
  proof
    assume "c \<in> {a..b}"
    then have "unat c \<in> {unat a..<Suc (unat b)}" by (simp add: word_le_nat_alt)
    then show "c \<in> of_nat ` {unat a..<Suc (unat b)}" by (intro image_eqI [of _ of_nat "unat c"]) simp_all
  next
    assume "c \<in> of_nat ` {unat a..<Suc (unat b)}"
    then obtain n where n: "c = of_nat n" "unat a \<le> n" "n \<le> unat b" by auto
    then have "n < 2 ^ 32" using order.strict_trans1 [OF n(3) unat_bounds(3)] by simp
    then show "c \<in> {a..b}" using n by (simp add: word_le_nat_alt)
  qed
  then show ?thesis unfolding range_inclusive_def set_map set_upt by blast
qed

lemma word_div_mono: "(a :: u32) \<le> b \<Longrightarrow> a div n \<le> b div n"
  by (simp add: word_le_nat_alt unat_div div_le_mono)

lemma chunk_coords_Ok:
  "gc_chunk_size g \<noteq> 0 \<Longrightarrow> chunk_coords_2d g x y = Ok (x div gc_chunk_size g, y div gc_chunk_size g)"
  "gc_chunk_size g \<noteq> 0 \<Longrightarrow> chunk_coords_3d g x y z = Ok (x div gc_chunk_size g, y div gc_chunk_size g, z div gc_chunk_size g)"
  by (simp_all add: chunk_coords_2d_def chunk_coords_3d_def div_or_panic_def)

text \<open>Morton codes interleave: in two dimensions encoding and decoding are inverse bijections between
  pairs of 32-bit coordinates and 64-bit codes; in three dimensions decoding returns the lowest 21 bits
  of each coordinate, so it is exact on coordinates below \<open>2 ^ 21\<close>.\<close>

theorem morton_roundtrip:
  "morton_decode_2d (morton_encode_2d x y) = (x, y)
   \<and> (case morton_decode_2d code of (u, v) \<Rightarrow> morton_encode_2d u v = code)
   \<and> morton_decode_3d (morton_encode_3d x y z) = (take_bit 21 x, take_bit 21 y, take_bit 21 z)"
  by (intro conjI decode_encode_2d encode_decode_2d decode_encode_3d)

text \<open>C18: The decomposition of a box into code intervals is exact: for a positive chunk size it does not
  panic, the intervals are the maximal runs of exactly the codes of the chunks between the box's corners,
  and the chunk code of every point in the box lies in one of them; both in two and in three dimensions.\<close>

theorem box_intervals_exact:
  assumes "grid_new n = Ok g"
  shows "(\<exists>is. morton_intervals_2d b g = (Ok is :: (_, index_error) result) \<and> maximal_runs is
       \<and> (\<forall>c. in_intervals is c \<longleftrightarrow> (\<exists>cx \<in> {b2_min_x b div n..b2_max_x b div n}.
             \<exists>cy \<in> {b2_min_y b div n..b2_max_y b div n}. c = morton_encode_2d cx cy))
       \<and> (\<forall>x y. contains_point_2d b x y \<longrightarrow> (\<exists>c. chunk_morton_2d g x y = (Ok c :: (_, index_error) result) \<and> in_intervals is c)))
   \<and> (\<exists>is. morton_intervals_3d d g = (Ok is :: (_, index_error) result) \<and> maximal_runs is
       \<and> (\<forall>c. in_intervals is c \<longleftrightarrow> (\<exists>cx \<in> {b3_min_x d div n..b3_max_x d div n}. \<exists>cy \<in> {b3_min_y d div n..b3_max_y d div n}.
             \<exists>cz \<in> {b3_min_z d div n..b3_max_z d div n}. c = morton_encode_3d cx cy cz))
       \<and> (\<forall>x y z. contains_point_3d d x y z \<longrightarrow> (\<exists>c. chunk_morton_3d g x y z = (Ok c :: (_, index_error) result) \<and> in_intervals is c)))"
proof -
  have g: "gc_chunk_size g = n" "n \<noteq> 0" using assms by (auto simp: grid_new_def split: if_splits)
  note cc = chunk_coords_Ok [of g, unfolded g(1), OF g(2)]
  define codes2 where "codes2 = concat (map (\<lambda>cy. map (\<lambda>cx. morton_encode_2d cx cy)
    (range_inclusive (b2_min_x b div n) (b2_max_x b div n))) (range_inclusive (b2_min_y b div n) (b2_max_y b div n)))"
  define codes3 where "codes3 = concat (map (\<lambda>cz. concat (map (\<lambda>cy. map (\<lambda>cx. morton_encode_3d cx cy cz)
    (range_inclusive (b3_min_x d div n) (b3_max_x d div n))) (range_inclusive (b3_min_y d div n) (b3_max_y d div n))))
    (range_inclusive (b3_min_z d div n) (b3_max_z d div n)))"
  have c2: "c \<in> set codes2 \<longleftrightarrow> (\<exists>cx \<in> {b2_min_x b div n..b2_max_x b div n}.
      \<exists>cy \<in> {b2_min_y b div n..b2_max_y b div n}. c = morton_encode_2d cx cy)" for c
    unfolding codes2_def by (auto simp: set_range_inclusive)
  have c3: "c \<in> set codes3 \<longleftrightarrow> (\<exists>cx \<in> {b3_min_x d div n..b3_max_x d div n}. \<exists>cy \<in> {b3_min_y d div n..b3_max_y d div n}.
      \<exists>cz \<in> {b3_min_z d div n..b3_max_z d div n}. c = morton_encode_3d cx cy cz)" for c
    unfolding codes3_def by (auto simp: set_range_inclusive)
  have p2: "morton_encode_2d (x div n) (y div n) \<in> set codes2" if "contains_point_2d b x y" for x y
    using that unfolding c2 contains_point_2d_def by (auto intro!: bexI word_div_mono)
  have p3: "morton_encode_3d (x div n) (y div n) (z div n) \<in> set codes3" if "contains_point_3d d x y z" for x y z
    using that unfolding c3 contains_point_3d_def by (auto intro!: bexI word_div_mono)
  have m2: "morton_intervals_2d b g = (merge_consecutive_codes (sort_dedup codes2) :: (_, index_error) result)"
    by (simp add: morton_intervals_2d_def cc codes2_def)
  have m3: "morton_intervals_3d d g = (merge_consecutive_codes (sort_dedup codes3) :: (_, index_error) result)"
    by (simp add: morton_intervals_3d_def cc codes3_def)
  obtain is2 where is2: "merge_consecutive_codes (sort_dedup codes2) = (Ok is2 :: (_, index_error) result)" "maximal_runs is2"
    "\<forall>c. in_intervals is2 c \<longleftrightarrow> c \<in> set codes2" using merge_codes_ok by blast
  obtain is3 where is3: "merge_consecutive_codes (sort_dedup codes3) = (Ok is3 :: (_, index_error) result)" "maximal_runs is3"
    "\<forall>c. in_intervals is3 c \<longleftrightarrow> c \<in> set codes3" using merge_codes_ok by blast
  show ?thesis
  proof (intro conjI)
    show "\<exists>is. morton_intervals_2d b g = (Ok is :: (_, index_error) result) \<and> maximal_runs is
       \<and> (\<forall>c. in_intervals is c \<longleftrightarrow> (\<exists>cx \<in> {b2_min_x b div n..b2_max_x b div n}.
             \<exists>cy \<in> {b2_min_y b div n..b2_max_y b div n}. c = morton_encode_2d cx cy))
       \<and> (\<forall>x y. contains_point_2d b x y \<longrightarrow> (\<exists>c. chunk_morton_2d g x y = (Ok c :: (_, index_error) result) \<and> in_intervals is c))"
      using is2 p2 unfolding m2 by (intro exI [of _ is2]) (simp add: c2 chunk_morton_2d_def cc)
    show "\<exists>is. morton_intervals_3d d g = (Ok is :: (_, index_error) result) \<and> maximal_runs is
       \<and> (\<forall>c. in_intervals is c \<longleftrightarrow> (\<exists>cx \<in> {b3_min_x d div n..b3_max_x d div n}. \<exists>cy \<in> {b3_min_y d div n..b3_max_y d div n}.
             \<exists>cz \<in> {b3_min_z d div n..b3_max_z d div n}. c = morton_encode_3d cx cy cz))
       \<and> (\<forall>x y z. contains_point_3d d x y z \<longrightarrow> (\<exists>c. chunk_morton_3d g x y z = (Ok c :: (_, index_error) result) \<and> in_intervals is c))"
      using is3 p3 unfolding m3 by (intro exI [of _ is3]) (simp add: c3 chunk_morton_3d_def cc)
  qed
qed

theorem box_intervals_exact_witness:
  "\<exists>is. morton_intervals_3d \<lparr>b3_min_x = 0, b3_min_y = 0, b3_min_z = 0, b3_max_x = 4, b3_max_y = 4, b3_max_z = 4\<rparr> \<lparr>gc_chunk_size = 5\<rparr>
     = (Ok is :: (_, index_error) result) \<and> maximal_runs is \<and> (\<forall>c. in_intervals is c \<longleftrightarrow> c = morton_encode_3d 0 0 0)"
proof -
  have small_div: "(4 :: u32) div 5 = 0" by (simp add: word_arith_nat_div)
  have "grid_new 5 = Ok \<lparr>gc_chunk_size = 5\<rparr>" by (simp add: grid_new_def)
  from conjunct2 [OF box_intervals_exact [OF this, of undefined "\<lparr>b3_min_x = 0, b3_min_y = 0, b3_min_z = 0, b3_max_x = 4, b3_max_y = 4, b3_max_z = 4\<rparr>"]]
  show ?thesis by (elim exE conjE) (rule exI, intro conjI, assumption, assumption, simp add: small_div)
qed

end
