(* ===== verification/Index_Projection.thy ===== *)
theory Index_Projection
  imports Index_Boxes Btree
begin

section \<open>Alternate projections (\<open>temnion-index\<close>: \<open>ProjectionIndex\<close>)\<close>

text \<open>
  Four inverted indexes from a key (entity, valid time, chunk code, schema) to sequence numbers, each an
  ordered map, combined by \<open>query_intersect\<close>. \<open>BTreeMap::range\<close> panics on a reversed range, which
  is a branch of the model. \<open>proj_of\<close> is the specification of one projection: the sequences of
  the indexed items with a key, in order.
\<close>

type_synonym 'k projection = "('k, u64 list) btree"

definition proj_insert :: "'k::linorder \<Rightarrow> u64 \<Rightarrow> 'k projection \<Rightarrow> 'k projection" where
  "proj_insert k sq m =
     (let xs = (case bt_get m k of Some xs \<Rightarrow> xs | None \<Rightarrow> [])
      in bt_insert k (if xs = [] \<or> last xs \<noteq> sq then xs @ [sq] else xs) m)"

definition proj_get :: "'k projection \<Rightarrow> 'k \<Rightarrow> u64 list" where
  "proj_get m k = (case bt_get m k of Some xs \<Rightarrow> xs | None \<Rightarrow> [])"

definition bt_range :: "'k::linorder \<Rightarrow> 'k \<Rightarrow> ('k, 'v) btree \<Rightarrow> (('k, 'v) btree, 'e) result" where
  "bt_range lo hi m = (if lo > hi then Panic else Ok (filter (\<lambda>e. lo \<le> fst e \<and> fst e \<le> hi) m))"

definition entity_insert :: "entity_id \<Rightarrow> u64 \<Rightarrow> entity_id projection \<Rightarrow> entity_id projection" where
  "entity_insert = proj_insert"

definition sequences_for_entity :: "entity_id projection \<Rightarrow> entity_id \<Rightarrow> u64 list" where
  "sequences_for_entity = proj_get"

definition temporal_insert :: "clock_id \<Rightarrow> u64 \<Rightarrow> u64 \<Rightarrow> (clock_id \<times> u64) projection \<Rightarrow> (clock_id \<times> u64) projection" where
  "temporal_insert clock ticks sq = proj_insert (clock, ticks) sq"

definition sequences_in_range :: "(clock_id \<times> u64) projection \<Rightarrow> clock_id \<Rightarrow> u64 \<Rightarrow> u64 \<Rightarrow> (u64 list, index_error) result" where
  "sequences_in_range m clock min_ticks max_ticks =
     rbind (bt_range (clock, min_ticks) (clock, max_ticks) m) (\<lambda>es.
     Ok (sort_dedup (concat (map (\<lambda>((c, _), seqs). if c = clock then seqs else []) es))))"

definition spatial_insert :: "u64 \<Rightarrow> u64 \<Rightarrow> u64 projection \<Rightarrow> u64 projection" where
  "spatial_insert = proj_insert"

definition sequences_in_intervals :: "u64 projection \<Rightarrow> (u64 \<times> u64) list \<Rightarrow> (u64 list, index_error) result" where
  "sequences_in_intervals m is =
     rbind (map_result (\<lambda>(start, stop). rbind (bt_range start stop m) (\<lambda>es. Ok (concat (map snd es)))) is) (\<lambda>xss.
     Ok (sort_dedup (concat xss)))"

definition sequences_in_box :: "u64 projection \<Rightarrow> bounding_box_2d \<Rightarrow> grid_chunker \<Rightarrow> (u64 list, index_error) result" where
  "sequences_in_box m b g = rbind (morton_intervals_2d b g) (sequences_in_intervals m)"

definition schema_insert :: "schema_id \<Rightarrow> u64 \<Rightarrow> schema_id projection \<Rightarrow> schema_id projection" where
  "schema_insert = proj_insert"

definition sequences_for_schema :: "schema_id projection \<Rightarrow> schema_id \<Rightarrow> u64 list" where
  "sequences_for_schema = proj_get"

fun intersect_sorted :: "u64 list \<Rightarrow> u64 list \<Rightarrow> u64 list" where
  "intersect_sorted (a # as) (b # bs) =
     (if a < b then intersect_sorted as (b # bs)
      else if a > b then intersect_sorted (a # as) bs
      else a # intersect_sorted as bs)"
| "intersect_sorted _ _ = []"

record projection_index =
  pi_entities :: "entity_id projection"
  pi_temporal :: "(clock_id \<times> u64) projection"
  pi_spatial :: "u64 projection"
  pi_schemas :: "schema_id projection"
  pi_total_indexed :: u64

definition projection_new :: projection_index where
  "projection_new = \<lparr>pi_entities = [], pi_temporal = [], pi_spatial = [], pi_schemas = [], pi_total_indexed = 0\<rparr>"

definition index_event :: "u64 \<Rightarrow> entity_id \<Rightarrow> schema_id \<Rightarrow> timestamp \<Rightarrow> (u32 \<times> u32) option \<Rightarrow> grid_chunker option
    \<Rightarrow> projection_index \<Rightarrow> (projection_index, index_error) result" where
  "index_event sq entity schema valid coords chunker p =
     (let p = p\<lparr>pi_entities := entity_insert entity sq (pi_entities p),
           pi_schemas := schema_insert schema sq (pi_schemas p),
           pi_temporal := temporal_insert (ts_clock valid) (ts_ticks valid) sq (pi_temporal p)\<rparr>
      in rbind (case (coords, chunker) of
           (Some (x, y), Some g) \<Rightarrow>
             rbind (chunk_morton_2d g x y) (\<lambda>code. Ok (p\<lparr>pi_spatial := spatial_insert code sq (pi_spatial p)\<rparr>))
         | _ \<Rightarrow> Ok p) (\<lambda>p.
         rbind (add_or_panic (pi_total_indexed p) 1) (\<lambda>n. Ok (p\<lparr>pi_total_indexed := n\<rparr>))))"

definition narrow :: "u64 list option \<Rightarrow> u64 list \<Rightarrow> u64 list" where
  "narrow candidates seqs = (case candidates of None \<Rightarrow> seqs | Some existing \<Rightarrow> intersect_sorted existing seqs)"

text \<open>One predicate of the query: it narrows the candidates if it is given, and an empty result returns
  at once.\<close>

definition query_step :: "'p option \<Rightarrow> ('p \<Rightarrow> (u64 list, index_error) result) \<Rightarrow> u64 list option
    \<Rightarrow> (u64 list option \<Rightarrow> (u64 list, index_error) result) \<Rightarrow> (u64 list, index_error) result" where
  "query_step p look candidates k = (case p of
       None \<Rightarrow> k candidates
     | Some q \<Rightarrow> rbind (look q) (\<lambda>seqs.
         let narrowed = narrow candidates seqs in if narrowed = [] then Ok [] else k (Some narrowed)))"

definition query_intersect :: "projection_index \<Rightarrow> entity_id option \<Rightarrow> schema_id option \<Rightarrow> (clock_id \<times> u64 \<times> u64) option
    \<Rightarrow> (u64 \<times> u64) list option \<Rightarrow> (u64 list, index_error) result" where
  "query_intersect p entity schema time_range intervals =
     query_step entity (\<lambda>e. Ok (sequences_for_entity (pi_entities p) e)) None (\<lambda>cand.
     query_step schema (\<lambda>s. Ok (sequences_for_schema (pi_schemas p) s)) cand (\<lambda>cand.
     query_step time_range (\<lambda>(clock, mn, mx). sequences_in_range (pi_temporal p) clock mn mx) cand (\<lambda>cand.
     case intervals of
       None \<Rightarrow> Ok (case cand of Some xs \<Rightarrow> xs | None \<Rightarrow> [])
     | Some is \<Rightarrow> rbind (sequences_in_intervals (pi_spatial p) is) (\<lambda>seqs. Ok (narrow cand seqs)))))"

subsection \<open>Intersection of sorted lists\<close>

lemma intersect_sorted_filter:
  "sorted_wrt (<) xs \<Longrightarrow> sorted_wrt (<) ys \<Longrightarrow> intersect_sorted xs ys = filter (\<lambda>x. x \<in> set ys) xs"
proof (induction xs ys rule: intersect_sorted.induct)
  case (1 a as b bs)
  have le: "x \<in> set bs \<Longrightarrow> b < x" "x \<in> set as \<Longrightarrow> a < x" for x using "1.prems" by auto
  consider "a < b" | "b < a" | "a = b" by fastforce
  then show ?case
  proof cases
    case 1
    then have "a \<notin> set (b # bs)" using le by fastforce
    then show ?thesis using 1 "1.IH"(1) "1.prems" by simp
  next
    case 2
    then have "b \<notin> set (a # as)" using le(2) by fastforce
    then have "filter (\<lambda>x. x \<in> set (b # bs)) (a # as) = filter (\<lambda>x. x \<in> set bs) (a # as)"
      by (intro filter_cong) auto
    moreover have "\<not> a < b" using 2 by simp
    ultimately show ?thesis using 2 "1.IH"(2) "1.prems" by simp
  next
    case 3
    then have "filter (\<lambda>x. x \<in> set (b # bs)) as = filter (\<lambda>x. x \<in> set bs) as"
      using le by (intro filter_cong) auto
    then show ?thesis using 3 "1.IH"(3) "1.prems" by simp
  qed
qed auto

subsection \<open>One projection\<close>

definition proj_of :: "('i \<Rightarrow> 'k option) \<Rightarrow> ('i \<Rightarrow> u64) \<Rightarrow> 'i list \<Rightarrow> 'k \<Rightarrow> u64 list" where
  "proj_of key sq items k = map sq (filter (\<lambda>i. key i = Some k) items)"

definition proj_add :: "('i \<Rightarrow> 'k::linorder option) \<Rightarrow> ('i \<Rightarrow> u64) \<Rightarrow> 'i \<Rightarrow> 'k projection \<Rightarrow> 'k projection" where
  "proj_add key sq i m = (case key i of None \<Rightarrow> m | Some k \<Rightarrow> proj_insert k (sq i) m)"

definition proj_inv :: "('i \<Rightarrow> 'k::linorder option) \<Rightarrow> ('i \<Rightarrow> u64) \<Rightarrow> 'i list \<Rightarrow> 'k projection \<Rightarrow> bool" where
  "proj_inv key sq items m \<longleftrightarrow> bt_wf m \<and> (\<forall>k. proj_get m k = proj_of key sq items k)"

lemma proj_inv_Nil: "proj_inv key sq [] []"
  by (simp add: proj_inv_def proj_get_def proj_of_def)

lemma proj_inv_add:
  assumes "proj_inv key sq items m" "\<forall>j \<in> set items. sq j < sq i"
  shows "proj_inv key sq (items @ [i]) (proj_add key sq i m)"
proof (cases "key i")
  case None
  then show ?thesis using assms(1) by (simp add: proj_inv_def proj_add_def proj_of_def)
next
  case (Some k)
  have "last (proj_of key sq items k) \<noteq> sq i" if "proj_of key sq items k \<noteq> []"
    using assms(2) last_in_set [OF that] by (auto simp: proj_of_def)
  then show ?thesis
    using assms(1) Some by (auto simp: proj_inv_def proj_add_def proj_insert_def proj_get_def proj_of_def Let_def split: option.splits)
qed

lemma proj_of_sorted: "sorted_wrt (<) (map sq items) \<Longrightarrow> sorted_wrt (<) (proj_of key sq items k)"
  unfolding proj_of_def by (simp add: sorted_wrt_map sorted_wrt_filter)

lemma strict_sorted_unique: "sorted_wrt (<) xs \<Longrightarrow> sorted_wrt (<) ys \<Longrightarrow> set xs = set ys \<Longrightarrow> xs = (ys :: 'a::linorder list)"
  by (simp add: strict_sorted_equal)

text \<open>The entries of a projection hold exactly the sequences of the items with their keys.\<close>

lemma proj_entries:
  assumes "proj_inv key sq items m"
  shows "x \<in> set (concat (map snd (filter (\<lambda>e. P (fst e)) m))) \<longleftrightarrow> (\<exists>i \<in> set items. x = sq i \<and> (\<exists>k. key i = Some k \<and> P k))"
proof -
  have wf: "bt_wf m" and get: "\<And>k. proj_get m k = proj_of key sq items k" using assms by (simp_all add: proj_inv_def)
  have "x \<in> set (concat (map snd (filter (\<lambda>e. P (fst e)) m))) \<longleftrightarrow> (\<exists>k. P k \<and> x \<in> set (proj_get m k))"
    using bt_get_iff [OF wf] by (auto simp: proj_get_def split: option.splits) (metis option.inject option.distinct(1))+
  also have "\<dots> \<longleftrightarrow> (\<exists>i \<in> set items. x = sq i \<and> (\<exists>k. key i = Some k \<and> P k))"
    unfolding get proj_of_def by auto
  finally show ?thesis .
qed

lemma sequences_in_range_spec:
  assumes "proj_inv key sq items m" "mn \<le> mx" "sorted_wrt (<) (map sq items)"
  shows "sequences_in_range m clock mn mx
     = Ok (map sq (filter (\<lambda>i. \<exists>t. key i = Some (clock, t) \<and> mn \<le> t \<and> t \<le> mx) items))"
proof -
  let ?P = "\<lambda>k :: clock_id \<times> u64. (clock, mn) \<le> k \<and> k \<le> (clock, mx)"
  let ?es = "filter (\<lambda>e. ?P (fst e)) m"
  have P: "?P (c, t) \<longleftrightarrow> c = clock \<and> mn \<le> t \<and> t \<le> mx" for c t by auto
  then have es: "map (\<lambda>((c, _), seqs). if c = clock then seqs else []) ?es = map snd ?es" by (intro map_cong) auto
  have ord: "\<not> (clock, mn) > (clock, mx)" using assms(2) by auto
  have "sequences_in_range m clock mn mx = Ok (sort_dedup (concat (map snd ?es)))"
    unfolding sequences_in_range_def bt_range_def if_not_P [OF ord] rbind.simps es by (rule refl)
  also have "sort_dedup (concat (map snd ?es)) = map sq (filter (\<lambda>i. \<exists>t. key i = Some (clock, t) \<and> mn \<le> t \<and> t \<le> mx) items)"
  proof (rule strict_sorted_unique)
    show "sorted_wrt (<) (map sq (filter (\<lambda>i. \<exists>t. key i = Some (clock, t) \<and> mn \<le> t \<and> t \<le> mx) items))"
      using assms(3) by (simp add: sorted_wrt_map sorted_wrt_filter)
    have "set (concat (map snd ?es)) = {x. \<exists>i \<in> set items. x = sq i \<and> (\<exists>k. key i = Some k \<and> ?P k)}"
      using proj_entries [OF assms(1), of _ ?P] by blast
    moreover have "(\<exists>k. key i = Some k \<and> ?P k) \<longleftrightarrow> (\<exists>t. key i = Some (clock, t) \<and> mn \<le> t \<and> t \<le> mx)" for i
      by (cases "key i") (auto simp: P split: prod.splits)
    ultimately show "set (sort_dedup (concat (map snd ?es)))
        = set (map sq (filter (\<lambda>i. \<exists>t. key i = Some (clock, t) \<and> mn \<le> t \<and> t \<le> mx) items))" by auto
  qed simp
  finally show ?thesis .
qed

lemma sequences_in_intervals_spec:
  assumes "proj_inv key sq items m" "\<forall>(s, e) \<in> set is. s \<le> e" "sorted_wrt (<) (map sq items)"
  shows "sequences_in_intervals m is = Ok (map sq (filter (\<lambda>i. \<exists>c. key i = Some c \<and> in_intervals is c) items))"
proof -
  let ?g = "\<lambda>(s, e). concat (map snd (filter (\<lambda>x. s \<le> fst x \<and> fst x \<le> e) m))"
  have "map_result (\<lambda>(s, e). rbind (bt_range s e m) (\<lambda>es. Ok (concat (map snd es)))) is = (Ok (map ?g is) :: (_, index_error) result)"
    using assms(2) by (intro map_result_Ok) (auto simp: bt_range_def)
  then have "sequences_in_intervals m is = Ok (sort_dedup (concat (map ?g is)))" by (simp add: sequences_in_intervals_def)
  also have "sort_dedup (concat (map ?g is)) = map sq (filter (\<lambda>i. \<exists>c. key i = Some c \<and> in_intervals is c) items)"
  proof (rule strict_sorted_unique)
    show "sorted_wrt (<) (map sq (filter (\<lambda>i. \<exists>c. key i = Some c \<and> in_intervals is c) items))"
      using assms(3) by (simp add: sorted_wrt_map sorted_wrt_filter)
    have "x \<in> set (?g se) \<longleftrightarrow> (\<exists>i \<in> set items. x = sq i \<and> (\<exists>k. key i = Some k \<and> fst se \<le> k \<and> k \<le> snd se))" for x se
      using proj_entries [OF assms(1), of x "\<lambda>k. fst se \<le> k \<and> k \<le> snd se"] by (simp add: case_prod_unfold)
    then have "set (concat (map ?g is)) = {x. \<exists>se \<in> set is. \<exists>i \<in> set items. x = sq i \<and> (\<exists>k. key i = Some k \<and> fst se \<le> k \<and> k \<le> snd se)}"
      by auto
    also have "\<dots> = set (map sq (filter (\<lambda>i. \<exists>c. key i = Some c \<and> in_intervals is c) items))"
      by (auto simp: in_intervals_def case_prod_unfold)
    finally show "set (sort_dedup (concat (map ?g is)))
        = set (map sq (filter (\<lambda>i. \<exists>c. key i = Some c \<and> in_intervals is c) items))" by simp
  qed simp
  finally show ?thesis .
qed

subsection \<open>The index of a list of events\<close>

record index_item =
  it_sequence :: u64
  it_entity :: entity_id
  it_schema :: schema_id
  it_valid :: timestamp
  it_coords :: "(u32 \<times> u32) option"

definition add_item :: "grid_chunker \<Rightarrow> index_item \<Rightarrow> projection_index \<Rightarrow> (projection_index, index_error) result" where
  "add_item g i = index_event (it_sequence i) (it_entity i) (it_schema i) (it_valid i) (it_coords i) (Some g)"

definition it_code :: "grid_chunker \<Rightarrow> index_item \<Rightarrow> u64 option" where
  "it_code g i = map_option (\<lambda>(x, y). morton_encode_2d (x div gc_chunk_size g) (y div gc_chunk_size g)) (it_coords i)"

definition it_time :: "index_item \<Rightarrow> (clock_id \<times> u64) option" where
  "it_time i = Some (ts_clock (it_valid i), ts_ticks (it_valid i))"

definition index_inv :: "grid_chunker \<Rightarrow> index_item list \<Rightarrow> projection_index \<Rightarrow> bool" where
  "index_inv g items p \<longleftrightarrow> proj_inv (\<lambda>i. Some (it_entity i)) it_sequence items (pi_entities p)
     \<and> proj_inv (\<lambda>i. Some (it_schema i)) it_sequence items (pi_schemas p)
     \<and> proj_inv it_time it_sequence items (pi_temporal p) \<and> proj_inv (it_code g) it_sequence items (pi_spatial p)
     \<and> unat (pi_total_indexed p) = length items"

lemma add_item_inv:
  assumes inv: "index_inv g items p" and g: "gc_chunk_size g \<noteq> 0" and lt: "\<forall>j \<in> set items. it_sequence j < it_sequence i"
    and n: "length items + 1 < 2 ^ 64"
  shows "\<exists>p'. add_item g i p = Ok p' \<and> index_inv g (items @ [i]) p'"
proof -
  note I = inv [unfolded index_inv_def]
  have add: "add_or_panic (pi_total_indexed p) 1 = (Ok (pi_total_indexed p + 1) :: (_, index_error) result)"
    "unat (pi_total_indexed p + 1) = length items + 1"
    using I n by (simp_all add: add_or_panic_def checked_add_def unat_word_ariths)
  have sp: "proj_inv (it_code g) it_sequence (items @ [i]) (proj_add (it_code g) it_sequence i (pi_spatial p))"
    and en: "proj_inv (\<lambda>i. Some (it_entity i)) it_sequence (items @ [i]) (proj_insert (it_entity i) (it_sequence i) (pi_entities p))"
    and sc: "proj_inv (\<lambda>i. Some (it_schema i)) it_sequence (items @ [i]) (proj_insert (it_schema i) (it_sequence i) (pi_schemas p))"
    and te: "proj_inv it_time it_sequence (items @ [i])
      (proj_insert (ts_clock (it_valid i), ts_ticks (it_valid i)) (it_sequence i) (pi_temporal p))"
    using I lt proj_inv_add [of _ it_sequence items _ i] by (fastforce simp: proj_add_def it_time_def)+
  show ?thesis
    using sp en sc te add g
    by (cases "it_coords i")
      (auto simp: add_item_def index_event_def index_inv_def it_code_def proj_add_def Let_def entity_insert_def
        schema_insert_def temporal_insert_def spatial_insert_def chunk_morton_2d_def chunk_coords_Ok)
qed

lemma index_items_inv:
  assumes g: "gc_chunk_size g \<noteq> 0"
  shows "index_inv g done_items p \<Longrightarrow> sorted_wrt (<) (map it_sequence (done_items @ items)) \<Longrightarrow> length (done_items @ items) < 2 ^ 64 \<Longrightarrow>
     \<exists>p'. fold_result (add_item g) items p = Ok p' \<and> index_inv g (done_items @ items) p'"
proof (induction items arbitrary: done_items p)
  case (Cons i items)
  have "\<forall>j \<in> set done_items. it_sequence j < it_sequence i" using Cons.prems(2) by (simp add: sorted_wrt_append)
  then obtain p1 where "add_item g i p = Ok p1" "index_inv g (done_items @ [i]) p1"
    using add_item_inv [OF Cons.prems(1) g] Cons.prems(3) by auto
  then show ?case using Cons.IH [of "done_items @ [i]" p1] Cons.prems by auto
qed simp

subsection \<open>The query\<close>

lemma narrow_spec:
  assumes "sorted_wrt (<) (map sq items)"
  shows "narrow (if g then Some (map sq (filter R items)) else None) (map sq (filter Q items))
     = map sq (filter (\<lambda>i. (g \<longrightarrow> R i) \<and> Q i) items)"
proof (cases g)
  case True
  have inj: "sq i = sq j \<longleftrightarrow> i = j" if "i \<in> set items" "j \<in> set items" for i j
    using assms that by (metis distinct_map inj_onD strict_sorted_iff)
  have "intersect_sorted (map sq (filter R items)) (map sq (filter Q items))
      = filter (\<lambda>x. x \<in> set (map sq (filter Q items))) (map sq (filter R items))"
    using assms by (intro intersect_sorted_filter) (simp_all add: sorted_wrt_map sorted_wrt_filter)
  also have "\<dots> = map sq (filter (\<lambda>i. sq i \<in> sq ` {j \<in> set items. Q j}) (filter R items))" by (simp add: filter_map comp_def)
  also have "\<dots> = map sq (filter (\<lambda>i. R i \<and> Q i) items)"
    unfolding filter_filter using inj by (intro arg_cong [where f = "map sq"] filter_cong) auto
  finally show ?thesis using True by (simp add: narrow_def)
qed (simp add: narrow_def)

lemma query_step_spec:
  assumes sq: "sorted_wrt (<) (map sq items)"
    and look: "\<And>q. p = Some q \<Longrightarrow> look q = Ok (map sq (filter (Q q) items))"
    and k: "\<And>R. k (Some (map sq (filter R items))) = Ok (map sq (filter (\<lambda>i. R i \<and> S i) items))"
  shows "query_step p look (if g then Some (map sq (filter R items)) else None) k
     = (case p of None \<Rightarrow> k (if g then Some (map sq (filter R items)) else None)
        | Some q \<Rightarrow> Ok (map sq (filter (\<lambda>i. ((g \<longrightarrow> R i) \<and> Q q i) \<and> S i) items)))"
proof (cases p)
  case (Some q)
  let ?n = "map sq (filter (\<lambda>i. (g \<longrightarrow> R i) \<and> Q q i) items)"
  have "query_step p look (if g then Some (map sq (filter R items)) else None) k = (if ?n = [] then Ok [] else k (Some ?n))"
    using Some look [OF Some] by (simp add: query_step_def narrow_spec [OF sq] del: map_is_Nil_conv)
  also have "\<dots> = Ok (map sq (filter (\<lambda>i. ((g \<longrightarrow> R i) \<and> Q q i) \<and> S i) items))"
    unfolding k by (auto simp: filter_empty_conv)
  finally show ?thesis using Some by simp
qed (simp add: query_step_def)

text \<open>What a query asks of an item.\<close>

definition item_matches :: "grid_chunker \<Rightarrow> entity_id option \<Rightarrow> schema_id option \<Rightarrow> (clock_id \<times> u64 \<times> u64) option
    \<Rightarrow> (u64 \<times> u64) list option \<Rightarrow> index_item \<Rightarrow> bool" where
  "item_matches g entity schema time_range intervals i \<longleftrightarrow>
     (\<forall>e. entity = Some e \<longrightarrow> it_entity i = e) \<and> (\<forall>s. schema = Some s \<longrightarrow> it_schema i = s)
   \<and> (\<forall>c mn mx. time_range = Some (c, mn, mx) \<longrightarrow> ts_clock (it_valid i) = c \<and> mn \<le> ts_ticks (it_valid i) \<and> ts_ticks (it_valid i) \<le> mx)
   \<and> (\<forall>is. intervals = Some is \<longrightarrow> (\<exists>c. it_code g i = Some c \<and> in_intervals is c))"

lemma query_intersect_spec:
  assumes inv: "index_inv g items p" and sq: "sorted_wrt (<) (map it_sequence items)"
    and tr: "\<forall>c mn mx. time_range = Some (c, mn, mx) \<longrightarrow> mn \<le> mx"
    and iv: "\<forall>is. intervals = Some is \<longrightarrow> (\<forall>(s, e) \<in> set is. s \<le> e)"
  shows "query_intersect p entity schema time_range intervals
     = Ok (if entity = None \<and> schema = None \<and> time_range = None \<and> intervals = None then []
           else map it_sequence (filter (item_matches g entity schema time_range intervals) items))"
proof -
  note I = inv [unfolded index_inv_def]
  let ?sel = "\<lambda>g R. if g then Some (map it_sequence (filter R items)) else None"
  let ?S4 = "\<lambda>i. \<forall>is. intervals = Some is \<longrightarrow> (\<exists>c. it_code g i = Some c \<and> in_intervals is c)"
  let ?Q3 = "\<lambda>(c, mn, mx) i. ts_clock (it_valid i) = c \<and> mn \<le> ts_ticks (it_valid i) \<and> ts_ticks (it_valid i) \<le> mx"
  let ?S3 = "\<lambda>i. (\<forall>q. time_range = Some q \<longrightarrow> ?Q3 q i) \<and> ?S4 i"
  let ?S2 = "\<lambda>i. (\<forall>s. schema = Some s \<longrightarrow> it_schema i = s) \<and> ?S3 i"
  let ?l4 = "\<lambda>cand. case intervals of None \<Rightarrow> Ok (case cand of Some xs \<Rightarrow> xs | None \<Rightarrow> [])
     | Some is \<Rightarrow> rbind (sequences_in_intervals (pi_spatial p) is) (\<lambda>seqs. Ok (narrow cand seqs))"
  let ?l3 = "\<lambda>cand. query_step time_range (\<lambda>(clock, mn, mx). sequences_in_range (pi_temporal p) clock mn mx) cand ?l4"
  let ?l2 = "\<lambda>cand. query_step schema (\<lambda>s. Ok (sequences_for_schema (pi_schemas p) s)) cand ?l3"
  have l4: "?l4 (?sel gv R) = Ok (if gv \<or> intervals \<noteq> None then map it_sequence (filter (\<lambda>i. (gv \<longrightarrow> R i) \<and> ?S4 i) items) else [])" for gv R
    using I iv sequences_in_intervals_spec [of "it_code g" it_sequence items "pi_spatial p"] sq
    by (cases intervals) (auto simp: narrow_spec [OF sq])
  have k4: "?l4 (Some (map it_sequence (filter R items))) = Ok (map it_sequence (filter (\<lambda>i. R i \<and> ?S4 i) items))" for R
    using l4 [of True R] by (simp only: if_True simp_thms)
  have t: "(\<lambda>(clock, mn, mx). sequences_in_range (pi_temporal p) clock mn mx) q = Ok (map it_sequence (filter (?Q3 q) items))"
    if "time_range = Some q" for q
  proof -
    obtain c mn mx where q: "q = (c, mn, mx)" by (rule prod_cases3)
    have "mn \<le> mx" using tr that q by blast
    moreover have "proj_inv it_time it_sequence items (pi_temporal p)" using I by blast
    ultimately have "sequences_in_range (pi_temporal p) c mn mx
        = Ok (map it_sequence (filter (\<lambda>i. \<exists>t. it_time i = Some (c, t) \<and> mn \<le> t \<and> t \<le> mx) items))"
      using sq by (intro sequences_in_range_spec)
    then show ?thesis by (simp add: q it_time_def)
  qed
  have l3: "?l3 (?sel gv R) = Ok (if gv \<or> time_range \<noteq> None \<or> intervals \<noteq> None
      then map it_sequence (filter (\<lambda>i. (gv \<longrightarrow> R i) \<and> ?S3 i) items) else [])" for gv R
    using query_step_spec [where p = time_range and look = "\<lambda>(clock, mn, mx). sequences_in_range (pi_temporal p) clock mn mx"
      and Q = ?Q3 and k = ?l4 and S = ?S4 and g = gv and R = R, OF sq t k4] l4 [of gv R] by (cases time_range) (simp_all add: conj_ac)
  have k3: "?l3 (Some (map it_sequence (filter R items))) = Ok (map it_sequence (filter (\<lambda>i. R i \<and> ?S3 i) items))" for R
    using l3 [of True R] by (simp only: if_True simp_thms)
  have s: "Ok (sequences_for_schema (pi_schemas p) q) = (Ok (map it_sequence (filter (\<lambda>i. it_schema i = q) items)) :: (_, index_error) result)" for q
    using I by (simp add: sequences_for_schema_def proj_inv_def proj_of_def)
  have l2: "?l2 (?sel gv R) = Ok (if gv \<or> schema \<noteq> None \<or> time_range \<noteq> None \<or> intervals \<noteq> None
      then map it_sequence (filter (\<lambda>i. (gv \<longrightarrow> R i) \<and> ?S2 i) items) else [])" for gv R
    using query_step_spec [where p = schema and look = "\<lambda>s. Ok (sequences_for_schema (pi_schemas p) s)"
      and Q = "\<lambda>s i. it_schema i = s" and k = ?l3 and S = ?S3 and g = gv and R = R, OF sq s k3] l3 [of gv R] by (cases schema) (simp_all add: conj_ac)
  have k2: "?l2 (Some (map it_sequence (filter R items))) = Ok (map it_sequence (filter (\<lambda>i. R i \<and> ?S2 i) items))" for R
    using l2 [of True R] by (simp only: if_True simp_thms)
  have e: "Ok (sequences_for_entity (pi_entities p) q) = (Ok (map it_sequence (filter (\<lambda>i. it_entity i = q) items)) :: (_, index_error) result)" for q
    using I by (simp add: sequences_for_entity_def proj_inv_def proj_of_def)
  have m: "item_matches g entity schema time_range intervals = (\<lambda>i. (\<forall>e. entity = Some e \<longrightarrow> it_entity i = e) \<and> ?S2 i)"
    by (auto simp: item_matches_def fun_eq_iff)
  show ?thesis
    unfolding query_intersect_def m
    using query_step_spec [where p = entity and look = "\<lambda>e. Ok (sequences_for_entity (pi_entities p) e)"
      and Q = "\<lambda>e i. it_entity i = e" and k = ?l2 and S = ?S2 and g = False and R = "\<lambda>_. True", OF sq e k2, unfolded if_False simp_thms] l2 [of False "\<lambda>_. True", unfolded if_False simp_thms]
    by (cases entity) simp_all
qed

end
