(* ===== verification/Index_Projection_Codec.thy ===== *)
theory Index_Projection_Codec
  imports Index_Projection
begin

section \<open>Binary form of the projections (\<open>temnion-index\<close>: \<open>ProjectionIndex::encode\<close> and \<open>decode\<close>)\<close>

text \<open>
  The four maps are written one after the other, each as a count and its entries (key, count,
  sequences). The four loops of the source differ only in how a key is written and read, so they are
  instances of \<open>encode_map\<close> and \<open>decode_map\<close>. The vectors' capacity requests are not modelled.
\<close>

definition PROJECTION_MAGIC :: bytes where "PROJECTION_MAGIC = [0x54, 0x4E, 0x50, 0x52]"
definition PROJECTION_VERSION :: u16 where "PROJECTION_VERSION = 1"

definition encode_seqs :: "u64 list \<Rightarrow> bytes" where
  "encode_seqs seqs = to_le 4 (of_nat (length seqs) :: u32) @ concat (map (to_le 8) seqs)"

definition encode_map :: "('k \<Rightarrow> bytes) \<Rightarrow> 'k projection \<Rightarrow> bytes" where
  "encode_map enc m = to_le 4 (of_nat (length m) :: u32) @ concat (map (\<lambda>(k, seqs). enc k @ encode_seqs seqs) m)"

definition encode_time_key :: "clock_id \<times> u64 \<Rightarrow> bytes" where
  "encode_time_key k = to_le 4 (fst k) @ to_le 8 (snd k)"

definition projection_encode :: "(bytes \<Rightarrow> u32) \<Rightarrow> projection_index \<Rightarrow> bytes" where
  "projection_encode crc p =
     (let body = to_le 8 (pi_total_indexed p) @ encode_map encode_entity (pi_entities p)
            @ encode_map encode_time_key (pi_temporal p) @ encode_map (to_le 8) (pi_spatial p)
            @ encode_map (to_le 4) (pi_schemas p)
      in PROJECTION_MAGIC @ to_le 2 PROJECTION_VERSION @ to_le 2 (0 :: u16) @ to_le 4 (crc body) @ body)"

abbreviation eof32 :: index_error where "eof32 \<equiv> IxFormat ''unexpected EOF reading u32''"
abbreviation eof64 :: index_error where "eof64 \<equiv> IxFormat ''unexpected EOF reading u64''"

fun decode_u64s :: "nat \<Rightarrow> bytes \<Rightarrow> (u64 list \<times> bytes, index_error) result" where
  "decode_u64s 0 rest = Ok ([], rest)"
| "decode_u64s (Suc n) rest =
     rbind (read_u64 eof64 rest) (\<lambda>(x, rest). rbind (decode_u64s n rest) (\<lambda>(xs, rest). Ok (x # xs, rest)))"

fun decode_entries :: "(bytes \<Rightarrow> ('k::linorder \<times> bytes, index_error) result) \<Rightarrow> nat \<Rightarrow> 'k projection \<Rightarrow> bytes
    \<Rightarrow> ('k projection \<times> bytes, index_error) result" where
  "decode_entries dec 0 m rest = Ok (m, rest)"
| "decode_entries dec (Suc n) m rest =
     rbind (dec rest) (\<lambda>(k, rest).
     rbind (read_u32 eof32 rest) (\<lambda>(seq_count :: u32, rest).
     rbind (decode_u64s (unat seq_count) rest) (\<lambda>(seqs, rest).
     decode_entries dec n (bt_insert k seqs m) rest)))"

definition decode_map :: "(bytes \<Rightarrow> ('k::linorder \<times> bytes, index_error) result) \<Rightarrow> bytes \<Rightarrow> ('k projection \<times> bytes, index_error) result" where
  "decode_map dec rest = rbind (read_u32 eof32 rest) (\<lambda>(n :: u32, rest). decode_entries dec (unat n) [] rest)"

definition read_entity_key :: "bytes \<Rightarrow> (entity_id \<times> bytes, index_error) result" where
  "read_entity_key rest =
     rbind (read_u32 eof32 rest) (\<lambda>(shard, rest).
     rbind (read_u32 eof32 rest) (\<lambda>(slot, rest).
     rbind (read_u32 eof32 rest) (\<lambda>(generation, rest).
     Ok (\<lparr>ent_shard = shard, ent_slot = slot, ent_generation = generation\<rparr>, rest))))"

definition read_time_key :: "bytes \<Rightarrow> ((clock_id \<times> u64) \<times> bytes, index_error) result" where
  "read_time_key rest =
     rbind (read_u32 eof32 rest) (\<lambda>(clock, rest).
     rbind (read_u64 eof64 rest) (\<lambda>(ticks, rest).
     Ok ((clock, ticks), rest)))"

definition projection_decode :: "(bytes \<Rightarrow> u32) \<Rightarrow> bytes \<Rightarrow> (projection_index, index_error) result" where
  "projection_decode crc bs =
     (if length bs < 12 then Err (IxFormat ''projection index truncated'')
      else if slice bs 0 4 \<noteq> PROJECTION_MAGIC then Err IxInvalidMagic
      else if from_le (slice bs 4 6) \<noteq> PROJECTION_VERSION then Err (IxUnsupportedVersion (from_le (slice bs 4 6)))
      else let body = drop 12 bs in
      if crc body \<noteq> from_le (slice bs 8 12) then Err IxChecksumMismatch
      else
        rbind (read_u64 eof64 body) (\<lambda>(total_indexed, rest).
        rbind (decode_map read_entity_key rest) (\<lambda>(entities, rest).
        rbind (decode_map read_time_key rest) (\<lambda>(temporal, rest).
        rbind (decode_map (read_u64 eof64) rest) (\<lambda>(spatial, rest).
        rbind (decode_map (read_u32 eof32) rest) (\<lambda>(schemas, rest).
        Ok \<lparr>pi_entities = entities, pi_temporal = temporal, pi_spatial = spatial, pi_schemas = schemas,
            pi_total_indexed = total_indexed\<rparr>))))))"

subsection \<open>Round trip\<close>

lemma decode_u64s_encode: "decode_u64s (length xs) (concat (map (to_le 8) xs) @ r) = Ok (xs, r)"
  by (induction xs) simp_all

text \<open>A key codec is a prefix code; what it gives the maps is proved once.\<close>

locale key_codec =
  fixes enc :: "'k::linorder \<Rightarrow> bytes" and dec :: "bytes \<Rightarrow> ('k \<times> bytes, index_error) result"
  assumes dec_enc: "dec (enc k @ r) = Ok (k, r)"
begin

lemma decode_entries_encode:
  assumes "bt_wf (m @ es)" "\<forall>e \<in> set es. length (snd e) < 2 ^ 32"
  shows "decode_entries dec (length es) m (concat (map (\<lambda>(k, seqs). enc k @ encode_seqs seqs) es) @ r) = Ok (m @ es, r)"
  using assms
proof (induction es arbitrary: m)
  case (Cons e es)
  obtain k seqs where e: "e = (k, seqs)" by (cases e)
  have "bt_insert k seqs m = m @ [(k, seqs)]"
    using Cons.prems(1) by (intro bt_insert_last) (auto simp: e bt_wf_def sorted_wrt_append)
  moreover have "unat (of_nat (length seqs) :: u32) = length seqs" using Cons.prems(2) by (simp add: e)
  ultimately show ?case
    using Cons.IH [of "m @ [(k, seqs)]"] Cons.prems by (simp add: e dec_enc encode_seqs_def decode_u64s_encode)
qed simp

lemma decode_map_encode:
  assumes "bt_wf m" "length m < 2 ^ 32" "\<forall>e \<in> set m. length (snd e) < 2 ^ 32"
  shows "decode_map dec (encode_map enc m @ r) = Ok (m, r)"
  using decode_entries_encode [of "[]" m r] assms by (simp add: decode_map_def encode_map_def)

end

interpretation entity_key: key_codec encode_entity read_entity_key
  by unfold_locales (simp add: encode_entity_def read_entity_key_def)

interpretation time_key: key_codec encode_time_key read_time_key
  by unfold_locales (simp add: encode_time_key_def read_time_key_def)

interpretation spatial_key: key_codec "to_le 8" "read_u64 eof64"
  by unfold_locales simp

interpretation schema_key: key_codec "to_le 4" "read_u32 eof32"
  by unfold_locales simp

definition map_encodable :: "'k::linorder projection \<Rightarrow> bool" where
  "map_encodable m \<longleftrightarrow> bt_wf m \<and> length m < 2 ^ 32 \<and> (\<forall>e \<in> set m. length (snd e) < 2 ^ 32)"

lemma projection_decode_encode:
  assumes "map_encodable (pi_entities p)" "map_encodable (pi_temporal p)" "map_encodable (pi_spatial p)" "map_encodable (pi_schemas p)"
  shows "projection_decode crc (projection_encode crc p) = Ok p"
proof -
  define body where "body = to_le 8 (pi_total_indexed p) @ encode_map encode_entity (pi_entities p)
      @ encode_map encode_time_key (pi_temporal p) @ encode_map (to_le 8) (pi_spatial p) @ encode_map (to_le 4) (pi_schemas p)"
  let ?bs = "projection_encode crc p"
  have bs: "?bs = PROJECTION_MAGIC @ to_le 2 PROJECTION_VERSION @ to_le 2 (0 :: u16) @ to_le 4 (crc body) @ body"
    by (simp add: projection_encode_def body_def Let_def)
  have sl: "length ?bs = 12 + length body" "slice ?bs 0 4 = PROJECTION_MAGIC" "slice ?bs 4 6 = to_le 2 PROJECTION_VERSION"
    "slice ?bs 8 12 = to_le 4 (crc body)" "drop 12 ?bs = body"
    unfolding bs by (simp_all add: slice_def PROJECTION_MAGIC_def)
  have d: "decode_map read_entity_key (encode_map encode_entity (pi_entities p) @ r) = Ok (pi_entities p, r)"
    "decode_map read_time_key (encode_map encode_time_key (pi_temporal p) @ r) = Ok (pi_temporal p, r)"
    "decode_map (read_u64 eof64) (encode_map (to_le 8) (pi_spatial p) @ r) = Ok (pi_spatial p, r)"
    "decode_map (read_u32 eof32) (encode_map (to_le 4) (pi_schemas p) @ r) = Ok (pi_schemas p, r)" for r
    using assms unfolding map_encodable_def
    by (blast intro: entity_key.decode_map_encode time_key.decode_map_encode
        spatial_key.decode_map_encode schema_key.decode_map_encode)+
  show ?thesis using sl d(1-3) d(4) [of "[]"] unfolding projection_decode_def by (simp add: body_def)
qed

subsection \<open>Properties\<close>

text \<open>C19: A query over the projections is exact: after indexing events of strictly increasing sequence, a
  query with at least one predicate returns, in order and once each, the sequences of exactly the events
  that satisfy every given predicate (entity, schema, valid time, chunk intervals), and a query with
  none returns nothing; ranges have to be ordered, and a reversed time range alone panics.\<close>

theorem query_intersect_exact:
  assumes g: "grid_new n = Ok g" and sq: "sorted_wrt (<) (map it_sequence items)" and len: "length items < 2 ^ 64"
    and tr: "\<forall>c mn mx. time_range = Some (c, mn, mx) \<longrightarrow> mn \<le> mx"
    and iv: "\<forall>is. intervals = Some is \<longrightarrow> (\<forall>(s, e) \<in> set is. s \<le> e)"
  shows "\<exists>p. fold_result (add_item g) items projection_new = Ok p
     \<and> query_intersect p entity schema time_range intervals
       = Ok (if entity = None \<and> schema = None \<and> time_range = None \<and> intervals = None then []
             else map it_sequence (filter (item_matches g entity schema time_range intervals) items))
     \<and> (\<forall>c mn mx ivs. mx < mn \<longrightarrow> query_intersect p None None (Some (c, mn, mx)) ivs = Panic)"
proof -
  have g0: "gc_chunk_size g \<noteq> 0" using g by (auto simp: grid_new_def split: if_splits)
  have "index_inv g [] projection_new" by (simp add: index_inv_def projection_new_def proj_inv_Nil)
  then obtain p where p: "fold_result (add_item g) items projection_new = Ok p" "index_inv g items p"
    using index_items_inv [OF g0, of "[]" projection_new items] sq len by auto
  have "query_intersect p None None (Some (c, mn, mx)) ivs = Panic" if "mx < mn" for c mn mx ivs
    using that by (simp add: query_intersect_def query_step_def sequences_in_range_def bt_range_def)
  then show ?thesis using p query_intersect_spec [OF p(2) sq tr iv] by blast
qed

text \<open>Saved projections load unchanged: an index whose maps are ordered and whose counts fit 32 bits
  decodes from its encoding to itself.\<close>

theorem projection_roundtrip:
  assumes "map_encodable (pi_entities p)" "map_encodable (pi_temporal p)" "map_encodable (pi_spatial p)" "map_encodable (pi_schemas p)"
  shows "projection_decode crc (projection_encode crc p) = Ok p"
  using assms by (rule projection_decode_encode)

definition sample_item :: index_item where
  "sample_item = \<lparr>it_sequence = 0, it_entity = \<lparr>ent_shard = 0, ent_slot = 0, ent_generation = 0\<rparr>, it_schema = 1,
     it_valid = \<lparr>ts_clock = 1, ts_ticks = 5\<rparr>, it_coords = Some (3, 4)\<rparr>"

theorem query_intersect_exact_witness:
  "\<exists>p. fold_result (add_item \<lparr>gc_chunk_size = 2\<rparr>) [sample_item] projection_new = Ok p
     \<and> query_intersect p None (Some 1) (Some (1, 0, 9)) None = Ok [0]"
  using query_intersect_exact [of 2 "\<lparr>gc_chunk_size = 2\<rparr>" "[sample_item]" "Some (1, 0, 9)" None None "Some 1"]
  by (auto simp: grid_new_def item_matches_def sample_item_def)

theorem projection_roundtrip_witness:
  "projection_decode (\<lambda>_. 7) (projection_encode (\<lambda>_. 7) projection_new) = Ok projection_new"
  by (rule projection_roundtrip) (simp_all add: projection_new_def map_encodable_def)

end
