(* ===== verification/Utf8.thy ===== *)
theory Utf8
  imports Rust_Prelude
begin

section \<open>Rust strings\<close>

text \<open>A Rust \<open>String\<close> is its bytes, which are well-formed UTF-8. This theory has the acceptance test of
  \<open>std::str::from_utf8\<close>, the iteration over characters, and the character classes the code uses.\<close>

definition ascii :: "string \<Rightarrow> bytes" where
  "ascii = map of_char"

definition points :: "string \<Rightarrow> nat list" where
  "points s = map of_char s"

subsection \<open>UTF-8\<close>

text \<open>\<open>std::str::from_utf8\<close> accepts the well-formed sequences of the Unicode standard: the width is given
  by the first byte, and the range of the second byte excludes overlong forms, surrogates and values
  above the last code point.\<close>

definition utf8_width :: "u8 \<Rightarrow> nat" where
  "utf8_width b = (if b < 0x80 then 1 else if b < 0xC2 then 0 else if b < 0xE0 then 2
     else if b < 0xF0 then 3 else if b < 0xF5 then 4 else 0)"

definition utf8_second :: "u8 \<Rightarrow> u8 \<times> u8" where
  "utf8_second b = (if b = 0xE0 then (0xA0, 0xBF) else if b = 0xED then (0x80, 0x9F)
     else if b = 0xF0 then (0x90, 0xBF) else if b = 0xF4 then (0x80, 0x8F) else (0x80, 0xBF))"

definition utf8_tail :: "u8 \<Rightarrow> bytes \<Rightarrow> bool" where
  "utf8_tail b cs = (case cs of [] \<Rightarrow> True
     | c # rest \<Rightarrow> fst (utf8_second b) \<le> c \<and> c \<le> snd (utf8_second b) \<and> list_all (\<lambda>d. 0x80 \<le> d \<and> d \<le> 0xBF) rest)"

fun utf8_valid :: "bytes \<Rightarrow> bool" where
  "utf8_valid [] = True"
| "utf8_valid (b # bs) =
     (utf8_width b \<noteq> 0 \<and> utf8_width b - 1 \<le> length bs \<and> utf8_tail b (take (utf8_width b - 1) bs)
      \<and> utf8_valid (drop (utf8_width b - 1) bs))"

lemma utf8_valid_ascii: "list_all (\<lambda>b. b < 0x80) bs \<Longrightarrow> utf8_valid bs"
  by (induction bs) (simp_all add: utf8_width_def utf8_tail_def)

definition from_utf8 :: "'e \<Rightarrow> bytes \<Rightarrow> (bytes, 'e) result" where
  "from_utf8 e bs = (if utf8_valid bs then Ok bs else Err e)"

subsection \<open>Characters\<close>

text \<open>\<open>str::chars\<close> on well-formed bytes: the code points, as numbers. The first byte of a sequence of width
  \<open>n > 1\<close> carries its low \<open>7 - n\<close> bits, every further byte 6 bits.\<close>

definition utf8_point :: "u8 \<Rightarrow> bytes \<Rightarrow> nat" where
  "utf8_point b cs = fold (\<lambda>c n. n * 64 + unat c mod 64) cs (if cs = [] then unat b else unat b mod 2 ^ (6 - length cs))"

fun utf8_chars :: "bytes \<Rightarrow> nat list" where
  "utf8_chars [] = []"
| "utf8_chars (b # bs) = utf8_point b (take (utf8_width b - 1) bs) # utf8_chars (drop (utf8_width b - 1) bs)"

text \<open>\<open>char::is_control\<close> (general category Cc) and \<open>char::is_whitespace\<close> (property \<open>White_Space\<close>).\<close>

definition is_control :: "nat \<Rightarrow> bool" where
  "is_control c \<longleftrightarrow> c < 0x20 \<or> (0x7F \<le> c \<and> c \<le> 0x9F)"

definition is_whitespace :: "nat \<Rightarrow> bool" where
  "is_whitespace c \<longleftrightarrow> (9 \<le> c \<and> c \<le> 13) \<or> (0x2000 \<le> c \<and> c \<le> 0x200A)
     \<or> c \<in> {0x20, 0x85, 0xA0, 0x1680, 0x2028, 0x2029, 0x202F, 0x205F, 0x3000}"

definition trim_chars :: "nat list \<Rightarrow> nat list" where
  "trim_chars cs = rev (dropWhile is_whitespace (rev (dropWhile is_whitespace cs)))"

definition ascii_lower :: "nat \<Rightarrow> nat" where
  "ascii_lower c = (if 65 \<le> c \<and> c \<le> 90 then c + 32 else c)"

end
