(* ===== verification/Store_Manifest.thy ===== *)
theory Store_Manifest
  imports Wal_Segment Index_Segment Utf8
begin

section \<open>The segment manifest (\<open>temnion-storage\<close>, \<open>manifest.rs\<close>)\<close>

text \<open>
  The manifest lists the published segments and the last sequence that was retired from the log. Its
  decoder checks the length of the input and the checksum first and then reads by indexing, so a read
  past the end panics; the model keeps these reads (\<open>slice_le\<close>) and the guards before them as they are.
  A Rust \<open>String\<close> is its bytes, which \<open>utf8_valid\<close> accepts; \<open>crc\<close> is the checksum of
  \<open>crc32fast\<close>. The error type of the whole crate is here as well; the operating system's error value
  inside \<open>Io\<close> is left out.
\<close>

datatype storage_error =
    StIo string
  | StFormat format_error
  | StIndex index_error
  | StEntropy string
  | StAllocationFailed
  | StAlreadyExists
  | StWriterBusy
  | StPoisoned
  | StCommitOutcomeUnknown storage_error
  | StEmptyBatch
  | StInvalidLimits
  | StSequenceExhausted
  | StKnownClockMismatch clock_id clock_id
  | StKnownTimeRegression u64 u64
  | StInvalidRecord string
  | StIncompleteTail u64 u64
  | StUnknownEvent event_id
  | StInvalidBudget
  | StBudgetTooSmall usize usize
  | StInvalidCursor

text \<open>\<open>From<FormatError>\<close> and \<open>From<IndexError>\<close>, applied by the \<open>?\<close> operator.\<close>

fun from_format :: "('a, format_error) result \<Rightarrow> ('a, storage_error) result" where
  "from_format (Ok x) = Ok x"
| "from_format (Err e) = Err (StFormat e)"
| "from_format Panic = Panic"

fun from_index :: "('a, index_error) result \<Rightarrow> ('a, storage_error) result" where
  "from_index (Ok x) = Ok x"
| "from_index (Err e) = Err (StIndex e)"
| "from_index Panic = Panic"

lemma from_format_Ok [result_ok, simp]: "from_format m = Ok x \<longleftrightarrow> m = Ok x"
  by (cases m) auto

lemma from_format_Panic [simp]: "from_format m = Panic \<longleftrightarrow> m = Panic"
  by (cases m) auto

lemma from_index_Ok [result_ok, simp]: "from_index m = Ok x \<longleftrightarrow> m = Ok x"
  by (cases m) auto

subsection \<open>The manifest and its operations\<close>

record sealed_segment_meta =
  sm_first_sequence :: u64
  sm_last_sequence :: u64
  sm_filename :: bytes
  sm_byte_length :: u64
  sm_crc32 :: u32
  sm_sealed_at_ticks :: u64

record segment_manifest =
  mf_database :: database_id
  mf_source :: source_id
  mf_epoch :: source_epoch
  mf_sealed_segments :: "sealed_segment_meta list"
  mf_retired_up_to_sequence :: "u64 option"

definition manifest_new :: "database_id \<Rightarrow> source_id \<Rightarrow> source_epoch \<Rightarrow> segment_manifest" where
  "manifest_new database source epoch = \<lparr>mf_database = database, mf_source = source, mf_epoch = epoch,
     mf_sealed_segments = [], mf_retired_up_to_sequence = None\<rparr>"

definition same_range :: "sealed_segment_meta \<Rightarrow> sealed_segment_meta \<Rightarrow> bool" where
  "same_range m s \<longleftrightarrow> sm_first_sequence s = sm_first_sequence m \<and> sm_last_sequence s = sm_last_sequence m"

fun replace_first :: "('a \<Rightarrow> bool) \<Rightarrow> 'a \<Rightarrow> 'a list \<Rightarrow> 'a list option" where
  "replace_first p y [] = None"
| "replace_first p y (x # xs) = (if p x then Some (y # xs) else map_option ((#) x) (replace_first p y xs))"

definition manifest_register :: "sealed_segment_meta \<Rightarrow> segment_manifest \<Rightarrow> segment_manifest" where
  "manifest_register meta m = m\<lparr>mf_sealed_segments :=
     (case replace_first (same_range meta) meta (mf_sealed_segments m) of
        Some segs \<Rightarrow> segs
      | None \<Rightarrow> sort_key (\<lambda>s. (sm_first_sequence s, sm_last_sequence s)) (mf_sealed_segments m @ [meta]))\<rparr>"

definition segment_has :: "u64 \<Rightarrow> sealed_segment_meta \<Rightarrow> bool" where
  "segment_has sq s \<longleftrightarrow> sq \<ge> sm_first_sequence s \<and> sq \<le> sm_last_sequence s"

definition is_sequence_sealed :: "segment_manifest \<Rightarrow> u64 \<Rightarrow> bool" where
  "is_sequence_sealed m sq = list_ex (segment_has sq) (mf_sealed_segments m)"

definition find_segment_for_sequence :: "segment_manifest \<Rightarrow> u64 \<Rightarrow> sealed_segment_meta option" where
  "find_segment_for_sequence m sq = List.find (segment_has sq) (mf_sealed_segments m)"

subsection \<open>Encoding\<close>

definition MANIFEST_MAGIC :: bytes where "MANIFEST_MAGIC = [0x54, 0x4E, 0x4D, 0x4E]"
definition MANIFEST_VERSION :: u16 where "MANIFEST_VERSION = 1"

definition encode_meta :: "sealed_segment_meta \<Rightarrow> bytes" where
  "encode_meta s = to_le 8 (sm_first_sequence s) @ to_le 8 (sm_last_sequence s) @ to_le 8 (sm_byte_length s)
     @ to_le 4 (sm_crc32 s) @ to_le 8 (sm_sealed_at_ticks s)
     @ to_le 2 (of_nat (length (sm_filename s)) :: u16) @ sm_filename s"

definition manifest_encode :: "(bytes \<Rightarrow> u32) \<Rightarrow> segment_manifest \<Rightarrow> bytes" where
  "manifest_encode crc m =
     (let buf = MANIFEST_MAGIC @ to_le 2 MANIFEST_VERSION @ mf_database m @ to_le 4 (mf_source m) @ to_le 8 (mf_epoch m)
          @ (case mf_retired_up_to_sequence m of
               Some sq \<Rightarrow> 1 # to_le 8 sq
             | None \<Rightarrow> 0 # to_le 8 (0 :: u64))
          @ to_le 4 (of_nat (length (mf_sealed_segments m)) :: u32)
          @ concat (map encode_meta (mf_sealed_segments m))
      in buf @ to_le 4 (crc buf))"

fun decode_metas :: "nat \<Rightarrow> bytes \<Rightarrow> (sealed_segment_meta list, storage_error) result" where
  "decode_metas 0 rest = Ok []"
| "decode_metas (Suc n) rest =
     (if length rest < 34 then Err (StInvalidRecord ''Truncated segment entry'') else
      rbind (slice_le 8 rest) (\<lambda>(first_sequence, rest).
      rbind (slice_le 8 rest) (\<lambda>(last_sequence, rest).
      rbind (slice_le 8 rest) (\<lambda>(byte_length, rest).
      rbind (slice_le 4 rest) (\<lambda>(crc32, rest).
      rbind (slice_le 8 rest) (\<lambda>(sealed_at_ticks, rest).
      rbind (slice_le 2 rest) (\<lambda>(name_len :: u16, rest).
      if length rest < unat name_len then Err (StInvalidRecord ''Truncated segment filename'') else
      rbind (from_utf8 (StInvalidRecord ''Invalid UTF-8 in segment filename'') (take (unat name_len) rest)) (\<lambda>filename.
      rbind (decode_metas n (drop (unat name_len) rest)) (\<lambda>metas.
      Ok (\<lparr>sm_first_sequence = first_sequence, sm_last_sequence = last_sequence, sm_filename = filename,
           sm_byte_length = byte_length, sm_crc32 = crc32, sm_sealed_at_ticks = sealed_at_ticks\<rparr> # metas))))))))))"

definition manifest_decode :: "(bytes \<Rightarrow> u32) \<Rightarrow> bytes \<Rightarrow> (segment_manifest, storage_error) result" where
  "manifest_decode crc bs =
     (if length bs < 42 then Err (StInvalidRecord ''Segment manifest too short'') else
      let data_len = length bs - 4 in
      if crc (take data_len bs) \<noteq> from_le (drop data_len bs) then Err (StInvalidRecord ''Segment manifest CRC32 mismatch'')
      else if slice bs 0 4 \<noteq> MANIFEST_MAGIC then Err (StInvalidRecord ''Invalid segment manifest magic'')
      else if from_le (slice bs 4 6) \<noteq> MANIFEST_VERSION then Err (StInvalidRecord ''Unsupported segment manifest version'')
      else
      rbind (slice_bytes 16 (drop 6 bs)) (\<lambda>(database, rest).
      rbind (slice_le 4 rest) (\<lambda>(source, rest).
      rbind (slice_le 8 rest) (\<lambda>(epoch, rest).
      rbind (slice_le 1 rest) (\<lambda>(retired_flag :: u8, rest).
      rbind (slice_le 8 rest) (\<lambda>(retired_seq, rest).
      let retired = (if retired_flag = 1 then Some retired_seq else None) in
      if length rest < 4 then Err (StInvalidRecord ''Truncated segment count'') else
      rbind (slice_le 4 rest) (\<lambda>(n :: u32, rest).
      rbind (decode_metas (unat n) rest) (\<lambda>metas.
      Ok \<lparr>mf_database = database, mf_source = source, mf_epoch = epoch, mf_sealed_segments = metas,
          mf_retired_up_to_sequence = retired\<rparr>))))))))"

definition load_if_exists :: "(bytes \<Rightarrow> u32) \<Rightarrow> bytes option \<Rightarrow> (segment_manifest option, storage_error) result" where
  "load_if_exists crc file = (case file of
       None \<Rightarrow> Ok None
     | Some bs \<Rightarrow> rbind (manifest_decode crc bs) (\<lambda>m. Ok (Some m)))"

subsection \<open>Round trip\<close>

definition meta_encodable :: "sealed_segment_meta \<Rightarrow> bool" where
  "meta_encodable s \<longleftrightarrow> length (sm_filename s) < 2 ^ 16 \<and> utf8_valid (sm_filename s)"

definition manifest_encodable :: "segment_manifest \<Rightarrow> bool" where
  "manifest_encodable m \<longleftrightarrow> wf_database_id (mf_database m) \<and> length (mf_sealed_segments m) < 2 ^ 32
     \<and> list_all meta_encodable (mf_sealed_segments m)"

lemma decode_metas_encode:
  "list_all meta_encodable ms \<Longrightarrow> decode_metas (length ms) (concat (map encode_meta ms) @ r) = Ok ms"
proof (induction ms)
  case (Cons s ms)
  have u: "unat (of_nat (length (sm_filename s)) :: u16) = length (sm_filename s)"
    using Cons.prems by (simp add: meta_encodable_def)
  show ?case using Cons u by (simp add: encode_meta_def from_utf8_def meta_encodable_def)
qed simp

lemma manifest_decode_encode:
  assumes "manifest_encodable m"
  shows "manifest_decode crc (manifest_encode crc m) = Ok m"
proof -
  define tl where "tl = to_le 4 (of_nat (length (mf_sealed_segments m)) :: u32) @ concat (map encode_meta (mf_sealed_segments m))"
  define flag :: u8 where "flag = (if mf_retired_up_to_sequence m = None then 0 else 1)"
  define sq :: u64 where "sq = (case mf_retired_up_to_sequence m of None \<Rightarrow> 0 | Some q \<Rightarrow> q)"
  define buf where "buf = MANIFEST_MAGIC @ to_le 2 MANIFEST_VERSION @ mf_database m @ to_le 4 (mf_source m)
     @ to_le 8 (mf_epoch m) @ to_le 1 flag @ to_le 8 sq @ tl"
  have db: "length (mf_database m) = 16" using assms by (simp add: manifest_encodable_def wf_database_id_def)
  have bs: "manifest_encode crc m = buf @ to_le 4 (crc buf)"
    by (cases "mf_retired_up_to_sequence m") (simp_all add: manifest_encode_def buf_def tl_def flag_def sq_def Let_def)
  have len: "length buf = 43 + length tl" using db by (simp add: buf_def MANIFEST_MAGIC_def)
  have tl4: "4 \<le> length tl" by (simp add: tl_def)
  have sl: "slice (buf @ x) 0 4 = MANIFEST_MAGIC" "slice (buf @ x) 4 6 = to_le 2 MANIFEST_VERSION"
    "drop 6 (buf @ x) = mf_database m @ to_le 4 (mf_source m) @ to_le 8 (mf_epoch m) @ to_le 1 flag @ to_le 8 sq @ tl @ x" for x
    by (simp_all add: buf_def slice_def MANIFEST_MAGIC_def)
  have n: "unat (of_nat (length (mf_sealed_segments m)) :: u32) = length (mf_sealed_segments m)"
    using assms by (simp add: manifest_encodable_def)
  have metas: "decode_metas (length (mf_sealed_segments m)) (concat (map encode_meta (mf_sealed_segments m)) @ x) = Ok (mf_sealed_segments m)" for x
    using assms by (intro decode_metas_encode) (simp add: manifest_encodable_def)
  have fl: "(if flag = 1 then Some sq else None) = mf_retired_up_to_sequence m"
    by (simp add: flag_def sq_def split: option.splits)
  have one: "slice_le (Suc 0) (b # r) = (Ok (b, r) :: (_, storage_error) result)" for b :: u8 and r by (simp add: slice_le_def)
  show ?thesis
    unfolding bs manifest_decode_def
    using one len tl4 sl [of "to_le 4 (crc buf)"] db n metas fl by (cases "flag = 1") (simp_all add: tl_def)
qed

subsection \<open>Registration\<close>

lemma replace_first_None: "replace_first p y xs = None \<longleftrightarrow> (\<forall>x \<in> set xs. \<not> p x)"
  by (induction xs) auto

lemma replace_first_Some:
  "replace_first p y xs = Some ys \<Longrightarrow> \<exists>as x bs. xs = as @ x # bs \<and> p x \<and> (\<forall>a \<in> set as. \<not> p a) \<and> ys = as @ y # bs"
proof (induction xs arbitrary: ys)
  case (Cons z zs)
  show ?case
  proof (cases "p z")
    case True
    then show ?thesis using Cons.prems by (intro exI [of _ "[]"]) simp
  next
    case False
    then obtain ws where "replace_first p y zs = Some ws" "ys = z # ws" using Cons.prems by auto
    with Cons.IH [of ws] False obtain as x bs where "zs = as @ x # bs" "p x" "\<forall>a \<in> set as. \<not> p a" "ws = as @ y # bs" by blast
    with False \<open>ys = z # ws\<close> show ?thesis by (intro exI [of _ "z # as"]) auto
  qed
qed simp

end
