(* ===== verification/Store_Log.thy ===== *)
theory Store_Log
  imports Store_Manifest
begin

section \<open>The durable source log: create, append and recover (\<open>temnion-storage\<close>, \<open>lib.rs\<close>)\<close>

text \<open>
  \<open>Store\<close> keeps one write-ahead log in the file \<open>events.wal\<close> and an index of its frames in memory. The
  file is its bytes; the operations that write it take the bytes and return those afterwards. Handles
  (the path, the open file, the directory lock) have no counterpart; commit subscribers are foreign
  callbacks that receive the appended records and are left out.

  What the environment decides is a parameter: \<open>alloc\<close> the allocator, \<open>crc\<close> the checksum, and for an
  append the \<open>write_outcome\<close>: which file operation fails, and how many bytes of the frame the file then
  holds. This covers a crash during the append, too: the process may stop at any of these points. A
  file operation that only reads is taken to succeed on an existing file with enough bytes.
\<close>

record recovery_report =
  rr_recovered_events :: u64
  rr_discarded_tail_bytes :: u64

datatype recovery_mode = RejectIncompleteTail | TruncateIncompleteTail

record write_event =
  we_entity :: entity_id
  we_times :: event_times
  we_schema :: schema_id
  we_payload :: bytes
  we_causes :: "event_id list"

record durable_receipt =
  dr_database :: database_id
  dr_first :: event_id
  dr_last :: event_id
  dr_count :: usize

record frame_location =
  fl_offset :: u64
  fl_length :: usize
  fl_first :: u64
  fl_count :: usize

record store =
  st_header :: wal_header
  st_limits :: limits
  st_frames :: "frame_location list"
  st_summaries :: "block_summary list"
  st_next_sequence :: u64
  st_end_offset :: u64
  st_last_known :: "timestamp option"
  st_poisoned :: bool

definition validate_limits :: "limits \<Rightarrow> (unit, storage_error) result" where
  "validate_limits l =
     (if max_frame_bytes l \<le> BATCH_HEADER_LEN \<or> max_records l = 0 \<or> max_payload_bytes l = 0
         \<or> max_segment_bytes l \<le> WAL_HEADER_LEN
      then Err StInvalidLimits else Ok ())"

definition validate_record :: "wal_header \<Rightarrow> u64 \<Rightarrow> timestamp option \<Rightarrow> stored_event \<Rightarrow> (unit, storage_error) result" where
  "validate_record header sq previous r =
     (if eid_source (se_id r) \<noteq> wh_source header \<or> eid_epoch (se_id r) \<noteq> wh_epoch header \<or> eid_sequence (se_id r) \<noteq> sq
      then Err (StInvalidRecord ''source, epoch, or contiguous sequence mismatch'') else
      rbind (case previous of
               None \<Rightarrow> Ok ()
             | Some p \<Rightarrow>
                 if ts_clock p \<noteq> ts_clock (et_known (se_times r))
                 then Err (StKnownClockMismatch (ts_clock p) (ts_clock (et_known (se_times r))))
                 else if ts_ticks (et_known (se_times r)) < ts_ticks p
                 then Err (StKnownTimeRegression (ts_ticks p) (ts_ticks (et_known (se_times r))))
                 else Ok ()) (\<lambda>_.
      if list_ex (\<lambda>c. eid_source c = wh_source header \<and> eid_epoch c = wh_epoch header \<and> eid_sequence c \<ge> sq) (se_causes r)
      then Err (StInvalidRecord ''same-source cause does not precede event'') else Ok ()))"

text \<open>\<open>Store::create\<close>: the directory is fresh unless \<open>exists\<close>, and \<open>database\<close> is the drawn identity
  (\<open>None\<close> if the operating system has no entropy). It returns the store and the new file.\<close>

definition store_create :: "(bytes \<Rightarrow> u32) \<Rightarrow> bool \<Rightarrow> bool \<Rightarrow> database_id option \<Rightarrow> source_id \<Rightarrow> source_epoch \<Rightarrow> limits
    \<Rightarrow> (store \<times> bytes, storage_error) result" where
  "store_create crc busy exists database source epoch l =
     rbind (validate_limits l) (\<lambda>_.
     if busy then Err StWriterBusy else
     rbind (ok_or database (StEntropy ''entropy'')) (\<lambda>database.
     if exists then Err StAlreadyExists else
     let header = \<lparr>wh_database = database, wh_source = source, wh_epoch = epoch\<rparr>;
         encoded = encode_wal_header crc header
     in Ok (\<lparr>st_header = header, st_limits = l, st_frames = [], st_summaries = [], st_next_sequence = 0,
             st_end_offset = of_nat (length encoded), st_last_known = None, st_poisoned = False\<rparr>, encoded)))"

subsection \<open>Appending\<close>

datatype write_outcome =
    InspectFails
  | SeekFails
  | WriteFails usize
  | SyncFails usize
  | Written

definition write_frame :: "write_outcome \<Rightarrow> u64 \<Rightarrow> bytes \<Rightarrow> bytes \<Rightarrow> (unit, storage_error) result \<times> bytes" where
  "write_frame oc end_offset encoded wal =
     (if oc = InspectFails then (Err (StIo ''inspect append position''), wal)
      else if of_nat (length wal) \<noteq> end_offset
      then (Err (StInvalidRecord ''WAL changed outside the locked writer''), wal)
      else case oc of
        SeekFails \<Rightarrow> (Err (StIo ''seek append position''), wal)
      | WriteFails n \<Rightarrow> (Err (StIo ''append WAL batch''), wal @ take n encoded)
      | SyncFails n \<Rightarrow> (Err (StIo ''synchronize WAL batch''), wal @ take n encoded)
      | _ \<Rightarrow> (Ok (), wal @ encoded))"

definition to_record :: "wal_header \<Rightarrow> u64 \<Rightarrow> write_event \<Rightarrow> stored_event" where
  "to_record header sq w = \<lparr>se_id = \<lparr>eid_source = wh_source header, eid_epoch = wh_epoch header, eid_sequence = sq\<rparr>,
     se_entity = we_entity w, se_times = we_times w, se_schema = we_schema w, se_payload = we_payload w,
     se_causes = we_causes w\<rparr>"

text \<open>The loop that stamps and validates the inputs; \<open>i\<close> is the position in the batch. It returns the
  records and the last known time.\<close>

fun admit :: "wal_header \<Rightarrow> u64 \<Rightarrow> nat \<Rightarrow> timestamp option \<Rightarrow> write_event list
    \<Rightarrow> (stored_event list \<times> timestamp option, storage_error) result" where
  "admit header nxt i known [] = Ok ([], known)"
| "admit header nxt i known (w # ws) =
     rbind (add_or_panic nxt (of_nat i)) (\<lambda>sq.
     let r = to_record header sq w in
     rbind (validate_record header sq known r) (\<lambda>_.
     rbind (admit header nxt (Suc i) (Some (et_known (se_times r))) ws) (\<lambda>(rs, known). Ok (r # rs, known))))"

text \<open>The part of \<open>append\<close> before the write: the guards, the stamped records and their frame.\<close>

definition append_prepare :: "(bytes \<Rightarrow> u32) \<Rightarrow> (usize \<Rightarrow> bool) \<Rightarrow> write_event list \<Rightarrow> store
    \<Rightarrow> (u64 \<times> stored_event list \<times> timestamp option \<times> bytes \<times> u64, storage_error) result" where
  "append_prepare crc alloc batch s =
        (if st_poisoned s then Err StPoisoned
         else if batch = [] then Err StEmptyBatch
         else if length batch > max_records (st_limits s) then Err (StFormat (FxLimitExceeded ''records per batch''))
         else
         rbind (ok_or (checked_add (st_next_sequence s) (of_nat (length batch))) StSequenceExhausted) (\<lambda>stop.
         rbind (try_reserve alloc (length batch) StAllocationFailed) (\<lambda>_.
         rbind (admit (st_header s) (st_next_sequence s) 0 (st_last_known s) batch) (\<lambda>(records, known).
         rbind (from_format (encode_batch crc alloc records (st_limits s))) (\<lambda>encoded.
         rbind (ok_or (checked_add (st_end_offset s) (of_nat (length encoded))) StSequenceExhausted) (\<lambda>new_offset.
         rbind (try_reserve alloc 1 StAllocationFailed) (\<lambda>_.
         Ok (stop, records, known, encoded, new_offset))))))))"

definition store_append :: "(bytes \<Rightarrow> u32) \<Rightarrow> (usize \<Rightarrow> bool) \<Rightarrow> write_outcome \<Rightarrow> write_event list \<Rightarrow> store \<Rightarrow> bytes
    \<Rightarrow> (durable_receipt, storage_error) result \<times> store \<times> bytes" where
  "store_append crc alloc oc batch s wal =
     (case append_prepare crc alloc batch s of
        Err e \<Rightarrow> (Err e, s, wal)
      | Panic \<Rightarrow> (Panic, s, wal)
      | Ok (stop, records, known, encoded, new_offset) \<Rightarrow>
         (case write_frame oc (st_end_offset s) encoded wal of
            (Err e, wal') \<Rightarrow> (Err (StCommitOutcomeUnknown e), s\<lparr>st_poisoned := True\<rparr>, wal')
          | (Panic, wal') \<Rightarrow> (Panic, s, wal')
          | (Ok _, wal') \<Rightarrow>
             (let receipt = \<lparr>dr_database = wh_database (st_header s), dr_first = se_id (hd records),
                             dr_last = se_id (last records), dr_count = length records\<rparr>;
                  frames = st_frames s @ [\<lparr>fl_offset = st_end_offset s, fl_length = length encoded,
                             fl_first = st_next_sequence s, fl_count = length records\<rparr>]
              in case summarize (of_nat (length frames - 1)) (st_end_offset s) (of_nat (length encoded)) records of
                   Ok sm \<Rightarrow>
                     (Ok receipt, s\<lparr>st_frames := frames, st_summaries := st_summaries s @ [sm], st_next_sequence := stop,
                          st_end_offset := new_offset, st_last_known := known\<rparr>, wal')
                 | Err e \<Rightarrow> (Err e, s\<lparr>st_frames := frames\<rparr>, wal')
                 | Panic \<Rightarrow> (Panic, s\<lparr>st_frames := frames\<rparr>, wal'))))"

subsection \<open>Opening\<close>

definition read_frame_at :: "(bytes \<Rightarrow> u32) \<Rightarrow> (usize \<Rightarrow> bool) \<Rightarrow> limits \<Rightarrow> bytes \<Rightarrow> u64 \<Rightarrow> usize
    \<Rightarrow> (stored_event list, storage_error) result" where
  "read_frame_at crc alloc l wal offset len =
     (if len > max_frame_bytes l then Err (StFormat (FxLimitExceeded ''frame bytes'')) else
      rbind (try_reserve alloc len StAllocationFailed) (\<lambda>_.
      if unat offset + len > length wal then Err (StIo ''read history frame'')
      else from_format (decode_batch crc alloc (slice wal (unat offset) (unat offset + len)) l)))"

text \<open>The validation loop of recovery, which also counts the sequence up.\<close>

fun validate_run :: "wal_header \<Rightarrow> u64 \<Rightarrow> timestamp option \<Rightarrow> stored_event list
    \<Rightarrow> (u64 \<times> timestamp option, storage_error) result" where
  "validate_run header sq known [] = Ok (sq, known)"
| "validate_run header sq known (r # rs) =
     rbind (validate_record header sq known r) (\<lambda>_.
     rbind (ok_or (checked_add sq 1) StSequenceExhausted) (\<lambda>sq'.
     validate_run header sq' (Some (et_known (se_times r))) rs))"

text \<open>One iteration of the recovery loop: \<open>None\<close> if the tail is incomplete.\<close>

definition recover_frame :: "(bytes \<Rightarrow> u32) \<Rightarrow> (usize \<Rightarrow> bool) \<Rightarrow> bytes \<Rightarrow> store \<Rightarrow> (store option, storage_error) result" where
  "recover_frame crc alloc wal s =
     (let remaining = length wal - unat (st_end_offset s) in
      if remaining < BATCH_HEADER_LEN then Ok None else
      let prefix = slice wal (unat (st_end_offset s)) (unat (st_end_offset s) + BATCH_HEADER_LEN) in
      rbind (from_format (frame_length crc prefix (st_limits s))) (\<lambda>frame_bytes.
      if frame_bytes > remaining then Ok None else
      rbind (read_frame_at crc alloc (st_limits s) wal (st_end_offset s) frame_bytes) (\<lambda>records.
      if records = [] then Err (StInvalidRecord ''empty WAL batch'') else
      rbind (validate_run (st_header s) (st_next_sequence s) (st_last_known s) records) (\<lambda>(nxt, known).
      rbind (try_reserve alloc 1 StAllocationFailed) (\<lambda>_.
      let frames = st_frames s @ [\<lparr>fl_offset = st_end_offset s, fl_length = frame_bytes,
                      fl_first = st_next_sequence s, fl_count = length records\<rparr>] in
      rbind (summarize (of_nat (length frames - 1)) (st_end_offset s) (of_nat frame_bytes) records) (\<lambda>sm.
      rbind (ok_or (checked_add (st_end_offset s) (of_nat frame_bytes)) StSequenceExhausted) (\<lambda>new_offset.
      Ok (Some (s\<lparr>st_frames := frames, st_summaries := st_summaries s @ [sm], st_next_sequence := nxt,
                  st_last_known := known, st_end_offset := new_offset\<rparr>)))))))))"

text \<open>The loop returns the store, the bytes discarded and the file. Every complete frame moves the end
  offset by at least the length of a frame header, which is why it terminates.\<close>

lemma frame_length_bounds: "frame_length crc p l = Ok n \<Longrightarrow> BATCH_HEADER_LEN \<le> n \<and> n < 2 ^ 32 \<and> n \<le> max_frame_bytes l"
  by (auto simp: frame_length_def Let_def split: if_splits)

lemma recover_frame_progress:
  assumes "recover_frame crc alloc wal s = Ok (Some s')"
  shows "unat (st_end_offset s) < unat (st_end_offset s')" "unat (st_end_offset s') \<le> length wal"
proof -
  from assms obtain n where fl: "frame_length crc (slice wal (unat (st_end_offset s)) (unat (st_end_offset s) + BATCH_HEADER_LEN))
      (st_limits s) = Ok n" "checked_add (st_end_offset s) (of_nat n) = Some (st_end_offset s')"
      "n \<le> length wal - unat (st_end_offset s)" "BATCH_HEADER_LEN \<le> length wal - unat (st_end_offset s)"
    by (auto simp: recover_frame_def Let_def result_ok split: if_splits)
  have n: "24 \<le> n" "n < 2 ^ 32" using frame_length_bounds [OF fl(1)] by (simp_all add: BATCH_HEADER_LEN_def)
  have "unat (of_nat n :: u64) = n" using n(2) by simp
  then have "unat (st_end_offset s') = unat (st_end_offset s) + n" using checked_add_Some [OF fl(2)] by simp
  then show "unat (st_end_offset s) < unat (st_end_offset s')" "unat (st_end_offset s') \<le> length wal"
    using n fl(3,4) by (simp_all add: BATCH_HEADER_LEN_def)
qed

function recover_loop :: "(bytes \<Rightarrow> u32) \<Rightarrow> (usize \<Rightarrow> bool) \<Rightarrow> recovery_mode \<Rightarrow> bytes \<Rightarrow> store
    \<Rightarrow> (store \<times> u64 \<times> bytes, storage_error) result" where
  "recover_loop crc alloc mode wal s =
     (if unat (st_end_offset s) < length wal then
        (case recover_frame crc alloc wal s of
           Err e \<Rightarrow> Err e
         | Panic \<Rightarrow> Panic
         | Ok (Some s') \<Rightarrow> recover_loop crc alloc mode wal s'
         | Ok None \<Rightarrow>
             let remaining = of_nat (length wal - unat (st_end_offset s)) in
             (case mode of
                RejectIncompleteTail \<Rightarrow> Err (StIncompleteTail (st_end_offset s) remaining)
              | TruncateIncompleteTail \<Rightarrow> Ok (s, remaining, take (unat (st_end_offset s)) wal)))
      else Ok (s, 0, wal))"
  by pat_completeness auto
termination
  by (relation "measure (\<lambda>(crc, alloc, mode, wal, s). length wal - unat (st_end_offset s))")
     (auto dest: recover_frame_progress intro: diff_less_mono2)

text \<open>The first sequence of the log: the one after the last that the manifest says was retired.\<close>

definition initial_sequence :: "(bytes \<Rightarrow> u32) \<Rightarrow> bytes option \<Rightarrow> (u64, storage_error) result" where
  "initial_sequence crc manifest =
     rbind (load_if_exists crc manifest) (\<lambda>mf.
     case Option.bind mf mf_retired_up_to_sequence of None \<Rightarrow> Ok 0 | Some sq \<Rightarrow> add_or_panic sq 1)"

text \<open>\<open>Store::open\<close>: \<open>wal\<close> and \<open>manifest\<close> are the files' contents if they exist. It returns the store,
  the report and the log file, which a truncation has shortened.\<close>

definition store_open :: "(bytes \<Rightarrow> u32) \<Rightarrow> (usize \<Rightarrow> bool) \<Rightarrow> bool \<Rightarrow> bytes option \<Rightarrow> bytes option \<Rightarrow> limits \<Rightarrow> recovery_mode
    \<Rightarrow> (store \<times> recovery_report \<times> bytes, storage_error) result" where
  "store_open crc alloc busy wal manifest l mode =
     rbind (validate_limits l) (\<lambda>_.
     if busy then Err StWriterBusy else
     rbind (ok_or wal (StIo ''open WAL'')) (\<lambda>wal.
     rbind (from_format (decode_wal_header crc (take WAL_HEADER_LEN wal))) (\<lambda>header.
     rbind (initial_sequence crc manifest) (\<lambda>initial.
     rbind (recover_loop crc alloc mode wal
       \<lparr>st_header = header, st_limits = l, st_frames = [], st_summaries = [], st_next_sequence = initial,
        st_end_offset = of_nat WAL_HEADER_LEN, st_last_known = None, st_poisoned = False\<rparr>) (\<lambda>(s, discarded, wal').
     Ok (s, \<lparr>rr_recovered_events = st_next_sequence s, rr_discarded_tail_bytes = discarded\<rparr>, wal'))))))"

end
