(* ===== verification/Store_Recovery.thy ===== *)
theory Store_Recovery
  imports Store_Log
begin

section \<open>Crash recovery of the durable log\<close>

text \<open>
  The abstract log is a list of batches. \<open>log_bytes\<close> is the file that holds exactly these batches, and
  \<open>index_batch\<close> the effect of publishing one more on the in-memory index; an unpoisoned store is the
  fold of \<open>index_batch\<close> over the batches of its file (\<open>store_inv\<close>). Appending extends the list, and
  recovery of any file that an interrupted append can leave computes the same fold again.
\<close>

definition log_bytes :: "(bytes \<Rightarrow> u32) \<Rightarrow> wal_header \<Rightarrow> stored_event list list \<Rightarrow> bytes" where
  "log_bytes crc h bs = encode_wal_header crc h @ concat (map (batch_bytes crc) bs)"

definition new_frame :: "(bytes \<Rightarrow> u32) \<Rightarrow> stored_event list \<Rightarrow> store \<Rightarrow> frame_location" where
  "new_frame crc rs s = \<lparr>fl_offset = st_end_offset s, fl_length = length (batch_bytes crc rs),
     fl_first = st_next_sequence s, fl_count = length rs\<rparr>"

definition new_summary :: "(bytes \<Rightarrow> u32) \<Rightarrow> stored_event list \<Rightarrow> store \<Rightarrow> block_summary" where
  "new_summary crc rs s = the_ok (summarize (of_nat (length (st_frames s))) (st_end_offset s)
     (of_nat (length (batch_bytes crc rs))) rs :: (block_summary, storage_error) result)"

definition index_batch :: "(bytes \<Rightarrow> u32) \<Rightarrow> stored_event list \<Rightarrow> store \<Rightarrow> store" where
  "index_batch crc rs s = s\<lparr>st_frames := st_frames s @ [new_frame crc rs s],
     st_summaries := st_summaries s @ [new_summary crc rs s],
     st_next_sequence := st_next_sequence s + of_nat (length rs),
     st_last_known := Some (et_known (se_times (last rs))),
     st_end_offset := st_end_offset s + of_nat (length (batch_bytes crc rs))\<rparr>"

definition batch_ok :: "(bytes \<Rightarrow> u32) \<Rightarrow> store \<Rightarrow> stored_event list \<Rightarrow> bool" where
  "batch_ok crc s rs \<longleftrightarrow> rs \<noteq> [] \<and> batch_within (st_limits s) rs
     \<and> is_ok (validate_run (st_header s) (st_next_sequence s) (st_last_known s) rs)
     \<and> unat (st_end_offset s) + length (batch_bytes crc rs) < 2 ^ 64"

fun batches_ok :: "(bytes \<Rightarrow> u32) \<Rightarrow> store \<Rightarrow> stored_event list list \<Rightarrow> bool" where
  "batches_ok crc s [] = True"
| "batches_ok crc s (rs # bs) = (batch_ok crc s rs \<and> batches_ok crc (index_batch crc rs s) bs)"

lemma end_offset_last_known:
  "s\<lparr>st_end_offset := n, st_last_known := k\<rparr> = s\<lparr>st_last_known := k, st_end_offset := n\<rparr>"
  by (cases s) simp

lemma batches_ok_append:
  "batches_ok crc s (bs @ cs) \<longleftrightarrow> batches_ok crc s bs \<and> batches_ok crc (fold (index_batch crc) bs s) cs"
  by (induction bs arbitrary: s) simp_all

lemma index_batch_keeps [simp]:
  "st_header (index_batch crc rs s) = st_header s" "st_limits (index_batch crc rs s) = st_limits s"
  "st_poisoned (index_batch crc rs s) = st_poisoned s"
  by (simp_all add: index_batch_def)

lemma index_batches_keep [simp]:
  "st_header (fold (index_batch crc) bs s) = st_header s" "st_limits (fold (index_batch crc) bs s) = st_limits s"
  "st_poisoned (fold (index_batch crc) bs s) = st_poisoned s"
  by (induction bs arbitrary: s) simp_all

subsection \<open>Validation\<close>

lemma checked_add_succ: "checked_add (x :: u64) 1 = Some y \<longleftrightarrow> unat x + 1 < 2 ^ 64 \<and> y = x + 1"
  by (auto simp: checked_add_def)

lemma unat_add_small: "unat (x :: u64) + n < 2 ^ 64 \<Longrightarrow> unat (x + of_nat n) = unat x + n"
  by (simp add: unat_word_ariths unat_of_nat take_bit_nat_def)

text \<open>A valid run ends at the sequence after its last record.\<close>

lemma validate_run_Ok:
  "validate_run h sq known rs = Ok (nxt, known') \<Longrightarrow>
     unat sq + length rs < 2 ^ 64 \<and> nxt = sq + of_nat (length rs)
     \<and> known' = (if rs = [] then known else Some (et_known (se_times (last rs))))"
proof (induction rs arbitrary: sq known)
  case (Cons r rs)
  then obtain sq' where s: "unat sq + 1 < 2 ^ 64" "sq' = sq + 1"
    and v: "validate_run h sq' (Some (et_known (se_times r))) rs = Ok (nxt, known')"
    by (auto simp: result_ok checked_add_succ)
  have "unat sq' = unat sq + 1" using s unat_add_small [of sq 1] by simp
  then show ?case using Cons.IH [OF v] s(2) by (auto simp: algebra_simps)
qed simp

lemma validate_record_not_Panic [simp]: "validate_record h sq known r \<noteq> Panic"
  by (auto simp: validate_record_def rbind_eq_Panic split: option.splits)

fun stamp :: "wal_header \<Rightarrow> u64 \<Rightarrow> write_event list \<Rightarrow> stored_event list" where
  "stamp h sq [] = []"
| "stamp h sq (w # ws) = to_record h sq w # stamp h (sq + 1) ws"

lemma length_stamp [simp]: "length (stamp h sq ws) = length ws"
  by (induction ws arbitrary: sq) simp_all

lemma stamp_Nil [simp]: "stamp h sq ws = [] \<longleftrightarrow> ws = []"
  by (cases ws) simp_all

lemma admit_Ok:
  "admit h nxt i known ws = Ok (rs, known') \<Longrightarrow> unat nxt + (i + length ws) < 2 ^ 64 \<Longrightarrow>
     rs = stamp h (nxt + of_nat i) ws \<and> validate_run h (nxt + of_nat i) known rs = Ok (nxt + of_nat (i + length ws), known')"
proof (induction ws arbitrary: i known rs)
  case (Cons w ws)
  have b: "unat nxt + i < 2 ^ 64" "unat nxt + (Suc i + length ws) < 2 ^ 64" using Cons.prems(2) by simp_all
  have u: "unat (of_nat i :: u64) = i" using b(1) by (intro unat_of_nat_small) simp
  then have ad: "add_or_panic nxt (of_nat i) = (Ok (nxt + of_nat i) :: (_, storage_error) result)"
    using b(1) by (simp add: add_or_panic_def checked_add_def)
  define r where "r = to_record h (nxt + of_nat i) w"
  from Cons.prems(1) obtain rs' where rs: "rs = r # rs'" "validate_record h (nxt + of_nat i) known r = Ok ()"
    "admit h nxt (Suc i) (Some (et_known (se_times r))) ws = Ok (rs', known')"
    by (auto simp: ad r_def Let_def result_ok)
  have "unat (nxt + of_nat i) + 1 < 2 ^ 64" using b unat_add_small [of nxt i] by simp
  then have "checked_add (nxt + of_nat i) 1 = Some (nxt + of_nat (Suc i))"
    by (simp add: checked_add_succ algebra_simps)
  then show ?case using Cons.IH [OF rs(3) b(2)] rs(1,2) by (auto simp add: r_def algebra_simps)
qed simp

lemma admit_not_Panic: "unat nxt + (i + length ws) < 2 ^ 64 \<Longrightarrow> admit h nxt i known ws \<noteq> Panic"
proof (induction ws arbitrary: i known)
  case (Cons w ws)
  have b: "unat nxt + i < 2 ^ 64" "unat nxt + (Suc i + length ws) < 2 ^ 64" using Cons.prems by simp_all
  have u: "unat (of_nat i :: u64) = i" using b(1) by (intro unat_of_nat_small) simp
  then have ad: "add_or_panic nxt (of_nat i) = (Ok (nxt + of_nat i) :: (_, storage_error) result)"
    using b(1) by (simp add: add_or_panic_def checked_add_def)
  show ?case using Cons.IH [OF b(2)] by (auto simp: ad Let_def rbind_eq_Panic)
qed simp

subsection \<open>Encoding with any allocator\<close>

lemma encode_batch_any_alloc:
  "encode_batch crc alloc rs l = Ok bs \<Longrightarrow> batch_within l rs \<and> bs = batch_bytes crc rs"
proof -
  assume a: "encode_batch crc alloc rs l = Ok bs"
  then have "encode_batch crc (\<lambda>_. True) rs l = Ok bs"
    by (auto simp: encode_batch_def result_ok split: if_splits)
  then show ?thesis using encode_batch_Ok [of "\<lambda>_. True" crc rs l bs] by simp
qed

lemma encode_batch_not_Panic: "encode_batch crc alloc rs l \<noteq> Panic"
proof -
  have "encoded_record_len r l \<noteq> Panic" for r
    by (auto simp: encoded_record_len_def Let_def rbind_eq_Panic split: if_splits)
  then have "batch_body_len l n rs \<noteq> Panic" for n
    by (induction rs arbitrary: n) (auto simp: rbind_eq_Panic)
  moreover have "encode_record_body r \<noteq> Panic" for r
    by (auto simp: encode_record_body_def rbind_eq_Panic)
  then have "map_result encode_record_body rs \<noteq> Panic" by (intro map_result_not_Panic)
  ultimately show ?thesis
    by (auto simp: encode_batch_def Let_def rbind_eq_Panic try_reserve_def split: if_splits)
qed

text \<open>A frame within the limits has fewer than \<open>2 ^ 32\<close> records, so its summary cannot overflow.\<close>

lemma summarize_Ok:
  assumes "rs \<noteq> []" "length rs < 2 ^ 32"
  shows "\<exists>b. summarize i off len rs = (Ok b :: (_, 'e) result)"
proof -
  have step: "\<exists>b'. fold_result block_add xs b = (Ok b' :: (_, 'e) result)"
    if "unat (bk_record_count b) + length xs < 2 ^ 32" for xs b
    using that
  proof (induction xs arbitrary: b)
    case (Cons x xs)
    have c: "checked_add (bk_record_count b) 1 = Some (bk_record_count b + 1)"
      using Cons.prems by (simp add: checked_add_def)
    obtain b1 where b1: "block_add x b = (Ok b1 :: (_, 'e) result)" "bk_record_count b1 = bk_record_count b + 1"
      by (auto simp: block_add_def block_update_def add_or_panic_def c)
    then have "unat (bk_record_count b1) + length xs < 2 ^ 32"
      using checked_add_Some [OF c] Cons.prems by simp
    then show ?case using Cons.IH [of b1] b1(1) by simp
  qed simp
  obtain x xs where rs: "rs = x # xs" using assms(1) by (cases rs) auto
  show ?thesis unfolding rs summarize_def list.case
    using assms(2) by (intro step) (simp add: rs block_new_def)
qed

lemma new_summary_Ok:
  assumes "batch_ok crc s rs"
  shows "summarize (of_nat (length (st_frames s))) (st_end_offset s) (of_nat (length (batch_bytes crc rs))) rs
     = (Ok (new_summary crc rs s) :: (_, 'e) result)"
proof -
  have r: "rs \<noteq> []" "length rs < 2 ^ 32" using assms by (auto simp: batch_ok_def batch_within_def)
  then obtain b where "summarize (of_nat (length (st_frames s))) (st_end_offset s) (of_nat (length (batch_bytes crc rs))) rs
     = (Ok b :: (_, storage_error) result)" using summarize_Ok by blast
  then have n: "new_summary crc rs s = b" by (simp add: new_summary_def)
  have conv: "fold_result block_add xs c = (Ok d :: (_, storage_error) result) \<Longrightarrow> fold_result block_add xs c = (Ok d :: (_, 'e) result)" for xs c d
    by (induction xs arbitrary: c) (auto simp: rbind_eq_Ok block_add_def block_update_def add_or_panic_def split: option.splits)
  then show ?thesis unfolding n using \<open>summarize _ _ _ rs = _\<close> r(1) by (auto simp: summarize_def split: list.splits)
qed

subsection \<open>The invariant and the append\<close>

definition fresh_store :: "wal_header \<Rightarrow> limits \<Rightarrow> u64 \<Rightarrow> store" where
  "fresh_store h l sq = \<lparr>st_header = h, st_limits = l, st_frames = [], st_summaries = [], st_next_sequence = sq,
     st_end_offset = 40, st_last_known = None, st_poisoned = False\<rparr>"

definition store_inv :: "(bytes \<Rightarrow> u32) \<Rightarrow> wal_header \<Rightarrow> limits \<Rightarrow> u64 \<Rightarrow> stored_event list list \<Rightarrow> store \<Rightarrow> bytes \<Rightarrow> bool" where
  "store_inv crc h l base bs s wal \<longleftrightarrow> wf_database_id (wh_database h) \<and> batches_ok crc (fresh_store h l base) bs
     \<and> s = fold (index_batch crc) bs (fresh_store h l base) \<and> wal = log_bytes crc h bs"

lemma fresh_store_simps [simp]:
  "st_header (fresh_store h l sq) = h" "st_limits (fresh_store h l sq) = l" "st_next_sequence (fresh_store h l sq) = sq"
  "unat (st_end_offset (fresh_store h l sq)) = 40" "st_poisoned (fresh_store h l sq) = False" "st_frames (fresh_store h l sq) = []"
  "st_summaries (fresh_store h l sq) = []" "st_last_known (fresh_store h l sq) = None"
  by (simp_all add: fresh_store_def)

lemma length_encode_wal_header [simp]: "wf_database_id (wh_database h) \<Longrightarrow> length (encode_wal_header crc h) = 40"
  by (simp add: encode_wal_header_def Let_def WAL_MAGIC_def wf_database_id_def)

lemma batch_ok_end:
  assumes "batch_ok crc s rs"
  shows "unat (st_end_offset (index_batch crc rs s)) = unat (st_end_offset s) + length (batch_bytes crc rs)"
  using assms unat_add_small by (simp add: batch_ok_def index_batch_def)

lemma batches_ok_end:
  "batches_ok crc s bs \<Longrightarrow>
     unat (st_end_offset (fold (index_batch crc) bs s)) = unat (st_end_offset s) + length (concat (map (batch_bytes crc) bs))"
  by (induction bs arbitrary: s) (simp_all add: batch_ok_end)

lemma store_inv_end: "store_inv crc h l base bs s wal \<Longrightarrow> unat (st_end_offset s) = length wal \<and> length wal < 2 ^ 64"
  using batches_ok_end [of crc "fresh_store h l base" bs] unsigned_less [of "st_end_offset s", where ?'a = nat]
  by (auto simp: store_inv_def log_bytes_def)

lemma store_inv_step:
  "store_inv crc h l base bs s wal \<Longrightarrow> batch_ok crc s rs \<Longrightarrow>
     store_inv crc h l base (bs @ [rs]) (index_batch crc rs s) (wal @ batch_bytes crc rs)"
  by (simp add: store_inv_def log_bytes_def batches_ok_append)

lemma append_prepare_Ok:
  assumes "append_prepare crc alloc batch s = Ok (stop, records, known, encoded, new_offset)" "length batch < 2 ^ 64"
  shows "records = stamp (st_header s) (st_next_sequence s) batch" "batch_ok crc s records" "encoded = batch_bytes crc records"
    "stop = st_next_sequence s + of_nat (length records)" "new_offset = st_end_offset s + of_nat (length encoded)"
    "known = Some (et_known (se_times (last records)))" "\<not> st_poisoned s"
proof -
  have ub: "unat (of_nat (length batch) :: u64) = length batch" using assms(2) by simp
  from assms(1) have a: "batch \<noteq> []" "checked_add (st_next_sequence s) (of_nat (length batch)) = Some stop"
    "admit (st_header s) (st_next_sequence s) 0 (st_last_known s) batch = Ok (records, known)"
    "encode_batch crc alloc records (st_limits s) = Ok encoded"
    "checked_add (st_end_offset s) (of_nat (length encoded)) = Some new_offset" "\<not> st_poisoned s"
    by (auto simp: append_prepare_def result_ok split: if_splits)
  have lt: "unat (st_next_sequence s) + length batch < 2 ^ 64"
    using a(2) ub by (auto simp: checked_add_def split: if_splits)
  have ad: "records = stamp (st_header s) (st_next_sequence s) batch"
    "validate_run (st_header s) (st_next_sequence s) (st_last_known s) records = Ok (st_next_sequence s + of_nat (length batch), known)"
    using admit_Ok [OF a(3)] lt by auto
  have e: "batch_within (st_limits s) records" "encoded = batch_bytes crc records" using encode_batch_any_alloc [OF a(4)] by auto
  then have l: "length encoded < 2 ^ 32" by (simp add: batch_within_def length_batch_bytes)
  then have ue: "unat (of_nat (length encoded) :: u64) = length encoded" by (intro unat_of_nat_small) simp
  show "records = stamp (st_header s) (st_next_sequence s) batch" "encoded = batch_bytes crc records" "\<not> st_poisoned s"
    using ad(1) e(2) a(6) by auto
  show "stop = st_next_sequence s + of_nat (length records)" "new_offset = st_end_offset s + of_nat (length encoded)"
    using a(2,5) by (auto simp: checked_add_def ad(1) split: if_splits)
  show "known = Some (et_known (se_times (last records)))" using validate_run_Ok [OF ad(2)] a(1) ad(1) by simp
  show "batch_ok crc s records"
    using a(1,5) ad e ue by (auto simp: batch_ok_def checked_add_def split: if_splits)
qed

lemma append_prepare_not_Panic: "length batch < 2 ^ 64 \<Longrightarrow> append_prepare crc alloc batch s \<noteq> Panic"
proof -
  assume "length batch < 2 ^ 64"
  then have ub: "unat (of_nat (length batch) :: u64) = length batch" by simp
  show ?thesis
    using admit_not_Panic [of "st_next_sequence s" 0 batch] encode_batch_not_Panic ub
    by (auto simp: append_prepare_def rbind_eq_Panic result_ok try_reserve_def checked_add_def split: if_splits)
qed

text \<open>The three outcomes of an append to a live store: committed, refused without effect, or unknown with
  a prefix of the frame in the file.\<close>

lemma store_append_cases:
  assumes inv: "store_inv crc h l base bs s wal" and len: "length batch < 2 ^ 64"
    and ap: "store_append crc alloc oc batch s wal = (r, s', wal')"
  obtains (committed) rs where "rs = stamp (st_header s) (st_next_sequence s) batch" "batch_ok crc s rs"
      "r = Ok \<lparr>dr_database = wh_database (st_header s), dr_first = se_id (hd rs), dr_last = se_id (last rs), dr_count = length rs\<rparr>"
      "s' = index_batch crc rs s" "wal' = wal @ batch_bytes crc rs"
  | (refused) e where "r = Err e" "s' = s" "wal' = wal"
  | (unknown) e rs n where "rs = stamp (st_header s) (st_next_sequence s) batch" "batch_ok crc s rs"
      "r = Err (StCommitOutcomeUnknown e)" "s' = s\<lparr>st_poisoned := True\<rparr>" "wal' = wal @ take n (batch_bytes crc rs)"
proof -
  show thesis
  proof (cases "append_prepare crc alloc batch s")
    case (Err e)
    then show thesis using ap refused by (auto simp: store_append_def)
  next
    case Panic
    then show thesis using append_prepare_not_Panic [OF len] by simp
  next
    case (Ok p)
    obtain stop records known encoded new_offset where p: "p = (stop, records, known, encoded, new_offset)" by (cases p) auto
    note P = append_prepare_Ok [OF Ok [unfolded p] len]
    have eo: "of_nat (length wal) = st_end_offset s"
    proof -
      have "of_nat (unat (st_end_offset s)) = st_end_offset s" by simp
      then show ?thesis using store_inv_end [OF inv] by simp
    qed
    define res where "res = write_frame oc (st_end_offset s) encoded wal"
    have wf: "res = (Ok (), wal @ encoded) \<or> (\<exists>e n. res = (Err e, wal @ take n encoded))"
      using eo by (cases oc) (auto simp: res_def write_frame_def intro: exI [of _ 0])
    show thesis
    proof (cases "res = (Ok (), wal @ encoded)")
      case True
      have "(r, s', wal') = (Ok \<lparr>dr_database = wh_database (st_header s), dr_first = se_id (hd records), dr_last = se_id (last records),
          dr_count = length records\<rparr>, index_batch crc records s, wal @ batch_bytes crc records)"
        using True ap Ok P(3-6) new_summary_Ok [OF P(2), where ?'e = storage_error]
        by (simp add: store_append_def p res_def Let_def index_batch_def new_frame_def end_offset_last_known)
      then show thesis using committed [OF P(1,2)] by simp
    next
      case False
      then obtain e n where "res = (Err e, wal @ take n encoded)" using wf by auto
      then have "(r, s', wal') = (Err (StCommitOutcomeUnknown e), s\<lparr>st_poisoned := True\<rparr>, wal @ take n (batch_bytes crc records))"
        using ap Ok P(3) by (simp add: store_append_def p res_def)
      then show thesis using unknown [OF P(1,2)] by simp
    qed
  qed
qed

subsection \<open>Recovery of a file\<close>

lemma batch_bytes_frame_length:
  assumes "batch_within l rs"
  shows "frame_length crc (batch_bytes crc rs) l = Ok (length (batch_bytes crc rs))"
    "length (batch_bytes crc rs) \<le> max_frame_bytes l" "length (batch_bytes crc rs) < 2 ^ 32"
proof -
  have d: "decode_batch crc (\<lambda>_. True) (batch_bytes crc rs) l = Ok rs"
    using decode_batch_Ok [of "\<lambda>_. True"] assms by simp
  then show fl: "frame_length crc (batch_bytes crc rs) l = Ok (length (batch_bytes crc rs))"
    by (auto simp: decode_batch_def rbind_eq_Ok split: if_splits)
  show "length (batch_bytes crc rs) \<le> max_frame_bytes l" "length (batch_bytes crc rs) < 2 ^ 32"
    using frame_length_bounds [OF fl] by simp_all
qed

text \<open>The length of a frame is in its first 24 bytes.\<close>

lemma frame_length_prefix: "24 \<le> length p \<Longrightarrow> frame_length crc (take 24 p) l = frame_length crc p l"
  by (simp add: frame_length_def get_u16_def get_u32_def slice_take BATCH_HEADER_LEN_def Let_def)

lemma recover_frame_complete:
  assumes ok: "batch_ok crc s rs" and mem: "\<forall>n. alloc n" and pre: "length pre = unat (st_end_offset s)"
  shows "recover_frame crc alloc (pre @ batch_bytes crc rs @ rest) s = Ok (Some (index_batch crc rs s))"
proof -
  let ?b = "batch_bytes crc rs" and ?w = "pre @ batch_bytes crc rs @ rest"
  have w: "batch_within (st_limits s) rs" "rs \<noteq> []" using ok by (auto simp: batch_ok_def)
  note B = batch_bytes_frame_length [OF w(1), of crc]
  have l24: "24 \<le> length ?b" by (simp add: length_batch_bytes)
  have fl: "frame_length crc (slice ?w (unat (st_end_offset s)) (unat (st_end_offset s) + BATCH_HEADER_LEN)) (st_limits s)
      = Ok (length ?b)"
    using frame_length_prefix [OF l24] B(1) l24 by (simp add: slice_def BATCH_HEADER_LEN_def flip: pre)
  have dec: "decode_batch crc alloc ?b (st_limits s) = Ok rs" using decode_batch_Ok [OF mem] w(1) by blast
  have al: "alloc n" for n using mem by blast
  have rd: "read_frame_at crc alloc (st_limits s) ?w (st_end_offset s) (length ?b) = Ok rs"
    using B(2) dec al by (simp add: read_frame_at_def try_reserve_def slice_def flip: pre)
  obtain nxt known where v: "validate_run (st_header s) (st_next_sequence s) (st_last_known s) rs = Ok (nxt, known)"
    using ok by (cases "validate_run (st_header s) (st_next_sequence s) (st_last_known s) rs") (auto simp: batch_ok_def)
  have ca: "checked_add (st_end_offset s) (of_nat (length ?b)) = Some (st_end_offset s + of_nat (length ?b))"
    using ok B(3) by (simp add: checked_add_def batch_ok_def)
  have rem: "\<not> length ?w - unat (st_end_offset s) < BATCH_HEADER_LEN" "\<not> length ?b > length ?w - unat (st_end_offset s)"
    using l24 by (simp_all add: BATCH_HEADER_LEN_def flip: pre)
  show ?thesis
    unfolding recover_frame_def Let_def
    using fl rd v ca w(2) al rem new_summary_Ok [OF ok, where ?'e = storage_error] validate_run_Ok [OF v]
    by (simp add: try_reserve_def index_batch_def new_frame_def)
qed

declare recover_loop.simps [simp del]

lemma recover_loop_batches:
  assumes "batches_ok crc s bs" "\<forall>n. alloc n" "length pre = unat (st_end_offset s)"
  shows "recover_loop crc alloc mode (pre @ concat (map (batch_bytes crc) bs) @ torn) s
       = recover_loop crc alloc mode (pre @ concat (map (batch_bytes crc) bs) @ torn) (fold (index_batch crc) bs s)"
  using assms
proof (induction bs arbitrary: s pre)
  case (Cons rs bs)
  let ?w = "pre @ concat (map (batch_bytes crc) (rs # bs)) @ torn"
  have ok: "batch_ok crc s rs" using Cons.prems by simp
  have "recover_frame crc alloc ?w s = Ok (Some (index_batch crc rs s))"
    using recover_frame_complete [OF ok Cons.prems(2,3), of "concat (map (batch_bytes crc) bs) @ torn"] by simp
  moreover have "unat (st_end_offset s) < length ?w" using Cons.prems(3) by (simp add: length_batch_bytes)
  ultimately have "recover_loop crc alloc mode ?w s = recover_loop crc alloc mode ?w (index_batch crc rs s)"
    by (subst recover_loop.simps) simp
  also have "\<dots> = recover_loop crc alloc mode ?w (fold (index_batch crc) bs (index_batch crc rs s))"
    using Cons.IH [OF _ Cons.prems(2), of "index_batch crc rs s" "pre @ batch_bytes crc rs"] Cons.prems(1,3) batch_ok_end [OF ok] by simp
  finally show ?case by simp
qed simp

text \<open>A proper prefix of a frame is recognised as an incomplete tail.\<close>

lemma recover_frame_torn:
  assumes ok: "batch_ok crc s rs" and pre: "length pre = unat (st_end_offset s)"
    and n: "n < length (batch_bytes crc rs)"
  shows "recover_frame crc alloc (pre @ take n (batch_bytes crc rs)) s = Ok None"
proof (cases "n < 24")
  case True
  then show ?thesis using n by (simp add: recover_frame_def Let_def BATCH_HEADER_LEN_def flip: pre)
next
  case False
  have w: "batch_within (st_limits s) rs" using ok by (simp add: batch_ok_def)
  have "24 \<le> length (batch_bytes crc rs)" by (simp add: length_batch_bytes)
  then have "frame_length crc (slice (pre @ take n (batch_bytes crc rs)) (unat (st_end_offset s)) (unat (st_end_offset s) + BATCH_HEADER_LEN))
      (st_limits s) = Ok (length (batch_bytes crc rs))"
    using frame_length_prefix [of "batch_bytes crc rs"] batch_bytes_frame_length(1) [OF w] False
    by (simp add: slice_def BATCH_HEADER_LEN_def min_def flip: pre)
  then show ?thesis using False n by (simp add: recover_frame_def Let_def BATCH_HEADER_LEN_def flip: pre)
qed

lemma load_if_exists_None [simp]: "load_if_exists crc None = Ok None"
  by (simp add: load_if_exists_def)

lemma initial_sequence_None [simp]: "initial_sequence crc None = Ok 0"
  by (simp add: initial_sequence_def)

definition report :: "store \<Rightarrow> bytes \<Rightarrow> recovery_report" where
  "report s torn = \<lparr>rr_recovered_events = st_next_sequence s, rr_discarded_tail_bytes = of_nat (length torn)\<rparr>"

lemma store_open_recovers:
  assumes inv: "store_inv crc h l base bs s wal" and first: "initial_sequence crc manifest = Ok base" and l: "validate_limits l = Ok ()" and mem: "\<forall>n. alloc n"
    and torn: "torn = [] \<or> (\<exists>rs n. batch_ok crc s rs \<and> n < length (batch_bytes crc rs) \<and> torn = take n (batch_bytes crc rs))"
  shows "store_open crc alloc False (Some (wal @ torn)) manifest l TruncateIncompleteTail = Ok (s, report s torn, wal)"
    "store_open crc alloc False (Some (wal @ torn)) manifest l RejectIncompleteTail
       = (if torn = [] then Ok (s, report s [], wal) else Err (StIncompleteTail (of_nat (length wal)) (of_nat (length torn))))"
proof -
  have i: "wf_database_id (wh_database h)" "batches_ok crc (fresh_store h l base) bs" "s = fold (index_batch crc) bs (fresh_store h l base)"
    "wal = encode_wal_header crc h @ concat (map (batch_bytes crc) bs)" using inv by (auto simp: store_inv_def log_bytes_def)
  have e: "unat (st_end_offset s) = length wal" "st_end_offset s = of_nat (length wal)"
  proof -
    have "of_nat (unat (st_end_offset s)) = st_end_offset s" by simp
    then show "unat (st_end_offset s) = length wal" "st_end_offset s = of_nat (length wal)" using store_inv_end [OF inv] by simp_all
  qed
  have hd: "decode_wal_header crc (take WAL_HEADER_LEN (wal @ torn)) = Ok h"
    using i(1,4) by (simp add: WAL_HEADER_LEN_def wal_header_exact)
  have run: "recover_loop crc alloc mode (wal @ torn) (fresh_store h l base) = recover_loop crc alloc mode (wal @ torn) s" for mode
    using recover_loop_batches [OF i(2) mem, of "encode_wal_header crc h"] i(1,3,4) by simp
  have loop: "recover_loop crc alloc mode (wal @ torn) s = (if torn = [] then Ok (s, 0, wal) else
      (case mode of RejectIncompleteTail \<Rightarrow> Err (StIncompleteTail (of_nat (length wal)) (of_nat (length torn)))
       | TruncateIncompleteTail \<Rightarrow> Ok (s, of_nat (length torn), wal)))" for mode
  proof (cases "torn = []")
    case True
    then show ?thesis using e by (subst recover_loop.simps) simp
  next
    case False
    then have "recover_frame crc alloc (wal @ torn) s = Ok None" using torn recover_frame_torn e(1) by metis
    then show ?thesis using False e by (subst recover_loop.simps) (simp split: recovery_mode.splits)
  qed
  have start: "\<lparr>st_header = h, st_limits = l, st_frames = [], st_summaries = [], st_next_sequence = base,
      st_end_offset = of_nat WAL_HEADER_LEN, st_last_known = None, st_poisoned = False\<rparr> = fresh_store h l base"
    by (simp add: fresh_store_def WAL_HEADER_LEN_def)
  show "store_open crc alloc False (Some (wal @ torn)) manifest l TruncateIncompleteTail = Ok (s, report s torn, wal)"
    "store_open crc alloc False (Some (wal @ torn)) manifest l RejectIncompleteTail
       = (if torn = [] then Ok (s, report s [], wal) else Err (StIncompleteTail (of_nat (length wal)) (of_nat (length torn))))"
    using hd l run loop first by (simp_all add: store_open_def start report_def)
qed

subsection \<open>Histories of appends\<close>

text \<open>A client runs a list of appends, each with the outcome the environment gives its write. \<open>acked\<close> are
  the batches whose append returned a receipt, stamped with consecutive sequences.\<close>

type_synonym append_op = "write_outcome \<times> write_event list"

definition append_step :: "(bytes \<Rightarrow> u32) \<Rightarrow> (usize \<Rightarrow> bool) \<Rightarrow> store \<times> bytes \<Rightarrow> append_op
    \<Rightarrow> (durable_receipt, storage_error) result \<times> store \<times> bytes" where
  "append_step crc alloc = (\<lambda>(s, wal) (oc, batch). store_append crc alloc oc batch s wal)"

fun acked :: "wal_header \<Rightarrow> u64 \<Rightarrow> append_op list \<Rightarrow> (durable_receipt, storage_error) result list \<Rightarrow> stored_event list list" where
  "acked h sq ((oc, batch) # ops) (Ok _ # rs) = stamp h sq batch # acked h (sq + of_nat (length batch)) ops rs"
| "acked h sq (_ # ops) (_ # rs) = acked h sq ops rs"
| "acked h sq _ _ = []"

text \<open>The abstract state after a history: live with exactly the acknowledged batches, or poisoned, with a
  prefix of one more frame in the file.\<close>

definition after_run :: "(bytes \<Rightarrow> u32) \<Rightarrow> wal_header \<Rightarrow> limits \<Rightarrow> append_op list \<Rightarrow> stored_event list list \<Rightarrow> store \<Rightarrow> bytes \<Rightarrow> bool" where
  "after_run crc h l ops bs s wal \<longleftrightarrow>
     store_inv crc h l 0 bs s wal
     \<or> (\<exists>s1 w1 oc batch n. (oc, batch) \<in> set ops \<and> store_inv crc h l 0 bs s1 w1
          \<and> batch_ok crc s1 (stamp h (st_next_sequence s1) batch) \<and> st_poisoned s
          \<and> wal = w1 @ take n (batch_bytes crc (stamp h (st_next_sequence s1) batch)))"

lemma poisoned_run:
  assumes "st_poisoned s"
  shows "run_ops (append_step crc alloc) (s, wal) ops = (map (\<lambda>_. Err StPoisoned) ops, s, wal)"
  using assms by (induction ops) (simp_all add: run_ops.simps append_step_def store_append_def append_prepare_def split_beta)

lemma acked_errors: "acked h sq ops (map (\<lambda>_. Err e) ops) = []"
  by (induction ops arbitrary: sq) auto

lemma store_inv_next:
  "store_inv crc h l base bs s wal \<Longrightarrow> st_header s = h \<and> st_limits s = l \<and> \<not> st_poisoned s
     \<and> st_next_sequence s = base + of_nat (length (concat bs))"
proof -
  have "st_next_sequence (fold (index_batch crc) bs t) = st_next_sequence t + of_nat (length (concat bs))" for t
    by (induction bs arbitrary: t) (simp_all add: index_batch_def algebra_simps)
  then show "store_inv crc h l base bs s wal \<Longrightarrow> ?thesis" by (auto simp: store_inv_def)
qed

lemma run_after:
  assumes "store_inv crc h l 0 bs s wal" "\<forall>(oc, batch) \<in> set ops. length batch < 2 ^ 64"
    and "run_ops (append_step crc alloc) (s, wal) ops = (rs, s', wal')"
  shows "after_run crc h l ops (bs @ acked h (st_next_sequence s) ops rs) s' wal'"
  using assms
proof (induction ops arbitrary: bs s wal rs)
  case Nil
  then show ?case by (auto simp: after_run_def)
next
  case (Cons p ops)
  obtain oc batch where op: "p = (oc, batch)" by (cases p)
  obtain r s1 w1 where ap: "store_append crc alloc oc batch s wal = (r, s1, w1)" by (cases "store_append crc alloc oc batch s wal") auto
  obtain rs1 sw where rr: "run_ops (append_step crc alloc) (s1, w1) ops = (rs1, sw)"
    by (cases "run_ops (append_step crc alloc) (s1, w1) ops")
  have "append_step crc alloc (s, wal) p = (r, s1, w1)" using ap by (simp add: op append_step_def)
  then have rest: "run_ops (append_step crc alloc) (s1, w1) ops = (rs1, s', wal')" and rs: "rs = r # rs1"
    using Cons.prems(3) rr by (simp_all add: run_ops.simps(2))
  have len: "length batch < 2 ^ 64" "\<forall>(oc, batch) \<in> set ops. length batch < 2 ^ 64" using Cons.prems(2) by (auto simp: op)
  have hd: "st_header s = h" using store_inv_next [OF Cons.prems(1)] by simp
  have mono: "after_run crc h l ops bs' s' wal' \<Longrightarrow> after_run crc h l (p # ops) bs' s' wal'" for bs'
    unfolding after_run_def list.set by blast
  show ?case
  proof (cases rule: store_append_cases [OF Cons.prems(1) len(1) ap, case_names committed refused unknown])
    case (committed rs0)
    have "after_run crc h l ops ((bs @ [rs0]) @ acked h (st_next_sequence s1) ops rs1) s' wal'"
      using Cons.IH [of "bs @ [rs0]", OF _ len(2) rest] store_inv_step [OF Cons.prems(1) committed(2)] committed(4,5) by simp
    then show ?thesis using mono committed hd by (simp add: op rs index_batch_def)
  next
    case (refused e)
    then show ?thesis using mono Cons.IH [OF _ len(2) rest] Cons.prems(1) by (simp add: op rs)
  next
    case (unknown e rs0 n)
    have "rs1 = map (\<lambda>_. Err StPoisoned) ops \<and> s' = s1 \<and> wal' = w1"
      using rest poisoned_run [of s1 crc alloc w1 ops] unknown(4) by simp
    then have "acked h (st_next_sequence s) (p # ops) rs = []" "s' = s1" "wal' = w1"
      using acked_errors by (auto simp: op rs unknown(3))
    moreover have "(oc, batch) \<in> set (p # ops)" by (simp add: op)
    moreover have "st_poisoned s1" "wal' = wal @ take n (batch_bytes crc (stamp h (st_next_sequence s) batch))"
      "batch_ok crc s (stamp h (st_next_sequence s) batch)"
      using unknown hd \<open>wal' = w1\<close> by simp_all
    ultimately show ?thesis using Cons.prems(1) unfolding after_run_def append_Nil2 by (metis append_Nil2)
  qed
qed

lemma store_create_inv:
  assumes "store_create crc False False (Some db) source epoch l = Ok (s, wal)" "wf_database_id db"
  shows "store_inv crc (st_header s) l 0 [] s wal" "validate_limits l = Ok ()" "st_next_sequence s = 0"
proof -
  from assms(1) have v: "validate_limits l = Ok ()" and s: "s = fresh_store \<lparr>wh_database = db, wh_source = source, wh_epoch = epoch\<rparr> l 0"
    "wal = encode_wal_header crc \<lparr>wh_database = db, wh_source = source, wh_epoch = epoch\<rparr>"
    using assms(2) by (auto simp: store_create_def result_ok Let_def fresh_store_def)
  show "store_inv crc (st_header s) l 0 [] s wal" "validate_limits l = Ok ()" "st_next_sequence s = 0"
    using s v assms(2) by (simp_all add: store_inv_def log_bytes_def)
qed

text \<open>C20: An acknowledged append survives a crash. Create a store and run any sequence of appends, of which
  one may be interrupted at any point, leaving any prefix of its frame in the file. Then the file
  consists of the acknowledged batches, possibly one more complete batch (the interrupted one), and
  possibly a torn frame. Opening it with truncation returns a live store of exactly these batches, reports
  the torn bytes as discarded and cuts them off; opening it in strict mode succeeds if nothing is torn and
  otherwise reports the incomplete tail. If no append was interrupted, recovery rebuilds the writer's own
  in-memory state.\<close>

theorem crash_recovery:
  assumes create: "store_create crc False False (Some db) source epoch l = Ok (s0, w0)" and db: "wf_database_id db"
    and run: "run_ops (append_step crc alloc) (s0, w0) ops = (rs, s, wal)"
    and len: "\<forall>(oc, batch) \<in> set ops. length batch < 2 ^ 64" and mem: "\<forall>n. alloc' n"
  shows "\<exists>extra torn s'. let h = st_header s0; bs = acked h 0 ops rs; kept = bs @ extra in
      wal = log_bytes crc h kept @ torn
    \<and> (extra = [] \<or> torn = [] \<and> (\<exists>oc batch. (oc, batch) \<in> set ops \<and> extra = [stamp h (of_nat (length (concat bs))) batch]))
    \<and> (\<not> st_poisoned s \<longrightarrow> extra = [] \<and> torn = [] \<and> s' = s)
    \<and> store_inv crc h l 0 kept s' (log_bytes crc h kept)
    \<and> store_open crc alloc' False (Some wal) None l TruncateIncompleteTail
        = Ok (s', \<lparr>rr_recovered_events = of_nat (length (concat kept)), rr_discarded_tail_bytes = of_nat (length torn)\<rparr>, log_bytes crc h kept)
    \<and> store_open crc alloc' False (Some wal) None l RejectIncompleteTail
        = (if torn = [] then Ok (s', \<lparr>rr_recovered_events = of_nat (length (concat kept)), rr_discarded_tail_bytes = 0\<rparr>, wal)
           else Err (StIncompleteTail (of_nat (length (log_bytes crc h kept))) (of_nat (length torn))))"
proof -
  let ?h = "st_header s0"
  define bs where "bs = acked ?h 0 ops rs"
  note C = store_create_inv [OF create db]
  have ar: "after_run crc ?h l ops bs s wal" using run_after [OF C(1) len run] C(3) by (simp add: bs_def)
  have goal: ?thesis if inv: "store_inv crc ?h l 0 (bs @ extra) s' w'" and w: "wal = w' @ torn"
    and t: "torn = [] \<or> (\<exists>rs n. batch_ok crc s' rs \<and> n < length (batch_bytes crc rs) \<and> torn = take n (batch_bytes crc rs))"
    and e: "extra = [] \<or> torn = [] \<and> (\<exists>oc batch. (oc, batch) \<in> set ops \<and> extra = [stamp ?h (of_nat (length (concat bs))) batch])"
    and p: "\<not> st_poisoned s \<longrightarrow> extra = [] \<and> torn = [] \<and> s' = s" for extra torn s' w'
  proof -
    have w': "w' = log_bytes crc ?h (bs @ extra)" using inv by (simp add: store_inv_def)
    have rp: "report s' tn = \<lparr>rr_recovered_events = of_nat (length (concat (bs @ extra))), rr_discarded_tail_bytes = of_nat (length tn)\<rparr>" for tn
      using store_inv_next [OF inv] by (simp add: report_def)
    note O = store_open_recovers [OF inv initial_sequence_None C(2) mem t, folded w, unfolded rp]
    show ?thesis
      using O inv e p w unfolding w' Let_def bs_def [symmetric]
      by (intro exI [of _ extra] exI [of _ torn] exI [of _ s']) (auto split: if_splits)
  qed
  from ar consider (live) "store_inv crc ?h l 0 bs s wal"
    | (cut) s1 w1 oc batch n where "(oc, batch) \<in> set ops" "store_inv crc ?h l 0 bs s1 w1"
        "batch_ok crc s1 (stamp ?h (st_next_sequence s1) batch)" "st_poisoned s"
        "wal = w1 @ take n (batch_bytes crc (stamp ?h (st_next_sequence s1) batch))"
    unfolding after_run_def by blast
  then show ?thesis
  proof cases
    case live
    then show ?thesis using goal [of "[]" s wal "[]"] by simp
  next
    case cut
    let ?rs = "stamp ?h (st_next_sequence s1) batch"
    have nx: "st_next_sequence s1 = of_nat (length (concat bs))" using store_inv_next [OF cut(2)] by simp
    show ?thesis
    proof (cases "n < length (batch_bytes crc ?rs)")
      case True
      have "take n (batch_bytes crc ?rs) = [] \<or> (\<exists>rs m. batch_ok crc s1 rs \<and> m < length (batch_bytes crc rs)
          \<and> take n (batch_bytes crc ?rs) = take m (batch_bytes crc rs))" using True cut(3) by blast
      then show ?thesis using goal [of "[]" s1 w1 "take n (batch_bytes crc ?rs)"] cut(2,4,5) by simp
    next
      case False
      have "\<exists>oc b. (oc, b) \<in> set ops \<and> [?rs] = [stamp ?h (of_nat (length (concat bs))) b]" using cut(1) nx by metis
      then show ?thesis
        using goal [OF store_inv_step [OF cut(2,3)], of "[]"] False cut(4,5) by simp
    qed
  qed
qed

definition sample_write :: write_event where
  "sample_write = \<lparr>we_entity = \<lparr>ent_shard = 0, ent_slot = 0, ent_generation = 0\<rparr>,
     we_times = \<lparr>et_valid = \<lparr>ts_clock = 1, ts_ticks = 0\<rparr>, et_observed = None, et_known = \<lparr>ts_clock = 2, ts_ticks = 0\<rparr>\<rparr>,
     we_schema = 1, we_payload = [42], we_causes = []\<rparr>"

definition sample_header :: wal_header where
  "sample_header = \<lparr>wh_database = replicate 16 0, wh_source = 1, wh_epoch = 1\<rparr>"

lemma sample_create:
  "store_create (\<lambda>_. 5) False False (Some (replicate 16 0)) 1 1 limits_default
     = Ok (fresh_store sample_header limits_default 0, encode_wal_header (\<lambda>_. 5) sample_header)"
  by (simp add: store_create_def validate_limits_def limits_default_def BATCH_HEADER_LEN_def WAL_HEADER_LEN_def sample_header_def
      fresh_store_def wf_database_id_def Let_def)

theorem crash_recovery_witness:
  "\<exists>s' rep wal'. store_open (\<lambda>_. 5) (\<lambda>_. True) False
     (Some (snd (snd (run_ops (append_step (\<lambda>_. 5) (\<lambda>_. True))
        (fresh_store sample_header limits_default 0, encode_wal_header (\<lambda>_. 5) sample_header)
        [(Written, [sample_write]), (WriteFails 30, [sample_write])]))))
     None limits_default TruncateIncompleteTail = Ok (s', rep, wal') \<and> \<not> st_poisoned s'"
proof -
  obtain rs s wal where run: "run_ops (append_step (\<lambda>_. 5) (\<lambda>_. True))
      (fresh_store sample_header limits_default 0, encode_wal_header (\<lambda>_. 5) sample_header)
      [(Written, [sample_write]), (WriteFails 30, [sample_write])] = (rs, s, wal)"
    by (rule prod_cases3)
  show ?thesis
    using crash_recovery [OF sample_create _ run, of "\<lambda>_. True"] store_inv_next
    by (simp add: run wf_database_id_def Let_def) blast
qed

end
