(* ===== verification/Store_Read.thy ===== *)
theory Store_Read
  imports Store_Recovery
begin

section \<open>Reading the durable log: lookup and history (\<open>temnion-storage\<close>, \<open>lib.rs\<close>)\<close>

text \<open>
  Events are read from the frame that holds their sequence, or, once their frames were retired from the
  log, from a sealed segment. \<open>segs\<close> is the directory \<open>segments/\<close>: the content of a file by its name.
  The history scan is a loop over frames with budgets; it is a partial function whose \<open>None\<close> is
  non-termination. \<open>partition_point\<close> is a binary search on a list that is partitioned by the predicate,
  which the frames are by their first sequence.
\<close>

type_synonym directory = "bytes \<Rightarrow> bytes option"

definition manifest_name :: bytes where
  "manifest_name = ascii ''manifest.bin''"

definition read_bounded_file :: "(usize \<Rightarrow> bool) \<Rightarrow> bytes option \<Rightarrow> usize \<Rightarrow> (bytes, storage_error) result" where
  "read_bounded_file alloc file max_bytes =
     rbind (ok_or file (StIo ''open bounded file'')) (\<lambda>bs.
     if length bs > max_bytes then Err (StFormat (FxLimitExceeded ''file bytes'')) else
     rbind (try_reserve alloc (length bs) StAllocationFailed) (\<lambda>_. Ok bs))"

definition partition_point :: "('a \<Rightarrow> bool) \<Rightarrow> 'a list \<Rightarrow> usize" where
  "partition_point p xs = length (takeWhile p xs)"

definition frame_index_for_sequence :: "store \<Rightarrow> u64 \<Rightarrow> usize option" where
  "frame_index_for_sequence s sq =
     (let i = partition_point (\<lambda>f. fl_first f \<le> sq) (st_frames s) in if i = 0 then None else Some (i - 1))"

definition frame_for_sequence :: "store \<Rightarrow> u64 \<Rightarrow> frame_location option" where
  "frame_for_sequence s sq = map_option (\<lambda>i. st_frames s ! i) (frame_index_for_sequence s sq)"

text \<open>The loop that checks a frame read again after recovery; \<open>i\<close> is the position in the frame.\<close>

fun check_frame :: "store \<Rightarrow> u64 \<Rightarrow> nat \<Rightarrow> timestamp option \<Rightarrow> stored_event list \<Rightarrow> (unit, storage_error) result" where
  "check_frame s first i known [] = Ok ()"
| "check_frame s first i known (r # rs) =
     rbind (add_or_panic first (of_nat i)) (\<lambda>sq.
     rbind (validate_record (st_header s) sq known r) (\<lambda>_.
     if (case st_last_known s of None \<Rightarrow> False | Some k \<Rightarrow> ts_clock k \<noteq> ts_clock (et_known (se_times r)))
     then Err (StInvalidRecord ''frame clock changed after recovery'')
     else check_frame s first (Suc i) (Some (et_known (se_times r))) rs))"

definition read_indexed_frame :: "(bytes \<Rightarrow> u32) \<Rightarrow> (usize \<Rightarrow> bool) \<Rightarrow> store \<Rightarrow> bytes \<Rightarrow> frame_location
    \<Rightarrow> (stored_event list, storage_error) result" where
  "read_indexed_frame crc alloc s wal f =
     rbind (read_frame_at crc alloc (st_limits s) wal (fl_offset f) (fl_length f)) (\<lambda>records.
     if length records \<noteq> fl_count f then Err (StInvalidRecord ''frame count changed after recovery'')
     else rbind (check_frame s (fl_first f) 0 None records) (\<lambda>_. Ok records))"

definition read_event_from_segment :: "(bytes \<Rightarrow> u32) \<Rightarrow> (usize \<Rightarrow> bool) \<Rightarrow> directory \<Rightarrow> limits \<Rightarrow> u64
    \<Rightarrow> (stored_event option, storage_error) result" where
  "read_event_from_segment crc alloc segs l sq =
     rbind (load_if_exists crc (segs manifest_name)) (\<lambda>mf.
     case Option.bind mf (\<lambda>m. find_segment_for_sequence m sq) of
       None \<Rightarrow> Ok None
     | Some meta \<Rightarrow>
         if segs (sm_filename meta) = None then Ok None else
         rbind (read_bounded_file alloc (segs (sm_filename meta)) (max_segment_bytes l)) (\<lambda>bs.
         rbind (from_format (decode_segment crc alloc bs l)) (\<lambda>seg.
         Ok (List.find (\<lambda>e. eid_sequence (se_id e) = sq) (sg_records seg)))))"

definition store_get :: "(bytes \<Rightarrow> u32) \<Rightarrow> (usize \<Rightarrow> bool) \<Rightarrow> directory \<Rightarrow> store \<Rightarrow> bytes \<Rightarrow> event_id
    \<Rightarrow> (stored_event, storage_error) result" where
  "store_get crc alloc segs s wal i =
     (if st_poisoned s then Err StPoisoned
      else if eid_source i \<noteq> wh_source (st_header s) \<or> eid_epoch i \<noteq> wh_epoch (st_header s) \<or> eid_sequence i \<ge> st_next_sequence s
      then Err (StUnknownEvent i)
      else case frame_for_sequence s (eid_sequence i) of
        Some f \<Rightarrow> rbind (read_indexed_frame crc alloc s wal f) (\<lambda>records.
                   ok_or (List.find (\<lambda>e. se_id e = i) records) (StUnknownEvent i))
      | None \<Rightarrow> rbind (read_event_from_segment crc alloc segs (st_limits s) (eid_sequence i)) (\<lambda>e.
                   ok_or (case e of Some ev \<Rightarrow> if se_id ev = i then Some ev else None | None \<Rightarrow> None) (StUnknownEvent i)))"

subsection \<open>History\<close>

record storage_query_budget =
  sb_max_results :: usize
  sb_max_scanned :: usize
  sb_max_read_bytes :: usize

record storage_cursor =
  sc_database :: database_id
  sc_source :: source_id
  sc_epoch :: source_epoch
  sc_filter :: history_filter
  sc_next_sequence :: u64
  sc_snapshot_end :: u64

record storage_page =
  sp_events :: "stored_event list"
  sp_scanned :: usize
  sp_bytes_read :: usize
  sp_continuation :: "storage_cursor option"

definition cursor_from_sequence :: "store \<Rightarrow> u64 \<Rightarrow> history_filter \<Rightarrow> (storage_cursor, storage_error) result" where
  "cursor_from_sequence s sq f =
     (if st_poisoned s then Err StPoisoned
      else if sq > st_next_sequence s then Err StInvalidCursor
      else Ok \<lparr>sc_database = wh_database (st_header s), sc_source = wh_source (st_header s), sc_epoch = wh_epoch (st_header s),
               sc_filter = f, sc_next_sequence = sq, sc_snapshot_end = st_next_sequence s\<rparr>)"

text \<open>The loop over the records of one frame.\<close>

fun scan_records :: "(usize \<Rightarrow> bool) \<Rightarrow> history_filter \<Rightarrow> usize \<Rightarrow> u64 \<Rightarrow> stored_event list \<Rightarrow> u64 \<Rightarrow> stored_event list
    \<Rightarrow> (u64 \<times> stored_event list, storage_error) result" where
  "scan_records alloc f maxr stop [] nxt events = Ok (nxt, events)"
| "scan_records alloc f maxr stop (r # rs) nxt events =
     (if eid_sequence (se_id r) < nxt then scan_records alloc f maxr stop rs nxt events
      else if eid_sequence (se_id r) \<ge> stop then Ok (nxt, events)
      else
      rbind (add_or_panic (eid_sequence (se_id r)) 1) (\<lambda>nxt'.
      if \<not> stored_keeps f r then scan_records alloc f maxr stop rs nxt' events
      else
      rbind (try_reserve alloc 1 StAllocationFailed) (\<lambda>_.
      let events' = events @ [r] in
      if length events' = maxr then Ok (nxt', events')
      else scan_records alloc f maxr stop rs nxt' events')))"

text \<open>What one iteration of the scan reads at \<open>nxt\<close>: a frame its summary lets it skip, or the records of a
  frame or segment with the length and count the budgets are charged with.\<close>

datatype fetched = SkipTo u64 | Fetched "stored_event list" usize usize

definition history_fetch :: "(bytes \<Rightarrow> u32) \<Rightarrow> (usize \<Rightarrow> bool) \<Rightarrow> directory \<Rightarrow> store \<Rightarrow> bytes \<Rightarrow> history_filter \<Rightarrow> u64
    \<Rightarrow> (fetched, storage_error) result" where
  "history_fetch crc alloc segs s wal f nxt =
     (case frame_index_for_sequence s nxt of
        Some i \<Rightarrow>
          rbind (index (st_frames s) i) (\<lambda>frame.
          if i < length (st_summaries s) \<and> block_matches (st_summaries s ! i) f = Skip
          then rbind (add_or_panic (fl_first frame) (of_nat (fl_count frame))) (\<lambda>n. Ok (SkipTo n))
          else rbind (read_indexed_frame crc alloc s wal frame) (\<lambda>records.
               Ok (Fetched records (fl_length frame) (fl_count frame))))
      | None \<Rightarrow>
          rbind (load_if_exists crc (segs manifest_name)) (\<lambda>mf.
          rbind (ok_or mf StInvalidCursor) (\<lambda>m.
          rbind (ok_or (find_segment_for_sequence m nxt) StInvalidCursor) (\<lambda>meta.
          rbind (read_bounded_file alloc (segs (sm_filename meta)) (max_segment_bytes (st_limits s))) (\<lambda>bs.
          rbind (from_format (decode_segment crc alloc bs (st_limits s))) (\<lambda>seg.
          Ok (Fetched (sg_records seg) (unat (sm_byte_length meta)) (length (sg_records seg)))))))))"

partial_function (option) history_scan :: "(bytes \<Rightarrow> u32) \<Rightarrow> (usize \<Rightarrow> bool) \<Rightarrow> directory \<Rightarrow> store \<Rightarrow> bytes \<Rightarrow> history_filter
    \<Rightarrow> storage_query_budget \<Rightarrow> u64 \<Rightarrow> u64 \<Rightarrow> stored_event list \<Rightarrow> usize \<Rightarrow> usize
    \<Rightarrow> (u64 \<times> stored_event list \<times> usize \<times> usize, storage_error) result option" where
  "history_scan crc alloc segs s wal f b stop nxt events scanned bytes_read =
     (if nxt < stop then
        (case history_fetch crc alloc segs s wal f nxt of
           Err e \<Rightarrow> Some (Err e)
         | Panic \<Rightarrow> Some Panic
         | Ok (SkipTo nxt') \<Rightarrow> history_scan crc alloc segs s wal f b stop nxt' events scanned bytes_read
         | Ok (Fetched records len cnt) \<Rightarrow>
             if len > sb_max_read_bytes b \<or> cnt > sb_max_scanned b
             then (if bytes_read \<noteq> 0 then Some (Ok (nxt, events, scanned, bytes_read))
                   else Some (Err (StBudgetTooSmall len cnt)))
             else if len > sb_max_read_bytes b - bytes_read \<or> cnt > sb_max_scanned b - scanned
             then Some (Ok (nxt, events, scanned, bytes_read))
             else
               (case scan_records alloc f (sb_max_results b) stop records nxt events of
                  Err e \<Rightarrow> Some (Err e)
                | Panic \<Rightarrow> Some Panic
                | Ok (nxt', events') \<Rightarrow>
                    if length events' = sb_max_results b
                    then Some (Ok (nxt', events', scanned + length records, bytes_read + len))
                    else history_scan crc alloc segs s wal f b stop nxt' events' (scanned + length records) (bytes_read + len)))
      else Some (Ok (nxt, events, scanned, bytes_read)))"

definition store_history :: "(bytes \<Rightarrow> u32) \<Rightarrow> (usize \<Rightarrow> bool) \<Rightarrow> directory \<Rightarrow> store \<Rightarrow> bytes \<Rightarrow> history_filter
    \<Rightarrow> storage_query_budget \<Rightarrow> storage_cursor option \<Rightarrow> (storage_page, storage_error) result option" where
  "store_history crc alloc segs s wal f b cursor =
     (if st_poisoned s then Some (Err StPoisoned)
      else if sb_max_results b = 0 \<or> sb_max_scanned b = 0 \<or> sb_max_read_bytes b = 0 then Some (Err StInvalidBudget)
      else
      pbind (Some (case (hf_known_as_of f, st_last_known s) of
               (Some cutoff, Some known) \<Rightarrow>
                 if ts_clock cutoff \<noteq> ts_clock known then Err (StKnownClockMismatch (ts_clock known) (ts_clock cutoff)) else Ok ()
             | _ \<Rightarrow> Ok ())) (\<lambda>_.
      pbind (Some (case cursor of
               Some c \<Rightarrow>
                 if sc_database c = wh_database (st_header s) \<and> sc_source c = wh_source (st_header s)
                    \<and> sc_epoch c = wh_epoch (st_header s) \<and> sc_filter c = f
                    \<and> sc_next_sequence c \<le> sc_snapshot_end c \<and> sc_snapshot_end c \<le> st_next_sequence s
                 then Ok (sc_next_sequence c, sc_snapshot_end c) else Err StInvalidCursor
             | None \<Rightarrow> Ok (0, st_next_sequence s))) (\<lambda>(start, stop).
      pbind (history_scan crc alloc segs s wal f b stop start [] 0 0) (\<lambda>(nxt, events, scanned, bytes_read).
      Some (Ok \<lparr>sp_events = events, sp_scanned = scanned, sp_bytes_read = bytes_read,
        sp_continuation = (if nxt < stop
          then Some \<lparr>sc_database = wh_database (st_header s), sc_source = wh_source (st_header s), sc_epoch = wh_epoch (st_header s),
                     sc_filter = f, sc_next_sequence = nxt, sc_snapshot_end = stop\<rparr>
          else None)\<rparr>)))))"

end
