(* ===== verification/Store_Queries.thy ===== *)
theory Store_Queries
  imports Store_Read
begin

section \<open>Correctness of lookup and history on the durable log\<close>

text \<open>
  The records of an unpoisoned store form one valid run: record \<open>n\<close> has sequence \<open>base + n\<close>, and all
  known times are on one clock. The frame index locates every batch, reading a frame returns its batch,
  and so a page of the history is the filtered slice of the records it covers.
\<close>

lemma validate_run_append:
  "validate_run h sq k (xs @ ys) = rbind (validate_run h sq k xs) (\<lambda>(sq', k'). validate_run h sq' k' ys)"
proof (induction xs arbitrary: sq k)
  case (Cons x xs)
  show ?case
    by (cases "validate_record h sq k x"; cases "ok_or (checked_add sq 1) StSequenceExhausted :: (u64, storage_error) result")
       (simp_all add: Cons)
qed simp

lemma batch_ok_run:
  assumes "batch_ok crc s rs"
  shows "validate_run (st_header s) (st_next_sequence s) (st_last_known s) rs
    = Ok (st_next_sequence (index_batch crc rs s), st_last_known (index_batch crc rs s))"
proof -
  obtain x where v: "validate_run (st_header s) (st_next_sequence s) (st_last_known s) rs = Ok x" and ne: "rs \<noteq> []"
    using assms by (cases "validate_run (st_header s) (st_next_sequence s) (st_last_known s) rs") (auto simp: batch_ok_def)
  then show ?thesis using validate_run_Ok [of _ _ _ rs "fst x" "snd x"] by (cases x) (simp add: index_batch_def)
qed

lemma batches_run:
  "batches_ok crc s bs \<Longrightarrow> validate_run (st_header s) (st_next_sequence s) (st_last_known s) (concat bs)
     = Ok (st_next_sequence (fold (index_batch crc) bs s), st_last_known (fold (index_batch crc) bs s))"
proof (induction bs arbitrary: s)
  case (Cons rs bs)
  have "batch_ok crc s rs" "batches_ok crc (index_batch crc rs s) bs" using Cons.prems by simp_all
  then show ?case using batch_ok_run [of crc s rs] Cons.IH [of "index_batch crc rs s"] by (simp add: validate_run_append)
qed simp

lemma store_inv_run:
  assumes "store_inv crc h l base bs s wal"
  shows "validate_run h base None (concat bs) = Ok (st_next_sequence s, st_last_known s)"
    "unat base + length (concat bs) < 2 ^ 64"
proof -
  show v: "validate_run h base None (concat bs) = Ok (st_next_sequence s, st_last_known s)"
    using assms batches_run [of crc "fresh_store h l base" bs] by (simp add: store_inv_def)
  show "unat base + length (concat bs) < 2 ^ 64" using validate_run_Ok [OF v] by simp
qed

subsection \<open>Records of a valid run\<close>

lemma validate_record_Ok:
  "validate_record h sq k r = Ok u \<longleftrightarrow>
     se_id r = \<lparr>eid_source = wh_source h, eid_epoch = wh_epoch h, eid_sequence = sq\<rparr>
   \<and> (case k of None \<Rightarrow> True | Some p \<Rightarrow> ts_clock p = ts_clock (et_known (se_times r)) \<and> ts_ticks p \<le> ts_ticks (et_known (se_times r)))
   \<and> (\<forall>c \<in> set (se_causes r). \<not> (eid_source c = wh_source h \<and> eid_epoch c = wh_epoch h \<and> sq \<le> eid_sequence c))"
  by (cases "se_id r") (auto simp: validate_record_def result_ok list_ex_iff split: option.splits if_splits)

lemma validate_run_nth:
  "validate_run h sq k rs = Ok x \<Longrightarrow> j < length rs \<Longrightarrow>
     se_id (rs ! j) = \<lparr>eid_source = wh_source h, eid_epoch = wh_epoch h, eid_sequence = sq + of_nat j\<rparr>"
proof (induction rs arbitrary: sq k j)
  case (Cons r rs)
  then have v: "validate_record h sq k r = Ok ()" "validate_run h (sq + 1) (Some (et_known (se_times r))) rs = Ok x"
    by (auto simp: result_ok checked_add_succ)
  show ?case
  proof (cases j)
    case 0
    then show ?thesis using v(1) by (simp add: validate_record_Ok)
  next
    case (Suc i)
    then show ?thesis using Cons.IH [OF v(2), of i] Cons.prems(2) by (simp add: algebra_simps)
  qed
qed simp

text \<open>Every record of a run is on the clock of its last known time.\<close>

lemma validate_run_clock:
  "validate_run h sq k rs = Ok (sq', k') \<Longrightarrow> rs \<noteq> [] \<or> k \<noteq> None \<Longrightarrow>
     \<exists>t. k' = Some t \<and> (\<forall>p. k = Some p \<longrightarrow> ts_clock p = ts_clock t) \<and> (\<forall>r \<in> set rs. ts_clock (et_known (se_times r)) = ts_clock t)"
proof (induction rs arbitrary: sq k)
  case (Cons r rs)
  then have v: "validate_record h sq k r = Ok ()" "validate_run h (sq + 1) (Some (et_known (se_times r))) rs = Ok (sq', k')"
    by (auto simp: result_ok checked_add_succ)
  show ?case using Cons.IH [OF v(2)] v(1) by (auto simp: validate_record_Ok)
qed auto

lemma check_frame_Ok:
  assumes "validate_run (st_header s) (first + of_nat i) known rs = Ok x" "known' = None \<or> known' = known"
    "unat first + (i + length rs) < 2 ^ 64"
    "\<forall>r \<in> set rs. \<forall>t. st_last_known s = Some t \<longrightarrow> ts_clock (et_known (se_times r)) = ts_clock t"
  shows "check_frame s first i known' rs = Ok ()"
  using assms
proof (induction rs arbitrary: i known known')
  case (Cons r rs)
  have v: "validate_record (st_header s) (first + of_nat i) known r = Ok ()"
    "validate_run (st_header s) (first + of_nat (Suc i)) (Some (et_known (se_times r))) rs = Ok x"
    using Cons.prems(1) by (auto simp: result_ok checked_add_succ algebra_simps)
  have "validate_record (st_header s) (first + of_nat i) known' r = Ok ()"
    using v(1) Cons.prems(2) by (auto simp: validate_record_Ok)
  moreover have "unat (of_nat i :: u64) = i" using Cons.prems(3) by (intro unat_of_nat_small) simp
  then have "add_or_panic first (of_nat i) = (Ok (first + of_nat i) :: (_, storage_error) result)"
    using Cons.prems(3) by (simp add: add_or_panic_def checked_add_def)
  moreover have "check_frame s first (Suc i) (Some (et_known (se_times r))) rs = Ok ()"
    using Cons.IH [OF v(2)] Cons.prems(3,4) by simp
  ultimately show ?case using Cons.prems(4) by (auto split: option.splits)
qed simp

subsection \<open>The frame index\<close>

definition log_at :: "(bytes \<Rightarrow> u32) \<Rightarrow> wal_header \<Rightarrow> limits \<Rightarrow> u64 \<Rightarrow> stored_event list list \<Rightarrow> nat \<Rightarrow> store" where
  "log_at crc h l base bs i = fold (index_batch crc) (take i bs) (fresh_store h l base)"

lemma index_batches_nth:
  assumes "batches_ok crc t bs" "length (st_summaries t) = length (st_frames t)"
  shows "st_frames (fold (index_batch crc) bs t) = st_frames t @ map (\<lambda>i. new_frame crc (bs ! i) (fold (index_batch crc) (take i bs) t)) [0..<length bs]"
    "st_summaries (fold (index_batch crc) bs t) = st_summaries t @ map (\<lambda>i. new_summary crc (bs ! i) (fold (index_batch crc) (take i bs) t)) [0..<length bs]"
  using assms(1)
proof (induction bs rule: rev_induct)
  case (snoc rs bs)
  {
    case 1
    show ?case using snoc 1 by (simp add: batches_ok_append nth_append index_batch_def cong: map_cong)
  next
    case 2
    show ?case using snoc 2 by (simp add: batches_ok_append nth_append index_batch_def cong: map_cong)
  }
qed simp_all

lemma store_inv_take:
  assumes "store_inv crc h l base bs s wal"
  shows "store_inv crc h l base (take i bs) (log_at crc h l base bs i) (log_bytes crc h (take i bs))"
proof -
  have "batches_ok crc (fresh_store h l base) (take i bs @ drop i bs)" using assms by (simp add: store_inv_def)
  then show ?thesis using assms unfolding batches_ok_append by (simp add: store_inv_def log_at_def)
qed

lemma store_inv_batch:
  assumes inv: "store_inv crc h l base bs s wal" and i: "i < length bs"
  shows "batch_ok crc (log_at crc h l base bs i) (bs ! i)"
    "st_frames s ! i = new_frame crc (bs ! i) (log_at crc h l base bs i)"
    "st_summaries s ! i = new_summary crc (bs ! i) (log_at crc h l base bs i)"
    "length (st_frames s) = length bs" "length (st_summaries s) = length bs"
proof -
  have ok: "batches_ok crc (fresh_store h l base) bs" "s = fold (index_batch crc) bs (fresh_store h l base)"
    using inv by (simp_all add: store_inv_def)
  have "batches_ok crc (fresh_store h l base) (take i bs @ bs ! i # drop (Suc i) bs)" using ok(1) i by (simp add: id_take_nth_drop [symmetric])
  then show "batch_ok crc (log_at crc h l base bs i) (bs ! i)" unfolding batches_ok_append by (simp add: log_at_def)
  show "st_frames s ! i = new_frame crc (bs ! i) (log_at crc h l base bs i)"
    "st_summaries s ! i = new_summary crc (bs ! i) (log_at crc h l base bs i)"
    "length (st_frames s) = length bs" "length (st_summaries s) = length bs"
    using index_batches_nth [OF ok(1)] i by (simp_all add: ok(2) log_at_def)
qed

lemma log_at_next: "store_inv crc h l base bs s wal \<Longrightarrow>
    st_next_sequence (log_at crc h l base bs i) = base + of_nat (length (concat (take i bs)))"
  using store_inv_next [OF store_inv_take] by blast

text \<open>Position \<open>n\<close> of the concatenation lies in the batch \<open>i\<close>.\<close>

lemma concat_position:
  "n < length (concat bs) \<Longrightarrow> \<exists>i < length bs. length (concat (take i bs)) \<le> n \<and> n < length (concat (take i bs)) + length (bs ! i)"
proof (induction bs rule: rev_induct)
  case (snoc x bs)
  show ?case
  proof (cases "n < length (concat bs)")
    case True
    with snoc.IH obtain i where "i < length bs" "length (concat (take i bs)) \<le> n" "n < length (concat (take i bs)) + length (bs ! i)" by blast
    then show ?thesis by (intro exI [of _ i]) (simp add: nth_append)
  next
    case False
    then show ?thesis using snoc.prems by (intro exI [of _ "length bs"]) simp
  qed
qed simp

lemma length_concat_take_mono: "i \<le> j \<Longrightarrow> length (concat (take i bs)) \<le> length (concat (take j bs))"
proof -
  assume "i \<le> j"
  then have "take j bs = take i bs @ take (j - i) (drop i bs)" by (metis le_add_diff_inverse take_add)
  then show ?thesis by simp
qed

lemma concat_take_Suc: "i < length bs \<Longrightarrow> concat (take (Suc i) bs) = concat (take i bs) @ bs ! i"
  by (simp add: take_Suc_conv_app_nth)

lemma concat_slice: "i < length bs \<Longrightarrow> slice (concat bs) (length (concat (take i bs))) (length (concat (take i bs)) + length (bs ! i)) = bs ! i"
proof -
  assume "i < length bs"
  then have "concat bs = concat (take i bs) @ bs ! i @ concat (drop (Suc i) bs)"
    by (metis append_take_drop_id concat.simps(2) concat_append Cons_nth_drop_Suc)
  then show ?thesis by (metis slice_mid)
qed

lemma store_inv_nonempty: "store_inv crc h l base bs s wal \<Longrightarrow> i < length bs \<Longrightarrow> bs ! i \<noteq> []"
  using store_inv_batch(1) by (simp add: batch_ok_def)

lemma frame_first:
  assumes inv: "store_inv crc h l base bs s wal" and i: "i < length bs"
  shows "fl_first (st_frames s ! i) = base + of_nat (length (concat (take i bs)))"
    "unat (fl_first (st_frames s ! i)) = unat base + length (concat (take i bs))"
    "fl_count (st_frames s ! i) = length (bs ! i)" "fl_length (st_frames s ! i) = length (batch_bytes crc (bs ! i))"
proof -
  show f: "fl_first (st_frames s ! i) = base + of_nat (length (concat (take i bs)))"
    "fl_count (st_frames s ! i) = length (bs ! i)" "fl_length (st_frames s ! i) = length (batch_bytes crc (bs ! i))"
    using store_inv_batch(2) [OF inv i] log_at_next [OF inv] by (simp_all add: new_frame_def)
  have "length (concat (take i bs)) \<le> length (concat bs)" using length_concat_take_mono [of i "length bs" bs] i by simp
  then show "unat (fl_first (st_frames s ! i)) = unat base + length (concat (take i bs))"
    unfolding f(1) using store_inv_run(2) [OF inv] by (intro unat_add_small) simp
qed

lemma frame_lookup:
  assumes inv: "store_inv crc h l base bs s wal" and i: "i < length bs"
    and n: "length (concat (take i bs)) \<le> n" "n < length (concat (take i bs)) + length (bs ! i)"
  shows "frame_index_for_sequence s (base + of_nat n) = Some i"
proof -
  have N: "length (concat (take (Suc i) bs)) \<le> length (concat bs)" using length_concat_take_mono [of "Suc i" "length bs" bs] i by simp
  have u: "unat (base + of_nat n) = unat base + n"
    using n(2) N concat_take_Suc [OF i] store_inv_run(2) [OF inv] by (intro unat_add_small) simp
  have le: "fl_first (st_frames s ! j) \<le> base + of_nat n \<longleftrightarrow> length (concat (take j bs)) \<le> n" if "j < length bs" for j
    using frame_first(2) [OF inv that] u by (simp add: word_le_nat_alt)
  have "takeWhile (\<lambda>f. fl_first f \<le> base + of_nat n) (st_frames s) = take (Suc i) (st_frames s)"
  proof (rule takeWhile_eq_take_P_nth)
    fix j assume "j < Suc i" "j < length (st_frames s)"
    then show "fl_first (st_frames s ! j) \<le> base + of_nat n"
      using le [of j] length_concat_take_mono [of j i bs] n(1) i by simp
  next
    assume "Suc i < length (st_frames s)"
    then show "\<not> fl_first (st_frames s ! Suc i) \<le> base + of_nat n"
      using le [of "Suc i"] store_inv_batch(4) [OF inv i] n(2) concat_take_Suc [OF i] by simp
  qed
  then show ?thesis using store_inv_batch(4) [OF inv i] i by (simp add: frame_index_for_sequence_def partition_point_def)
qed

lemma read_frame:
  assumes inv: "store_inv crc h l base bs s wal" and i: "i < length bs" and mem: "\<forall>n. alloc n"
  shows "read_indexed_frame crc alloc s wal (st_frames s ! i) = Ok (bs ! i)"
proof -
  let ?t = "log_at crc h l base bs i" and ?b = "batch_bytes crc (bs ! i)"
  note invt = store_inv_take [OF inv, of i]
  have al: "alloc n" for n using mem by blast
  have sl: "st_limits s = l" "st_header s = h" "st_header ?t = h" "st_limits ?t = l"
    using store_inv_next [OF inv] store_inv_next [OF invt] by simp_all
  have ok: "batch_ok crc ?t (bs ! i)" by (rule store_inv_batch(1) [OF inv i])
  then have w: "batch_within l (bs ! i)" using sl by (simp add: batch_ok_def)
  have "concat (map (batch_bytes crc) bs) = concat (map (batch_bytes crc) (take i bs)) @ ?b @ concat (map (batch_bytes crc) (drop (Suc i) bs))"
    using i by (metis append_take_drop_id concat.simps(2) concat_append Cons_nth_drop_Suc list.simps(9) map_append)
  then have wal: "wal = log_bytes crc h (take i bs) @ ?b @ concat (map (batch_bytes crc) (drop (Suc i) bs))"
    using inv by (simp add: store_inv_def log_bytes_def)
  have off: "unat (fl_offset (st_frames s ! i)) = length (log_bytes crc h (take i bs))"
    using store_inv_batch(2) [OF inv i] store_inv_end [OF invt] by (simp add: new_frame_def)
  have slc: "slice wal (length (log_bytes crc h (take i bs))) (length (log_bytes crc h (take i bs)) + length ?b) = ?b"
    unfolding wal by (rule slice_mid) simp_all
  have "decode_batch crc alloc ?b l = Ok (bs ! i)" using decode_batch_Ok [OF mem] w by blast
  then have rd: "read_frame_at crc alloc (st_limits s) wal (fl_offset (st_frames s ! i)) (fl_length (st_frames s ! i)) = Ok (bs ! i)"
    using batch_bytes_frame_length(2) [OF w, of crc] al off slc sl frame_first(4) [OF inv i] by (simp add: read_frame_at_def try_reserve_def wal)
  have vr: "validate_run h (fl_first (st_frames s ! i)) (st_last_known ?t) (bs ! i)
      = Ok (st_next_sequence (index_batch crc (bs ! i) ?t), st_last_known (index_batch crc (bs ! i) ?t))"
    using batch_ok_run [OF ok] sl log_at_next [OF inv, of i] frame_first(1) [OF inv i] by simp
  have ne: "concat bs \<noteq> []" using store_inv_nonempty [OF inv i] nth_mem [OF i] by auto
  then obtain t where "st_last_known s = Some t" "\<forall>r \<in> set (concat bs). ts_clock (et_known (se_times r)) = ts_clock t"
    using validate_run_clock [OF store_inv_run(1) [OF inv]] by auto
  then have ck: "\<forall>r \<in> set (bs ! i). \<forall>t. st_last_known s = Some t \<longrightarrow> ts_clock (et_known (se_times r)) = ts_clock t"
    using nth_mem [OF i] by auto
  have bnd: "unat (fl_first (st_frames s ! i)) + (0 + length (bs ! i)) < 2 ^ 64"
    using validate_run_Ok [OF vr] by simp
  have "check_frame s (fl_first (st_frames s ! i)) 0 None (bs ! i) = Ok ()"
    by (rule check_frame_Ok [OF _ _ bnd ck, of "st_last_known ?t"]) (use vr sl in simp_all)
  then show ?thesis using rd frame_first(3) [OF inv i] by (simp add: read_indexed_frame_def)
qed

text \<open>A record that passes the filter keeps its frame from being skipped.\<close>

lemma skip_frame_sound:
  assumes inv: "store_inv crc h l base bs s wal" and i: "i < length bs"
    and skip: "block_matches (st_summaries s ! i) f = Skip"
  shows "filter (stored_keeps f) (bs ! i) = []"
proof (rule ccontr)
  assume "filter (stored_keeps f) (bs ! i) \<noteq> []"
  then obtain r where r: "r \<in> set (bs ! i)" "stored_keeps f r" by (auto simp: filter_empty_conv)
  let ?t = "log_at crc h l base bs i"
  have ok: "batch_ok crc ?t (bs ! i)" by (rule store_inv_batch(1) [OF inv i])
  note S = summarize_covers [OF new_summary_Ok [OF ok, where ?'e = storage_error]]
  have "\<exists>k. \<forall>r \<in> set (bs ! i). ts_clock (et_known (se_times r)) = k"
    using validate_run_clock [OF batch_ok_run [OF ok]] S(5) by blast
  then have "ts_clock (et_known (se_times r)) = ts_clock (et_known (se_times (hd (bs ! i))))"
    using r(1) S(5) by (metis hd_in_set)
  then have "block_matches (new_summary crc (bs ! i) ?t) f = MustScan"
    using block_covers_sound [of _ r f] S(1,3) r by simp
  then show False using skip store_inv_batch(3) [OF inv i] by simp
qed

subsection \<open>Scanning\<close>

lemma slice_Cons: "n < q \<Longrightarrow> n < length xs \<Longrightarrow> slice xs n q = xs ! n # slice xs (Suc n) q"
  by (simp add: slice_def Cons_nth_drop_Suc [symmetric] take_Cons' Suc_diff_Suc diff_Suc split: nat.splits)

lemma slice_empty [simp]: "q \<le> n \<Longrightarrow> slice xs n q = []"
  by (simp add: slice_def)

text \<open>Sequences as positions: \<open>numbered xs\<close> says that record \<open>n\<close> has sequence \<open>n\<close>.\<close>

definition numbered :: "stored_event list \<Rightarrow> bool" where
  "numbered xs \<longleftrightarrow> length xs < 2 ^ 64 \<and> (\<forall>n < length xs. eid_sequence (se_id (xs ! n)) = of_nat n)"

lemma of_nat_u64_less: "n < 2 ^ 64 \<Longrightarrow> m < 2 ^ 64 \<Longrightarrow> ((of_nat n :: u64) < of_nat m) = (n < m) \<and> ((of_nat n :: u64) \<le> of_nat m) = (n \<le> m)"
  by (simp add: word_less_nat_alt word_le_nat_alt)

lemma scan_skips:
  assumes "numbered xs" "a \<le> n" "n \<le> q" "q \<le> length xs"
  shows "scan_records alloc f maxr stop (slice xs a q) (of_nat n) events = scan_records alloc f maxr stop (slice xs n q) (of_nat n) events"
  using assms(2)
proof (induction "n - a" arbitrary: a)
  case (Suc d)
  then have a: "a < n" by simp
  have lt: "a < 2 ^ 64" "n < 2 ^ 64" using a assms by (auto simp: numbered_def)
  have "eid_sequence (se_id (xs ! a)) < of_nat n"
    using assms a of_nat_u64_less [OF lt] by (simp add: numbered_def)
  then have "scan_records alloc f maxr stop (slice xs a q) (of_nat n) events
      = scan_records alloc f maxr stop (slice xs (Suc a) q) (of_nat n) events"
    using a assms by (simp add: slice_Cons)
  also have "\<dots> = scan_records alloc f maxr stop (slice xs n q) (of_nat n) events"
    using Suc.hyps a by (intro Suc.hyps(1)) simp_all
  finally show ?case .
qed simp

lemma scan_spec:
  assumes num: "numbered xs" and q: "q \<le> length xs" and m: "m \<le> length xs" and mem: "\<forall>n. alloc n"
  shows "n \<le> min m q \<Longrightarrow> length events < maxr \<Longrightarrow>
    \<exists>k \<ge> n. k \<le> min m q
     \<and> scan_records alloc f maxr (of_nat m) (slice xs n q) (of_nat n) events = Ok (of_nat k, events @ filter (stored_keeps f) (slice xs n k))
     \<and> length events + length (filter (stored_keeps f) (slice xs n k)) \<le> maxr
     \<and> (length events + length (filter (stored_keeps f) (slice xs n k)) < maxr \<longrightarrow> k = min m q)
     \<and> (n < min m q \<longrightarrow> n < k)"
proof (induction "q - n" arbitrary: n events)
  case 0
  then show ?case by (intro exI [of _ n]) simp
next
  case (Suc d)
  have al: "alloc n" for n using mem by blast
  have n: "n < q" "n < length xs" using Suc.hyps(2) q by simp_all
  have l64: "length xs < 2 ^ 64" using num by (simp add: numbered_def)
  have lt: "n < 2 ^ 64" "m < 2 ^ 64" "Suc n < 2 ^ 64" using n m l64 by simp_all
  have sq: "eid_sequence (se_id (xs ! n)) = of_nat n" using num n by (simp add: numbered_def)
  show ?case
  proof (cases "n < m")
    case False
    then have "n = m" using Suc.prems by simp
    then show ?thesis using n sq Suc.prems(2) by (intro exI [of _ n]) (simp add: slice_Cons)
  next
    case True
    have nm: "\<not> of_nat m \<le> (of_nat n :: u64)" using of_nat_u64_less [OF lt(2,1)] True by simp
    have ad: "add_or_panic (of_nat n :: u64) 1 = (Ok (of_nat (Suc n)) :: (_, storage_error) result)"
      using lt(1,3) by (simp add: add_or_panic_def checked_add_def)
    have m1: "Suc n \<le> min m q" using True n by simp
    define ev where "ev = (if stored_keeps f (xs ! n) then events @ [xs ! n] else events)"
    have fl: "events @ filter (stored_keeps f) (slice xs n k) = ev @ filter (stored_keeps f) (slice xs (Suc n) k)" if "Suc n \<le> k" for k
      using that n by (simp add: slice_Cons ev_def)
    have step: "scan_records alloc f maxr (of_nat m) (slice xs n q) (of_nat n) events
      = (if length ev = maxr then Ok (of_nat (Suc n), ev) else scan_records alloc f maxr (of_nat m) (slice xs (Suc n) q) (of_nat (Suc n)) ev)"
      using n nm ad al Suc.prems(2) by (auto simp: slice_Cons sq ev_def try_reserve_def)
    show ?thesis
    proof (cases "length ev = maxr")
      case full: True
      then show ?thesis using step fl [of "Suc n"] m1
        by (intro exI [of _ "Suc n"]) (auto simp flip: length_append)
    next
      case notfull: False
      have dq: "d = q - Suc n" using Suc.hyps(2) by simp
      have "length ev < maxr" using notfull Suc.prems(2) by (auto simp: ev_def split: if_splits)
      then obtain k where k: "Suc n \<le> k" "k \<le> min m q"
        "scan_records alloc f maxr (of_nat m) (slice xs (Suc n) q) (of_nat (Suc n)) ev = Ok (of_nat k, ev @ filter (stored_keeps f) (slice xs (Suc n) k))"
        "length ev + length (filter (stored_keeps f) (slice xs (Suc n) k)) \<le> maxr"
        "length ev + length (filter (stored_keeps f) (slice xs (Suc n) k)) < maxr \<longrightarrow> k = min m q"
        using Suc.hyps(1) [OF dq m1] by blast
      then show ?thesis using step notfull fl [OF k(1)]
        by (intro exI [of _ k]) (auto simp flip: length_append)
    qed
  qed
qed

subsection \<open>A page of history\<close>

text \<open>What the scan fetches at position \<open>n\<close>: the batch around it, or a skip over a batch without matches.\<close>

lemma history_fetch_spec:
  assumes inv: "store_inv crc h l 0 bs s wal" and n: "n < length (concat bs)" and mem: "\<forall>n. alloc n"
  obtains p q rs where "p \<le> n" "n < q" "q \<le> length (concat bs)" "rs = slice (concat bs) p q" "rs \<in> set bs"
    "history_fetch crc alloc segs s wal f (of_nat n) = Ok (Fetched rs (length (batch_bytes crc rs)) (length rs))
     \<or> history_fetch crc alloc segs s wal f (of_nat n) = Ok (SkipTo (of_nat q)) \<and> filter (stored_keeps f) rs = []"
proof -
  obtain i where i: "i < length bs" "length (concat (take i bs)) \<le> n" "n < length (concat (take i bs)) + length (bs ! i)"
    using concat_position [OF n] by blast
  let ?p = "length (concat (take i bs))" and ?q = "length (concat (take i bs)) + length (bs ! i)"
  have q: "?q \<le> length (concat bs)"
    using length_concat_take_mono [of "Suc i" "length bs" bs] concat_take_Suc [OF i(1)] i(1) by simp
  have q64: "?q < 2 ^ 64" using q store_inv_run(2) [OF inv] by simp
  have ix: "frame_index_for_sequence s (of_nat n) = Some i" using frame_lookup [OF inv i] by simp
  have fr: "index (st_frames s) i = (Ok (st_frames s ! i) :: (_, storage_error) result)"
    using store_inv_batch(4) [OF inv i(1)] i(1) by (simp add: index_def)
  have "length (bs ! i) < 2 ^ 64" "?p < 2 ^ 64" using q64 by simp_all
  then have ad: "add_or_panic (fl_first (st_frames s ! i)) (of_nat (fl_count (st_frames s ! i))) = (Ok (of_nat ?q) :: (_, storage_error) result)"
    using frame_first [OF inv i(1)] q64 by (simp add: add_or_panic_def checked_add_def)
  have "history_fetch crc alloc segs s wal f (of_nat n) = Ok (Fetched (bs ! i) (length (batch_bytes crc (bs ! i))) (length (bs ! i)))
     \<or> history_fetch crc alloc segs s wal f (of_nat n) = Ok (SkipTo (of_nat ?q)) \<and> filter (stored_keeps f) (bs ! i) = []"
  proof (cases "i < length (st_summaries s) \<and> block_matches (st_summaries s ! i) f = Skip")
    case True
    then show ?thesis using ix fr ad skip_frame_sound [OF inv i(1)] by (simp add: history_fetch_def del: of_nat_add)
  next
    case False
    then show ?thesis using ix fr read_frame [OF inv i(1) mem] frame_first(3,4) [OF inv i(1)]
      by (simp add: history_fetch_def) blast
  qed
  then show thesis using that [OF i(2,3) q concat_slice [OF i(1), symmetric]] i(1) by simp
qed

lemma log_numbered: "store_inv crc h l 0 bs s wal \<Longrightarrow> numbered (concat bs)"
proof -
  assume inv: "store_inv crc h l 0 bs s wal"
  show ?thesis using validate_run_nth [OF store_inv_run(1) [OF inv]] store_inv_run(2) [OF inv] by (simp add: numbered_def)
qed

lemma filter_slice_split:
  "n \<le> k \<Longrightarrow> k \<le> j \<Longrightarrow> filter P (slice xs n j) = filter P (slice xs n k) @ filter P (slice xs k j)"
  by (simp add: slice_split [of n k j])

lemma filter_slice_part: "filter P (slice xs p q) = [] \<Longrightarrow> p \<le> n \<Longrightarrow> m \<le> q \<Longrightarrow> filter P (slice xs n m) = []"
proof (cases "n \<le> m")
  case True
  assume "filter P (slice xs p q) = []" "p \<le> n" "m \<le> q"
  then show ?thesis using slice_split [of p n q xs] slice_split [of n m q xs] True by simp
qed simp

definition fits_budget :: "(bytes \<Rightarrow> u32) \<Rightarrow> storage_query_budget \<Rightarrow> stored_event list list \<Rightarrow> bool" where
  "fits_budget crc b bs \<longleftrightarrow> 0 < sb_max_results b \<and> 0 < sb_max_scanned b \<and> 0 < sb_max_read_bytes b
     \<and> (\<forall>rs \<in> set bs. length (batch_bytes crc rs) \<le> sb_max_read_bytes b \<and> length rs \<le> sb_max_scanned b)"

lemma history_scan_spec:
  assumes inv: "store_inv crc h l 0 bs s wal" and mem: "\<forall>n. alloc n" and fit: "fits_budget crc b bs" and m: "m \<le> length (concat bs)"
  shows "n \<le> m \<Longrightarrow> length events < sb_max_results b \<Longrightarrow> sc \<le> sb_max_scanned b \<Longrightarrow> br \<le> sb_max_read_bytes b \<Longrightarrow>
    \<exists>k \<ge> n. \<exists>nxt sc' br'. k \<le> m
     \<and> history_scan crc alloc segs s wal f b (of_nat m) (of_nat n) events sc br
        = Some (Ok (nxt, events @ filter (stored_keeps f) (slice (concat bs) n k), sc', br'))
     \<and> (if k < m then nxt = of_nat k else of_nat m \<le> nxt)
     \<and> length events + length (filter (stored_keeps f) (slice (concat bs) n k)) \<le> sb_max_results b
     \<and> sc' \<le> sb_max_scanned b \<and> br' \<le> sb_max_read_bytes b \<and> (sc = 0 \<and> br = 0 \<and> n < m \<longrightarrow> n < k)"
proof (induction "m - n" arbitrary: n events sc br rule: less_induct)
  case less
  let ?xs = "concat bs" and ?scan = "history_scan crc alloc segs s wal f b (of_nat m)"
  have l64: "length ?xs < 2 ^ 64" using store_inv_run(2) [OF inv] by simp
  have lt: "n < 2 ^ 64" "m < 2 ^ 64" using less.prems(1) m l64 by simp_all
  show ?case
  proof (cases "n < m")
    case False
    then have "?scan (of_nat n) events sc br = Some (Ok (of_nat n, events, sc, br))"
      using of_nat_u64_less [OF lt] by (subst history_scan.simps) simp
    then show ?thesis using False less.prems by (intro exI [of _ n]) auto
  next
    case True
    have nm: "(of_nat n :: u64) < of_nat m" using of_nat_u64_less [OF lt] True by simp
    have nx: "n < length ?xs" using True m by simp
    obtain p q rs where F: "p \<le> n" "n < q" "q \<le> length ?xs" "rs = slice ?xs p q" "rs \<in> set bs"
      "history_fetch crc alloc segs s wal f (of_nat n) = Ok (Fetched rs (length (batch_bytes crc rs)) (length rs))
       \<or> history_fetch crc alloc segs s wal f (of_nat n) = Ok (SkipTo (of_nat q)) \<and> filter (stored_keeps f) rs = []"
      by (rule history_fetch_spec [OF inv nx mem])
    have sm: "length (batch_bytes crc rs) \<le> sb_max_read_bytes b" "length rs \<le> sb_max_scanned b" using fit F(5) by (auto simp: fits_budget_def)
    from F(6) show ?thesis
    proof
      assume sk: "history_fetch crc alloc segs s wal f (of_nat n) = Ok (SkipTo (of_nat q)) \<and> filter (stored_keeps f) rs = []"
      have none: "filter (stored_keeps f) (slice ?xs n j) = []" if "j \<le> q" for j
        using filter_slice_part [OF conjunct2 [OF sk, unfolded F(4)] F(1) that] .
      have st: "?scan (of_nat n) events sc br = ?scan (of_nat q) events sc br"
        using sk nm by (subst history_scan.simps) simp
      show ?thesis
      proof (cases "q \<le> m")
        case qm: True
        have dq: "m - q < m - n" using F(2) True by simp
        obtain k nxt sc' br' where k: "q \<le> k" "k \<le> m" "?scan (of_nat q) events sc br = Some (Ok (nxt, events @ filter (stored_keeps f) (slice ?xs q k), sc', br'))"
          "if k < m then nxt = of_nat k else of_nat m \<le> nxt"
          "length events + length (filter (stored_keeps f) (slice ?xs q k)) \<le> sb_max_results b" "sc' \<le> sb_max_scanned b" "br' \<le> sb_max_read_bytes b"
          using less.hyps [OF dq qm less.prems(2-4)] by blast
        have "filter (stored_keeps f) (slice ?xs n k) = filter (stored_keeps f) (slice ?xs q k)"
          using filter_slice_split [of n q k "stored_keeps f" ?xs] none [of q] F(2) k(1) by simp
        then show ?thesis using st k F(2) by (intro exI [of _ k]) auto
      next
        case False
        have "q < 2 ^ 64" using F(3) l64 by simp
        then have "?scan (of_nat q) events sc br = Some (Ok (of_nat q, events, sc, br))" "(of_nat m :: u64) \<le> of_nat q"
          using of_nat_u64_less [of q m] of_nat_u64_less [of m q] False lt(2) by (subst history_scan.simps, simp_all)
        then show ?thesis using st none [of m] False True less.prems by (intro exI [of _ m]) auto
      qed
    next
      assume ft: "history_fetch crc alloc segs s wal f (of_nat n) = Ok (Fetched rs (length (batch_bytes crc rs)) (length rs))"
      show ?thesis
      proof (cases "length (batch_bytes crc rs) > sb_max_read_bytes b - br \<or> length rs > sb_max_scanned b - sc")
        case over: True
        then have "?scan (of_nat n) events sc br = Some (Ok (of_nat n, events, sc, br))"
          using ft nm sm by (subst history_scan.simps) auto
        moreover have "\<not> (sc = 0 \<and> br = 0)" using over sm by auto
        ultimately show ?thesis using True less.prems by (intro exI [of _ n]) auto
      next
        case within: False
        have nmq: "n \<le> min m q" using True F(2) by simp
        obtain k where k: "n \<le> k" "k \<le> min m q"
          "scan_records alloc f (sb_max_results b) (of_nat m) (slice ?xs n q) (of_nat n) events = Ok (of_nat k, events @ filter (stored_keeps f) (slice ?xs n k))"
          "length events + length (filter (stored_keeps f) (slice ?xs n k)) \<le> sb_max_results b"
          "length events + length (filter (stored_keeps f) (slice ?xs n k)) < sb_max_results b \<longrightarrow> k = min m q" "n < min m q \<longrightarrow> n < k"
          using scan_spec [OF log_numbered [OF inv] F(3) m mem nmq less.prems(2), of f] by blast
        let ?ev = "events @ filter (stored_keeps f) (slice ?xs n k)"
        have nk: "n < k" using k(6) True F(2) by simp
        have sc: "scan_records alloc f (sb_max_results b) (of_nat m) rs (of_nat n) events = Ok (of_nat k, ?ev)"
          using k(3) scan_skips [OF log_numbered [OF inv] F(1) _ F(3)] F(2,4) by simp
        have st: "?scan (of_nat n) events sc br = (if length ?ev = sb_max_results b
            then Some (Ok (of_nat k, ?ev, sc + length rs, br + length (batch_bytes crc rs)))
            else ?scan (of_nat k) ?ev (sc + length rs) (br + length (batch_bytes crc rs)))"
          using ft nm sm within sc by (subst history_scan.simps) auto
        have bd: "sc + length rs \<le> sb_max_scanned b" "br + length (batch_bytes crc rs) \<le> sb_max_read_bytes b"
          using within less.prems(3,4) by auto
        show ?thesis
        proof (cases "length ?ev = sb_max_results b")
          case full: True
          then show ?thesis using st bd k(2) nk by (intro exI [of _ k]) auto
        next
          case notfull: False
          then have le: "length ?ev < sb_max_results b" using k(4) by simp
          have km: "k \<le> m" using k(2) by simp
          then have dk: "m - k < m - n" using nk by (intro diff_less_mono2) simp_all
          obtain j nxt sc' br' where j: "k \<le> j" "j \<le> m"
            "?scan (of_nat k) ?ev (sc + length rs) (br + length (batch_bytes crc rs)) = Some (Ok (nxt, ?ev @ filter (stored_keeps f) (slice ?xs k j), sc', br'))"
            "if j < m then nxt = of_nat j else of_nat m \<le> nxt"
            "length ?ev + length (filter (stored_keeps f) (slice ?xs k j)) \<le> sb_max_results b" "sc' \<le> sb_max_scanned b" "br' \<le> sb_max_read_bytes b"
            using less.hyps [OF dk km le bd] by blast
          have "?ev @ filter (stored_keeps f) (slice ?xs k j) = events @ filter (stored_keeps f) (slice ?xs n j)"
            using filter_slice_split [OF k(1) j(1), of "stored_keeps f" ?xs] by simp
          then show ?thesis using st notfull j nk by (intro exI [of _ j]) (auto simp flip: length_append)
        qed
      qed
    qed
  qed
qed

definition cursor_at :: "wal_header \<Rightarrow> history_filter \<Rightarrow> nat \<Rightarrow> nat \<Rightarrow> storage_cursor" where
  "cursor_at h f a b = \<lparr>sc_database = wh_database h, sc_source = wh_source h, sc_epoch = wh_epoch h, sc_filter = f,
     sc_next_sequence = of_nat a, sc_snapshot_end = of_nat b\<rparr>"

definition clock_agrees :: "history_filter \<Rightarrow> stored_event list \<Rightarrow> bool" where
  "clock_agrees f xs \<longleftrightarrow> (case hf_known_as_of f of None \<Rightarrow> True
     | Some cutoff \<Rightarrow> list_all (\<lambda>r. ts_clock (et_known (se_times r)) = ts_clock cutoff) xs)"

lemma known_clock_check:
  assumes "store_inv crc h l base bs s wal" "clock_agrees f (concat bs)"
  shows "(case (hf_known_as_of f, st_last_known s) of
      (Some cutoff, Some known) \<Rightarrow> if ts_clock cutoff \<noteq> ts_clock known
         then Err (StKnownClockMismatch (ts_clock known) (ts_clock cutoff)) else Ok () | _ \<Rightarrow> Ok ()) = Ok ()"
proof (cases "concat bs = []")
  case True
  have "validate_run h base None [] = Ok (st_next_sequence s, st_last_known s)" using store_inv_run(1) [OF assms(1)] unfolding True .
  then have "st_last_known s = None" by simp
  then show ?thesis by (simp split: option.splits)
next
  case False
  then obtain t where "st_last_known s = Some t" "\<forall>r \<in> set (concat bs). ts_clock (et_known (se_times r)) = ts_clock t"
    using validate_run_clock [OF store_inv_run(1) [OF assms(1)]] by blast
  then show ?thesis using assms(2) False unfolding clock_agrees_def list_all_iff
    by (auto split: option.splits)
qed

lemma known_clock_refused:
  assumes "store_inv crc h l 0 bs s wal" "fits_budget crc b bs" "\<not> clock_agrees f (concat bs)"
  shows "\<exists>known cutoff. known \<noteq> cutoff \<and> store_history crc alloc segs s wal f b None = Some (Err (StKnownClockMismatch known cutoff))"
proof -
  obtain cutoff where c: "hf_known_as_of f = Some cutoff" and r: "\<exists>r \<in> set (concat bs). ts_clock (et_known (se_times r)) \<noteq> ts_clock cutoff"
    using assms(3) by (auto simp: clock_agrees_def list_all_iff split: option.splits)
  then have "concat bs \<noteq> []" by (elim bexE) (metis empty_iff list.set(1))
  then obtain t where t: "st_last_known s = Some t" "\<forall>r \<in> set (concat bs). ts_clock (et_known (se_times r)) = ts_clock t"
    using validate_run_clock [OF store_inv_run(1) [OF assms(1)]] by blast
  then have "ts_clock t \<noteq> ts_clock cutoff" using r by auto
  then show ?thesis using store_inv_next [OF assms(1)] assms(2) c t(1) by (auto simp: store_history_def fits_budget_def)
qed

lemma store_history_spec:
  assumes inv: "store_inv crc h l 0 bs s wal" and mem: "\<forall>n. alloc n" and fit: "fits_budget crc b bs"
    and clock: "clock_agrees f (concat bs)" and ab: "a \<le> m" "m \<le> length (concat bs)"
    and cur: "cursor = Some (cursor_at h f a m) \<or> cursor = None \<and> a = 0 \<and> m = length (concat bs)"
  shows "\<exists>k page. store_history crc alloc segs s wal f b cursor = Some (Ok page)
     \<and> a \<le> k \<and> k \<le> m \<and> (a < m \<longrightarrow> a < k)
     \<and> sp_events page = filter (stored_keeps f) (slice (concat bs) a k) \<and> length (sp_events page) \<le> sb_max_results b
     \<and> sp_scanned page \<le> sb_max_scanned b \<and> sp_bytes_read page \<le> sb_max_read_bytes b
     \<and> sp_continuation page = (if k < m then Some (cursor_at h f k m) else None)"
proof -
  have l64: "length (concat bs) < 2 ^ 64" using store_inv_run(2) [OF inv] by simp
  have S: "st_header s = h" "\<not> st_poisoned s" "st_next_sequence s = of_nat (length (concat bs))"
    using store_inv_next [OF inv] by simp_all
  have lt: "a < 2 ^ 64" "m < 2 ^ 64" using ab l64 by simp_all
  have le: "(of_nat a :: u64) \<le> of_nat m" "(of_nat m :: u64) \<le> st_next_sequence s"
    using of_nat_u64_less [OF lt] of_nat_u64_less [OF lt(2) l64] ab S(3) by simp_all
  have r0: "0 < sb_max_results b" "sb_max_results b \<noteq> 0" "sb_max_scanned b \<noteq> 0" "sb_max_read_bytes b \<noteq> 0" using fit by (auto simp: fits_budget_def)
  obtain k nxt sc br where k: "a \<le> k" "k \<le> m"
    "history_scan crc alloc segs s wal f b (of_nat m) (of_nat a) [] 0 0 = Some (Ok (nxt, [] @ filter (stored_keeps f) (slice (concat bs) a k), sc, br))"
    "if k < m then nxt = of_nat k else of_nat m \<le> nxt"
    "length ([] :: stored_event list) + length (filter (stored_keeps f) (slice (concat bs) a k)) \<le> sb_max_results b"
    "sc \<le> sb_max_scanned b" "br \<le> sb_max_read_bytes b" "(0 :: nat) = 0 \<and> (0 :: nat) = 0 \<and> a < m \<longrightarrow> a < k"
    using history_scan_spec [OF inv mem fit ab(2,1), of "[]" 0 0] r0(1) by (metis list.size(3) zero_le)
  have nx: "nxt < of_nat m \<longleftrightarrow> k < m" "k < m \<longrightarrow> nxt = of_nat k"
    using k(2,4) of_nat_u64_less [of k m] lt by (auto split: if_splits)
  have cu: "(case cursor of Some c \<Rightarrow>
       if sc_database c = wh_database (st_header s) \<and> sc_source c = wh_source (st_header s) \<and> sc_epoch c = wh_epoch (st_header s)
          \<and> sc_filter c = f \<and> sc_next_sequence c \<le> sc_snapshot_end c \<and> sc_snapshot_end c \<le> st_next_sequence s
       then Ok (sc_next_sequence c, sc_snapshot_end c) else Err StInvalidCursor
     | None \<Rightarrow> Ok (0, st_next_sequence s)) = (Ok (of_nat a, of_nat m) :: (_, storage_error) result)"
    using cur le S by (auto simp: cursor_at_def)
  have "store_history crc alloc segs s wal f b cursor = Some (Ok \<lparr>sp_events = filter (stored_keeps f) (slice (concat bs) a k),
      sp_scanned = sc, sp_bytes_read = br, sp_continuation = (if k < m then Some (cursor_at h f k m) else None)\<rparr>)"
    unfolding store_history_def known_clock_check [OF inv clock] cu using S r0(2-) k(3) nx by (auto simp: cursor_at_def)
  then show ?thesis using k by (intro exI [of _ k]) auto
qed

subsection \<open>Lookup\<close>

lemma find_distinct: "n < length xs \<Longrightarrow> (\<And>j. j < length xs \<Longrightarrow> P (xs ! j) \<longleftrightarrow> j = n) \<Longrightarrow> List.find P xs = Some (xs ! n)"
proof -
  assume n: "n < length xs" and P: "\<And>j. j < length xs \<Longrightarrow> P (xs ! j) \<longleftrightarrow> j = n"
  have "P (xs ! n)" using P [OF n] by simp
  moreover have "\<not> P (xs ! j)" if "j < n" for j using P [of j] that n by simp
  ultimately show ?thesis using n unfolding find_Some_iff by blast
qed

lemma store_get_spec:
  assumes inv: "store_inv crc h l base bs s wal" and mem: "\<forall>n. alloc n" and n: "n < length (concat bs)"
  shows "store_get crc alloc segs s wal (se_id (concat bs ! n)) = Ok (concat bs ! n)"
proof -
  obtain i where i: "i < length bs" "length (concat (take i bs)) \<le> n" "n < length (concat (take i bs)) + length (bs ! i)"
    using concat_position [OF n] by blast
  let ?p = "length (concat (take i bs))" and ?xs = "concat bs"
  have ids: "se_id (?xs ! j) = \<lparr>eid_source = wh_source h, eid_epoch = wh_epoch h, eid_sequence = base + of_nat j\<rparr>" if "j < length ?xs" for j
    using validate_run_nth [OF store_inv_run(1) [OF inv] that] .
  have u: "unat (base + of_nat j) = unat base + j" if "j \<le> length ?xs" for j
    using that store_inv_run(2) [OF inv] by (intro unat_add_small) simp
  have S: "st_header s = h" "\<not> st_poisoned s" "st_next_sequence s = base + of_nat (length ?xs)" using store_inv_next [OF inv] by simp_all
  have nx: "\<not> st_next_sequence s \<le> base + of_nat n" unfolding S(3) using u [of n] u [of "length ?xs"] n by (simp add: word_le_nat_alt)
  have q: "?p + length (bs ! i) \<le> length ?xs"
    using length_concat_take_mono [of "Suc i" "length bs" bs] concat_take_Suc [OF i(1)] i(1) by simp
  have nth: "bs ! i ! j = ?xs ! (?p + j)" if "j < length (bs ! i)" for j
    using concat_slice [OF i(1)] that q by (metis add_leD1 length_slice nth_drop nth_take slice_def diff_add_inverse le_add1)
  have "List.find (\<lambda>e. se_id e = se_id (?xs ! n)) (bs ! i) = Some (bs ! i ! (n - ?p))"
  proof (rule find_distinct)
    show "n - ?p < length (bs ! i)" using i by simp
    fix j assume j: "j < length (bs ! i)"
    have "se_id (bs ! i ! j) = se_id (?xs ! n) \<longleftrightarrow> base + of_nat (?p + j) = base + of_nat n"
      using nth [OF j] ids [of "?p + j"] ids [OF n] j q by simp
    also have "\<dots> \<longleftrightarrow> ?p + j = n"
    proof -
      have "unat (base + of_nat (?p + j)) = unat base + (?p + j)" "unat (base + of_nat n) = unat base + n"
        using j q n by (intro u, simp)+
      then show ?thesis unfolding word_unat_eq_iff by simp
    qed
    finally show "se_id (bs ! i ! j) = se_id (?xs ! n) \<longleftrightarrow> j = n - ?p" using i(2) by auto
  qed
  moreover have "bs ! i ! (n - ?p) = ?xs ! n" using nth [of "n - ?p"] i by simp
  ultimately show ?thesis
    using S nx ids [OF n] frame_lookup [OF inv i] read_frame [OF inv i(1) mem]
    by (simp add: store_get_def frame_for_sequence_def)
qed

subsection \<open>Admissible batches are committed\<close>

lemma store_append_Written:
  assumes inv: "store_inv crc h l base bs s wal" and mem: "\<forall>n. alloc n"
    and b: "batch \<noteq> []" "length batch \<le> max_records l" "length batch < 2 ^ 64" and ok: "batch_ok crc s (stamp h (st_next_sequence s) batch)"
    and ad: "admit h (st_next_sequence s) 0 (st_last_known s) batch = Ok (stamp h (st_next_sequence s) batch, known)"
  shows "\<exists>receipt. store_append crc alloc Written batch s wal
     = (Ok receipt, index_batch crc (stamp h (st_next_sequence s) batch) s, wal @ batch_bytes crc (stamp h (st_next_sequence s) batch))"
proof -
  let ?rs = "stamp h (st_next_sequence s) batch"
  have S: "st_header s = h" "st_limits s = l" "\<not> st_poisoned s" using store_inv_next [OF inv] by simp_all
  have al: "alloc n" for n using mem by blast
  have w: "batch_within l ?rs" using ok S by (simp add: batch_ok_def)
  have e: "encode_batch crc alloc ?rs l = Ok (batch_bytes crc ?rs)" using encode_batch_Ok [OF mem] w by blast
  have "unat (st_next_sequence s) + length batch < 2 ^ 64" using validate_run_Ok [OF batch_ok_run [OF ok]] by simp
  then have c1: "checked_add (st_next_sequence s) (of_nat (length batch)) = Some (st_next_sequence s + of_nat (length batch))"
    using b(3) by (simp add: checked_add_def)
  have "length (batch_bytes crc ?rs) < 2 ^ 32" using batch_bytes_frame_length(3) [OF w] .
  then have c2: "checked_add (st_end_offset s) (of_nat (length (batch_bytes crc ?rs))) = Some (st_end_offset s + of_nat (length (batch_bytes crc ?rs)))"
    using ok by (simp add: checked_add_def batch_ok_def)
  obtain p where p: "append_prepare crc alloc batch s = Ok p"
    using S b e c1 c2 ad al by (auto simp: append_prepare_def try_reserve_def)
  have eo: "of_nat (length wal) = st_end_offset s"
  proof -
    have "of_nat (unat (st_end_offset s)) = st_end_offset s" by simp
    then show ?thesis using store_inv_end [OF inv] by simp
  qed
  obtain r s' w' where ap: "store_append crc alloc Written batch s wal = (r, s', w')" by (rule prod_cases3)
  have "\<exists>receipt. r = Ok receipt"
    using ap p S e c1 c2 ad al b eo new_summary_Ok [OF ok, where ?'e = storage_error]
    by (auto simp: store_append_def append_prepare_def try_reserve_def write_frame_def Let_def)
  then show ?thesis using ap S(1) by (cases rule: store_append_cases [OF inv b(3) ap]) auto
qed

lemma reachable_inv:
  assumes "store_create crc False False (Some db) source epoch l = Ok (s0, w0)" "wf_database_id db"
    "run_ops (append_step crc alloc) (s0, w0) ops = (rs, s, wal)" "\<forall>(oc, batch) \<in> set ops. length batch < 2 ^ 64" "\<not> st_poisoned s"
  shows "store_inv crc (st_header s0) l 0 (acked (st_header s0) 0 ops rs) s wal"
  using run_after [OF store_create_inv(1) [OF assms(1,2)] assms(4,3)] store_create_inv(3) [OF assms(1,2)] assms(5)
  unfolding after_run_def by simp

text \<open>C21: History pages are exact and make progress. On a live store after any sequence of appends, with
  budgets that fit every frame, a page starting at a cursor (or at the beginning) returns: its events are,
  in order, exactly the records of a nonempty interval from the cursor on that pass the filter, although
  whole frames are skipped on the word of their summaries; the result, scan and read budgets are respected;
  and the page either reaches the end of the snapshot or carries a cursor to the end of its interval.\<close>

theorem durable_history_exact:
  assumes create: "store_create crc False False (Some db) source epoch l = Ok (s0, w0)" "wf_database_id db"
    and run: "run_ops (append_step crc alloc) (s0, w0) ops = (rs, s, wal)" "\<forall>(oc, batch) \<in> set ops. length batch < 2 ^ 64" "\<not> st_poisoned s"
    and mem: "\<forall>n. alloc' n" and fit: "fits_budget crc b (acked (st_header s0) 0 ops rs)"
    and clock: "clock_agrees f (concat (acked (st_header s0) 0 ops rs))"
    and ab: "a \<le> m" "m \<le> length (concat (acked (st_header s0) 0 ops rs))"
    and cur: "cursor = Some (cursor_at (st_header s0) f a m) \<or> cursor = None \<and> a = 0 \<and> m = length (concat (acked (st_header s0) 0 ops rs))"
  shows "\<exists>k page. store_history crc alloc' segs s wal f b cursor = Some (Ok page)
     \<and> a \<le> k \<and> k \<le> m \<and> (a < m \<longrightarrow> a < k)
     \<and> sp_events page = filter (stored_keeps f) (slice (concat (acked (st_header s0) 0 ops rs)) a k)
     \<and> length (sp_events page) \<le> sb_max_results b \<and> sp_scanned page \<le> sb_max_scanned b \<and> sp_bytes_read page \<le> sb_max_read_bytes b
     \<and> sp_continuation page = (if k < m then Some (cursor_at (st_header s0) f k m) else None)"
  by (rule store_history_spec [OF reachable_inv [OF create run] mem fit clock ab cur])

definition sample_records :: "stored_event list" where
  "sample_records = stamp sample_header 0 [sample_write]"

lemma sample_append:
  "\<exists>receipt. run_ops (append_step (\<lambda>_. 5) (\<lambda>_. True)) (fresh_store sample_header limits_default 0, encode_wal_header (\<lambda>_. 5) sample_header)
       [(Written, [sample_write])]
     = ([Ok receipt], index_batch (\<lambda>_. 5) sample_records (fresh_store sample_header limits_default 0),
        encode_wal_header (\<lambda>_. 5) sample_header @ batch_bytes (\<lambda>_. 5) sample_records)"
proof -
  let ?s = "fresh_store sample_header limits_default 0" and ?w = "encode_wal_header (\<lambda>_. 5) sample_header"
  have inv: "store_inv (\<lambda>_. 5) sample_header limits_default 0 [] ?s ?w"
    by (simp add: store_inv_def log_bytes_def sample_header_def wf_database_id_def)
  have v: "validate_record sample_header 0 None (to_record sample_header 0 sample_write) = Ok ()"
    by (simp add: validate_record_def to_record_def sample_write_def)
  have ok: "batch_ok (\<lambda>_. 5) ?s (stamp sample_header (st_next_sequence ?s) [sample_write])"
    using v by (simp add: batch_ok_def batch_within_def record_within_def length_batch_bytes record_bytes_length limits_default_def
        to_record_def sample_write_def checked_add_def)
  have ad: "admit sample_header (st_next_sequence ?s) 0 (st_last_known ?s) [sample_write]
      = Ok (stamp sample_header (st_next_sequence ?s) [sample_write], Some (et_known (we_times sample_write)))"
    using v by (simp add: add_or_panic_def checked_add_def Let_def to_record_def)
  obtain receipt where "store_append (\<lambda>_. 5) (\<lambda>_. True) Written [sample_write] ?s ?w
     = (Ok receipt, index_batch (\<lambda>_. 5) sample_records ?s, ?w @ batch_bytes (\<lambda>_. 5) sample_records)"
    using store_append_Written [OF inv _ _ _ _ ok ad, of "\<lambda>_. True"] by (auto simp: limits_default_def sample_records_def)
  then show ?thesis by (simp add: run_ops.simps append_step_def)
qed

theorem durable_history_exact_witness:
  "\<exists>k page. store_history (\<lambda>_. 5) (\<lambda>_. True) (\<lambda>_. None)
       (index_batch (\<lambda>_. 5) sample_records (fresh_store sample_header limits_default 0))
       (encode_wal_header (\<lambda>_. 5) sample_header @ batch_bytes (\<lambda>_. 5) sample_records)
       \<lparr>hf_entity = None, hf_time = None, hf_known_as_of = None\<rparr> \<lparr>sb_max_results = 1, sb_max_scanned = 1, sb_max_read_bytes = 1000\<rparr> None
     = Some (Ok page) \<and> sp_events page = filter (stored_keeps \<lparr>hf_entity = None, hf_time = None, hf_known_as_of = None\<rparr>) (slice sample_records 0 k)
     \<and> 0 < k \<and> k \<le> 1 \<and> sp_continuation page = None"
proof -
  obtain receipt where run: "run_ops (append_step (\<lambda>_. 5) (\<lambda>_. True)) (fresh_store sample_header limits_default 0, encode_wal_header (\<lambda>_. 5) sample_header)
       [(Written, [sample_write])]
     = ([Ok receipt], index_batch (\<lambda>_. 5) sample_records (fresh_store sample_header limits_default 0),
        encode_wal_header (\<lambda>_. 5) sample_header @ batch_bytes (\<lambda>_. 5) sample_records)" using sample_append by blast
  have ack: "acked sample_header 0 [(Written, [sample_write])] [Ok receipt] = [sample_records]" by (simp add: sample_records_def)
  have len: "length sample_records = 1" "length (batch_bytes (\<lambda>_. 5) sample_records) \<le> 1000"
    by (simp_all add: sample_records_def length_batch_bytes record_bytes_length to_record_def sample_write_def)
  show ?thesis
    using durable_history_exact [OF sample_create _ run, of "\<lambda>_. True"
        "\<lparr>sb_max_results = 1, sb_max_scanned = 1, sb_max_read_bytes = 1000\<rparr>" "\<lparr>hf_entity = None, hf_time = None, hf_known_as_of = None\<rparr>" 0 1 None "\<lambda>_. None",
        unfolded fresh_store_simps ack]
    by (auto simp: len fits_budget_def clock_agrees_def wf_database_id_def)
qed

end
