(* ===== verification/Store_Lifecycle.thy ===== *)
theory Store_Lifecycle
  imports Store_Read
begin

section \<open>Reference holds, retention and backup manifests (\<open>temnion-storage\<close>, \<open>lifecycle.rs\<close>)\<close>

text \<open>
  A hold pins sequences and branches; a retention policy proposes sequences to reclaim. A
  \<open>BTreeSet\<close> is a finite set, kept as the sorted list of its elements. Of the backup manager the
  manifest with its codec and the verification of a backup directory are modelled: a directory is a map
  from relative paths (their UTF-8 bytes) to contents. Copying directories is left out.
\<close>

record reference_hold =
  rh_id :: bytes
  rh_reason :: bytes
  rh_held_sequences :: "u64 list"
  rh_held_branches :: "u64 list"
  rh_created_at_ticks :: u64

definition hold_new :: "bytes \<Rightarrow> bytes \<Rightarrow> u64 \<Rightarrow> reference_hold" where
  "hold_new i reason created_at = \<lparr>rh_id = i, rh_reason = reason, rh_held_sequences = [], rh_held_branches = [],
     rh_created_at_ticks = created_at\<rparr>"

definition set_insert :: "'a::linorder \<Rightarrow> 'a list \<Rightarrow> 'a list" where
  "set_insert x xs = (if x \<in> set xs then xs else insort x xs)"

definition hold_sequence :: "u64 \<Rightarrow> reference_hold \<Rightarrow> reference_hold" where
  "hold_sequence sq h = h\<lparr>rh_held_sequences := set_insert sq (rh_held_sequences h)\<rparr>"

definition hold_range :: "u64 \<Rightarrow> u64 \<Rightarrow> reference_hold \<Rightarrow> reference_hold" where
  "hold_range start stop h = fold hold_sequence (map of_nat [unat start..<Suc (unat stop)]) h"

definition hold_branch :: "u64 \<Rightarrow> reference_hold \<Rightarrow> reference_hold" where
  "hold_branch b h = h\<lparr>rh_held_branches := set_insert b (rh_held_branches h)\<rparr>"

definition is_sequence_held :: "reference_hold \<Rightarrow> u64 \<Rightarrow> bool" where
  "is_sequence_held h sq = List.member (rh_held_sequences h) sq"

definition is_branch_held :: "reference_hold \<Rightarrow> u64 \<Rightarrow> bool" where
  "is_branch_held h b = List.member (rh_held_branches h) b"

subsection \<open>Retention\<close>

record retention_policy =
  rp_max_age_ticks :: "u64 option"
  rp_max_retained_events :: "usize option"

definition saturating_sub :: "u64 \<Rightarrow> u64 \<Rightarrow> u64" where
  "saturating_sub a b = (if b \<le> a then a - b else 0)"

definition any_held :: "reference_hold list \<Rightarrow> u64 \<Rightarrow> bool" where
  "any_held holds sq = list_ex (\<lambda>h. is_sequence_held h sq) holds"

definition too_old :: "u64 \<Rightarrow> u64 \<Rightarrow> stored_event \<Rightarrow> bool" where
  "too_old current max_age ev \<longleftrightarrow> saturating_sub current (ts_ticks (et_valid (se_times ev))) > max_age"

definition age_candidates :: "retention_policy \<Rightarrow> stored_event list \<Rightarrow> u64 \<Rightarrow> reference_hold list \<Rightarrow> u64 list" where
  "age_candidates p events current holds = (case rp_max_age_ticks p of
       None \<Rightarrow> []
     | Some max_age \<Rightarrow> map (\<lambda>ev. eid_sequence (se_id ev))
         (filter (\<lambda>ev. too_old current max_age ev \<and> \<not> any_held holds (eid_sequence (se_id ev))) events))"

definition add_candidate :: "reference_hold list \<Rightarrow> stored_event \<Rightarrow> u64 list \<Rightarrow> u64 list" where
  "add_candidate holds ev cs =
     (if \<not> List.member cs (eid_sequence (se_id ev)) \<and> \<not> any_held holds (eid_sequence (se_id ev))
      then cs @ [eid_sequence (se_id ev)] else cs)"

definition volume_candidates :: "retention_policy \<Rightarrow> stored_event list \<Rightarrow> reference_hold list \<Rightarrow> u64 list \<Rightarrow> u64 list" where
  "volume_candidates p events holds cs = (case rp_max_retained_events p of
       None \<Rightarrow> cs
     | Some max_events \<Rightarrow>
         if length events > max_events then fold (add_candidate holds) (take (length events - max_events) events) cs else cs)"

definition evaluate_reclaimable :: "retention_policy \<Rightarrow> stored_event list \<Rightarrow> u64 \<Rightarrow> reference_hold list \<Rightarrow> u64 list" where
  "evaluate_reclaimable p events current holds =
     sort_dedup (volume_candidates p events holds (age_candidates p events current holds))"

subsection \<open>Backup manifests\<close>

record backup_file_entry =
  bf_relative_path :: bytes
  bf_size_bytes :: u64
  bf_crc32 :: u32

record backup_manifest =
  bm_timestamp_ns :: u128
  bm_files :: "backup_file_entry list"

definition encode_backup_entry :: "backup_file_entry \<Rightarrow> bytes" where
  "encode_backup_entry f = to_le 4 (of_nat (length (bf_relative_path f)) :: u32) @ bf_relative_path f
     @ to_le 8 (bf_size_bytes f) @ to_le 4 (bf_crc32 f)"

definition write_backup_manifest :: "(bytes \<Rightarrow> u32) \<Rightarrow> backup_manifest \<Rightarrow> bytes" where
  "write_backup_manifest crc m =
     (let encoded = to_le 16 (bm_timestamp_ns m) @ to_le 4 (of_nat (length (bm_files m)) :: u32)
          @ concat (map encode_backup_entry (bm_files m))
      in encoded @ to_le 4 (crc encoded))"

text \<open>The entries are read up to \<open>data_len\<close>, before the checksum; \<open>rest\<close> are the bytes from the cursor to
  there.\<close>

fun read_backup_entries :: "nat \<Rightarrow> bytes \<Rightarrow> (backup_file_entry list, storage_error) result" where
  "read_backup_entries 0 rest = Ok []"
| "read_backup_entries (Suc n) rest =
     (if length rest < 4 then Err (StInvalidRecord ''Truncated manifest file entry'') else
      rbind (slice_le 4 rest) (\<lambda>(str_len :: u32, rest).
      if length rest < unat str_len + 12 then Err (StInvalidRecord ''Truncated manifest path string'') else
      rbind (from_utf8 (StInvalidRecord ''Invalid UTF-8 in manifest path'') (take (unat str_len) rest)) (\<lambda>path.
      rbind (slice_le 8 (drop (unat str_len) rest)) (\<lambda>(size_bytes, rest).
      rbind (slice_le 4 rest) (\<lambda>(crc32, rest).
      rbind (read_backup_entries n rest) (\<lambda>files.
      Ok (\<lparr>bf_relative_path = path, bf_size_bytes = size_bytes, bf_crc32 = crc32\<rparr> # files)))))))"

definition read_backup_manifest :: "(bytes \<Rightarrow> u32) \<Rightarrow> bytes option \<Rightarrow> (backup_manifest, storage_error) result" where
  "read_backup_manifest crc file =
     rbind (ok_or file (StIo ''read_backup_manifest'')) (\<lambda>bs.
     if length bs < 24 then Err (StInvalidRecord ''Backup manifest too short'') else
     let data_len = length bs - 4 in
     if crc (take data_len bs) \<noteq> from_le (drop data_len bs) then Err (StInvalidRecord ''Backup manifest checksum corruption'')
     else
     rbind (slice_le 16 bs) (\<lambda>(timestamp_ns, rest).
     rbind (slice_le 4 rest) (\<lambda>(file_count :: u32, rest).
     rbind (read_backup_entries (unat file_count) (take (length rest - 4) rest)) (\<lambda>files.
     Ok \<lparr>bm_timestamp_ns = timestamp_ns, bm_files = files\<rparr>))))"

text \<open>The size and checksum of a file, as \<open>compute_crc32\<close> finds them in chunks.\<close>

definition compute_crc32 :: "(bytes \<Rightarrow> u32) \<Rightarrow> bytes \<Rightarrow> u64 \<times> u32" where
  "compute_crc32 crc content = (of_nat (length content), crc content)"

fun verify_entries :: "(bytes \<Rightarrow> u32) \<Rightarrow> directory \<Rightarrow> backup_file_entry list \<Rightarrow> (unit, storage_error) result" where
  "verify_entries crc dir [] = Ok ()"
| "verify_entries crc dir (e # es) = (case dir (bf_relative_path e) of
       None \<Rightarrow> Err (StInvalidRecord ''Backup file missing'')
     | Some content \<Rightarrow>
         if compute_crc32 crc content \<noteq> (bf_size_bytes e, bf_crc32 e)
         then Err (StInvalidRecord ''Backup file checksum or size mismatch'')
         else verify_entries crc dir es)"

definition backup_manifest_name :: bytes where
  "backup_manifest_name = ascii ''backup_manifest.bin''"

definition verify_backup :: "(bytes \<Rightarrow> u32) \<Rightarrow> directory \<Rightarrow> (backup_manifest, storage_error) result" where
  "verify_backup crc dir =
     rbind (read_backup_manifest crc (dir backup_manifest_name)) (\<lambda>m.
     rbind (verify_entries crc dir (bm_files m)) (\<lambda>_. Ok m))"

subsection \<open>What retention returns\<close>

lemma set_set_insert [simp]: "set (set_insert x xs) = insert x (set xs)"
  by (auto simp: set_insert_def set_insort_key)

lemma is_sequence_held_hold [simp]: "is_sequence_held (hold_sequence sq h) x \<longleftrightarrow> x = sq \<or> is_sequence_held h x"
  by (simp add: is_sequence_held_def hold_sequence_def)

lemma held_fold: "is_sequence_held (fold hold_sequence xs h) x \<longleftrightarrow> x \<in> set xs \<or> is_sequence_held h x"
  by (induction xs arbitrary: h) auto

lemma hold_range_held: "is_sequence_held (hold_range start stop h) x \<longleftrightarrow> start \<le> x \<and> x \<le> stop \<or> is_sequence_held h x"
proof -
  have "x \<in> of_nat ` {unat start..<Suc (unat stop)} \<longleftrightarrow> start \<le> x \<and> x \<le> stop"
  proof
    assume "x \<in> of_nat ` {unat start..<Suc (unat stop)}"
    then obtain n where n: "x = of_nat n" "unat start \<le> n" "n \<le> unat stop" by auto
    then have "n < 2 ^ 64" using order.strict_trans1 [OF n(3) unsigned_less] by simp
    then show "start \<le> x \<and> x \<le> stop" using n by (simp add: word_le_nat_alt)
  next
    assume "start \<le> x \<and> x \<le> stop"
    then have "unat x \<in> {unat start..<Suc (unat stop)}" by (simp add: word_le_nat_alt less_Suc_eq_le)
    then have "of_nat (unat x) \<in> (of_nat ` {unat start..<Suc (unat stop)} :: u64 set)" by (rule imageI)
    then show "x \<in> of_nat ` {unat start..<Suc (unat stop)}" by simp
  qed
  then show ?thesis unfolding hold_range_def held_fold set_map set_upt by blast
qed

lemma fold_add_candidate:
  "set (fold (add_candidate holds) es cs) = set cs \<union> {eid_sequence (se_id e) | e. e \<in> set es \<and> \<not> any_held holds (eid_sequence (se_id e))}"
proof (induction es arbitrary: cs)
  case (Cons e es)
  have "set (add_candidate holds e cs) = set cs \<union> (if any_held holds (eid_sequence (se_id e)) then {} else {eid_sequence (se_id e)})"
    by (auto simp: add_candidate_def)
  then show ?case unfolding fold_Cons comp_apply Cons.IH by auto
qed simp

text \<open>C22: Retention respects holds and nothing else: the reclaimable sequences are listed in increasing
  order without repetition, and they are exactly the sequences no hold covers of events that are older
  than the age limit or among the first events in excess of the volume limit. Holding a range protects
  exactly its sequences, on top of what the hold covered before.\<close>

theorem retention_respects_holds:
  "sorted_wrt (<) (evaluate_reclaimable p events current holds)
   \<and> set (evaluate_reclaimable p events current holds) =
       {sq. \<not> (\<exists>h \<in> set holds. is_sequence_held h sq)
          \<and> (\<exists>i < length events. sq = eid_sequence (se_id (events ! i))
               \<and> ((\<exists>age. rp_max_age_ticks p = Some age
                      \<and> unat current - unat (ts_ticks (et_valid (se_times (events ! i)))) > unat age)
                  \<or> (\<exists>n. rp_max_retained_events p = Some n \<and> i < length events - n)))}
   \<and> is_sequence_held (hold_range start stop h) sq' = (start \<le> sq' \<and> sq' \<le> stop \<or> is_sequence_held h sq')"
proof -
  have sub: "saturating_sub a b > c \<longleftrightarrow> unat a - unat b > unat c" for a b c
    by (simp add: saturating_sub_def word_less_nat_alt word_le_nat_alt unat_sub)
  have h: "any_held holds x \<longleftrightarrow> (\<exists>h \<in> set holds. is_sequence_held h x)" for x by (simp add: any_held_def list_ex_iff)
  have age: "set (age_candidates p events current holds) = {sq. \<not> any_held holds sq \<and> (\<exists>i < length events. sq = eid_sequence (se_id (events ! i))
      \<and> (\<exists>age. rp_max_age_ticks p = Some age \<and> unat current - unat (ts_ticks (et_valid (se_times (events ! i)))) > unat age))}"
  proof (cases "rp_max_age_ticks p")
    case (Some age)
    then show ?thesis by (simp add: age_candidates_def too_old_def sub set_conv_nth [of events] set_eq_iff image_iff) blast
  qed (simp add: age_candidates_def)
  have vol: "set (volume_candidates p events holds cs) = set cs \<union> {sq. \<not> any_held holds sq \<and> (\<exists>i < length events. sq = eid_sequence (se_id (events ! i))
      \<and> (\<exists>n. rp_max_retained_events p = Some n \<and> i < length events - n))}" for cs
  proof (cases "rp_max_retained_events p")
    case (Some n)
    have "e \<in> set (take (length events - n) events) \<longleftrightarrow> (\<exists>i < length events - n. e = events ! i)" for e
      by (auto simp: in_set_conv_nth)
    then have "{eid_sequence (se_id e) | e. e \<in> set (take (length events - n) events) \<and> \<not> any_held holds (eid_sequence (se_id e))}
        = {sq. \<not> any_held holds sq \<and> (\<exists>i < length events. sq = eid_sequence (se_id (events ! i)) \<and> i < length events - n)}"
      by (auto intro: less_le_trans diff_le_self)
    then show ?thesis using Some by (auto simp: volume_candidates_def fold_add_candidate)
  qed (simp add: volume_candidates_def)
  show ?thesis
  proof (intro conjI)
    show "set (evaluate_reclaimable p events current holds) =
       {sq. \<not> (\<exists>h \<in> set holds. is_sequence_held h sq)
          \<and> (\<exists>i < length events. sq = eid_sequence (se_id (events ! i))
               \<and> ((\<exists>age. rp_max_age_ticks p = Some age
                      \<and> unat current - unat (ts_ticks (et_valid (se_times (events ! i)))) > unat age)
                  \<or> (\<exists>n. rp_max_retained_events p = Some n \<and> i < length events - n)))}"
      unfolding evaluate_reclaimable_def set_sort_dedup vol age h by blast
  qed (simp_all add: evaluate_reclaimable_def hold_range_held)
qed

subsection \<open>Manifests load as they were saved\<close>

definition backup_encodable :: "backup_manifest \<Rightarrow> bool" where
  "backup_encodable m \<longleftrightarrow> length (bm_files m) < 2 ^ 32
     \<and> list_all (\<lambda>f. length (bf_relative_path f) < 2 ^ 32 \<and> utf8_valid (bf_relative_path f)) (bm_files m)"

lemma read_backup_entries_encode:
  "list_all (\<lambda>f. length (bf_relative_path f) < 2 ^ 32 \<and> utf8_valid (bf_relative_path f)) fs \<Longrightarrow>
     read_backup_entries (length fs) (concat (map encode_backup_entry fs) @ r) = Ok fs"
proof (induction fs)
  case (Cons f fs)
  have u: "unat (of_nat (length (bf_relative_path f)) :: u32) = length (bf_relative_path f)" using Cons.prems by simp
  show ?case using Cons u by (simp add: encode_backup_entry_def from_utf8_def)
qed simp

lemma read_backup_write:
  assumes "backup_encodable m"
  shows "read_backup_manifest crc (Some (write_backup_manifest crc m)) = Ok m"
proof -
  let ?es = "concat (map encode_backup_entry (bm_files m))"
  define enc where "enc = to_le 16 (bm_timestamp_ns m) @ to_le 4 (of_nat (length (bm_files m)) :: u32) @ ?es"
  have bs: "write_backup_manifest crc m = enc @ to_le 4 (crc enc)" by (simp add: write_backup_manifest_def enc_def Let_def)
  have "slice_le 16 (to_le 16 t @ r) = (Ok (t, r) :: (_, storage_error) result)" for t :: u128 and r by (simp add: slice_le_def)
  then have s1: "slice_le 16 (enc @ x) = (Ok (bm_timestamp_ns m, to_le 4 (of_nat (length (bm_files m)) :: u32) @ ?es @ x) :: (_, storage_error) result)" for x
    by (simp add: enc_def)
  have n: "unat (of_nat (length (bm_files m)) :: u32) = length (bm_files m)" using assms by (simp add: backup_encodable_def)
  have r: "read_backup_entries (length (bm_files m)) ?es = Ok (bm_files m)"
    using read_backup_entries_encode [of "bm_files m" "[]"] assms by (simp add: backup_encodable_def)
  have len: "length enc = 20 + length ?es" by (simp add: enc_def)
  show ?thesis unfolding bs read_backup_manifest_def using s1 [of "to_le 4 (crc enc)"] n r len by simp
qed

text \<open>Manifests load as they were saved: a segment manifest and a backup manifest whose counts and names
  fit their fields and whose names are UTF-8 decode from their encoding to themselves; and a backup is
  verified exactly if its manifest loads and every listed file exists with the listed size and checksum.\<close>

theorem manifests_roundtrip:
  assumes "manifest_encodable m" "backup_encodable b"
  shows "manifest_decode crc (manifest_encode crc m) = Ok m
     \<and> read_backup_manifest crc (Some (write_backup_manifest crc b)) = Ok b
     \<and> (dir backup_manifest_name = Some (write_backup_manifest crc b) \<longrightarrow>
          (verify_backup crc dir = Ok b \<longleftrightarrow>
             (\<forall>f \<in> set (bm_files b). \<exists>content. dir (bf_relative_path f) = Some content
                 \<and> bf_size_bytes f = of_nat (length content) \<and> bf_crc32 f = crc content)))"
proof -
  have v: "verify_entries crc dir es = Ok () \<longleftrightarrow> (\<forall>f \<in> set es. \<exists>content. dir (bf_relative_path f) = Some content
       \<and> bf_size_bytes f = of_nat (length content) \<and> bf_crc32 f = crc content)" for es
    by (induction es) (auto simp: compute_crc32_def split: option.splits)
  show ?thesis using assms manifest_decode_encode read_backup_write v by (auto simp: verify_backup_def result_ok)
qed

text \<open>The length guards of the segment manifest's decoder are too weak for the reads behind them: an input
  of 42 bytes with a matching checksum panics.\<close>

lemma manifest_decode_panics:
  "\<exists>bs. manifest_decode (\<lambda>_. 0) bs = Panic"
proof
  show "manifest_decode (\<lambda>_. 0) (MANIFEST_MAGIC @ to_le 2 MANIFEST_VERSION @ replicate 36 0) = Panic"
    by (simp add: manifest_decode_def MANIFEST_MAGIC_def MANIFEST_VERSION_def slice_def slice_le_def slice_bytes_def numeral_eq_Suc)
qed

definition sample_backup :: backup_manifest where
  "sample_backup = \<lparr>bm_timestamp_ns = 1, bm_files = [\<lparr>bf_relative_path = [0x61], bf_size_bytes = 0, bf_crc32 = 5\<rparr>]\<rparr>"

theorem manifests_roundtrip_witness:
  "manifest_decode (\<lambda>_. 5) (manifest_encode (\<lambda>_. 5) (manifest_new (replicate 16 0) 1 1)) = Ok (manifest_new (replicate 16 0) 1 1)
   \<and> read_backup_manifest (\<lambda>_. 5) (Some (write_backup_manifest (\<lambda>_. 5) sample_backup)) = Ok sample_backup"
  using manifests_roundtrip [of "manifest_new (replicate 16 0) 1 1" sample_backup "\<lambda>_. 5"]
  by (simp add: manifest_encodable_def manifest_new_def wf_database_id_def backup_encodable_def sample_backup_def utf8_width_def utf8_tail_def)

end
