(* ===== verification/Store_Seal.thy ===== *)
theory Store_Seal
  imports Store_Queries Store_Lifecycle
begin

section \<open>Sealing segments and retiring the log (\<open>temnion-storage\<close>, \<open>lib.rs\<close>)\<close>

text \<open>
  \<open>seal\<close> exports every frame as a segment file with a summary next to it and records it in the manifest;
  \<open>retire_wal\<close> then cuts sealed frames that no hold protects off the front of the log, in place, and
  afterwards saves the manifest with the last retired sequence. The operations take the log file and the
  segment directory and return them; the calls of the operating system are taken to succeed, and
  temporary files, which are renamed or removed before the call returns, are left out. \<open>retire_compact\<close>
  is \<open>retire_wal\<close> up to the point where the log file is rewritten and the manifest is not yet saved.
\<close>

record seal_report =
  sr_segments_created :: usize
  sr_segments_existing :: usize
  sr_events :: u64

text \<open>\<open>{:020}\<close>: a decimal number padded to 20 digits; every \<open>u64\<close> has at most 20.\<close>

fun dec_digits :: "nat \<Rightarrow> nat \<Rightarrow> bytes" where
  "dec_digits 0 n = []"
| "dec_digits (Suc k) n = dec_digits k (n div 10) @ [of_nat (48 + n mod 10)]"

definition range_name :: "u64 \<Rightarrow> u64 \<Rightarrow> string \<Rightarrow> bytes" where
  "range_name first lst ext = dec_digits 20 (unat first) @ ascii ''-'' @ dec_digits 20 (unat lst) @ ascii ext"

definition frame_last :: "frame_location \<Rightarrow> (u64, storage_error) result" where
  "frame_last f = rbind (add_or_panic (fl_first f) (of_nat (fl_count f))) (\<lambda>n. sub_or_panic n 1)"

text \<open>The publication of one segment file: an existing file has to be identical; a new one is read back
  and verified before it is linked.\<close>

definition publish_segment :: "(bytes \<Rightarrow> u32) \<Rightarrow> (usize \<Rightarrow> bool) \<Rightarrow> store \<Rightarrow> stored_event list \<Rightarrow> bytes \<Rightarrow> bytes \<Rightarrow> directory
    \<Rightarrow> seal_report \<Rightarrow> (directory \<times> seal_report, storage_error) result" where
  "publish_segment crc alloc s records encoded filename segs rep =
     (if segs filename \<noteq> None then
        rbind (read_bounded_file alloc (segs filename) (max_segment_bytes (st_limits s))) (\<lambda>existing.
        if existing \<noteq> encoded then Err (StInvalidRecord ''existing immutable segment differs from WAL'') else
        rbind (from_format (decode_segment crc alloc existing (st_limits s))) (\<lambda>_.
        Ok (segs, rep\<lparr>sr_segments_existing := sr_segments_existing rep + 1\<rparr>)))
      else
        rbind (read_bounded_file alloc (Some encoded) (max_segment_bytes (st_limits s))) (\<lambda>persisted.
        rbind (from_format (decode_segment crc alloc persisted (st_limits s))) (\<lambda>decoded.
        if sg_header decoded \<noteq> st_header s \<or> sg_records decoded \<noteq> records
        then Err (StInvalidRecord ''segment verification differs from WAL'')
        else Ok (segs(filename \<mapsto> encoded), rep\<lparr>sr_segments_created := sr_segments_created rep + 1\<rparr>))))"

definition publish_summary :: "(bytes \<Rightarrow> u32) \<Rightarrow> store \<Rightarrow> nat \<Rightarrow> bytes \<Rightarrow> directory \<Rightarrow> (directory, storage_error) result" where
  "publish_summary crc s i name segs =
     (if segs name \<noteq> None \<or> length (st_summaries s) \<le> i then Ok segs
      else rbind (from_index (segment_summary_new (wh_database (st_header s)) (wh_source (st_header s)) (wh_epoch (st_header s))
             [st_summaries s ! i])) (\<lambda>sm.
           Ok (segs(name \<mapsto> segment_summary_encode crc sm))))"

definition seal_frame :: "(bytes \<Rightarrow> u32) \<Rightarrow> (usize \<Rightarrow> bool) \<Rightarrow> store \<Rightarrow> bytes \<Rightarrow> nat
    \<Rightarrow> directory \<times> segment_manifest \<times> seal_report \<Rightarrow> (directory \<times> segment_manifest \<times> seal_report, storage_error) result" where
  "seal_frame crc alloc s wal i = (\<lambda>(segs, manifest, rep).
     rbind (index (st_frames s) i) (\<lambda>frame.
     rbind (read_indexed_frame crc alloc s wal frame) (\<lambda>records.
     rbind (from_format (encode_segment crc alloc (st_header s) records (st_limits s))) (\<lambda>encoded.
     rbind (frame_last frame) (\<lambda>lst.
     let filename = range_name (fl_first frame) lst ''.tsf'' in
     rbind (publish_segment crc alloc s records encoded filename segs rep) (\<lambda>(segs, rep).
     let meta = \<lparr>sm_first_sequence = fl_first frame, sm_last_sequence = lst, sm_filename = filename,
           sm_byte_length = of_nat (length encoded), sm_crc32 = crc encoded,
           sm_sealed_at_ticks = (if records = [] then 0 else ts_ticks (et_valid (se_times (last records))))\<rparr>;
         manifest = manifest_register meta manifest in
     rbind (publish_summary crc s i (range_name (fl_first frame) lst ''.tsm'') segs) (\<lambda>segs.
     rbind (add_or_panic (sr_events rep) (of_nat (length records))) (\<lambda>events.
     Ok (segs, manifest, rep\<lparr>sr_events := events\<rparr>)))))))))"

text \<open>\<open>Store::seal\<close>; the directory is returned for a successful call.\<close>

definition store_seal :: "(bytes \<Rightarrow> u32) \<Rightarrow> (usize \<Rightarrow> bool) \<Rightarrow> store \<Rightarrow> bytes \<Rightarrow> directory
    \<Rightarrow> (seal_report \<times> directory, storage_error) result" where
  "store_seal crc alloc s wal segs =
     (if st_poisoned s then Err StPoisoned else
      rbind (load_if_exists crc (segs manifest_name)) (\<lambda>mf.
      let manifest = (case mf of Some m \<Rightarrow> m
            | None \<Rightarrow> manifest_new (wh_database (st_header s)) (wh_source (st_header s)) (wh_epoch (st_header s))) in
      rbind (fold_result (seal_frame crc alloc s wal) [0..<length (st_frames s)]
               (segs, manifest, \<lparr>sr_segments_created = 0, sr_segments_existing = 0, sr_events = 0\<rparr>)) (\<lambda>(segs, manifest, rep).
      Ok (rep, segs(manifest_name \<mapsto> manifest_encode crc manifest)))))"

subsection \<open>Retirement\<close>

record retirement_report =
  rt_frames_retired :: usize
  rt_events_retired :: u64
  rt_bytes_freed :: u64
  rt_retired_up_to :: "u64 option"

text \<open>The number of leading frames that are sealed and not held.\<close>

fun eligible_count :: "segment_manifest \<Rightarrow> reference_hold list \<Rightarrow> frame_location list \<Rightarrow> (usize, storage_error) result" where
  "eligible_count m holds [] = Ok 0"
| "eligible_count m holds (f # fs) =
     rbind (frame_last f) (\<lambda>lst.
     if is_sequence_sealed m (fl_first f) \<and> is_sequence_sealed m lst
        \<and> \<not> list_ex (\<lambda>hold. list_ex (is_sequence_held hold) (map of_nat [unat (fl_first f)..<Suc (unat lst)])) holds
     then rbind (eligible_count m holds fs) (\<lambda>n. Ok (Suc n))
     else Ok 0)"

fun read_frames :: "bytes \<Rightarrow> frame_location list \<Rightarrow> (bytes, storage_error) result" where
  "read_frames wal [] = Ok []"
| "read_frames wal (f # fs) =
     (if unat (fl_offset f) + fl_length f > length wal then Err (StIo ''read remaining WAL frame'')
      else rbind (read_frames wal fs) (\<lambda>rest. Ok (slice wal (unat (fl_offset f)) (unat (fl_offset f) + fl_length f) @ rest)))"

fun move_frames :: "u64 \<Rightarrow> frame_location list \<Rightarrow> (frame_location list, storage_error) result" where
  "move_frames offset [] = Ok []"
| "move_frames offset (f # fs) =
     rbind (add_or_panic offset (of_nat (fl_length f))) (\<lambda>next_offset.
     rbind (move_frames next_offset fs) (\<lambda>rest. Ok (f\<lparr>fl_offset := offset\<rparr> # rest)))"

definition sum_counts :: "frame_location list \<Rightarrow> (u64, storage_error) result" where
  "sum_counts fs = fold_result (\<lambda>f acc. add_or_panic acc (of_nat (fl_count f))) fs 0"

text \<open>The rewritten log, the store, the report and the manifest to save; \<open>None\<close> if there is nothing to do.\<close>

definition retire_compact :: "(bytes \<Rightarrow> u32) \<Rightarrow> reference_hold list \<Rightarrow> store \<Rightarrow> bytes \<Rightarrow> segment_manifest
    \<Rightarrow> ((bytes \<times> store \<times> retirement_report \<times> segment_manifest) option, storage_error) result" where
  "retire_compact crc holds s wal m =
     rbind (eligible_count m holds (st_frames s)) (\<lambda>n.
     if n = 0 then Ok None else
     let retired = take n (st_frames s); remaining = drop n (st_frames s) in
     rbind (frame_last (last retired)) (\<lambda>highest.
     rbind (sum_counts retired) (\<lambda>events.
     rbind (read_frames wal remaining) (\<lambda>remaining_bytes.
     let header_len = length (encode_wal_header crc (st_header s));
         new_len = header_len + length remaining_bytes;
         bytes_freed = saturating_sub (st_end_offset s) (of_nat new_len);
         wal' = take header_len wal @ remaining_bytes in
     rbind (move_frames (of_nat header_len) remaining) (\<lambda>frames.
     if length (st_summaries s) < n then Panic else
     Ok (Some (wal', s\<lparr>st_frames := frames, st_summaries := drop n (st_summaries s), st_end_offset := of_nat new_len\<rparr>,
       \<lparr>rt_frames_retired = n, rt_events_retired = events, rt_bytes_freed = bytes_freed, rt_retired_up_to = Some highest\<rparr>,
       m\<lparr>mf_retired_up_to_sequence := Some highest\<rparr>)))))))"

definition store_retire :: "(bytes \<Rightarrow> u32) \<Rightarrow> reference_hold list \<Rightarrow> store \<Rightarrow> bytes \<Rightarrow> directory
    \<Rightarrow> (retirement_report \<times> store \<times> bytes \<times> directory, storage_error) result" where
  "store_retire crc holds s wal segs =
     (if st_poisoned s then Err StPoisoned else
      rbind (load_if_exists crc (segs manifest_name)) (\<lambda>mf. case mf of
        None \<Rightarrow> Ok (\<lparr>rt_frames_retired = 0, rt_events_retired = 0, rt_bytes_freed = 0, rt_retired_up_to = None\<rparr>, s, wal, segs)
      | Some m \<Rightarrow>
         rbind (retire_compact crc holds s wal m) (\<lambda>c. case c of
           None \<Rightarrow> Ok (\<lparr>rt_frames_retired = 0, rt_events_retired = 0, rt_bytes_freed = 0,
                         rt_retired_up_to = mf_retired_up_to_sequence m\<rparr>, s, wal, segs)
         | Some (wal', s', rep, m') \<Rightarrow> Ok (rep, s', wal', segs(manifest_name \<mapsto> manifest_encode crc m')))))"

end
