(* ===== verification/Store_Retire.thy ===== *)
theory Store_Retire
  imports Store_Seal
begin

section \<open>Sealing and retirement keep every event readable\<close>

text \<open>
  After a successful seal every batch is in a segment file that the manifest lists. Retirement then moves
  the front of the log out of it: the events of the retired frames are read from the segments, the others
  from the compacted log, and reopening continues after the last retired sequence.
\<close>

subsection \<open>The frames of a list of batches\<close>

fun frames_of :: "(bytes \<Rightarrow> u32) \<Rightarrow> stored_event list list \<Rightarrow> store \<Rightarrow> frame_location list" where
  "frames_of crc [] t = []"
| "frames_of crc (rs # bs) t = new_frame crc rs t # frames_of crc bs (index_batch crc rs t)"

lemma st_frames_fold: "st_frames (fold (index_batch crc) bs t) = st_frames t @ frames_of crc bs t"
  by (induction bs arbitrary: t) (simp_all add: index_batch_def)

lemma frames_of_append: "frames_of crc (as @ bs) t = frames_of crc as t @ frames_of crc bs (fold (index_batch crc) as t)"
  by (induction as arbitrary: t) simp_all

lemma length_frames_of [simp]: "length (frames_of crc bs t) = length bs"
  by (induction bs arbitrary: t) simp_all

text \<open>Two stores with the same next sequence index the same batches by frames that differ in the offset only.\<close>

definition unplaced :: "frame_location \<Rightarrow> frame_location" where
  "unplaced f = f\<lparr>fl_offset := 0\<rparr>"

lemma frames_of_unplaced:
  "st_next_sequence t = st_next_sequence u \<Longrightarrow> map unplaced (frames_of crc bs t) = map unplaced (frames_of crc bs u)"
  by (induction bs arbitrary: t u) (simp_all add: unplaced_def new_frame_def index_batch_def)

lemma move_frames_of:
  "batches_ok crc t bs \<Longrightarrow> map unplaced fs = map unplaced (frames_of crc bs t) \<Longrightarrow>
     move_frames (st_end_offset t) fs = Ok (frames_of crc bs t)"
proof (induction bs arbitrary: t fs)
  case (Cons rs bs)
  obtain f fs' where fs: "fs = f # fs'" using Cons.prems(2) by (cases fs) auto
  have uf: "unplaced f = unplaced (new_frame crc rs t)" using Cons.prems(2) by (simp add: fs)
  then have f: "f\<lparr>fl_offset := st_end_offset t\<rparr> = new_frame crc rs t" "fl_length f = length (batch_bytes crc rs)"
    by (cases f; simp add: unplaced_def new_frame_def)+
  have ok: "batch_ok crc t rs" using Cons.prems(1) by simp
  have "length (batch_bytes crc rs) < 2 ^ 32" using ok batch_bytes_frame_length(3) by (auto simp: batch_ok_def)
  then have "checked_add (st_end_offset t) (of_nat (length (batch_bytes crc rs))) = Some (st_end_offset (index_batch crc rs t))"
    using ok by (simp add: checked_add_def batch_ok_def index_batch_def)
  then show ?case using Cons.IH [of "index_batch crc rs t" fs'] Cons.prems f by (simp add: fs add_or_panic_def)
qed simp

lemma read_frames_of:
  "batches_ok crc t bs \<Longrightarrow> length pre = unat (st_end_offset t) \<Longrightarrow>
     read_frames (pre @ concat (map (batch_bytes crc) bs)) (frames_of crc bs t) = Ok (concat (map (batch_bytes crc) bs))"
proof (induction bs arbitrary: t pre)
  case (Cons rs bs)
  have ok: "batch_ok crc t rs" using Cons.prems(1) by simp
  have "length (pre @ batch_bytes crc rs) = unat (st_end_offset (index_batch crc rs t))"
    using Cons.prems(2) batch_ok_end [OF ok] by simp
  then have "read_frames ((pre @ batch_bytes crc rs) @ concat (map (batch_bytes crc) bs)) (frames_of crc bs (index_batch crc rs t))
      = Ok (concat (map (batch_bytes crc) bs))"
    using Cons.IH [of "index_batch crc rs t" "pre @ batch_bytes crc rs"] Cons.prems(1) by simp
  then show ?case using Cons.prems(2) by (simp add: new_frame_def slice_def)
qed simp

subsection \<open>Restarting a run in the middle\<close>

lemma validate_run_None: "validate_run h sq k rs = Ok x \<Longrightarrow> rs \<noteq> [] \<Longrightarrow> validate_run h sq None rs = Ok x"
proof (cases rs)
  case (Cons r rs')
  assume "validate_run h sq k rs = Ok x"
  moreover have "validate_record h sq k r = Ok u \<Longrightarrow> validate_record h sq None r = Ok u" for u
    by (simp add: validate_record_Ok)
  ultimately show ?thesis by (auto simp: Cons result_ok)
qed simp

lemma batches_ok_restart:
  "batches_ok crc t bs \<Longrightarrow> st_header u = st_header t \<Longrightarrow> st_limits u = st_limits t \<Longrightarrow> st_next_sequence u = st_next_sequence t \<Longrightarrow>
     st_last_known u = None \<or> st_last_known u = st_last_known t \<Longrightarrow> unat (st_end_offset u) \<le> unat (st_end_offset t) \<Longrightarrow>
     batches_ok crc u bs"
proof (induction bs arbitrary: t u)
  case (Cons rs bs)
  have ok: "batch_ok crc t rs" using Cons.prems(1) by simp
  have ne: "rs \<noteq> []" using ok by (simp add: batch_ok_def)
  have "validate_run (st_header u) (st_next_sequence u) (st_last_known u) rs
      = Ok (st_next_sequence (index_batch crc rs t), st_last_known (index_batch crc rs t))"
    using Cons.prems(5)
  proof
    assume "st_last_known u = None"
    then show ?thesis using validate_run_None [OF batch_ok_run [OF ok] ne] unfolding Cons.prems(2,4) by simp
  next
    assume "st_last_known u = st_last_known t"
    then show ?thesis using batch_ok_run [OF ok] unfolding Cons.prems(2,4) by simp
  qed
  then have oku: "batch_ok crc u rs" using ok Cons.prems(3,6) unfolding batch_ok_def by simp
  moreover have "batches_ok crc (index_batch crc rs u) bs"
  proof (rule Cons.IH [of "index_batch crc rs t"])
    show "batches_ok crc (index_batch crc rs t) bs" using Cons.prems(1) by simp
    show "st_header (index_batch crc rs u) = st_header (index_batch crc rs t)" using Cons.prems(2) by simp
    show "st_limits (index_batch crc rs u) = st_limits (index_batch crc rs t)" using Cons.prems(3) by simp
    show "st_next_sequence (index_batch crc rs u) = st_next_sequence (index_batch crc rs t)"
      using Cons.prems(4) by (simp add: index_batch_def)
    show "st_last_known (index_batch crc rs u) = None \<or> st_last_known (index_batch crc rs u) = st_last_known (index_batch crc rs t)"
      by (simp add: index_batch_def)
    show "unat (st_end_offset (index_batch crc rs u)) \<le> unat (st_end_offset (index_batch crc rs t))"
      using Cons.prems(6) batch_ok_end [OF ok] batch_ok_end [OF oku] by simp
  qed
  ultimately show ?case by simp
qed simp

definition batch_start :: "stored_event list list \<Rightarrow> nat \<Rightarrow> nat" where
  "batch_start bs n = length (concat (take n bs))"

text \<open>The log without its first \<open>n\<close> batches is a log that starts at their end.\<close>

lemma store_inv_drop:
  assumes inv: "store_inv crc h l 0 bs s wal" and n: "n \<le> length bs"
  defines "t \<equiv> fold (index_batch crc) (drop n bs) (fresh_store h l (of_nat (batch_start bs n)))"
  shows "store_inv crc h l (of_nat (batch_start bs n)) (drop n bs) t (log_bytes crc h (drop n bs))"
    "st_frames t = frames_of crc (drop n bs) (fresh_store h l (of_nat (batch_start bs n)))"
    "st_next_sequence t = st_next_sequence s" "n < length bs \<Longrightarrow> st_last_known t = st_last_known s"
proof -
  let ?u = "log_at crc h l 0 bs n" and ?v = "fresh_store h l (of_nat (batch_start bs n))"
  have s: "s = fold (index_batch crc) (drop n bs) ?u" "batches_ok crc ?u (drop n bs)"
    using inv batches_ok_append [of crc "fresh_store h l 0" "take n bs" "drop n bs"]
    by (simp_all add: store_inv_def log_at_def flip: fold_append [THEN fun_cong, unfolded comp_apply])
  have nu: "st_next_sequence ?u = of_nat (batch_start bs n)" using log_at_next [OF inv, of n] by (simp add: batch_start_def)
  have U: "st_header ?u = h" "st_limits ?u = l" "40 \<le> unat (st_end_offset ?u)"
    using store_inv_next [OF store_inv_take [OF inv, of n]] store_inv_end [OF store_inv_take [OF inv, of n]] inv
    by (simp_all add: log_bytes_def store_inv_def)
  have ok: "batches_ok crc ?v (drop n bs)"
    by (rule batches_ok_restart [OF s(2)]) (use U nu in simp_all)
  then show "store_inv crc h l (of_nat (batch_start bs n)) (drop n bs) t (log_bytes crc h (drop n bs))"
    using inv by (simp add: store_inv_def t_def)
  show "st_frames t = frames_of crc (drop n bs) ?v" by (simp add: t_def st_frames_fold)
  have nx: "st_next_sequence (fold (index_batch crc) cs w) = st_next_sequence w + of_nat (length (concat cs))" for cs w
    by (induction cs arbitrary: w) (simp_all add: index_batch_def algebra_simps)
  show "st_next_sequence t = st_next_sequence s" using nu by (simp add: t_def nx s(1))
  have lk: "cs \<noteq> [] \<Longrightarrow> st_last_known (fold (index_batch crc) cs w) = Some (et_known (se_times (last (last cs))))" for cs w
    by (induction cs rule: rev_induct) (simp_all add: index_batch_def)
  show "st_last_known t = st_last_known s" if "n < length bs"
    using lk [of "drop n bs"] that by (simp add: t_def s(1))
qed

subsection \<open>What a seal leaves in the directory\<close>

definition segment_of :: "wal_header \<Rightarrow> stored_event list \<Rightarrow> segment" where
  "segment_of h rs = \<lparr>sg_header = h, sg_records = rs\<rparr>"

definition batch_meta :: "(bytes \<Rightarrow> u32) \<Rightarrow> wal_header \<Rightarrow> stored_event list list \<Rightarrow> nat \<Rightarrow> sealed_segment_meta" where
  "batch_meta crc h bs i =
     (let first = of_nat (batch_start bs i); lst = of_nat (batch_start bs i + length (bs ! i) - 1); encoded = segment_bytes crc (segment_of h (bs ! i))
      in \<lparr>sm_first_sequence = first, sm_last_sequence = lst, sm_filename = range_name first lst ''.tsf'',
          sm_byte_length = of_nat (length encoded), sm_crc32 = crc encoded,
          sm_sealed_at_ticks = ts_ticks (et_valid (se_times (last (bs ! i))))\<rparr>)"

definition sealed_upto :: "(bytes \<Rightarrow> u32) \<Rightarrow> wal_header \<Rightarrow> limits \<Rightarrow> stored_event list list \<Rightarrow> nat \<Rightarrow> directory \<Rightarrow> segment_manifest \<Rightarrow> bool" where
  "sealed_upto crc h l bs k segs m \<longleftrightarrow>
     m = \<lparr>mf_database = wh_database h, mf_source = wh_source h, mf_epoch = wh_epoch h,
          mf_sealed_segments = map (batch_meta crc h bs) [0..<k], mf_retired_up_to_sequence = None\<rparr>
   \<and> (\<forall>i < k. segment_within l (segment_of h (bs ! i))
          \<and> segs (sm_filename (batch_meta crc h bs i)) = Some (segment_bytes crc (segment_of h (bs ! i))))"

lemma batch_start_Suc: "i < length bs \<Longrightarrow> batch_start bs (Suc i) = batch_start bs i + length (bs ! i)"
  by (simp add: batch_start_def concat_take_Suc)

lemma batch_start_mono: "i \<le> j \<Longrightarrow> batch_start bs i \<le> batch_start bs j"
  by (simp add: batch_start_def length_concat_take_mono)

lemma batch_start_all [simp]: "batch_start bs (length bs) = length (concat bs)"
  by (simp add: batch_start_def)

text \<open>Bounds of one batch of a log that starts at 0.\<close>

lemma batch_range:
  assumes inv: "store_inv crc h l 0 bs s wal" and i: "i < length bs"
  shows "0 < length (bs ! i)" "batch_start bs i + length (bs ! i) \<le> length (concat bs)" "length (concat bs) < 2 ^ 64"
    "fl_first (st_frames s ! i) = of_nat (batch_start bs i)"
    "frame_last (st_frames s ! i) = Ok (of_nat (batch_start bs i + length (bs ! i) - 1))"
proof -
  let ?a = "batch_start bs i" and ?n = "length (bs ! i)"
  show n: "0 < ?n" using store_inv_nonempty [OF inv i] by simp
  show le: "?a + ?n \<le> length (concat bs)" using batch_start_mono [of "Suc i" "length bs" bs] batch_start_Suc [OF i] i by simp
  show l64: "length (concat bs) < 2 ^ 64" using store_inv_run(2) [OF inv] by simp
  show f: "fl_first (st_frames s ! i) = of_nat ?a" using frame_first(1) [OF inv i] by (simp add: batch_start_def)
  have u: "unat (of_nat ?a :: u64) = ?a" "unat (of_nat ?n :: u64) = ?n" "unat (of_nat (?a + ?n) :: u64) = ?a + ?n"
    using le l64 by (intro unat_of_nat_small; simp)+
  have "add_or_panic (of_nat ?a :: u64) (of_nat ?n) = (Ok (of_nat (?a + ?n)) :: (_, storage_error) result)"
    using u le l64 by (simp add: add_or_panic_def checked_add_def)
  moreover have "(1 :: u64) \<le> of_nat (?a + ?n)" unfolding word_le_nat_alt u(3) using n by (simp del: length_greater_0_conv)
  moreover have "(of_nat (?a + ?n) :: u64) - 1 = of_nat (?a + ?n - 1)"
  proof -
    obtain d where d: "?a + ?n = Suc d" using n by (cases "?a + ?n") auto
    show ?thesis unfolding d by simp
  qed
  ultimately show "frame_last (st_frames s ! i) = Ok (of_nat (?a + ?n - 1))"
    using f frame_first(3) [OF inv i] by (simp add: frame_last_def sub_or_panic_def)
qed

lemma unat_batch_meta:
  assumes inv: "store_inv crc h l 0 bs s wal" and i: "i < length bs"
  shows "unat (sm_first_sequence (batch_meta crc h bs i)) = batch_start bs i"
    "unat (sm_last_sequence (batch_meta crc h bs i)) = batch_start bs i + length (bs ! i) - 1"
  using batch_range [OF inv i] by (simp_all add: batch_meta_def Let_def del: of_nat_add)

lemma register_next:
  assumes inv: "store_inv crc h l 0 bs s wal" and k: "k < length bs"
    and m: "mf_sealed_segments m = map (batch_meta crc h bs) [0..<k]"
  shows "mf_sealed_segments (manifest_register (batch_meta crc h bs k) m) = map (batch_meta crc h bs) [0..<Suc k]"
proof -
  let ?key = "\<lambda>s. (sm_first_sequence s, sm_last_sequence s)"
  have lt: "unat (sm_first_sequence (batch_meta crc h bs i)) < unat (sm_first_sequence (batch_meta crc h bs j))" if "i < j" "j \<le> k" for i j
    using unat_batch_meta(1) [OF inv, of i] unat_batch_meta(1) [OF inv, of j] batch_start_mono [of "Suc i" j bs]
      batch_start_Suc [of i bs] batch_range(1) [OF inv, of i] that k by (simp del: length_greater_0_conv)
  have "replace_first (same_range (batch_meta crc h bs k)) (batch_meta crc h bs k) (mf_sealed_segments m) = None"
    using lt [of _ k] by (force simp: m replace_first_None same_range_def)
  moreover have "sorted (map ?key (map (batch_meta crc h bs) [0..<Suc k]))"
  proof (unfold sorted_iff_nth_mono, intro allI impI)
    fix i j assume ij: "i \<le> j" "j < length (map ?key (map (batch_meta crc h bs) [0..<Suc k]))"
    then have "i = j \<or> sm_first_sequence (batch_meta crc h bs i) < sm_first_sequence (batch_meta crc h bs j)"
      using lt [of i j] by (cases "i = j") (auto simp: word_less_nat_alt)
    moreover have "map ?key (map (batch_meta crc h bs) [0..<Suc k]) ! a = ?key (batch_meta crc h bs a)" if "a \<le> k" for a
      using that unfolding map_map by (subst nth_map) (simp_all del: upt_Suc)
    ultimately show "map ?key (map (batch_meta crc h bs) [0..<Suc k]) ! i \<le> map ?key (map (batch_meta crc h bs) [0..<Suc k]) ! j"
      using ij by (auto simp: less_eq_prod_def)
  qed
  ultimately show ?thesis by (simp add: manifest_register_def m sort_key_sorted del: sorted_map)
qed

lemma segment_roundtrip:
  assumes "segment_within l (segment_of h rs)" "wf_database_id (wh_database h)" "\<forall>n. alloc n"
  shows "decode_segment crc alloc (segment_bytes crc (segment_of h rs)) l = Ok (segment_of h rs)"
    "length (segment_bytes crc (segment_of h rs)) \<le> max_segment_bytes l"
proof -
  have "wf_database_id (wh_database (sg_header (segment_of h rs)))" using assms(2) by (simp add: segment_of_def)
  then show "decode_segment crc alloc (segment_bytes crc (segment_of h rs)) l = Ok (segment_of h rs)"
    using decode_segment_Ok [OF assms(3)] assms(1) by blast
  show "length (segment_bytes crc (segment_of h rs)) \<le> max_segment_bytes l"
    using assms(1,2) by (simp add: segment_of_def segment_within_def segment_bytes_def Let_def length_batch_bytes)
qed

lemma publish_segment_Ok:
  assumes "publish_segment crc alloc s records encoded filename segs rep = Ok (segs', rep')"
  shows "segs' filename = Some encoded" "segs x \<noteq> None \<Longrightarrow> segs' x = segs x"
  using assms by (auto simp: publish_segment_def read_bounded_file_def result_ok split: if_splits option.splits)

lemma publish_summary_Ok:
  assumes "publish_summary crc s i name segs = Ok segs'"
  shows "segs x \<noteq> None \<Longrightarrow> segs' x = segs x"
  using assms by (auto simp: publish_summary_def result_ok split: if_splits)

lemma seal_frame_step:
  assumes inv: "store_inv crc h l 0 bs s wal" and k: "k < length bs" and mem: "\<forall>n. alloc n"
    and st: "sealed_upto crc h l bs k segs m" and ok: "seal_frame crc alloc s wal k (segs, m, rep) = Ok (segs', m', rep')"
  shows "sealed_upto crc h l bs (Suc k) segs' m'"
proof -
  have S: "st_header s = h" "st_limits s = l" using store_inv_next [OF inv] by simp_all
  have ix: "index (st_frames s) k = (Ok (st_frames s ! k) :: (_, storage_error) result)"
    using store_inv_batch(4) [OF inv k] k by (simp add: index_def)
  note R = batch_range [OF inv k]
  let ?seg = "segment_of h (bs ! k)" and ?meta = "batch_meta crc h bs k"
  let ?first = "of_nat (batch_start bs k) :: u64" and ?lst = "of_nat (batch_start bs k + length (bs ! k) - 1) :: u64"
  obtain encoded segs1 rep1 where e: "encode_segment crc alloc h (bs ! k) l = Ok encoded"
    and p: "publish_segment crc alloc s (bs ! k) encoded (range_name ?first ?lst ''.tsf'') segs rep = Ok (segs1, rep1)"
    and q: "publish_summary crc s k (range_name ?first ?lst ''.tsm'') segs1 = Ok segs'"
    and m': "m' = manifest_register \<lparr>sm_first_sequence = ?first, sm_last_sequence = ?lst, sm_filename = range_name ?first ?lst ''.tsf'',
           sm_byte_length = of_nat (length encoded), sm_crc32 = crc encoded,
           sm_sealed_at_ticks = (if bs ! k = [] then 0 else ts_ticks (et_valid (se_times (last (bs ! k)))))\<rparr> m"
    using ok S unfolding seal_frame_def prod.case ix rbind.simps read_frame [OF inv k mem] R(4,5) Let_def
    by (auto simp: result_ok split: prod.splits)
  have w: "segment_within l ?seg" "encoded = segment_bytes crc ?seg" using e encode_segment_Ok [OF mem] by (auto simp: segment_of_def)
  have ne: "bs ! k \<noteq> []" using R(1) by simp
  have meta: "m' = manifest_register ?meta m" using m' w(2) ne by (simp add: batch_meta_def Let_def)
  have fn: "sm_filename ?meta = range_name ?first ?lst ''.tsf''" by (simp add: batch_meta_def Let_def)
  have keep: "segs' x = segs x" if "segs x \<noteq> None" for x
    using publish_segment_Ok(2) [OF p that] publish_summary_Ok [OF q] that by simp
  have "segs' (sm_filename ?meta) = Some (segment_bytes crc ?seg)"
    using publish_summary_Ok [OF q] publish_segment_Ok(1) [OF p] w(2) fn by simp
  moreover have "segs' (sm_filename (batch_meta crc h bs i)) = Some (segment_bytes crc (segment_of h (bs ! i)))" if "i < k" for i
    using st that keep by (auto simp: sealed_upto_def)
  ultimately show ?thesis
    using st w(1) meta register_next [OF inv k, of m]
    by (auto simp: sealed_upto_def less_Suc_eq manifest_register_def)
qed

lemma seal_spec:
  assumes inv: "store_inv crc h l 0 bs s wal" and mem: "\<forall>n. alloc n" and fresh: "segs0 manifest_name = None"
    and ok: "store_seal crc alloc s wal segs0 = Ok (rep, segs')"
  obtains segs m where "sealed_upto crc h l bs (length bs) segs m" "segs' = segs(manifest_name \<mapsto> manifest_encode crc m)"
proof -
  have S: "st_header s = h" "\<not> st_poisoned s" using store_inv_next [OF inv] by simp_all
  let ?m0 = "manifest_new (wh_database h) (wh_source h) (wh_epoch h)"
  have lenf: "length (st_frames s) = length bs"
    using inv index_batches_nth(1) [of crc "fresh_store h l 0" bs] by (simp add: store_inv_def)
  obtain segs m where f: "fold_result (seal_frame crc alloc s wal) [0..<length bs]
       (segs0, ?m0, \<lparr>sr_segments_created = 0, sr_segments_existing = 0, sr_events = 0\<rparr>) = Ok (segs, m, rep)"
    and s': "segs' = segs(manifest_name \<mapsto> manifest_encode crc m)"
    using ok S fresh lenf by (auto simp: store_seal_def result_ok Let_def)
  have run: "k + d = length bs \<Longrightarrow> sealed_upto crc h l bs k sg mm \<Longrightarrow>
      fold_result (seal_frame crc alloc s wal) [k..<length bs] (sg, mm, rp) = Ok (segs, m, rep) \<Longrightarrow> sealed_upto crc h l bs (length bs) segs m" for k d sg mm rp
  proof (induction d arbitrary: k sg mm rp)
    case (Suc d)
    then have k: "k < length bs" by simp
    from Suc.prems(3) k obtain sg1 mm1 rp1 where
      st: "seal_frame crc alloc s wal k (sg, mm, rp) = Ok (sg1, mm1, rp1)"
      "fold_result (seal_frame crc alloc s wal) [Suc k..<length bs] (sg1, mm1, rp1) = Ok (segs, m, rep)"
      by (auto simp: upt_rec [of k] result_ok)
    show ?case using Suc.IH [OF _ seal_frame_step [OF inv k mem Suc.prems(2) st(1)] st(2)] Suc.prems(1) by simp
  qed simp
  have "sealed_upto crc h l bs 0 segs0 ?m0" by (simp add: sealed_upto_def manifest_new_def)
  then have "sealed_upto crc h l bs (length bs) segs m" using run [of 0 "length bs"] f by simp
  then show thesis using that s' by blast
qed

subsection \<open>Reading from the segments\<close>

lemma dec_digits_ascii: "list_all (\<lambda>b. b < 0x80) (dec_digits k n)" "length (dec_digits k n) = k"
proof -
  have "(of_nat (48 + n mod 10) :: u8) < 0x80" for n :: nat
  proof -
    have "48 + n mod 10 < 58" by simp
    then have "unat (of_nat (48 + n mod 10) :: u8) = 48 + n mod 10" by (intro unat_of_nat_small) simp
    then show ?thesis using \<open>48 + n mod 10 < 58\<close> by (simp add: word_less_nat_alt)
  qed
  then show "list_all (\<lambda>b. b < 0x80) (dec_digits k n)" "length (dec_digits k n) = k"
    by (induction k arbitrary: n) (simp_all del: of_nat_add)
qed

lemma range_name_tsf: "length (range_name a b ''.tsf'') = 45" "utf8_valid (range_name a b ''.tsf'')"
proof -
  show "length (range_name a b ''.tsf'') = 45" by (simp add: range_name_def dec_digits_ascii(2) ascii_def)
  have "list_all (\<lambda>b. b < 0x80) (range_name a b ''.tsf'')"
    using dec_digits_ascii(1) [of 20 "unat a"] dec_digits_ascii(1) [of 20 "unat b"]
    by (simp add: range_name_def ascii_def del: dec_digits.simps)
  then show "utf8_valid (range_name a b ''.tsf'')" by (rule utf8_valid_ascii)
qed

lemma tsf_not_manifest: "sm_filename (batch_meta crc h bs i) \<noteq> manifest_name"
proof
  assume "sm_filename (batch_meta crc h bs i) = manifest_name"
  then have "length (sm_filename (batch_meta crc h bs i)) = length manifest_name" by simp
  then show False by (simp add: batch_meta_def Let_def range_name_tsf(1) manifest_name_def ascii_def)
qed

lemma sealed_manifest_loads:
  assumes "sealed_upto crc h l bs (length bs) segs m" "wf_database_id (wh_database h)" "length bs < 2 ^ 32"
  shows "load_if_exists crc (Some (manifest_encode crc (m\<lparr>mf_retired_up_to_sequence := r\<rparr>))) = Ok (Some (m\<lparr>mf_retired_up_to_sequence := r\<rparr>))"
proof -
  have "manifest_encodable (m\<lparr>mf_retired_up_to_sequence := r\<rparr>)"
    using assms by (auto simp: manifest_encodable_def sealed_upto_def list_all_iff meta_encodable_def batch_meta_def Let_def range_name_tsf)
  then show ?thesis by (simp add: load_if_exists_def manifest_decode_encode)
qed

lemma find_sealed:
  assumes inv: "store_inv crc h l 0 bs s wal" and m: "mf_sealed_segments m = map (batch_meta crc h bs) [0..<length bs]"
    and i: "i < length bs" and n: "batch_start bs i \<le> n" "n < batch_start bs i + length (bs ! i)"
  shows "find_segment_for_sequence m (of_nat n) = Some (batch_meta crc h bs i)" "is_sequence_sealed m (of_nat n)"
proof -
  have "n < 2 ^ 64" using n(2) batch_range [OF inv i] by simp
  then have u: "unat (of_nat n :: u64) = n" by simp
  have hit: "segment_has (of_nat n) (batch_meta crc h bs j) \<longleftrightarrow> j = i" if j: "j < length bs" for j
  proof -
    have "segment_has (of_nat n) (batch_meta crc h bs j) \<longleftrightarrow> batch_start bs j \<le> n \<and> n \<le> batch_start bs j + length (bs ! j) - 1"
      using unat_batch_meta [OF inv j] u by (simp add: segment_has_def word_le_nat_alt)
    also have "\<dots> \<longleftrightarrow> batch_start bs j \<le> n \<and> n < batch_start bs (Suc j)"
      unfolding batch_start_Suc [OF j] using batch_range(1) [OF inv j] by linarith
    also have "\<dots> \<longleftrightarrow> j = i"
    proof
      assume a: "batch_start bs j \<le> n \<and> n < batch_start bs (Suc j)"
      have "\<not> j < i" using a n(1) batch_start_mono [of "Suc j" i bs] by auto
      moreover have "\<not> i < j" using a n(2) batch_start_mono [of "Suc i" j bs] batch_start_Suc [OF i] by auto
      ultimately show "j = i" by simp
    qed (use n batch_start_Suc [OF i] in auto)
    finally show ?thesis .
  qed
  then show "find_segment_for_sequence m (of_nat n) = Some (batch_meta crc h bs i)"
    using find_distinct [of i "map (batch_meta crc h bs) [0..<length bs]" "segment_has (of_nat n)"] i
    by (simp add: find_segment_for_sequence_def m)
  show "is_sequence_sealed m (of_nat n)"
    using hit [OF i] i by (auto simp: is_sequence_sealed_def m list_ex_iff)
qed

lemma read_sealed:
  assumes inv: "store_inv crc h l 0 bs s wal" and mem: "\<forall>n. alloc n" and few: "length bs < 2 ^ 32"
    and sealed: "sealed_upto crc h l bs (length bs) segs m" and n: "n < length (concat bs)"
  shows "read_event_from_segment crc alloc (segs(manifest_name \<mapsto> manifest_encode crc (m\<lparr>mf_retired_up_to_sequence := r\<rparr>))) l (of_nat n)
     = Ok (Some (concat bs ! n))"
proof -
  obtain i where i: "i < length bs" "batch_start bs i \<le> n" "n < batch_start bs i + length (bs ! i)"
    using concat_position [OF n] unfolding batch_start_def by blast
  have wf: "wf_database_id (wh_database h)" using inv by (simp add: store_inv_def)
  have m: "mf_sealed_segments (m\<lparr>mf_retired_up_to_sequence := r\<rparr>) = map (batch_meta crc h bs) [0..<length bs]"
    using sealed by (simp add: sealed_upto_def)
  have fc: "segs (sm_filename (batch_meta crc h bs i)) = Some (segment_bytes crc (segment_of h (bs ! i)))" "segment_within l (segment_of h (bs ! i))"
    using sealed i(1) by (auto simp: sealed_upto_def)
  have al: "alloc k" for k using mem by blast
  have rd: "read_bounded_file alloc (Some (segment_bytes crc (segment_of h (bs ! i)))) (max_segment_bytes l) = Ok (segment_bytes crc (segment_of h (bs ! i)))"
    using segment_roundtrip(2) [OF fc(2) wf mem, of crc] al by (simp add: read_bounded_file_def try_reserve_def)
  have nth: "bs ! i ! j = concat bs ! (batch_start bs i + j)" if "j < length (bs ! i)" for j
    using concat_slice [OF i(1)] that batch_range(2) [OF inv i(1)] unfolding batch_start_def
    by (metis add_leD1 nth_drop nth_take slice_def diff_add_inverse)
  have sq: "eid_sequence (se_id (concat bs ! j)) = of_nat j" if "j < length (concat bs)" for j
    using log_numbered [OF inv] that by (simp add: numbered_def)
  have "List.find (\<lambda>e. eid_sequence (se_id e) = of_nat n) (bs ! i) = Some (bs ! i ! (n - batch_start bs i))"
  proof (rule find_distinct)
    show "n - batch_start bs i < length (bs ! i)" using i by simp
    fix j assume j: "j < length (bs ! i)"
    have lt: "batch_start bs i + j < length (concat bs)" using j batch_range(2) [OF inv i(1)] by simp
    have "unat (of_nat (batch_start bs i + j) :: u64) = batch_start bs i + j" "unat (of_nat n :: u64) = n"
      using lt n batch_range(3) [OF inv i(1)] by (intro unat_of_nat_small; simp)+
    then have "(of_nat (batch_start bs i + j) :: u64) = of_nat n \<longleftrightarrow> batch_start bs i + j = n" unfolding word_unat_eq_iff by simp
    also have "\<dots> \<longleftrightarrow> j = n - batch_start bs i" using i(2) by auto
    finally show "eid_sequence (se_id (bs ! i ! j)) = of_nat n \<longleftrightarrow> j = n - batch_start bs i"
      unfolding nth [OF j] sq [OF lt] .
  qed
  moreover have "bs ! i ! (n - batch_start bs i) = concat bs ! n" using nth [of "n - batch_start bs i"] i by simp
  ultimately show ?thesis
    using sealed_manifest_loads [OF sealed wf few, of r] find_sealed(1) [OF inv m i] tsf_not_manifest [of crc h bs i] fc(1) rd
      segment_roundtrip(1) [OF fc(2) wf mem, of crc]
    by (simp add: read_event_from_segment_def segment_of_def)
qed

subsection \<open>What a retirement does\<close>

lemma eligible_frames:
  assumes "\<forall>f \<in> set fs. \<exists>lst. frame_last f = Ok lst"
  shows "\<exists>c \<le> length fs. eligible_count m holds fs = Ok c
    \<and> (\<forall>i < c. \<forall>lst n hold. frame_last (fs ! i) = Ok lst \<longrightarrow> unat (fl_first (fs ! i)) \<le> n \<longrightarrow> n \<le> unat lst \<longrightarrow> hold \<in> set holds
         \<longrightarrow> \<not> is_sequence_held hold (of_nat n))"
  using assms
proof (induction fs)
  case (Cons f fs)
  obtain lst where lst: "frame_last f = Ok lst" using Cons.prems by auto
  obtain c where c: "c \<le> length fs" "eligible_count m holds fs = Ok c"
    "\<forall>i < c. \<forall>lst n hold. frame_last (fs ! i) = Ok lst \<longrightarrow> unat (fl_first (fs ! i)) \<le> n \<longrightarrow> n \<le> unat lst \<longrightarrow> hold \<in> set holds
         \<longrightarrow> \<not> is_sequence_held hold (of_nat n)"
    using Cons by auto
  show ?case
  proof (cases "is_sequence_sealed m (fl_first f) \<and> is_sequence_sealed m lst
        \<and> \<not> list_ex (\<lambda>hold. list_ex (is_sequence_held hold) (map of_nat [unat (fl_first f)..<Suc (unat lst)])) holds")
    case True
    then have "\<forall>n hold. unat (fl_first f) \<le> n \<longrightarrow> n \<le> unat lst \<longrightarrow> hold \<in> set holds \<longrightarrow> \<not> is_sequence_held hold (of_nat n)"
      by (auto simp: list_ex_iff simp del: upt_Suc)
    then show ?thesis using c lst True
      by (intro exI [of _ "Suc c"]) (auto simp: less_Suc_eq_0_disj simp del: upt_Suc)
  next
    case False
    then show ?thesis using lst by (intro exI [of _ 0]) (auto simp del: upt_Suc)
  qed
qed simp

lemma sum_counts_Ok: "sum_list (map fl_count fs) < 2 ^ 64 \<Longrightarrow> sum_counts fs = Ok (of_nat (sum_list (map fl_count fs)))"
proof -
  have "unat a + sum_list (map fl_count fs) < 2 ^ 64 \<Longrightarrow>
      fold_result (\<lambda>f acc. add_or_panic acc (of_nat (fl_count f))) fs a
        = (Ok (a + of_nat (sum_list (map fl_count fs))) :: (_, storage_error) result)" for a :: u64
  proof (induction fs arbitrary: a)
    case (Cons f fs)
    have u: "unat (of_nat (fl_count f) :: u64) = fl_count f" using Cons.prems by (intro unat_of_nat_small) simp
    have "unat (a + of_nat (fl_count f)) = unat a + fl_count f" using Cons.prems unat_add_small [of a "fl_count f"] by simp
    then show ?case using Cons.IH [of "a + of_nat (fl_count f)"] Cons.prems u
      by (simp add: add_or_panic_def checked_add_def add.assoc)
  qed simp
  from this [of 0] show "sum_list (map fl_count fs) < 2 ^ 64 \<Longrightarrow> ?thesis" by (simp add: sum_counts_def)
qed

lemma batch_start_sum: "batch_start bs c = sum_list (map length (take c bs))"
  by (simp add: batch_start_def length_concat)

lemma retire_spec:
  assumes inv: "store_inv crc h l 0 bs s wal"
  obtains c where "c \<le> length bs" "eligible_count m holds (st_frames s) = Ok c" "\<forall>n < batch_start bs c. \<forall>hold \<in> set holds. \<not> is_sequence_held hold (of_nat n)"
    "c = 0 \<longrightarrow> retire_compact crc holds s wal m = Ok None"
    "0 < c \<longrightarrow> (\<exists>sums freed. retire_compact crc holds s wal m = Ok (Some (log_bytes crc h (drop c bs),
        (fold (index_batch crc) (drop c bs) (fresh_store h l (of_nat (batch_start bs c))))\<lparr>st_summaries := sums, st_last_known := st_last_known s\<rparr>,
        \<lparr>rt_frames_retired = c, rt_events_retired = of_nat (batch_start bs c), rt_bytes_freed = freed,
          rt_retired_up_to = Some (of_nat (batch_start bs c - 1))\<rparr>,
        m\<lparr>mf_retired_up_to_sequence := Some (of_nat (batch_start bs c - 1))\<rparr>)))"
proof -
  have lenf: "length (st_frames s) = length bs" "length (st_summaries s) = length bs"
    using inv index_batches_nth [of crc "fresh_store h l 0" bs] by (simp_all add: store_inv_def)
  have fl: "\<forall>f \<in> set (st_frames s). \<exists>lst. frame_last f = Ok lst"
    using batch_range(5) [OF inv] lenf by (auto simp: in_set_conv_nth)
  obtain c where c: "c \<le> length bs" "eligible_count m holds (st_frames s) = Ok c"
    and free: "\<forall>i < c. \<forall>lst n hold. frame_last (st_frames s ! i) = Ok lst \<longrightarrow> unat (fl_first (st_frames s ! i)) \<le> n \<longrightarrow> n \<le> unat lst \<longrightarrow> hold \<in> set holds
         \<longrightarrow> \<not> is_sequence_held hold (of_nat n)"
    using eligible_frames [OF fl, of m holds] lenf by auto
  have nohold: "\<not> is_sequence_held hold (of_nat n)" if n: "n < batch_start bs c" and hold: "hold \<in> set holds" for n hold
  proof -
    obtain i where i: "i < c" "batch_start bs i \<le> n" "n < batch_start bs i + length (bs ! i)"
      using concat_position [of n "take c bs"] n c(1) unfolding batch_start_def by (auto simp: min_def split: if_splits)
    have ib: "i < length bs" using i c by simp
    note R = batch_range [OF inv ib]
    have "unat (fl_first (st_frames s ! i)) \<le> n" using R i by simp
    moreover have "n \<le> unat (of_nat (batch_start bs i + length (bs ! i) - 1) :: u64)"
    proof -
      have "batch_start bs i + length (bs ! i) - 1 < 2 ^ 64" using R(2,3) by linarith
      then have "unat (of_nat (batch_start bs i + length (bs ! i) - 1) :: u64) = batch_start bs i + length (bs ! i) - 1"
        by (intro unat_of_nat_small) simp
      then show ?thesis using i(3) by linarith
    qed
    ultimately show ?thesis using free i(1) R(5) hold by blast
  qed
  let ?v = "fresh_store h l (of_nat (batch_start bs c))" and ?cs = "drop c bs"
  let ?t = "fold (index_batch crc) ?cs ?v"
  have S: "st_header s = h" "st_limits s = l" "\<not> st_poisoned s" using store_inv_next [OF inv] by simp_all
  have wf: "wf_database_id (wh_database h)" using inv by (simp add: store_inv_def)
  note D = store_inv_drop [OF inv c(1)]
  have ok: "batches_ok crc ?v ?cs" using D(1) by (simp add: store_inv_def)
  let ?u = "log_at crc h l 0 bs c"
  have s: "s = fold (index_batch crc) ?cs ?u" "batches_ok crc ?u ?cs"
    using inv batches_ok_append [of crc "fresh_store h l 0" "take c bs" "drop c bs"]
    by (simp_all add: store_inv_def log_at_def flip: fold_append [THEN fun_cong, unfolded comp_apply])
  have fu: "length (st_frames ?u) = c"
    using index_batches_nth(1) [of crc "fresh_store h l 0" "take c bs"] store_inv_take [OF inv, of c] c(1)
    by (simp add: store_inv_def log_at_def)
  have rem: "drop c (st_frames s) = frames_of crc ?cs ?u" using st_frames_fold [of crc ?cs ?u] s(1) fu by simp
  have nu: "st_next_sequence ?u = of_nat (batch_start bs c)" using log_at_next [OF inv, of c] by (simp add: batch_start_def)
  have mv: "move_frames 40 (frames_of crc ?cs ?u) = Ok (st_frames ?t)"
    using move_frames_of [OF ok frames_of_unplaced [of ?u ?v crc ?cs]] nu D(2) by (simp add: fresh_store_def)
  have wal: "wal = log_bytes crc h (take c bs) @ concat (map (batch_bytes crc) ?cs)"
    using inv by (simp add: store_inv_def log_bytes_def flip: concat_append map_append)
  have rd: "read_frames wal (frames_of crc ?cs ?u) = Ok (concat (map (batch_bytes crc) ?cs))"
    unfolding wal using store_inv_end [OF store_inv_take [OF inv, of c]] by (intro read_frames_of [OF s(2)]) simp
  have hd: "take 40 wal @ concat (map (batch_bytes crc) ?cs) = log_bytes crc h ?cs"
    using wal wf by (simp add: log_bytes_def)
  have eo: "of_nat (40 + length (concat (map (batch_bytes crc) ?cs))) = st_end_offset ?t"
  proof -
    have "unat (st_end_offset ?t) = 40 + length (concat (map (batch_bytes crc) ?cs))"
      using store_inv_end [OF D(1)] wf by (simp add: log_bytes_def)
    moreover have "of_nat (unat (st_end_offset ?t)) = st_end_offset ?t" by simp
    ultimately show ?thesis by (simp only:)
  qed
  have some: "\<exists>sums freed. retire_compact crc holds s wal m = Ok (Some (log_bytes crc h ?cs,
        ?t\<lparr>st_summaries := sums, st_last_known := st_last_known s\<rparr>,
        \<lparr>rt_frames_retired = c, rt_events_retired = of_nat (batch_start bs c), rt_bytes_freed = freed,
          rt_retired_up_to = Some (of_nat (batch_start bs c - 1))\<rparr>,
        m\<lparr>mf_retired_up_to_sequence := Some (of_nat (batch_start bs c - 1))\<rparr>))"
    if c0: "0 < c"
  proof -
    have i: "c - 1 < length bs" using c0 c(1) by simp
    have e: "batch_start bs (c - 1) + length (bs ! (c - 1)) = batch_start bs c" using batch_start_Suc [OF i] c0 by simp
    have lt: "frame_last (last (take c (st_frames s))) = Ok (of_nat (batch_start bs c - 1))"
      using batch_range(5) [OF inv i] c0 c(1) lenf unfolding e by (subst last_conv_nth) (auto simp: min_def)
    have cnt: "map fl_count (take c (st_frames s)) = map length (take c bs)"
      by (rule nth_equalityI) (use frame_first(3) [OF inv] c(1) lenf in auto)
    have sc: "sum_counts (take c (st_frames s)) = Ok (of_nat (batch_start bs c))"
      using sum_counts_Ok [of "take c (st_frames s)"] batch_range(3) [OF inv i] batch_start_mono [OF c(1), of bs]
      unfolding cnt batch_start_sum [symmetric] by simp
    have upd: "s\<lparr>st_frames := st_frames ?t, st_summaries := sm, st_end_offset := st_end_offset ?t\<rparr>
        = ?t\<lparr>st_summaries := sm, st_last_known := st_last_known s\<rparr>" for sm
      using S D(3) store_inv_next [OF D(1)] by (cases s; cases ?t) simp
    show ?thesis
      unfolding retire_compact_def c(2) rbind.simps lt sc rem rd Let_def S(1)
      using c0 c(1) lenf wf mv hd eo upd by (simp del: of_nat_add) blast
  qed
  have none: "c = 0 \<longrightarrow> retire_compact crc holds s wal m = Ok None" using c(2) by (simp add: retire_compact_def)
  show thesis by (rule that [OF c _ none]) (use nohold some in blast)+
qed

end
