(* ===== verification/Store_Compaction.thy ===== *)
theory Store_Compaction
  imports Store_Retire
begin

section \<open>Compaction of the log: the stored events and the sequence numbers (\<open>temnion-storage\<close>)\<close>

text \<open>
  The end-to-end behaviour of \<open>seal\<close> followed by \<open>retire_wal\<close>: what is readable afterwards, in the same
  process and after reopening, and what a crash between the two writes of a retirement does.
\<close>

lemma check_frame_keep:
  "check_frame (s\<lparr>st_summaries := sums\<rparr>) first i known rs = check_frame s first i known rs"
  by (induction rs arbitrary: i known) simp_all

lemma read_frame_keep: "read_indexed_frame crc alloc (s\<lparr>st_summaries := sums\<rparr>) wal f = read_indexed_frame crc alloc s wal f"
  unfolding read_indexed_frame_def check_frame_keep by simp

lemma store_get_summaries: "store_get crc alloc segs (s\<lparr>st_summaries := sums\<rparr>) wal e = store_get crc alloc segs s wal e"
proof -
  have "frame_for_sequence (s\<lparr>st_summaries := sums\<rparr>) sq = frame_for_sequence s sq" for sq
    by (simp add: frame_for_sequence_def frame_index_for_sequence_def)
  then show ?thesis by (simp add: store_get_def read_frame_keep cong: option.case_cong)
qed

lemma event_ids:
  assumes inv: "store_inv crc h l 0 bs s wal" and n: "n < length (concat bs)"
  shows "se_id (concat bs ! n) = \<lparr>eid_source = wh_source h, eid_epoch = wh_epoch h, eid_sequence = of_nat n\<rparr>"
    "unat (of_nat n :: u64) = n"
proof -
  show "se_id (concat bs ! n) = \<lparr>eid_source = wh_source h, eid_epoch = wh_epoch h, eid_sequence = of_nat n\<rparr>"
    using validate_run_nth [OF store_inv_run(1) [OF inv] n] by simp
  show "unat (of_nat n :: u64) = n" using n store_inv_run(2) [OF inv] by (intro unat_of_nat_small) simp
qed

lemma get_after_retire:
  assumes inv: "store_inv crc h l 0 bs s wal" and mem: "\<forall>n. alloc n" and few: "length bs < 2 ^ 32"
    and sealed: "sealed_upto crc h l bs (length bs) segs m" and c: "c \<le> length bs" and n: "n < length (concat bs)"
  defines "t \<equiv> fold (index_batch crc) (drop c bs) (fresh_store h l (of_nat (batch_start bs c)))"
  assumes k: "c < length bs \<Longrightarrow> k = st_last_known t"
  shows "store_get crc alloc (segs(manifest_name \<mapsto> manifest_encode crc (m\<lparr>mf_retired_up_to_sequence := r\<rparr>)))
      (t\<lparr>st_summaries := sums, st_last_known := k\<rparr>) (log_bytes crc h (drop c bs)) (se_id (concat bs ! n)) = Ok (concat bs ! n)"
proof -
  let ?segs = "segs(manifest_name \<mapsto> manifest_encode crc (m\<lparr>mf_retired_up_to_sequence := r\<rparr>))"
  note D = store_inv_drop [OF inv c, folded t_def]
  have sw: "t\<lparr>st_summaries := sums, st_last_known := k\<rparr> = (t\<lparr>st_last_known := k\<rparr>)\<lparr>st_summaries := sums\<rparr>" by (cases t) simp
  have "store_get crc alloc ?segs (t\<lparr>st_last_known := k\<rparr>) (log_bytes crc h (drop c bs)) (se_id (concat bs ! n)) = Ok (concat bs ! n)"
  proof (cases "batch_start bs c \<le> n")
    case True
    have cc: "concat bs = concat (take c bs) @ concat (drop c bs)" by (simp flip: concat_append)
    have j: "n - batch_start bs c < length (concat (drop c bs))" "concat bs ! n = concat (drop c bs) ! (n - batch_start bs c)"
      using True n length_append [of "concat (take c bs)" "concat (drop c bs)"] nth_append [of "concat (take c bs)" "concat (drop c bs)" n]
      unfolding batch_start_def cc [symmetric] by simp_all
    have "c < length bs" using j(1) by (cases "c < length bs") simp_all
    then have "t\<lparr>st_last_known := k\<rparr> = t" using k by (cases t) simp
    then show ?thesis using store_get_spec [OF D(1) mem j(1)] j(2) by simp
  next
    case False
    have ids: "se_id (concat bs ! n) = \<lparr>eid_source = wh_source h, eid_epoch = wh_epoch h, eid_sequence = of_nat n\<rparr>" "unat (of_nat n :: u64) = n"
      by (rule event_ids [OF inv n])+
    have len: "unat (of_nat (length (concat bs)) :: u64) = length (concat bs)"
      using store_inv_run(2) [OF inv] by (intro unat_of_nat_small) simp
    have T: "st_header t = h" "st_limits t = l" "\<not> st_poisoned t" "st_next_sequence t = of_nat (length (concat bs))"
      using store_inv_next [OF D(1)] store_inv_next [OF inv] D(3) by simp_all
    have nx: "\<not> st_next_sequence t \<le> of_nat n" unfolding T(4) word_le_nat_alt ids(2) len using n by simp
    have "frame_index_for_sequence t (of_nat n) = None"
    proof (cases "drop c bs")
      case Nil
      then show ?thesis using D(2) by (simp add: frame_index_for_sequence_def partition_point_def)
    next
      case (Cons rs cs)
      have "unat (of_nat (batch_start bs c) :: u64) = batch_start bs c"
        using batch_start_mono [OF c, of bs] store_inv_run(2) [OF inv] by (intro unat_of_nat_small) simp
      then have "\<not> (of_nat (batch_start bs c) :: u64) \<le> of_nat n" using False ids(2) by (simp add: word_le_nat_alt)
      then show ?thesis using D(2) Cons
        by (simp add: frame_index_for_sequence_def partition_point_def new_frame_def)
    qed
    then have "frame_for_sequence (t\<lparr>st_last_known := k\<rparr>) (of_nat n) = None"
      by (simp add: frame_for_sequence_def frame_index_for_sequence_def)
    then show ?thesis using T nx read_sealed [OF inv mem few sealed n, of r] ids(1) by (simp add: store_get_def)
  qed
  then show ?thesis unfolding sw store_get_summaries .
qed

lemma reopen_retired:
  assumes inv: "store_inv crc h l 0 bs s wal" and c: "c \<le> length bs" and l: "validate_limits l = Ok ()" and mem: "\<forall>n. alloc n"
    and r: "r = (if c = 0 then None else Some (of_nat (batch_start bs c - 1)))"
    and few: "length bs < 2 ^ 32" and sealed: "sealed_upto crc h l bs (length bs) segs m"
  defines "t \<equiv> fold (index_batch crc) (drop c bs) (fresh_store h l (of_nat (batch_start bs c)))"
  shows "store_open crc alloc False (Some (log_bytes crc h (drop c bs))) (Some (manifest_encode crc (m\<lparr>mf_retired_up_to_sequence := r\<rparr>))) l
     RejectIncompleteTail = Ok (t, report t [], log_bytes crc h (drop c bs))"
proof -
  note D = store_inv_drop [OF inv c, folded t_def]
  have wf: "wf_database_id (wh_database h)" using inv by (simp add: store_inv_def)
  have le: "batch_start bs c \<le> length (concat bs)" "length (concat bs) < 2 ^ 64" using batch_start_mono [OF c, of bs] store_inv_run(2) [OF inv] by simp_all
  have "initial_sequence crc (Some (manifest_encode crc (m\<lparr>mf_retired_up_to_sequence := r\<rparr>))) = Ok (of_nat (batch_start bs c))"
  proof (cases "c = 0")
    case True
    then show ?thesis using sealed_manifest_loads [OF sealed wf few, of r] r by (simp add: initial_sequence_def batch_start_def)
  next
    case False
    then have "0 < length (bs ! (c - 1))" "batch_start bs c = batch_start bs (c - 1) + length (bs ! (c - 1))"
      using batch_range(1) [OF inv, of "c - 1"] batch_start_Suc [of "c - 1" bs] c by simp_all
    then have "batch_start bs c \<noteq> 0" by linarith
    then obtain d where d: "batch_start bs c = Suc d" using not0_implies_Suc by blast
    have "unat (of_nat d :: u64) = d" using le d by (intro unat_of_nat_small) simp
    then have "unat (of_nat d :: u64) + 1 < 2 ^ 64" using le unfolding d by linarith
    then have "checked_add (of_nat d :: u64) 1 = Some (of_nat (Suc d))" unfolding checked_add_succ by simp
    then show ?thesis using sealed_manifest_loads [OF sealed wf few, of r] r False d
      by (simp add: initial_sequence_def add_or_panic_def)
  qed
  from store_open_recovers(2) [OF D(1) this l mem, of "[]"] show ?thesis by simp
qed

text \<open>C23: Sealing and retiring the log loses nothing. Take a store reached by any sequence of appends and
  seal it into a directory without a manifest. Then \<open>retire_wal\<close> succeeds for every list of holds, no retired
  sequence is covered by a hold, and every acknowledged event is still returned by \<open>get\<close>, from the compacted
  log or from a segment. Reopening the compacted log with the saved manifest succeeds, continues with the same
  next sequence, and again every event is returned.\<close>

theorem retire_keeps_events:
  assumes create: "store_create crc False False (Some db) source epoch l = Ok (s0, w0)" "wf_database_id db"
    and run: "run_ops (append_step crc alloc) (s0, w0) ops = (rs, s, wal)" "\<forall>(oc, batch) \<in> set ops. length batch < 2 ^ 64" "\<not> st_poisoned s"
    and mem: "\<forall>n. alloc' n" and few: "length ops < 2 ^ 32"
    and seal: "segs0 manifest_name = None" "store_seal crc alloc' s wal segs0 = Ok (srep, segs)"
  defines "xs \<equiv> concat (acked (st_header s0) 0 ops rs)"
  shows "\<exists>rep s' wal' segs' t. store_retire crc holds s wal segs = Ok (rep, s', wal', segs')
     \<and> (\<forall>n < unat (rt_events_retired rep). list_all (\<lambda>hold. \<not> is_sequence_held hold (of_nat n)) holds)
     \<and> (\<forall>n < length xs. store_get crc alloc' segs' s' wal' (se_id (xs ! n)) = Ok (xs ! n))
     \<and> store_open crc alloc' False (Some wal') (segs' manifest_name) l RejectIncompleteTail = Ok (t, report t [], wal')
     \<and> st_next_sequence s' = st_next_sequence s \<and> st_next_sequence t = st_next_sequence s
     \<and> (\<forall>n < length xs. store_get crc alloc' segs' t wal' (se_id (xs ! n)) = Ok (xs ! n))"
proof -
  let ?h = "st_header s0"
  define bs where "bs = acked ?h 0 ops rs"
  have inv: "store_inv crc ?h l 0 bs s wal" using reachable_inv [OF create run] by (simp add: bs_def)
  have l: "validate_limits l = Ok ()" using store_create_inv(2) [OF create] .
  have wf: "wf_database_id (wh_database ?h)" using inv by (simp add: store_inv_def)
  have "length (acked hd k ops rs) \<le> length ops" for hd k by (induction hd k ops rs rule: acked.induct) auto
  then have few': "length bs < 2 ^ 32" using few le_less_trans unfolding bs_def by blast
  obtain sg m where sealed: "sealed_upto crc ?h l bs (length bs) sg m" and segs: "segs = sg(manifest_name \<mapsto> manifest_encode crc m)"
    by (rule seal_spec [OF inv mem seal])
  have m0: "m\<lparr>mf_retired_up_to_sequence := None\<rparr> = m" using sealed by (simp add: sealed_upto_def)
  have load: "load_if_exists crc (segs manifest_name) = Ok (Some m)"
    using sealed_manifest_loads [OF sealed wf few', of None] segs m0 by simp
  have live: "\<not> st_poisoned s" using run(3) .
  obtain c where c: "c \<le> length bs" and elig: "eligible_count m holds (st_frames s) = Ok c" and held: "\<forall>n < batch_start bs c. \<forall>hold \<in> set holds. \<not> is_sequence_held hold (of_nat n)"
    and none: "c = 0 \<longrightarrow> retire_compact crc holds s wal m = Ok None"
    and some: "0 < c \<longrightarrow> (\<exists>sums freed. retire_compact crc holds s wal m = Ok (Some (log_bytes crc ?h (drop c bs),
        (fold (index_batch crc) (drop c bs) (fresh_store ?h l (of_nat (batch_start bs c))))\<lparr>st_summaries := sums, st_last_known := st_last_known s\<rparr>,
        \<lparr>rt_frames_retired = c, rt_events_retired = of_nat (batch_start bs c), rt_bytes_freed = freed,
          rt_retired_up_to = Some (of_nat (batch_start bs c - 1))\<rparr>,
        m\<lparr>mf_retired_up_to_sequence := Some (of_nat (batch_start bs c - 1))\<rparr>)))"
    by (rule retire_spec [OF inv, of m holds])
  let ?t = "fold (index_batch crc) (drop c bs) (fresh_store ?h l (of_nat (batch_start bs c)))"
  let ?r = "if c = 0 then None else Some (of_nat (batch_start bs c - 1) :: u64)"
  let ?segs = "sg(manifest_name \<mapsto> manifest_encode crc (m\<lparr>mf_retired_up_to_sequence := ?r\<rparr>))"
  note D = store_inv_drop [OF inv c]
  have t0: "?t = s" if "c = 0" using inv that by (simp add: store_inv_def batch_start_def)
  obtain sums rep where ret: "store_retire crc holds s wal segs
      = Ok (rep, ?t\<lparr>st_summaries := sums, st_last_known := st_last_known s\<rparr>, log_bytes crc ?h (drop c bs), ?segs)"
    and ev: "rt_events_retired rep = of_nat (batch_start bs c)"
  proof (cases "c = 0")
    case True
    have "s\<lparr>st_summaries := st_summaries s, st_last_known := st_last_known s\<rparr> = s" by (cases s) simp
    moreover have "wal = log_bytes crc ?h bs" using inv by (simp add: store_inv_def)
    ultimately show thesis using that [of _ "st_summaries s"] none load live True m0 segs t0
      by (simp add: store_retire_def batch_start_def)
  next
    case False
    then obtain sums freed where "retire_compact crc holds s wal m = Ok (Some (log_bytes crc ?h (drop c bs),
        ?t\<lparr>st_summaries := sums, st_last_known := st_last_known s\<rparr>,
        \<lparr>rt_frames_retired = c, rt_events_retired = of_nat (batch_start bs c), rt_bytes_freed = freed,
          rt_retired_up_to = Some (of_nat (batch_start bs c - 1))\<rparr>,
        m\<lparr>mf_retired_up_to_sequence := Some (of_nat (batch_start bs c - 1))\<rparr>))"
      using some by auto
    then show thesis using that load live False segs by (simp add: store_retire_def)
  qed
  have bound: "batch_start bs c < 2 ^ 64" using batch_start_mono [OF c, of bs] store_inv_run(2) [OF inv] by simp
  have same: "?t\<lparr>st_summaries := st_summaries ?t, st_last_known := st_last_known ?t\<rparr> = ?t" by (cases ?t) simp
  have get: "store_get crc alloc' ?segs (?t\<lparr>st_summaries := sm, st_last_known := k\<rparr>) (log_bytes crc ?h (drop c bs)) (se_id (concat bs ! n)) = Ok (concat bs ! n)"
    if "n < length (concat bs)" "k = st_last_known s \<or> k = st_last_known ?t" for n sm k
    using that(2) D(4) by (intro get_after_retire [OF inv mem few' sealed c that(1)]) auto
  have op: "store_open crc alloc' False (Some (log_bytes crc ?h (drop c bs))) (?segs manifest_name) l RejectIncompleteTail
      = Ok (?t, report ?t [], log_bytes crc ?h (drop c bs))"
    using reopen_retired [OF inv c l mem refl few' sealed] by simp
  have h: "\<forall>n < unat (rt_events_retired rep). list_all (\<lambda>hold. \<not> is_sequence_held hold (of_nat n)) holds"
    using held bound ev by (simp add: list_all_iff)
  have gets: "\<forall>n < length xs. store_get crc alloc' ?segs (?t\<lparr>st_summaries := sums, st_last_known := st_last_known s\<rparr>)
       (log_bytes crc ?h (drop c bs)) (se_id (xs ! n)) = Ok (xs ! n)"
    unfolding xs_def bs_def [symmetric] using get by blast
  have gett: "\<forall>n < length xs. store_get crc alloc' ?segs ?t (log_bytes crc ?h (drop c bs)) (se_id (xs ! n)) = Ok (xs ! n)"
    unfolding xs_def bs_def [symmetric] using get [where k = "st_last_known ?t" and sm = "st_summaries ?t"] unfolding same by blast
  have nx: "st_next_sequence (?t\<lparr>st_summaries := sums, st_last_known := st_last_known s\<rparr>) = st_next_sequence s" using D(3) by simp
  show ?thesis using ret h gets op nx D(3) gett by blast
qed


subsection \<open>A crash inside a retirement\<close>

lemma eligible_all:
  "\<forall>f \<in> set fs. \<exists>lst. frame_last f = Ok lst \<and> is_sequence_sealed m (fl_first f) \<and> is_sequence_sealed m lst \<Longrightarrow>
     eligible_count m [] fs = Ok (length fs)"
  by (induction fs) auto

lemma sealed_eligible:
  assumes inv: "store_inv crc h l 0 bs s wal" and m: "mf_sealed_segments m = map (batch_meta crc h bs) [0..<length bs]"
  shows "eligible_count m [] (st_frames s) = Ok (length bs)"
proof -
  have lenf: "length (st_frames s) = length bs"
    using inv index_batches_nth(1) [of crc "fresh_store h l 0" bs] by (simp add: store_inv_def)
  have "\<exists>lst. frame_last f = Ok lst \<and> is_sequence_sealed m (fl_first f) \<and> is_sequence_sealed m lst" if f: "f \<in> set (st_frames s)" for f
  proof -
    obtain i where i: "i < length bs" "f = st_frames s ! i" using f lenf by (auto simp: in_set_conv_nth)
    note R = batch_range [OF inv i(1)]
    have "is_sequence_sealed m (of_nat (batch_start bs i))" "is_sequence_sealed m (of_nat (batch_start bs i + length (bs ! i) - 1))"
      by (rule find_sealed(2) [OF inv m i(1)]; use R(1) in linarith)+
    then show ?thesis using R(4,5) i(2) by simp
  qed
  then show ?thesis using eligible_all [of "st_frames s" m] lenf by simp
qed

text \<open>C24: A crash inside a retirement loses acknowledged events. \<open>retire_wal\<close> truncates the log before it saves
  the manifest with the last retired sequence. Take fewer than 2^32 appended batches, at least one, with memory
  available; seal them all into a directory that has no manifest yet, so that no frame is left unsealed, and retire
  without a hold, so that no frame is kept. If the process stops between the two steps, the log is empty and the manifest on disk does not yet mention the retirement: reopening succeeds, the
  store starts again at sequence 0, \<open>get\<close> reports every acknowledged event as unknown, and the next event is
  given the id of the first acknowledged one.\<close>

theorem retire_crash_restarts_ids:
  assumes create: "store_create crc False False (Some db) source epoch l = Ok (s0, w0)" "wf_database_id db"
    and run: "run_ops (append_step crc alloc) (s0, w0) ops = (rs, s, wal)" "\<forall>(oc, batch) \<in> set ops. length batch < 2 ^ 64" "\<not> st_poisoned s"
    and mem: "\<forall>n. alloc' n" and few: "length ops < 2 ^ 32"
    and seal: "segs0 manifest_name = None" "store_seal crc alloc' s wal segs0 = Ok (srep, segs)"
    and some: "acked (st_header s0) 0 ops rs \<noteq> []"
  defines "xs \<equiv> concat (acked (st_header s0) 0 ops rs)"
  shows "\<exists>m wal' s' rep m' t. load_if_exists crc (segs manifest_name) = Ok (Some m)
     \<and> retire_compact crc [] s wal m = Ok (Some (wal', s', rep, m'))
     \<and> store_open crc alloc' False (Some wal') (segs manifest_name) l RejectIncompleteTail = Ok (t, report t [], wal')
     \<and> st_next_sequence t = 0
     \<and> (\<forall>n < length xs. store_get crc alloc' segs t wal' (se_id (xs ! n)) = Err (StUnknownEvent (se_id (xs ! n))))
     \<and> se_id (to_record (st_header t) (st_next_sequence t) w) = se_id (xs ! 0)"
proof -
  let ?h = "st_header s0"
  define bs where "bs = acked ?h 0 ops rs"
  have inv: "store_inv crc ?h l 0 bs s wal" using reachable_inv [OF create run] by (simp add: bs_def)
  have l: "validate_limits l = Ok ()" using store_create_inv(2) [OF create] .
  have wf: "wf_database_id (wh_database ?h)" using inv by (simp add: store_inv_def)
  have "length (acked hd k ops rs) \<le> length ops" for hd k by (induction hd k ops rs rule: acked.induct) auto
  then have few': "length bs < 2 ^ 32" using few le_less_trans unfolding bs_def by blast
  obtain sg m where sealed: "sealed_upto crc ?h l bs (length bs) sg m" and segs: "segs = sg(manifest_name \<mapsto> manifest_encode crc m)"
    by (rule seal_spec [OF inv mem seal])
  have m: "mf_sealed_segments m = map (batch_meta crc ?h bs) [0..<length bs]" "mf_retired_up_to_sequence m = None"
    "m\<lparr>mf_retired_up_to_sequence := None\<rparr> = m" using sealed by (simp_all add: sealed_upto_def)
  have load: "load_if_exists crc (segs manifest_name) = Ok (Some m)"
    using sealed_manifest_loads [OF sealed wf few', of None] segs m by simp
  have elig: "eligible_count m [] (st_frames s) = Ok (length bs)" by (rule sealed_eligible [OF inv m(1)])
  obtain c where c: "eligible_count m [] (st_frames s) = Ok c"
    and ex: "0 < c \<longrightarrow> (\<exists>sums freed. retire_compact crc [] s wal m = Ok (Some (log_bytes crc ?h (drop c bs),
        (fold (index_batch crc) (drop c bs) (fresh_store ?h l (of_nat (batch_start bs c))))\<lparr>st_summaries := sums, st_last_known := st_last_known s\<rparr>,
        \<lparr>rt_frames_retired = c, rt_events_retired = of_nat (batch_start bs c), rt_bytes_freed = freed,
          rt_retired_up_to = Some (of_nat (batch_start bs c - 1))\<rparr>,
        m\<lparr>mf_retired_up_to_sequence := Some (of_nat (batch_start bs c - 1))\<rparr>)))"
    by (rule retire_spec [OF inv, of m "[]"])
  have cl: "c = length bs" "0 < c" using c elig some by (auto simp: bs_def)
  let ?t = "fresh_store ?h l 0" and ?w = "log_bytes crc ?h []"
  obtain s' rep m' where ret: "retire_compact crc [] s wal m = Ok (Some (?w, s', rep, m'))" using ex cl by auto
  have first: "initial_sequence crc (segs manifest_name) = Ok 0" using load m(2) by (simp add: initial_sequence_def)
  have "store_inv crc ?h l 0 [] ?t ?w" using wf by (simp add: store_inv_def)
  then have op: "store_open crc alloc' False (Some ?w) (segs manifest_name) l RejectIncompleteTail = Ok (?t, report ?t [], ?w)"
    using store_open_recovers(2) [OF _ first l mem, of ?h "[]" ?t ?w "[]"] by simp
  have get: "store_get crc alloc' segs ?t ?w e = Err (StUnknownEvent e)" for e by (simp add: store_get_def)
  have "0 < length (concat bs)"
    using batch_range(1,2) [OF inv, of 0] cl by (simp add: batch_start_def del: length_greater_0_conv)
  then have "se_id (to_record ?h 0 w) = se_id (xs ! 0)"
    using event_ids(1) [OF inv] unfolding xs_def bs_def [symmetric] by (simp add: to_record_def)
  then show ?thesis using load ret op get by (intro exI [of _ m] exI [of _ ?w] exI [of _ s'] exI [of _ rep] exI [of _ m'] exI [of _ ?t]) simp
qed

subsection \<open>A concrete run\<close>

lemma seal_single:
  assumes inv: "store_inv crc h l 0 [rs] s wal" and mem: "\<forall>n. alloc n" and w: "segment_within l (segment_of h rs)"
  shows "\<exists>rep segs. store_seal crc alloc s wal (\<lambda>_. None) = Ok (rep, segs)"
proof -
  have S: "st_header s = h" "st_limits s = l" "\<not> st_poisoned s" using store_inv_next [OF inv] by simp_all
  have wf: "wf_database_id (wh_database h)" using inv by (simp add: store_inv_def)
  have al: "alloc k" for k using mem by blast
  have B: "length (st_frames s) = 1" "0 < length [rs]" using store_inv_batch(4) [OF inv, of 0] inv index_batches_nth(1) [of crc "fresh_store h l 0" "[rs]"] by (simp_all add: store_inv_def)
  have ix: "index (st_frames s) 0 = (Ok (st_frames s ! 0) :: (_, storage_error) result)" using B by (simp add: index_def)
  note R = batch_range [OF inv B(2), simplified] and F = read_frame [OF inv B(2) mem, simplified]
  have e: "encode_segment crc alloc h rs l = Ok (segment_bytes crc (segment_of h rs))"
    using encode_segment_Ok [OF mem, of crc h rs l] w by (simp add: segment_of_def)
  have rd: "read_bounded_file alloc (Some (segment_bytes crc (segment_of h rs))) (max_segment_bytes l) = Ok (segment_bytes crc (segment_of h rs))"
    using segment_roundtrip(2) [OF w wf mem, of crc] al by (simp add: read_bounded_file_def try_reserve_def)
  have pub: "publish_segment crc alloc s rs (segment_bytes crc (segment_of h rs)) name (\<lambda>_. None) rep
      = Ok ((\<lambda>_. None)(name \<mapsto> segment_bytes crc (segment_of h rs)), rep\<lparr>sr_segments_created := sr_segments_created rep + 1\<rparr>)" for name rep
    unfolding publish_segment_def S rd using segment_roundtrip(1) [OF w wf mem, of crc] by (simp add: segment_of_def)
  have sm: "\<exists>segs'. publish_summary crc s 0 name segs = Ok segs'" for name segs
    by (simp add: publish_summary_def segment_summary_new_def segment_absorb_def add_or_panic_def checked_add_def)
  then obtain g where g: "publish_summary crc s 0 name segs = Ok (g name segs)" for name segs by metis
  have "length rs < 2 ^ 64" using R(2,3) by simp
  then have ev: "add_or_panic (0 :: u64) (of_nat (length rs)) = (Ok (of_nat (length rs)) :: (_, storage_error) result)"
    by (simp add: add_or_panic_def checked_add_def)
  have "\<exists>x. seal_frame crc alloc s wal 0 ((\<lambda>_. None), m, \<lparr>sr_segments_created = 0, sr_segments_existing = 0, sr_events = 0\<rparr>) = Ok x" for m
    unfolding seal_frame_def prod.case ix rbind.simps F S R(4,5) e from_format.simps Let_def pub g using ev by auto
  then obtain sg m' rp where "seal_frame crc alloc s wal 0 ((\<lambda>_. None), manifest_new (wh_database h) (wh_source h) (wh_epoch h),
       \<lparr>sr_segments_created = 0, sr_segments_existing = 0, sr_events = 0\<rparr>) = Ok (sg, m', rp)" by (metis prod_cases3)
  then show ?thesis using S B by (simp add: store_seal_def load_if_exists_def Let_def)
qed


lemma sample_inv:
  "store_inv (\<lambda>_. 5) sample_header limits_default 0 [sample_records] (index_batch (\<lambda>_. 5) sample_records (fresh_store sample_header limits_default 0))
     (encode_wal_header (\<lambda>_. 5) sample_header @ batch_bytes (\<lambda>_. 5) sample_records)"
proof -
  obtain receipt where run: "run_ops (append_step (\<lambda>_. 5) (\<lambda>_. True)) (fresh_store sample_header limits_default 0, encode_wal_header (\<lambda>_. 5) sample_header)
       [(Written, [sample_write])]
     = ([Ok receipt], index_batch (\<lambda>_. 5) sample_records (fresh_store sample_header limits_default 0),
        encode_wal_header (\<lambda>_. 5) sample_header @ batch_bytes (\<lambda>_. 5) sample_records)" using sample_append by blast
  show ?thesis using reachable_inv [OF sample_create _ run] by (simp add: wf_database_id_def sample_records_def)
qed

lemma sample_seal:
  "\<exists>rep segs. store_seal (\<lambda>_. 5) (\<lambda>_. True) (index_batch (\<lambda>_. 5) sample_records (fresh_store sample_header limits_default 0))
     (encode_wal_header (\<lambda>_. 5) sample_header @ batch_bytes (\<lambda>_. 5) sample_records) (\<lambda>_. None) = Ok (rep, segs)"
proof (rule seal_single [OF sample_inv])
  show "segment_within limits_default (segment_of sample_header sample_records)"
    by (simp add: segment_within_def segment_of_def batch_within_def record_within_def limits_default_def matches_header_def
        sample_records_def to_record_def sample_write_def record_bytes_length sample_header_def)
qed simp

theorem retire_keeps_events_witness:
  "\<exists>rep segs srep s' wal' segs'. store_seal (\<lambda>_. 5) (\<lambda>_. True) (index_batch (\<lambda>_. 5) sample_records (fresh_store sample_header limits_default 0))
       (encode_wal_header (\<lambda>_. 5) sample_header @ batch_bytes (\<lambda>_. 5) sample_records) (\<lambda>_. None) = Ok (srep, segs)
     \<and> store_retire (\<lambda>_. 5) [] (index_batch (\<lambda>_. 5) sample_records (fresh_store sample_header limits_default 0))
       (encode_wal_header (\<lambda>_. 5) sample_header @ batch_bytes (\<lambda>_. 5) sample_records) segs = Ok (rep, s', wal', segs')
     \<and> store_get (\<lambda>_. 5) (\<lambda>_. True) segs' s' wal' (se_id (sample_records ! 0)) = Ok (sample_records ! 0)"
proof -
  obtain receipt where run: "run_ops (append_step (\<lambda>_. 5) (\<lambda>_. True)) (fresh_store sample_header limits_default 0, encode_wal_header (\<lambda>_. 5) sample_header)
       [(Written, [sample_write])]
     = ([Ok receipt], index_batch (\<lambda>_. 5) sample_records (fresh_store sample_header limits_default 0),
        encode_wal_header (\<lambda>_. 5) sample_header @ batch_bytes (\<lambda>_. 5) sample_records)" using sample_append by blast
  have ack: "concat (acked sample_header 0 [(Written, [sample_write])] [Ok receipt]) = sample_records" by (simp add: sample_records_def)
  have len: "0 < length sample_records" by (simp add: sample_records_def)
  obtain srep segs where seal: "store_seal (\<lambda>_. 5) (\<lambda>_. True) (index_batch (\<lambda>_. 5) sample_records (fresh_store sample_header limits_default 0))
     (encode_wal_header (\<lambda>_. 5) sample_header @ batch_bytes (\<lambda>_. 5) sample_records) (\<lambda>_. None) = Ok (srep, segs)"
    using sample_seal by blast
  have c: "wf_database_id (replicate 16 0)" "\<forall>(oc, batch) \<in> set [(Written, [sample_write])]. length batch < 2 ^ 64"
    "\<not> st_poisoned (index_batch (\<lambda>_. 5) sample_records (fresh_store sample_header limits_default 0))" "\<forall>n. (\<lambda>_. True) n"
    "length [(Written, [sample_write])] < 2 ^ 32" "(\<lambda>_. None) manifest_name = None"
    by (simp_all add: wf_database_id_def)
  show ?thesis
    using retire_keeps_events [OF sample_create c(1) run c(2-6) seal, where holds = "[]", unfolded fresh_store_simps ack] seal len by blast
qed


theorem retire_crash_restarts_ids_witness:
  "\<exists>segs srep wal' t. store_seal (\<lambda>_. 5) (\<lambda>_. True) (index_batch (\<lambda>_. 5) sample_records (fresh_store sample_header limits_default 0))
       (encode_wal_header (\<lambda>_. 5) sample_header @ batch_bytes (\<lambda>_. 5) sample_records) (\<lambda>_. None) = Ok (srep, segs)
     \<and> store_open (\<lambda>_. 5) (\<lambda>_. True) False (Some wal') (segs manifest_name) limits_default RejectIncompleteTail = Ok (t, report t [], wal')
     \<and> store_get (\<lambda>_. 5) (\<lambda>_. True) segs t wal' (se_id (sample_records ! 0)) = Err (StUnknownEvent (se_id (sample_records ! 0)))"
proof -
  obtain receipt where run: "run_ops (append_step (\<lambda>_. 5) (\<lambda>_. True)) (fresh_store sample_header limits_default 0, encode_wal_header (\<lambda>_. 5) sample_header)
       [(Written, [sample_write])]
     = ([Ok receipt], index_batch (\<lambda>_. 5) sample_records (fresh_store sample_header limits_default 0),
        encode_wal_header (\<lambda>_. 5) sample_header @ batch_bytes (\<lambda>_. 5) sample_records)" using sample_append by blast
  have ack: "acked sample_header 0 [(Written, [sample_write])] [Ok receipt] = [sample_records]" by (simp add: sample_records_def)
  have len: "0 < length sample_records" by (simp add: sample_records_def)
  obtain srep segs where seal: "store_seal (\<lambda>_. 5) (\<lambda>_. True) (index_batch (\<lambda>_. 5) sample_records (fresh_store sample_header limits_default 0))
     (encode_wal_header (\<lambda>_. 5) sample_header @ batch_bytes (\<lambda>_. 5) sample_records) (\<lambda>_. None) = Ok (srep, segs)"
    using sample_seal by blast
  have c: "wf_database_id (replicate 16 0)" "\<forall>(oc, batch) \<in> set [(Written, [sample_write])]. length batch < 2 ^ 64"
    "\<not> st_poisoned (index_batch (\<lambda>_. 5) sample_records (fresh_store sample_header limits_default 0))" "\<forall>n. (\<lambda>_. True) n"
    "length [(Written, [sample_write])] < 2 ^ 32" "(\<lambda>_. None) manifest_name = None"
    by (simp_all add: wf_database_id_def)
  have ne: "[sample_records] \<noteq> []" by simp
  show ?thesis
    using retire_crash_restarts_ids [OF sample_create c(1) run c(2-6) seal, unfolded fresh_store_simps ack, OF ne] seal len by fastforce
qed

end
