(* ===== verification/Schema_Types.thy ===== *)
theory Schema_Types
  imports Core_Types Btree Utf8
begin

section \<open>Scalar schemas and typed state (\<open>temnion-schema\<close>)\<close>

text \<open>
  Schemas are catalogs of typed fields; a mutation updates some fields of an entity or deletes it. This
  theory has the validation of schemas and mutations and the application of a mutation to the state of
  an entity, with the theorem that applied states are well-typed. The fields of a schema are private and
  only \<open>Schema::new\<close> builds one, sorted by field id without duplicates; \<open>binary_search_by_key\<close> on such a list
  finds the field with the id, and \<open>sort_unstable_by_key\<close> differs from a stable sort only on schemas that
  are rejected. A \<open>String\<close> is its bytes.
\<close>

definition MAX_SCHEMA_FIELDS :: usize where "MAX_SCHEMA_FIELDS = 4096"
definition MAX_MUTATION_FIELDS :: usize where "MAX_MUTATION_FIELDS = MAX_SCHEMA_FIELDS"
definition MAX_FIELD_NAME_BYTES :: usize where "MAX_FIELD_NAME_BYTES = 64"
definition MAX_FIELD_UNIT_BYTES :: usize where "MAX_FIELD_UNIT_BYTES = 32"

type_synonym i64 = "64 word"

datatype scalar = VBool bool | VI64 i64 | VU64 u64 | VF64Bits u64 | VUtf8 bytes | VBytes bytes | VNull

fun kind_name :: "scalar \<Rightarrow> string" where
  "kind_name (VBool _) = ''bool''"
| "kind_name (VI64 _) = ''i64''"
| "kind_name (VU64 _) = ''u64''"
| "kind_name (VF64Bits _) = ''f64 bits''"
| "kind_name (VUtf8 _) = ''utf8''"
| "kind_name (VBytes _) = ''bytes''"
| "kind_name VNull = ''null''"

datatype field_type = FtBool | FtI64 | FtU64 | FtF64 | FtUtf8 | FtBytes

record schema_field =
  fd_id :: field_id
  fd_name :: bytes
  fd_kind :: field_type
  fd_nullable :: bool
  fd_unit :: "bytes option"

record field_update =
  fu_field :: field_id
  fu_value :: scalar

datatype mutation = Upsert "field_update list" | Delete

datatype schema_error =
    ScAllocationFailed
  | ScSizeOverflow string
  | ScInvalidSchemaVersion u32
  | ScTooManyFields usize usize
  | ScTooManyUpdates usize usize
  | ScMetadataTooLong string usize usize
  | ScLengthOutOfRange string u64 usize
  | ScInvalidFieldName bytes
  | ScInvalidFieldUnit bytes
  | ScDuplicateFieldId field_id
  | ScDuplicateFieldName bytes
  | ScUnknownField field_id
  | ScDuplicateMutationField field_id
  | ScEmptyUpsert
  | ScNullNotAllowed field_id
  | ScTypeMismatch field_id field_type string
  | ScMissingRequiredField field_id
  | ScInputTooLarge usize usize
  | ScOutputTooLarge usize usize
  | ScInvalidEncodingVersion string u8
  | ScInvalidMutationTag u8
  | ScInvalidValueTag u8
  | ScInvalidFieldTypeTag u8
  | ScInvalidBoolean u8
  | ScInvalidUtf8 string
  | ScTruncated usize usize
  | ScTrailingBytes usize
  | ScNonCanonicalFieldOrder field_id field_id

record schema =
  sch_id :: schema_id
  sch_version :: u32
  sch_fields :: "schema_field list"

subsection \<open>Validation of metadata\<close>

definition in_chars :: "char \<Rightarrow> char \<Rightarrow> nat \<Rightarrow> bool" where
  "in_chars a b c \<longleftrightarrow> of_char a \<le> c \<and> c \<le> of_char b"

definition name_start :: "nat \<Rightarrow> bool" where
  "name_start c \<longleftrightarrow> in_chars (CHR ''A'') (CHR ''Z'') c \<or> in_chars (CHR ''a'') (CHR ''z'') c \<or> c = of_char (CHR ''_'')"

definition name_rest :: "nat \<Rightarrow> bool" where
  "name_rest c \<longleftrightarrow> in_chars (CHR ''A'') (CHR ''Z'') c \<or> in_chars (CHR ''a'') (CHR ''z'') c \<or> in_chars (CHR ''0'') (CHR ''9'') c
     \<or> c = of_char (CHR ''_'') \<or> c = of_char (CHR ''-'') \<or> c = of_char (CHR ''.'')"

definition validate_field_name :: "bytes \<Rightarrow> (unit, schema_error) result" where
  "validate_field_name name =
     (if name = [] then Err (ScInvalidFieldName name)
      else if length name > MAX_FIELD_NAME_BYTES then Err (ScMetadataTooLong ''field name'' (length name) MAX_FIELD_NAME_BYTES)
      else case utf8_chars name of
        [] \<Rightarrow> Err (ScInvalidFieldName name)
      | first # chars \<Rightarrow>
          if \<not> name_start first then Err (ScInvalidFieldName name)
          else if list_ex (\<lambda>c. \<not> name_rest c) chars then Err (ScInvalidFieldName name)
          else Ok ())"

definition validate_field_unit :: "bytes option \<Rightarrow> (unit, schema_error) result" where
  "validate_field_unit unit_text = (case unit_text of None \<Rightarrow> Ok () | Some u \<Rightarrow>
     if u = [] \<or> trim_chars (utf8_chars u) \<noteq> utf8_chars u \<or> list_ex is_control (utf8_chars u) then Err (ScInvalidFieldUnit u)
     else if length u > MAX_FIELD_UNIT_BYTES then Err (ScMetadataTooLong ''field unit'' (length u) MAX_FIELD_UNIT_BYTES)
     else Ok ())"

text \<open>The first equal neighbours, and the first element that occurs again.\<close>

fun equal_neighbour :: "'a list \<Rightarrow> 'a option" where
  "equal_neighbour (x # y # xs) = (if x = y then Some y else equal_neighbour (y # xs))"
| "equal_neighbour xs = None"

fun first_repeated :: "'a list \<Rightarrow> 'a option" where
  "first_repeated [] = None"
| "first_repeated (x # xs) = (if x \<in> set xs then Some x else first_repeated xs)"

definition validate_fields :: "schema_field list \<Rightarrow> (unit, schema_error) result" where
  "validate_fields fds = rbind (map_result (\<lambda>f. rbind (validate_field_name (fd_name f)) (\<lambda>_. validate_field_unit (fd_unit f))) fds) (\<lambda>_. Ok ())"

definition schema_new :: "schema_id \<Rightarrow> u32 \<Rightarrow> schema_field list \<Rightarrow> (schema, schema_error) result" where
  "schema_new i version fds =
     (if version = 0 then Err (ScInvalidSchemaVersion version)
      else if length fds > MAX_SCHEMA_FIELDS then Err (ScTooManyFields (length fds) MAX_SCHEMA_FIELDS)
      else rbind (validate_fields fds) (\<lambda>_.
      let fds = sort_key fd_id fds in
      case equal_neighbour (map fd_id fds) of
        Some f \<Rightarrow> Err (ScDuplicateFieldId f)
      | None \<Rightarrow> (case first_repeated (map fd_name fds) of
          Some n \<Rightarrow> Err (ScDuplicateFieldName n)
        | None \<Rightarrow> Ok \<lparr>sch_id = i, sch_version = version, sch_fields = fds\<rparr>)))"

subsection \<open>Validation and application of mutations\<close>

definition field_of :: "schema \<Rightarrow> field_id \<Rightarrow> schema_field option" where
  "field_of s i = List.find (\<lambda>f. fd_id f = i) (sch_fields s)"

fun matches_kind :: "field_type \<Rightarrow> scalar \<Rightarrow> bool" where
  "matches_kind FtBool (VBool _) = True"
| "matches_kind FtI64 (VI64 _) = True"
| "matches_kind FtU64 (VU64 _) = True"
| "matches_kind FtF64 (VF64Bits _) = True"
| "matches_kind FtUtf8 (VUtf8 _) = True"
| "matches_kind FtBytes (VBytes _) = True"
| "matches_kind _ _ = False"

definition validate_field_value :: "schema_field \<Rightarrow> scalar \<Rightarrow> (unit, schema_error) result" where
  "validate_field_value f v =
     (if v = VNull then (if fd_nullable f then Ok () else Err (ScNullNotAllowed (fd_id f)))
      else if matches_kind (fd_kind f) v then Ok ()
      else Err (ScTypeMismatch (fd_id f) (fd_kind f) (kind_name v)))"

definition validate_upsert_shape :: "field_update list \<Rightarrow> (unit, schema_error) result" where
  "validate_upsert_shape updates =
     (if updates = [] then Err ScEmptyUpsert
      else if length updates > MAX_MUTATION_FIELDS then Err (ScTooManyUpdates (length updates) MAX_MUTATION_FIELDS)
      else case first_repeated (map fu_field updates) of
        Some f \<Rightarrow> Err (ScDuplicateMutationField f)
      | None \<Rightarrow> Ok ())"

definition validate_at :: "schema \<Rightarrow> field_id \<Rightarrow> scalar \<Rightarrow> (unit, schema_error) result" where
  "validate_at s i v = rbind (ok_or (field_of s i) (ScUnknownField i)) (\<lambda>f. validate_field_value f v)"

definition validate_mutation :: "schema \<Rightarrow> mutation \<Rightarrow> (unit, schema_error) result" where
  "validate_mutation s m = (case m of
       Delete \<Rightarrow> Ok ()
     | Upsert updates \<Rightarrow>
         rbind (validate_upsert_shape updates) (\<lambda>_.
         rbind (map_result (\<lambda>u. validate_at s (fu_field u) (fu_value u)) updates) (\<lambda>_. Ok ())))"

type_synonym field_state = "(field_id, scalar) btree"

definition validate_complete_state :: "schema \<Rightarrow> field_state \<Rightarrow> (unit, schema_error) result" where
  "validate_complete_state s st =
     rbind (map_result (\<lambda>(i, v). validate_at s i v) st) (\<lambda>_.
     rbind (map_result (\<lambda>f. if \<not> fd_nullable f \<and> bt_get st (fd_id f) = None then Err (ScMissingRequiredField (fd_id f)) else Ok ()) (sch_fields s)) (\<lambda>_.
     Ok ()))"

definition put_update :: "field_update \<Rightarrow> field_state \<Rightarrow> field_state" where
  "put_update u = bt_insert (fu_field u) (fu_value u)"

text \<open>The outcome of \<open>Schema::apply\<close> and the state afterwards.\<close>

definition schema_apply :: "schema \<Rightarrow> field_state \<Rightarrow> mutation \<Rightarrow> (unit, schema_error) result \<times> field_state" where
  "schema_apply s st m = (case m of
       Delete \<Rightarrow> (Ok (), [])
     | Upsert updates \<Rightarrow>
         (let r = rbind (validate_mutation s m) (\<lambda>_.
                let nxt = fold put_update updates st in
                rbind (validate_complete_state s nxt) (\<lambda>_. Ok nxt))
          in case r of Ok nxt \<Rightarrow> (Ok (), nxt) | Err e \<Rightarrow> (Err e, st) | Panic \<Rightarrow> (Panic, st)))"


subsection \<open>Typing of states\<close>

text \<open>The meaning of a schema: which values a field admits, and which states are complete and well-typed.\<close>

inductive has_type :: "scalar \<Rightarrow> field_type \<Rightarrow> bool" where
  "has_type (VBool b) FtBool"
| "has_type (VI64 i) FtI64"
| "has_type (VU64 u) FtU64"
| "has_type (VF64Bits u) FtF64"
| "has_type (VUtf8 t) FtUtf8"
| "has_type (VBytes t) FtBytes"

inductive_simps has_type_simps [simp]:
  "has_type (VBool b) t" "has_type (VI64 i) t" "has_type (VU64 u) t" "has_type (VF64Bits u) t"
  "has_type (VUtf8 x) t" "has_type (VBytes x) t" "has_type VNull t"

definition admits :: "schema_field \<Rightarrow> scalar \<Rightarrow> bool" where
  "admits f v \<longleftrightarrow> has_type v (fd_kind f) \<or> (v = VNull \<and> fd_nullable f)"

definition typed_map :: "schema \<Rightarrow> (field_id \<Rightarrow> scalar option) \<Rightarrow> bool" where
  "typed_map s m \<longleftrightarrow> (\<forall>i v. m i = Some v \<longrightarrow> (\<exists>f \<in> set (sch_fields s). fd_id f = i \<and> admits f v))
     \<and> (\<forall>f \<in> set (sch_fields s). \<not> fd_nullable f \<longrightarrow> m (fd_id f) \<noteq> None)"

definition wf_schema :: "schema \<Rightarrow> bool" where
  "wf_schema s \<longleftrightarrow> sch_version s \<noteq> 0 \<and> length (sch_fields s) \<le> MAX_SCHEMA_FIELDS \<and> sorted_wrt (<) (map fd_id (sch_fields s))
     \<and> distinct (map fd_name (sch_fields s)) \<and> is_ok (validate_fields (sch_fields s))"

lemma equal_neighbour_None: "sorted xs \<Longrightarrow> equal_neighbour xs = None \<longleftrightarrow> sorted_wrt (<) xs"
  by (induction xs rule: equal_neighbour.induct) (auto simp: le_less less_imp_neq)

lemma first_repeated_None: "first_repeated xs = None \<longleftrightarrow> distinct xs"
  by (induction xs) auto

lemma map_result_is_ok: "is_ok (map_result f xs) \<longleftrightarrow> (\<forall>x \<in> set xs. is_ok (f x))"
proof (induction xs)
  case (Cons x xs)
  then show ?case by (cases "f x"; cases "map_result f xs") simp_all
qed simp

lemma is_ok_seq: "is_ok (rbind m (\<lambda>_. n)) \<longleftrightarrow> is_ok m \<and> is_ok n"
  by (cases m) simp_all

lemma is_ok_unit: "is_ok (m :: (unit, 'e) result) \<longleftrightarrow> m = Ok ()"
  by (cases m) simp_all

lemma validate_fields_ok: "is_ok (validate_fields fs) \<longleftrightarrow> (\<forall>f \<in> set fs. is_ok (validate_field_name (fd_name f)) \<and> is_ok (validate_field_unit (fd_unit f)))"
  unfolding validate_fields_def by (simp add: is_ok_seq map_result_is_ok)

text \<open>A schema is what \<open>Schema::new\<close> returns exactly if it is well-formed.\<close>

lemma schema_new_Ok: "schema_new i ver fs = Ok s \<longleftrightarrow> sch_id s = i \<and> sch_version s = ver \<and> sch_fields s = sort_key fd_id fs \<and> wf_schema s"
proof -
  have v: "is_ok (validate_fields fs) \<longleftrightarrow> is_ok (validate_fields (sort_key fd_id fs))" by (simp add: validate_fields_ok)
  have n: "equal_neighbour (map fd_id (sort_key fd_id fs)) = None \<longleftrightarrow> sorted_wrt (<) (map fd_id (sort_key fd_id fs))"
    by (rule equal_neighbour_None) simp
  show ?thesis
  proof (cases "validate_fields fs")
    case (Ok u)
    then show ?thesis using v n first_repeated_None [of "map fd_name (sort_key fd_id fs)"]
      by (cases s) (auto simp: schema_new_def wf_schema_def Let_def split: option.splits)
  qed (use v in \<open>auto simp: schema_new_def wf_schema_def\<close>)
qed

lemma field_of_Some: "wf_schema s \<Longrightarrow> field_of s i = Some f \<longleftrightarrow> f \<in> set (sch_fields s) \<and> fd_id f = i"
proof
  assume wf: "wf_schema s" and f: "f \<in> set (sch_fields s) \<and> fd_id f = i"
  have "inj_on fd_id (set (sch_fields s))" using wf by (simp add: wf_schema_def strict_sorted_iff distinct_map)
  moreover obtain g where "field_of s i = Some g" using f by (cases "field_of s i") (auto simp: field_of_def find_None_iff)
  ultimately show "field_of s i = Some f" using f by (auto simp: field_of_def find_Some_iff dest: inj_onD)
qed (auto simp: field_of_def find_Some_iff)

lemma matches_kind_has_type: "matches_kind k v \<longleftrightarrow> has_type v k"
  by (cases v; cases k) simp_all

lemma validate_at_Ok: "wf_schema s \<Longrightarrow> is_ok (validate_at s i v) \<longleftrightarrow> (\<exists>f \<in> set (sch_fields s). fd_id f = i \<and> admits f v)"
proof -
  assume wf: "wf_schema s"
  have v: "is_ok (validate_field_value f v) \<longleftrightarrow> admits f v" for f
    by (cases v) (auto simp: validate_field_value_def admits_def matches_kind_has_type)
  show ?thesis
  proof (cases "field_of s i")
    case None
    then show ?thesis using field_of_Some [OF wf, of i] by (auto simp: validate_at_def)
  next
    case (Some g)
    then have "\<forall>f. f \<in> set (sch_fields s) \<and> fd_id f = i \<longleftrightarrow> f = g" using field_of_Some [OF wf, of i] by (metis option.inject)
    then show ?thesis using Some by (auto simp: validate_at_def v)
  qed
qed

lemma validate_complete_state_Ok:
  assumes wf: "wf_schema s" and st: "bt_wf st"
  shows "is_ok (validate_complete_state s st) \<longleftrightarrow> typed_map s (bt_get st)"
proof -
  have "is_ok (validate_complete_state s st) \<longleftrightarrow> (\<forall>i v. (i, v) \<in> set st \<longrightarrow> is_ok (validate_at s i v))
      \<and> (\<forall>f \<in> set (sch_fields s). \<not> fd_nullable f \<longrightarrow> bt_get st (fd_id f) \<noteq> None)"
    unfolding validate_complete_state_def by (auto simp: is_ok_seq map_result_is_ok)
  then show ?thesis by (simp add: typed_map_def validate_at_Ok [OF wf] flip: bt_get_iff [OF st])
qed

lemma map_of_rev_distinct: "distinct (map fst xs) \<Longrightarrow> map_of (rev xs) = map_of xs"
proof (rule ext)
  fix k assume d: "distinct (map fst xs)"
  then have "map_of (rev xs) k = Some v \<longleftrightarrow> map_of xs k = Some v" for v by (simp add: map_of_eq_Some_iff flip: rev_map)
  then show "map_of (rev xs) k = map_of xs k" by (metis option.exhaust)
qed

lemma put_updates:
  assumes "bt_wf st"
  shows "bt_wf (fold put_update us st)" "bt_get (fold put_update us st) = bt_get st ++ map_of (rev (map (\<lambda>u. (fu_field u, fu_value u)) us))"
proof -
  let ?kvs = "map (\<lambda>u. (fu_field u, fu_value u)) us"
  have e: "fold put_update us st = fold (\<lambda>(k, v). bt_insert k v) ?kvs st"
    by (simp add: fold_map put_update_def [abs_def] comp_def)
  show "bt_wf (fold put_update us st)" unfolding e using bt.fold_ins_invar [OF assms, of ?kvs] .
  show "bt_get (fold put_update us st) = bt_get st ++ map_of (rev ?kvs)" unfolding e using bt.fold_ins_get [OF assms, of ?kvs] .
qed

definition updates_map :: "field_update list \<Rightarrow> field_id \<Rightarrow> scalar option" where
  "updates_map us = map_of (map (\<lambda>u. (fu_field u, fu_value u)) us)"

definition updates_shape :: "field_update list \<Rightarrow> bool" where
  "updates_shape us \<longleftrightarrow> us \<noteq> [] \<and> length us \<le> MAX_MUTATION_FIELDS \<and> distinct (map fu_field us)"

lemma validate_upsert_shape_Ok: "validate_upsert_shape us = Ok u \<longleftrightarrow> updates_shape us"
  using first_repeated_None [of "map fu_field us"]
  by (auto simp: validate_upsert_shape_def updates_shape_def split: option.splits)

lemma validate_mutation_Ok:
  assumes "wf_schema s"
  shows "is_ok (validate_mutation s (Upsert us)) \<longleftrightarrow> updates_shape us \<and> (\<forall>u \<in> set us. \<exists>f \<in> set (sch_fields s). fd_id f = fu_field u \<and> admits f (fu_value u))"
  by (simp add: validate_mutation_def is_ok_seq map_result_is_ok validate_at_Ok [OF assms] is_ok_unit [of "validate_upsert_shape us"] validate_upsert_shape_Ok)

lemma validate_not_Panic: "validate_mutation s m \<noteq> Panic" "validate_complete_state s st \<noteq> Panic"
proof -
  have v: "validate_at s i v \<noteq> Panic" for i v
    by (auto simp: validate_at_def validate_field_value_def rbind_eq_Panic)
  show "validate_mutation s m \<noteq> Panic"
    by (auto simp: validate_mutation_def validate_upsert_shape_def rbind_eq_Panic v dest!: map_result_not_Panic [THEN notE, rotated]
        split: mutation.splits if_splits option.splits)
  show "validate_complete_state s st \<noteq> Panic"
    by (auto simp: validate_complete_state_def rbind_eq_Panic v dest!: map_result_not_Panic [THEN notE, rotated] split: if_splits)
qed

lemma schema_apply_spec:
  assumes wf: "wf_schema s" and st: "bt_wf st"
  shows "snd (schema_apply s st (Upsert us)) =
     (if updates_shape us \<and> typed_map s (bt_get st ++ updates_map us) then fold put_update us st else st)"
    "fst (schema_apply s st (Upsert us)) = Ok () \<longleftrightarrow> updates_shape us \<and> typed_map s (bt_get st ++ updates_map us)"
    "fst (schema_apply s st m) \<noteq> Panic"
proof -
  let ?v = "validate_mutation s (Upsert us)" and ?nxt = "fold put_update us st"
  let ?c = "validate_complete_state s ?nxt"
  note P = put_updates [OF st, of us]
  have ok: "is_ok ?v \<and> is_ok ?c \<longleftrightarrow> updates_shape us \<and> typed_map s (bt_get st ++ updates_map us)"
  proof (cases "updates_shape us")
    case True
    then have d: "distinct (map fst (map (\<lambda>u. (fu_field u, fu_value u)) us))" by (simp add: updates_shape_def comp_def)
    have m: "bt_get ?nxt = bt_get st ++ updates_map us" using P(2) unfolding map_of_rev_distinct [OF d] updates_map_def .
    have "is_ok ?v" if t: "typed_map s (bt_get st ++ updates_map us)"
    proof -
      have "(bt_get st ++ updates_map us) (fu_field u) = Some (fu_value u)" if "u \<in> set us" for u
        using that d by (auto simp: updates_map_def map_add_Some_iff intro!: map_of_is_SomeI image_eqI [of _ _ u])
      then show ?thesis using t True unfolding validate_mutation_Ok [OF wf] typed_map_def by blast
    qed
    then show ?thesis using validate_complete_state_Ok [OF wf P(1)] m True by auto
  next
    case False
    then show ?thesis by (simp add: validate_mutation_Ok [OF wf])
  qed
  show spec: "snd (schema_apply s st (Upsert us)) =
     (if updates_shape us \<and> typed_map s (bt_get st ++ updates_map us) then fold put_update us st else st)"
    "fst (schema_apply s st (Upsert us)) = Ok () \<longleftrightarrow> updates_shape us \<and> typed_map s (bt_get st ++ updates_map us)"
    unfolding ok [symmetric] schema_apply_def Let_def mutation.case by (cases ?v; cases ?c; simp)+
  show "fst (schema_apply s st m) \<noteq> Panic"
    using validate_not_Panic by (auto simp: schema_apply_def Let_def rbind_eq_Panic split: mutation.splits result.splits)
qed

lemma schema_apply_invar:
  assumes wf: "wf_schema s" and st: "bt_wf st \<and> (st = [] \<or> typed_map s (bt_get st))"
  shows "bt_wf (snd (schema_apply s st m)) \<and> (snd (schema_apply s st m) = [] \<or> typed_map s (bt_get (snd (schema_apply s st m))))"
proof (cases m)
  case Delete
  then show ?thesis by (simp add: schema_apply_def)
next
  case (Upsert us)
  have b: "bt_wf st" using st by simp
  show ?thesis
  proof (cases "updates_shape us \<and> typed_map s (bt_get st ++ updates_map us)")
    case True
    have "distinct (map fst (map (\<lambda>u. (fu_field u, fu_value u)) us))" using True by (simp add: updates_shape_def comp_def)
    then have "bt_get (fold put_update us st) = bt_get st ++ updates_map us"
      using put_updates(2) [OF b] by (simp add: updates_map_def map_of_rev_distinct)
    then show ?thesis using True put_updates(1) [OF b] unfolding Upsert schema_apply_spec(1) [OF wf b] by simp
  next
    case False
    then show ?thesis using st unfolding Upsert schema_apply_spec(1) [OF wf b] by auto
  qed
qed

text \<open>C25: Entity states are well-typed. For a schema that \<open>Schema::new\<close> accepted, after any sequence of
  mutations, accepted or not, the state is empty or complete and well-typed: every stored value belongs to a
  field of the schema that admits it, and every field that is not nullable is present. An upsert is accepted
  exactly if it is not empty, updates at most \<open>MAX_MUTATION_FIELDS\<close> different fields and the updated state is
  complete and well-typed; then the state is exactly the updated one, and otherwise it is unchanged. No
  application panics.\<close>

theorem schema_states_typed:
  assumes new: "schema_new i ver fs = Ok s" and run: "run_ops (schema_apply s) [] ms = (rs, st)"
  shows "(st = [] \<or> typed_map s (bt_get st))
    \<and> (case schema_apply s st (Upsert us) of (r, st') \<Rightarrow> r \<noteq> Panic
         \<and> (r = Ok () \<longleftrightarrow> us \<noteq> [] \<and> length us \<le> MAX_MUTATION_FIELDS \<and> distinct (map fu_field us) \<and> typed_map s (bt_get st ++ updates_map us))
         \<and> (if r = Ok () then bt_get st' = bt_get st ++ updates_map us else st' = st))"
proof -
  have wf: "wf_schema s" using new by (simp add: schema_new_Ok)
  let ?I = "\<lambda>st. bt_wf st \<and> (st = [] \<or> typed_map s (bt_get st))"
  have "?I (snd (run_ops (schema_apply s) [] ms))"
    by (rule run_ops_invar [where P = ?I]) (use schema_apply_invar [OF wf] in blast, simp)
  then have st: "?I st" using run by simp
  have b: "bt_wf st" using st by simp
  have d: "bt_get (fold put_update us st) = bt_get st ++ updates_map us" if "updates_shape us"
    using put_updates(2) [OF b] that by (simp add: updates_map_def map_of_rev_distinct updates_shape_def comp_def)
  have "snd (schema_apply s st (Upsert us)) = (if fst (schema_apply s st (Upsert us)) = Ok () then fold put_update us st else st)"
    using schema_apply_spec(1,2) [OF wf b, of us] by simp
  then show ?thesis using st schema_apply_spec(2,3) [OF wf b] d
    by (auto simp: case_prod_beta updates_shape_def)
qed

definition sample_schema :: schema where
  "sample_schema = \<lparr>sch_id = 1, sch_version = 1, sch_fields =
     [\<lparr>fd_id = 1, fd_name = [0x61], fd_kind = FtU64, fd_nullable = False, fd_unit = None\<rparr>,
      \<lparr>fd_id = 2, fd_name = [0x62], fd_kind = FtUtf8, fd_nullable = True, fd_unit = Some [0x6D]\<rparr>]\<rparr>"

lemma sample_schema_new: "schema_new 1 1 (sch_fields sample_schema) = Ok sample_schema"
  by (simp add: schema_new_def sample_schema_def MAX_SCHEMA_FIELDS_def validate_fields_def validate_field_name_def validate_field_unit_def
      MAX_FIELD_NAME_BYTES_def MAX_FIELD_UNIT_BYTES_def utf8_width_def utf8_point_def name_start_def in_chars_def trim_chars_def is_whitespace_def is_control_def)

theorem schema_states_typed_witness:
  "schema_new 1 1 (sch_fields sample_schema) = Ok sample_schema
   \<and> fst (run_ops (schema_apply sample_schema) [] [Upsert [\<lparr>fu_field = 2, fu_value = VNull\<rparr>], Upsert [\<lparr>fu_field = 1, fu_value = VU64 7\<rparr>]])
       = [Err (ScMissingRequiredField 1), Ok ()]
   \<and> typed_map sample_schema (bt_get (snd (run_ops (schema_apply sample_schema) []
       [Upsert [\<lparr>fu_field = 2, fu_value = VNull\<rparr>], Upsert [\<lparr>fu_field = 1, fu_value = VU64 7\<rparr>]])))"
proof -
  let ?ms = "[Upsert [\<lparr>fu_field = 2, fu_value = VNull\<rparr>], Upsert [\<lparr>fu_field = 1, fu_value = VU64 7\<rparr>]]"
  have r: "run_ops (schema_apply sample_schema) [] ?ms = ([Err (ScMissingRequiredField 1), Ok ()], [(1, VU64 7)])"
    by (simp add: run_ops.simps schema_apply_def validate_mutation_def validate_upsert_shape_def MAX_MUTATION_FIELDS_def MAX_SCHEMA_FIELDS_def validate_at_def field_of_def
        sample_schema_def validate_field_value_def put_update_def validate_complete_state_def bt_get_def)
  show ?thesis using schema_states_typed [OF sample_schema_new r, of "[]"] sample_schema_new unfolding r by simp
qed

end
