(* ===== verification/Schema_Codec.thy ===== *)
theory Schema_Codec
  imports Schema_Types
begin

section \<open>Binary form of mutations and schemas (\<open>temnion-schema\<close>)\<close>

text \<open>
  The decoder's cursor is represented by the bytes from its position on; the sum of a position and a length
  read from 32 bits does not overflow, so the overflow branch of \<open>Cursor::take\<close> is left out. Encoders compute
  the size first with checked additions, and \<open>debug_assert_eq!\<close> compares it with the bytes written: a
  difference is a panic. \<open>alloc\<close> decides whether a fallible reservation succeeds.
\<close>

definition SCHEMA_ENCODING_VERSION :: u8 where "SCHEMA_ENCODING_VERSION = 1"
definition MUTATION_ENCODING_VERSION :: u8 where "MUTATION_ENCODING_VERSION = 1"

fun ft_tag :: "field_type \<Rightarrow> u8" where
  "ft_tag FtBool = 0" | "ft_tag FtI64 = 1" | "ft_tag FtU64 = 2" | "ft_tag FtF64 = 3" | "ft_tag FtUtf8 = 4" | "ft_tag FtBytes = 5"

definition ft_from_tag :: "u8 \<Rightarrow> (field_type, schema_error) result" where
  "ft_from_tag t = (if t = 0 then Ok FtBool else if t = 1 then Ok FtI64 else if t = 2 then Ok FtU64 else if t = 3 then Ok FtF64
     else if t = 4 then Ok FtUtf8 else if t = 5 then Ok FtBytes else Err (ScInvalidFieldTypeTag t))"

subsection \<open>Encoding\<close>

definition checked_add_size :: "usize \<Rightarrow> usize \<Rightarrow> string \<Rightarrow> (usize, schema_error) result" where
  "checked_add_size total_size add what = ok_or (checked_add_usize total_size add) (ScSizeOverflow what)"

definition u32_length :: "string \<Rightarrow> usize \<Rightarrow> (u32, schema_error) result" where
  "u32_length what n = ok_or (try_from_usize n) (ScLengthOutOfRange what (of_nat n) 0xFFFFFFFF)"

definition u16_length :: "string \<Rightarrow> usize \<Rightarrow> (u16, schema_error) result" where
  "u16_length what n = ok_or (try_from_usize n) (ScLengthOutOfRange what (of_nat n) 0xFFFF)"

fun value_encoded_size :: "scalar \<Rightarrow> (usize, schema_error) result" where
  "value_encoded_size VNull = Ok 1"
| "value_encoded_size (VBool _) = Ok 2"
| "value_encoded_size (VI64 _) = Ok 9"
| "value_encoded_size (VU64 _) = Ok 9"
| "value_encoded_size (VF64Bits _) = Ok 9"
| "value_encoded_size (VUtf8 t) = (if length t > 0xFFFFFFFF then Err (ScLengthOutOfRange ''utf8 value'' (of_nat (length t)) 0xFFFFFFFF)
     else checked_add_size 5 (length t) ''value encoding'')"
| "value_encoded_size (VBytes t) = (if length t > 0xFFFFFFFF then Err (ScLengthOutOfRange ''byte value'' (of_nat (length t)) 0xFFFFFFFF)
     else checked_add_size 5 (length t) ''value encoding'')"

definition mutation_encoded_size :: "mutation \<Rightarrow> (usize, schema_error) result" where
  "mutation_encoded_size m = (case m of
       Delete \<Rightarrow> Ok 2
     | Upsert updates \<Rightarrow>
         rbind (validate_upsert_shape updates) (\<lambda>_.
         rbind (checked_add_size 2 4 ''mutation encoding'') (\<lambda>n.
         fold_result (\<lambda>u n.
           rbind (checked_add_size n 2 ''mutation encoding'') (\<lambda>n.
           rbind (value_encoded_size (fu_value u)) (\<lambda>k. checked_add_size n k ''mutation encoding''))) updates n)))"

fun write_value :: "scalar \<Rightarrow> (bytes, schema_error) result" where
  "write_value VNull = Ok [0]"
| "write_value (VBool b) = Ok [1, (if b then 1 else 0)]"
| "write_value (VI64 i) = Ok (2 # to_le 8 i)"
| "write_value (VU64 u) = Ok (3 # to_le 8 u)"
| "write_value (VF64Bits u) = Ok (4 # to_le 8 u)"
| "write_value (VUtf8 t) = rbind (u32_length ''utf8 value'' (length t)) (\<lambda>n. Ok (5 # to_le 4 n @ t))"
| "write_value (VBytes t) = rbind (u32_length ''byte value'' (length t)) (\<lambda>n. Ok (6 # to_le 4 n @ t))"

text \<open>The next update in the order of fields: the least one above the previous.\<close>

fun next_update_loop :: "field_id option \<Rightarrow> field_update option \<Rightarrow> field_update list \<Rightarrow> field_update option" where
  "next_update_loop previous best [] = best"
| "next_update_loop previous best (u # us) =
     (if (case previous of None \<Rightarrow> False | Some p \<Rightarrow> fu_field u \<le> p) then next_update_loop previous best us
      else if (case best of None \<Rightarrow> True | Some b \<Rightarrow> fu_field u < fu_field b) then next_update_loop previous (Some u) us
      else next_update_loop previous best us)"

definition next_update_after :: "field_update list \<Rightarrow> field_id option \<Rightarrow> field_update option" where
  "next_update_after updates previous = next_update_loop previous None updates"

fun write_updates :: "field_update list \<Rightarrow> nat \<Rightarrow> field_id option \<Rightarrow> (bytes, schema_error) result" where
  "write_updates updates 0 previous = Ok []"
| "write_updates updates (Suc n) previous =
     rbind (ok_or (next_update_after updates previous) (ScSizeOverflow ''mutation sort'')) (\<lambda>u.
     rbind (write_value (fu_value u)) (\<lambda>v.
     rbind (write_updates updates n (Some (fu_field u))) (\<lambda>rest.
     Ok (to_le 2 (fu_field u) @ v @ rest))))"

definition encode_mutation :: "(usize \<Rightarrow> bool) \<Rightarrow> mutation \<Rightarrow> usize \<Rightarrow> (bytes, schema_error) result" where
  "encode_mutation alloc m max_bytes =
     rbind (mutation_encoded_size m) (\<lambda>sz.
     if sz > max_bytes then Err (ScOutputTooLarge sz max_bytes) else
     rbind (try_reserve alloc sz ScAllocationFailed) (\<lambda>_.
     rbind (case m of
         Delete \<Rightarrow> Ok [MUTATION_ENCODING_VERSION, 0]
       | Upsert updates \<Rightarrow>
           rbind (validate_upsert_shape updates) (\<lambda>_.
           rbind (u32_length ''update count'' (length updates)) (\<lambda>n.
           rbind (write_updates updates (length updates) None) (\<lambda>body.
           Ok ([MUTATION_ENCODING_VERSION, 1] @ to_le 4 n @ body))))) (\<lambda>bs.
     if length bs \<noteq> sz then Panic else Ok bs)))"

definition field_encoded_size :: "schema_field \<Rightarrow> usize \<Rightarrow> (usize, schema_error) result" where
  "field_encoded_size f n =
     rbind (checked_add_size n 2 ''schema encoding'') (\<lambda>n.
     rbind (checked_add_size n 1 ''schema encoding'') (\<lambda>n.
     rbind (checked_add_size n 1 ''schema encoding'') (\<lambda>n.
     rbind (checked_add_size n 2 ''schema encoding'') (\<lambda>n.
     rbind (checked_add_size n (length (fd_name f)) ''schema encoding'') (\<lambda>n.
     rbind (checked_add_size n 1 ''schema encoding'') (\<lambda>n.
     case fd_unit f of
       None \<Rightarrow> Ok n
     | Some u \<Rightarrow>
         rbind (checked_add_size n 2 ''schema encoding'') (\<lambda>n.
         checked_add_size n (length u) ''schema encoding'')))))))"

definition schema_encoded_size :: "schema \<Rightarrow> (usize, schema_error) result" where
  "schema_encoded_size s =
     (if length (sch_fields s) > MAX_SCHEMA_FIELDS then Err (ScTooManyFields (length (sch_fields s)) MAX_SCHEMA_FIELDS)
      else fold_result field_encoded_size (sch_fields s) 13)"

definition encode_field :: "schema_field \<Rightarrow> (bytes, schema_error) result" where
  "encode_field f =
     rbind (u16_length ''field name'' (length (fd_name f))) (\<lambda>n.
     rbind (case fd_unit f of
         Some u \<Rightarrow> rbind (u16_length ''field unit'' (length u)) (\<lambda>k. Ok (1 # to_le 2 k @ u))
       | None \<Rightarrow> Ok [0]) (\<lambda>unit_bytes.
     Ok (to_le 2 (fd_id f) @ [ft_tag (fd_kind f), if fd_nullable f then 1 else 0] @ to_le 2 n @ fd_name f @ unit_bytes)))"

definition encode_schema :: "(usize \<Rightarrow> bool) \<Rightarrow> schema \<Rightarrow> usize \<Rightarrow> (bytes, schema_error) result" where
  "encode_schema alloc s max_bytes =
     rbind (schema_encoded_size s) (\<lambda>sz.
     if sz > max_bytes then Err (ScOutputTooLarge sz max_bytes) else
     rbind (try_reserve alloc sz ScAllocationFailed) (\<lambda>_.
     rbind (u32_length ''field count'' (length (sch_fields s))) (\<lambda>n.
     rbind (map_result encode_field (sch_fields s)) (\<lambda>body.
     let bs = [SCHEMA_ENCODING_VERSION] @ to_le 4 (sch_id s) @ to_le 4 (sch_version s) @ to_le 4 n @ concat body in
     if length bs \<noteq> sz then Panic else Ok bs))))"

subsection \<open>Decoding\<close>

definition cursor_take :: "usize \<Rightarrow> bytes \<Rightarrow> (bytes \<times> bytes, schema_error) result" where
  "cursor_take n rest = read_fixed n (ScTruncated n (length rest)) rest"

definition cursor_u8 :: "bytes \<Rightarrow> (u8 \<times> bytes, schema_error) result" where
  "cursor_u8 rest = read_u8 (ScTruncated 1 (length rest)) rest"

definition cursor_u16 :: "bytes \<Rightarrow> (u16 \<times> bytes, schema_error) result" where
  "cursor_u16 rest = read_u16 (ScTruncated 2 (length rest)) rest"

definition cursor_u32 :: "bytes \<Rightarrow> (u32 \<times> bytes, schema_error) result" where
  "cursor_u32 rest = read_u32 (ScTruncated 4 (length rest)) rest"

definition cursor_u64 :: "bytes \<Rightarrow> (u64 \<times> bytes, schema_error) result" where
  "cursor_u64 rest = read_u64 (ScTruncated 8 (length rest)) rest"

definition cursor_bool :: "bytes \<Rightarrow> (bool \<times> bytes, schema_error) result" where
  "cursor_bool rest = rbind (cursor_u8 rest) (\<lambda>(b, rest).
     if b = 0 then Ok (False, rest) else if b = 1 then Ok (True, rest) else Err (ScInvalidBoolean b))"

definition cursor_u16_len :: "string \<Rightarrow> usize \<Rightarrow> bytes \<Rightarrow> (usize \<times> bytes, schema_error) result" where
  "cursor_u16_len what maxlen rest = rbind (cursor_u16 rest) (\<lambda>(n, rest).
     if unat n > maxlen then Err (ScMetadataTooLong what (unat n) maxlen) else Ok (unat n, rest))"

definition cursor_u32_len :: "string \<Rightarrow> usize \<Rightarrow> bytes \<Rightarrow> (usize \<times> bytes, schema_error) result" where
  "cursor_u32_len what maxlen rest = rbind (cursor_u32 rest) (\<lambda>(n, rest).
     if unat n > maxlen then Err (ScLengthOutOfRange what (ucast n) maxlen) else Ok (unat n, rest))"

definition owned_utf8 :: "(usize \<Rightarrow> bool) \<Rightarrow> bytes \<Rightarrow> string \<Rightarrow> (bytes, schema_error) result" where
  "owned_utf8 alloc bs what = rbind (from_utf8 (ScInvalidUtf8 what) bs) (\<lambda>t.
     rbind (try_reserve alloc (length t) ScAllocationFailed) (\<lambda>_. Ok t))"

definition owned_bytes :: "(usize \<Rightarrow> bool) \<Rightarrow> bytes \<Rightarrow> (bytes, schema_error) result" where
  "owned_bytes alloc bs = rbind (try_reserve alloc (length bs) ScAllocationFailed) (\<lambda>_. Ok bs)"

definition cursor_value :: "(usize \<Rightarrow> bool) \<Rightarrow> usize \<Rightarrow> bytes \<Rightarrow> (scalar \<times> bytes, schema_error) result" where
  "cursor_value alloc max_bytes rest =
     rbind (cursor_u8 rest) (\<lambda>(tag, rest).
     if tag = 0 then Ok (VNull, rest)
     else if tag = 1 then rbind (cursor_bool rest) (\<lambda>(b, rest). Ok (VBool b, rest))
     else if tag = 2 then rbind (cursor_u64 rest) (\<lambda>(i, rest). Ok (VI64 i, rest))
     else if tag = 3 then rbind (cursor_u64 rest) (\<lambda>(u, rest). Ok (VU64 u, rest))
     else if tag = 4 then rbind (cursor_u64 rest) (\<lambda>(u, rest). Ok (VF64Bits u, rest))
     else if tag = 5 then
       rbind (cursor_u32_len ''utf8 value'' max_bytes rest) (\<lambda>(n, rest).
       rbind (cursor_take n rest) (\<lambda>(bs, rest).
       rbind (owned_utf8 alloc bs ''utf8 value'') (\<lambda>t. Ok (VUtf8 t, rest))))
     else if tag = 6 then
       rbind (cursor_u32_len ''byte value'' max_bytes rest) (\<lambda>(n, rest).
       rbind (cursor_take n rest) (\<lambda>(bs, rest).
       rbind (owned_bytes alloc bs) (\<lambda>t. Ok (VBytes t, rest))))
     else Err (ScInvalidValueTag tag))"

definition check_order :: "(field_id \<Rightarrow> schema_error) \<Rightarrow> field_id option \<Rightarrow> field_id \<Rightarrow> (unit, schema_error) result" where
  "check_order dup previous f = (case previous of
       None \<Rightarrow> Ok ()
     | Some p \<Rightarrow> if f = p then Err (dup f) else if f < p then Err (ScNonCanonicalFieldOrder p f) else Ok ())"

fun decode_updates :: "(usize \<Rightarrow> bool) \<Rightarrow> usize \<Rightarrow> nat \<Rightarrow> field_id option \<Rightarrow> bytes \<Rightarrow> (field_update list \<times> bytes, schema_error) result" where
  "decode_updates alloc max_bytes 0 previous rest = Ok ([], rest)"
| "decode_updates alloc max_bytes (Suc n) previous rest =
     rbind (cursor_u16 rest) (\<lambda>(f, rest).
     rbind (check_order ScDuplicateMutationField previous f) (\<lambda>_.
     rbind (cursor_value alloc max_bytes rest) (\<lambda>(v, rest).
     rbind (decode_updates alloc max_bytes n (Some f) rest) (\<lambda>(us, rest).
     Ok (\<lparr>fu_field = f, fu_value = v\<rparr> # us, rest)))))"

definition cursor_finish :: "bytes \<Rightarrow> (unit, schema_error) result" where
  "cursor_finish rest = (if rest = [] then Ok () else Err (ScTrailingBytes (length rest)))"

definition decode_mutation :: "(usize \<Rightarrow> bool) \<Rightarrow> bytes \<Rightarrow> usize \<Rightarrow> (mutation, schema_error) result" where
  "decode_mutation alloc bs max_bytes =
     (if length bs > max_bytes then Err (ScInputTooLarge (length bs) max_bytes) else
      rbind (cursor_u8 bs) (\<lambda>(version, rest).
      if version \<noteq> MUTATION_ENCODING_VERSION then Err (ScInvalidEncodingVersion ''mutation'' version) else
      rbind (cursor_u8 rest) (\<lambda>(tag, rest).
      rbind (if tag = 0 then Ok (Delete, rest)
             else if tag = 1 then
               rbind (cursor_u32 rest) (\<lambda>(n, rest).
               if n = 0 then Err ScEmptyUpsert
               else if unat n > MAX_MUTATION_FIELDS then Err (ScTooManyUpdates (unat n) MAX_MUTATION_FIELDS) else
               rbind (try_reserve alloc (unat n) ScAllocationFailed) (\<lambda>_.
               rbind (decode_updates alloc max_bytes (unat n) None rest) (\<lambda>(us, rest).
               Ok (Upsert us, rest))))
             else Err (ScInvalidMutationTag tag)) (\<lambda>(m, rest).
      rbind (cursor_finish rest) (\<lambda>_. Ok m)))))"

definition decode_field :: "(usize \<Rightarrow> bool) \<Rightarrow> field_id option \<Rightarrow> bytes \<Rightarrow> (schema_field \<times> bytes, schema_error) result" where
  "decode_field alloc previous rest =
     rbind (cursor_u16 rest) (\<lambda>(i, rest).
     rbind (check_order ScDuplicateFieldId previous i) (\<lambda>_.
     rbind (cursor_u8 rest) (\<lambda>(t, rest).
     rbind (ft_from_tag t) (\<lambda>kind.
     rbind (cursor_bool rest) (\<lambda>(nullable, rest).
     rbind (cursor_u16_len ''field name'' MAX_FIELD_NAME_BYTES rest) (\<lambda>(n, rest).
     rbind (cursor_take n rest) (\<lambda>(bs, rest).
     rbind (owned_utf8 alloc bs ''field name'') (\<lambda>name.
     rbind (cursor_bool rest) (\<lambda>(has_unit, rest).
     rbind (if has_unit then
              rbind (cursor_u16_len ''field unit'' MAX_FIELD_UNIT_BYTES rest) (\<lambda>(k, rest).
              rbind (cursor_take k rest) (\<lambda>(us, rest).
              rbind (owned_utf8 alloc us ''field unit'') (\<lambda>u. Ok (Some u, rest))))
            else Ok (None, rest)) (\<lambda>(unit_text, rest).
     Ok (\<lparr>fd_id = i, fd_name = name, fd_kind = kind, fd_nullable = nullable, fd_unit = unit_text\<rparr>, rest)))))))))))"

fun decode_fields :: "(usize \<Rightarrow> bool) \<Rightarrow> nat \<Rightarrow> field_id option \<Rightarrow> bytes \<Rightarrow> (schema_field list \<times> bytes, schema_error) result" where
  "decode_fields alloc 0 previous rest = Ok ([], rest)"
| "decode_fields alloc (Suc n) previous rest =
     rbind (decode_field alloc previous rest) (\<lambda>(f, rest).
     rbind (decode_fields alloc n (Some (fd_id f)) rest) (\<lambda>(fs, rest).
     Ok (f # fs, rest)))"

definition decode_schema :: "(usize \<Rightarrow> bool) \<Rightarrow> bytes \<Rightarrow> usize \<Rightarrow> (schema, schema_error) result" where
  "decode_schema alloc bs max_bytes =
     (if length bs > max_bytes then Err (ScInputTooLarge (length bs) max_bytes) else
      rbind (cursor_u8 bs) (\<lambda>(version, rest).
      if version \<noteq> SCHEMA_ENCODING_VERSION then Err (ScInvalidEncodingVersion ''schema'' version) else
      rbind (cursor_u32 rest) (\<lambda>(i, rest).
      rbind (cursor_u32 rest) (\<lambda>(schema_version, rest).
      rbind (cursor_u32 rest) (\<lambda>(n, rest).
      if unat n > MAX_SCHEMA_FIELDS then Err (ScTooManyFields (unat n) MAX_SCHEMA_FIELDS) else
      rbind (try_reserve alloc (unat n) ScAllocationFailed) (\<lambda>_.
      rbind (decode_fields alloc (unat n) None rest) (\<lambda>(fs, rest).
      rbind (cursor_finish rest) (\<lambda>_. schema_new i schema_version fs))))))))"

end
