(* ===== verification/Schema_Exact.thy ===== *)
theory Schema_Exact
  imports Schema_Codec "HOL-Library.Multiset"
begin

section \<open>Decoders and encoders of \<open>temnion-schema\<close> are inverse to each other\<close>

text \<open>
  The canonical bytes of values, updates and fields are given directly; the encoders produce exactly them and
  the decoders accept exactly them.
\<close>

subsection \<open>Cursor\<close>

lemma to_le_1 [simp]: "to_le 1 (b :: u8) = [b]" "to_le (Suc 0) (b :: u8) = [b]"
  by simp_all

lemma cursor_Ok [result_ok]:
  "cursor_take n rest = Ok (v, r) \<longleftrightarrow> rest = v @ r \<and> length v = n"
  "cursor_u8 rest = Ok (b, r) \<longleftrightarrow> rest = b # r"
  "cursor_u16 rest = Ok (h, r) \<longleftrightarrow> rest = to_le 2 h @ r"
  "cursor_u32 rest = Ok (w, r) \<longleftrightarrow> rest = to_le 4 w @ r"
  "cursor_u64 rest = Ok (l, r) \<longleftrightarrow> rest = to_le 8 l @ r"
  unfolding cursor_take_def cursor_u8_def cursor_u16_def cursor_u32_def cursor_u64_def by (simp_all only: read_Ok read_fixed_Ok to_le_1 append_Cons append_Nil)

lemma cursor_u8_simps [simp]: "cursor_u8 (b # r) = Ok (b, r)" "cursor_u8 [] = Err (ScTruncated 1 0)"
  by (simp_all add: cursor_Ok) (simp add: cursor_u8_def read_u8_def read_fixed_def)

lemma cursor_append [simp]:
  "cursor_u16 (to_le 2 h @ r) = Ok (h, r)" "cursor_u32 (to_le 4 w @ r) = Ok (w, r)" "cursor_u64 (to_le 8 l @ r) = Ok (l, r)"
  "cursor_take (length v) (v @ r) = Ok (v, r)"
  by (simp_all add: cursor_Ok)

definition bool_byte :: "bool \<Rightarrow> u8" where
  "bool_byte b = (if b then 1 else 0)"

lemma cursor_bool_Ok [result_ok]: "cursor_bool rest = Ok (b, r) \<longleftrightarrow> rest = bool_byte b # r"
  by (cases rest) (auto simp: cursor_bool_def bool_byte_def)

lemma cursor_bool_byte [simp]: "cursor_bool (bool_byte b # r) = Ok (b, r)" "cursor_bool (0 # r) = Ok (False, r)" "cursor_bool (1 # r) = Ok (True, r)"
  by (simp_all add: cursor_bool_Ok bool_byte_def)

lemma cursor_u16_len_Ok [result_ok]: "cursor_u16_len what m rest = Ok (n, r) \<longleftrightarrow> n \<le> m \<and> n < 2 ^ 16 \<and> rest = to_le 2 (of_nat n :: u16) @ r"
proof -
  have "unat (k :: u16) = n \<longleftrightarrow> n < 2 ^ 16 \<and> k = of_nat n" for k by (auto simp: unat_of_nat_small)
  then show ?thesis by (auto simp: cursor_u16_len_def result_ok)
qed

lemma cursor_u32_len_Ok [result_ok]: "cursor_u32_len what m rest = Ok (n, r) \<longleftrightarrow> n \<le> m \<and> n < 2 ^ 32 \<and> rest = to_le 4 (of_nat n :: u32) @ r"
proof -
  have "unat (k :: u32) = n \<longleftrightarrow> n < 2 ^ 32 \<and> k = of_nat n" for k by (auto simp: unat_of_nat_small)
  then show ?thesis by (auto simp: cursor_u32_len_def result_ok)
qed

lemma owned_Ok [result_ok]:
  "owned_utf8 alloc bs what = Ok t \<longleftrightarrow> utf8_valid bs \<and> alloc (length bs) \<and> t = bs"
  "owned_bytes alloc bs = Ok t \<longleftrightarrow> alloc (length bs) \<and> t = bs"
  by (auto simp: owned_utf8_def owned_bytes_def from_utf8_def result_ok)

lemma check_order_Ok [result_ok]: "check_order dup p f = Ok u \<longleftrightarrow> (case p of None \<Rightarrow> True | Some q \<Rightarrow> q < f)"
  by (auto simp: check_order_def split: option.splits)

lemma cursor_finish_Ok [result_ok]: "cursor_finish rest = Ok u \<longleftrightarrow> rest = []"
  by (simp add: cursor_finish_def)

lemma lengths_Ok [result_ok]:
  "u32_length what n = Ok w \<longleftrightarrow> n < 2 ^ 32 \<and> w = of_nat n"
  "u16_length what n = Ok h \<longleftrightarrow> n < 2 ^ 16 \<and> h = of_nat n"
  "checked_add_size a b what = Ok c \<longleftrightarrow> a + b < 2 ^ 64 \<and> c = a + b"
  by (auto simp: u32_length_def u16_length_def checked_add_size_def try_from_usize_def checked_add_usize_def ok_or_eq_Ok)

subsection \<open>Values and mutations\<close>

fun scalar_bytes :: "scalar \<Rightarrow> bytes" where
  "scalar_bytes VNull = [0]"
| "scalar_bytes (VBool b) = [1, bool_byte b]"
| "scalar_bytes (VI64 i) = 2 # to_le 8 i"
| "scalar_bytes (VU64 u) = 3 # to_le 8 u"
| "scalar_bytes (VF64Bits u) = 4 # to_le 8 u"
| "scalar_bytes (VUtf8 t) = 5 # to_le 4 (of_nat (length t) :: u32) @ t"
| "scalar_bytes (VBytes t) = 6 # to_le 4 (of_nat (length t) :: u32) @ t"

text \<open>The payload of a value; a text is well-formed UTF-8.\<close>

fun payload_length :: "scalar \<Rightarrow> nat" where
  "payload_length (VUtf8 t) = length t"
| "payload_length (VBytes t) = length t"
| "payload_length _ = 0"

fun wf_scalar :: "scalar \<Rightarrow> bool" where
  "wf_scalar (VUtf8 t) = utf8_valid t"
| "wf_scalar _ = True"

lemma write_value_Ok: "write_value v = Ok bs \<longleftrightarrow> payload_length v < 2 ^ 32 \<and> bs = scalar_bytes v"
  by (cases v) (auto simp: result_ok bool_byte_def)

lemma value_encoded_size_Ok: "value_encoded_size v = Ok n \<longleftrightarrow> payload_length v < 2 ^ 32 \<and> n = length (scalar_bytes v)"
  by (cases v) (auto simp: result_ok)

lemma cursor_value_Ok:
  assumes al: "\<And>n. alloc n"
  shows "cursor_value alloc m rest = Ok (v, r) \<longleftrightarrow> rest = scalar_bytes v @ r \<and> wf_scalar v \<and> payload_length v < 2 ^ 32 \<and> payload_length v \<le> m"
  by (cases rest; cases v) (auto simp: cursor_value_def result_ok al)

definition update_bytes :: "field_update \<Rightarrow> bytes" where
  "update_bytes u = to_le 2 (fu_field u) @ scalar_bytes (fu_value u)"

definition above :: "field_id option \<Rightarrow> field_id list \<Rightarrow> bool" where
  "above p fs \<longleftrightarrow> sorted_wrt (<) fs \<and> (case p of None \<Rightarrow> True | Some q \<Rightarrow> \<forall>f \<in> set fs. q < f)"

lemma above_Nil [simp]: "above p []"
  by (simp add: above_def split: option.split)

lemma above_Cons [simp]: "above p (f # fs) \<longleftrightarrow> (case p of None \<Rightarrow> True | Some q \<Rightarrow> q < f) \<and> above (Some f) fs"
  by (auto simp: above_def split: option.splits)

definition value_fits :: "usize \<Rightarrow> field_update \<Rightarrow> bool" where
  "value_fits m u \<longleftrightarrow> wf_scalar (fu_value u) \<and> payload_length (fu_value u) < 2 ^ 32 \<and> payload_length (fu_value u) \<le> m"

lemma decode_updates_Ok:
  assumes al: "\<And>n. alloc n"
  shows "decode_updates alloc m n p rest = Ok (us, r) \<longleftrightarrow>
     length us = n \<and> rest = concat (map update_bytes us) @ r \<and> above p (map fu_field us) \<and> list_all (value_fits m) us"
proof (induction n arbitrary: p rest us)
  case (Suc n)
  show ?case
  proof (cases us)
    case Nil
    then show ?thesis by (auto simp: result_ok)
  next
    case (Cons u us')
    show ?thesis unfolding Cons
      by (cases u) (auto simp: result_ok Suc.IH cursor_value_Ok [OF al] update_bytes_def value_fits_def)
  qed
qed auto

fun mutation_bytes :: "mutation \<Rightarrow> bytes" where
  "mutation_bytes Delete = [1, 0]"
| "mutation_bytes (Upsert us) = [1, 1] @ to_le 4 (of_nat (length us) :: u32) @ concat (map update_bytes us)"

text \<open>Mutations as the decoder returns them: fields ascending, texts well-formed, lengths in range.\<close>

fun wf_mutation :: "mutation \<Rightarrow> bool" where
  "wf_mutation Delete = True"
| "wf_mutation (Upsert us) = list_all (\<lambda>u. wf_scalar (fu_value u)) us"

fun canonical :: "mutation \<Rightarrow> mutation" where
  "canonical Delete = Delete"
| "canonical (Upsert us) = Upsert (sort_key fu_field us)"

fun encodable :: "mutation \<Rightarrow> bool" where
  "encodable Delete = True"
| "encodable (Upsert us) = (updates_shape us \<and> list_all (\<lambda>u. payload_length (fu_value u) < 2 ^ 32) us)"


subsection \<open>Selection in the order of fields is a sort\<close>

definition past :: "field_id option \<Rightarrow> field_update \<Rightarrow> bool" where
  "past p u \<longleftrightarrow> (case p of None \<Rightarrow> True | Some q \<Rightarrow> q < fu_field u)"

lemma hd_insort_key: "hd (insort_key f x xs) = (if xs = [] \<or> f x \<le> f (hd xs) then x else hd xs)"
  by (cases xs) simp_all

lemma insort_key_not_Nil [simp]: "insort_key f x xs \<noteq> []"
  by (cases xs) simp_all

lemma hd_insort_two:
  fixes b :: 'x and f :: "'x \<Rightarrow> 'k::linorder"
  shows "hd (insort_key f b (insort_key f u S)) = hd (insort_key f (if f u < f b then u else b) S)"
  unfolding hd_insort_key [of f b "insort_key f u S"] hd_insort_key [of f _ S] by (auto simp: not_le not_less)

lemma loop_Cons:
  "next_update_loop p best (u # us) = (if \<not> past p u then next_update_loop p best us
     else next_update_loop p (case best of None \<Rightarrow> Some u | Some b \<Rightarrow> Some (if fu_field u < fu_field b then u else b)) us)"
  by (auto simp: past_def split: option.splits)

lemma next_update_loop_Some:
  "next_update_loop p (Some b) us = Some (hd (insort_key fu_field b (sort_key fu_field (filter (past p) us))))"
proof (induction us arbitrary: b)
  case (Cons u us)
  show ?case unfolding loop_Cons by (cases "past p u") (simp_all add: Cons.IH hd_insort_two)
qed simp

lemma next_update_after_sort:
  "next_update_after us p = (if filter (past p) us = [] then None else Some (hd (sort_key fu_field (filter (past p) us))))"
proof -
  have "next_update_loop p None us = (if filter (past p) us = [] then None else Some (hd (sort_key fu_field (filter (past p) us))))"
  proof (induction us)
    case (Cons u us)
    show ?case unfolding loop_Cons by (cases "past p u") (simp_all add: Cons.IH next_update_loop_Some)
  qed simp
  then show ?thesis by (simp add: next_update_after_def)
qed

lemma past_rest:
  assumes "sorted_wrt (<) (map fu_field G)" "filter (past p) G = u # F"
  shows "filter (past (Some (fu_field u))) G = F"
proof -
  have s: "sorted_wrt (<) (map fu_field (u # F))" using assms sorted_wrt_filter [of "\<lambda>a b. fu_field a < fu_field b" G "past p"]
    by (simp add: sorted_wrt_map)
  have "u \<in> set (filter (past p) G)" using assms(2) by simp
  then have "filter (past (Some (fu_field u))) G = filter (past (Some (fu_field u))) (filter (past p) G)"
    by (auto simp: past_def intro!: filter_cong split: option.splits)
  also have "\<dots> = F" using s unfolding assms(2) by (auto simp: past_def filter_id_conv)
  finally show ?thesis .
qed

lemma write_updates_Ok:
  assumes d: "distinct (map fu_field us)"
  shows "filter (past p) (sort_key fu_field us) = F \<Longrightarrow> write_updates us (length F) p = Ok bs \<longleftrightarrow>
     list_all (\<lambda>u. payload_length (fu_value u) < 2 ^ 32) F \<and> bs = concat (map update_bytes F)"
proof (induction F arbitrary: p bs)
  case (Cons u F)
  have G: "sorted_wrt (<) (map fu_field (sort_key fu_field us))" using d by (simp add: strict_sorted_iff distinct_map)
  have F: "sort_key fu_field (filter (past p) us) = u # F" using Cons.prems by (simp add: filter_sort)
  then have "filter (past p) us \<noteq> []" by auto
  then have "next_update_after us p = Some u" using F by (simp add: next_update_after_sort)
  moreover have "filter (past (Some (fu_field u))) (sort_key fu_field us) = F" using past_rest [OF G Cons.prems] .
  ultimately show ?case using Cons.IH [of "Some (fu_field u)"]
    by (auto simp: result_ok write_value_Ok update_bytes_def)
qed auto

lemma size_loop_Ok:
  "fold_result (\<lambda>u n. rbind (checked_add_size n 2 w) (\<lambda>n. rbind (value_encoded_size (fu_value u)) (\<lambda>k. checked_add_size n k w))) us n = Ok k \<longleftrightarrow>
     list_all (\<lambda>u. payload_length (fu_value u) < 2 ^ 32) us \<and> k = n + length (concat (map update_bytes us)) \<and> (us = [] \<or> k < 2 ^ 64)"
proof (induction us arbitrary: n)
  case (Cons u us)
  show ?case by (auto simp: result_ok value_encoded_size_Ok Cons.IH update_bytes_def)
qed auto

lemma length_update_bytes_sort: "length (concat (map update_bytes (sort_key fu_field us))) = length (concat (map update_bytes us))"
proof -
  have "mset (map (\<lambda>u. length (update_bytes u)) (sort_key fu_field us)) = mset (map (\<lambda>u. length (update_bytes u)) us)" by simp
  then show ?thesis by (simp add: length_concat comp_def flip: sum_mset_sum_list)
qed

lemma encode_mutation_Ok:
  assumes al: "\<And>n. alloc n"
  shows "encode_mutation alloc m mx = Ok bs \<longleftrightarrow> encodable m \<and> bs = mutation_bytes (canonical m) \<and> length bs \<le> mx \<and> length bs < 2 ^ 64"
proof (cases m)
  case Delete
  then show ?thesis by (auto simp: encode_mutation_def mutation_encoded_size_def result_ok al MUTATION_ENCODING_VERSION_def)
next
  case (Upsert us)
  show ?thesis
  proof (cases "updates_shape us")
    case True
    then have sh: "us \<noteq> []" "length us < 2 ^ 32" "distinct (map fu_field us)"
      by (simp_all add: updates_shape_def MAX_MUTATION_FIELDS_def MAX_SCHEMA_FIELDS_def)
    have v: "validate_upsert_shape us = Ok ()" using True validate_upsert_shape_Ok by blast
    have all: "filter (past None) (sort_key fu_field us) = sort_key fu_field us" by (simp add: past_def filter_id_conv)
    have W: "write_updates us (length us) None = Ok b \<longleftrightarrow>
        list_all (\<lambda>u. payload_length (fu_value u) < 2 ^ 32) us \<and> b = concat (map update_bytes (sort_key fu_field us))" for b
      using write_updates_Ok [OF sh(3) all, of b] by (simp add: list_all_iff)
    show ?thesis unfolding Upsert
      using True sh length_update_bytes_sort [of us]
      by (auto simp: encode_mutation_def mutation_encoded_size_def v result_ok size_loop_Ok al W MUTATION_ENCODING_VERSION_def)
  next
    case False
    then have "validate_upsert_shape us \<noteq> Ok u" for u using validate_upsert_shape_Ok by blast
    then show ?thesis using False unfolding Upsert by (auto simp: encode_mutation_def mutation_encoded_size_def result_ok)
  qed
qed

lemma sort_Nil_iff: "sort_key f xs = [] \<longleftrightarrow> xs = []"
  using length_sort [of f xs] by (metis length_0_conv)

lemma strictly_sorted_canonical:
  "sorted_wrt (<) (map fu_field us) \<longleftrightarrow> distinct (map fu_field us) \<and> sort_key fu_field us = us"
proof -
  have "sorted (map fu_field us)" if "sort_key fu_field us = us" using sorted_sort_key [of fu_field us] that by simp
  then show ?thesis using sort_key_sorted [of fu_field us] by (auto simp: strict_sorted_iff)
qed

lemma payload_in_mutation: "u \<in> set us \<Longrightarrow> payload_length (fu_value u) \<le> length (concat (map update_bytes us))"
proof -
  assume u: "u \<in> set us"
  have "payload_length v \<le> length (scalar_bytes v)" for v by (cases v) simp_all
  from this [of "fu_value u"] have "payload_length (fu_value u) \<le> length (update_bytes u)" by (simp add: update_bytes_def)
  also have "\<dots> \<le> length (concat (map update_bytes us))" using u
    by (simp add: length_concat comp_def member_le_sum_list)
  finally show ?thesis .
qed

lemma decode_mutation_Ok:
  assumes al: "\<And>n. alloc n"
  shows "decode_mutation alloc bs mx = Ok m \<longleftrightarrow> encodable m \<and> wf_mutation m \<and> canonical m = m \<and> bs = mutation_bytes m \<and> length bs \<le> mx"
proof (cases m)
  case Delete
  then show ?thesis
    by (cases bs; cases "tl bs") (auto simp: decode_mutation_def result_ok MUTATION_ENCODING_VERSION_def split: if_splits)
next
  case (Upsert us)
  have fits: "list_all (value_fits mx) us \<longleftrightarrow> list_all (\<lambda>u. wf_scalar (fu_value u)) us \<and> list_all (\<lambda>u. payload_length (fu_value u) < 2 ^ 32) us"
    if "length (concat (map update_bytes us)) \<le> mx"
    using payload_in_mutation [of _ us] that by (force simp: list_all_iff value_fits_def)
  have "decode_mutation alloc bs mx = Ok (Upsert us) \<longleftrightarrow> length bs \<le> mx \<and> (\<exists>n :: u32. n \<noteq> 0 \<and> unat n \<le> MAX_MUTATION_FIELDS
      \<and> bs = [1, 1] @ to_le 4 n @ concat (map update_bytes us) \<and> length us = unat n \<and> sorted_wrt (<) (map fu_field us) \<and> list_all (value_fits mx) us)"
    by (cases bs; cases "tl bs")
      (auto simp: decode_mutation_def result_ok al decode_updates_Ok [OF al] MUTATION_ENCODING_VERSION_def above_def split: if_splits)
  also have "\<dots> \<longleftrightarrow> length bs \<le> mx \<and> us \<noteq> [] \<and> length us \<le> MAX_MUTATION_FIELDS \<and> bs = mutation_bytes (Upsert us)
      \<and> sorted_wrt (<) (map fu_field us) \<and> list_all (value_fits mx) us"
  proof -
    have l32: "length us < 2 ^ 32" if "length us \<le> MAX_MUTATION_FIELDS" using that by (simp add: MAX_MUTATION_FIELDS_def MAX_SCHEMA_FIELDS_def)
    have z: "(of_nat (length us) :: u32) \<noteq> 0" if "us \<noteq> []" "length us \<le> MAX_MUTATION_FIELDS"
      using l32 that unat_of_nat_small [of "length us", where 'w = 32] by (auto simp flip: unat_eq_0)
    show ?thesis using l32 z by (auto simp: unat_eq_0 intro!: exI [of _ "of_nat (length us)"])
  qed
  also have "\<dots> \<longleftrightarrow> encodable m \<and> wf_mutation m \<and> canonical m = m \<and> bs = mutation_bytes m \<and> length bs \<le> mx"
    using fits strictly_sorted_canonical [of us] unfolding Upsert by (auto simp: updates_shape_def)
  finally show ?thesis unfolding Upsert .
qed

lemma write_not_Panic: "write_value v \<noteq> Panic" "write_updates us n p \<noteq> Panic"
proof -
  show v: "write_value v \<noteq> Panic" for v by (cases v) (simp_all add: u32_length_def rbind_eq_Panic)
  show "write_updates us n p \<noteq> Panic" by (induction n arbitrary: p) (simp_all add: rbind_eq_Panic v)
qed

lemma mutation_encoded_size_not_Panic: "mutation_encoded_size m \<noteq> Panic"
proof -
  have v: "value_encoded_size x \<noteq> Panic" for x by (cases x) (simp_all add: checked_add_size_def)
  have "fold_result (\<lambda>u n. rbind (checked_add_size n 2 w) (\<lambda>n. rbind (value_encoded_size (fu_value u)) (\<lambda>k. checked_add_size n k w))) us n \<noteq> Panic" for us n w
    by (induction us arbitrary: n) (auto simp: rbind_eq_Panic checked_add_size_def v)
  then show ?thesis
    by (auto simp: mutation_encoded_size_def rbind_eq_Panic validate_upsert_shape_def checked_add_size_def split: mutation.splits option.splits)
qed

lemma encode_mutation_not_Panic: "encode_mutation alloc m mx \<noteq> Panic"
proof (cases m)
  case Delete
  then show ?thesis by (simp add: encode_mutation_def mutation_encoded_size_def rbind_eq_Panic try_reserve_def)
next
  case (Upsert us)
  have "6 + length b = sz" if s: "mutation_encoded_size (Upsert us) = Ok sz" and w: "write_updates us (length us) None = Ok b" for sz b
  proof -
    have sh: "distinct (map fu_field us)" using s by (auto simp: mutation_encoded_size_def result_ok validate_upsert_shape_Ok updates_shape_def)
    have "filter (past None) (sort_key fu_field us) = sort_key fu_field us" by (simp add: past_def filter_id_conv)
    from write_updates_Ok [OF sh this, of b] w have "b = concat (map update_bytes (sort_key fu_field us))" by simp
    then show ?thesis using s length_update_bytes_sort [of us] by (auto simp: mutation_encoded_size_def result_ok size_loop_Ok)
  qed
  then show ?thesis unfolding Upsert encode_mutation_def
    using mutation_encoded_size_not_Panic [of "Upsert us"] write_not_Panic(2) [of us]
    by (auto simp: rbind_eq_Panic result_ok try_reserve_def u32_length_def validate_upsert_shape_def split: option.splits if_splits)
qed

text \<open>C26: The binary form of mutations is canonical. With memory available, a byte string decodes to a mutation
  exactly if the mutation has well-formed texts, its updates are in ascending order of fields and the byte
  string is its encoding under the same limit. Every mutation that can be encoded, in whatever order its
  updates are, decodes to the same updates in ascending order; it can be encoded exactly if it is a deletion or
  has between 1 and \<open>MAX_MUTATION_FIELDS\<close> updates of different fields, no value of 4 GiB or more, and the result
  is within the limit. The encoder never panics.\<close>

theorem mutation_codec_exact:
  assumes al: "\<forall>n. alloc n" and len: "length bs < 2 ^ 64"
  shows "(decode_mutation alloc bs mx = Ok m \<longleftrightarrow> wf_mutation m \<and> canonical m = m \<and> encode_mutation alloc m mx = Ok bs)
     \<and> (wf_mutation m \<and> encode_mutation alloc m mx = Ok bs \<longrightarrow> decode_mutation alloc bs mx = Ok (canonical m))
     \<and> (is_ok (encode_mutation alloc m mx) \<longleftrightarrow> encodable m \<and> length (mutation_bytes (canonical m)) \<le> mx \<and> length (mutation_bytes (canonical m)) < 2 ^ 64)
     \<and> encode_mutation alloc m mx \<noteq> Panic"
proof -
  have A: "alloc n" for n using al by blast
  note D = decode_mutation_Ok [OF A] and E = encode_mutation_Ok [OF A]
  have can: "canonical (canonical m) = canonical m \<and> (encodable m \<longrightarrow> encodable (canonical m)) \<and> (wf_mutation m \<longrightarrow> wf_mutation (canonical m))"
    by (cases m) (auto simp: sort_key_sorted updates_shape_def distinct_map list_all_iff sort_Nil_iff)
  have ok: "is_ok (encode_mutation alloc m mx) \<longleftrightarrow> (\<exists>b. encode_mutation alloc m mx = Ok b)" by (cases "encode_mutation alloc m mx") simp_all
  have "decode_mutation alloc bs mx = Ok m \<longleftrightarrow> wf_mutation m \<and> canonical m = m \<and> encode_mutation alloc m mx = Ok bs"
    unfolding D E using len by auto
  moreover have "decode_mutation alloc bs mx = Ok (canonical m)" if "wf_mutation m" "encode_mutation alloc m mx = Ok bs"
    using that can unfolding D E by auto
  moreover have "is_ok (encode_mutation alloc m mx) \<longleftrightarrow>
      encodable m \<and> length (mutation_bytes (canonical m)) \<le> mx \<and> length (mutation_bytes (canonical m)) < 2 ^ 64"
    unfolding ok E by blast
  ultimately show ?thesis using encode_mutation_not_Panic by blast
qed


theorem mutation_codec_exact_witness:
  "decode_mutation (\<lambda>_. True) (mutation_bytes (Upsert [\<lparr>fu_field = 1, fu_value = VU64 7\<rparr>, \<lparr>fu_field = 2, fu_value = VUtf8 [0x61]\<rparr>])) 100
     = Ok (Upsert [\<lparr>fu_field = 1, fu_value = VU64 7\<rparr>, \<lparr>fu_field = 2, fu_value = VUtf8 [0x61]\<rparr>])"
proof -
  let ?m = "Upsert [\<lparr>fu_field = 2, fu_value = VUtf8 [0x61]\<rparr>, \<lparr>fu_field = 1, fu_value = VU64 7\<rparr>]"
  let ?c = "Upsert [\<lparr>fu_field = 1, fu_value = VU64 7\<rparr>, \<lparr>fu_field = 2, fu_value = VUtf8 [0x61]\<rparr>]"
  have "\<not> (2 :: u16) \<le> 1" by code_simp
  then have c: "canonical ?m = ?c" by simp
  have w: "wf_mutation ?m" by (simp add: utf8_width_def utf8_tail_def)
  have e: "encodable ?m" by (simp add: updates_shape_def MAX_MUTATION_FIELDS_def MAX_SCHEMA_FIELDS_def)
  have l: "length (mutation_bytes ?c) = 25" by (simp add: update_bytes_def)
  have "encode_mutation (\<lambda>_. True) ?m 100 = Ok (mutation_bytes ?c)" using encode_mutation_Ok [of "\<lambda>_. True" ?m 100] e c l by simp
  then show ?thesis using mutation_codec_exact [of "\<lambda>_. True" "mutation_bytes ?c" 100 ?m] w c l by simp
qed

subsection \<open>Schemas\<close>

definition unit_bytes :: "bytes option \<Rightarrow> bytes" where
  "unit_bytes u = (case u of None \<Rightarrow> [0] | Some t \<Rightarrow> 1 # to_le 2 (of_nat (length t) :: u16) @ t)"

definition field_bytes :: "schema_field \<Rightarrow> bytes" where
  "field_bytes f = to_le 2 (fd_id f) @ [ft_tag (fd_kind f), bool_byte (fd_nullable f)]
     @ to_le 2 (of_nat (length (fd_name f)) :: u16) @ fd_name f @ unit_bytes (fd_unit f)"

definition field_fits :: "schema_field \<Rightarrow> bool" where
  "field_fits f \<longleftrightarrow> length (fd_name f) \<le> MAX_FIELD_NAME_BYTES \<and> (case fd_unit f of None \<Rightarrow> True | Some u \<Rightarrow> length u \<le> MAX_FIELD_UNIT_BYTES)"

definition wf_text :: "schema_field \<Rightarrow> bool" where
  "wf_text f \<longleftrightarrow> utf8_valid (fd_name f) \<and> (case fd_unit f of None \<Rightarrow> True | Some u \<Rightarrow> utf8_valid u)"

definition schema_bytes :: "schema \<Rightarrow> bytes" where
  "schema_bytes s = [1] @ to_le 4 (sch_id s) @ to_le 4 (sch_version s) @ to_le 4 (of_nat (length (sch_fields s)) :: u32)
     @ concat (map field_bytes (sch_fields s))"

lemma ft_from_tag_Ok [result_ok]: "ft_from_tag t = Ok k \<longleftrightarrow> t = ft_tag k"
  by (cases k) (auto simp: ft_from_tag_def)

lemma encode_field_Ok: "field_fits f \<Longrightarrow> encode_field f = Ok (field_bytes f)"
proof -
  assume "field_fits f"
  then have "length (fd_name f) < 2 ^ 16" "\<And>u. fd_unit f = Some u \<Longrightarrow> length u < 2 ^ 16"
    by (auto simp: field_fits_def MAX_FIELD_NAME_BYTES_def MAX_FIELD_UNIT_BYTES_def)
  then have "encode_field f = Ok b \<longleftrightarrow> b = field_bytes f" for b
    by (cases "fd_unit f") (auto simp: encode_field_def field_bytes_def unit_bytes_def bool_byte_def result_ok)
  then show ?thesis by blast
qed

lemma field_encoded_size_Ok: "field_encoded_size f n = Ok k \<longleftrightarrow> k = n + length (field_bytes f) \<and> k < 2 ^ 64"
  by (cases "fd_unit f") (auto simp: field_encoded_size_def result_ok field_bytes_def unit_bytes_def)

lemma fields_size_Ok: "fold_result field_encoded_size fs n = Ok k \<longleftrightarrow> k = n + length (concat (map field_bytes fs)) \<and> (fs = [] \<or> k < 2 ^ 64)"
proof (induction fs arbitrary: n)
  case (Cons f fs)
  have "fold_result field_encoded_size (f # fs) n = Ok k \<longleftrightarrow> n + length (field_bytes f) < 2 ^ 64 \<and> fold_result field_encoded_size fs (n + length (field_bytes f)) = Ok k"
    by (auto simp: rbind_eq_Ok field_encoded_size_Ok)
  then show ?case unfolding Cons.IH by auto
qed auto

lemma valid_field_fits: "is_ok (validate_fields fs) \<Longrightarrow> f \<in> set fs \<Longrightarrow> field_fits f"
  by (auto simp: validate_fields_ok field_fits_def validate_field_name_def validate_field_unit_def not_less split: if_splits option.splits)

lemma field_bytes_bound: "field_fits f \<Longrightarrow> length (field_bytes f) \<le> 105"
  by (cases "fd_unit f") (simp_all add: field_bytes_def unit_bytes_def field_fits_def MAX_FIELD_NAME_BYTES_def MAX_FIELD_UNIT_BYTES_def)

lemma schema_bytes_bound: "wf_schema s \<Longrightarrow> length (schema_bytes s) < 2 ^ 64"
proof -
  assume wf: "wf_schema s"
  then have "sum_list (map (length \<circ> field_bytes) (sch_fields s)) \<le> sum_list (map (\<lambda>_. 105) (sch_fields s))"
    by (intro sum_list_mono) (auto simp: wf_schema_def intro!: field_bytes_bound valid_field_fits)
  then show ?thesis using wf by (simp add: schema_bytes_def length_concat wf_schema_def MAX_SCHEMA_FIELDS_def sum_list_triv)
qed

lemma encode_schema_Ok:
  assumes al: "\<And>n. alloc n" and wf: "wf_schema s"
  shows "encode_schema alloc s mx = (if length (schema_bytes s) \<le> mx then Ok (schema_bytes s) else Err (ScOutputTooLarge (length (schema_bytes s)) mx))"
proof -
  have n: "length (sch_fields s) \<le> MAX_SCHEMA_FIELDS" "length (sch_fields s) < 2 ^ 32"
    using wf by (simp_all add: wf_schema_def MAX_SCHEMA_FIELDS_def)
  have m: "map_result encode_field (sch_fields s) = Ok (map field_bytes (sch_fields s))"
    using wf by (intro map_result_Ok encode_field_Ok) (auto simp: wf_schema_def intro: valid_field_fits)
  have sz: "schema_encoded_size s = Ok (length (schema_bytes s))"
    using n(1) schema_bytes_bound [OF wf] by (simp add: schema_encoded_size_def fields_size_Ok schema_bytes_def)
  have l: "u32_length ''field count'' (length (sch_fields s)) = Ok (of_nat (length (sch_fields s)))" using n(2) by (simp add: lengths_Ok)
  show ?thesis unfolding encode_schema_def sz m l
    using al by (simp add: try_reserve_def schema_bytes_def SCHEMA_ENCODING_VERSION_def Let_def)
qed

lemma decode_field_Ok:
  assumes al: "\<And>n. alloc n"
  shows "decode_field alloc p rest = Ok (f, r) \<longleftrightarrow>
     rest = field_bytes f @ r \<and> (case p of None \<Rightarrow> True | Some q \<Rightarrow> q < fd_id f) \<and> field_fits f \<and> wf_text f"
proof -
  obtain i name kind nullable u where f: "f = \<lparr>fd_id = i, fd_name = name, fd_kind = kind, fd_nullable = nullable, fd_unit = u\<rparr>" by (cases f) blast
  have small: "n \<le> MAX_FIELD_NAME_BYTES \<Longrightarrow> n < 2 ^ 16" "n \<le> MAX_FIELD_UNIT_BYTES \<Longrightarrow> n < 2 ^ 16" for n
    by (simp_all add: MAX_FIELD_NAME_BYTES_def MAX_FIELD_UNIT_BYTES_def)
  have tag: "ft_from_tag (ft_tag kind) = Ok kind" by (simp add: ft_from_tag_Ok)
  have own: "utf8_valid t \<Longrightarrow> owned_utf8 alloc t what = Ok t" for t what using al by (simp add: owned_Ok)
  have len: "n \<le> MAX_FIELD_NAME_BYTES \<Longrightarrow> cursor_u16_len what MAX_FIELD_NAME_BYTES (to_le 2 (of_nat n :: u16) @ r) = Ok (n, r)"
    "n \<le> MAX_FIELD_UNIT_BYTES \<Longrightarrow> cursor_u16_len what MAX_FIELD_UNIT_BYTES (to_le 2 (of_nat n :: u16) @ r) = Ok (n, r)" for n what r
    using small [of n] by (simp_all add: cursor_u16_len_Ok)
  have ord: "check_order dup p i = Ok () \<longleftrightarrow> (case p of None \<Rightarrow> True | Some q \<Rightarrow> q < i)" for dup by (simp add: check_order_Ok)
  show ?thesis
  proof
    assume "decode_field alloc p rest = Ok (f, r)"
    then show "rest = field_bytes f @ r \<and> (case p of None \<Rightarrow> True | Some q \<Rightarrow> q < fd_id f) \<and> field_fits f \<and> wf_text f"
      unfolding decode_field_def by (auto simp: result_ok field_bytes_def unit_bytes_def bool_byte_def field_fits_def wf_text_def split: if_splits option.splits)
  next
    assume a: "rest = field_bytes f @ r \<and> (case p of None \<Rightarrow> True | Some q \<Rightarrow> q < fd_id f) \<and> field_fits f \<and> wf_text f"
    then have ord': "check_order ScDuplicateFieldId p i = Ok ()" unfolding ord f by (cases p) simp_all
    show "decode_field alloc p rest = Ok (f, r)"
    proof (cases u)
      case None
      then show ?thesis using a unfolding f
        by (simp add: decode_field_def field_bytes_def unit_bytes_def tag ord' own len small field_fits_def wf_text_def)
    next
      case (Some t)
      then show ?thesis using a unfolding f
        by (simp add: decode_field_def field_bytes_def unit_bytes_def tag ord' own len small field_fits_def wf_text_def)
    qed
  qed
qed

lemma decode_fields_Ok:
  assumes al: "\<And>n. alloc n"
  shows "decode_fields alloc n p rest = Ok (fs, r) \<longleftrightarrow>
     length fs = n \<and> rest = concat (map field_bytes fs) @ r \<and> above p (map fd_id fs) \<and> list_all field_fits fs \<and> list_all wf_text fs"
proof (induction n arbitrary: p rest fs)
  case (Suc n)
  show ?case
  proof (cases fs)
    case Nil
    then show ?thesis by (auto simp: result_ok)
  next
    case (Cons f fs')
    show ?thesis unfolding Cons by (auto simp: result_ok Suc.IH decode_field_Ok [OF al])
  qed
qed auto

text \<open>The binary form of schemas is exact. With memory available, a byte string decodes to a schema exactly
  if \<open>Schema::new\<close> would accept the schema, its texts are well-formed UTF-8, and the byte string is its encoding
  under the same limit. Every schema is encoded if the result fits the limit, and the encoder does not panic.\<close>

theorem schema_codec_exact:
  assumes al: "\<forall>n. alloc n"
  shows "(decode_schema alloc bs mx = Ok s \<longleftrightarrow> wf_schema s \<and> list_all wf_text (sch_fields s) \<and> encode_schema alloc s mx = Ok bs)
     \<and> (wf_schema s \<longrightarrow> encode_schema alloc s mx = (if length (schema_bytes s) \<le> mx then Ok (schema_bytes s)
          else Err (ScOutputTooLarge (length (schema_bytes s)) mx)))"
proof -
  have A: "alloc n" for n using al by blast
  have E: "wf_schema s \<Longrightarrow> encode_schema alloc s mx = (if length (schema_bytes s) \<le> mx then Ok (schema_bytes s)
       else Err (ScOutputTooLarge (length (schema_bytes s)) mx))"
    by (rule encode_schema_Ok) (rule A)
  have l32: "length (sch_fields s) < 2 ^ 32" if "length (sch_fields s) \<le> MAX_SCHEMA_FIELDS" using that by (simp add: MAX_SCHEMA_FIELDS_def)
  have fits: "wf_schema s \<Longrightarrow> list_all field_fits (sch_fields s)"
    by (auto simp: wf_schema_def list_all_iff intro: valid_field_fits)
  have srt: "above None (map fd_id fs) \<Longrightarrow> sort_key fd_id fs = fs" for fs :: "schema_field list"
    by (rule sort_key_sorted) (simp add: above_def strict_sorted_iff)
  have "decode_schema alloc bs mx = Ok s \<longleftrightarrow> length bs \<le> mx \<and> (\<exists>fs n. unat n \<le> MAX_SCHEMA_FIELDS \<and> bs = [1] @ to_le 4 (sch_id s) @ to_le 4 (sch_version s) @ to_le 4 n
      @ concat (map field_bytes fs) \<and> length fs = unat (n :: u32) \<and> above None (map fd_id fs) \<and> list_all field_fits fs \<and> list_all wf_text fs
      \<and> sch_fields s = sort_key fd_id fs \<and> wf_schema s)"
    (is "?L \<longleftrightarrow> ?R")
  proof
    assume ?L then show ?R
      unfolding decode_schema_def by (cases bs; auto simp: result_ok decode_fields_Ok [OF A] SCHEMA_ENCODING_VERSION_def schema_new_Ok not_less; blast)
  next
    assume ?R
    then obtain fs and n :: u32 where R: "length bs \<le> mx" "unat n \<le> MAX_SCHEMA_FIELDS" "bs = [1] @ to_le 4 (sch_id s) @ to_le 4 (sch_version s) @ to_le 4 n
      @ concat (map field_bytes fs)" "length fs = unat n" "above None (map fd_id fs)" "list_all field_fits fs" "list_all wf_text fs"
      "sch_fields s = sort_key fd_id fs" "wf_schema s" by blast
    then have "decode_fields alloc (unat n) None (concat (map field_bytes fs)) = Ok (fs, [])" by (simp add: decode_fields_Ok [OF A])
    moreover have "schema_new (sch_id s) (sch_version s) fs = Ok s" using R by (simp add: schema_new_Ok)
    ultimately show ?L using R A by (simp add: decode_schema_def SCHEMA_ENCODING_VERSION_def try_reserve_def cursor_finish_def)
  qed
  also have "\<dots> \<longleftrightarrow> length bs \<le> mx \<and> wf_schema s \<and> list_all wf_text (sch_fields s) \<and> bs = schema_bytes s"
    (is "?L \<longleftrightarrow> ?R")
  proof
    assume ?L then show ?R using srt by (auto simp: schema_bytes_def)
  next
    assume R: ?R
    then have "above None (map fd_id (sch_fields s))" "length (sch_fields s) \<le> MAX_SCHEMA_FIELDS" by (auto simp: wf_schema_def above_def)
    then show ?L using R fits srt l32
      by (intro conjI exI [of _ "sch_fields s"] exI [of _ "of_nat (length (sch_fields s))"]) (auto simp: schema_bytes_def)
  qed
  also have "\<dots> \<longleftrightarrow> wf_schema s \<and> list_all wf_text (sch_fields s) \<and> encode_schema alloc s mx = Ok bs"
    using E by (auto split: if_splits)
  finally show ?thesis using E by blast
qed


theorem schema_codec_exact_witness:
  "decode_schema (\<lambda>_. True) (schema_bytes sample_schema) 100 = Ok sample_schema"
proof -
  have wf: "wf_schema sample_schema" using sample_schema_new by (simp add: schema_new_Ok)
  have t: "list_all wf_text (sch_fields sample_schema)" by (simp add: sample_schema_def wf_text_def utf8_width_def utf8_tail_def)
  have l: "length (schema_bytes sample_schema) \<le> 100" by (simp add: schema_bytes_def sample_schema_def field_bytes_def unit_bytes_def)
  show ?thesis using schema_codec_exact [of "\<lambda>_. True" "schema_bytes sample_schema" 100 sample_schema] wf t l by simp
qed

end
