(* ===== verification/Replay_Checkpoint.thy ===== *)
theory Replay_Checkpoint
  imports Complex_Main Store_Seal Schema_Codec
begin

section \<open>Deterministic random numbers and checkpoints (\<open>temnion-replay\<close>)\<close>

text \<open>
  The generator, the binary form of checkpoints and the directory of checkpoint files. The decoder checks the
  length first and then reads at fixed, adjacent offsets; the reads are kept as reads that would panic past the
  end. \<open>read_dir\<close> lists the names of a directory in an order that is a parameter. A checkpoint is published by
  renaming a temporary file, which replaces a file of the same name; operating system calls other than opening
  a missing file are taken to succeed.
\<close>

datatype replay_error =
    RpIo string
  | RpStorage storage_error
  | RpFormat string
  | RpChecksumMismatch
  | RpInvalidMagic
  | RpUnsupportedVersion u16
  | RpDiscontinuousSequence u64 u64
  | RpCorruptedCheckpoint string
  | RpSchemaMismatch schema_id schema_id
  | RpSchemaError schema_error
  | RpMissingCheckpoint u64
  | RpAllocationFailed

fun from_storage :: "('a, storage_error) result \<Rightarrow> ('a, replay_error) result" where
  "from_storage (Ok x) = Ok x"
| "from_storage (Err e) = Err (RpStorage e)"
| "from_storage Panic = Panic"

fun from_schema :: "('a, schema_error) result \<Rightarrow> ('a, replay_error) result" where
  "from_schema (Ok x) = Ok x"
| "from_schema (Err e) = Err (RpSchemaError e)"
| "from_schema Panic = Panic"

lemma from_schema_Ok [result_ok]: "from_schema m = Ok x \<longleftrightarrow> m = Ok x"
  by (cases m) simp_all

lemma from_storage_Ok [result_ok]: "from_storage m = Ok x \<longleftrightarrow> m = Ok x"
  by (cases m) simp_all

subsection \<open>Generator\<close>

record rng =
  rng_seed :: u64
  rng_state :: u64
  rng_steps :: u64

text \<open>\<open>RngSnapshot\<close> has the same fields; the counter of steps is checked against overflow.\<close>

definition rng_next :: "rng \<Rightarrow> (u64 \<times> rng, 'e) result" where
  "rng_next g =
     (let st = rng_state g + 0x9E3779B97F4A7C15;
          z = (st XOR drop_bit 30 st) * 0xBF58476D1CE4E5B9;
          z = (z XOR drop_bit 27 z) * 0x94D049BB133111EB in
      rbind (add_or_panic (rng_steps g) 1) (\<lambda>n.
      Ok (z XOR drop_bit 31 z, g\<lparr>rng_state := st, rng_steps := n\<rparr>)))"

definition rng_new :: "u64 \<Rightarrow> (rng, 'e) result" where
  "rng_new seed = rbind (rng_next \<lparr>rng_seed = seed, rng_state = seed, rng_steps = 0\<rparr>) (\<lambda>(_, g). Ok (g\<lparr>rng_steps := 0\<rparr>))"

text \<open>The floating-point number is exact: its numerator has 53 bits.\<close>

definition rng_next_f64 :: "rng \<Rightarrow> (real \<times> rng, 'e) result" where
  "rng_next_f64 g = rbind (rng_next g) (\<lambda>(x, g). Ok (real (unat (drop_bit 11 x)) / 2 ^ 53, g))"

definition rng_snapshot :: "rng \<Rightarrow> rng" where
  "rng_snapshot g = \<lparr>rng_seed = rng_seed g, rng_state = rng_state g, rng_steps = rng_steps g\<rparr>"

definition rng_restore :: "rng \<Rightarrow> rng \<Rightarrow> rng" where
  "rng_restore snap g = g\<lparr>rng_seed := rng_seed snap, rng_state := rng_state snap, rng_steps := rng_steps snap\<rparr>"

subsection \<open>Binary form\<close>

definition CHECKPOINT_MAGIC :: bytes where "CHECKPOINT_MAGIC = [0x54, 0x4E, 0x43, 0x50]"
definition CHECKPOINT_VERSION :: u16 where "CHECKPOINT_VERSION = 1"
definition CHECKPOINT_HEADER_LEN :: usize where "CHECKPOINT_HEADER_LEN = 104"

record checkpoint_header =
  ch_database :: database_id
  ch_source :: source_id
  ch_epoch :: source_epoch
  ch_sequence :: u64
  ch_valid_time :: timestamp
  ch_known_time :: timestamp
  ch_rng :: rng
  ch_state_bytes_len :: u32

record checkpoint =
  cp_header :: checkpoint_header
  cp_payload :: bytes

definition checkpoint_fields :: "(bytes \<Rightarrow> u32) \<Rightarrow> checkpoint \<Rightarrow> bytes" where
  "checkpoint_fields crc c = (let h = cp_header c in
     CHECKPOINT_MAGIC @ to_le 2 CHECKPOINT_VERSION @ to_le 2 (0 :: u16) @ ch_database h @ to_le 4 (ch_source h) @ to_le 8 (ch_epoch h)
     @ to_le 8 (ch_sequence h) @ to_le 4 (ts_clock (ch_valid_time h)) @ to_le 8 (ts_ticks (ch_valid_time h))
     @ to_le 4 (ts_clock (ch_known_time h)) @ to_le 8 (ts_ticks (ch_known_time h))
     @ to_le 8 (rng_seed (ch_rng h)) @ to_le 8 (rng_state (ch_rng h)) @ to_le 8 (rng_steps (ch_rng h))
     @ to_le 4 (of_nat (length (cp_payload c)) :: u32) @ to_le 4 (crc (cp_payload c)))"

definition encode_checkpoint :: "(bytes \<Rightarrow> u32) \<Rightarrow> (usize \<Rightarrow> bool) \<Rightarrow> checkpoint \<Rightarrow> (bytes, replay_error) result" where
  "encode_checkpoint crc alloc c =
     (let fields = checkpoint_fields crc c; header_buf = fields @ to_le 4 (crc fields) in
      rbind (try_reserve alloc (CHECKPOINT_HEADER_LEN + length (cp_payload c)) RpAllocationFailed) (\<lambda>_.
      Ok (header_buf @ cp_payload c)))"

definition decode_checkpoint :: "(bytes \<Rightarrow> u32) \<Rightarrow> bytes \<Rightarrow> (checkpoint, replay_error) result" where
  "decode_checkpoint crc bs =
     (if length bs < CHECKPOINT_HEADER_LEN then Err (RpFormat ''incomplete checkpoint header'')
      else if slice bs 0 4 \<noteq> CHECKPOINT_MAGIC then Err RpInvalidMagic
      else if (from_le (slice bs 4 6) :: u16) \<noteq> CHECKPOINT_VERSION then Err (RpUnsupportedVersion (from_le (slice bs 4 6)))
      else if crc (slice bs 0 100) \<noteq> from_le (slice bs 100 104) then Err RpChecksumMismatch
      else
      rbind (slice_bytes 16 (drop 8 bs)) (\<lambda>(database, rest).
      rbind (slice_le 4 rest) (\<lambda>(source, rest).
      rbind (slice_le 8 rest) (\<lambda>(epoch, rest).
      rbind (slice_le 8 rest) (\<lambda>(sq, rest).
      rbind (slice_le 4 rest) (\<lambda>(valid_clock, rest).
      rbind (slice_le 8 rest) (\<lambda>(valid_ticks, rest).
      rbind (slice_le 4 rest) (\<lambda>(known_clock, rest).
      rbind (slice_le 8 rest) (\<lambda>(known_ticks, rest).
      rbind (slice_le 8 rest) (\<lambda>(seed, rest).
      rbind (slice_le 8 rest) (\<lambda>(state, rest).
      rbind (slice_le 8 rest) (\<lambda>(steps, rest).
      rbind (slice_le 4 rest) (\<lambda>(payload_len :: u32, rest).
      rbind (slice_le 4 rest) (\<lambda>(body_crc :: u32, rest).
      if length bs \<noteq> CHECKPOINT_HEADER_LEN + unat payload_len then Err (RpFormat ''checkpoint length mismatch'')
      else let payload = drop CHECKPOINT_HEADER_LEN bs in
      if crc payload \<noteq> body_crc then Err RpChecksumMismatch
      else Ok \<lparr>cp_header = \<lparr>ch_database = database, ch_source = source, ch_epoch = epoch, ch_sequence = sq,
             ch_valid_time = \<lparr>ts_clock = valid_clock, ts_ticks = valid_ticks\<rparr>,
             ch_known_time = \<lparr>ts_clock = known_clock, ts_ticks = known_ticks\<rparr>,
             ch_rng = \<lparr>rng_seed = seed, rng_state = state, rng_steps = steps\<rparr>, ch_state_bytes_len = payload_len\<rparr>,
             cp_payload = payload\<rparr>))))))))))))))"

subsection \<open>The directory of checkpoints\<close>

definition checkpoint_name :: "u64 \<Rightarrow> bytes" where
  "checkpoint_name sq = dec_digits 20 (unat sq) @ ascii ''.tcp''"

definition checkpoint_save :: "(bytes \<Rightarrow> u32) \<Rightarrow> (usize \<Rightarrow> bool) \<Rightarrow> checkpoint \<Rightarrow> directory \<Rightarrow> (directory, replay_error) result" where
  "checkpoint_save crc alloc c dir =
     rbind (encode_checkpoint crc alloc c) (\<lambda>bs. Ok (dir(checkpoint_name (ch_sequence (cp_header c)) \<mapsto> bs)))"

definition checkpoint_load :: "(bytes \<Rightarrow> u32) \<Rightarrow> directory \<Rightarrow> u64 \<Rightarrow> (checkpoint, replay_error) result" where
  "checkpoint_load crc dir sq =
     rbind (ok_or (dir (checkpoint_name sq)) (RpIo ''open checkpoint file'')) (decode_checkpoint crc)"

text \<open>\<open>str::parse::<u64>\<close>: an optional plus sign, then at least one digit, and no overflow.\<close>

fun dec_value :: "nat \<Rightarrow> bytes \<Rightarrow> nat option" where
  "dec_value n [] = Some n"
| "dec_value n (b # bs) = (if 48 \<le> b \<and> b \<le> 57 then dec_value (n * 10 + (unat b - 48)) bs else None)"

definition parse_u64 :: "bytes \<Rightarrow> u64 option" where
  "parse_u64 bs =
     (let ds = (if take 1 bs = ascii ''+'' then drop 1 bs else bs) in
      if ds = [] then None
      else case dec_value 0 ds of None \<Rightarrow> None | Some n \<Rightarrow> if n < 2 ^ 64 then Some (of_nat n) else None)"

definition ends_with :: "bytes \<Rightarrow> bytes \<Rightarrow> bool" where
  "ends_with suffix bs \<longleftrightarrow> length suffix \<le> length bs \<and> drop (length bs - length suffix) bs = suffix"

function trim_end_matches :: "bytes \<Rightarrow> bytes \<Rightarrow> bytes" where
  "trim_end_matches suffix bs =
     (if suffix \<noteq> [] \<and> ends_with suffix bs then trim_end_matches suffix (take (length bs - length suffix) bs) else bs)"
  by pat_completeness auto
termination
  by (relation "measure (length \<circ> snd)") (auto simp: ends_with_def min_def)

declare trim_end_matches.simps [simp del]

definition checkpoint_sequence :: "bytes \<Rightarrow> u64 option" where
  "checkpoint_sequence name =
     (if ends_with (ascii ''.tcp'') name \<and> take 5 name \<noteq> ascii ''.tmp-''
      then parse_u64 (trim_end_matches (ascii ''.tcp'') name) else None)"

fun highest_checkpoint :: "u64 \<Rightarrow> u64 option \<Rightarrow> bytes list \<Rightarrow> u64 option" where
  "highest_checkpoint max_sequence highest [] = highest"
| "highest_checkpoint max_sequence highest (name # names) =
     highest_checkpoint max_sequence
       (case checkpoint_sequence name of
          None \<Rightarrow> highest
        | Some sq \<Rightarrow> if sq \<le> max_sequence
            then (case highest of None \<Rightarrow> Some sq | Some cur \<Rightarrow> if sq > cur then Some sq else highest)
            else highest) names"

definition find_latest :: "(bytes \<Rightarrow> u32) \<Rightarrow> bytes list \<Rightarrow> directory \<Rightarrow> u64 \<Rightarrow> (checkpoint option, replay_error) result" where
  "find_latest crc names dir max_sequence = (case highest_checkpoint max_sequence None names of
       Some sq \<Rightarrow> rbind (checkpoint_load crc dir sq) (\<lambda>c. Ok (Some c))
     | None \<Rightarrow> Ok None)"

subsection \<open>Lemmas\<close>

lemma rng_f64_range:
  assumes "rng_next_f64 g = (Ok (x, g') :: (real \<times> rng, 'b) result)"
  shows "0 \<le> x \<and> x < 1"
proof -
  obtain y g1 where "rng_next g = (Ok (y, g1) :: (u64 \<times> rng, 'b) result)" using assms unfolding rng_next_f64_def rbind_eq_Ok by auto
  then have y: "x = real (unat (drop_bit 11 y)) / 2 ^ 53" using assms by (simp add: rng_next_f64_def)
  have "unat (drop_bit 11 y) = unat y div 2 ^ 11" by (simp add: unat_drop_bit_eq drop_bit_eq_div [of 11 "unat y"])
  also have "\<dots> < 2 ^ 53" using unsigned_less [of y, where ?'a = nat] by (simp add: less_mult_imp_div_less)
  finally have "real (unat (drop_bit 11 y)) < 2 ^ 53" by (metis of_nat_less_iff of_nat_numeral of_nat_power)
  then show ?thesis using of_nat_0_le_iff [of "unat (drop_bit 11 y)", where ?'a = real] by (simp add: y)
qed

lemma rng_restore_snapshot [simp]: "rng_restore (rng_snapshot g) g' = g"
  by (cases g; cases g') (simp add: rng_restore_def rng_snapshot_def)

definition wf_checkpoint :: "checkpoint \<Rightarrow> bool" where
  "wf_checkpoint c \<longleftrightarrow> wf_database_id (ch_database (cp_header c)) \<and> length (cp_payload c) < 2 ^ 32
     \<and> ch_state_bytes_len (cp_header c) = of_nat (length (cp_payload c))"

lemma decode_encode_checkpoint:
  assumes wf: "wf_checkpoint c" and e: "encode_checkpoint crc alloc c = Ok bs"
  shows "decode_checkpoint crc bs = Ok c"
proof -
  define h where "h = cp_header c"
  define F where "F = checkpoint_fields crc c"
  have db: "length (ch_database h) = 16" using wf by (simp add: wf_checkpoint_def wf_database_id_def h_def)
  have bs: "bs = F @ to_le 4 (crc F) @ cp_payload c" using e by (auto simp: encode_checkpoint_def result_ok F_def Let_def)
  have len: "length F = 100" using db by (simp add: F_def checkpoint_fields_def Let_def CHECKPOINT_MAGIC_def h_def)
  have lb: "length bs = 104 + length (cp_payload c)" using len by (simp add: bs)
  have sl: "slice bs 0 4 = CHECKPOINT_MAGIC" "slice bs 4 6 = to_le 2 CHECKPOINT_VERSION"
    by (simp_all add: bs F_def checkpoint_fields_def Let_def CHECKPOINT_MAGIC_def slice_def)
  have cr: "slice bs 0 100 = F" "slice bs 100 104 = to_le 4 (crc F)" "drop 104 bs = cp_payload c" using len by (simp_all add: bs slice_def)
  have dr: "drop 8 bs = ch_database h @ to_le 4 (ch_source h) @ to_le 8 (ch_epoch h)
     @ to_le 8 (ch_sequence h) @ to_le 4 (ts_clock (ch_valid_time h)) @ to_le 8 (ts_ticks (ch_valid_time h))
     @ to_le 4 (ts_clock (ch_known_time h)) @ to_le 8 (ts_ticks (ch_known_time h))
     @ to_le 8 (rng_seed (ch_rng h)) @ to_le 8 (rng_state (ch_rng h)) @ to_le 8 (rng_steps (ch_rng h))
     @ to_le 4 (of_nat (length (cp_payload c)) :: u32) @ to_le 4 (crc (cp_payload c)) @ to_le 4 (crc F) @ cp_payload c"
    by (simp add: bs F_def checkpoint_fields_def Let_def CHECKPOINT_MAGIC_def h_def)
  have n: "unat (of_nat (length (cp_payload c)) :: u32) = length (cp_payload c)" using wf by (simp add: wf_checkpoint_def)
  have c: "c = \<lparr>cp_header = h, cp_payload = cp_payload c\<rparr>" "ch_state_bytes_len h = of_nat (length (cp_payload c))"
    using wf by (simp_all add: h_def wf_checkpoint_def)
  have hh: "h = \<lparr>ch_database = ch_database h, ch_source = ch_source h, ch_epoch = ch_epoch h, ch_sequence = ch_sequence h,
     ch_valid_time = \<lparr>ts_clock = ts_clock (ch_valid_time h), ts_ticks = ts_ticks (ch_valid_time h)\<rparr>,
     ch_known_time = \<lparr>ts_clock = ts_clock (ch_known_time h), ts_ticks = ts_ticks (ch_known_time h)\<rparr>,
     ch_rng = \<lparr>rng_seed = rng_seed (ch_rng h), rng_state = rng_state (ch_rng h), rng_steps = rng_steps (ch_rng h)\<rparr>,
     ch_state_bytes_len = of_nat (length (cp_payload c))\<rparr>" using c(2) by simp
  show ?thesis
    unfolding decode_checkpoint_def lb CHECKPOINT_HEADER_LEN_def sl cr dr
    by (simp add: db n flip: hh c(1))
qed

end
