(* ===== verification/Replay_State.thy ===== *)
theory Replay_State
  imports Replay_Checkpoint Schema_Exact Index_Projection_Codec
begin

section \<open>Reducers and the binary form of entity states (\<open>temnion-replay\<close>)\<close>

text \<open>
  A reducer is a function of the state, an event and the generator; it returns its outcome together with the
  state and the generator as they are afterwards, also after an error, because the source updates them in
  place. An \<open>expect\<close> on an error is a panic.
\<close>

type_synonym 's reducer = "'s \<Rightarrow> stored_event \<Rightarrow> rng \<Rightarrow> (unit, replay_error) result \<times> 's \<times> rng"
type_synonym entity_fields = "schema_id \<times> field_state"
type_synonym entity_map = "(entity_id, entity_fields) btree"
type_synonym raw_entity_map = "(entity_id, schema_id \<times> bytes) btree"

subsection \<open>Typed states\<close>

definition encode_state_field :: "(usize \<Rightarrow> bool) \<Rightarrow> field_id \<times> scalar \<Rightarrow> (bytes, replay_error) result" where
  "encode_state_field alloc = (\<lambda>(i, v).
     case encode_mutation alloc (Upsert [\<lparr>fu_field = i, fu_value = v\<rparr>]) (1024 * 1024) of
       Ok m \<Rightarrow> Ok (to_le 2 i @ to_le 4 (of_nat (length m) :: u32) @ m)
     | _ \<Rightarrow> Panic)"

definition encode_entity_record :: "(usize \<Rightarrow> bool) \<Rightarrow> entity_id \<times> entity_fields \<Rightarrow> (bytes, replay_error) result" where
  "encode_entity_record alloc = (\<lambda>(e, i, fds).
     rbind (map_result (encode_state_field alloc) fds) (\<lambda>body.
     Ok (encode_entity e @ to_le 4 i @ to_le 4 (of_nat (length fds) :: u32) @ concat body)))"

definition encode_entity_map :: "(usize \<Rightarrow> bool) \<Rightarrow> entity_map \<Rightarrow> (bytes, replay_error) result" where
  "encode_entity_map alloc m =
     rbind (map_result (encode_entity_record alloc) m) (\<lambda>body. Ok (to_le 4 (of_nat (length m) :: u32) @ concat body))"

fun decode_state_fields :: "(usize \<Rightarrow> bool) \<Rightarrow> nat \<Rightarrow> field_state \<Rightarrow> bytes \<Rightarrow> (field_state \<times> bytes, replay_error) result" where
  "decode_state_fields alloc 0 fds rest = Ok (fds, rest)"
| "decode_state_fields alloc (Suc n) fds rest =
     (if length rest < 6 then Err (RpFormat ''incomplete field record'') else
      rbind (slice_le 2 rest) (\<lambda>(i, rest).
      rbind (slice_le 4 rest) (\<lambda>(mut_len :: u32, rest).
      if length rest < unat mut_len then Err (RpFormat ''incomplete mutation payload'') else
      rbind (from_schema (decode_mutation alloc (take (unat mut_len) rest) (unat mut_len))) (\<lambda>m.
      decode_state_fields alloc n
        (case m of Upsert (u # _) \<Rightarrow> bt_insert i (fu_value u) fds | _ \<Rightarrow> fds)
        (drop (unat mut_len) rest)))))"

fun decode_entity_records :: "(usize \<Rightarrow> bool) \<Rightarrow> nat \<Rightarrow> entity_map \<Rightarrow> bytes \<Rightarrow> (entity_map, replay_error) result" where
  "decode_entity_records alloc 0 m rest = Ok m"
| "decode_entity_records alloc (Suc n) m rest =
     (if length rest < 20 then Err (RpFormat ''incomplete entity record'') else
      rbind (slice_le 4 rest) (\<lambda>(shard, rest).
      rbind (slice_le 4 rest) (\<lambda>(slot, rest).
      rbind (slice_le 4 rest) (\<lambda>(generation, rest).
      rbind (slice_le 4 rest) (\<lambda>(i, rest).
      rbind (slice_le 4 rest) (\<lambda>(field_count :: u32, rest).
      rbind (decode_state_fields alloc (unat field_count) [] rest) (\<lambda>(fds, rest).
      decode_entity_records alloc n
        (bt_insert \<lparr>ent_shard = shard, ent_slot = slot, ent_generation = generation\<rparr> (i, fds) m) rest)))))))"

definition decode_entity_map :: "(usize \<Rightarrow> bool) \<Rightarrow> bytes \<Rightarrow> (entity_map, replay_error) result" where
  "decode_entity_map alloc bs =
     (if length bs < 4 then Err (RpFormat ''incomplete entity map payload'') else
      rbind (slice_le 4 bs) (\<lambda>(n :: u32, rest). decode_entity_records alloc (unat n) [] rest))"

text \<open>\<open>SchemaStateReducer::apply\<close>: updates are validated one by one and stored as they pass.\<close>

fun reduce_updates :: "schema \<Rightarrow> field_update list \<Rightarrow> field_state \<Rightarrow> (unit, replay_error) result \<times> field_state" where
  "reduce_updates s [] fds = (Ok (), fds)"
| "reduce_updates s (u # us) fds =
     (case from_schema (validate_mutation s (Upsert [u])) of
        Ok _ \<Rightarrow> reduce_updates s us (bt_insert (fu_field u) (fu_value u) fds)
      | Err e \<Rightarrow> (Err e, fds)
      | Panic \<Rightarrow> (Panic, fds))"

definition schema_reducer_new :: "schema list \<Rightarrow> (schema_id, schema) btree" where
  "schema_reducer_new ss = fold (\<lambda>s. bt_insert (sch_id s) s) ss []"

definition schema_reduce :: "(usize \<Rightarrow> bool) \<Rightarrow> (schema_id, schema) btree \<Rightarrow> entity_map reducer" where
  "schema_reduce alloc schemas st ev g =
     (case bt_get schemas (se_schema ev) of
        None \<Rightarrow> (Err (RpSchemaMismatch (se_schema ev) (se_schema ev)), st, g)
      | Some s \<Rightarrow>
          (case from_schema (decode_mutation alloc (se_payload ev) (length (se_payload ev))) of
             Err e \<Rightarrow> (Err e, st, g)
           | Panic \<Rightarrow> (Panic, st, g)
           | Ok Delete \<Rightarrow> (Ok (), bt_remove (se_entity ev) st, g)
           | Ok (Upsert us) \<Rightarrow>
               (let (i, fds) = (case bt_get st (se_entity ev) of Some en \<Rightarrow> en | None \<Rightarrow> (se_schema ev, []));
                    (r, fds') = reduce_updates s us fds
                in (r, bt_insert (se_entity ev) (i, fds') st, g))))"

subsection \<open>Raw states\<close>

definition raw_reduce :: "raw_entity_map reducer" where
  "raw_reduce st ev g = (Ok (), bt_insert (se_entity ev) (se_schema ev, se_payload ev) st, g)"

definition encode_raw_entity_map :: "raw_entity_map \<Rightarrow> bytes" where
  "encode_raw_entity_map m = to_le 4 (of_nat (length m) :: u32)
     @ concat (map (\<lambda>(e, i, payload). encode_entity e @ to_le 4 i @ to_le 4 (of_nat (length payload) :: u32) @ payload) m)"

fun decode_raw_entries :: "nat \<Rightarrow> raw_entity_map \<Rightarrow> bytes \<Rightarrow> (raw_entity_map, replay_error) result" where
  "decode_raw_entries 0 m rest = Ok m"
| "decode_raw_entries (Suc n) m rest =
     (if length rest < 20 then Err (RpFormat ''truncated raw entity entry'') else
      rbind (slice_le 4 rest) (\<lambda>(shard, rest).
      rbind (slice_le 4 rest) (\<lambda>(slot, rest).
      rbind (slice_le 4 rest) (\<lambda>(generation, rest).
      rbind (slice_le 4 rest) (\<lambda>(i, rest).
      rbind (slice_le 4 rest) (\<lambda>(p_len :: u32, rest).
      if length rest < unat p_len then Err (RpFormat ''truncated raw entity payload'') else
      decode_raw_entries n
        (bt_insert \<lparr>ent_shard = shard, ent_slot = slot, ent_generation = generation\<rparr> (i, take (unat p_len) rest) m)
        (drop (unat p_len) rest)))))))"

definition decode_raw_entity_map :: "bytes \<Rightarrow> (raw_entity_map, replay_error) result" where
  "decode_raw_entity_map bs =
     (if bs = [] then Ok []
      else if length bs < 4 then Err (RpFormat ''truncated raw entity map count'')
      else rbind (slice_le 4 bs) (\<lambda>(n :: u32, rest). decode_raw_entries (unat n) [] rest))"

subsection \<open>Round trips\<close>

definition raw_encodable :: "raw_entity_map \<Rightarrow> bool" where
  "raw_encodable m \<longleftrightarrow> bt_wf m \<and> length m < 2 ^ 32 \<and> (\<forall>(e, i, p) \<in> set m. length p < 2 ^ 32)"

lemma decode_raw_entries_encode:
  "\<forall>(e, i, p) \<in> set m. length p < 2 ^ 32 \<Longrightarrow>
   decode_raw_entries (length m) acc (concat (map (\<lambda>(e, i, payload). encode_entity e @ to_le 4 i @ to_le 4 (of_nat (length payload) :: u32) @ payload) m))
     = Ok (fold (\<lambda>(k, v). bt_insert k v) m acc)"
proof (induction m arbitrary: acc)
  case (Cons x m)
  obtain e i p where x: "x = (e, i, p)" by (cases x) auto
  have "unat (of_nat (length p) :: u32) = length p" using Cons.prems by (simp add: x)
  then show ?case using Cons by (cases e) (simp add: x encode_entity_def)
qed simp

lemma to_le_not_Nil [simp]: "to_le (Suc n) w \<noteq> []" "to_le 4 w \<noteq> []"
  by (simp_all flip: length_greater_0_conv)

lemma raw_entity_map_roundtrip:
  assumes "raw_encodable m"
  shows "decode_raw_entity_map (encode_raw_entity_map m) = Ok m"
proof -
  have n: "unat (of_nat (length m) :: u32) = length m" using assms by (simp add: raw_encodable_def)
  show ?thesis using decode_raw_entries_encode [of m "[]"] assms fold_bt_insert_sorted [of m] n
    by (simp add: decode_raw_entity_map_def encode_raw_entity_map_def raw_encodable_def)
qed

definition value_encodable :: "field_id \<times> scalar \<Rightarrow> bool" where
  "value_encodable = (\<lambda>(i, v). wf_scalar v \<and> 8 + length (scalar_bytes v) \<le> 1024 * 1024)"

definition entity_encodable :: "entity_map \<Rightarrow> bool" where
  "entity_encodable m \<longleftrightarrow> bt_wf m \<and> length m < 2 ^ 32
     \<and> (\<forall>(e, i, fds) \<in> set m. bt_wf fds \<and> length fds < 2 ^ 32 \<and> (\<forall>f \<in> set fds. value_encodable f))"


lemma encode_state_field_Ok:
  assumes al: "\<And>n. alloc n" and f: "value_encodable (i, v)"
  defines "m \<equiv> mutation_bytes (Upsert [\<lparr>fu_field = i, fu_value = v\<rparr>])"
  shows "encode_state_field alloc (i, v) = Ok (to_le 2 i @ to_le 4 (of_nat (length m) :: u32) @ m)"
    "length m \<le> 1024 * 1024" "decode_mutation alloc m (length m) = Ok (Upsert [\<lparr>fu_field = i, fu_value = v\<rparr>])"
proof -
  have len: "length m = 8 + length (scalar_bytes v)" by (simp add: m_def update_bytes_def)
  show le: "length m \<le> 1024 * 1024" using f by (simp add: len value_encodable_def)
  have "payload_length v \<le> length (scalar_bytes v)" by (cases v) simp_all
  then have e: "encodable (Upsert [\<lparr>fu_field = i, fu_value = v\<rparr>])"
    using f by (simp add: updates_shape_def MAX_MUTATION_FIELDS_def MAX_SCHEMA_FIELDS_def value_encodable_def)
  then have "encode_mutation alloc (Upsert [\<lparr>fu_field = i, fu_value = v\<rparr>]) (1024 * 1024) = Ok m"
    using le unfolding encode_mutation_Ok [OF al] m_def by simp
  then show "encode_state_field alloc (i, v) = Ok (to_le 2 i @ to_le 4 (of_nat (length m) :: u32) @ m)" by (simp add: encode_state_field_def)
  show "decode_mutation alloc m (length m) = Ok (Upsert [\<lparr>fu_field = i, fu_value = v\<rparr>])"
    unfolding decode_mutation_Ok [OF al] m_def using e f by (simp add: value_encodable_def)
qed

lemma decode_state_fields_encode:
  assumes al: "\<And>n. alloc n"
  shows "\<forall>f \<in> set fds. value_encodable f \<Longrightarrow> \<exists>body. map_result (encode_state_field alloc) fds = Ok body
    \<and> decode_state_fields alloc (length fds) acc (concat body @ r) = Ok (fold (\<lambda>(k, v). bt_insert k v) fds acc, r)"
proof (induction fds arbitrary: acc)
  case (Cons x fds)
  obtain i v where x: "x = (i, v)" by (cases x)
  define m where "m = mutation_bytes (Upsert [\<lparr>fu_field = i, fu_value = v\<rparr>])"
  have f: "value_encodable (i, v)" using Cons.prems by (simp add: x)
  note E = encode_state_field_Ok [OF al f, folded m_def]
  have n: "unat (of_nat (length m) :: u32) = length m" using E(2) by simp
  obtain body where b: "map_result (encode_state_field alloc) fds = Ok body"
    "decode_state_fields alloc (length fds) (bt_insert i v acc) (concat body @ r) = Ok (fold (\<lambda>(k, v). bt_insert k v) fds (bt_insert i v acc), r)"
    using Cons by fastforce
  then show ?case using E(1,3) n by (simp add: x)
qed simp

lemma decode_entity_records_encode:
  assumes al: "\<And>n. alloc n"
  shows "\<forall>(e, i, fds) \<in> set m. bt_wf fds \<and> length fds < 2 ^ 32 \<and> (\<forall>f \<in> set fds. value_encodable f) \<Longrightarrow>
    \<exists>body. map_result (encode_entity_record alloc) m = Ok body
    \<and> decode_entity_records alloc (length m) acc (concat body) = Ok (fold (\<lambda>(k, v). bt_insert k v) m acc)"
proof (induction m arbitrary: acc)
  case (Cons x m)
  obtain e i fds where x: "x = (e, i, fds)" by (cases x) auto
  have p: "bt_wf fds" "length fds < 2 ^ 32" "\<forall>f \<in> set fds. value_encodable f" using Cons.prems by (simp_all add: x)
  obtain body where b: "map_result (encode_entity_record alloc) m = Ok body"
    "decode_entity_records alloc (length m) (bt_insert e (i, fds) acc) (concat body) = Ok (fold (\<lambda>(k, v). bt_insert k v) m (bt_insert e (i, fds) acc))"
    using Cons by fastforce
  obtain fb where fb: "map_result (encode_state_field alloc) fds = Ok fb"
    "decode_state_fields alloc (length fds) [] (concat fb @ concat body) = Ok (fds, concat body)"
    using decode_state_fields_encode [of alloc fds "[]" "concat body", OF al p(3)] fold_bt_insert_sorted [OF p(1)] by auto
  have n: "unat (of_nat (length fds) :: u32) = length fds" using p(2) by simp
  show ?case using b fb n by (cases e) (simp add: x encode_entity_record_def encode_entity_def)
qed simp

text \<open>Entity states survive a checkpoint. With memory available, a typed state whose maps are ordered, whose
  counts fit 32 bits and whose encoded values fit one mebibyte is encoded without panic, and decoding returns
  it; the same holds for raw states with payloads below 4 GiB.\<close>

theorem entity_states_roundtrip:
  assumes al: "\<forall>n. alloc n" and m: "entity_encodable m" and r: "raw_encodable r"
  shows "rbind (encode_entity_map alloc m) (decode_entity_map alloc) = Ok m \<and> decode_raw_entity_map (encode_raw_entity_map r) = Ok r"
proof -
  have A: "alloc n" for n using al by blast
  have wf: "bt_wf m" and len: "length m < 2 ^ 32" and recs: "\<forall>(e, i, fds) \<in> set m. bt_wf fds \<and> length fds < 2 ^ 32 \<and> (\<forall>f \<in> set fds. value_encodable f)"
    using m by (simp_all add: entity_encodable_def)
  have n: "unat (of_nat (length m) :: u32) = length m" using len by simp
  obtain body where b: "map_result (encode_entity_record alloc) m = Ok body"
    "decode_entity_records alloc (length m) [] (concat body) = Ok (fold (\<lambda>(k, v). bt_insert k v) m [])"
    using decode_entity_records_encode [of alloc m "[]", OF A recs] by blast
  then have "rbind (encode_entity_map alloc m) (decode_entity_map alloc) = Ok m"
    using fold_bt_insert_sorted [OF wf] n by (simp add: encode_entity_map_def decode_entity_map_def)
  then show ?thesis using raw_entity_map_roundtrip [OF r] by simp
qed

theorem entity_states_roundtrip_witness:
  "rbind (encode_entity_map (\<lambda>_. True) [(\<lparr>ent_shard = 0, ent_slot = 1, ent_generation = 1\<rparr>, 1, [(1, VU64 7), (2, VNull)])])
       (decode_entity_map (\<lambda>_. True)) = Ok [(\<lparr>ent_shard = 0, ent_slot = 1, ent_generation = 1\<rparr>, 1, [(1, VU64 7), (2, VNull)])]
   \<and> decode_raw_entity_map (encode_raw_entity_map [(\<lparr>ent_shard = 0, ent_slot = 1, ent_generation = 1\<rparr>, 1, [1, 2])])
       = Ok [(\<lparr>ent_shard = 0, ent_slot = 1, ent_generation = 1\<rparr>, 1, [1, 2])]"
proof (rule entity_states_roundtrip)
  show "entity_encodable [(\<lparr>ent_shard = 0, ent_slot = 1, ent_generation = 1\<rparr>, 1, [(1, VU64 7), (2, VNull)])]"
    by (simp add: entity_encodable_def value_encodable_def)
  show "raw_encodable [(\<lparr>ent_shard = 0, ent_slot = 1, ent_generation = 1\<rparr>, 1, [1, 2])]"
    by (simp add: raw_encodable_def)
qed simp

end
