(* ===== verification/Replay_Engine.thy ===== *)
theory Replay_Engine
  imports Replay_State Store_Retire
begin

section \<open>Reconstruction of a state at a sequence (\<open>temnion-replay\<close>: \<open>ReplayEngine\<close>)\<close>

text \<open>
  The engine opens the store, starts from the latest checkpoint at or before the target, or from the default
  state, and applies the events of one history page. The result is paired with the engine's generator, which
  is kept between calls; \<open>None\<close> is non-termination of the history scan.
\<close>

definition store_len :: "store \<Rightarrow> u64" where
  "store_len s = st_next_sequence s"

definition no_filter :: history_filter where
  "no_filter = \<lparr>hf_entity = None, hf_time = None, hf_known_as_of = None\<rparr>"

definition replay_budget :: "usize \<Rightarrow> storage_query_budget" where
  "replay_budget n = \<lparr>sb_max_results = n, sb_max_scanned = 65536, sb_max_read_bytes = 64 * 1024 * 1024\<rparr>"

text \<open>The loop over the events of the page.\<close>

fun replay_events :: "'s reducer \<Rightarrow> u64 \<Rightarrow> stored_event list \<Rightarrow> 's \<Rightarrow> u64 \<Rightarrow> checkpoint_header \<Rightarrow> rng
    \<Rightarrow> ('s \<times> checkpoint_header, replay_error) result \<times> rng" where
  "replay_events red target [] st nxt header g = (Ok (st, header), g)"
| "replay_events red target (e # es) st nxt header g =
     (if eid_sequence (se_id e) > target then (Ok (st, header), g)
      else if eid_sequence (se_id e) \<noteq> nxt then (Err (RpDiscontinuousSequence nxt (eid_sequence (se_id e))), g)
      else case red st e g of
        (Err x, st', g') \<Rightarrow> (Err x, g')
      | (Panic, st', g') \<Rightarrow> (Panic, g')
      | (Ok _, st', g') \<Rightarrow>
          (let header' = header\<lparr>ch_sequence := eid_sequence (se_id e), ch_valid_time := et_valid (se_times e),
                 ch_known_time := et_known (se_times e), ch_rng := rng_snapshot g'\<rparr> in
           case add_or_panic nxt 1 of
             Ok nxt' \<Rightarrow> replay_events red target es st' nxt' header' g'
           | Err (x :: replay_error) \<Rightarrow> (Err x, g')
           | Panic \<Rightarrow> (Panic, g')))"

definition start_header :: "store \<Rightarrow> rng \<Rightarrow> checkpoint_header" where
  "start_header s g = \<lparr>ch_database = wh_database (st_header s), ch_source = wh_source (st_header s), ch_epoch = wh_epoch (st_header s),
     ch_sequence = 0, ch_valid_time = \<lparr>ts_clock = 0, ts_ticks = 0\<rparr>, ch_known_time = \<lparr>ts_clock = 0, ts_ticks = 0\<rparr>,
     ch_rng = rng_snapshot g, ch_state_bytes_len = 0\<rparr>"

text \<open>The starting point: state, next sequence, header and generator.\<close>

definition restore_point :: "(bytes \<Rightarrow> u32) \<Rightarrow> bytes list \<Rightarrow> directory \<Rightarrow> (bytes \<Rightarrow> ('s, replay_error) result) \<Rightarrow> 's \<Rightarrow> store \<Rightarrow> u64 \<Rightarrow> rng
    \<Rightarrow> ('s \<times> u64 \<times> checkpoint_header \<times> rng, replay_error) result" where
  "restore_point crc names dir dec dflt s target g =
     rbind (find_latest crc names dir target) (\<lambda>found. case found of
       Some c \<Rightarrow>
         rbind (dec (cp_payload c)) (\<lambda>st.
         rbind (add_or_panic (ch_sequence (cp_header c)) 1) (\<lambda>nxt.
         Ok (st, nxt, cp_header c, rng_restore (ch_rng (cp_header c)) g)))
     | None \<Rightarrow> Ok (dflt, 0, start_header s g, g))"

definition replay_from :: "(bytes \<Rightarrow> u32) \<Rightarrow> (usize \<Rightarrow> bool) \<Rightarrow> directory \<Rightarrow> store \<Rightarrow> bytes \<Rightarrow> 's reducer \<Rightarrow> u64
    \<Rightarrow> 's \<Rightarrow> u64 \<Rightarrow> checkpoint_header \<Rightarrow> rng \<Rightarrow> (('s \<times> checkpoint_header, replay_error) result \<times> rng) option" where
  "replay_from crc alloc segs s wal red target st nxt header g =
     (if nxt \<le> target then
        (case rbind (from_storage (cursor_from_sequence s nxt no_filter)) (\<lambda>cursor.
              rbind (add_or_panic (target - nxt) 1) (\<lambda>n. Ok (cursor, n))) of
           Err e \<Rightarrow> Some (Err e, g)
         | Panic \<Rightarrow> Some (Panic, g)
         | Ok (cursor, n) \<Rightarrow>
             (case store_history crc alloc segs s wal no_filter (replay_budget (unat n)) (Some cursor) of
                None \<Rightarrow> None
              | Some (Err e) \<Rightarrow> Some (Err (RpStorage e), g)
              | Some Panic \<Rightarrow> Some (Panic, g)
              | Some (Ok page) \<Rightarrow> Some (replay_events red target (sp_events page) st nxt header g)))
      else Some (Ok (st, header), g))"

definition reconstruct_at_sequence :: "(bytes \<Rightarrow> u32) \<Rightarrow> (usize \<Rightarrow> bool) \<Rightarrow> bytes \<Rightarrow> directory \<Rightarrow> bytes list \<Rightarrow> directory
    \<Rightarrow> 's reducer \<Rightarrow> (bytes \<Rightarrow> ('s, replay_error) result) \<Rightarrow> 's \<Rightarrow> u64 \<Rightarrow> rng \<Rightarrow> (('s \<times> checkpoint_header, replay_error) result \<times> rng) option" where
  "reconstruct_at_sequence crc alloc wal segs names dir red dec dflt target g =
     (case store_open crc alloc False (Some wal) (segs manifest_name) limits_default RejectIncompleteTail of
        Err e \<Rightarrow> Some (Err (RpStorage e), g)
      | Panic \<Rightarrow> Some (Panic, g)
      | Ok (s, _, wal) \<Rightarrow>
          if target \<ge> store_len s then Some (Err (RpStorage StInvalidCursor), g) else
          (case restore_point crc names dir dec dflt s target g of
             Err e \<Rightarrow> Some (Err e, g)
           | Panic \<Rightarrow> Some (Panic, g)
           | Ok (st, nxt, header, g) \<Rightarrow> replay_from crc alloc segs s wal red target st nxt header g))"

subsection \<open>One history page over a window of frames\<close>

text \<open>Frames \<open>i\<close> up to \<open>j\<close> cover the positions from \<open>a\<close> to \<open>b\<close>.\<close>

definition window :: "stored_event list list \<Rightarrow> nat \<Rightarrow> nat \<Rightarrow> nat \<Rightarrow> nat \<Rightarrow> bool" where
  "window bs i j a b \<longleftrightarrow> i \<le> j \<and> j \<le> length bs \<and> batch_start bs i \<le> a \<and> (i < j \<longrightarrow> a < batch_start bs (Suc i)) \<and> a \<le> b \<and> b \<le> batch_start bs j"

definition frame_bytes :: "(bytes \<Rightarrow> u32) \<Rightarrow> stored_event list list \<Rightarrow> nat \<Rightarrow> nat \<Rightarrow> nat" where
  "frame_bytes crc bs i j = length (concat (map (batch_bytes crc) (drop i (take j bs))))"

lemma frame_bytes_step: "i < j \<Longrightarrow> j \<le> length bs \<Longrightarrow> frame_bytes crc bs i j = length (batch_bytes crc (bs ! i)) + frame_bytes crc bs (Suc i) j"
  by (simp add: frame_bytes_def Cons_nth_drop_Suc [symmetric] del: drop_Suc)

lemma no_filter_keeps [simp]: "stored_keeps no_filter r"
  by (simp add: stored_keeps_def no_filter_def)

lemma no_filter_scans [simp]: "block_matches b no_filter = MustScan"
  by (simp add: block_matches_def no_filter_def)

lemma fetch_frame:
  assumes inv: "store_inv crc h l 0 bs s wal" and mem: "\<forall>n. alloc n" and i: "i < length bs" "batch_start bs i \<le> n" "n < batch_start bs (Suc i)"
  shows "history_fetch crc alloc segs s wal no_filter (of_nat n) = Ok (Fetched (bs ! i) (length (batch_bytes crc (bs ! i))) (length (bs ! i)))"
proof -
  have "frame_index_for_sequence s (0 + of_nat n) = Some i"
    using i batch_start_Suc [OF i(1)] by (intro frame_lookup [OF inv i(1)]) (simp_all add: batch_start_def)
  moreover have "index (st_frames s) i = (Ok (st_frames s ! i) :: (_, storage_error) result)"
    using store_inv_batch(4) [OF inv i(1)] i(1) by (simp add: index_def)
  ultimately show ?thesis
    using read_frame [OF inv i(1) mem] frame_first(3,4) [OF inv i(1)] by (simp add: history_fetch_def)
qed


lemma history_scan_window:
  assumes inv: "store_inv crc h l 0 bs s wal" and mem: "\<forall>n. alloc n" and T: "T \<le> m" "m \<le> length (concat bs)"
  shows "window bs i j n T \<Longrightarrow> n < T \<Longrightarrow> length events + (T - n) = sb_max_results b \<Longrightarrow>
    sc + (batch_start bs j - batch_start bs i) \<le> sb_max_scanned b \<Longrightarrow> br + frame_bytes crc bs i j \<le> sb_max_read_bytes b \<Longrightarrow>
    \<exists>sc' br'. history_scan crc alloc segs s wal no_filter b (of_nat m) (of_nat n) events sc br
       = Some (Ok (of_nat T, events @ slice (concat bs) n T, sc', br'))"
proof (induction "j - i" arbitrary: i n events sc br)
  case 0
  then have "T \<le> n" unfolding window_def by auto
  then show ?case using 0 by simp
next
  case (Suc d)
  let ?xs = "concat bs" and ?scan = "history_scan crc alloc segs s wal no_filter b (of_nat m)"
  have ij: "i < j" "j \<le> length bs" "i < length bs" using Suc.hyps(2) Suc.prems(1) by (auto simp: window_def)
  note W = Suc.prems(1)[unfolded window_def]
  let ?p = "batch_start bs i" and ?q = "batch_start bs (Suc i)" and ?rs = "bs ! i"
  have pq: "?p \<le> n" "n < ?q" "?q = ?p + length ?rs" "?q \<le> batch_start bs j" using W ij batch_start_Suc [OF ij(3)] batch_start_mono [of "Suc i" j bs] by auto
  have q: "?q \<le> length ?xs" using batch_range(2) [OF inv ij(3)] pq(3) by simp
  have l64: "length ?xs < 2 ^ 64" using store_inv_run(2) [OF inv] by simp
  have lt: "n < 2 ^ 64" "m < 2 ^ 64" using Suc.prems(2) T l64 by simp_all
  have nm: "(of_nat n :: u64) < of_nat m" using of_nat_u64_less [OF lt] Suc.prems(2) T(1) by simp
  have sl: "?rs = slice ?xs ?p ?q" unfolding pq(3) using concat_slice [OF ij(3)] unfolding batch_start_def by (rule sym)
  have room: "length ?rs + (batch_start bs j - ?q) \<le> sb_max_scanned b - sc" "length (batch_bytes crc ?rs) + frame_bytes crc bs (Suc i) j \<le> sb_max_read_bytes b - br"
    using Suc.prems(4,5) pq(3,4) frame_bytes_step [OF ij(1,2), of crc] by linarith+
  have ev: "length events < sb_max_results b" using Suc.prems(2,3) by simp
  have nmq: "n \<le> min m ?q" using pq(2) Suc.prems(2) T(1) by simp
  obtain k where k: "n \<le> k" "k \<le> min m ?q"
    "scan_records alloc no_filter (sb_max_results b) (of_nat m) (slice ?xs n ?q) (of_nat n) events = Ok (of_nat k, events @ filter (stored_keeps no_filter) (slice ?xs n k))"
    "length events + length (filter (stored_keeps no_filter) (slice ?xs n k)) \<le> sb_max_results b"
    "length events + length (filter (stored_keeps no_filter) (slice ?xs n k)) < sb_max_results b \<longrightarrow> k = min m ?q"
    using scan_spec [OF log_numbered [OF inv] q T(2) mem nmq ev, of no_filter] by blast
  have kx: "k \<le> length ?xs" using k(2) q by simp
  have flt: "filter (stored_keeps no_filter) (slice ?xs n k) = slice ?xs n k" by simp
  have ln: "length (slice ?xs n k) = k - n" using k(1) kx by simp
  have sc: "scan_records alloc no_filter (sb_max_results b) (of_nat m) ?rs (of_nat n) events = Ok (of_nat k, events @ slice ?xs n k)"
    using k(3) scan_skips [OF log_numbered [OF inv] pq(1) _ q] pq(2) sl flt by simp
  have st: "?scan (of_nat n) events sc br = (if length (events @ slice ?xs n k) = sb_max_results b
      then Some (Ok (of_nat k, events @ slice ?xs n k, sc + length ?rs, br + length (batch_bytes crc ?rs)))
      else ?scan (of_nat k) (events @ slice ?xs n k) (sc + length ?rs) (br + length (batch_bytes crc ?rs)))"
    using fetch_frame [OF inv mem ij(3) pq(1,2), of segs] nm room sc by (subst history_scan.simps) auto
  show ?case
  proof (cases "T \<le> ?q")
    case True
    have "k = T" "length events + (k - n) = sb_max_results b" using k(1,2,4,5) True T(1) Suc.prems(2,3) unfolding flt ln by auto
    then show ?thesis using st ln by simp
  next
    case False
    then have lt': "length events + (k - n) < sb_max_results b" using k(1,2) Suc.prems(2,3) by linarith
    then have kq: "k = ?q" using k(5) False T(1) unfolding flt ln by simp
    have "Suc i < length bs \<Longrightarrow> Suc i < j \<Longrightarrow> ?q < batch_start bs (Suc (Suc i))"
      using batch_start_Suc [of "Suc i" bs] batch_range(1) [OF inv, of "Suc i"] by (simp del: length_greater_0_conv)
    then have w: "window bs (Suc i) j k T" using W ij False pq(2) unfolding window_def kq by auto
    have d: "d = j - Suc i" using Suc.hyps(2) by simp
    have "\<exists>sc' br'. ?scan (of_nat k) (events @ slice ?xs n k) (sc + length ?rs) (br + length (batch_bytes crc ?rs))
        = Some (Ok (of_nat T, (events @ slice ?xs n k) @ slice ?xs k T, sc', br'))"
    proof (rule Suc.hyps(1) [OF d w])
      show "k < T" using False kq by simp
      show "length (events @ slice ?xs n k) + (T - k) = sb_max_results b" using ln lt' Suc.prems(2,3) k(1) kq False by simp
      show "sc + length ?rs + (batch_start bs j - batch_start bs (Suc i)) \<le> sb_max_scanned b" using Suc.prems(4) pq(3,4) by simp
      show "br + length (batch_bytes crc ?rs) + frame_bytes crc bs (Suc i) j \<le> sb_max_read_bytes b" using Suc.prems(5) frame_bytes_step [OF ij(1,2), of crc] by simp
    qed
    moreover have "slice ?xs n T = slice ?xs n k @ slice ?xs k T" using k(1) False kq by (intro slice_split) simp_all
    ultimately show ?thesis using st ln lt' by simp
  qed
qed


subsection \<open>Playback\<close>

text \<open>The meaning of a reducer on a list of events, without checkpoints and pages.\<close>

fun playback :: "'s reducer \<Rightarrow> stored_event list \<Rightarrow> 's \<Rightarrow> rng \<Rightarrow> ('s, replay_error) result \<times> rng" where
  "playback red [] st g = (Ok st, g)"
| "playback red (e # es) st g = (case red st e g of
       (Ok _, st', g') \<Rightarrow> playback red es st' g'
     | (Err x, st', g') \<Rightarrow> (Err x, g')
     | (Panic, st', g') \<Rightarrow> (Panic, g'))"

lemma playback_append:
  "playback red (xs @ ys) st g = (case playback red xs st g of
       (Ok st', g') \<Rightarrow> playback red ys st' g' | (Err x, g') \<Rightarrow> (Err x, g') | (Panic, g') \<Rightarrow> (Panic, g'))"
  by (induction xs arbitrary: st g) (simp_all split: prod.splits result.splits)

definition with_header :: "('s, replay_error) result \<times> rng \<Rightarrow> (rng \<Rightarrow> checkpoint_header) \<Rightarrow> ('s \<times> checkpoint_header, replay_error) result \<times> rng" where
  "with_header r hdr = (case r of (Ok st, g) \<Rightarrow> (Ok (st, hdr g), g) | (Err x, g) \<Rightarrow> (Err x, g) | (Panic, g) \<Rightarrow> (Panic, g))"

definition header_after :: "stored_event list \<Rightarrow> checkpoint_header \<Rightarrow> rng \<Rightarrow> checkpoint_header" where
  "header_after es header g = (if es = [] then header else header\<lparr>ch_sequence := eid_sequence (se_id (last es)),
     ch_valid_time := et_valid (se_times (last es)), ch_known_time := et_known (se_times (last es)), ch_rng := rng_snapshot g\<rparr>)"

lemma replay_events_playback:
  assumes num: "numbered xs" and b: "b \<le> length xs" "b \<le> Suc target" "target < 2 ^ 64"
  shows "a \<le> b \<Longrightarrow> replay_events red (of_nat target) (slice xs a b) st (of_nat a) header g
     = with_header (playback red (slice xs a b) st g) (header_after (slice xs a b) header)"
proof (induction "b - a" arbitrary: a st header g)
  case 0
  then show ?case by (simp add: with_header_def header_after_def)
next
  case (Suc d)
  have ab: "a < b" "a < length xs" using Suc.hyps(2) b by simp_all
  have sl: "slice xs a b = xs ! a # slice xs (Suc a) b" by (rule slice_Cons [OF ab])
  have l64: "length xs < 2 ^ 64" using num by (simp add: numbered_def)
  have sq: "eid_sequence (se_id (xs ! a)) = of_nat a" using num ab(2) by (simp add: numbered_def)
  have a64: "a < 2 ^ 64" using ab l64 by simp
  have nt: "\<not> (of_nat target :: u64) < of_nat a" using of_nat_u64_less [OF b(3) a64] ab(1) b(2) by simp
  have "unat (of_nat a :: u64) = a" using a64 by (intro unat_of_nat_small) simp
  moreover have "a + 1 < 2 ^ 64" using ab l64 by simp
  ultimately have "checked_add (of_nat a :: u64) 1 = Some (of_nat a + 1)" unfolding checked_add_succ by simp
  then have ad: "add_or_panic (of_nat a :: u64) 1 = (Ok (of_nat (Suc a)) :: (_, replay_error) result)" by (simp add: add_or_panic_def add.commute)
  have d: "d = b - Suc a" using Suc.hyps(2) by simp
  obtain r st' g' where red: "red st (xs ! a) g = (r, st', g')" by (rule prod_cases3)
  let ?hd = "header\<lparr>ch_sequence := of_nat a, ch_valid_time := et_valid (se_times (xs ! a)), ch_known_time := et_known (se_times (xs ! a)), ch_rng := rng_snapshot g'\<rparr>"
  have IH: "replay_events red (of_nat target) (slice xs (Suc a) b) st' (of_nat (Suc a)) ?hd g'
     = with_header (playback red (slice xs (Suc a) b) st' g') (header_after (slice xs (Suc a) b) ?hd)"
    using Suc.hyps(1) [OF d] ab(1) by simp
  have hd: "with_header (playback red (slice xs (Suc a) b) st' g') (header_after (slice xs (Suc a) b) ?hd)
      = with_header (playback red (slice xs (Suc a) b) st' g') (header_after (xs ! a # slice xs (Suc a) b) header)"
  proof (cases "slice xs (Suc a) b")
    case Nil
    then show ?thesis by (simp add: with_header_def header_after_def sq)
  next
    case (Cons e es)
    then have "header_after (slice xs (Suc a) b) ?hd = header_after (xs ! a # slice xs (Suc a) b) header"
      by (intro ext) (simp add: header_after_def)
    then show ?thesis by simp
  qed
  show ?case
  proof (cases r)
    case (Ok u)
    then show ?thesis using IH hd by (simp add: sl red sq nt ad del: of_nat_Suc)
  qed (simp_all add: sl red sq nt with_header_def)
qed

lemma replay_from_playback:
  assumes inv: "store_inv crc h l 0 bs s wal" and mem: "\<forall>n. alloc n" and t: "target < length (concat bs)" and a: "a \<le> Suc target"
    and fit: "a = Suc target \<or> (\<exists>i j. window bs i j a (Suc target) \<and> batch_start bs j - batch_start bs i \<le> 65536 \<and> frame_bytes crc bs i j \<le> 64 * 1024 * 1024)"
  shows "replay_from crc alloc segs s wal red (of_nat target) st (of_nat a) header g
    = Some (with_header (playback red (slice (concat bs) a (Suc target)) st g) (header_after (slice (concat bs) a (Suc target)) header))"
proof -
  let ?xs = "concat bs"
  have l64: "length ?xs < 2 ^ 64" using store_inv_run(2) [OF inv] by simp
  have lt: "target < 2 ^ 64" "a < 2 ^ 64" using t a l64 by simp_all
  have S: "st_header s = h" "\<not> st_poisoned s" "st_next_sequence s = of_nat (length ?xs)" using store_inv_next [OF inv] by simp_all
  show ?thesis
  proof (cases "a = Suc target")
    case True
    then have "\<not> (of_nat a :: u64) \<le> of_nat target" using of_nat_u64_less [OF lt(2,1)] by simp
    then show ?thesis using True by (simp add: replay_from_def with_header_def header_after_def)
  next
    case False
    then have le: "a \<le> target" using a by simp
    then obtain i j where W: "window bs i j a (Suc target)" "batch_start bs j - batch_start bs i \<le> 65536" "frame_bytes crc bs i j \<le> 64 * 1024 * 1024"
      using fit by auto
    have le': "(of_nat a :: u64) \<le> of_nat target" using of_nat_u64_less [OF lt(2,1)] le by simp
    have c: "cursor_from_sequence s (of_nat a) no_filter = Ok (cursor_at h no_filter a (length ?xs))"
      using S of_nat_u64_less [OF l64 lt(2)] le t by (simp add: cursor_from_sequence_def cursor_at_def)
    have sub: "(of_nat target :: u64) - of_nat a = of_nat (target - a)" using le by (simp add: of_nat_diff)
    have u: "unat (of_nat (target - a) :: u64) = target - a" using lt by (intro unat_of_nat_small) simp
    have u1: "target - a + 1 < 2 ^ 64" using t l64 by simp
    have "checked_add (of_nat (target - a) :: u64) 1 = Some (of_nat (target - a) + 1)" unfolding checked_add_succ u using u1 by simp
    moreover have "(of_nat (target - a) :: u64) + 1 = of_nat (Suc target - a)" using le by (simp add: Suc_diff_le add.commute)
    ultimately have n: "add_or_panic (of_nat target - of_nat a :: u64) 1 = (Ok (of_nat (Suc target - a)) :: (_, replay_error) result)"
      unfolding sub by (simp add: add_or_panic_def)
    have un: "unat (of_nat (Suc target - a) :: u64) = Suc target - a" using u1 le by (intro unat_of_nat_small) simp
    let ?b = "replay_budget (Suc target - a)"
    have scan: "\<exists>sc' br'. history_scan crc alloc segs s wal no_filter ?b (of_nat (length ?xs)) (of_nat a) [] 0 0
        = Some (Ok (of_nat (Suc target), [] @ slice ?xs a (Suc target), sc', br'))"
      by (rule history_scan_window [OF inv mem _ order_refl W(1)]) (use t le W in \<open>simp_all add: replay_budget_def\<close>)
    then obtain sc br where scan: "history_scan crc alloc segs s wal no_filter ?b (of_nat (length ?xs)) (of_nat a) [] 0 0
        = Some (Ok (of_nat (Suc target), slice ?xs a (Suc target), sc, br))" by auto
    have cle: "(of_nat a :: u64) \<le> of_nat (length ?xs)" using of_nat_u64_less [OF lt(2) l64] le t by simp
    have hist: "\<exists>page. store_history crc alloc segs s wal no_filter ?b (Some (cursor_at h no_filter a (length ?xs))) = Some (Ok page)
        \<and> sp_events page = slice ?xs a (Suc target)"
      using scan S cle le by (auto simp: store_history_def cursor_at_def replay_budget_def no_filter_def)
    then obtain page where pg: "store_history crc alloc segs s wal no_filter ?b (Some (cursor_at h no_filter a (length ?xs))) = Some (Ok page)"
      "sp_events page = slice ?xs a (Suc target)" by blast
    show ?thesis
      using le' c n un pg replay_events_playback [OF log_numbered [OF inv] _ order_refl lt(1) a, of red st header g] t
      by (simp add: replay_from_def del: of_nat_Suc)
  qed
qed

end
