(* ===== verification/Replay_Exact.thy ===== *)
theory Replay_Exact
  imports Replay_Engine
begin

section \<open>Reconstruction is playback (\<open>temnion-replay\<close>)\<close>

text \<open>
  Checkpoint files are found by their names; a reconstruction that resumes from one gives what playing back
  the whole log gives. The engine reads a single page of history, so this needs the events from the checkpoint
  to the target to fit one; and it starts from the engine's current generator, which a call changes, so the
  generator of the playback is the one the call started with.
\<close>

subsection \<open>Names of checkpoint files\<close>

lemma dec_digits_range: "b \<in> set (dec_digits k n) \<Longrightarrow> 48 \<le> b \<and> b \<le> 57"
proof (induction k arbitrary: n)
  case (Suc k)
  have "48 + n mod 10 < 58" by simp
  then have "unat (of_nat (48 + n mod 10) :: u8) = 48 + n mod 10" by (intro unat_of_nat_small) simp
  then have "48 \<le> (of_nat (48 + n mod 10) :: u8) \<and> (of_nat (48 + n mod 10) :: u8) \<le> 57"
    unfolding word_le_nat_alt by simp
  then show ?case using Suc by (auto simp del: of_nat_add)
qed simp

lemma dec_value_append: "dec_value acc (xs @ ys) = Option.bind (dec_value acc xs) (\<lambda>a. dec_value a ys)"
  by (induction xs arbitrary: acc) simp_all

lemma dec_value_digits: "dec_value acc (dec_digits k n) = Some (acc * 10 ^ k + n mod 10 ^ k)"
proof (induction k arbitrary: n)
  case (Suc k)
  have "48 + n mod 10 < 58" by simp
  then have u: "unat (of_nat (48 + n mod 10) :: u8) = 48 + n mod 10" by (intro unat_of_nat_small) simp
  then have r: "48 \<le> (of_nat (48 + n mod 10) :: u8) \<and> (of_nat (48 + n mod 10) :: u8) \<le> 57"
    unfolding word_le_nat_alt by simp
  have "dec_value a [of_nat (48 + n mod 10)] = Some (a * 10 + n mod 10)" for a
    using r u by (simp del: of_nat_add)
  then have "dec_value acc (dec_digits (Suc k) n) = Some ((acc * 10 ^ k + n div 10 mod 10 ^ k) * 10 + n mod 10)"
    by (simp add: dec_value_append Suc.IH del: of_nat_add)
  also have "(acc * 10 ^ k + n div 10 mod 10 ^ k) * 10 + n mod 10 = acc * 10 ^ Suc k + n mod 10 ^ Suc k"
    using mod_mult2_eq [of n 10 "10 ^ k"] by (simp add: algebra_simps)
  finally show ?case .
qed simp

lemma parse_digits: "parse_u64 (dec_digits 20 (unat q)) = Some q"
proof -
  have ne: "dec_digits 20 (unat q) \<noteq> []" using dec_digits_ascii(2) [of 20 "unat q"] by auto
  then obtain b bs where b: "dec_digits 20 (unat q) = b # bs" by (cases "dec_digits 20 (unat q)") auto
  then have "48 \<le> b" using dec_digits_range [of b 20 "unat q"] by simp
  then have np: "take 1 (dec_digits 20 (unat q)) \<noteq> ascii ''+''" unfolding b by (auto simp: ascii_def)
  have lt: "unat q < 2 ^ 64" using unsigned_less [of q, where ?'a = nat] by simp
  have "(2 :: nat) ^ 64 < 10 ^ 20" by simp
  then have "unat q mod 10 ^ 20 = unat q" by (rule mod_less [OF less_trans [OF lt]])
  then show ?thesis using ne np lt dec_value_digits [of 0 20 "unat q"] by (simp add: parse_u64_def)
qed

lemma checkpoint_sequence_name [simp]: "checkpoint_sequence (checkpoint_name q) = Some q"
proof -
  let ?d = "dec_digits 20 (unat q)"
  have len: "length ?d = 20" by (rule dec_digits_ascii(2))
  have e: "ends_with (ascii ''.tcp'') (checkpoint_name q)" by (simp add: ends_with_def checkpoint_name_def ascii_def len)
  have range: "48 \<le> b \<and> b \<le> 57" if "b \<in> set ?d" for b using dec_digits_range that by blast
  have dot: "take 5 (checkpoint_name q) \<noteq> ascii ''.tmp-''"
  proof
    assume eq: "take 5 (checkpoint_name q) = ascii ''.tmp-''"
    have "take 5 (checkpoint_name q) ! 0 = ?d ! 0" using len by (simp add: checkpoint_name_def nth_append)
    then have "?d ! 0 = 46" unfolding eq by (simp add: ascii_def)
    moreover have "?d ! 0 \<in> set ?d" using len by (intro nth_mem) simp
    ultimately show False using range [of "?d ! 0"] by simp
  qed
  have ne: "\<not> ends_with (ascii ''.tcp'') ?d"
  proof
    assume "ends_with (ascii ''.tcp'') ?d"
    then have "drop 16 ?d = ascii ''.tcp''" by (simp add: ends_with_def ascii_def len)
    then have "(46 :: u8) \<in> set (drop 16 ?d)" by (simp add: ascii_def)
    then have "(46 :: u8) \<in> set ?d" by (rule in_set_dropD)
    from range [OF this] show False by simp
  qed
  have "trim_end_matches (ascii ''.tcp'') (checkpoint_name q) = trim_end_matches (ascii ''.tcp'') ?d"
    using e by (subst trim_end_matches.simps) (simp add: checkpoint_name_def ascii_def)
  also have "\<dots> = ?d" using ne by (subst trim_end_matches.simps) simp
  finally show ?thesis using e dot parse_digits [of q] by (simp add: checkpoint_sequence_def)
qed

lemma checkpoint_name_inj [simp]: "checkpoint_name p = checkpoint_name q \<longleftrightarrow> p = q"
  by (metis checkpoint_sequence_name option.inject)

lemma highest_checkpoint_in:
  "highest_checkpoint m hi names = Some q \<Longrightarrow> hi = Some q \<or> (q \<le> m \<and> (\<exists>name \<in> set names. checkpoint_sequence name = Some q))"
proof (induction names arbitrary: hi)
  case (Cons n ns)
  show ?case using Cons.IH [OF Cons.prems [unfolded highest_checkpoint.simps]] by (auto split: option.splits if_splits)
qed simp


subsection \<open>Resuming from a checkpoint\<close>

text \<open>A checkpoint is faithful if it holds the state and the generator after the events up to its sequence.\<close>

definition faithful :: "'s reducer \<Rightarrow> (bytes \<Rightarrow> ('s, replay_error) result) \<Rightarrow> 's \<Rightarrow> rng \<Rightarrow> stored_event list \<Rightarrow> checkpoint \<Rightarrow> bool" where
  "faithful red dec dflt g0 xs c \<longleftrightarrow> wf_checkpoint c \<and> (\<exists>q st g. q < length xs \<and> ch_sequence (cp_header c) = of_nat q
     \<and> playback red (take (Suc q) xs) dflt g0 = (Ok st, g) \<and> dec (cp_payload c) = Ok st \<and> ch_rng (cp_header c) = rng_snapshot g)"

definition resume_position :: "bytes list \<Rightarrow> nat \<Rightarrow> nat" where
  "resume_position names target = (case highest_checkpoint (of_nat target) None names of None \<Rightarrow> 0 | Some q \<Rightarrow> Suc (unat q))"

text \<open>The frames from the resume position to the target fit one page of history.\<close>

definition one_page :: "(bytes \<Rightarrow> u32) \<Rightarrow> stored_event list list \<Rightarrow> nat \<Rightarrow> nat \<Rightarrow> bool" where
  "one_page crc bs a b \<longleftrightarrow> a = b \<or> (\<exists>i j. window bs i j a b \<and> batch_start bs j - batch_start bs i \<le> 65536 \<and> frame_bytes crc bs i j \<le> 64 * 1024 * 1024)"

lemma saved_checkpoints:
  "fold_result (checkpoint_save crc alloc) cs dir0 = Ok dir \<Longrightarrow> dir n = Some bs \<Longrightarrow>
     dir0 n = Some bs \<or> (\<exists>c \<in> set cs. n = checkpoint_name (ch_sequence (cp_header c)) \<and> encode_checkpoint crc alloc c = Ok bs)"
proof (induction cs arbitrary: dir0)
  case (Cons c cs)
  obtain b where b: "encode_checkpoint crc alloc c = Ok b"
    "fold_result (checkpoint_save crc alloc) cs (dir0(checkpoint_name (ch_sequence (cp_header c)) \<mapsto> b)) = Ok dir"
  proof -
    obtain d where "checkpoint_save crc alloc c dir0 = Ok d" "fold_result (checkpoint_save crc alloc) cs d = Ok dir"
      using Cons.prems(1) by (auto simp: rbind_eq_Ok)
    then show thesis using that by (auto simp: checkpoint_save_def rbind_eq_Ok)
  qed
  show ?case using Cons.IH [OF b(2) Cons.prems(2)] b(1) by (auto split: if_splits)
qed simp

lemma find_latest_spec:
  assumes save: "fold_result (checkpoint_save crc alloc) cs (\<lambda>_. None) = Ok dir" and names: "set names = dom dir"
    and wf: "\<forall>c \<in> set cs. wf_checkpoint c"
  obtains (none) "highest_checkpoint m None names = None" "find_latest crc names dir m = Ok None"
  | (some) c where "highest_checkpoint m None names = Some (ch_sequence (cp_header c))" "c \<in> set cs" "ch_sequence (cp_header c) \<le> m"
      "find_latest crc names dir m = Ok (Some c)"
proof (cases "highest_checkpoint m None names")
  case None
  then show thesis using that(1) by (simp add: find_latest_def)
next
  case (Some q)
  from highest_checkpoint_in [OF Some] obtain name where q: "q \<le> m" and name: "name \<in> set names" "checkpoint_sequence name = Some q" by auto
  have from_dir: "\<exists>c \<in> set cs. n = checkpoint_name (ch_sequence (cp_header c)) \<and> encode_checkpoint crc alloc c = Ok bs" if "dir n = Some bs" for n bs
    using saved_checkpoints [OF save that] by simp
  obtain bs where "dir name = Some bs" using name names by auto
  from from_dir [OF this] obtain c :: checkpoint where c: "name = checkpoint_name (ch_sequence (cp_header c))" by blast
  then have "name = checkpoint_name q" using name(2) by simp
  then have "dir (checkpoint_name q) = Some bs" using \<open>dir name = Some bs\<close> by simp
  from from_dir [OF this] obtain c' where c': "c' \<in> set cs" "checkpoint_name q = checkpoint_name (ch_sequence (cp_header c'))" "encode_checkpoint crc alloc c' = Ok bs"
    by blast
  have "decode_checkpoint crc bs = Ok c'" using decode_encode_checkpoint wf c' by blast
  then show thesis using that(2) [of c'] Some c' q \<open>dir (checkpoint_name q) = Some bs\<close> by (simp add: find_latest_def checkpoint_load_def)
qed

lemma take_resume: "a \<le> b \<Longrightarrow> b \<le> length xs \<Longrightarrow> take b xs = take a xs @ slice xs a b"
  by (rule take_slice)

lemma with_header_cases:
  assumes "\<And>g. ch_sequence (hdr g) = sq \<and> ch_rng (hdr g) = rng_snapshot g"
  shows "case r of
      (Ok st, g) \<Rightarrow> (\<exists>h. with_header r hdr = (Ok (st, h), g) \<and> ch_sequence h = sq \<and> ch_rng h = rng_snapshot g)
    | (Err e, g) \<Rightarrow> with_header r hdr = (Err e, g) | (Panic, g) \<Rightarrow> with_header r hdr = (Panic, g)"
  using assms by (auto simp: with_header_def split: result.splits)

text \<open>C27: Reconstruction from a checkpoint is exact. Take a store reached by any sequence of appends and a
  directory with any faithful checkpoints, saved in any order. If the frames between the latest checkpoint
  at or before the target (or the beginning) and the target fit one page of history, the reconstruction at the
  target terminates and gives what playing back the whole log up to the target gives: the same state and
  generator, with a header of that sequence, or the same error or panic.\<close>

theorem replay_exact:
  assumes create: "store_create crc False False (Some db) source epoch limits_default = Ok (s0, w0)" "wf_database_id db"
    and run: "run_ops (append_step crc alloc) (s0, w0) ops = (rs, s, wal)" "\<forall>(oc, batch) \<in> set ops. length batch < 2 ^ 64" "\<not> st_poisoned s"
    and mem: "\<forall>n. alloc' n" and segs: "segs manifest_name = None"
  defines "bs \<equiv> acked (st_header s0) 0 ops rs"
  assumes target: "target < length (concat bs)"
    and save: "fold_result (checkpoint_save crc alloc'') cs (\<lambda>_. None) = Ok dir" and names: "set names = dom dir"
    and cs: "\<forall>c \<in> set cs. faithful red dec dflt g0 (concat bs) c"
    and page: "one_page crc bs (resume_position names target) (Suc target)"
  shows "case playback red (take (Suc target) (concat bs)) dflt g0 of
      (Ok st, g) \<Rightarrow> (\<exists>h. reconstruct_at_sequence crc alloc' wal segs names dir red dec dflt (of_nat target) g0 = Some (Ok (st, h), g)
           \<and> ch_sequence h = of_nat target \<and> ch_rng h = rng_snapshot g)
    | (Err e, g) \<Rightarrow> reconstruct_at_sequence crc alloc' wal segs names dir red dec dflt (of_nat target) g0 = Some (Err e, g)
    | (Panic, g) \<Rightarrow> reconstruct_at_sequence crc alloc' wal segs names dir red dec dflt (of_nat target) g0 = Some (Panic, g)"
proof -
  let ?h = "st_header s0" and ?xs = "concat bs" and ?t = "of_nat target :: u64"
  let ?rec = "reconstruct_at_sequence crc alloc' wal segs names dir red dec dflt ?t g0"
  have inv: "store_inv crc ?h limits_default 0 bs s wal" using reachable_inv [OF create run] by (simp add: bs_def)
  have l: "validate_limits limits_default = Ok ()" using store_create_inv(2) [OF create] .
  have op: "store_open crc alloc' False (Some wal) (segs manifest_name) limits_default RejectIncompleteTail = Ok (s, report s [], wal)"
    using store_open_recovers(2) [OF inv _ l mem, of None "[]"] segs by simp
  have l64: "length ?xs < 2 ^ 64" using store_inv_run(2) [OF inv] by simp
  have t64: "target < 2 ^ 64" using target l64 by simp
  have tl: "\<not> store_len s \<le> ?t" using store_inv_next [OF inv] of_nat_u64_less [OF l64 t64] target by (simp add: store_len_def)
  have rec: "?rec = replay_from crc alloc' segs s wal red ?t st (of_nat (resume_position names target)) hd0 g"
    if "restore_point crc names dir dec dflt s ?t g0 = Ok (st, of_nat (resume_position names target), hd0, g)" for st hd0 g
    using op tl that by (simp add: reconstruct_at_sequence_def)
  have wf: "\<forall>c \<in> set cs. wf_checkpoint c" using cs by (simp add: faithful_def)
  have last: "eid_sequence (se_id (last (slice ?xs a (Suc target)))) = ?t" "slice ?xs a (Suc target) \<noteq> []" if "a \<le> target" for a
  proof -
    have ln: "length (slice ?xs a (Suc target)) = Suc target - a" using that target by simp
    then show "slice ?xs a (Suc target) \<noteq> []" using that by auto
    then have "last (slice ?xs a (Suc target)) = ?xs ! target" using ln that target by (simp add: last_conv_nth slice_def)
    then show "eid_sequence (se_id (last (slice ?xs a (Suc target)))) = ?t" using log_numbered [OF inv] target by (simp add: numbered_def)
  qed
  have goal: ?thesis if point: "restore_point crc names dir dec dflt s ?t g0 = Ok (st, of_nat a, hd0, g)" and a: "a = resume_position names target" "a \<le> Suc target"
    and pre: "playback red (take a ?xs) dflt g0 = (Ok st, g)" and hd0: "a = Suc target \<Longrightarrow> ch_sequence hd0 = ?t \<and> ch_rng hd0 = rng_snapshot g" for a st hd0 g
  proof -
    let ?sl = "slice ?xs a (Suc target)"
    have r: "?rec = Some (with_header (playback red ?sl st g) (header_after ?sl hd0))"
      using rec [of st hd0 g] point a replay_from_playback [OF inv mem target a(2), of segs red st hd0 g] page unfolding one_page_def by simp
    have "playback red (take (Suc target) ?xs) dflt g0 = playback red ?sl st g"
      using take_slice [OF a(2), of ?xs] pre by (simp add: playback_append)
    moreover have "case playback red ?sl st g of
        (Ok st', g') \<Rightarrow> (\<exists>h. with_header (playback red ?sl st g) (header_after ?sl hd0) = (Ok (st', h), g') \<and> ch_sequence h = ?t \<and> ch_rng h = rng_snapshot g')
      | (Err e, g') \<Rightarrow> with_header (playback red ?sl st g) (header_after ?sl hd0) = (Err e, g')
      | (Panic, g') \<Rightarrow> with_header (playback red ?sl st g) (header_after ?sl hd0) = (Panic, g')"
    proof (cases "a = Suc target")
      case True
      then show ?thesis using hd0 by (simp add: with_header_def header_after_def)
    next
      case False
      then have "a \<le> target" using a(2) by simp
      from last [OF this] show ?thesis by (intro with_header_cases) (simp add: header_after_def)
    qed
    ultimately show ?thesis using r by (auto split: result.splits prod.splits)
  qed
  consider (none) "highest_checkpoint ?t None names = None" "find_latest crc names dir ?t = Ok None"
    | (some) c where "highest_checkpoint ?t None names = Some (ch_sequence (cp_header c))" "c \<in> set cs" "ch_sequence (cp_header c) \<le> ?t"
        "find_latest crc names dir ?t = Ok (Some c)"
    by (rule find_latest_spec [OF save names wf, of ?t])
  then show ?thesis
  proof cases
    case none
    then have "resume_position names target = 0" "restore_point crc names dir dec dflt s ?t g0 = Ok (dflt, 0, start_header s g0, g0)"
      by (simp_all add: resume_position_def restore_point_def)
    then show ?thesis by (intro goal [of dflt 0 "start_header s g0" g0]) simp_all
  next
    case (some c)
    obtain q st g where q: "q < length ?xs" "ch_sequence (cp_header c) = of_nat q" "playback red (take (Suc q) ?xs) dflt g0 = (Ok st, g)"
      "dec (cp_payload c) = Ok st" "ch_rng (cp_header c) = rng_snapshot g" using cs some(2) by (auto simp: faithful_def)
    have q64: "q < 2 ^ 64" using q(1) l64 by simp
    have uq: "unat (of_nat q :: u64) = q" using q64 by (intro unat_of_nat_small) simp
    have qt: "q \<le> target" using some(3) of_nat_u64_less [OF q64 t64] q(2) by simp
    have rp: "resume_position names target = Suc q" using some(1) q(2) uq by (simp add: resume_position_def)
    have "q + 1 < 2 ^ 64" using q(1) l64 by simp
    then have "checked_add (of_nat q :: u64) 1 = Some (of_nat q + 1)" unfolding checked_add_succ uq by simp
    then have "add_or_panic (of_nat q :: u64) 1 = (Ok (of_nat (Suc q)) :: (_, replay_error) result)" by (simp add: add_or_panic_def add.commute)
    then have "restore_point crc names dir dec dflt s ?t g0 = Ok (st, of_nat (Suc q), cp_header c, g)"
      using some(4) q by (simp add: restore_point_def del: of_nat_Suc)
    then show ?thesis by (rule goal) (use rp qt q in auto)
  qed
qed


subsection \<open>A concrete reconstruction\<close>

definition sample_rng :: rng where
  "sample_rng = \<lparr>rng_seed = 3, rng_state = 4, rng_steps = 0\<rparr>"

definition sample_state :: raw_entity_map where
  "sample_state = [(se_entity (sample_records ! 0), (se_schema (sample_records ! 0), se_payload (sample_records ! 0)))]"

definition sample_checkpoint :: checkpoint where
  "sample_checkpoint = \<lparr>cp_header = \<lparr>ch_database = replicate 16 0, ch_source = 1, ch_epoch = 1, ch_sequence = 0,
     ch_valid_time = \<lparr>ts_clock = 0, ts_ticks = 0\<rparr>, ch_known_time = \<lparr>ts_clock = 0, ts_ticks = 0\<rparr>, ch_rng = sample_rng,
     ch_state_bytes_len = of_nat (length (encode_raw_entity_map sample_state))\<rparr>, cp_payload = encode_raw_entity_map sample_state\<rparr>"

lemma sample_playback: "playback raw_reduce (take (Suc 0) sample_records) [] g = (Ok sample_state, g)"
  by (simp add: sample_records_def raw_reduce_def sample_state_def)

lemma sample_faithful: "faithful raw_reduce decode_raw_entity_map [] sample_rng sample_records sample_checkpoint"
proof -
  have len: "length sample_records = 1" by (simp add: sample_records_def)
  have pl: "se_payload (sample_records ! 0) = we_payload sample_write" by (simp add: sample_records_def to_record_def)
  have enc: "raw_encodable sample_state" by (simp add: raw_encodable_def sample_state_def pl sample_write_def)
  have "length (encode_raw_entity_map sample_state) < 2 ^ 32"
    by (simp add: encode_raw_entity_map_def sample_state_def encode_entity_def pl sample_write_def)
  then show ?thesis using len raw_entity_map_roundtrip [OF enc] sample_playback [of sample_rng]
    by (auto simp: faithful_def wf_checkpoint_def sample_checkpoint_def wf_database_id_def rng_snapshot_def sample_rng_def intro!: exI [of _ 0])
qed

theorem replay_exact_witness:
  "\<exists>bs h. reconstruct_at_sequence (\<lambda>_. 5) (\<lambda>_. True) (encode_wal_header (\<lambda>_. 5) sample_header @ batch_bytes (\<lambda>_. 5) sample_records) (\<lambda>_. None)
       [checkpoint_name 0] [checkpoint_name 0 \<mapsto> bs] raw_reduce decode_raw_entity_map [] 0 sample_rng = Some (Ok (sample_state, h), sample_rng)
     \<and> ch_sequence h = 0"
proof -
  obtain receipt where run: "run_ops (append_step (\<lambda>_. 5) (\<lambda>_. True)) (fresh_store sample_header limits_default 0, encode_wal_header (\<lambda>_. 5) sample_header)
       [(Written, [sample_write])]
     = ([Ok receipt], index_batch (\<lambda>_. 5) sample_records (fresh_store sample_header limits_default 0),
        encode_wal_header (\<lambda>_. 5) sample_header @ batch_bytes (\<lambda>_. 5) sample_records)" using sample_append by blast
  have ack: "acked (st_header (fresh_store sample_header limits_default 0)) 0 [(Written, [sample_write])] [Ok receipt] = [sample_records]" by (simp add: sample_records_def)
  have len: "0 < length sample_records" by (simp add: sample_records_def)
  obtain bs where bs: "encode_checkpoint (\<lambda>_. 5) (\<lambda>_. True) sample_checkpoint = Ok bs" by (simp add: encode_checkpoint_def try_reserve_def Let_def)
  have sv: "fold_result (checkpoint_save (\<lambda>_. 5) (\<lambda>_. True)) [sample_checkpoint] (\<lambda>_. None) = Ok [checkpoint_name 0 \<mapsto> bs]"
    using bs by (simp add: checkpoint_save_def) (simp add: sample_checkpoint_def)
  have rp: "resume_position [checkpoint_name 0] 0 = Suc 0" by (simp add: resume_position_def)
  have c: "wf_database_id (replicate 16 0)" "\<forall>(oc, batch) \<in> set [(Written, [sample_write])]. length batch < 2 ^ 64"
    "\<not> st_poisoned (index_batch (\<lambda>_. 5) sample_records (fresh_store sample_header limits_default 0))" "\<forall>n. (\<lambda>_. True) n"
    "(\<lambda>_. None) manifest_name = None"
    by (simp_all add: wf_database_id_def)
  show ?thesis
    using replay_exact [OF sample_create c(1) run c(2-5), unfolded ack, of 0 "\<lambda>_. True" "[sample_checkpoint]" "[checkpoint_name 0 \<mapsto> bs]" "[checkpoint_name 0]"
        raw_reduce decode_raw_entity_map "[]" sample_rng] sample_faithful len sv rp
    by (auto simp: one_page_def sample_playback)
qed

end
