(* ===== verification/Branch_Manager.thy ===== *)
theory Branch_Manager
  imports Replay_Engine
begin

section \<open>Branched timelines (\<open>temnion-branch\<close>)\<close>

text \<open>
  A manifest lists the branches of a database with their parents and fork sequences; every branch has a log of
  its own in its own directory, branch 0 in the root directory. The directory name of a branch is its number in
  hexadecimal, so files are indexed by the number. \<open>disk\<close> holds what the code reads and writes: the
  manifest file and, per branch, the log, the segment directory and the directory of checkpoints with the order
  in which it is listed. Resolving a timeline follows the parents in a loop; \<open>None\<close> is non-termination.
\<close>

definition TNBM_MAGIC :: bytes where "TNBM_MAGIC = [0x54, 0x4E, 0x42, 0x4D]"
definition TNBM_VERSION :: u16 where "TNBM_VERSION = 1"

datatype branch_lifecycle = Active | Temporary | Candidate | Promoted | Retired

datatype branch_error =
    BrStorage storage_error
  | BrReplay replay_error
  | BrFormat string
  | BrChecksumMismatch
  | BrInvalidMagic
  | BrUnsupportedVersion u16
  | BrBranchNotFound branch_id
  | BrParentNotFound branch_id
  | BrInvalidForkSequence u64 u64
  | BrBranchAlreadyRetired branch_id

fun lift_storage :: "('a, storage_error) result \<Rightarrow> ('a, branch_error) result" where
  "lift_storage (Ok x) = Ok x"
| "lift_storage (Err e) = Err (BrStorage e)"
| "lift_storage Panic = Panic"

fun lift_replay :: "('a, replay_error) result \<Rightarrow> ('a, branch_error) result" where
  "lift_replay (Ok x) = Ok x"
| "lift_replay (Err e) = Err (BrReplay e)"
| "lift_replay Panic = Panic"

lemma lift_Ok [result_ok]: "lift_storage m = Ok x \<longleftrightarrow> m = Ok x" "lift_replay m' = Ok y \<longleftrightarrow> m' = Ok y"
  by (cases m; simp) (cases m'; simp)

definition lifecycle_from_u8 :: "u8 \<Rightarrow> (branch_lifecycle, branch_error) result" where
  "lifecycle_from_u8 v = (if v = 0 then Ok Active else if v = 1 then Ok Temporary else if v = 2 then Ok Candidate
     else if v = 3 then Ok Promoted else if v = 4 then Ok Retired else Err (BrFormat ''unknown branch lifecycle tag''))"

fun lifecycle_u8 :: "branch_lifecycle \<Rightarrow> u8" where
  "lifecycle_u8 Active = 0" | "lifecycle_u8 Temporary = 1" | "lifecycle_u8 Candidate = 2" | "lifecycle_u8 Promoted = 3" | "lifecycle_u8 Retired = 4"

record branch_metadata =
  br_id :: branch_id
  br_name :: bytes
  br_parent :: "(branch_id \<times> u64) option"
  br_lifecycle :: branch_lifecycle
  br_created_at_ms :: u64

record branch_manifest =
  bf_database :: database_id
  bf_branches :: "(branch_id, branch_metadata) btree"

definition encode_branch :: "branch_id \<times> branch_metadata \<Rightarrow> bytes" where
  "encode_branch = (\<lambda>(i, meta).
     to_le 8 i @ to_le 2 (of_nat (length (br_name meta)) :: u16) @ br_name meta
     @ (case br_parent meta of Some (p, sq) \<Rightarrow> [1] @ to_le 8 p @ to_le 8 sq | None \<Rightarrow> [0])
     @ [lifecycle_u8 (br_lifecycle meta)] @ to_le 8 (br_created_at_ms meta))"

definition branches_encode :: "(bytes \<Rightarrow> u32) \<Rightarrow> branch_manifest \<Rightarrow> bytes" where
  "branches_encode crc m =
     (let body = concat (map encode_branch (bf_branches m)) in
      TNBM_MAGIC @ to_le 2 TNBM_VERSION @ bf_database m @ to_le 4 (of_nat (length (bf_branches m)) :: u32) @ to_le 4 (crc body) @ body)"

fun decode_branches :: "nat \<Rightarrow> (branch_id, branch_metadata) btree \<Rightarrow> bytes \<Rightarrow> ((branch_id, branch_metadata) btree, branch_error) result" where
  "decode_branches 0 branches rest = Ok branches"
| "decode_branches (Suc n) branches rest =
     (if length rest < 10 then Err (BrFormat ''truncated branch metadata'') else
      rbind (slice_le 8 rest) (\<lambda>(i, rest).
      rbind (slice_le 2 rest) (\<lambda>(name_len :: u16, rest).
      if length rest < unat name_len + 1 then Err (BrFormat ''truncated branch name'') else
      rbind (from_utf8 (BrFormat ''invalid utf8 in branch name'') (take (unat name_len) rest)) (\<lambda>name.
      rbind (slice_le 1 (drop (unat name_len) rest)) (\<lambda>(has_parent :: u8, rest).
      rbind (if has_parent = 1 then
               if length rest < 16 then Err (BrFormat ''truncated parent branch specification'') else
               rbind (slice_le 8 rest) (\<lambda>(p, rest).
               rbind (slice_le 8 rest) (\<lambda>(sq, rest). Ok (Some (p, sq), rest)))
             else Ok (None, rest)) (\<lambda>(parent, rest).
      if length rest < 9 then Err (BrFormat ''truncated branch lifecycle'') else
      rbind (slice_le 1 rest) (\<lambda>(tag, rest).
      rbind (lifecycle_from_u8 tag) (\<lambda>lifecycle.
      rbind (slice_le 8 rest) (\<lambda>(created, rest).
      decode_branches n
        (bt_insert i \<lparr>br_id = i, br_name = name, br_parent = parent, br_lifecycle = lifecycle, br_created_at_ms = created\<rparr> branches)
        rest)))))))))"

definition branches_decode :: "(bytes \<Rightarrow> u32) \<Rightarrow> bytes \<Rightarrow> (branch_manifest, branch_error) result" where
  "branches_decode crc bs =
     (if length bs < 30 then Err (BrFormat ''truncated branch manifest header'')
      else if slice bs 0 4 \<noteq> TNBM_MAGIC then Err BrInvalidMagic
      else if (from_le (slice bs 4 6) :: u16) \<noteq> TNBM_VERSION then Err (BrUnsupportedVersion (from_le (slice bs 4 6)))
      else if crc (drop 30 bs) \<noteq> from_le (slice bs 26 30) then Err BrChecksumMismatch
      else rbind (decode_branches (unat (from_le (slice bs 22 26) :: u32)) [] (drop 30 bs)) (\<lambda>branches.
           Ok \<lparr>bf_database = slice bs 6 22, bf_branches = branches\<rparr>))"

subsection \<open>The manager\<close>

record timeline_segment =
  tl_branch :: branch_id
  tl_start :: u64
  tl_end :: "u64 option"

record disk =
  dk_manifest :: "bytes option"
  dk_wal :: "branch_id \<Rightarrow> bytes option"
  dk_segments :: "branch_id \<Rightarrow> directory"
  dk_names :: "branch_id \<Rightarrow> bytes list"
  dk_checkpoints :: "branch_id \<Rightarrow> directory"

definition open_branch_store :: "(bytes \<Rightarrow> u32) \<Rightarrow> (usize \<Rightarrow> bool) \<Rightarrow> disk \<Rightarrow> branch_id \<Rightarrow> (store \<times> bytes, branch_error) result" where
  "open_branch_store crc alloc d i =
     rbind (lift_storage (store_open crc alloc False (dk_wal d i) (dk_segments d i manifest_name) limits_default RejectIncompleteTail))
       (\<lambda>(s, _, wal). Ok (s, wal))"

definition main_branch :: branch_metadata where
  "main_branch = \<lparr>br_id = 0, br_name = ascii ''main'', br_parent = None, br_lifecycle = Active, br_created_at_ms = 0\<rparr>"

definition branch_open :: "(bytes \<Rightarrow> u32) \<Rightarrow> (usize \<Rightarrow> bool) \<Rightarrow> disk \<Rightarrow> (branch_manifest \<times> disk, branch_error) result" where
  "branch_open crc alloc d = (case dk_manifest d of
       Some bs \<Rightarrow> rbind (branches_decode crc bs) (\<lambda>m. Ok (m, d))
     | None \<Rightarrow>
         rbind (open_branch_store crc alloc d 0) (\<lambda>(s, _).
         let m = \<lparr>bf_database = wh_database (st_header s), bf_branches = [(0, main_branch)]\<rparr>
         in Ok (m, d\<lparr>dk_manifest := Some (branches_encode crc m)\<rparr>)))"

definition next_branch_id :: "branch_manifest \<Rightarrow> (branch_id, branch_error) result" where
  "next_branch_id m = add_or_panic (case bt_keys (bf_branches m) of [] \<Rightarrow> 0 | ks \<Rightarrow> Max (set ks)) 1"

text \<open>\<open>create_fork\<close>: \<open>db\<close> is the random identity of the new store. The manifest in memory and the files are
  returned.\<close>

definition create_fork :: "(bytes \<Rightarrow> u32) \<Rightarrow> (usize \<Rightarrow> bool) \<Rightarrow> database_id option \<Rightarrow> branch_id \<Rightarrow> bytes \<Rightarrow> u64 \<Rightarrow> branch_lifecycle
    \<Rightarrow> branch_manifest \<Rightarrow> disk \<Rightarrow> (branch_id \<times> branch_manifest \<times> disk, branch_error) result" where
  "create_fork crc alloc db parent name fork_sequence lifecycle m d =
     rbind (ok_or (bt_get (bf_branches m) parent) (BrParentNotFound parent)) (\<lambda>parent_meta.
     if br_lifecycle parent_meta = Retired then Err (BrBranchAlreadyRetired parent) else
     rbind (open_branch_store crc alloc d parent) (\<lambda>(s, _).
     if fork_sequence \<ge> store_len s \<and> store_len s > 0
     then Err (BrInvalidForkSequence fork_sequence (saturating_sub (store_len s) 1)) else
     rbind (next_branch_id m) (\<lambda>next_id.
     rbind (lift_storage (store_create crc False (dk_wal d next_id \<noteq> None) db (ucast next_id) 1 limits_default)) (\<lambda>(_, wal).
     let m' = m\<lparr>bf_branches := bt_insert next_id
           \<lparr>br_id = next_id, br_name = name, br_parent = Some (parent, fork_sequence), br_lifecycle = lifecycle, br_created_at_ms = 0\<rparr> (bf_branches m)\<rparr>
     in Ok (next_id, m', d\<lparr>dk_wal := (dk_wal d)(next_id \<mapsto> wal), dk_manifest := Some (branches_encode crc m')\<rparr>)))))"

definition set_lifecycle :: "(bytes \<Rightarrow> u32) \<Rightarrow> branch_id \<Rightarrow> branch_lifecycle \<Rightarrow> branch_manifest \<Rightarrow> disk \<Rightarrow> (branch_manifest \<times> disk, branch_error) result" where
  "set_lifecycle crc i lifecycle m d =
     rbind (ok_or (bt_get (bf_branches m) i) (BrBranchNotFound i)) (\<lambda>meta.
     let m' = m\<lparr>bf_branches := bt_insert i (meta\<lparr>br_lifecycle := lifecycle\<rparr>) (bf_branches m)\<rparr>
     in Ok (m', d\<lparr>dk_manifest := Some (branches_encode crc m')\<rparr>))"

text \<open>The loop pushes the segments from the branch to the root; they are reversed at the end.\<close>

partial_function (option) timeline_loop :: "branch_manifest \<Rightarrow> branch_id \<Rightarrow> u64 option \<Rightarrow> timeline_segment list
    \<Rightarrow> (timeline_segment list, branch_error) result option" where
  "timeline_loop m i child_fork segments =
     (case bt_get (bf_branches m) i of
        None \<Rightarrow> Some (Err (BrBranchNotFound i))
      | Some meta \<Rightarrow>
          (case br_parent meta of
             None \<Rightarrow> Some (Ok (segments @ [\<lparr>tl_branch = i, tl_start = 0, tl_end = child_fork\<rparr>]))
           | Some (p, fork_seq) \<Rightarrow>
               (case add_or_panic fork_seq 1 of
                  Ok start \<Rightarrow> timeline_loop m p (Some fork_seq) (segments @ [\<lparr>tl_branch = i, tl_start = start, tl_end = child_fork\<rparr>])
                | Err e \<Rightarrow> Some (Err e)
                | Panic \<Rightarrow> Some Panic)))"

definition resolve_timeline :: "branch_manifest \<Rightarrow> branch_id \<Rightarrow> (timeline_segment list, branch_error) result option" where
  "resolve_timeline m i = pbind (timeline_loop m i None []) (\<lambda>segments. Some (Ok (rev segments)))"

definition append_to_branch :: "(bytes \<Rightarrow> u32) \<Rightarrow> (usize \<Rightarrow> bool) \<Rightarrow> write_outcome \<Rightarrow> branch_id \<Rightarrow> write_event list \<Rightarrow> branch_manifest \<Rightarrow> disk
    \<Rightarrow> (u64, branch_error) result \<times> disk" where
  "append_to_branch crc alloc oc i events m d =
     (case rbind (ok_or (bt_get (bf_branches m) i) (BrBranchNotFound i)) (\<lambda>meta.
           if br_lifecycle meta = Retired then Err (BrBranchAlreadyRetired i) else open_branch_store crc alloc d i) of
        Err e \<Rightarrow> (Err e, d)
      | Panic \<Rightarrow> (Panic, d)
      | Ok (s, wal) \<Rightarrow>
          (case store_append crc alloc oc events s wal of (r, _, wal') \<Rightarrow>
             (rbind (lift_storage r) (\<lambda>receipt. Ok (eid_sequence (dr_first receipt))), d\<lparr>dk_wal := (dk_wal d)(i \<mapsto> wal')\<rparr>)))"

fun owning_segment :: "u64 \<Rightarrow> timeline_segment list \<Rightarrow> timeline_segment option" where
  "owning_segment target [] = None"
| "owning_segment target (seg # segs) =
     (if target \<ge> tl_start seg \<and> (case tl_end seg of None \<Rightarrow> True | Some e \<Rightarrow> target \<le> e) then Some seg
      else owning_segment target segs)"

definition reconstruct_at :: "(bytes \<Rightarrow> u32) \<Rightarrow> (usize \<Rightarrow> bool) \<Rightarrow> 's reducer \<Rightarrow> (bytes \<Rightarrow> ('s, replay_error) result) \<Rightarrow> 's
    \<Rightarrow> branch_manifest \<Rightarrow> disk \<Rightarrow> branch_id \<Rightarrow> u64 \<Rightarrow> ('s \<times> checkpoint_header, branch_error) result option" where
  "reconstruct_at crc alloc red dec dflt m d i target =
     pbind (resolve_timeline m i) (\<lambda>timeline.
     case owning_segment target timeline of
       None \<Rightarrow> Some (Err (BrInvalidForkSequence target 0))
     | Some seg \<Rightarrow>
         pbind (Some (rng_new 0)) (\<lambda>g.
         case dk_wal d (tl_branch seg) of
           None \<Rightarrow> Some (Err (BrReplay (RpStorage (StIo ''open WAL''))))
         | Some wal \<Rightarrow>
             (case reconstruct_at_sequence crc alloc wal (dk_segments d (tl_branch seg)) (dk_names d (tl_branch seg))
                   (dk_checkpoints d (tl_branch seg)) red dec dflt target g of
                None \<Rightarrow> None
              | Some (r, _) \<Rightarrow> Some (lift_replay r))))"

end
