(* ===== verification/Branch_Timeline.thy ===== *)
theory Branch_Timeline
  imports Branch_Manager
begin

section \<open>Timelines of reachable branch manifests (\<open>temnion-branch\<close>)\<close>

text \<open>
  Forks only point to existing branches with smaller numbers, so timelines of manifests that the manager builds
  are finite. A manifest read from a file is not checked for this.
\<close>

inductive branch_reach :: "(bytes \<Rightarrow> u32) \<Rightarrow> branch_manifest \<Rightarrow> disk \<Rightarrow> bool" for crc where
  opened: "dk_manifest d = None \<Longrightarrow> branch_open crc alloc d = Ok (m, d') \<Longrightarrow> branch_reach crc m d'"
| forked: "branch_reach crc m d \<Longrightarrow> create_fork crc alloc db p name f lc m d = Ok (i, m', d') \<Longrightarrow> branch_reach crc m' d'"
| changed: "branch_reach crc m d \<Longrightarrow> set_lifecycle crc i lc m d = Ok (m', d') \<Longrightarrow> branch_reach crc m' d'"
| appended: "branch_reach crc m d \<Longrightarrow> append_to_branch crc alloc oc i events m d = (r, d') \<Longrightarrow> branch_reach crc m d'"

definition wf_branch :: "branch_manifest \<Rightarrow> branch_id \<Rightarrow> branch_metadata \<Rightarrow> bool" where
  "wf_branch m i meta \<longleftrightarrow> br_id meta = i \<and> (case br_parent meta of None \<Rightarrow> i = 0 | Some (p, f) \<Rightarrow> p < i \<and> bt_get (bf_branches m) p \<noteq> None)"

definition wf_branches :: "branch_manifest \<Rightarrow> bool" where
  "wf_branches m \<longleftrightarrow> bt_wf (bf_branches m) \<and> bt_get (bf_branches m) 0 \<noteq> None
     \<and> (\<forall>i meta. bt_get (bf_branches m) i = Some meta \<longrightarrow> wf_branch m i meta)"

lemma next_branch_id_Ok:
  assumes "next_branch_id m = Ok n" "bt_get (bf_branches m) i = Some meta"
  shows "i < n"
proof -
  let ?ks = "bt_keys (bf_branches m)"
  have i: "i \<in> set ?ks" using assms(2) bt_keys_dom [of "bf_branches m"] by auto
  then have ne: "?ks \<noteq> []" by auto
  have "checked_add (Max (set ?ks)) 1 = Some n"
    using assms(1) ne by (cases ?ks) (auto simp: next_branch_id_def add_or_panic_def split: option.splits)
  then have "unat n = unat (Max (set ?ks)) + 1" by (simp add: checked_add_Some)
  moreover have "i \<le> Max (set ?ks)" using i by simp
  ultimately show ?thesis by (simp add: word_le_nat_alt word_less_nat_alt)
qed

lemma wf_branches_insert:
  assumes wf: "wf_branches m" and new: "wf_branch m i meta" and old: "i = 0 \<longrightarrow> br_parent meta = None"
  shows "wf_branches (m\<lparr>bf_branches := bt_insert i meta (bf_branches m)\<rparr>)"
proof -
  have keep: "wf_branch m j x \<Longrightarrow> wf_branch (m\<lparr>bf_branches := bt_insert i meta (bf_branches m)\<rparr>) j x" for j x
    by (auto simp: wf_branch_def split: option.splits)
  then show ?thesis using wf keep [OF new] by (auto simp: wf_branches_def split: if_splits)
qed

lemma branch_reach_wf: "branch_reach crc m d \<Longrightarrow> wf_branches m"
proof (induction rule: branch_reach.induct)
  case (opened d alloc m d')
  then have "bf_branches m = [(0, main_branch)]" by (auto simp: branch_open_def result_ok Let_def)
  then show ?case by (auto simp: wf_branches_def wf_branch_def bt_get_def main_branch_def split: if_splits)
next
  case (forked m d alloc db p name f lc i m' d')
  from forked.hyps(2) obtain pm meta where m': "m' = m\<lparr>bf_branches := bt_insert i meta (bf_branches m)\<rparr>" and n: "next_branch_id m = Ok i"
    and p: "bt_get (bf_branches m) p = Some pm" and meta: "br_id meta = i" "br_parent meta = Some (p, f)"
    by (auto simp: create_fork_def result_ok Let_def)
  have pi: "p < i" using next_branch_id_Ok [OF n p] .
  have "wf_branch m i meta" using meta p pi by (simp add: wf_branch_def)
  moreover have "i \<noteq> 0" using pi by auto
  ultimately show ?case unfolding m' by (intro wf_branches_insert forked.IH) simp_all
next
  case (changed m d i lc m' d')
  then obtain meta where m': "m' = m\<lparr>bf_branches := bt_insert i (meta\<lparr>br_lifecycle := lc\<rparr>) (bf_branches m)\<rparr>"
    and g: "bt_get (bf_branches m) i = Some meta"
    by (auto simp: set_lifecycle_def result_ok Let_def)
  have "wf_branch m i meta" using changed.IH g by (simp add: wf_branches_def)
  then have "wf_branch m i (meta\<lparr>br_lifecycle := lc\<rparr>)" "i = 0 \<longrightarrow> br_parent (meta\<lparr>br_lifecycle := lc\<rparr>) = None"
    by (auto simp: wf_branch_def split: option.splits)
  then show ?case unfolding m' by (intro wf_branches_insert changed.IH)
next
  case appended
  then show ?case by simp
qed

subsection \<open>The specification of a timeline\<close>

text \<open>The segments of a branch: those of its parent up to the fork, then its own from the next sequence on.\<close>

inductive is_timeline :: "branch_manifest \<Rightarrow> branch_id \<Rightarrow> u64 option \<Rightarrow> timeline_segment list \<Rightarrow> bool" for m where
  root: "bt_get (bf_branches m) i = Some meta \<Longrightarrow> br_parent meta = None \<Longrightarrow>
     is_timeline m i child [\<lparr>tl_branch = i, tl_start = 0, tl_end = child\<rparr>]"
| fork: "bt_get (bf_branches m) i = Some meta \<Longrightarrow> br_parent meta = Some (p, f) \<Longrightarrow> f \<noteq> - 1 \<Longrightarrow> is_timeline m p (Some f) segs \<Longrightarrow>
     is_timeline m i child (segs @ [\<lparr>tl_branch = i, tl_start = f + 1, tl_end = child\<rparr>])"

inductive_simps is_timeline_simps: "is_timeline m i child segs"

text \<open>A fork at the last \<open>u64\<close> in the ancestry.\<close>

inductive forks_at_max :: "branch_manifest \<Rightarrow> branch_id \<Rightarrow> bool" for m where
  here: "bt_get (bf_branches m) i = Some meta \<Longrightarrow> br_parent meta = Some (p, - 1) \<Longrightarrow> forks_at_max m i"
| above: "bt_get (bf_branches m) i = Some meta \<Longrightarrow> br_parent meta = Some (p, f) \<Longrightarrow> forks_at_max m p \<Longrightarrow> forks_at_max m i"

inductive_simps forks_at_max_simps: "forks_at_max m i"

lemma add_one_cases: "add_or_panic (f :: u64) 1 = (if f = - 1 then Panic else Ok (f + 1))"
proof (cases "f = - 1")
  case True
  have "unat (- 1 :: u64) = 2 ^ 64 - 1" by (simp add: unsigned_minus_1_eq_mask mask_eq_exp_minus_1)
  then show ?thesis using True by (simp add: add_or_panic_def checked_add_def)
next
  case False
  then show ?thesis using not_max_u64 [OF False] by (simp add: add_or_panic_def checked_add_def)
qed

lemma timeline_loop_root:
  assumes "bt_get (bf_branches m) i = Some meta" "br_parent meta = None"
  shows "timeline_loop m i child acc = Some (Ok (acc @ [\<lparr>tl_branch = i, tl_start = 0, tl_end = child\<rparr>]))"
    and "is_timeline m i child segs \<longleftrightarrow> segs = [\<lparr>tl_branch = i, tl_start = 0, tl_end = child\<rparr>]"
    and "\<not> forks_at_max m i"
proof -
  show "timeline_loop m i child acc = Some (Ok (acc @ [\<lparr>tl_branch = i, tl_start = 0, tl_end = child\<rparr>]))"
    using assms by (subst timeline_loop.simps) simp
  show "is_timeline m i child segs \<longleftrightarrow> segs = [\<lparr>tl_branch = i, tl_start = 0, tl_end = child\<rparr>]"
    using assms by (subst is_timeline_simps) auto
  show "\<not> forks_at_max m i" using assms by (subst forks_at_max_simps) auto
qed

lemma timeline_loop_fork:
  assumes "bt_get (bf_branches m) i = Some meta" "br_parent meta = Some (p, f)"
  shows "timeline_loop m i child acc = (if f = - 1 then Some Panic
     else timeline_loop m p (Some f) (acc @ [\<lparr>tl_branch = i, tl_start = f + 1, tl_end = child\<rparr>]))"
    and "f \<noteq> - 1 \<Longrightarrow> is_timeline m i child segs
     \<longleftrightarrow> (\<exists>ps. is_timeline m p (Some f) ps \<and> segs = ps @ [\<lparr>tl_branch = i, tl_start = f + 1, tl_end = child\<rparr>])"
    and "forks_at_max m i \<longleftrightarrow> f = - 1 \<or> forks_at_max m p"
proof -
  show "timeline_loop m i child acc = (if f = - 1 then Some Panic
     else timeline_loop m p (Some f) (acc @ [\<lparr>tl_branch = i, tl_start = f + 1, tl_end = child\<rparr>]))"
    using assms by (subst timeline_loop.simps) (simp add: add_one_cases)
  show "is_timeline m i child segs
     \<longleftrightarrow> (\<exists>ps. is_timeline m p (Some f) ps \<and> segs = ps @ [\<lparr>tl_branch = i, tl_start = f + 1, tl_end = child\<rparr>])" if "f \<noteq> - 1"
    using assms that by (subst is_timeline_simps) auto
  show "forks_at_max m i \<longleftrightarrow> f = - 1 \<or> forks_at_max m p"
    using assms by (subst forks_at_max_simps) auto
qed

lemma timeline_loop_panics:
  assumes "forks_at_max m i"
  shows "timeline_loop m i child acc = Some Panic"
  using assms
proof (induction arbitrary: child acc rule: forks_at_max.induct)
  case (here i meta p)
  then show ?case by (simp add: timeline_loop_fork(1))
next
  case (above i meta p f)
  then show ?case by (simp add: timeline_loop_fork(1) [OF above.hyps(1,2)])
qed

lemma timeline_loop_resolves:
  assumes wf: "wf_branches m"
  shows "bt_get (bf_branches m) i \<noteq> None \<Longrightarrow> \<not> forks_at_max m i \<Longrightarrow>
    \<exists>segs. timeline_loop m i child acc = Some (Ok (acc @ rev segs)) \<and> (\<forall>ss. is_timeline m i child ss \<longleftrightarrow> ss = segs)"
proof (induction "unat i" arbitrary: i child acc rule: less_induct)
  case less
  from less.prems(1) obtain meta where g: "bt_get (bf_branches m) i = Some meta" by blast
  have w: "wf_branch m i meta" using wf g by (simp add: wf_branches_def)
  show ?case
  proof (cases "br_parent meta")
    case None
    show ?thesis
      by (rule exI [of _ "[\<lparr>tl_branch = i, tl_start = 0, tl_end = child\<rparr>]"]) (simp add: timeline_loop_root [OF g None])
  next
    case (Some pf)
    obtain p f where pf: "br_parent meta = Some (p, f)" using Some by (cases pf) simp
    note F = timeline_loop_fork [OF g pf]
    let ?seg = "\<lparr>tl_branch = i, tl_start = f + 1, tl_end = child\<rparr>"
    have p: "unat p < unat i" "bt_get (bf_branches m) p \<noteq> None" using w pf by (auto simp: wf_branch_def word_less_nat_alt)
    have nf: "f \<noteq> - 1" "\<not> forks_at_max m p" using less.prems(2) F(3) by blast+
    obtain ps where ps: "timeline_loop m p (Some f) (acc @ [?seg]) = Some (Ok ((acc @ [?seg]) @ rev ps))"
      "\<forall>ss. is_timeline m p (Some f) ss \<longleftrightarrow> ss = ps"
      using less.hyps [OF p nf(2)] by blast
    have "timeline_loop m i child acc = Some (Ok (acc @ rev (ps @ [?seg])))" using F(1) nf(1) ps(1) by simp
    moreover have "is_timeline m i child ss \<longleftrightarrow> ss = ps @ [?seg]" for ss using F(2) [OF nf(1)] ps(2) by simp
    ultimately show ?thesis by blast
  qed
qed

text \<open>C28: Timelines of branches are complete and resolving them terminates. For every manifest the manager
  builds from a new database by forks, lifecycle changes and appends, resolving an unknown branch reports it;
  resolving a known branch returns exactly its timeline (the parent's segments ending at the fork, then its own
  from the following sequence), of which there is one; the only panic is a fork at the largest sequence number
  in its ancestry.\<close>

theorem timelines_resolved:
  assumes "branch_reach crc m d"
  shows "(bt_get (bf_branches m) i = None \<longrightarrow> resolve_timeline m i = Some (Err (BrBranchNotFound i)))
    \<and> (bt_get (bf_branches m) i \<noteq> None \<longrightarrow> (if forks_at_max m i then resolve_timeline m i = Some Panic
         else \<exists>segs. resolve_timeline m i = Some (Ok segs) \<and> (\<forall>ss. is_timeline m i None ss \<longleftrightarrow> ss = segs)))"
proof (intro conjI impI)
  assume n: "bt_get (bf_branches m) i = None"
  show "resolve_timeline m i = Some (Err (BrBranchNotFound i))"
    unfolding resolve_timeline_def by (subst timeline_loop.simps) (simp add: n)
next
  assume k: "bt_get (bf_branches m) i \<noteq> None"
  show "if forks_at_max m i then resolve_timeline m i = Some Panic
         else \<exists>segs. resolve_timeline m i = Some (Ok segs) \<and> (\<forall>ss. is_timeline m i None ss \<longleftrightarrow> ss = segs)"
  proof (cases "forks_at_max m i")
    case True
    then show ?thesis by (simp add: resolve_timeline_def timeline_loop_panics)
  next
    case False
    from timeline_loop_resolves [OF branch_reach_wf [OF assms] k False, of None "[]"] obtain segs
      where segs: "timeline_loop m i None [] = Some (Ok ([] @ rev segs))" "\<forall>ss. is_timeline m i None ss \<longleftrightarrow> ss = segs" by blast
    have "resolve_timeline m i = Some (Ok segs)" unfolding resolve_timeline_def segs(1) by simp
    with segs(2) have "\<exists>segs. resolve_timeline m i = Some (Ok segs) \<and> (\<forall>ss. is_timeline m i None ss \<longleftrightarrow> ss = segs)" by blast
    then show ?thesis unfolding if_not_P [OF False] .
  qed
qed

text \<open>A manifest read from a file is not checked: a branch that is its own ancestor makes the loop run forever.\<close>

lemma timeline_loop_cyclic:
  assumes "bt_get (bf_branches m) i = Some meta" "br_parent meta = Some (i, f)" "f \<noteq> - 1"
  shows "resolve_timeline m i = None"
proof -
  have "timeline_loop n j child acc = Some r \<Longrightarrow> \<not> (n = m \<and> j = i)" for n j child acc r
  proof (erule timeline_loop.raw_induct [rotated, where P = "\<lambda>n j child acc r. \<not> (n = m \<and> j = i)"], rule notI)
    fix F n j child acc r
    assume IH: "\<And>n j child acc r. F n j child acc = Some r \<Longrightarrow> \<not> (n = m \<and> j = i)"
      and step: "(case bt_get (bf_branches n) j of None \<Rightarrow> Some (Err (BrBranchNotFound j)) | Some meta \<Rightarrow>
          (case br_parent meta of None \<Rightarrow> Some (Ok (acc @ [\<lparr>tl_branch = j, tl_start = 0, tl_end = child\<rparr>]))
           | Some (p, fork_seq) \<Rightarrow> (case add_or_panic fork_seq 1 of
                  Ok start \<Rightarrow> F n p (Some fork_seq) (acc @ [\<lparr>tl_branch = j, tl_start = start, tl_end = child\<rparr>])
                | Err e \<Rightarrow> Some (Err e) | Panic \<Rightarrow> Some Panic))) = Some r"
      and nj: "n = m \<and> j = i"
    have "F m i (Some f) (acc @ [\<lparr>tl_branch = i, tl_start = f + 1, tl_end = child\<rparr>]) = Some r"
      using step assms nj by (simp add: add_one_cases)
    then show False using IH by blast
  qed
  then have "timeline_loop m i None [] = None" by (metis not_None_eq)
  then show ?thesis unfolding resolve_timeline_def by simp
qed

subsection \<open>A concrete fork\<close>

definition sample_disk :: disk where
  "sample_disk = \<lparr>dk_manifest = None, dk_wal = [0 \<mapsto> encode_wal_header (\<lambda>_. 5) sample_header], dk_segments = \<lambda>_ _. None,
     dk_names = \<lambda>_. [], dk_checkpoints = \<lambda>_ _. None\<rparr>"

definition sample_main :: branch_manifest where
  "sample_main = \<lparr>bf_database = replicate 16 0, bf_branches = [(0, main_branch)]\<rparr>"

definition sample_child :: branch_metadata where
  "sample_child = \<lparr>br_id = 1, br_name = ascii ''what-if'', br_parent = Some (0, 7), br_lifecycle = Active, br_created_at_ms = 0\<rparr>"

definition sample_forked :: branch_manifest where
  "sample_forked = sample_main\<lparr>bf_branches := [(0, main_branch), (1, sample_child)]\<rparr>"

lemma sample_store_opens:
  "open_branch_store (\<lambda>_. 5) (\<lambda>_. True) (sample_disk\<lparr>dk_manifest := x\<rparr>) 0
     = Ok (fresh_store sample_header limits_default 0, encode_wal_header (\<lambda>_. 5) sample_header)"
proof -
  have db: "wf_database_id (replicate 16 0)" by (simp add: wf_database_id_def)
  show ?thesis
    using store_open_recovers(2) [OF store_create_inv(1) [OF sample_create db] initial_sequence_None store_create_inv(2) [OF sample_create db],
        of "\<lambda>_. True" "[]"]
    by (simp add: open_branch_store_def sample_disk_def)
qed

lemma sample_branch_reach: "\<exists>d. branch_reach (\<lambda>_. 5) sample_forked d"
proof -
  let ?d = "sample_disk\<lparr>dk_manifest := Some (branches_encode (\<lambda>_. 5) sample_main)\<rparr>"
  have "sample_disk\<lparr>dk_manifest := None\<rparr> = sample_disk" by (simp add: sample_disk_def)
  then have "branch_open (\<lambda>_. 5) (\<lambda>_. True) sample_disk = Ok (sample_main, ?d)"
    using sample_store_opens [of None] by (simp add: branch_open_def sample_main_def Let_def) (simp add: sample_disk_def sample_header_def Let_def)
  then have r: "branch_reach (\<lambda>_. 5) sample_main ?d" by (rule branch_reach.opened [rotated]) (simp add: sample_disk_def)
  have get: "bt_get (bf_branches sample_main) 0 = Some main_branch" by (simp add: sample_main_def bt_get_def)
  have nx: "next_branch_id sample_main = Ok 1" by (simp add: next_branch_id_def sample_main_def bt_keys_def add_one_cases)
  have len: "store_len (fresh_store sample_header limits_default 0) = 0" by (simp add: store_len_def)
  have lc: "br_lifecycle main_branch \<noteq> Retired" by (simp add: main_branch_def)
  obtain s' wal' where cr: "store_create (\<lambda>_. 5) False (dk_wal ?d 1 \<noteq> None) (Some (replicate 16 0)) (ucast (1 :: u64)) 1 limits_default
     = Ok (s', wal')" using sample_create by (simp add: sample_disk_def)
  have "\<exists>d'. create_fork (\<lambda>_. 5) (\<lambda>_. True) (Some (replicate 16 0)) 0 (ascii ''what-if'') 7 Active sample_main ?d = Ok (1, sample_forked, d')"
    unfolding create_fork_def get sample_store_opens
    using nx len lc cr by (simp add: Let_def sample_forked_def sample_child_def sample_main_def)
  then show ?thesis using branch_reach.forked [OF r] by blast
qed

theorem timelines_resolved_witness:
  "resolve_timeline sample_forked 1
     = Some (Ok [\<lparr>tl_branch = 0, tl_start = 0, tl_end = Some 7\<rparr>, \<lparr>tl_branch = 1, tl_start = 8, tl_end = None\<rparr>])
   \<and> resolve_timeline sample_forked 2 = Some (Err (BrBranchNotFound 2))"
proof
  have get: "bt_get (bf_branches sample_forked) 0 = Some main_branch" "bt_get (bf_branches sample_forked) 1 = Some sample_child"
    "bt_get (bf_branches sample_forked) 2 = None" by (simp_all add: sample_forked_def bt_get_def)
  have par: "br_parent main_branch = None" "br_parent sample_child = Some (0, 7)" by (simp_all add: main_branch_def sample_child_def)
  have nf: "\<not> forks_at_max sample_forked 1"
    using timeline_loop_fork(3) [OF get(2) par(2)] timeline_loop_root(3) [OF get(1) par(1)] by simp
  have "is_timeline sample_forked 1 None ([\<lparr>tl_branch = 0, tl_start = 0, tl_end = Some 7\<rparr>] @ [\<lparr>tl_branch = 1, tl_start = 7 + 1, tl_end = None\<rparr>])"
    by (rule is_timeline.fork [OF get(2) par(2) _ is_timeline.root [OF get(1) par(1)]]) simp
  then show "resolve_timeline sample_forked 1
     = Some (Ok [\<lparr>tl_branch = 0, tl_start = 0, tl_end = Some 7\<rparr>, \<lparr>tl_branch = 1, tl_start = 8, tl_end = None\<rparr>])"
    using sample_branch_reach timelines_resolved [of "\<lambda>_. 5" sample_forked _ 1] get(2) nf by fastforce
  show "resolve_timeline sample_forked 2 = Some (Err (BrBranchNotFound 2))"
    using sample_branch_reach timelines_resolved [of "\<lambda>_. 5" sample_forked _ 2] get(3) by blast
qed

end
