(* ===== verification/Rust_Float.thy ===== *)
theory Rust_Float
  imports Rust_Prelude
begin

section \<open>\<open>f64\<close> values\<close>

text \<open>
  An \<open>f64\<close> is its bit pattern. Comparison is that of IEEE 754: a pattern with all exponent bits and a fraction
  bit set is not a number and compares with nothing; the others are ordered by sign and magnitude, where the two
  zeros are equal. Arithmetic is not modelled; where the code computes, the operations are parameters.
\<close>

type_synonym f64 = u64

definition f64_is_nan :: "f64 \<Rightarrow> bool" where
  "f64_is_nan b \<longleftrightarrow> (b AND 0x7FFFFFFFFFFFFFFF) > 0x7FF0000000000000"

definition f64_key :: "f64 \<Rightarrow> int" where
  "f64_key b = (if b < 0x8000000000000000 then uint b else - uint (b AND 0x7FFFFFFFFFFFFFFF))"

definition f64_eq :: "f64 \<Rightarrow> f64 \<Rightarrow> bool" where
  "f64_eq a b \<longleftrightarrow> \<not> f64_is_nan a \<and> \<not> f64_is_nan b \<and> f64_key a = f64_key b"

definition f64_less :: "f64 \<Rightarrow> f64 \<Rightarrow> bool" where
  "f64_less a b \<longleftrightarrow> \<not> f64_is_nan a \<and> \<not> f64_is_nan b \<and> f64_key a < f64_key b"

definition f64_le :: "f64 \<Rightarrow> f64 \<Rightarrow> bool" where
  "f64_le a b \<longleftrightarrow> f64_less a b \<or> f64_eq a b"

lemma f64_nan [simp]: "f64_is_nan a \<Longrightarrow> \<not> f64_less a b" "f64_is_nan b \<Longrightarrow> \<not> f64_less a b"
  by (simp_all add: f64_less_def)

lemma f64_less_irrefl [simp]: "\<not> f64_less a a"
  by (simp add: f64_less_def)

lemma f64_less_trans: "f64_less a b \<Longrightarrow> f64_less b c \<Longrightarrow> f64_less a c"
  by (auto simp: f64_less_def)

end
