(* ===== verification/Eks_Beliefs.thy ===== *)
theory Eks_Beliefs
  imports Core_Types Btree Utf8 Rust_Float
begin

section \<open>Knowledge records and truth maintenance (\<open>temnion-eks\<close>)\<close>

text \<open>
  The truth maintenance system keeps observations, claims, beliefs, concepts, rules, models and skills under
  identifiers from one counter. Inferring a belief marks it and every active belief it contradicts; retracting a
  belief retracts the beliefs that rest on it; a \<open>WHY\<close> query unfolds the justification of a belief.

  \<open>lower\<close> is \<open>str::to_lowercase\<close>, the Unicode case mapping of the standard library,
  on code points. The two recursive functions follow premises, which are arbitrary identifiers: \<open>None\<close> is
  unbounded recursion.
\<close>

type_synonym knowledge_id = u64

datatype eks_error =
    InvalidConfidence f64
  | BeliefNotFound knowledge_id
  | PredictionNotFound u64
  | NoResolvedPredictions

text \<open>\<open>Confidence\<close>: the doubles between 0.0 and 1.0 have the bit patterns up to that of 1.0, in the same order,
  and negative zero is equal to 0.0; not-a-number and everything else is out of range.\<close>

definition CERTAIN :: f64 where "CERTAIN = 0x3FF0000000000000"
definition UNCERTAIN :: f64 where "UNCERTAIN = 0x3FE0000000000000"
definition IMPOSSIBLE :: f64 where "IMPOSSIBLE = 0"

definition confidence_new :: "f64 \<Rightarrow> (f64, eks_error) result" where
  "confidence_new v = (if v \<le> 0x3FF0000000000000 \<or> v = 0x8000000000000000 then Ok v else Err (InvalidConfidence v))"

datatype knowledge_status = KActive | KContradicted | KRetracted | KSuperseded

record observation =
  ob_id :: knowledge_id
  ob_event_ref :: event_id
  ob_valid_time :: timestamp
  ob_known_time :: timestamp
  ob_feature :: bytes
  ob_value_repr :: bytes

record claim =
  cl_id :: knowledge_id
  cl_source :: bytes
  cl_proposition :: bytes
  cl_confidence :: f64
  cl_valid_range :: "timestamp \<times> timestamp"
  cl_asserted_at :: timestamp

record justification =
  ju_evidence_events :: "event_id list"
  ju_premises :: "knowledge_id list"
  ju_applied_rules :: "knowledge_id list"
  ju_assumptions :: "bytes list"

record belief =
  bl_id :: knowledge_id
  bl_proposition :: bytes
  bl_confidence :: f64
  bl_status :: knowledge_status
  bl_valid_time :: timestamp
  bl_learned_time :: timestamp
  bl_justification :: justification

record concept =
  co_id :: knowledge_id
  co_name :: bytes
  co_definition :: bytes
  co_generalization_level :: u32
  co_exemplar_evidence :: "event_id list"
  co_created_at :: timestamp

record eks_rule =
  ru_id :: knowledge_id
  ru_name :: bytes
  ru_antecedent :: bytes
  ru_consequent :: bytes
  ru_confidence :: f64
  ru_support_count :: u64
  ru_version :: u32

record model_manifest =
  mm_id :: knowledge_id
  mm_model_name :: bytes
  mm_runtime :: bytes
  mm_version :: bytes
  mm_is_stateful :: bool
  mm_max_memory_bytes :: u64

record skill =
  sk_id :: knowledge_id
  sk_name :: bytes
  sk_intent :: bytes
  sk_steps :: "bytes list"
  sk_version :: u32

record contradiction =
  ct_item_a :: knowledge_id
  ct_item_b :: knowledge_id
  ct_detected_at :: timestamp
  ct_reason :: bytes

record tms =
  tms_next_id :: u64
  tms_observations :: "(knowledge_id, observation) btree"
  tms_claims :: "(knowledge_id, claim) btree"
  tms_beliefs :: "(knowledge_id, belief) btree"
  tms_concepts :: "(knowledge_id, concept) btree"
  tms_rules :: "(knowledge_id, eks_rule) btree"
  tms_models :: "(knowledge_id, model_manifest) btree"
  tms_skills :: "(knowledge_id, skill) btree"
  tms_contradictions :: "contradiction list"

definition tms_new :: tms where
  "tms_new = \<lparr>tms_next_id = 1, tms_observations = [], tms_claims = [], tms_beliefs = [], tms_concepts = [], tms_rules = [],
     tms_models = [], tms_skills = [], tms_contradictions = []\<rparr>"

definition alloc_id :: "tms \<Rightarrow> (knowledge_id \<times> tms, eks_error) result" where
  "alloc_id t = rbind (add_or_panic (tms_next_id t) 1) (\<lambda>n. Ok (tms_next_id t, t\<lparr>tms_next_id := n\<rparr>))"

subsection \<open>Records other than beliefs\<close>

definition record_observation :: "event_id \<Rightarrow> timestamp \<Rightarrow> timestamp \<Rightarrow> bytes \<Rightarrow> bytes \<Rightarrow> tms \<Rightarrow> (knowledge_id \<times> tms, eks_error) result" where
  "record_observation event_ref valid_time known_time feature value_repr t =
     rbind (alloc_id t) (\<lambda>(i, t).
     Ok (i, t\<lparr>tms_observations := bt_insert i
       \<lparr>ob_id = i, ob_event_ref = event_ref, ob_valid_time = valid_time, ob_known_time = known_time, ob_feature = feature,
        ob_value_repr = value_repr\<rparr> (tms_observations t)\<rparr>))"

definition assert_claim :: "bytes \<Rightarrow> bytes \<Rightarrow> f64 \<Rightarrow> timestamp \<times> timestamp \<Rightarrow> timestamp \<Rightarrow> tms \<Rightarrow> (knowledge_id \<times> tms, eks_error) result" where
  "assert_claim source proposition confidence valid_range asserted_at t =
     rbind (alloc_id t) (\<lambda>(i, t).
     Ok (i, t\<lparr>tms_claims := bt_insert i
       \<lparr>cl_id = i, cl_source = source, cl_proposition = proposition, cl_confidence = confidence, cl_valid_range = valid_range,
        cl_asserted_at = asserted_at\<rparr> (tms_claims t)\<rparr>))"

definition define_rule :: "bytes \<Rightarrow> bytes \<Rightarrow> bytes \<Rightarrow> f64 \<Rightarrow> tms \<Rightarrow> (knowledge_id \<times> tms, eks_error) result" where
  "define_rule name antecedent consequent confidence t =
     rbind (alloc_id t) (\<lambda>(i, t).
     Ok (i, t\<lparr>tms_rules := bt_insert i
       \<lparr>ru_id = i, ru_name = name, ru_antecedent = antecedent, ru_consequent = consequent, ru_confidence = confidence,
        ru_support_count = 0, ru_version = 1\<rparr> (tms_rules t)\<rparr>))"

definition register_concept :: "concept \<Rightarrow> tms \<Rightarrow> (knowledge_id \<times> tms, eks_error) result" where
  "register_concept c t = rbind (alloc_id t) (\<lambda>(i, t). Ok (i, t\<lparr>tms_concepts := bt_insert i (c\<lparr>co_id := i\<rparr>) (tms_concepts t)\<rparr>))"

definition register_model :: "model_manifest \<Rightarrow> tms \<Rightarrow> (knowledge_id \<times> tms, eks_error) result" where
  "register_model m t = rbind (alloc_id t) (\<lambda>(i, t). Ok (i, t\<lparr>tms_models := bt_insert i (m\<lparr>mm_id := i\<rparr>) (tms_models t)\<rparr>))"

definition register_skill :: "skill \<Rightarrow> tms \<Rightarrow> (knowledge_id \<times> tms, eks_error) result" where
  "register_skill s t = rbind (alloc_id t) (\<lambda>(i, t). Ok (i, t\<lparr>tms_skills := bt_insert i (s\<lparr>sk_id := i\<rparr>) (tms_skills t)\<rparr>))"

definition get_concept :: "tms \<Rightarrow> knowledge_id \<Rightarrow> concept option" where "get_concept t = bt_get (tms_concepts t)"
definition get_model :: "tms \<Rightarrow> knowledge_id \<Rightarrow> model_manifest option" where "get_model t = bt_get (tms_models t)"
definition get_skill :: "tms \<Rightarrow> knowledge_id \<Rightarrow> skill option" where "get_skill t = bt_get (tms_skills t)"
definition get_rule :: "tms \<Rightarrow> knowledge_id \<Rightarrow> eks_rule option" where "get_rule t = bt_get (tms_rules t)"

subsection \<open>Contradictions\<close>

fun str_contains :: "'a list \<Rightarrow> 'a list \<Rightarrow> bool" where
  "str_contains [] pat = (pat = [])"
| "str_contains (c # cs) pat = (take (length pat) (c # cs) = pat \<or> str_contains cs pat)"

definition antonyms :: "(nat list \<times> nat list) list" where
  "antonyms = map (\<lambda>(x, y). (points x, points y))
     [(''true'', ''false''), (''alive'', ''dead''), (''active'', ''inactive''), (''healthy'', ''critical''), (''open'', ''closed'')]"

definition is_contradictory :: "(nat list \<Rightarrow> nat list) \<Rightarrow> bytes \<Rightarrow> bytes \<Rightarrow> bool" where
  "is_contradictory lower a b =
     (let a_clean = lower (trim_chars (utf8_chars a)); b_clean = lower (trim_chars (utf8_chars b)) in
      if b_clean = points ''not '' @ a_clean \<or> a_clean = points ''not '' @ b_clean then True
      else list_ex (\<lambda>(x, y). str_contains a_clean x \<and> str_contains b_clean y \<or> str_contains a_clean y \<and> str_contains b_clean x) antonyms)"

definition conflicting :: "(nat list \<Rightarrow> nat list) \<Rightarrow> bytes \<Rightarrow> tms \<Rightarrow> knowledge_id list" where
  "conflicting lower prop t = map fst (filter (\<lambda>(_, b). bl_status b = KActive \<and> is_contradictory lower (bl_proposition b) prop) (tms_beliefs t))"

definition conflict_reason :: "bytes \<Rightarrow> bytes \<Rightarrow> bytes" where
  "conflict_reason prop other =
     ascii ''Proposition '' @ [0x27] @ prop @ [0x27] @ ascii '' contradicts '' @ [0x27] @ other @ [0x27]"

definition note_conflict :: "knowledge_id \<Rightarrow> bytes \<Rightarrow> timestamp \<Rightarrow> knowledge_id \<Rightarrow> tms \<Rightarrow> (tms, eks_error) result" where
  "note_conflict i prop learned other t = (case bt_get (tms_beliefs t) other of
       None \<Rightarrow> Panic
     | Some b \<Rightarrow> Ok (t\<lparr>
         tms_contradictions := tms_contradictions t @
           [\<lparr>ct_item_a = other, ct_item_b = i, ct_detected_at = learned, ct_reason = conflict_reason prop (bl_proposition b)\<rparr>],
         tms_beliefs := bt_insert other (b\<lparr>bl_status := KContradicted\<rparr>) (tms_beliefs t)\<rparr>))"

definition infer_belief :: "(nat list \<Rightarrow> nat list) \<Rightarrow> bytes \<Rightarrow> f64 \<Rightarrow> timestamp \<Rightarrow> timestamp \<Rightarrow> justification \<Rightarrow> tms
    \<Rightarrow> (knowledge_id \<times> tms, eks_error) result" where
  "infer_belief lower prop confidence valid_time learned_time just t =
     rbind (alloc_id t) (\<lambda>(i, t).
     let conflicts = conflicting lower prop t;
         status = (if conflicts = [] then KActive else KContradicted) in
     rbind (fold_result (note_conflict i prop learned_time) conflicts t) (\<lambda>t.
     Ok (i, t\<lparr>tms_beliefs := bt_insert i
       \<lparr>bl_id = i, bl_proposition = prop, bl_confidence = confidence, bl_status = status, bl_valid_time = valid_time,
        bl_learned_time = learned_time, bl_justification = just\<rparr> (tms_beliefs t)\<rparr>)))"

definition active_beliefs_known_as_of :: "tms \<Rightarrow> timestamp \<Rightarrow> belief list" where
  "active_beliefs_known_as_of t cutoff =
     filter (\<lambda>b. bl_status b = KActive \<and> ts_ticks (bl_learned_time b) \<le> ts_ticks cutoff) (map snd (tms_beliefs t))"

subsection \<open>Retraction and provenance\<close>

text \<open>The beliefs resting on \<open>i\<close>, and the retraction of a list of beliefs one after the other: each is retracted
  with everything that rests on it before the next. A missing belief in the list is skipped, since the caller
  ignores its error.\<close>

definition dependents :: "knowledge_id \<Rightarrow> (knowledge_id, belief) btree \<Rightarrow> knowledge_id list" where
  "dependents i bs = map fst (filter (\<lambda>(_, b). i \<in> set (ju_premises (bl_justification b))) bs)"

partial_function (option) retract_all :: "knowledge_id list \<Rightarrow> (knowledge_id, belief) btree \<Rightarrow> (knowledge_id, belief) btree option" where
  "retract_all ids bs = (case ids of
       [] \<Rightarrow> Some bs
     | i # rest \<Rightarrow> (case bt_get bs i of
         None \<Rightarrow> retract_all rest bs
       | Some b \<Rightarrow>
           (let bs' = bt_insert i (b\<lparr>bl_status := KRetracted\<rparr>) bs in
            Option.bind (retract_all (dependents i bs') bs') (retract_all rest))))"

definition retract_belief :: "knowledge_id \<Rightarrow> tms \<Rightarrow> (tms, eks_error) result option" where
  "retract_belief i t = (case bt_get (tms_beliefs t) i of
       None \<Rightarrow> Some (Err (BeliefNotFound i))
     | Some b \<Rightarrow> map_option (\<lambda>bs. Ok (t\<lparr>tms_beliefs := bs\<rparr>)) (retract_all [i] (tms_beliefs t)))"

datatype why_trace = WhyTrace
  (wt_target: knowledge_id)
  (wt_proposition: bytes)
  (wt_confidence: f64)
  (wt_status: knowledge_status)
  (wt_evidence: "event_id list")
  (wt_rules: "eks_rule list")
  (wt_assumptions: "bytes list")
  (wt_premises: "why_trace list")
  (wt_contradictions: "contradiction list")

definition why_node :: "tms \<Rightarrow> knowledge_id \<Rightarrow> belief \<Rightarrow> why_trace list \<Rightarrow> why_trace" where
  "why_node t i b premises =
     WhyTrace i (bl_proposition b) (bl_confidence b) (bl_status b) (ju_evidence_events (bl_justification b))
       (List.map_filter (bt_get (tms_rules t)) (ju_applied_rules (bl_justification b)))
       (ju_assumptions (bl_justification b)) premises
       (filter (\<lambda>c. ct_item_a c = i \<or> ct_item_b c = i) (tms_contradictions t))"

text \<open>The traces of the premises that are beliefs, in order.\<close>

partial_function (option) why_all :: "tms \<Rightarrow> knowledge_id list \<Rightarrow> why_trace list option" where
  "why_all t ids = (case ids of
       [] \<Rightarrow> Some []
     | i # rest \<Rightarrow> (case bt_get (tms_beliefs t) i of
         None \<Rightarrow> why_all t rest
       | Some b \<Rightarrow>
           Option.bind (why_all t (ju_premises (bl_justification b))) (\<lambda>premises.
           Option.bind (why_all t rest) (\<lambda>traces. Some (why_node t i b premises # traces)))))"

definition why :: "tms \<Rightarrow> knowledge_id \<Rightarrow> (why_trace, eks_error) result option" where
  "why t i = (case bt_get (tms_beliefs t) i of
       None \<Rightarrow> Some (Err (BeliefNotFound i))
     | Some b \<Rightarrow> map_option (\<lambda>premises. Ok (why_node t i b premises)) (why_all t (ju_premises (bl_justification b))))"

end
