(* ===== verification/Eks_Maintenance.thy ===== *)
theory Eks_Maintenance
  imports Eks_Beliefs
begin

section \<open>Truth maintenance is consistent, retraction and provenance are complete\<close>

subsection \<open>Inference\<close>

definition status_set :: "knowledge_status \<Rightarrow> belief \<Rightarrow> belief" where
  "status_set st b = b\<lparr>bl_status := st\<rparr>"

lemma status_set_simps [simp]:
  "bl_id (status_set st b) = bl_id b" "bl_proposition (status_set st b) = bl_proposition b" "bl_status (status_set st b) = st"
  "bl_justification (status_set st b) = bl_justification b" "status_set st (status_set st' b) = status_set st b"
  by (simp_all add: status_set_def)

text \<open>What noting the conflicts of the new belief \<open>i\<close> does.\<close>

definition pairs :: "contradiction list \<Rightarrow> (knowledge_id \<times> knowledge_id) set" where
  "pairs cs = (\<lambda>c. (ct_item_a c, ct_item_b c)) ` set cs"

definition noted :: "tms \<Rightarrow> knowledge_id \<Rightarrow> knowledge_id list \<Rightarrow> tms \<Rightarrow> bool" where
  "noted t i js t' \<longleftrightarrow> bt_wf (tms_beliefs t') \<and> tms_next_id t' = tms_next_id t
     \<and> (\<forall>k. bt_get (tms_beliefs t') k = (if k \<in> set js then map_option (status_set KContradicted) (bt_get (tms_beliefs t) k) else bt_get (tms_beliefs t) k))
     \<and> pairs (tms_contradictions t') = pairs (tms_contradictions t) \<union> (\<lambda>j. (j, i)) ` set js"

lemma note_conflicts:
  assumes "bt_wf (tms_beliefs t)" "\<forall>j \<in> set js. bt_get (tms_beliefs t) j \<noteq> None"
  shows "\<exists>t'. fold_result (note_conflict i prop learned) js t = Ok t' \<and> noted t i js t'"
  using assms
proof (induction js arbitrary: t)
  case Nil
  then show ?case by (simp add: noted_def)
next
  case (Cons j js)
  obtain b where b: "bt_get (tms_beliefs t) j = Some b" using Cons.prems(2) by auto
  let ?t = "t\<lparr>tms_contradictions := tms_contradictions t @
       [\<lparr>ct_item_a = j, ct_item_b = i, ct_detected_at = learned, ct_reason = conflict_reason prop (bl_proposition b)\<rparr>],
     tms_beliefs := bt_insert j (b\<lparr>bl_status := KContradicted\<rparr>) (tms_beliefs t)\<rparr>"
  have "bt_wf (tms_beliefs ?t)" "\<forall>k \<in> set js. bt_get (tms_beliefs ?t) k \<noteq> None" using Cons.prems by simp_all
  then obtain t' where t': "fold_result (note_conflict i prop learned) js ?t = Ok t'" "noted ?t i js t'" using Cons.IH by blast
  have "fold_result (note_conflict i prop learned) (j # js) t = Ok t'" using t'(1) b by (simp add: note_conflict_def)
  moreover have "noted t i (j # js) t'"
    using t'(2) b by (auto simp: noted_def pairs_def status_set_def)
  ultimately show ?case by blast
qed

lemma set_conflicting: "bt_wf (tms_beliefs t) \<Longrightarrow> j \<in> set (conflicting lower prop t)
    \<longleftrightarrow> (\<exists>b. bt_get (tms_beliefs t) j = Some b \<and> bl_status b = KActive \<and> is_contradictory lower (bl_proposition b) prop)"
  by (force simp: conflicting_def bt_get_iff)

lemma infer_belief_Ok:
  assumes "infer_belief lower prop conf vt learned just t = Ok (i, t')" "bt_wf (tms_beliefs t)"
  defines "js \<equiv> set (conflicting lower prop t)"
  shows "i = tms_next_id t" "unat i + 1 < 2 ^ 64" "tms_next_id t' = i + 1" "bt_wf (tms_beliefs t')"
    and "bt_get (tms_beliefs t') = (\<lambda>k. if k \<in> js then map_option (status_set KContradicted) (bt_get (tms_beliefs t) k) else bt_get (tms_beliefs t) k)
       (i \<mapsto> \<lparr>bl_id = i, bl_proposition = prop, bl_confidence = conf, bl_status = (if js = {} then KActive else KContradicted),
          bl_valid_time = vt, bl_learned_time = learned, bl_justification = just\<rparr>)"
    and "pairs (tms_contradictions t') = pairs (tms_contradictions t) \<union> (\<lambda>j. (j, i)) ` js"
proof -
  from assms(1) obtain n where n: "checked_add (tms_next_id t) 1 = Some n" and i: "i = tms_next_id t"
    by (auto simp: infer_belief_def alloc_id_def result_ok add_or_panic_def Let_def split: option.splits)
  let ?t = "t\<lparr>tms_next_id := n\<rparr>"
  have c: "conflicting lower prop ?t = conflicting lower prop t" by (simp add: conflicting_def)
  have wf: "bt_wf (tms_beliefs ?t)" "\<forall>j \<in> set (conflicting lower prop ?t). bt_get (tms_beliefs ?t) j \<noteq> None"
    using assms(2) set_conflicting [of ?t] by auto
  obtain u where u: "fold_result (note_conflict i prop learned) (conflicting lower prop ?t) ?t = Ok u" "noted ?t i (conflicting lower prop ?t) u"
    using note_conflicts [OF wf] by blast
  have t': "t' = u\<lparr>tms_beliefs := bt_insert i \<lparr>bl_id = i, bl_proposition = prop, bl_confidence = conf,
       bl_status = (if conflicting lower prop t = [] then KActive else KContradicted), bl_valid_time = vt, bl_learned_time = learned,
       bl_justification = just\<rparr> (tms_beliefs u)\<rparr>"
    using assms(1) n u(1) i c by (simp add: infer_belief_def alloc_id_def add_or_panic_def Let_def)
  have n': "unat i + 1 < 2 ^ 64" "n = i + 1" using n i by (auto simp: checked_add_def split: if_splits)
  show "i = tms_next_id t" "unat i + 1 < 2 ^ 64" using i n' by blast+
  show "tms_next_id t' = i + 1" "bt_wf (tms_beliefs t')" using t' u(2) n' by (simp_all add: noted_def)
  show "bt_get (tms_beliefs t') = (\<lambda>k. if k \<in> js then map_option (status_set KContradicted) (bt_get (tms_beliefs t) k) else bt_get (tms_beliefs t) k)
       (i \<mapsto> \<lparr>bl_id = i, bl_proposition = prop, bl_confidence = conf, bl_status = (if js = {} then KActive else KContradicted),
          bl_valid_time = vt, bl_learned_time = learned, bl_justification = just\<rparr>)"
    using t' u(2) c by (auto simp: js_def fun_eq_iff noted_def)
  show "pairs (tms_contradictions t') = pairs (tms_contradictions t) \<union> (\<lambda>j. (j, i)) ` js"
    using t' u(2) c by (simp add: js_def noted_def)
qed

subsection \<open>The invariant of the system\<close>

definition tms_inv :: "(nat list \<Rightarrow> nat list) \<Rightarrow> tms \<Rightarrow> bool" where
  "tms_inv lower t \<longleftrightarrow> bt_wf (tms_beliefs t)
     \<and> (\<forall>i b. bt_get (tms_beliefs t) i = Some b \<longrightarrow> bl_id b = i \<and> i < tms_next_id t)
     \<and> (\<forall>i j a b. i \<noteq> j \<and> bt_get (tms_beliefs t) i = Some a \<and> bt_get (tms_beliefs t) j = Some b \<and> bl_status a = KActive \<and> bl_status b = KActive
          \<longrightarrow> \<not> is_contradictory lower (bl_proposition a) (bl_proposition b))
     \<and> (\<forall>(i, j) \<in> pairs (tms_contradictions t). \<exists>a b. i < j \<and> bt_get (tms_beliefs t) i = Some a \<and> bt_get (tms_beliefs t) j = Some b
          \<and> is_contradictory lower (bl_proposition a) (bl_proposition b) \<and> bl_status a \<noteq> KActive \<and> bl_status b \<noteq> KActive)
     \<and> (\<forall>i b. bt_get (tms_beliefs t) i = Some b \<and> bl_status b = KContradicted \<longrightarrow> (\<exists>j. (i, j) \<in> pairs (tms_contradictions t) \<or> (j, i) \<in> pairs (tms_contradictions t)))"

lemma tms_invI:
  assumes "bt_wf (tms_beliefs t)"
    and "\<And>i b. bt_get (tms_beliefs t) i = Some b \<Longrightarrow> bl_id b = i \<and> i < tms_next_id t"
    and "\<And>i j a b. i \<noteq> j \<Longrightarrow> bt_get (tms_beliefs t) i = Some a \<Longrightarrow> bt_get (tms_beliefs t) j = Some b \<Longrightarrow> bl_status a = KActive \<Longrightarrow> bl_status b = KActive
          \<Longrightarrow> \<not> is_contradictory lower (bl_proposition a) (bl_proposition b)"
    and "\<And>i j. (i, j) \<in> pairs (tms_contradictions t) \<Longrightarrow> \<exists>a b. i < j \<and> bt_get (tms_beliefs t) i = Some a \<and> bt_get (tms_beliefs t) j = Some b
          \<and> is_contradictory lower (bl_proposition a) (bl_proposition b) \<and> bl_status a \<noteq> KActive \<and> bl_status b \<noteq> KActive"
    and "\<And>i b. bt_get (tms_beliefs t) i = Some b \<Longrightarrow> bl_status b = KContradicted
          \<Longrightarrow> \<exists>j. (i, j) \<in> pairs (tms_contradictions t) \<or> (j, i) \<in> pairs (tms_contradictions t)"
  shows "tms_inv lower t"
  unfolding tms_inv_def
proof (intro conjI)
  show "bt_wf (tms_beliefs t)" by (rule assms(1))
  show "\<forall>i b. bt_get (tms_beliefs t) i = Some b \<longrightarrow> bl_id b = i \<and> i < tms_next_id t" using assms(2) by blast
  show "\<forall>i j a b. i \<noteq> j \<and> bt_get (tms_beliefs t) i = Some a \<and> bt_get (tms_beliefs t) j = Some b \<and> bl_status a = KActive \<and> bl_status b = KActive
      \<longrightarrow> \<not> is_contradictory lower (bl_proposition a) (bl_proposition b)" using assms(3) by blast
  show "\<forall>(i, j) \<in> pairs (tms_contradictions t). \<exists>a b. i < j \<and> bt_get (tms_beliefs t) i = Some a \<and> bt_get (tms_beliefs t) j = Some b
      \<and> is_contradictory lower (bl_proposition a) (bl_proposition b) \<and> bl_status a \<noteq> KActive \<and> bl_status b \<noteq> KActive" using assms(4) by blast
  show "\<forall>i b. bt_get (tms_beliefs t) i = Some b \<and> bl_status b = KContradicted
      \<longrightarrow> (\<exists>j. (i, j) \<in> pairs (tms_contradictions t) \<or> (j, i) \<in> pairs (tms_contradictions t))" using assms(5) by blast
qed

lemma tms_inv_pair:
  assumes "tms_inv lower t" "(i, j) \<in> pairs (tms_contradictions t)"
  shows "\<exists>a b. i < j \<and> bt_get (tms_beliefs t) i = Some a \<and> bt_get (tms_beliefs t) j = Some b
          \<and> is_contradictory lower (bl_proposition a) (bl_proposition b) \<and> bl_status a \<noteq> KActive \<and> bl_status b \<noteq> KActive"
  using assms unfolding tms_inv_def by blast

lemma is_contradictory_sym: "is_contradictory lower a b = is_contradictory lower b a"
  by (auto simp: is_contradictory_def Let_def list_ex_iff)

text \<open>Changes of status towards \<open>KRetracted\<close> keep the invariant.\<close>

definition retracted_to :: "(knowledge_id, belief) btree \<Rightarrow> (knowledge_id, belief) btree \<Rightarrow> bool" where
  "retracted_to bs bs' \<longleftrightarrow> bt_wf bs' \<and> (\<forall>k. bt_get bs' k = bt_get bs k \<or> bt_get bs' k = map_option (status_set KRetracted) (bt_get bs k))"

lemma retracted_to_trans: "retracted_to a b \<Longrightarrow> retracted_to b c \<Longrightarrow> retracted_to a c"
  unfolding retracted_to_def by (auto simp: option.map_comp comp_def) (metis (no_types, lifting) option.map_comp comp_apply status_set_simps(5) option.map_cong)

lemma retracted_to_insert: "bt_wf bs \<Longrightarrow> bt_get bs i = Some b \<Longrightarrow> retracted_to bs (bt_insert i (b\<lparr>bl_status := KRetracted\<rparr>) bs)"
  by (auto simp: retracted_to_def status_set_def)

lemma retract_all_to: "retract_all ids bs = Some bs' \<Longrightarrow> bt_wf bs \<longrightarrow> retracted_to bs bs'"
proof (induction ids bs bs' rule: retract_all.raw_induct [rotated, consumes 1, case_names step])
  case (step F ids bs bs')
  show ?case
  proof (cases ids)
    case Nil
    then show ?thesis using step(2) by (auto simp: retracted_to_def)
  next
    case (Cons i rest)
    show ?thesis
    proof (cases "bt_get bs i")
      case None
      then show ?thesis using step(1) [of rest bs bs'] step(2) Cons by simp
    next
      case (Some b)
      let ?bs = "bt_insert i (b\<lparr>bl_status := KRetracted\<rparr>) bs"
      obtain cs where cs: "F (dependents i ?bs) ?bs = Some cs" "F rest cs = Some bs'"
        using step(2) Cons Some by (auto simp: Let_def bind_eq_Some_conv)
      show ?thesis
      proof
        assume wf: "bt_wf bs"
        then have "retracted_to ?bs cs" using step(1) [OF cs(1)] by simp
        then have "retracted_to bs cs" using retracted_to_insert [OF wf Some] retracted_to_trans by blast
        moreover have "bt_wf cs" using calculation by (simp add: retracted_to_def)
        ultimately show "retracted_to bs bs'" using step(1) [OF cs(2)] retracted_to_trans by blast
      qed
    qed
  qed
qed

lemma tms_inv_retracted:
  assumes inv: "tms_inv lower t" and r: "retracted_to (tms_beliefs t) bs" and t': "t' = t\<lparr>tms_beliefs := bs\<rparr>"
  shows "tms_inv lower t'"
proof -
  have e: "tms_beliefs t' = bs" "tms_contradictions t' = tms_contradictions t" "tms_next_id t' = tms_next_id t" using t' by simp_all
  have g: "bt_get bs k = bt_get (tms_beliefs t) k \<or> bt_get bs k = map_option (status_set KRetracted) (bt_get (tms_beliefs t) k)" for k
    using r by (simp add: retracted_to_def)
  have old: "\<exists>b0. bt_get (tms_beliefs t) k = Some b0 \<and> bl_id b = bl_id b0 \<and> bl_proposition b = bl_proposition b0
      \<and> (bl_status b = bl_status b0 \<or> bl_status b = KRetracted)" if "bt_get bs k = Some b" for k b
    using g [of k] that by (cases "bt_get (tms_beliefs t) k") auto
  have new: "\<exists>b. bt_get bs k = Some b \<and> bl_proposition b = bl_proposition b0 \<and> (bl_status b0 \<noteq> KActive \<longrightarrow> bl_status b \<noteq> KActive)"
    if "bt_get (tms_beliefs t) k = Some b0" for k b0
    using g [of k] that by auto
  show ?thesis
  proof (rule tms_invI, unfold e)
    show "bt_wf bs" using r by (simp add: retracted_to_def)
    show "bl_id b = i \<and> i < tms_next_id t" if "bt_get bs i = Some b" for i b
      using old [OF that] inv by (auto simp: tms_inv_def)
    show "\<not> is_contradictory lower (bl_proposition a) (bl_proposition b)"
      if ps: "i \<noteq> j" "bt_get bs i = Some a" "bt_get bs j = Some b" "bl_status a = KActive" "bl_status b = KActive" for i j a b
    proof -
      obtain a0 where a0: "bt_get (tms_beliefs t) i = Some a0" "bl_proposition a = bl_proposition a0" "bl_status a0 = KActive"
        using old [OF ps(2)] ps(4) by auto
      obtain b0 where b0: "bt_get (tms_beliefs t) j = Some b0" "bl_proposition b = bl_proposition b0" "bl_status b0 = KActive"
        using old [OF ps(3)] ps(5) by auto
      have "\<not> is_contradictory lower (bl_proposition a0) (bl_proposition b0)" using inv ps(1) a0(1,3) b0(1,3) unfolding tms_inv_def by blast
      then show ?thesis using a0(2) b0(2) by simp
    qed
    show "\<exists>a b. i < j \<and> bt_get bs i = Some a \<and> bt_get bs j = Some b \<and> is_contradictory lower (bl_proposition a) (bl_proposition b)
        \<and> bl_status a \<noteq> KActive \<and> bl_status b \<noteq> KActive" if pij: "(i, j) \<in> pairs (tms_contradictions t)" for i j
    proof -
      obtain a b where ab: "i < j" "bt_get (tms_beliefs t) i = Some a" "bt_get (tms_beliefs t) j = Some b"
        "is_contradictory lower (bl_proposition a) (bl_proposition b)" "bl_status a \<noteq> KActive" "bl_status b \<noteq> KActive"
        using tms_inv_pair [OF inv pij] by blast
      show ?thesis using new [OF ab(2)] new [OF ab(3)] ab by auto
    qed
    show "\<exists>j. (i, j) \<in> pairs (tms_contradictions t) \<or> (j, i) \<in> pairs (tms_contradictions t)"
      if "bt_get bs i = Some b" "bl_status b = KContradicted" for i b
      using old [OF that(1)] that(2) inv by (auto simp: tms_inv_def)
  qed
qed

lemma tms_inv_same_beliefs:
  assumes "tms_inv lower t" "tms_beliefs t' = tms_beliefs t" "tms_contradictions t' = tms_contradictions t" "tms_next_id t \<le> tms_next_id t'"
  shows "tms_inv lower t'"
proof -
  have "\<forall>i b. bt_get (tms_beliefs t) i = Some b \<longrightarrow> bl_id b = i \<and> i < tms_next_id t'"
    using assms(1,4) by (auto simp: tms_inv_def intro: order_less_le_trans)
  then show ?thesis using assms(1) unfolding tms_inv_def assms(2,3) by (elim conjE) (intro conjI)
qed

lemma alloc_id_Ok: "alloc_id t = Ok (i, t') \<longleftrightarrow> unat (tms_next_id t) + 1 < 2 ^ 64 \<and> i = tms_next_id t \<and> t' = t\<lparr>tms_next_id := tms_next_id t + 1\<rparr>"
  by (auto simp: alloc_id_def result_ok add_or_panic_def checked_add_def split: option.splits if_splits)

lemma next_id_grows: "unat (n :: u64) + 1 < 2 ^ 64 \<Longrightarrow> n < n + 1"
  by (simp add: word_less_nat_alt unat_plus_simple [THEN iffD1] no_olen_add_nat unat_word_ariths)

lemma tms_inv_infer:
  assumes inv: "tms_inv lower t" and r: "infer_belief lower prop conf vt learned just t = Ok (i, t')"
  shows "tms_inv lower t'"
proof -
  have wf: "bt_wf (tms_beliefs t)" using inv by (simp add: tms_inv_def)
  note I = infer_belief_Ok [OF r wf]
  let ?js = "set (conflicting lower prop t)"
  let ?new = "\<lparr>bl_id = i, bl_proposition = prop, bl_confidence = conf, bl_status = (if ?js = {} then KActive else KContradicted),
          bl_valid_time = vt, bl_learned_time = learned, bl_justification = just\<rparr>"
  have js: "j \<in> ?js \<longleftrightarrow> (\<exists>b. bt_get (tms_beliefs t) j = Some b \<and> bl_status b = KActive \<and> is_contradictory lower (bl_proposition b) prop)" for j
    by (rule set_conflicting [OF wf])
  have grow: "i < tms_next_id t'" using next_id_grows [OF I(2)] I(3) by simp
  have lt: "k < i" if "bt_get (tms_beliefs t) k = Some b" for k b using inv that I(1) by (auto simp: tms_inv_def)
  have g: "bt_get (tms_beliefs t') k = (if k = i then Some ?new else if k \<in> ?js then map_option (status_set KContradicted) (bt_get (tms_beliefs t) k)
      else bt_get (tms_beliefs t) k)" for k using I(5) by auto
  have old: "\<exists>b0. bt_get (tms_beliefs t) k = Some b0 \<and> b = (if k \<in> ?js then status_set KContradicted b0 else b0)"
    if "bt_get (tms_beliefs t') k = Some b" "k \<noteq> i" for k b using that g [of k] by (cases "bt_get (tms_beliefs t) k") (auto split: if_splits)
  have new: "\<exists>b. bt_get (tms_beliefs t') k = Some b \<and> bl_proposition b = bl_proposition b0 \<and> bl_status b = (if k \<in> ?js then KContradicted else bl_status b0)"
    if "bt_get (tms_beliefs t) k = Some b0" for k b0 using that g [of k] lt [OF that] by auto
  have gi: "bt_get (tms_beliefs t') i = Some ?new" using g by simp
  have clear: "\<not> is_contradictory lower (bl_proposition b) prop" if "bt_get (tms_beliefs t') k = Some b" "k \<noteq> i" "bl_status b = KActive" for k b
  proof -
    note ps = that
    obtain b0 where b0: "bt_get (tms_beliefs t) k = Some b0" "b = (if k \<in> ?js then status_set KContradicted b0 else b0)" using old [OF ps(1,2)] by blast
    then have "k \<notin> ?js" using ps(3) by (metis knowledge_status.distinct(1) status_set_simps(3))
    then show ?thesis using js [of k] b0 ps(3) by auto
  qed
  show ?thesis
  proof (rule tms_invI)
    show "bt_wf (tms_beliefs t')" by (rule I(4))
    show "bl_id b = k \<and> k < tms_next_id t'" if "bt_get (tms_beliefs t') k = Some b" for k b
    proof (cases "k = i")
      case True
      then show ?thesis using that gi grow by auto
    next
      case False
      note ps = that
      obtain b0 where b0: "bt_get (tms_beliefs t) k = Some b0" "bl_id b = bl_id b0" using old [OF ps False] by auto
      moreover have "bl_id b0 = k" using inv b0(1) by (auto simp: tms_inv_def)
      ultimately show ?thesis using lt [OF b0(1)] grow by auto
    qed
    show "\<not> is_contradictory lower (bl_proposition a) (bl_proposition b)" if "k \<noteq> j" "bt_get (tms_beliefs t') k = Some a" "bt_get (tms_beliefs t') j = Some b" "bl_status a = KActive" "bl_status b = KActive" for k j a b
    proof -
      consider "k = i" | "j = i" | "k \<noteq> i" "j \<noteq> i" by blast
      then show ?thesis
      proof cases
        case 1
        then have "a = ?new" "j \<noteq> i" using that(1,2) gi by simp_all
        then show ?thesis using clear [OF that(3)] that(5) is_contradictory_sym by auto
      next
        case 2
        then have "b = ?new" "k \<noteq> i" using that(1,3) gi by simp_all
        then show ?thesis using clear [OF that(2)] that(4) by auto
      next
        case 3
        note ps = that
        obtain a0 where "bt_get (tms_beliefs t) k = Some a0" "a = a0" using old [OF ps(2) 3(1)] ps(4) by (auto split: if_splits)
        moreover obtain b0 where "bt_get (tms_beliefs t) j = Some b0" "b = b0" using old [OF ps(3) 3(2)] ps(5) by (auto split: if_splits)
        ultimately show ?thesis using ps inv unfolding tms_inv_def by blast
      qed
    qed
    show "\<exists>a b. k < j \<and> bt_get (tms_beliefs t') k = Some a \<and> bt_get (tms_beliefs t') j = Some b \<and> is_contradictory lower (bl_proposition a) (bl_proposition b)
        \<and> bl_status a \<noteq> KActive \<and> bl_status b \<noteq> KActive" if "(k, j) \<in> pairs (tms_contradictions t')" for k j
    proof (cases "(k, j) \<in> pairs (tms_contradictions t)")
      case True
      then obtain a b where ab: "k < j" "bt_get (tms_beliefs t) k = Some a" "bt_get (tms_beliefs t) j = Some b"
        "is_contradictory lower (bl_proposition a) (bl_proposition b)" "bl_status a \<noteq> KActive" "bl_status b \<noteq> KActive"
        using tms_inv_pair [OF inv] by blast
      then show ?thesis using new [OF ab(2)] new [OF ab(3)] by auto
    next
      case False
      then have kj: "k \<in> ?js" "j = i" using that I(6) by auto
      then obtain b where b: "bt_get (tms_beliefs t) k = Some b" "is_contradictory lower (bl_proposition b) prop" using js by blast
      then show ?thesis using kj new [OF b(1)] lt [OF b(1)] gi by auto
    qed
    show "\<exists>j. (k, j) \<in> pairs (tms_contradictions t') \<or> (j, k) \<in> pairs (tms_contradictions t')"
      if "bt_get (tms_beliefs t') k = Some b" "bl_status b = KContradicted" for k b
    proof (cases "k = i")
      case True
      then have b: "b = ?new" using that(1) gi by simp
      have "?js \<noteq> {}"
      proof
        assume "?js = {}"
        then show False using that(2) unfolding b by simp
      qed
      then obtain j where "j \<in> ?js" by (meson ex_in_conv)
      then have "(j, k) \<in> pairs (tms_contradictions t')" unfolding I(6) True by (intro UnI2 imageI)
      then show ?thesis by (intro exI disjI2)
    next
      case False
      note ps = that
      from False obtain b0 where b0: "bt_get (tms_beliefs t) k = Some b0" "b = (if k \<in> ?js then status_set KContradicted b0 else b0)" using old [OF ps(1)] by blast
      show ?thesis
      proof (cases "k \<in> ?js")
        case True
        then have "(k, i) \<in> pairs (tms_contradictions t')" unfolding I(6) by (intro UnI2 imageI)
        then show ?thesis by (intro exI disjI1)
      next
        case False
        then have "\<exists>j. (k, j) \<in> pairs (tms_contradictions t) \<or> (j, k) \<in> pairs (tms_contradictions t)"
          using b0 that(2) inv unfolding tms_inv_def by auto
        then show ?thesis unfolding I(6) by (elim exE disjE) (intro exI disjI1 UnI1, assumption, intro exI disjI2 UnI1, assumption)
      qed
    qed
  qed
qed

text \<open>The other operations only touch parts that the invariant does not read.\<close>

lemma tms_inv_other [simp]:
  "tms_inv lower (t\<lparr>tms_observations := a\<rparr>) = tms_inv lower t" "tms_inv lower (t\<lparr>tms_claims := b\<rparr>) = tms_inv lower t"
  "tms_inv lower (t\<lparr>tms_concepts := c\<rparr>) = tms_inv lower t" "tms_inv lower (t\<lparr>tms_rules := d\<rparr>) = tms_inv lower t"
  "tms_inv lower (t\<lparr>tms_models := e\<rparr>) = tms_inv lower t" "tms_inv lower (t\<lparr>tms_skills := f\<rparr>) = tms_inv lower t"
  by (simp_all add: tms_inv_def)

lemma tms_inv_alloc: "tms_inv lower t \<Longrightarrow> alloc_id t = Ok (i, t') \<Longrightarrow> tms_inv lower t'"
  unfolding alloc_id_Ok by (elim conjE) (erule tms_inv_same_beliefs; simp add: order_less_imp_le [OF next_id_grows])

subsection \<open>Reachable systems\<close>

inductive tms_reach :: "(nat list \<Rightarrow> nat list) \<Rightarrow> tms \<Rightarrow> bool" for lower where
  start: "tms_reach lower tms_new"
| observed: "tms_reach lower t \<Longrightarrow> record_observation e vt kt f v t = Ok (i, t') \<Longrightarrow> tms_reach lower t'"
| claimed: "tms_reach lower t \<Longrightarrow> assert_claim src p c r at t = Ok (i, t') \<Longrightarrow> tms_reach lower t'"
| inferred: "tms_reach lower t \<Longrightarrow> infer_belief lower p c vt lt ju t = Ok (i, t') \<Longrightarrow> tms_reach lower t'"
| ruled: "tms_reach lower t \<Longrightarrow> define_rule n a q c t = Ok (i, t') \<Longrightarrow> tms_reach lower t'"
| conceived: "tms_reach lower t \<Longrightarrow> register_concept co t = Ok (i, t') \<Longrightarrow> tms_reach lower t'"
| modelled: "tms_reach lower t \<Longrightarrow> register_model m t = Ok (i, t') \<Longrightarrow> tms_reach lower t'"
| skilled: "tms_reach lower t \<Longrightarrow> register_skill sk t = Ok (i, t') \<Longrightarrow> tms_reach lower t'"
| retracted: "tms_reach lower t \<Longrightarrow> retract_belief i t = Some (Ok t') \<Longrightarrow> tms_reach lower t'"

lemmas tms_record_defs = record_observation_def assert_claim_def define_rule_def register_concept_def register_model_def register_skill_def

lemma tms_reach_inv: "tms_reach lower t \<Longrightarrow> tms_inv lower t"
proof (induction rule: tms_reach.induct)
  case start
  then show ?case by (simp add: tms_inv_def tms_new_def pairs_def)
next
  case (inferred t p c vt lt ju i t')
  show ?case by (rule tms_inv_infer [OF inferred.IH inferred.hyps(2)])
next
  case (retracted t i t')
  obtain bs where bs: "retract_all [i] (tms_beliefs t) = Some bs" "t' = t\<lparr>tms_beliefs := bs\<rparr>"
    using retracted.hyps(2) by (auto simp: retract_belief_def split: option.splits)
  have "bt_wf (tms_beliefs t)" using retracted.IH by (simp add: tms_inv_def)
  then show ?case using tms_inv_retracted [OF retracted.IH _ bs(2)] retract_all_to [OF bs(1)] by blast
qed (auto simp: tms_record_defs result_ok dest: tms_inv_alloc)

text \<open>C29: Active beliefs are consistent, and every contradiction is accounted for. In every reachable system no
  two active beliefs contradict each other; every recorded contradiction is between two different beliefs of the
  system with contradictory propositions, neither of them active; and every belief with the status
  \<open>Contradicted\<close> has such a record. Identifiers of beliefs are below the counter, so none is ever reused.\<close>

theorem active_beliefs_consistent:
  assumes "tms_reach lower t"
  shows "(\<forall>i j a b. i \<noteq> j \<and> bt_get (tms_beliefs t) i = Some a \<and> bt_get (tms_beliefs t) j = Some b \<and> bl_status a = KActive \<and> bl_status b = KActive
        \<longrightarrow> \<not> is_contradictory lower (bl_proposition a) (bl_proposition b))
    \<and> (\<forall>c \<in> set (tms_contradictions t). \<exists>a b. ct_item_a c \<noteq> ct_item_b c \<and> bt_get (tms_beliefs t) (ct_item_a c) = Some a
        \<and> bt_get (tms_beliefs t) (ct_item_b c) = Some b \<and> is_contradictory lower (bl_proposition a) (bl_proposition b)
        \<and> bl_status a \<noteq> KActive \<and> bl_status b \<noteq> KActive)
    \<and> (\<forall>i b. bt_get (tms_beliefs t) i = Some b \<and> bl_status b = KContradicted
        \<longrightarrow> (\<exists>c \<in> set (tms_contradictions t). ct_item_a c = i \<or> ct_item_b c = i))
    \<and> (\<forall>i. bt_get (tms_beliefs t) i \<noteq> None \<longrightarrow> i < tms_next_id t)"
proof (intro conjI)
  note I = tms_reach_inv [OF assms, unfolded tms_inv_def pairs_def]
  show "\<forall>i j a b. i \<noteq> j \<and> bt_get (tms_beliefs t) i = Some a \<and> bt_get (tms_beliefs t) j = Some b \<and> bl_status a = KActive \<and> bl_status b = KActive
        \<longrightarrow> \<not> is_contradictory lower (bl_proposition a) (bl_proposition b)" using I by blast
  show "\<forall>c \<in> set (tms_contradictions t). \<exists>a b. ct_item_a c \<noteq> ct_item_b c \<and> bt_get (tms_beliefs t) (ct_item_a c) = Some a
        \<and> bt_get (tms_beliefs t) (ct_item_b c) = Some b \<and> is_contradictory lower (bl_proposition a) (bl_proposition b)
        \<and> bl_status a \<noteq> KActive \<and> bl_status b \<noteq> KActive" using I by (auto 0 3)
  show "\<forall>i b. bt_get (tms_beliefs t) i = Some b \<and> bl_status b = KContradicted
        \<longrightarrow> (\<exists>c \<in> set (tms_contradictions t). ct_item_a c = i \<or> ct_item_b c = i)" using I by (auto 0 4)
  show "\<forall>i. bt_get (tms_beliefs t) i \<noteq> None \<longrightarrow> i < tms_next_id t" using I by auto
qed

end
