(* ===== verification/Eks_Provenance.thy ===== *)
theory Eks_Provenance
  imports Eks_Maintenance
begin

section \<open>Retraction and \<open>WHY\<close> queries follow justifications exactly\<close>

subsection \<open>Justification structure\<close>

text \<open>The premises of every belief, and the beliefs that rest on a belief, directly or not.\<close>

definition premise_map :: "(knowledge_id, belief) btree \<Rightarrow> knowledge_id \<rightharpoonup> knowledge_id list" where
  "premise_map bs k = map_option (\<lambda>b. ju_premises (bl_justification b)) (bt_get bs k)"

inductive rests_on :: "(knowledge_id \<rightharpoonup> knowledge_id list) \<Rightarrow> knowledge_id \<Rightarrow> knowledge_id \<Rightarrow> bool" for P where
  self: "P i \<noteq> None \<Longrightarrow> rests_on P i i"
| step: "rests_on P i j \<Longrightarrow> P k = Some ps \<Longrightarrow> j \<in> set ps \<Longrightarrow> rests_on P i k"

definition earlier_premises :: "(knowledge_id \<rightharpoonup> knowledge_id list) \<Rightarrow> bool" where
  "earlier_premises P \<longleftrightarrow> (\<forall>k ps p. P k = Some ps \<and> p \<in> set ps \<and> P p \<noteq> None \<longrightarrow> p < k)"

lemma rests_on_dom: "rests_on P i k \<Longrightarrow> P i \<noteq> None \<and> P k \<noteq> None"
  by (induction rule: rests_on.induct) auto

lemma rests_on_back: "rests_on P i k \<longleftrightarrow> P k \<noteq> None \<and> (k = i \<or> (\<exists>p \<in> set (the (P k)). rests_on P i p))"
  by (subst rests_on.simps) auto

lemma rests_on_front_step: "rests_on P d k \<Longrightarrow> P i \<noteq> None \<Longrightarrow> P d = Some ps \<Longrightarrow> i \<in> set ps \<Longrightarrow> rests_on P i k"
  by (induction rule: rests_on.induct) (auto intro: rests_on.intros)

lemma rests_on_front: "rests_on P i k \<longleftrightarrow> P i \<noteq> None \<and> (k = i \<or> (\<exists>d ps. P d = Some ps \<and> i \<in> set ps \<and> rests_on P d k))"
proof
  assume "rests_on P i k"
  then show "P i \<noteq> None \<and> (k = i \<or> (\<exists>d ps. P d = Some ps \<and> i \<in> set ps \<and> rests_on P d k))"
  proof (induction rule: rests_on.induct)
    case (step i j k ps)
    then show ?case by (metis option.distinct(1) rests_on.intros)
  qed simp
qed (auto intro: rests_on.self rests_on_front_step)

lemma premise_map_status: "bt_get bs i = Some b \<Longrightarrow> premise_map (bt_insert i (b\<lparr>bl_status := st\<rparr>) bs) = premise_map bs"
  by (auto simp: premise_map_def fun_eq_iff)

lemma set_dependents: "bt_wf bs \<Longrightarrow> set (dependents i bs) = {d. \<exists>ps. premise_map bs d = Some ps \<and> i \<in> set ps}"
  by (force simp: dependents_def premise_map_def bt_get_iff)

subsection \<open>Retraction\<close>

definition retracts :: "knowledge_id set \<Rightarrow> (knowledge_id, belief) btree \<Rightarrow> (knowledge_id, belief) btree \<Rightarrow> bool" where
  "retracts I bs bs' \<longleftrightarrow> bt_wf bs'
     \<and> (\<forall>k. bt_get bs' k = (if \<exists>i \<in> I. rests_on (premise_map bs) i k then map_option (status_set KRetracted) (bt_get bs k) else bt_get bs k))"

lemma retracts_premises: "retracts I bs bs' \<Longrightarrow> premise_map bs' = premise_map bs"
  by (auto simp: retracts_def premise_map_def fun_eq_iff option.map_comp comp_def)

lemma retracts_trans:
  assumes "retracts I a b" "retracts J b c"
  shows "retracts (I \<union> J) a c"
  using assms retracts_premises [OF assms(1)] by (auto simp: retracts_def option.map_comp comp_def)

lemma retracts_cong: "retracts I bs bs' \<Longrightarrow> (\<And>k. (\<exists>i \<in> I. rests_on (premise_map bs) i k) \<longleftrightarrow> (\<exists>i \<in> J. rests_on (premise_map bs) i k)) \<Longrightarrow> retracts J bs bs'"
  by (simp add: retracts_def)

text \<open>Marking one belief and then everything that rests on its dependents.\<close>

lemma retracts_dependents:
  assumes wf: "bt_wf bs" and b: "bt_get bs i = Some b"
  defines "bs1 \<equiv> bt_insert i (b\<lparr>bl_status := KRetracted\<rparr>) bs"
  assumes r: "retracts (set (dependents i bs1)) bs1 bs2"
  shows "retracts {i} bs bs2"
proof -
  have pm: "premise_map bs1 = premise_map bs" using b by (simp add: bs1_def premise_map_status)
  have wf1: "bt_wf bs1" using wf by (simp add: bs1_def)
  have i: "premise_map bs i \<noteq> None" using b by (simp add: premise_map_def)
  have front: "rests_on (premise_map bs) i k \<longleftrightarrow> k = i \<or> (\<exists>d \<in> set (dependents i bs1). rests_on (premise_map bs) d k)" for k
    using i rests_on_front [of "premise_map bs" i k] by (auto simp: set_dependents [OF wf1] pm)
  have get1: "bt_get bs1 k = (if k = i then map_option (status_set KRetracted) (bt_get bs k) else bt_get bs k)" for k
    using b by (simp add: bs1_def status_set_def)
  have "bt_get bs2 k = (if rests_on (premise_map bs) i k then map_option (status_set KRetracted) (bt_get bs k) else bt_get bs k)" for k
    using r front [of k] get1 [of k] by (auto simp: retracts_def pm option.map_comp comp_def)
  then show ?thesis using r by (simp add: retracts_def)
qed

lemma retract_all_exact:
  assumes "bt_wf bs" "earlier_premises (premise_map bs)" "\<forall>i \<in> set ids. 2 ^ 64 \<le> unat i + n"
  shows "\<exists>bs'. retract_all ids bs = Some bs' \<and> retracts (set ids) bs bs'"
  using assms
proof (induction n arbitrary: ids bs)
  case 0
  have "ids = []"
  proof (rule ccontr)
    assume "ids \<noteq> []"
    then obtain i where "2 ^ 64 \<le> unat (i :: u64)" using 0(3) by (cases ids) auto
    moreover have "unat i < 18446744073709551616" by (rule unat_bounds)
    moreover have "(2 :: nat) ^ 64 = 18446744073709551616" by simp
    ultimately show False by linarith
  qed
  then show ?case using 0(1) by (simp add: retract_all.simps retracts_def)
next
  case (Suc n)
  note outer = Suc.IH
  show ?case using Suc.prems
  proof (induction ids arbitrary: bs)
    case Nil
    then show ?case by (simp add: retract_all.simps retracts_def)
  next
    case (Cons i rest)
    show ?case
    proof (cases "bt_get bs i")
      case None
      have "\<not> rests_on (premise_map bs) i k" for k using rests_on_dom [of "premise_map bs" i k] None by (auto simp: premise_map_def)
      then have e: "(\<exists>j \<in> set rest. rests_on (premise_map bs) j k) = (\<exists>j \<in> set (i # rest). rests_on (premise_map bs) j k)" for k by auto
      obtain bs' where bs': "retract_all rest bs = Some bs'" "retracts (set rest) bs bs'" using Cons by auto
      have "retracts (set (i # rest)) bs bs'" by (rule retracts_cong [OF bs'(2) e])
      then show ?thesis using None bs'(1) by (subst retract_all.simps) simp
    next
      case (Some b)
      let ?bs = "bt_insert i (b\<lparr>bl_status := KRetracted\<rparr>) bs"
      have pm: "premise_map ?bs = premise_map bs" by (rule premise_map_status [OF Some])
      have wf1: "bt_wf ?bs" using Cons.prems(1) by simp
      have "\<forall>d \<in> set (dependents i ?bs). 2 ^ 64 \<le> unat d + n"
      proof
        fix d
        assume "d \<in> set (dependents i ?bs)"
        then obtain ps where "premise_map bs d = Some ps" "i \<in> set ps" by (auto simp: set_dependents [OF wf1] pm)
        then have "i < d" using Cons.prems(2) Some by (auto simp: earlier_premises_def premise_map_def)
        then show "2 ^ 64 \<le> unat d + n" using Cons.prems(3) by (auto simp: word_less_nat_alt)
      qed
      then obtain bs2 where bs2: "retract_all (dependents i ?bs) ?bs = Some bs2" "retracts (set (dependents i ?bs)) ?bs bs2"
        using outer [OF wf1] Cons.prems(2) pm by auto
      have r2: "retracts {i} bs bs2" by (rule retracts_dependents [OF Cons.prems(1) Some bs2(2)])
      obtain bs3 where bs3: "retract_all rest bs2 = Some bs3" "retracts (set rest) bs2 bs3"
        using Cons.IH [of bs2] r2 retracts_premises [OF r2] Cons.prems(2,3) by (auto simp: retracts_def)
      have "retract_all (i # rest) bs = Some bs3" using Some bs2(1) bs3(1) by (subst retract_all.simps) (simp add: Let_def)
      then show ?thesis using retracts_trans [OF r2 bs3(2)] by auto
    qed
  qed
qed

text \<open>C30: Retraction is exact. In a reachable system where premises are earlier beliefs, retracting a belief
  terminates; afterwards exactly this belief and the beliefs that rest on it, directly or through other beliefs,
  have the status \<open>Retracted\<close> newly set, every other belief is as before, and nothing else of the system or of
  the retracted beliefs changes. Retracting an unknown belief is an error.\<close>

theorem retraction_exact:
  assumes "tms_reach lower t" "earlier_premises (premise_map (tms_beliefs t))"
  shows "case retract_belief i t of
      None \<Rightarrow> False
    | Some r \<Rightarrow> if bt_get (tms_beliefs t) i = None then r = Err (BeliefNotFound i)
        else (\<exists>bs. r = Ok (t\<lparr>tms_beliefs := bs\<rparr>) \<and> (\<forall>k. bt_get bs k =
          (if rests_on (premise_map (tms_beliefs t)) i k then map_option (status_set KRetracted) (bt_get (tms_beliefs t) k) else bt_get (tms_beliefs t) k)))"
proof (cases "bt_get (tms_beliefs t) i")
  case None
  then show ?thesis by (simp add: retract_belief_def)
next
  case (Some b)
  have "bt_wf (tms_beliefs t)" using tms_reach_inv [OF assms(1)] by (simp add: tms_inv_def)
  then obtain bs where "retract_all [i] (tms_beliefs t) = Some bs" "retracts {i} (tms_beliefs t) bs"
    using retract_all_exact [of "tms_beliefs t" "[i]" "2 ^ 64"] assms(2) by auto
  then have "retract_belief i t = Some (Ok (t\<lparr>tms_beliefs := bs\<rparr>))"
    "\<forall>k. bt_get bs k = (if rests_on (premise_map (tms_beliefs t)) i k then map_option (status_set KRetracted) (bt_get (tms_beliefs t) k) else bt_get (tms_beliefs t) k)"
    using Some by (simp_all add: retract_belief_def retracts_def)
  then show ?thesis using Some by (simp only: option.case option.distinct if_False) blast
qed

subsection \<open>Provenance\<close>

fun why_nodes :: "why_trace \<Rightarrow> why_trace list" where
  "why_nodes (WhyTrace i p c s e r a ps ct) = WhyTrace i p c s e r a ps ct # concat (map why_nodes ps)"

text \<open>Every node of the tree is the record of a belief with the traces of its premises.\<close>

definition why_sound :: "tms \<Rightarrow> why_trace \<Rightarrow> bool" where
  "why_sound t w \<longleftrightarrow> (\<exists>b. bt_get (tms_beliefs t) (wt_target w) = Some b \<and> w = why_node t (wt_target w) b (wt_premises w)
     \<and> map wt_target (wt_premises w) = filter (\<lambda>p. bt_get (tms_beliefs t) p \<noteq> None) (ju_premises (bl_justification b)))"

definition why_complete :: "tms \<Rightarrow> knowledge_id \<Rightarrow> why_trace \<Rightarrow> bool" where
  "why_complete t i w \<longleftrightarrow> wt_target w = i \<and> list_all (why_sound t) (why_nodes w)
     \<and> wt_target ` set (why_nodes w) = {k. rests_on (premise_map (tms_beliefs t)) k i}"

lemma why_node_simps [simp]: "wt_target (why_node t i b ws) = i" "wt_premises (why_node t i b ws) = ws"
  "why_nodes (why_node t i b ws) = why_node t i b ws # concat (map why_nodes ws)"
  by (simp_all add: why_node_def)

lemma why_node_complete:
  assumes b: "bt_get (tms_beliefs t) i = Some b"
    and ws: "list_all2 (why_complete t) (filter (\<lambda>p. bt_get (tms_beliefs t) p \<noteq> None) (ju_premises (bl_justification b))) ws"
  shows "why_complete t i (why_node t i b ws)"
proof -
  let ?ps = "filter (\<lambda>p. bt_get (tms_beliefs t) p \<noteq> None) (ju_premises (bl_justification b))"
  let ?R = "rests_on (premise_map (tms_beliefs t))"
  have tg: "map wt_target ws = ?ps" using ws by (induction rule: list_all2_induct) (simp_all add: why_complete_def)
  have "why_sound t (why_node t i b ws)" using b tg by (simp add: why_sound_def)
  moreover have "list_all (why_sound t) (concat (map why_nodes ws))"
    using ws by (induction rule: list_all2_induct) (simp_all add: why_complete_def)
  moreover have "wt_target ` set (concat (map why_nodes ws)) = {k. \<exists>p \<in> set ?ps. ?R k p}"
    using ws by (induction rule: list_all2_induct) (auto simp: why_complete_def image_Un)
  moreover have "?R k i \<longleftrightarrow> k = i \<or> (\<exists>p \<in> set ?ps. ?R k p)" for k
    using b rests_on_dom [of "premise_map (tms_beliefs t)" k] by (subst rests_on_back) (auto simp: premise_map_def)
  ultimately show ?thesis by (auto simp: why_complete_def)
qed

lemma why_all_complete:
  assumes early: "earlier_premises (premise_map (tms_beliefs t))"
  shows "\<forall>i \<in> set ids. bt_get (tms_beliefs t) i \<noteq> None \<longrightarrow> unat i < n \<Longrightarrow>
    \<exists>ws. why_all t ids = Some ws \<and> list_all2 (why_complete t) (filter (\<lambda>p. bt_get (tms_beliefs t) p \<noteq> None) ids) ws"
proof (induction n arbitrary: ids)
  case 0
  then show ?case by (induction ids) (auto simp: why_all.simps)
next
  case (Suc n)
  note outer = Suc.IH
  show ?case using Suc.prems
  proof (induction ids)
    case Nil
    then show ?case by (simp add: why_all.simps)
  next
    case (Cons i rest)
    then obtain ws where ws: "why_all t rest = Some ws" "list_all2 (why_complete t) (filter (\<lambda>p. bt_get (tms_beliefs t) p \<noteq> None) rest) ws" by auto
    show ?case
    proof (cases "bt_get (tms_beliefs t) i")
      case None
      then show ?thesis using ws by (subst why_all.simps) simp
    next
      case (Some b)
      have "\<forall>p \<in> set (ju_premises (bl_justification b)). bt_get (tms_beliefs t) p \<noteq> None \<longrightarrow> unat p < n"
      proof (intro ballI impI)
        fix p
        assume p: "p \<in> set (ju_premises (bl_justification b))" "bt_get (tms_beliefs t) p \<noteq> None"
        then have "p < i" using early Some by (auto simp: earlier_premises_def premise_map_def)
        moreover have "unat i < Suc n" using Cons.prems Some by simp
        ultimately show "unat p < n" by (auto simp: word_less_nat_alt)
      qed
      then obtain us where us: "why_all t (ju_premises (bl_justification b)) = Some us"
        "list_all2 (why_complete t) (filter (\<lambda>p. bt_get (tms_beliefs t) p \<noteq> None) (ju_premises (bl_justification b))) us" using outer by blast
      have "why_all t (i # rest) = Some (why_node t i b us # ws)" using Some us(1) ws(1) by (subst why_all.simps) simp
      then show ?thesis using why_node_complete [OF Some us(2)] ws(2) Some by simp
    qed
  qed
qed

text \<open>C31: \<open>WHY\<close> queries are complete. If premises are earlier beliefs, a query for a known belief terminates
  with a tree whose nodes are exactly the beliefs it rests on; every node carries its belief's proposition,
  status, evidence, rules, assumptions and contradictions and has one subtree for every premise that is a belief,
  in order. A query for an unknown belief is an error.\<close>

theorem why_exact:
  assumes "earlier_premises (premise_map (tms_beliefs t))"
  shows "case why t i of
      None \<Rightarrow> False
    | Some r \<Rightarrow> if bt_get (tms_beliefs t) i = None then r = Err (BeliefNotFound i) else (\<exists>w. r = Ok w \<and> why_complete t i w)"
proof (cases "bt_get (tms_beliefs t) i")
  case None
  then show ?thesis by (simp add: why_def)
next
  case (Some b)
  have "\<forall>p \<in> set (ju_premises (bl_justification b)). bt_get (tms_beliefs t) p \<noteq> None \<longrightarrow> unat p < 2 ^ 64" by simp
  from why_all_complete [OF assms this] obtain ws where "why_all t (ju_premises (bl_justification b)) = Some ws"
    "list_all2 (why_complete t) (filter (\<lambda>p. bt_get (tms_beliefs t) p \<noteq> None) (ju_premises (bl_justification b))) ws" by blast
  then show ?thesis using Some why_node_complete [OF Some] by (simp add: why_def)
qed

subsection \<open>Premises that are not earlier beliefs\<close>

text \<open>Premises are not checked. A belief that is its own premise, as when its identifier is guessed in advance,
  makes retraction and \<open>WHY\<close> recurse without end.\<close>

lemma retract_all_self_premise:
  "retract_all ids bs = Some bs' \<Longrightarrow> bt_wf bs \<longrightarrow> bt_wf bs' \<and> premise_map bs' = premise_map bs
     \<and> (\<forall>i ps. i \<in> set ids \<longrightarrow> premise_map bs i = Some ps \<longrightarrow> i \<notin> set ps)"
proof (induction ids bs bs' rule: retract_all.raw_induct [rotated, consumes 1, case_names step])
  case (step F ids bs bs')
  show ?case
  proof
    assume wf: "bt_wf bs"
    show "bt_wf bs' \<and> premise_map bs' = premise_map bs \<and> (\<forall>i ps. i \<in> set ids \<longrightarrow> premise_map bs i = Some ps \<longrightarrow> i \<notin> set ps)"
    proof (cases ids)
      case Nil
      then show ?thesis using step(2) wf by simp
    next
      case (Cons j rest)
      show ?thesis
      proof (cases "bt_get bs j")
        case None
        then have "premise_map bs j = None" "F rest bs = Some bs'" using step(2) Cons by (simp_all add: premise_map_def)
        then show ?thesis using step(1) [of rest bs bs'] wf Cons by auto
      next
        case (Some b)
        let ?bs = "bt_insert j (b\<lparr>bl_status := KRetracted\<rparr>) bs"
        obtain cs where cs: "F (dependents j ?bs) ?bs = Some cs" "F rest cs = Some bs'"
          using step(2) Cons Some by (auto simp: Let_def bind_eq_Some_conv)
        have wf1: "bt_wf ?bs" and pm: "premise_map ?bs = premise_map bs" using wf premise_map_status [OF Some] by simp_all
        note A = step(1) [OF cs(1)] and B = step(1) [OF cs(2)]
        have "bt_wf cs \<and> premise_map cs = premise_map ?bs" using mp [OF A wf1] by (elim conjE) (intro conjI)
        then have c: "bt_wf cs" "premise_map cs = premise_map bs" unfolding pm by (rule conjunct1, rule conjunct2)
        have "j \<notin> set ps" if "premise_map bs j = Some ps" for ps
        proof
          assume "j \<in> set ps"
          then have "j \<in> set (dependents j ?bs)" using that by (simp add: set_dependents [OF wf1] pm)
          then show False using mp [OF A wf1] that pm \<open>j \<in> set ps\<close> by metis
        qed
        then show ?thesis using mp [OF B c(1)] c(2) unfolding Cons by simp
      qed
    qed
  qed
qed

lemma retract_self_premise_diverges:
  assumes "bt_wf (tms_beliefs t)" "bt_get (tms_beliefs t) i = Some b" "i \<in> set (ju_premises (bl_justification b))"
  shows "retract_belief i t = None"
proof (cases "retract_all [i] (tms_beliefs t)")
  case None
  then show ?thesis using assms(2) by (simp add: retract_belief_def)
next
  case (Some bs)
  then show ?thesis using retract_all_self_premise [OF Some] assms by (auto simp: premise_map_def)
qed

subsection \<open>A concrete system\<close>

definition sample_time :: timestamp where "sample_time = \<lparr>ts_clock = 1, ts_ticks = 0\<rparr>"

definition sample_belief :: "knowledge_id \<Rightarrow> string \<Rightarrow> knowledge_status \<Rightarrow> knowledge_id list \<Rightarrow> belief" where
  "sample_belief i p st ps = \<lparr>bl_id = i, bl_proposition = ascii p, bl_confidence = CERTAIN, bl_status = st, bl_valid_time = sample_time,
     bl_learned_time = sample_time, bl_justification = \<lparr>ju_evidence_events = [], ju_premises = ps, ju_applied_rules = [], ju_assumptions = []\<rparr>\<rparr>"

definition sample_conflict :: contradiction where
  "sample_conflict = \<lparr>ct_item_a = 1, ct_item_b = 3, ct_detected_at = sample_time,
     ct_reason = conflict_reason (ascii ''closed'') (ascii ''open'')\<rparr>"

definition sample_tms :: tms where
  "sample_tms = tms_new\<lparr>tms_next_id := 4, tms_beliefs := [(1, sample_belief 1 ''open'' KContradicted []), (2, sample_belief 2 ''go'' KActive [1]),
     (3, sample_belief 3 ''closed'' KContradicted [])], tms_contradictions := [sample_conflict]\<rparr>"

lemma sample_chars: "utf8_chars (ascii ''open'') = points ''open''" "utf8_chars (ascii ''go'') = points ''go''"
  "utf8_chars (ascii ''closed'') = points ''closed''"
  by (simp_all add: points_def ascii_def utf8_width_def utf8_point_def)

lemma sample_trim: "trim_chars (points ''open'') = points ''open''" "trim_chars (points ''go'') = points ''go''"
  "trim_chars (points ''closed'') = points ''closed''"
  by (simp_all add: points_def trim_chars_def is_whitespace_def)

lemma sample_contradictory:
  "is_contradictory (\<lambda>s. s) (ascii ''open'') (ascii ''closed'')" "\<not> is_contradictory (\<lambda>s. s) (ascii ''open'') (ascii ''go'')"
  "\<not> is_contradictory (\<lambda>s. s) (ascii ''go'') (ascii ''closed'')"
  by (simp_all add: is_contradictory_def sample_chars sample_trim [unfolded points_def, simplified] antonyms_def Let_def points_def)

text \<open>The antonyms are substrings of each other: a belief that something is inactive contradicts itself, so
  learning it twice marks both as contradicted.\<close>

lemma inactive_contradicts_itself: "is_contradictory (\<lambda>s. s) (ascii ''inactive'') (ascii ''inactive'')"
proof -
  have "utf8_chars (ascii ''inactive'') = points ''inactive''" by (simp add: points_def ascii_def utf8_width_def utf8_point_def)
  moreover have "trim_chars (points ''inactive'') = points ''inactive''" by (simp add: points_def trim_chars_def is_whitespace_def)
  ultimately show ?thesis by (simp add: is_contradictory_def antonyms_def Let_def) (simp add: points_def)
qed

lemma sample_reach: "tms_reach (\<lambda>s. s) sample_tms"
proof -
  let ?j = "\<lambda>ps. \<lparr>ju_evidence_events = [], ju_premises = ps, ju_applied_rules = [], ju_assumptions = []\<rparr>"
  let ?t1 = "tms_new\<lparr>tms_next_id := 2, tms_beliefs := [(1, sample_belief 1 ''open'' KActive [])]\<rparr>"
  let ?t2 = "tms_new\<lparr>tms_next_id := 3, tms_beliefs := [(1, sample_belief 1 ''open'' KActive []), (2, sample_belief 2 ''go'' KActive [1])]\<rparr>"
  note infer = infer_belief_def alloc_id_def add_or_panic_def checked_add_def conflicting_def tms_new_def sample_belief_def bt_get_def note_conflict_def Let_def
  have "infer_belief (\<lambda>s. s) (ascii ''open'') CERTAIN sample_time sample_time (?j []) tms_new = Ok (1, ?t1)"
    by (simp add: infer)
  moreover have "infer_belief (\<lambda>s. s) (ascii ''go'') CERTAIN sample_time sample_time (?j [1]) ?t1 = Ok (2, ?t2)"
    using sample_contradictory(2) by (simp add: infer)
  moreover have "infer_belief (\<lambda>s. s) (ascii ''closed'') CERTAIN sample_time sample_time (?j []) ?t2 = Ok (3, sample_tms)"
    using sample_contradictory(1,3) by (simp add: infer sample_tms_def sample_conflict_def)
  ultimately show ?thesis by (meson tms_reach.intros)
qed

lemma sample_premises: "premise_map (tms_beliefs sample_tms) = [1 \<mapsto> [], 2 \<mapsto> [1], 3 \<mapsto> []]"
  by (auto simp: premise_map_def sample_tms_def sample_belief_def bt_get_def fun_eq_iff)

lemma sample_earlier: "earlier_premises (premise_map (tms_beliefs sample_tms))"
  unfolding sample_premises by (auto simp: earlier_premises_def split: if_splits)

theorem active_beliefs_consistent_witness:
  "\<exists>c \<in> set (tms_contradictions sample_tms). ct_item_a c = 3 \<or> ct_item_b c = 3"
proof -
  have "bt_get (tms_beliefs sample_tms) 3 = Some (sample_belief 3 ''closed'' KContradicted [])" by (simp add: sample_tms_def bt_get_def)
  moreover have "bl_status (sample_belief 3 ''closed'' KContradicted []) = KContradicted" by (simp add: sample_belief_def)
  ultimately show ?thesis using active_beliefs_consistent [OF sample_reach] by blast
qed

theorem retraction_exact_witness:
  "\<exists>bs. retract_belief 1 sample_tms = Some (Ok (sample_tms\<lparr>tms_beliefs := bs\<rparr>)) \<and> bt_get bs 2 = Some (sample_belief 2 ''go'' KRetracted [1])
     \<and> bt_get bs 3 = Some (sample_belief 3 ''closed'' KContradicted [])"
proof -
  let ?P = "premise_map (tms_beliefs sample_tms)"
  have get: "bt_get (tms_beliefs sample_tms) 1 = Some (sample_belief 1 ''open'' KContradicted [])"
    "bt_get (tms_beliefs sample_tms) 2 = Some (sample_belief 2 ''go'' KActive [1])"
    "bt_get (tms_beliefs sample_tms) 3 = Some (sample_belief 3 ''closed'' KContradicted [])" by (simp_all add: sample_tms_def bt_get_def)
  have "rests_on ?P 1 2" unfolding sample_premises by (rule rests_on.step [OF rests_on.self, of _ 1 2 "[1]"]) simp_all
  moreover have "\<not> rests_on ?P 1 3" unfolding sample_premises by (subst rests_on_back) simp
  ultimately show ?thesis
    using retraction_exact [OF sample_reach sample_earlier, of 1] get
    by (auto simp: sample_belief_def status_set_def split: option.splits)
qed

theorem why_exact_witness:
  "\<exists>w. why sample_tms 2 = Some (Ok w) \<and> 1 \<in> wt_target ` set (why_nodes w)"
proof -
  have "bt_get (tms_beliefs sample_tms) 2 \<noteq> None" by (simp add: sample_tms_def bt_get_def)
  then obtain w where w: "why sample_tms 2 = Some (Ok w)" "why_complete sample_tms 2 w"
    using why_exact [OF sample_earlier, of 2] by (auto split: option.splits)
  have "rests_on (premise_map (tms_beliefs sample_tms)) 1 2" unfolding sample_premises by (rule rests_on.step [OF rests_on.self, of _ 1 2 "[1]"]) simp_all
  then show ?thesis using w by (auto simp: why_complete_def)
qed

end
