(* ===== verification/Eks_Ledger.thy ===== *)
theory Eks_Ledger
  imports Eks_Beliefs "HOL-Library.Multiset"
begin

section \<open>Predictions and memory tiers (\<open>temnion-eks\<close>)\<close>

text \<open>
  The ledger keeps predictions with their outcomes and scores them as of a cutoff; the arithmetic of \<open>f64\<close> is a
  parameter. The tiered store keeps the tier and the access count of every item. Its two hash maps are modelled
  as ordered maps: the code counts their entries and sorts the active ones by count and identifier, so their
  iteration order has no effect.
\<close>

subsection \<open>Prediction ledger\<close>

datatype prediction_outcome = Pending | Matched timestamp | Refuted timestamp bytes | Inconclusive

record prediction =
  pr_id :: u64
  pr_model_ref :: knowledge_id
  pr_shard :: u32
  pr_slot :: u32
  pr_target_valid_time :: timestamp
  pr_predicted_value :: bytes
  pr_confidence :: f64
  pr_emitted_at :: timestamp
  pr_outcome :: prediction_outcome

record ledger =
  lg_next_id :: u64
  lg_predictions :: "(u64, prediction) btree"

definition ledger_new :: ledger where
  "ledger_new = \<lparr>lg_next_id = 1, lg_predictions = []\<rparr>"

definition record_prediction :: "knowledge_id \<Rightarrow> u32 \<Rightarrow> u32 \<Rightarrow> timestamp \<Rightarrow> bytes \<Rightarrow> f64 \<Rightarrow> timestamp \<Rightarrow> ledger \<Rightarrow> (u64 \<times> ledger, eks_error) result" where
  "record_prediction model_ref shard slt target_valid_time predicted_value confidence emitted_at l =
     (let i = lg_next_id l in
      rbind (add_or_panic i 1) (\<lambda>n.
      Ok (i, l\<lparr>lg_next_id := n, lg_predictions := bt_insert i
        \<lparr>pr_id = i, pr_model_ref = model_ref, pr_shard = shard, pr_slot = slt, pr_target_valid_time = target_valid_time,
         pr_predicted_value = predicted_value, pr_confidence = confidence, pr_emitted_at = emitted_at, pr_outcome = Pending\<rparr>
        (lg_predictions l)\<rparr>)))"

definition eq_ignore_ascii_case :: "nat list \<Rightarrow> nat list \<Rightarrow> bool" where
  "eq_ignore_ascii_case a b \<longleftrightarrow> map ascii_lower a = map ascii_lower b"

definition outcome_of :: "prediction \<Rightarrow> bytes \<Rightarrow> timestamp \<Rightarrow> prediction_outcome" where
  "outcome_of p observed_value observed_at =
     (if eq_ignore_ascii_case (utf8_chars (pr_predicted_value p)) (trim_chars (utf8_chars observed_value)) then Matched observed_at
      else Refuted observed_at observed_value)"

definition resolve_outcome :: "u64 \<Rightarrow> bytes \<Rightarrow> timestamp \<Rightarrow> ledger \<Rightarrow> (ledger, eks_error) result" where
  "resolve_outcome i observed_value observed_at l =
     rbind (ok_or (bt_get (lg_predictions l) i) (PredictionNotFound i)) (\<lambda>p.
     Ok (l\<lparr>lg_predictions := bt_insert i (p\<lparr>pr_outcome := outcome_of p observed_value observed_at\<rparr>) (lg_predictions l)\<rparr>))"

record f64_arith =
  fa_sub :: "f64 \<Rightarrow> f64 \<Rightarrow> f64"
  fa_square :: "f64 \<Rightarrow> f64"
  fa_add :: "f64 \<Rightarrow> f64 \<Rightarrow> f64"
  fa_div :: "f64 \<Rightarrow> f64 \<Rightarrow> f64"
  fa_of_usize :: "usize \<Rightarrow> f64"

definition brier_step :: "f64_arith \<Rightarrow> timestamp \<Rightarrow> prediction \<Rightarrow> usize \<times> f64 \<Rightarrow> usize \<times> f64" where
  "brier_step A cutoff p = (\<lambda>(n, acc).
     if ts_ticks (pr_emitted_at p) > ts_ticks cutoff then (n, acc)
     else case pr_outcome p of
       Matched at \<Rightarrow> if ts_ticks at \<le> ts_ticks cutoff
         then (n + 1, fa_add A acc (fa_square A (fa_sub A (pr_confidence p) 0x3FF0000000000000))) else (n, acc)
     | Refuted at _ \<Rightarrow> if ts_ticks at \<le> ts_ticks cutoff
         then (n + 1, fa_add A acc (fa_square A (fa_sub A (pr_confidence p) 0))) else (n, acc)
     | _ \<Rightarrow> (n, acc))"

definition compute_brier_score :: "f64_arith \<Rightarrow> timestamp \<Rightarrow> ledger \<Rightarrow> (f64, eks_error) result" where
  "compute_brier_score A cutoff l =
     (case fold (brier_step A cutoff) (map snd (lg_predictions l)) (0, 0) of (n, acc) \<Rightarrow>
        if n = 0 then Err NoResolvedPredictions else Ok (fa_div A acc (fa_of_usize A n)))"

text \<open>What a score may depend on: the confidence and success of the predictions emitted and resolved by the cutoff.\<close>

definition resolved_by :: "timestamp \<Rightarrow> prediction \<Rightarrow> bool option" where
  "resolved_by cutoff p = (if ts_ticks (pr_emitted_at p) > ts_ticks cutoff then None
     else case pr_outcome p of
       Matched at \<Rightarrow> if ts_ticks at \<le> ts_ticks cutoff then Some True else None
     | Refuted at _ \<Rightarrow> if ts_ticks at \<le> ts_ticks cutoff then Some False else None
     | _ \<Rightarrow> None)"

definition known_results :: "timestamp \<Rightarrow> ledger \<Rightarrow> (f64 \<times> bool) list" where
  "known_results cutoff l = List.map_filter (\<lambda>p. map_option (Pair (pr_confidence p)) (resolved_by cutoff p)) (map snd (lg_predictions l))"

definition square_error :: "f64_arith \<Rightarrow> f64 \<times> bool \<Rightarrow> f64" where
  "square_error A = (\<lambda>(c, b). fa_square A (fa_sub A c (if b then 0x3FF0000000000000 else 0)))"

lemma brier_fold: "fold (brier_step A cutoff) ps (n, acc)
    = (let ks = List.map_filter (\<lambda>p. map_option (Pair (pr_confidence p)) (resolved_by cutoff p)) ps
       in (n + length ks, fold (\<lambda>k acc. fa_add A acc (square_error A k)) ks acc))"
proof (induction ps arbitrary: n acc)
  case (Cons p ps)
  then show ?case
    by (auto simp: brier_step_def resolved_by_def square_error_def Let_def map_filter_simps split: prediction_outcome.splits)
qed (simp add: map_filter_simps)

lemma compute_brier_score_known: "compute_brier_score A cutoff l
    = (let ks = known_results cutoff l in
       if ks = [] then Err NoResolvedPredictions
       else Ok (fa_div A (fold (\<lambda>k acc. fa_add A acc (square_error A k)) ks 0) (fa_of_usize A (length ks))))"
  by (simp add: compute_brier_score_def brier_fold known_results_def Let_def)

text \<open>Later operations: predictions emitted after the cutoff, and outcomes observed after the cutoff of predictions
  without an outcome by then.\<close>

definition ledger_inv :: "ledger \<Rightarrow> bool" where
  "ledger_inv l \<longleftrightarrow> bt_wf (lg_predictions l) \<and> (\<forall>i \<in> fst ` set (lg_predictions l). i < lg_next_id l)"

inductive later :: "timestamp \<Rightarrow> ledger \<Rightarrow> ledger \<Rightarrow> bool" for cutoff where
  same: "later cutoff l l"
| emitted: "later cutoff l m \<Longrightarrow> record_prediction r sh sl vt v c at m = Ok (i, m') \<Longrightarrow> ts_ticks at > ts_ticks cutoff \<Longrightarrow> later cutoff l m'"
| observed: "later cutoff l m \<Longrightarrow> resolve_outcome i v at m = Ok m' \<Longrightarrow> ts_ticks at > ts_ticks cutoff
     \<Longrightarrow> (\<forall>p. bt_get (lg_predictions m) i = Some p \<longrightarrow> resolved_by cutoff p = None) \<Longrightarrow> later cutoff l m'"

inductive ledger_reach :: "ledger \<Rightarrow> bool" where
  start: "ledger_reach ledger_new"
| emitted: "ledger_reach l \<Longrightarrow> record_prediction r sh sl vt v c at l = Ok (i, l') \<Longrightarrow> ledger_reach l'"
| observed: "ledger_reach l \<Longrightarrow> resolve_outcome i v at l = Ok l' \<Longrightarrow> ledger_reach l'"

lemma record_prediction_Ok:
  assumes "record_prediction r sh sl vt v c at l = Ok (i, l')" "ledger_inv l"
  shows "ledger_inv l'" "\<exists>p. pr_outcome p = Pending \<and> lg_predictions l' = lg_predictions l @ [(i, p)]"
proof -
  let ?p = "\<lparr>pr_id = i, pr_model_ref = r, pr_shard = sh, pr_slot = sl, pr_target_valid_time = vt,
     pr_predicted_value = v, pr_confidence = c, pr_emitted_at = at, pr_outcome = Pending\<rparr>"
  from assms(1) have i: "i = lg_next_id l" "unat i + 1 < 2 ^ 64" and l': "l' = l\<lparr>lg_next_id := i + 1, lg_predictions := bt_insert i ?p (lg_predictions l)\<rparr>"
    by (auto simp: record_prediction_def result_ok add_or_panic_def checked_add_def Let_def split: option.splits if_splits)
  have e: "bt_insert i ?p (lg_predictions l) = lg_predictions l @ [(i, ?p)]"
    by (rule bt_insert_last) (use assms(2) i(1) in \<open>simp add: ledger_inv_def\<close>)
  have "unat (i + 1) = unat i + 1" using i(2) by (simp add: unat_word_ariths)
  then have grow: "i < i + 1" by (simp add: word_less_nat_alt)
  show "ledger_inv l'" unfolding l' ledger_inv_def
    using assms(2) grow i(1) by (auto simp: ledger_inv_def bt_insert_keys intro: order_less_trans)
  show "\<exists>p. pr_outcome p = Pending \<and> lg_predictions l' = lg_predictions l @ [(i, p)]"
    using e l' by (intro exI [of _ ?p]) simp
qed

lemma resolve_outcome_Ok:
  assumes "resolve_outcome i v at l = Ok l'" "ledger_inv l"
  obtains p where "bt_get (lg_predictions l) i = Some p" "ledger_inv l'"
    "lg_predictions l' = map (\<lambda>e. if fst e = i then (i, p\<lparr>pr_outcome := outcome_of p v at\<rparr>) else e) (lg_predictions l)"
proof -
  from assms(1) obtain p where p: "bt_get (lg_predictions l) i = Some p"
    and l': "l' = l\<lparr>lg_predictions := bt_insert i (p\<lparr>pr_outcome := outcome_of p v at\<rparr>) (lg_predictions l)\<rparr>"
    by (auto simp: resolve_outcome_def result_ok)
  have wf: "bt_wf (lg_predictions l)" using assms(2) by (simp add: ledger_inv_def)
  have mem: "i \<in> fst ` set (lg_predictions l)" using p bt_get_iff [OF wf] by force
  have "ledger_inv l'" using assms(2) mem unfolding l' ledger_inv_def by (auto simp: bt_insert_keys)
  then show thesis using that [OF p] bt_insert_existing [OF wf mem] l' by simp
qed

lemma ledger_reach_inv: "ledger_reach l \<Longrightarrow> ledger_inv l"
proof (induction rule: ledger_reach.induct)
  case (emitted l r sh sl vt v c at i l')
  then show ?case using record_prediction_Ok(1) by blast
next
  case (observed l i v at l')
  then show ?case using resolve_outcome_Ok by blast
qed (simp add: ledger_inv_def ledger_new_def)

lemma map_filter_cong: "(\<And>x. x \<in> set xs \<Longrightarrow> f x = g x) \<Longrightarrow> List.map_filter f xs = List.map_filter g xs"
  by (induction xs) (auto simp: map_filter_simps split: option.splits)

lemma map_filter_of_map: "List.map_filter f (map g xs) = List.map_filter (\<lambda>x. f (g x)) xs"
  by (induction xs) (simp_all add: map_filter_simps cong: option.case_cong)

lemma later_known: "later cutoff l m \<Longrightarrow> ledger_inv l \<Longrightarrow> ledger_inv m \<and> known_results cutoff m = known_results cutoff l"
proof (induction rule: later.induct)
  case (emitted l m r sh sl vt v c at i m')
  then have inv: "ledger_inv m" by simp
  obtain p where "pr_outcome p = Pending" "lg_predictions m' = lg_predictions m @ [(i, p)]"
    using record_prediction_Ok(2) [OF emitted.hyps(2) inv] by blast
  then have "known_results cutoff m' = known_results cutoff m"
    by (simp add: known_results_def map_filter_def resolved_by_def)
  then show ?case using emitted record_prediction_Ok(1) [OF emitted.hyps(2) inv] by simp
next
  case (observed l m i v at m')
  then have inv: "ledger_inv m" by simp
  from resolve_outcome_Ok [OF observed.hyps(2) inv] obtain p where p: "bt_get (lg_predictions m) i = Some p" "ledger_inv m'"
    "lg_predictions m' = map (\<lambda>e. if fst e = i then (i, p\<lparr>pr_outcome := outcome_of p v at\<rparr>) else e) (lg_predictions m)" .
  let ?f = "\<lambda>p. map_option (Pair (pr_confidence p)) (resolved_by cutoff p)"
  have wf: "bt_wf (lg_predictions m)" using inv by (simp add: ledger_inv_def)
  have hidden: "resolved_by cutoff (p\<lparr>pr_outcome := outcome_of p v at\<rparr>) = None"
    using observed.hyps(3) by (auto simp: resolved_by_def outcome_of_def)
  have "?f (snd (if fst e = i then (i, p\<lparr>pr_outcome := outcome_of p v at\<rparr>) else e)) = ?f (snd e)" if "e \<in> set (lg_predictions m)" for e
  proof (cases "fst e = i")
    case True
    then have "bt_get (lg_predictions m) i = Some (snd e)" using that bt_get_iff [OF wf, of i "snd e"] by (cases e) simp
    then have "snd e = p" using p(1) by simp
    moreover have "resolved_by cutoff p = None" using observed.hyps(4) p(1) by blast
    ultimately show ?thesis using True hidden by simp
  qed simp
  then have "known_results cutoff m' = known_results cutoff m"
    unfolding known_results_def p(3) map_filter_of_map by (rule map_filter_cong)
  then show ?case using observed p(2) by simp
qed simp

text \<open>C32: Calibration as of a cutoff uses no later knowledge. Whatever the arithmetic, recording predictions after
  the cutoff and resolving, after the cutoff, predictions that had no outcome by then changes neither the score as
  of the cutoff nor its error, and the score is computed from exactly the predictions that were emitted and
  resolved by the cutoff.\<close>

theorem brier_score_known_as_of:
  assumes "ledger_reach l" "later cutoff l m"
  shows "compute_brier_score A cutoff m = compute_brier_score A cutoff l
    \<and> (known_results cutoff l = [] \<longleftrightarrow> compute_brier_score A cutoff l = Err NoResolvedPredictions)"
  using later_known [OF assms(2) ledger_reach_inv [OF assms(1)]] by (simp add: compute_brier_score_known Let_def)

text \<open>The guard is needed: an outcome can be overwritten, and then a score as of an earlier time changes.\<close>

definition sample_prediction :: "prediction_outcome \<Rightarrow> prediction" where
  "sample_prediction oc = \<lparr>pr_id = 1, pr_model_ref = 1, pr_shard = 0, pr_slot = 0, pr_target_valid_time = \<lparr>ts_clock = 1, ts_ticks = 3\<rparr>,
     pr_predicted_value = [], pr_confidence = 0x3FF0000000000000, pr_emitted_at = \<lparr>ts_clock = 1, ts_ticks = 1\<rparr>, pr_outcome = oc\<rparr>"

definition sample_ledger :: "prediction_outcome \<Rightarrow> ledger" where
  "sample_ledger oc = \<lparr>lg_next_id = 2, lg_predictions = [(1, sample_prediction oc)]\<rparr>"

lemma sample_record: "record_prediction 1 0 0 \<lparr>ts_clock = 1, ts_ticks = 3\<rparr> [] 0x3FF0000000000000 \<lparr>ts_clock = 1, ts_ticks = 1\<rparr> ledger_new
    = Ok (1, sample_ledger Pending)"
  by (simp add: record_prediction_def ledger_new_def add_or_panic_def checked_add_def sample_ledger_def sample_prediction_def Let_def)

lemma sample_resolve: "resolve_outcome 1 [] at (sample_ledger oc) = Ok (sample_ledger (Matched at))"
  by (simp add: resolve_outcome_def sample_ledger_def sample_prediction_def outcome_of_def eq_ignore_ascii_case_def bt_get_def trim_chars_def)

lemma resolving_again_leaks:
  defines "t5 \<equiv> \<lparr>ts_clock = 1, ts_ticks = 5\<rparr>" and "t9 \<equiv> \<lparr>ts_clock = 1, ts_ticks = 9\<rparr>"
  shows "resolve_outcome 1 [] t9 (sample_ledger (Matched t5)) = Ok (sample_ledger (Matched t9))"
    "is_ok (compute_brier_score A t5 (sample_ledger (Matched t5)))"
    "compute_brier_score A t5 (sample_ledger (Matched t9)) = Err NoResolvedPredictions"
  by (simp_all add: sample_resolve)
    (simp_all add: t5_def t9_def compute_brier_score_known known_results_def sample_ledger_def sample_prediction_def resolved_by_def map_filter_simps Let_def)

theorem brier_score_known_as_of_witness:
  "\<forall>A. compute_brier_score A \<lparr>ts_clock = 1, ts_ticks = 5\<rparr> (sample_ledger (Matched \<lparr>ts_clock = 1, ts_ticks = 9\<rparr>)) = Err NoResolvedPredictions"
proof
  fix A
  let ?c = "\<lparr>ts_clock = 1, ts_ticks = 5\<rparr>" and ?l = "sample_ledger Pending"
  have r: "ledger_reach ?l" by (rule ledger_reach.emitted [OF ledger_reach.start sample_record])
  have k: "known_results ?c ?l = []" by (simp add: known_results_def sample_ledger_def sample_prediction_def resolved_by_def map_filter_simps)
  have "later ?c ?l (sample_ledger (Matched \<lparr>ts_clock = 1, ts_ticks = 9\<rparr>))"
    by (rule later.observed [OF later.same sample_resolve]) (simp_all add: sample_ledger_def sample_prediction_def resolved_by_def bt_get_def)
  from brier_score_known_as_of [OF r this] k show "compute_brier_score A ?c (sample_ledger (Matched \<lparr>ts_clock = 1, ts_ticks = 9\<rparr>)) = Err NoResolvedPredictions" by simp
qed

subsection \<open>Memory tiers\<close>

datatype knowledge_tier = TierActive | TierReference | TierArchive

record episode =
  ep_id :: u64
  ep_label :: bytes
  ep_observations :: "knowledge_id list"
  ep_start_time :: timestamp
  ep_end_time :: timestamp

record pattern =
  pt_id :: u64
  pt_signature :: bytes
  pt_occurrence_count :: u64
  pt_derived_concept :: "bytes option"

record tiered =
  kt_max_active_items :: usize
  kt_tier_map :: "(knowledge_id, knowledge_tier) btree"
  kt_access_counts :: "(knowledge_id, u64) btree"
  kt_episodes :: "episode list"
  kt_patterns :: "pattern list"

definition tiered_new :: "usize \<Rightarrow> tiered" where
  "tiered_new max_active_items = \<lparr>kt_max_active_items = max_active_items, kt_tier_map = [], kt_access_counts = [], kt_episodes = [], kt_patterns = []\<rparr>"

definition active_entries :: "(knowledge_id, knowledge_tier) btree \<Rightarrow> (knowledge_id \<times> knowledge_tier) list" where
  "active_entries m = filter (\<lambda>(_, t). t = TierActive) m"

definition access_count :: "tiered \<Rightarrow> knowledge_id \<Rightarrow> u64" where
  "access_count s i = (case bt_get (kt_access_counts s) i of Some n \<Rightarrow> n | None \<Rightarrow> 0)"

definition evict_if_needed :: "tiered \<Rightarrow> tiered" where
  "evict_if_needed s =
     (if length (active_entries (kt_tier_map s)) > kt_max_active_items s then
        case sort_key (\<lambda>(i, n). (n, i)) (map (\<lambda>(i, _). (i, access_count s i)) (active_entries (kt_tier_map s))) of
          [] \<Rightarrow> s
        | (victim, _) # _ \<Rightarrow> s\<lparr>kt_tier_map := bt_insert victim TierArchive (kt_tier_map s)\<rparr>
      else s)"

definition insert_active :: "knowledge_id \<Rightarrow> tiered \<Rightarrow> tiered" where
  "insert_active i s = evict_if_needed (s\<lparr>kt_tier_map := bt_insert i TierActive (kt_tier_map s), kt_access_counts := bt_insert i 1 (kt_access_counts s)\<rparr>)"

definition record_access :: "knowledge_id \<Rightarrow> tiered \<Rightarrow> (tiered, eks_error) result" where
  "record_access i s = (case bt_get (kt_access_counts s) i of
       None \<Rightarrow> Ok s
     | Some n \<Rightarrow> rbind (add_or_panic n 1) (\<lambda>n. Ok (s\<lparr>kt_access_counts := bt_insert i n (kt_access_counts s)\<rparr>)))"

definition tier_of :: "tiered \<Rightarrow> knowledge_id \<Rightarrow> knowledge_tier option" where
  "tier_of s = bt_get (kt_tier_map s)"

definition consolidate_episode :: "episode \<Rightarrow> bytes \<Rightarrow> tiered \<Rightarrow> u64 \<times> tiered" where
  "consolidate_episode e signature s =
     (let pat_id = of_nat (length (kt_patterns s) + 1) in
      (pat_id, s\<lparr>kt_tier_map := fold (\<lambda>i. bt_insert i TierReference) (ep_observations e) (kt_tier_map s),
         kt_patterns := kt_patterns s @ [\<lparr>pt_id = pat_id, pt_signature = signature, pt_occurrence_count = 1, pt_derived_concept = Some (ep_label e)\<rparr>],
         kt_episodes := kt_episodes s @ [e]\<rparr>))"

inductive tiered_reach :: "usize \<Rightarrow> tiered \<Rightarrow> bool" for n where
  start: "tiered_reach n (tiered_new n)"
| inserted: "tiered_reach n s \<Longrightarrow> tiered_reach n (insert_active i s)"
| accessed: "tiered_reach n s \<Longrightarrow> record_access i s = Ok s' \<Longrightarrow> tiered_reach n s'"
| consolidated: "tiered_reach n s \<Longrightarrow> consolidate_episode e sig s = (p, s') \<Longrightarrow> tiered_reach n s'"

definition active_set :: "tiered \<Rightarrow> knowledge_id set" where
  "active_set s = {i. tier_of s i = Some TierActive}"

lemma active_entries_set: "bt_wf m \<Longrightarrow> fst ` set (active_entries m) = {i. bt_get m i = Some TierActive}"
  by (force simp: active_entries_def bt_get_iff)

lemma active_entries_card: "bt_wf m \<Longrightarrow> length (active_entries m) = card {i. bt_get m i = Some TierActive}"
proof -
  assume wf: "bt_wf m"
  have "distinct (map fst (active_entries m))" unfolding active_entries_def using bt_wf_distinct [OF wf] by (rule distinct_map_filter)
  then have "card (set (map fst (active_entries m))) = length (active_entries m)" using distinct_card by fastforce
  then show ?thesis using active_entries_set [OF wf] by simp
qed

lemma active_finite: "bt_wf (kt_tier_map s) \<Longrightarrow> finite (active_set s)"
  using active_entries_set [of "kt_tier_map s"] by (metis active_set_def finite_imageI List.finite_set tier_of_def)

text \<open>The effect of an eviction: above the limit the least used active item, and among equals the least
  identifier, moves to the archive.\<close>

lemma evict_spec:
  assumes wf: "bt_wf (kt_tier_map s)"
  shows "if card (active_set s) > kt_max_active_items s
    then \<exists>v \<in> active_set s. (\<forall>j \<in> active_set s. (access_count s v, v) \<le> (access_count s j, j))
           \<and> evict_if_needed s = s\<lparr>kt_tier_map := bt_insert v TierArchive (kt_tier_map s)\<rparr>
    else evict_if_needed s = s"
proof (cases "card (active_set s) > kt_max_active_items s")
  case True
  let ?items = "map (\<lambda>(i, _). (i, access_count s i)) (active_entries (kt_tier_map s))"
  let ?sorted = "sort_key (\<lambda>(i, n). (n, i)) ?items"
  have items: "set ?items = (\<lambda>i. (i, access_count s i)) ` active_set s"
    using active_entries_set [OF wf] by (force simp: active_set_def tier_of_def)
  have len: "length (active_entries (kt_tier_map s)) = card (active_set s)" using active_entries_card [OF wf] by (simp add: active_set_def tier_of_def)
  then have "length ?sorted = card (active_set s)" by (simp only: length_sort length_map)
  then have "length ?sorted \<noteq> 0" using True by linarith
  then obtain vc rest where vc: "?sorted = vc # rest" by (cases ?sorted) simp_all
  obtain v c where "vc = (v, c)" by (cases vc)
  with vc have srt: "?sorted = (v, c) # rest" by (simp only:)
  have "(v, c) \<in> set ?sorted" unfolding srt by (rule list.set_intros(1))
  then have "(v, c) \<in> set ?items" by (simp only: set_sort)
  then have v: "v \<in> active_set s" "c = access_count s v" using items by auto
  have "(access_count s v, v) \<le> (access_count s j, j)" if "j \<in> active_set s" for j
  proof -
    have "(j, access_count s j) \<in> set ?sorted" unfolding set_sort items using that by (rule imageI)
    moreover have "sorted (map (\<lambda>(i, n). (n, i)) ?sorted)" by (rule sorted_sort_key)
    ultimately show ?thesis unfolding srt using v(2) by (auto simp del: less_eq_prod_simp)
  qed
  then show ?thesis using True v srt len by (auto simp: evict_if_needed_def)
next
  case False
  then show ?thesis using active_entries_card [OF wf] by (simp add: evict_if_needed_def active_set_def tier_of_def)
qed

definition tiered_inv :: "usize \<Rightarrow> tiered \<Rightarrow> bool" where
  "tiered_inv n s \<longleftrightarrow> bt_wf (kt_tier_map s) \<and> kt_max_active_items s = n \<and> card (active_set s) \<le> n"

definition count_after :: "knowledge_id \<Rightarrow> tiered \<Rightarrow> knowledge_id \<Rightarrow> u64" where
  "count_after i s j = (if j = i then 1 else access_count s j)"

lemma insert_active_spec:
  fixes i :: knowledge_id
  assumes inv: "tiered_inv n s"
  defines "act \<equiv> insert i (active_set s)"
  shows "tiered_inv n (insert_active i s)"
    and "if card act \<le> n then active_set (insert_active i s) = act
     else \<exists>v \<in> act. active_set (insert_active i s) = act - {v} \<and> tier_of (insert_active i s) v = Some TierArchive
       \<and> (\<forall>j \<in> act. (count_after i s v, v) \<le> (count_after i s j, j))"
proof -
  let ?s = "s\<lparr>kt_tier_map := bt_insert i TierActive (kt_tier_map s), kt_access_counts := bt_insert i 1 (kt_access_counts s)\<rparr>"
  have wf: "bt_wf (kt_tier_map ?s)" using inv by (simp add: tiered_inv_def)
  have mx: "kt_max_active_items ?s = n" using inv by (simp add: tiered_inv_def)
  have act: "active_set ?s = act" by (auto simp: active_set_def tier_of_def act_def)
  have cnt: "access_count ?s = count_after i s" by (auto simp: fun_eq_iff access_count_def count_after_def)
  have fin: "finite act" using active_finite [OF wf] act by simp
  have le: "card act \<le> Suc n" using inv card_insert_le_m1 [of "Suc n" "active_set s" i] by (simp add: tiered_inv_def act_def)
  have ins: "insert_active i s = evict_if_needed ?s" by (simp add: insert_active_def)
  note E = evict_spec [OF wf, unfolded act mx cnt]
  show "tiered_inv n (insert_active i s)"
    and "if card act \<le> n then active_set (insert_active i s) = act
     else \<exists>v \<in> act. active_set (insert_active i s) = act - {v} \<and> tier_of (insert_active i s) v = Some TierArchive
       \<and> (\<forall>j \<in> act. (count_after i s v, v) \<le> (count_after i s j, j))"
  proof -
    have "tiered_inv n (insert_active i s) \<and> (if card act \<le> n then active_set (insert_active i s) = act
     else \<exists>v \<in> act. active_set (insert_active i s) = act - {v} \<and> tier_of (insert_active i s) v = Some TierArchive
       \<and> (\<forall>j \<in> act. (count_after i s v, v) \<le> (count_after i s j, j)))"
    proof (cases "card act \<le> n")
      case True
      then have "evict_if_needed ?s = ?s" using E by (simp only: if_not_P not_less)
      then show ?thesis using True wf mx act unfolding ins by (simp add: tiered_inv_def)
    next
      case False
      then obtain v where v: "v \<in> act" "\<forall>j \<in> act. (count_after i s v, v) \<le> (count_after i s j, j)"
        "evict_if_needed ?s = ?s\<lparr>kt_tier_map := bt_insert v TierArchive (kt_tier_map ?s)\<rparr>"
        using E unfolding if_P [OF False [unfolded not_le]] by blast
      let ?t = "?s\<lparr>kt_tier_map := bt_insert v TierArchive (kt_tier_map ?s)\<rparr>"
      have t: "tier_of ?t = (tier_of ?s)(v \<mapsto> TierArchive)" by (simp add: tier_of_def)
      then have a: "active_set ?t = act - {v}" using act by (auto simp: active_set_def)
      have "card (act - {v}) \<le> n" using le v(1) fin by (simp add: card_Diff_singleton)
      then have "tiered_inv n ?t" using a wf mx by (simp add: tiered_inv_def)
      moreover have "tier_of ?t v = Some TierArchive" using t by simp
      ultimately show ?thesis using False v(1,2) a unfolding ins v(3) if_not_P [OF False] by blast
    qed
    then show "tiered_inv n (insert_active i s)"
      and "if card act \<le> n then active_set (insert_active i s) = act
       else \<exists>v \<in> act. active_set (insert_active i s) = act - {v} \<and> tier_of (insert_active i s) v = Some TierArchive
         \<and> (\<forall>j \<in> act. (count_after i s v, v) \<le> (count_after i s j, j))" by (rule conjunct1, rule conjunct2)
  qed
qed

lemma consolidate_tiers: "bt_wf m \<Longrightarrow> bt_wf (fold (\<lambda>i. bt_insert i TierReference) ids m)
    \<and> bt_get (fold (\<lambda>i. bt_insert i TierReference) ids m) = (\<lambda>k. if k \<in> set ids then Some TierReference else bt_get m k)"
  by (induction ids arbitrary: m) (auto simp: fun_eq_iff)

lemma tiered_reach_inv: "tiered_reach n s \<Longrightarrow> tiered_inv n s"
proof (induction rule: tiered_reach.induct)
  case start
  then show ?case by (simp add: tiered_inv_def tiered_new_def active_set_def tier_of_def)
next
  case (inserted s i)
  then show ?case using insert_active_spec(1) by blast
next
  case (accessed s i s')
  then show ?case by (auto simp: record_access_def tiered_inv_def active_set_def tier_of_def result_ok split: option.splits)
next
  case (consolidated s e sig p s')
  have wf: "bt_wf (kt_tier_map s)" using consolidated.IH by (simp add: tiered_inv_def)
  have m: "kt_tier_map s' = fold (\<lambda>i. bt_insert i TierReference) (ep_observations e) (kt_tier_map s)" "kt_max_active_items s' = kt_max_active_items s"
    using consolidated.hyps(2) by (auto simp: consolidate_episode_def Let_def)
  have "active_set s' \<subseteq> active_set s" using consolidate_tiers [OF wf, of "ep_observations e"] by (auto simp: active_set_def tier_of_def m)
  then have "card (active_set s') \<le> card (active_set s)" using active_finite [OF wf] card_mono by blast
  then show ?case using consolidated.IH consolidate_tiers [OF wf] m by (simp add: tiered_inv_def)
qed

text \<open>C33: The active tier is bounded. In every reachable store at most the configured number of items is active.
  Inserting an item makes it active; if that exceeds the limit, exactly one of the active items moves to the
  archive, and it is one with the least access count, the least identifier among those (the new item counts one
  access).\<close>

theorem active_tier_bounded:
  assumes "tiered_reach n s"
  shows "card (active_set s) \<le> n
    \<and> (if card (insert i (active_set s)) \<le> n then active_set (insert_active i s) = insert i (active_set s)
       else \<exists>v \<in> insert i (active_set s). active_set (insert_active i s) = insert i (active_set s) - {v}
         \<and> tier_of (insert_active i s) v = Some TierArchive
         \<and> (\<forall>j \<in> insert i (active_set s). (count_after i s v, v) \<le> (count_after i s j, j)))"
  using tiered_reach_inv [OF assms] insert_active_spec(2) [OF tiered_reach_inv [OF assms]] unfolding tiered_inv_def by blast

theorem active_tier_bounded_witness:
  "active_set (insert_active 7 (insert_active 3 (tiered_new 1))) = {7} \<and> tier_of (insert_active 7 (insert_active 3 (tiered_new 1))) 3 = Some TierArchive"
proof -
  define s where "s = insert_active 3 (tiered_new 1)"
  have m: "kt_tier_map s = [(3, TierActive)]" "kt_access_counts s = [(3, 1)]"
    by (simp_all add: s_def insert_active_def evict_if_needed_def tiered_new_def active_entries_def)
  have r: "tiered_reach 1 s" unfolding s_def by (intro tiered_reach.inserted tiered_reach.start)
  have a: "active_set s = {3}" by (auto simp: active_set_def tier_of_def m bt_get_def split: if_splits)
  have c: "\<not> card {7, 3 :: u64} \<le> 1" by simp
  have cnt: "count_after 7 s 3 = 1" "count_after 7 s 7 = 1" by (simp_all add: count_after_def access_count_def m bt_get_def)
  have "\<exists>v \<in> {7, 3}. active_set (insert_active 7 s) = {7, 3} - {v} \<and> tier_of (insert_active 7 s) v = Some TierArchive
      \<and> (\<forall>j \<in> {7, 3}. (count_after 7 s v, v) \<le> (count_after 7 s j, j))"
    using conjunct2 [OF active_tier_bounded [OF r, of 7]] unfolding a if_not_P [OF c] .
  then obtain v where v: "v \<in> {7, 3}" "active_set (insert_active 7 s) = {7, 3} - {v}" "tier_of (insert_active 7 s) v = Some TierArchive"
    "(count_after 7 s v, v) \<le> (count_after 7 s 3, 3)" by blast
  have "v \<noteq> 7"
  proof
    assume "v = 7"
    then show False using v(4) unfolding \<open>v = 7\<close> cnt by simp
  qed
  then have v3: "v = 3" using v(1) by blast
  have "{7, 3} - {3 :: u64} = {7}" by auto
  then show ?thesis unfolding s_def [symmetric] using v(2,3) unfolding v3 by simp
qed

end
