(* ===== verification/Query_Expr.thy ===== *)
theory Query_Expr
  imports Store_Manifest Rust_Float
begin

section \<open>Scalar expressions: syntax, evaluation, parsing (\<open>temnion-query\<close>)\<close>

text \<open>
  Texts are lists of code points. The tokenizer asks Unicode for letters, digits and lower case and the standard
  library for decimal floating-point numbers; these are the parameters in \<open>unicode\<close>. The parser is the recursive
  descent of the code, with the remaining tokens in place of the position; its termination is proved. An error
  message is a constructor with the values it shows.
\<close>

datatype literal = LInt "64 word" | LFloat f64 | LString "nat list" | LBool bool

datatype binary_op = OpEq | OpNotEq | OpLt | OpLte | OpGt | OpGte | OpAnd | OpOr

datatype expr = Lit literal | Field "nat list" | Binary binary_op expr expr | Neg expr

datatype expr_token = TIdent "nat list" | TInt "64 word" | TFloat f64 | TString "nat list" | TBool bool | TOp binary_op | TNot | TLParen | TRParen

datatype parse_issue =
    UnterminatedString
  | InvalidInteger "nat list"
  | UnexpectedChar nat
  | EmptyExpression
  | TrailingToken nat expr_token
  | UnexpectedEnd
  | MissingParen
  | UnexpectedToken expr_token
  | Malformed string "nat list"

datatype exec_issue =
    FieldNotFound "nat list"
  | NotExpectsBool
  | ComparisonExpectsNumeric
  | AndExpectsBool
  | OrExpectsBool
  | ExecRange invalid_time_range
  | ExecStorage storage_error

datatype query_error =
    ParseError parse_issue
  | ValidationError string
  | ExecutionError exec_issue
  | BudgetExceeded string
  | Unsupported string

subsection \<open>Evaluation\<close>

type_synonym row_fields = "nat list \<rightharpoonup> literal"

fun literal_eq :: "literal \<Rightarrow> literal \<Rightarrow> bool" where
  "literal_eq (LInt a) (LInt b) = (a = b)"
| "literal_eq (LFloat a) (LFloat b) = f64_eq a b"
| "literal_eq (LString a) (LString b) = (a = b)"
| "literal_eq (LBool a) (LBool b) = (a = b)"
| "literal_eq _ _ = False"

fun literal_noteq :: "literal \<Rightarrow> literal \<Rightarrow> bool" where
  "literal_noteq (LInt a) (LInt b) = (a \<noteq> b)"
| "literal_noteq (LFloat a) (LFloat b) = (\<not> f64_eq a b)"
| "literal_noteq (LString a) (LString b) = (a \<noteq> b)"
| "literal_noteq (LBool a) (LBool b) = (a \<noteq> b)"
| "literal_noteq _ _ = True"

text \<open>An ordering comparison of numbers: on signed integers, and on doubles.\<close>

fun compare_literals :: "(int \<Rightarrow> int \<Rightarrow> bool) \<Rightarrow> (f64 \<Rightarrow> f64 \<Rightarrow> bool) \<Rightarrow> literal \<Rightarrow> literal \<Rightarrow> (literal, query_error) result" where
  "compare_literals ci cf (LInt a) (LInt b) = Ok (LBool (ci (sint a) (sint b)))"
| "compare_literals ci cf (LFloat a) (LFloat b) = Ok (LBool (cf a b))"
| "compare_literals ci cf _ _ = Err (ExecutionError ComparisonExpectsNumeric)"

fun apply_op :: "binary_op \<Rightarrow> literal \<Rightarrow> literal \<Rightarrow> (literal, query_error) result" where
  "apply_op OpEq l r = Ok (LBool (literal_eq l r))"
| "apply_op OpNotEq l r = Ok (LBool (literal_noteq l r))"
| "apply_op OpLt l r = compare_literals (<) f64_less l r"
| "apply_op OpLte l r = compare_literals (\<le>) f64_le l r"
| "apply_op OpGt l r = compare_literals (\<lambda>a b. b < a) (\<lambda>a b. f64_less b a) l r"
| "apply_op OpGte l r = compare_literals (\<lambda>a b. b \<le> a) (\<lambda>a b. f64_le b a) l r"
| "apply_op OpAnd l r = (case (l, r) of (LBool a, LBool b) \<Rightarrow> Ok (LBool (a \<and> b)) | _ \<Rightarrow> Err (ExecutionError AndExpectsBool))"
| "apply_op OpOr l r = (case (l, r) of (LBool a, LBool b) \<Rightarrow> Ok (LBool (a \<or> b)) | _ \<Rightarrow> Err (ExecutionError OrExpectsBool))"

fun evaluate :: "row_fields \<Rightarrow> expr \<Rightarrow> (literal, query_error) result" where
  "evaluate fds (Lit l) = Ok l"
| "evaluate fds (Field name) = ok_or (fds name) (ExecutionError (FieldNotFound name))"
| "evaluate fds (Neg e) = rbind (evaluate fds e) (\<lambda>v. case v of LBool b \<Rightarrow> Ok (LBool (\<not> b)) | _ \<Rightarrow> Err (ExecutionError NotExpectsBool))"
| "evaluate fds (Binary op l r) = rbind (evaluate fds l) (\<lambda>a. rbind (evaluate fds r) (\<lambda>b. apply_op op a b))"

subsection \<open>Tokens\<close>

record unicode =
  uc_alphabetic :: "nat \<Rightarrow> bool"
  uc_alphanumeric :: "nat \<Rightarrow> bool"
  uc_lowercase :: "nat list \<Rightarrow> nat list"
  uc_parse_f64 :: "nat list \<Rightarrow> f64"

definition chr :: "char \<Rightarrow> nat" where
  "chr c = of_char c"

definition is_digit :: "nat \<Rightarrow> bool" where
  "is_digit c \<longleftrightarrow> 48 \<le> c \<and> c \<le> 57"

fun scan_number :: "bool \<Rightarrow> nat list \<Rightarrow> nat list \<times> bool \<times> nat list" where
  "scan_number has_dot [] = ([], has_dot, [])"
| "scan_number has_dot (c # cs) =
     (if is_digit c \<or> c = chr CHR ''.'' \<and> \<not> has_dot
      then case scan_number (has_dot \<or> c = chr CHR ''.'') cs of (n, d, rest) \<Rightarrow> (c # n, d, rest)
      else ([], has_dot, c # cs))"

definition digits_value :: "nat list \<Rightarrow> nat" where
  "digits_value ds = fold (\<lambda>c n. n * 10 + (c - 48)) ds 0"

definition parse_i64 :: "nat list \<Rightarrow> (64 word, query_error) result" where
  "parse_i64 ds = (if digits_value ds < 2 ^ 63 then Ok (of_nat (digits_value ds)) else Err (ParseError (InvalidInteger ds)))"

definition word_token :: "unicode \<Rightarrow> nat list \<Rightarrow> expr_token" where
  "word_token u w =
     (let k = uc_lowercase u w in
      if k = points ''true'' then TBool True
      else if k = points ''false'' then TBool False
      else if k = points ''not'' then TNot
      else if k = points ''and'' then TOp OpAnd
      else if k = points ''or'' then TOp OpOr
      else TIdent w)"

definition word_char :: "unicode \<Rightarrow> nat \<Rightarrow> bool" where
  "word_char u c \<longleftrightarrow> uc_alphanumeric u c \<or> c = chr CHR ''_'' \<or> c = chr CHR ''.''"

text \<open>One step of the loop: the token, if any, and the characters after it. A letter is alphanumeric, so the first
  character of a word always belongs to it.\<close>

definition next_token :: "unicode \<Rightarrow> nat \<Rightarrow> nat list \<Rightarrow> (expr_token option \<times> nat list, query_error) result" where
  "next_token u c cs =
     (let followed = (\<lambda>d. case cs of [] \<Rightarrow> False | e # _ \<Rightarrow> e = chr d) in
      if is_whitespace c then Ok (None, cs)
      else if c = chr CHR ''('' then Ok (Some TLParen, cs)
      else if c = chr CHR '')'' then Ok (Some TRParen, cs)
      else if c = chr CHR ''!'' then (if followed CHR ''='' then Ok (Some (TOp OpNotEq), tl cs) else Ok (Some TNot, cs))
      else if c = chr CHR ''='' then (if followed CHR ''='' then Ok (Some (TOp OpEq), tl cs) else Ok (Some (TOp OpEq), cs))
      else if c = chr CHR ''<'' then
        (if followed CHR ''='' then Ok (Some (TOp OpLte), tl cs)
         else if followed CHR ''>'' then Ok (Some (TOp OpNotEq), tl cs)
         else Ok (Some (TOp OpLt), cs))
      else if c = chr CHR ''>'' then (if followed CHR ''='' then Ok (Some (TOp OpGte), tl cs) else Ok (Some (TOp OpGt), cs))
      else if c = chr CHR ''&'' \<and> followed CHR ''&'' then Ok (Some (TOp OpAnd), tl cs)
      else if c = chr CHR ''|'' \<and> followed CHR ''|'' then Ok (Some (TOp OpOr), tl cs)
      else if c = 39 \<or> c = 34 then
        (case dropWhile (\<lambda>d. d \<noteq> c) cs of
           [] \<Rightarrow> Err (ParseError UnterminatedString)
         | _ # rest \<Rightarrow> Ok (Some (TString (takeWhile (\<lambda>d. d \<noteq> c) cs)), rest))
      else if is_digit c then
        (case scan_number False (c # cs) of (num, has_dot, rest) \<Rightarrow>
           if has_dot then Ok (Some (TFloat (uc_parse_f64 u num)), rest)
           else rbind (parse_i64 num) (\<lambda>n. Ok (Some (TInt n), rest)))
      else if uc_alphabetic u c \<or> c = chr CHR ''_'' then
        Ok (Some (word_token u (c # takeWhile (word_char u) cs)), dropWhile (word_char u) cs)
      else Err (ParseError (UnexpectedChar c)))"

lemma scan_number_rest: "scan_number d cs = (n, d', rest) \<Longrightarrow> cs = n @ rest"
  by (induction d cs arbitrary: n d' rest rule: scan_number.induct) (auto split: if_splits prod.splits)

lemma if_OkE: "(if b then x else y) = Ok r \<Longrightarrow> (b \<Longrightarrow> x = Ok r \<Longrightarrow> P) \<Longrightarrow> (y = Ok r \<Longrightarrow> P) \<Longrightarrow> P"
  by (cases b) simp_all

lemma scan_number_shorter: "scan_number d cs = (m, d', r) \<Longrightarrow> length r \<le> length cs"
  using scan_number_rest [of d cs m d' r] by simp

lemma dropWhile_Cons_shorter: "dropWhile P cs = x # r \<Longrightarrow> length r \<le> length cs"
  using length_dropWhile_le [of P cs] by simp

lemma next_token_shorter: "next_token u c cs = Ok (t, rest) \<Longrightarrow> length rest \<le> length cs"
  unfolding next_token_def Let_def
  by (elim if_OkE)
    (auto simp: result_ok length_dropWhile_le dest: scan_number_shorter dropWhile_Cons_shorter split: list.splits prod.splits if_splits)

text \<open>Recursive calls under \<open>?\<close> only see the value of a successful step.\<close>

lemma rbind_cong [fundef_cong]: "m = m' \<Longrightarrow> (\<And>x. m' = Ok x \<Longrightarrow> f x = f' x) \<Longrightarrow> rbind m f = rbind m' f'"
  by (cases m') simp_all

function tokenize :: "unicode \<Rightarrow> nat list \<Rightarrow> (expr_token list, query_error) result" where
  "tokenize u [] = Ok []"
| "tokenize u (c # cs) =
     rbind (next_token u c cs) (\<lambda>(t, rest).
     rbind (tokenize u rest) (\<lambda>ts. Ok (case t of None \<Rightarrow> ts | Some t \<Rightarrow> t # ts)))"
  by pat_completeness auto
termination
  by (relation "measure (\<lambda>(u, cs). length cs)") (auto dest: next_token_shorter)

subsection \<open>The parser\<close>

type_synonym parse_result = "(expr \<times> expr_token list, query_error) result"

definition close_paren :: "expr \<Rightarrow> expr_token list \<Rightarrow> parse_result" where
  "close_paren e ts = (case ts of [] \<Rightarrow> Err (ParseError MissingParen)
     | t # rest \<Rightarrow> if t = TRParen then Ok (e, rest) else Err (ParseError MissingParen))"

lemma close_paren_Ok: "close_paren e ts = Ok (e', rest) \<longleftrightarrow> ts = TRParen # rest \<and> e' = e"
  by (auto simp: close_paren_def split: list.splits)

function parse_or :: "expr_token list \<Rightarrow> parse_result"
  and or_loop :: "expr \<Rightarrow> expr_token list \<Rightarrow> parse_result"
  and parse_and :: "expr_token list \<Rightarrow> parse_result"
  and and_loop :: "expr \<Rightarrow> expr_token list \<Rightarrow> parse_result"
  and parse_cmp :: "expr_token list \<Rightarrow> parse_result"
  and parse_unary :: "expr_token list \<Rightarrow> parse_result"
  and parse_primary :: "expr_token list \<Rightarrow> parse_result" where
  "parse_or ts = rbind (parse_and ts) (\<lambda>(l, rest). or_loop l rest)"
| "or_loop l ts = (case ts of
       TOp OpOr # rest \<Rightarrow> rbind (parse_and rest) (\<lambda>(r, rest). or_loop (Binary OpOr l r) rest)
     | _ \<Rightarrow> Ok (l, ts))"
| "parse_and ts = rbind (parse_cmp ts) (\<lambda>(l, rest). and_loop l rest)"
| "and_loop l ts = (case ts of
       TOp OpAnd # rest \<Rightarrow> rbind (parse_cmp rest) (\<lambda>(r, rest). and_loop (Binary OpAnd l r) rest)
     | _ \<Rightarrow> Ok (l, ts))"
| "parse_cmp ts = rbind (parse_unary ts) (\<lambda>(l, rest). case rest of
       TOp bop # rest' \<Rightarrow>
         if bop \<noteq> OpAnd \<and> bop \<noteq> OpOr then rbind (parse_unary rest') (\<lambda>(r, rest). Ok (Binary bop l r, rest)) else Ok (l, rest)
     | _ \<Rightarrow> Ok (l, rest))"
| "parse_unary ts = (case ts of
       TNot # rest \<Rightarrow> rbind (parse_unary rest) (\<lambda>(e, rest). Ok (Neg e, rest))
     | _ \<Rightarrow> parse_primary ts)"
| "parse_primary ts = (case ts of
       [] \<Rightarrow> Err (ParseError UnexpectedEnd)
     | TLParen # rest \<Rightarrow> rbind (parse_or rest) (\<lambda>(e, rest). close_paren e rest)
     | TBool b # rest \<Rightarrow> Ok (Lit (LBool b), rest)
     | TInt n # rest \<Rightarrow> Ok (Lit (LInt n), rest)
     | TFloat f # rest \<Rightarrow> Ok (Lit (LFloat f), rest)
     | TString s # rest \<Rightarrow> Ok (Lit (LString s), rest)
     | TIdent s # rest \<Rightarrow> Ok (Field s, rest)
     | t # _ \<Rightarrow> Err (ParseError (UnexpectedToken t)))"
  by pat_completeness auto

text \<open>Where it is defined, every function leaves fewer tokens, the loops at most as many.\<close>

abbreviation "parse_dom \<equiv> parse_or_or_loop_parse_and_and_loop_parse_cmp_parse_unary_parse_primary_dom"

lemma parse_shorter:
  "parse_dom (Inl (Inl ts1)) \<Longrightarrow> parse_or ts1 = Ok (e, rest) \<Longrightarrow> length rest < length ts1"
  "parse_dom (Inl (Inr (Inl (l2, ts2)))) \<Longrightarrow> or_loop l2 ts2 = Ok (e, rest) \<Longrightarrow> length rest \<le> length ts2"
  "parse_dom (Inl (Inr (Inr ts3))) \<Longrightarrow> parse_and ts3 = Ok (e, rest) \<Longrightarrow> length rest < length ts3"
  "parse_dom (Inr (Inl (Inl (l4, ts4)))) \<Longrightarrow> and_loop l4 ts4 = Ok (e, rest) \<Longrightarrow> length rest \<le> length ts4"
  "parse_dom (Inr (Inl (Inr ts5))) \<Longrightarrow> parse_cmp ts5 = Ok (e, rest) \<Longrightarrow> length rest < length ts5"
  "parse_dom (Inr (Inr (Inl ts6))) \<Longrightarrow> parse_unary ts6 = Ok (e, rest) \<Longrightarrow> length rest < length ts6"
  "parse_dom (Inr (Inr (Inr ts7))) \<Longrightarrow> parse_primary ts7 = Ok (e, rest) \<Longrightarrow> length rest < length ts7"
proof (induction ts1 and l2 ts2 and ts3 and l4 ts4 and ts5 and ts6 and ts7 arbitrary: e rest and e rest and e rest and e rest and e rest and e rest and e rest
    rule: parse_or_or_loop_parse_and_and_loop_parse_cmp_parse_unary_parse_primary.pinduct)
  case (1 ts)
  then show ?case by (fastforce simp: parse_or.psimps result_ok)
next
  case (2 l ts)
  then show ?case by (fastforce simp: or_loop.psimps result_ok split: list.splits expr_token.splits binary_op.splits)
next
  case (3 ts)
  then show ?case by (fastforce simp: parse_and.psimps result_ok)
next
  case (4 l ts)
  then show ?case by (fastforce simp: and_loop.psimps result_ok split: list.splits expr_token.splits binary_op.splits)
next
  case (5 ts)
  from 5(1,4) obtain l r0 where u: "parse_unary ts = Ok (l, r0)" by (auto simp: parse_cmp.psimps result_ok)
  have lt: "length r0 < length ts" using 5(2) u by blast
  show ?case
  proof (cases "\<exists>bop r1. r0 = TOp bop # r1 \<and> bop \<noteq> OpAnd \<and> bop \<noteq> OpOr")
    case True
    then obtain bop r1 where r0: "r0 = TOp bop # r1" and bop: "bop \<noteq> OpAnd" "bop \<noteq> OpOr" by blast
    then obtain r where r: "parse_unary r1 = Ok (r, rest)" using 5(1,4) u by (auto simp: parse_cmp.psimps result_ok)
    have "length rest < length r1" using 5(3) [OF u refl r0 refl] bop r by blast
    then show ?thesis using lt r0 by simp
  next
    case False
    then have "rest = r0" using 5(1,4) u by (auto simp: parse_cmp.psimps split: list.splits expr_token.splits)
    then show ?thesis using lt by simp
  qed
next
  case (6 ts)
  then show ?case by (fastforce simp: parse_unary.psimps result_ok split: list.splits expr_token.splits)
next
  case (7 ts)
  show ?case
  proof (cases "\<exists>r. ts = TLParen # r")
    case True
    then obtain r where ts: "ts = TLParen # r" by blast
    obtain e' where r: "parse_or r = Ok (e', TRParen # rest)"
      using 7(1,3) unfolding ts by (auto simp: parse_primary.psimps result_ok close_paren_Ok)
    have "length (TRParen # rest) < length r" using 7(2) [OF ts refl] r by blast
    then show ?thesis using ts by simp
  next
    case False
    then show ?thesis using 7(1,3) by (cases ts) (simp_all add: parse_primary.psimps split: expr_token.splits)
  qed
qed

termination parse_or
  by (relation "measure (case_sum (case_sum (\<lambda>ts. 8 * length ts + 7) (case_sum (\<lambda>(l, ts). 8 * length ts + 6) (\<lambda>ts. 8 * length ts + 5)))
      (case_sum (case_sum (\<lambda>(l, ts). 8 * length ts + 4) (\<lambda>ts. 8 * length ts + 3)) (case_sum (\<lambda>ts. 8 * length ts + 2) (\<lambda>ts. 8 * length ts + 1))))")
    (auto dest: parse_shorter)

declare parse_or.simps [simp del] or_loop.simps [simp del] parse_and.simps [simp del] and_loop.simps [simp del]
  parse_cmp.simps [simp del] parse_unary.simps [simp del] parse_primary.simps [simp del]

definition parse_tokens :: "expr_token list \<Rightarrow> (expr, query_error) result" where
  "parse_tokens ts =
     (if ts = [] then Err (ParseError EmptyExpression) else
      rbind (parse_or ts) (\<lambda>(e, rest). case rest of
        [] \<Rightarrow> Ok e
      | t # _ \<Rightarrow> Err (ParseError (TrailingToken (length ts - length rest) t))))"

definition parse_expr :: "unicode \<Rightarrow> nat list \<Rightarrow> (expr, query_error) result" where
  "parse_expr u input = rbind (tokenize u input) parse_tokens"

end
