(* ===== verification/Query_Grammar.thy ===== *)
theory Query_Grammar
  imports Query_Expr
begin

section \<open>The expression parser implements its grammar\<close>

subsection \<open>Grammar\<close>

text \<open>
  Disjunctions and conjunctions associate to the left, comparisons do not associate, negation binds tightest.
\<close>

inductive g_or :: "expr_token list \<Rightarrow> expr \<Rightarrow> bool"
  and g_and :: "expr_token list \<Rightarrow> expr \<Rightarrow> bool"
  and g_cmp :: "expr_token list \<Rightarrow> expr \<Rightarrow> bool"
  and g_unary :: "expr_token list \<Rightarrow> expr \<Rightarrow> bool"
  and g_primary :: "expr_token list \<Rightarrow> expr \<Rightarrow> bool" where
  or_one: "g_and ts e \<Longrightarrow> g_or ts e"
| or_more: "g_or ts l \<Longrightarrow> g_and us r \<Longrightarrow> g_or (ts @ TOp OpOr # us) (Binary OpOr l r)"
| and_one: "g_cmp ts e \<Longrightarrow> g_and ts e"
| and_more: "g_and ts l \<Longrightarrow> g_cmp us r \<Longrightarrow> g_and (ts @ TOp OpAnd # us) (Binary OpAnd l r)"
| cmp_one: "g_unary ts e \<Longrightarrow> g_cmp ts e"
| cmp_two: "g_unary ts l \<Longrightarrow> g_unary us r \<Longrightarrow> bop \<noteq> OpAnd \<Longrightarrow> bop \<noteq> OpOr \<Longrightarrow> g_cmp (ts @ TOp bop # us) (Binary bop l r)"
| unary_not: "g_unary ts e \<Longrightarrow> g_unary (TNot # ts) (Neg e)"
| unary_primary: "g_primary ts e \<Longrightarrow> g_unary ts e"
| paren: "g_or ts e \<Longrightarrow> g_primary (TLParen # ts @ [TRParen]) e"
| bool: "g_primary [TBool b] (Lit (LBool b))"
| int: "g_primary [TInt n] (Lit (LInt n))"
| float: "g_primary [TFloat f] (Lit (LFloat f))"
| string: "g_primary [TString s] (Lit (LString s))"
| field: "g_primary [TIdent s] (Field s)"

subsection \<open>Soundness: the consumed tokens derive the expression\<close>

lemma parse_sound:
  "parse_or ts1 = Ok (e, rest) \<Longrightarrow> \<exists>p. ts1 = p @ rest \<and> g_or p e"
  "or_loop l2 ts2 = Ok (e, rest) \<Longrightarrow> (\<And>p. g_or p l2 \<Longrightarrow> \<exists>q. ts2 = q @ rest \<and> g_or (p @ q) e)"
  "parse_and ts3 = Ok (e, rest) \<Longrightarrow> \<exists>p. ts3 = p @ rest \<and> g_and p e"
  "and_loop l4 ts4 = Ok (e, rest) \<Longrightarrow> (\<And>p. g_and p l4 \<Longrightarrow> \<exists>q. ts4 = q @ rest \<and> g_and (p @ q) e)"
  "parse_cmp ts5 = Ok (e, rest) \<Longrightarrow> \<exists>p. ts5 = p @ rest \<and> g_cmp p e"
  "parse_unary ts6 = Ok (e, rest) \<Longrightarrow> \<exists>p. ts6 = p @ rest \<and> g_unary p e"
  "parse_primary ts7 = Ok (e, rest) \<Longrightarrow> \<exists>p. ts7 = p @ rest \<and> g_primary p e"
proof (induction ts1 and l2 ts2 and ts3 and l4 ts4 and ts5 and ts6 and ts7 arbitrary: e rest and e rest and e rest and e rest and e rest and e rest and e rest
    rule: parse_or_or_loop_parse_and_and_loop_parse_cmp_parse_unary_parse_primary.induct)
  case (1 ts)
  from 1(3) obtain l r0 where a: "parse_and ts = Ok (l, r0)" "or_loop l r0 = Ok (e, rest)" by (auto simp: parse_or.simps [of ts] result_ok)
  obtain p where p: "ts = p @ r0" "g_and p l" using 1(1) [OF a(1)] by blast
  obtain q where "r0 = q @ rest" "g_or (p @ q) e" using 1(2) [OF a(1) refl a(2) or_one [OF p(2)]] by blast
  then show ?case using p by auto
next
  case (2 l ts)
  show ?case
  proof (cases "\<exists>r. ts = TOp OpOr # r")
    case True
    then obtain r where ts: "ts = TOp OpOr # r" by blast
    obtain b r0 where b: "parse_and r = Ok (b, r0)" "or_loop (Binary OpOr l b) r0 = Ok (e, rest)"
      using 2(3) unfolding ts by (subst (asm) or_loop.simps) (auto simp: result_ok)
    obtain q where q: "r = q @ r0" "g_and q b" using 2(1) [OF ts refl refl b(1)] by blast
    obtain q' where "r0 = q' @ rest" "g_or ((p @ TOp OpOr # q) @ q') e"
      using 2(2) [OF ts refl refl b(1) refl b(2) or_more [OF 2(4) q(2)]] by blast
    then show ?thesis using ts q by (intro exI [of _ "TOp OpOr # q @ q'"]) simp
  next
    case False
    then have "rest = ts" "e = l" using 2(3) by (auto simp: or_loop.simps [of l ts] split: list.splits expr_token.splits binary_op.splits)
    then show ?thesis using 2(4) by simp
  qed
next
  case (3 ts)
  from 3(3) obtain l r0 where a: "parse_cmp ts = Ok (l, r0)" "and_loop l r0 = Ok (e, rest)" by (auto simp: parse_and.simps [of ts] result_ok)
  obtain p where p: "ts = p @ r0" "g_cmp p l" using 3(1) [OF a(1)] by blast
  obtain q where "r0 = q @ rest" "g_and (p @ q) e" using 3(2) [OF a(1) refl a(2) and_one [OF p(2)]] by blast
  then show ?case using p by auto
next
  case (4 l ts)
  show ?case
  proof (cases "\<exists>r. ts = TOp OpAnd # r")
    case True
    then obtain r where ts: "ts = TOp OpAnd # r" by blast
    obtain b r0 where b: "parse_cmp r = Ok (b, r0)" "and_loop (Binary OpAnd l b) r0 = Ok (e, rest)"
      using 4(3) unfolding ts by (subst (asm) and_loop.simps) (auto simp: result_ok)
    obtain q where q: "r = q @ r0" "g_cmp q b" using 4(1) [OF ts refl refl b(1)] by blast
    obtain q' where "r0 = q' @ rest" "g_and ((p @ TOp OpAnd # q) @ q') e"
      using 4(2) [OF ts refl refl b(1) refl b(2) and_more [OF 4(4) q(2)]] by blast
    then show ?thesis using ts q by (intro exI [of _ "TOp OpAnd # q @ q'"]) simp
  next
    case False
    then have "rest = ts" "e = l" using 4(3) by (auto simp: and_loop.simps [of l ts] split: list.splits expr_token.splits binary_op.splits)
    then show ?thesis using 4(4) by simp
  qed
next
  case (5 ts)
  from 5(3) obtain l r0 where a: "parse_unary ts = Ok (l, r0)" by (auto simp: parse_cmp.simps [of ts] result_ok)
  obtain p where p: "ts = p @ r0" "g_unary p l" using 5(1) [OF a] by blast
  show ?case
  proof (cases "\<exists>bop r1. r0 = TOp bop # r1 \<and> bop \<noteq> OpAnd \<and> bop \<noteq> OpOr")
    case True
    then obtain bop r1 where r0: "r0 = TOp bop # r1" and bop: "bop \<noteq> OpAnd" "bop \<noteq> OpOr" by blast
    then obtain r where r: "parse_unary r1 = Ok (r, rest)" "e = Binary bop l r" using 5(3) a by (auto simp: parse_cmp.simps [of ts] result_ok)
    obtain q where "r1 = q @ rest" "g_unary q r" using 5(2) [OF a refl r0 refl] bop r(1) by blast
    then show ?thesis using p r0 r(2) cmp_two [OF p(2) _ bop] by (intro exI [of _ "p @ TOp bop # q"]) simp
  next
    case False
    then have "rest = r0" "e = l" using 5(3) a by (auto simp: parse_cmp.simps [of ts] split: list.splits expr_token.splits)
    then show ?thesis using p cmp_one by blast
  qed
next
  case (6 ts)
  show ?case
  proof (cases "\<exists>r. ts = TNot # r")
    case True
    then obtain r where ts: "ts = TNot # r" by blast
    obtain b where b: "parse_unary r = Ok (b, rest)" "e = Neg b" using 6(11) by (auto simp: parse_unary.simps [of "TNot # r"] ts result_ok)
    obtain p where "r = p @ rest" "g_unary p b" using 6(8) [OF ts refl b(1)] by blast
    then show ?thesis using ts b(2) unary_not by (intro exI [of _ "TNot # p"]) simp
  next
    case False
    then have "parse_unary ts = parse_primary ts" by (subst parse_unary.simps) (auto split: list.splits expr_token.splits)
    then have c: "parse_primary ts = Ok (e, rest)" using 6(11) by simp
    have "\<exists>p. ts = p @ rest \<and> g_primary p e"
    proof (cases ts)
      case Nil
      then show ?thesis using 6(1) c by blast
    next
      case (Cons t r)
      then show ?thesis
        by (cases t) (use Cons False 6(2-7,9,10) [OF Cons _ c] in simp_all)
    qed
    then show ?thesis using unary_primary by blast
  qed
next
  case (7 ts)
  show ?case
  proof (cases "\<exists>r. ts = TLParen # r")
    case True
    then obtain r where ts: "ts = TLParen # r" by blast
    have r: "parse_or r = Ok (e, TRParen # rest)" using 7(2) unfolding ts by (subst (asm) parse_primary.simps) (auto simp: result_ok close_paren_Ok)
    obtain p where "r = p @ TRParen # rest" "g_or p e" using 7(1) [OF ts refl r] by blast
    then show ?thesis using ts paren by (intro exI [of _ "TLParen # p @ [TRParen]"]) simp
  next
    case False
    show ?thesis
    proof (cases ts)
      case Nil
      then show ?thesis using 7(2) by (simp add: parse_primary.simps [of "[]"])
    next
      case (Cons t r)
      then have "t \<noteq> TLParen" using False by blast
      then show ?thesis using 7(2) unfolding Cons parse_primary.simps [of "t # r"]
        by (cases t) (auto intro: g_or_g_and_g_cmp_g_unary_g_primary.intros)
    qed
  qed
qed

subsection \<open>Completeness: a derivable prefix is parsed\<close>

definition no_comparison :: "expr_token list \<Rightarrow> bool" where
  "no_comparison ts \<longleftrightarrow> (\<forall>bop r. ts = TOp bop # r \<longrightarrow> bop = OpAnd \<or> bop = OpOr)"

definition no_and :: "expr_token list \<Rightarrow> bool" where
  "no_and ts \<longleftrightarrow> (\<forall>r. ts \<noteq> TOp OpAnd # r)"

lemma parse_complete:
  "g_or p1 e1 \<Longrightarrow> no_comparison r1 \<Longrightarrow> no_and r1 \<Longrightarrow> parse_or (p1 @ r1) = or_loop e1 r1"
  "g_and p2 e2 \<Longrightarrow> no_comparison r2 \<Longrightarrow> parse_and (p2 @ r2) = and_loop e2 r2"
  "g_cmp p3 e3 \<Longrightarrow> no_comparison r3 \<Longrightarrow> parse_cmp (p3 @ r3) = Ok (e3, r3)"
  "g_unary p4 e4 \<Longrightarrow> parse_unary (p4 @ r4) = Ok (e4, r4)"
  "g_primary p5 e5 \<Longrightarrow> parse_primary (p5 @ r5) = Ok (e5, r5) \<and> p5 \<noteq> [] \<and> hd p5 \<noteq> TNot"
proof (induction arbitrary: r1 and r2 and r3 and r4 and r5 rule: g_or_g_and_g_cmp_g_unary_g_primary.inducts)
  case (or_one ts e)
  have "and_loop e r1 = Ok (e, r1)" using or_one.prems(2) by (subst and_loop.simps) (auto simp: no_and_def split: list.splits expr_token.splits binary_op.splits)
  then show ?case using or_one by (subst parse_or.simps) simp
next
  case (or_more ts l us r)
  have "parse_or (ts @ TOp OpOr # us @ r1) = or_loop l (TOp OpOr # us @ r1)"
    using or_more.IH(1) [of "TOp OpOr # us @ r1"] by (simp add: no_comparison_def no_and_def)
  moreover have "and_loop r r1 = Ok (r, r1)" using or_more.prems(2) by (subst and_loop.simps) (auto simp: no_and_def split: list.splits expr_token.splits binary_op.splits)
  ultimately show ?case using or_more.IH(2) or_more.prems(1) by (simp add: or_loop.simps [of l])
next
  case (and_one ts e)
  then show ?case by (subst parse_and.simps) simp
next
  case (and_more ts l us r)
  have "parse_and (ts @ TOp OpAnd # us @ r2) = and_loop l (TOp OpAnd # us @ r2)"
    using and_more.IH(1) [of "TOp OpAnd # us @ r2"] by (simp add: no_comparison_def)
  then show ?case using and_more.IH(2) and_more.prems by (simp add: and_loop.simps [of l])
next
  case (cmp_one ts e)
  then show ?case by (subst parse_cmp.simps) (auto simp: no_comparison_def split: list.splits expr_token.splits)
next
  case (cmp_two ts l us r bop)
  then show ?case by (subst parse_cmp.simps) simp
next
  case (unary_not ts e)
  then show ?case by (subst parse_unary.simps) simp
next
  case (unary_primary ts e)
  then obtain t ts' where "ts = t # ts'" "t \<noteq> TNot" by (cases ts) auto
  then have "parse_unary (ts @ r4) = parse_primary (ts @ r4)" by (subst parse_unary.simps) (auto split: expr_token.splits)
  then show ?case using unary_primary by simp
next
  case (paren ts e)
  have "or_loop e (TRParen # r5) = Ok (e, TRParen # r5)" by (subst or_loop.simps) simp
  then have "parse_or (ts @ TRParen # r5) = Ok (e, TRParen # r5)" using paren.IH [of "TRParen # r5"] by (simp add: no_comparison_def no_and_def)
  then show ?case by (subst parse_primary.simps) (simp add: close_paren_def)
qed (simp_all add: parse_primary.simps)

text \<open>C34: The expression parser accepts exactly its grammar: a text parses to an expression if and only if its tokens
  derive that expression, where \<open>OR\<close> and \<open>AND\<close> associate to the left, \<open>AND\<close> binds tighter than \<open>OR\<close>, a
  comparison has two negated or primary operands, and parentheses group. In particular no token is ignored and
  no text has two meanings; and parsing always terminates, since the parser is a total function.\<close>

theorem parse_expr_exact:
  "parse_expr u s = Ok e \<longleftrightarrow> (\<exists>ts. tokenize u s = Ok ts \<and> g_or ts e)"
proof -
  have "parse_tokens ts = Ok e \<longleftrightarrow> g_or ts e" for ts
  proof
    assume "parse_tokens ts = Ok e"
    then obtain e' rest where r: "parse_or ts = Ok (e', rest)" and c: "(case rest of [] \<Rightarrow> Ok e' | t # us \<Rightarrow> Err (ParseError (TrailingToken (length ts - length rest) t))) = Ok e"
      unfolding parse_tokens_def by (auto simp: result_ok split: if_splits)
    have "rest = [] \<and> e' = e" using c by (cases rest) auto
    then have "parse_or ts = Ok (e, [])" using r by simp
    then show "g_or ts e" using parse_sound(1) by fastforce
  next
    assume g: "g_or ts e"
    have "parse_or (ts @ []) = or_loop e []" by (rule parse_complete(1) [OF g]) (simp_all add: no_comparison_def no_and_def)
    then have p: "parse_or ts = Ok (e, [])" by (simp add: or_loop.simps)
    have "parse_or [] \<noteq> Ok (e, [])" using parse_sound(1) [of "[]"] parse_or.simps [of "[]"]
      by (simp add: parse_and.simps parse_cmp.simps parse_unary.simps parse_primary.simps)
    then have "ts \<noteq> []" using p by auto
    then show "parse_tokens ts = Ok e" using p by (simp add: parse_tokens_def)
  qed
  then show ?thesis by (simp add: parse_expr_def result_ok)
qed

end
