(* ===== verification/Protocol_Packets.thy ===== *)
theory Protocol_Packets
  imports Utf8 Rust_Prelude
begin

section \<open>Packets of the network protocol (\<open>temnion-protocol\<close>)\<close>

text \<open>
  A packet is a header of sixteen bytes, the payload, and a checksum of both. The checksum of the crate
  \<open>crc32fast\<close> is the parameter \<open>crc\<close>.
\<close>

definition TNP_MAGIC :: bytes where "TNP_MAGIC = ascii ''TNPP''"
definition TNP_VERSION :: u16 where "TNP_VERSION = 1"
definition MAX_PACKET_LEN :: usize where "MAX_PACKET_LEN = 16 * 1024 * 1024"
definition TNP_HEADER_LEN :: usize where "TNP_HEADER_LEN = 16"
definition TNP_OVERHEAD :: usize where "TNP_OVERHEAD = TNP_HEADER_LEN + 4"

datatype message_type =
    MHandshakeRequest | MHandshakeResponse | MDescribeRequest | MDescribeResponse
  | MQueryRequest | MQueryResponse | MStreamRecord | MStreamEnd | MErrorResponse
  | MPing | MPong | MSubscribeRequest | MSubscribeResponse | MLiveEvent
  | MUnsubscribeRequest | MUnsubscribeResponse

datatype violation = Truncated string | UnknownQueryFormat | InvalidUtf8 | UnexpectedMessage message_type

datatype tnp_error =
    InvalidMagic
  | UnsupportedVersion u16 u16
  | ChecksumMismatch
  | PacketTooLarge usize
  | IncompletePacket
  | UnknownMessageType u16
  | ProtocolViolation violation
  | HandshakeFailed string
  | TnpExecutionError string
  | IoError string
  | TimedOut
  | ConnectionClosed

fun message_code :: "message_type \<Rightarrow> u16" where
  "message_code MHandshakeRequest = 0x0001"
| "message_code MHandshakeResponse = 0x0002"
| "message_code MDescribeRequest = 0x0003"
| "message_code MDescribeResponse = 0x0004"
| "message_code MQueryRequest = 0x0005"
| "message_code MQueryResponse = 0x0006"
| "message_code MStreamRecord = 0x0007"
| "message_code MStreamEnd = 0x0008"
| "message_code MErrorResponse = 0x0009"
| "message_code MPing = 0x000A"
| "message_code MPong = 0x000B"
| "message_code MSubscribeRequest = 0x000C"
| "message_code MSubscribeResponse = 0x000D"
| "message_code MLiveEvent = 0x000E"
| "message_code MUnsubscribeRequest = 0x000F"
| "message_code MUnsubscribeResponse = 0x0010"

definition message_try_from :: "u16 \<Rightarrow> (message_type, tnp_error) result" where
  "message_try_from val =
     (if val = 0x0001 then Ok MHandshakeRequest
      else if val = 0x0002 then Ok MHandshakeResponse
      else if val = 0x0003 then Ok MDescribeRequest
      else if val = 0x0004 then Ok MDescribeResponse
      else if val = 0x0005 then Ok MQueryRequest
      else if val = 0x0006 then Ok MQueryResponse
      else if val = 0x0007 then Ok MStreamRecord
      else if val = 0x0008 then Ok MStreamEnd
      else if val = 0x0009 then Ok MErrorResponse
      else if val = 0x000A then Ok MPing
      else if val = 0x000B then Ok MPong
      else if val = 0x000C then Ok MSubscribeRequest
      else if val = 0x000D then Ok MSubscribeResponse
      else if val = 0x000E then Ok MLiveEvent
      else if val = 0x000F then Ok MUnsubscribeRequest
      else if val = 0x0010 then Ok MUnsubscribeResponse
      else Err (UnknownMessageType val))"

lemma message_try_from_Ok [result_ok]: "message_try_from val = Ok m \<longleftrightarrow> val = message_code m"
proof
  show "message_try_from val = Ok m \<Longrightarrow> val = message_code m"
    unfolding message_try_from_def by (auto split: if_splits)
  show "val = message_code m \<Longrightarrow> message_try_from val = Ok m"
    by (cases m) (simp_all add: message_try_from_def)
qed

lemma message_try_from_not_Panic [simp]: "message_try_from val \<noteq> Panic"
  by (simp add: message_try_from_def)

subsection \<open>Framing\<close>

record tnp_packet =
  pk_version :: u16
  pk_message_type :: message_type
  pk_stream_id :: u32
  pk_payload :: bytes

definition packet_new :: "message_type \<Rightarrow> u32 \<Rightarrow> bytes \<Rightarrow> tnp_packet" where
  "packet_new mt stream_id payload =
     \<lparr>pk_version = TNP_VERSION, pk_message_type = mt, pk_stream_id = stream_id, pk_payload = payload\<rparr>"

definition packet_encode :: "(bytes \<Rightarrow> u32) \<Rightarrow> tnp_packet \<Rightarrow> (bytes, tnp_error) result" where
  "packet_encode crc p =
     (if length (pk_payload p) > MAX_PACKET_LEN then Err (PacketTooLarge (length (pk_payload p))) else
      let buf = TNP_MAGIC @ to_le 2 (pk_version p) @ to_le 2 (message_code (pk_message_type p)) @ to_le 4 (pk_stream_id p)
                  @ to_le 4 (of_nat (length (pk_payload p)) :: u32) @ pk_payload p in
      Ok (buf @ to_le 4 (crc buf)))"

definition packet_decode :: "(bytes \<Rightarrow> u32) \<Rightarrow> bytes \<Rightarrow> (tnp_packet \<times> usize, tnp_error) result" where
  "packet_decode crc bs =
     (if length bs < TNP_OVERHEAD then Err IncompletePacket else
      rbind (slice_bytes 4 bs) (\<lambda>(magic, r).
      if magic \<noteq> TNP_MAGIC then Err InvalidMagic else
      rbind (slice_le 2 r) (\<lambda>(version, r).
      if version \<noteq> TNP_VERSION then Err (UnsupportedVersion TNP_VERSION version) else
      rbind (slice_le 2 r) (\<lambda>(msg_raw, r).
      rbind (message_try_from msg_raw) (\<lambda>mt.
      rbind (slice_le 4 r) (\<lambda>(stream_id, r).
      rbind (slice_le 4 r) (\<lambda>(len32 :: u32, r).
      let payload_len = unat len32 in
      if payload_len > MAX_PACKET_LEN then Err (PacketTooLarge payload_len) else
      let total_len = TNP_HEADER_LEN + payload_len + 4 in
      if length bs < total_len then Err IncompletePacket else
      rbind (slice_bytes payload_len r) (\<lambda>(payload, r).
      rbind (slice_le 4 r) (\<lambda>(expected, r).
      if crc (take (total_len - 4) bs) \<noteq> expected then Err ChecksumMismatch else
      Ok (\<lparr>pk_version = version, pk_message_type = mt, pk_stream_id = stream_id, pk_payload = payload\<rparr>, total_len))))))))))"

lemma length_TNP_MAGIC [simp]: "length TNP_MAGIC = 4"
  by (simp add: TNP_MAGIC_def ascii_def)

lemmas packet_consts = TNP_OVERHEAD_def TNP_HEADER_LEN_def MAX_PACKET_LEN_def TNP_VERSION_def

text \<open>What the first sixteen bytes say.\<close>

definition header :: "u16 \<Rightarrow> u16 \<Rightarrow> u32 \<Rightarrow> u32 \<Rightarrow> bytes" where
  "header version msg_raw stream_id len32 = TNP_MAGIC @ to_le 2 version @ to_le 2 msg_raw @ to_le 4 stream_id @ to_le 4 len32"

lemma length_header [simp]: "length (header v mt sid len32) = 16"
  by (simp add: header_def)

lemma split_le: "n \<le> length bs \<Longrightarrow> 8 * n = LENGTH('w) \<Longrightarrow> \<exists>w :: 'w::len word. \<exists>r. bs = to_le n w @ r"
  using to_le_from_le [of "take n bs", where 'w = 'w] by (intro exI [of _ "from_le (take n bs)"] exI [of _ "drop n bs"]) simp

lemma header_cases:
  assumes "20 \<le> length bs"
  obtains magic r where "bs = magic @ r" "length magic = 4" "magic \<noteq> TNP_MAGIC"
  | version msg_raw stream_id len32 r where "bs = header version msg_raw stream_id len32 @ r"
proof (cases "take 4 bs = TNP_MAGIC")
  case False
  then show ?thesis using that(1) [of "take 4 bs" "drop 4 bs"] assms by simp
next
  case True
  have "2 \<le> length (drop 4 bs)" using assms by simp
  then obtain v :: u16 and r1 where 1: "drop 4 bs = to_le 2 v @ r1" using split_le [of 2 "drop 4 bs", where 'w = 16] by auto
  have "length (drop 4 bs) = 2 + length r1" unfolding 1 by simp
  then have l1: "length r1 + 6 = length bs" using assms by simp
  obtain m :: u16 and r2 where 2: "r1 = to_le 2 m @ r2" using split_le [of 2 r1, where 'w = 16] l1 assms by auto
  obtain s :: u32 and r3 where 3: "r2 = to_le 4 s @ r3" using split_le [of 4 r2, where 'w = 32] l1 assms 2 by auto
  obtain n :: u32 and r4 where 4: "r3 = to_le 4 n @ r4" using split_le [of 4 r3, where 'w = 32] l1 assms 2 3 by auto
  have "bs = header v m s n @ r4" using append_take_drop_id [of 4 bs] True 1 2 3 4 by (simp add: header_def)
  then show ?thesis by (rule that(2))
qed

lemma packet_decode_wrong_magic:
  "20 \<le> length (magic @ r) \<Longrightarrow> length magic = 4 \<Longrightarrow> magic \<noteq> TNP_MAGIC \<Longrightarrow> packet_decode crc (magic @ r) = Err InvalidMagic"
  by (simp add: packet_decode_def packet_consts)

lemma packet_decode_header:
  "packet_decode crc (header v mt sid len32 @ r) =
     (if length r < 4 then Err IncompletePacket
      else if v \<noteq> TNP_VERSION then Err (UnsupportedVersion TNP_VERSION v)
      else rbind (message_try_from mt) (\<lambda>m.
        if unat len32 > MAX_PACKET_LEN then Err (PacketTooLarge (unat len32))
        else if length r < unat len32 + 4 then Err IncompletePacket
        else if to_le 4 (crc (header v mt sid len32 @ take (unat len32) r)) \<noteq> slice r (unat len32) (unat len32 + 4) then Err ChecksumMismatch
        else Ok (\<lparr>pk_version = v, pk_message_type = m, pk_stream_id = sid, pk_payload = take (unat len32) r\<rparr>, 20 + unat len32)))"
proof -
  have h: "slice_bytes 4 (header v mt sid len32 @ r) = Ok (TNP_MAGIC, to_le 2 v @ to_le 2 mt @ to_le 4 sid @ to_le 4 len32 @ r)"
    by (simp add: header_def)
  have l: "length r < unat len32 + 4 \<longleftrightarrow> length (header v mt sid len32 @ r) < TNP_HEADER_LEN + unat len32 + 4"
    by (simp add: packet_consts add_ac)
  have o: "length r < 4 \<longleftrightarrow> length (header v mt sid len32 @ r) < TNP_OVERHEAD" by (simp add: packet_consts)
  have t: "take (TNP_HEADER_LEN + unat len32 + 4 - 4) (header v mt sid len32 @ r) = header v mt sid len32 @ take (unat len32) r"
    by (simp add: packet_consts)
  have c: "c \<noteq> from_le (take 4 (drop (unat len32) r)) \<longleftrightarrow> to_le 4 c \<noteq> slice r (unat len32) (unat len32 + 4)"
    if "\<not> length r < unat len32 + 4" for c :: u32
    using that from_le_eq_iff [of "take 4 (drop (unat len32) r)" c] by (auto simp: slice_def)
  show ?thesis
    unfolding packet_decode_def o [symmetric] h
    by (cases "message_try_from mt") (simp_all add: l [symmetric] t slice_bytes_def slice_le_def c Let_def,
      auto simp: packet_consts)
qed

lemma packet_decode_short: "length bs < 20 \<Longrightarrow> packet_decode crc bs = Err IncompletePacket"
  by (simp add: packet_decode_def packet_consts)

lemma packet_decode_not_Panic: "packet_decode crc bs \<noteq> Panic"
proof (cases "length bs < 20")
  case True
  then show ?thesis by (simp add: packet_decode_short)
next
  case False
  then have l: "20 \<le> length bs" by simp
  from l show ?thesis
  proof (cases rule: header_cases)
    case (1 magic r)
    then show ?thesis using l packet_decode_wrong_magic [of magic r crc] by simp
  next
    case (2 v mt sid len32 r)
    show ?thesis unfolding 2 packet_decode_header by (simp add: rbind_eq_Panic)
  qed
qed

subsection \<open>Exactness\<close>

lemma packet_encode_Ok [result_ok]: "packet_encode crc p = Ok bs \<longleftrightarrow> length (pk_payload p) \<le> MAX_PACKET_LEN
    \<and> bs = (let h = header (pk_version p) (message_code (pk_message_type p)) (pk_stream_id p) (of_nat (length (pk_payload p))) @ pk_payload p
            in h @ to_le 4 (crc h))"
  by (auto simp: packet_encode_def header_def Let_def)

lemma length_packet_encode: "packet_encode crc p = Ok bs \<Longrightarrow> length bs = 20 + length (pk_payload p)"
  by (auto simp: packet_encode_Ok Let_def)

lemma packet_decode_encode:
  assumes "packet_encode crc p = Ok bs" "pk_version p = TNP_VERSION"
  shows "packet_decode crc (bs @ r) = Ok (p, length bs)"
proof -
  let ?n = "of_nat (length (pk_payload p)) :: u32"
  let ?h = "header (pk_version p) (message_code (pk_message_type p)) (pk_stream_id p) ?n"
  have m: "length (pk_payload p) \<le> MAX_PACKET_LEN" and bs: "bs = ?h @ pk_payload p @ to_le 4 (crc (?h @ pk_payload p))"
    using assms(1) by (simp_all add: packet_encode_Ok Let_def)
  have n: "unat ?n = length (pk_payload p)" using m by (simp add: packet_consts)
  have s: "slice (pk_payload p @ to_le 4 c @ r) (length (pk_payload p)) (length (pk_payload p) + 4) = to_le 4 c" for c :: u32
    by (simp add: slice_def)
  have "message_try_from (message_code (pk_message_type p)) = Ok (pk_message_type p)" by (simp add: message_try_from_Ok)
  then show ?thesis unfolding bs using m assms(2) by (simp add: packet_decode_header n s)
qed

lemma packet_decode_Ok:
  assumes "packet_decode crc bs = Ok (p, n)"
  shows "n \<le> length bs \<and> packet_encode crc p = Ok (take n bs) \<and> pk_version p = TNP_VERSION"
proof -
  have l: "20 \<le> length bs" using assms packet_decode_short [of bs crc] by fastforce
  from l show ?thesis
  proof (cases rule: header_cases)
    case (1 magic r)
    then show ?thesis using assms l packet_decode_wrong_magic [of magic r crc] by simp
  next
    case (2 v mt sid len32 r)
    let ?h = "header v mt sid len32"
    obtain m where m: "message_try_from mt = Ok m" and v: "v = TNP_VERSION" and s: "unat len32 \<le> MAX_PACKET_LEN" "unat len32 + 4 \<le> length r"
      and c: "to_le 4 (crc (?h @ take (unat len32) r)) = slice r (unat len32) (unat len32 + 4)"
      and p: "p = \<lparr>pk_version = v, pk_message_type = m, pk_stream_id = sid, pk_payload = take (unat len32) r\<rparr>" "n = 20 + unat len32"
      using assms unfolding 2 packet_decode_header by (auto simp: result_ok split: if_splits)
    have len: "length (take (unat len32) r) = unat len32" using s by simp
    have "take n bs = ?h @ take (unat len32 + 4) r" unfolding 2 p by (simp add: add.commute)
    also have "take (unat len32 + 4) r = take (unat len32) r @ to_le 4 (crc (?h @ take (unat len32) r))" unfolding c by (rule take_slice) simp
    finally have t: "take n bs = ?h @ take (unat len32) r @ to_le 4 (crc (?h @ take (unat len32) r))" .
    have "packet_encode crc p = Ok (take n bs)" unfolding t using m s by (simp add: p packet_encode_Ok Let_def len message_try_from_Ok)
    then show ?thesis using s 2 p v by simp
  qed
qed

text \<open>An answer does not depend on what follows the bytes it was computed from, and only a longer input can turn
  an incomplete packet into another answer.\<close>

lemma packet_decode_append:
  assumes "packet_decode crc bs \<noteq> Err IncompletePacket"
  shows "packet_decode crc (bs @ xs) = packet_decode crc bs"
proof -
  have l: "20 \<le> length bs" using assms packet_decode_short [of bs crc] by fastforce
  from l show ?thesis
  proof (cases rule: header_cases)
    case (1 magic r)
    then show ?thesis using l packet_decode_wrong_magic [of magic r crc] packet_decode_wrong_magic [of magic "r @ xs" crc] by simp
  next
    case (2 v mt sid len32 r)
    show ?thesis
    proof (cases "message_try_from mt")
      case (Ok m)
      have "v = TNP_VERSION \<Longrightarrow> unat len32 \<le> MAX_PACKET_LEN \<Longrightarrow> unat len32 + 4 \<le> length r"
        using assms l unfolding 2 packet_decode_header Ok by (auto split: if_splits)
      then show ?thesis using l unfolding 2 by (auto simp: packet_decode_header Ok slice_append_left)
    qed (use l 2 in \<open>simp_all add: packet_decode_header\<close>)
  qed
qed

lemma packet_decode_Nil [simp]: "packet_decode crc [] = Err IncompletePacket"
  by (simp add: packet_decode_short)

text \<open>C36: Packets are framed exactly: a byte string decodes to a packet of \<open>n\<close> bytes if and only if its first \<open>n\<close> bytes
  are the encoding of that packet and the packet has the current version. Decoding never panics, and a
  proper prefix of a packet is reported as incomplete, never as another packet or as an error.\<close>

theorem packet_codec_exact:
  "(packet_decode crc bs = Ok (p, n) \<longleftrightarrow> n \<le> length bs \<and> packet_encode crc p = Ok (take n bs) \<and> pk_version p = TNP_VERSION)
    \<and> packet_decode crc bs \<noteq> Panic
    \<and> (packet_encode crc p = Ok (bs @ [b] @ xs) \<and> pk_version p = TNP_VERSION \<longrightarrow> packet_decode crc bs = Err IncompletePacket)"
proof (intro conjI impI iffI)
  show "packet_decode crc bs \<noteq> Panic" by (rule packet_decode_not_Panic)
next
  assume "packet_decode crc bs = Ok (p, n)"
  then show "n \<le> length bs" "packet_encode crc p = Ok (take n bs)" "pk_version p = TNP_VERSION" using packet_decode_Ok by blast+
next
  assume "n \<le> length bs \<and> packet_encode crc p = Ok (take n bs) \<and> pk_version p = TNP_VERSION"
  then show "packet_decode crc bs = Ok (p, n)" using packet_decode_encode [of crc p "take n bs" "drop n bs"] by simp
next
  assume a: "packet_encode crc p = Ok (bs @ [b] @ xs) \<and> pk_version p = TNP_VERSION"
  show "packet_decode crc bs = Err IncompletePacket"
  proof (rule ccontr)
    assume n: "packet_decode crc bs \<noteq> Err IncompletePacket"
    have "packet_decode crc bs = Ok (p, length (bs @ [b] @ xs))"
      using packet_decode_append [OF n, of "[b] @ xs"] packet_decode_encode [of crc p "bs @ [b] @ xs" "[]"] a by simp
    then show False using packet_decode_Ok by fastforce
  qed
qed

theorem packet_codec_exact_witness:
  "packet_decode (\<lambda>_. 7) [0x54, 0x4E, 0x50, 0x50, 1, 0, 10, 0, 3, 0, 0, 0, 1, 0, 0, 0, 42, 7, 0, 0, 0, 99] = Ok (packet_new MPing 3 [42], 21)"
proof -
  have h: "header 1 10 3 1 = [0x54, 0x4E, 0x50, 0x50, 1, 0, 10, 0, 3, 0, 0, 0, 1, 0, 0, 0]" by code_simp
  have c: "to_le 4 (7 :: u32) = [7, 0, 0, 0]" by code_simp
  have "packet_encode (\<lambda>_. 7) (packet_new MPing 3 [42]) = Ok [0x54, 0x4E, 0x50, 0x50, 1, 0, 10, 0, 3, 0, 0, 0, 1, 0, 0, 0, 42, 7, 0, 0, 0]"
    by (simp add: packet_encode_Ok packet_new_def packet_consts h c)
  then show ?thesis
    using packet_codec_exact [of "\<lambda>_. 7" "[0x54, 0x4E, 0x50, 0x50, 1, 0, 10, 0, 3, 0, 0, 0, 1, 0, 0, 0, 42, 7, 0, 0, 0, 99]" "packet_new MPing 3 [42]" 21]
    by (simp add: packet_new_def)
qed

end
