(* ===== verification/Protocol_Channel.thy ===== *)
theory Protocol_Channel
  imports Protocol_Packets
begin

section \<open>Packets over a byte stream (\<open>TnpChannel\<close>)\<close>

text \<open>
  The reader is the list of the outcomes of its coming reads: data of at most 4,096 bytes, a timeout, or a failure.
  An empty read is the end of the stream, and so is the end of the list. The outcome of a write, with the message
  of its failure, is a parameter of \<open>send\<close>.
\<close>

datatype read_outcome = ReadData bytes | ReadTimedOut | ReadFailed string

type_synonym reader = "read_outcome list"

definition send :: "(bytes \<Rightarrow> u32) \<Rightarrow> string option \<Rightarrow> tnp_packet \<Rightarrow> bytes \<Rightarrow> (bytes, tnp_error) result" where
  "send crc failure p written =
     rbind (packet_encode crc p) (\<lambda>encoded.
     case failure of Some msg \<Rightarrow> Err (IoError msg) | None \<Rightarrow> Ok (written @ encoded))"

fun recv :: "(bytes \<Rightarrow> u32) \<Rightarrow> reader \<Rightarrow> bytes \<Rightarrow> (tnp_packet, tnp_error) result \<times> reader \<times> bytes" where
  "recv crc reads buf =
     (case (if buf \<noteq> [] then packet_decode crc buf else Err IncompletePacket) of
        Ok (p, consumed) \<Rightarrow> (Ok p, reads, drop consumed buf)
      | Panic \<Rightarrow> (Panic, reads, buf)
      | Err e \<Rightarrow>
          if e \<noteq> IncompletePacket then (Err e, reads, buf)
          else (case reads of
              [] \<Rightarrow> (Err ConnectionClosed, [], buf)
            | ReadTimedOut # rs \<Rightarrow> (Err TimedOut, rs, buf)
            | ReadFailed msg # rs \<Rightarrow> (Err (IoError msg), rs, buf)
            | ReadData chunk # rs \<Rightarrow>
                if chunk = [] then (Err ConnectionClosed, rs, buf) else recv crc rs (buf @ chunk)))"

declare recv.simps [simp del]

subsection \<open>The pending stream\<close>

definition data :: "reader \<Rightarrow> bytes" where
  "data reads = concat (map (\<lambda>r. case r of ReadData chunk \<Rightarrow> chunk | _ \<Rightarrow> []) reads)"

definition open_reader :: "reader \<Rightarrow> bool" where
  "open_reader reads \<longleftrightarrow> list_all (\<lambda>r. case r of ReadData chunk \<Rightarrow> chunk \<noteq> [] | ReadTimedOut \<Rightarrow> True | ReadFailed _ \<Rightarrow> False) reads"

lemma data_simps [simp]:
  "data [] = []" "data (ReadData c # rs) = c @ data rs" "data (ReadTimedOut # rs) = data rs" "data (ReadFailed m # rs) = data rs"
  by (simp_all add: data_def)

lemma open_reader_simps [simp]:
  "open_reader []" "open_reader (ReadData c # rs) \<longleftrightarrow> c \<noteq> [] \<and> open_reader rs" "open_reader (ReadTimedOut # rs) \<longleftrightarrow> open_reader rs"
  "\<not> open_reader (ReadFailed m # rs)"
  by (simp_all add: open_reader_def)

text \<open>On an open stream a call returns what the decoder says of all pending bytes, and loses none of the rest.\<close>

lemma recv_buffered: "buf \<noteq> [] \<Longrightarrow> packet_decode crc buf = Ok (p, n) \<Longrightarrow> recv crc reads buf = (Ok p, reads, drop n buf)"
  "buf \<noteq> [] \<Longrightarrow> packet_decode crc buf = Err e \<Longrightarrow> e \<noteq> IncompletePacket \<Longrightarrow> recv crc reads buf = (Err e, reads, buf)"
  by (simp_all add: recv.simps [of _ _ buf])

lemma recv_incomplete:
  assumes "packet_decode crc buf = Err IncompletePacket"
  shows "recv crc [] buf = (Err ConnectionClosed, [], buf)" "recv crc (ReadTimedOut # rs) buf = (Err TimedOut, rs, buf)"
    "recv crc (ReadFailed msg # rs) buf = (Err (IoError msg), rs, buf)" "recv crc (ReadData [] # rs) buf = (Err ConnectionClosed, rs, buf)"
    "chunk \<noteq> [] \<Longrightarrow> recv crc (ReadData chunk # rs) buf = recv crc rs (buf @ chunk)"
  using assms by (simp_all add: recv.simps [of crc "_ # _" buf] recv.simps [of crc "[]" buf])

lemma recv_cases:
  obtains (packet) p n where "buf \<noteq> []" "packet_decode crc buf = Ok (p, n)"
  | (invalid) e where "buf \<noteq> []" "packet_decode crc buf = Err e" "e \<noteq> IncompletePacket"
  | (incomplete) "packet_decode crc buf = Err IncompletePacket"
  using packet_decode_not_Panic [of crc buf] by (cases "packet_decode crc buf") (fastforce elim: that)+

definition pending :: "reader \<Rightarrow> bytes \<Rightarrow> bytes" where
  "pending reads buf = buf @ data reads"

text \<open>Every read and every packet taken makes progress.\<close>

definition progress :: "reader \<times> bytes \<Rightarrow> nat" where
  "progress = (\<lambda>(reads, buf). length reads + length (pending reads buf))"

lemma packet_decode_consumes: "packet_decode crc bs = Ok (p, n) \<Longrightarrow> 20 \<le> n \<and> n \<le> length bs"
  using packet_decode_Ok [of crc bs p n] length_packet_encode [of crc p "take n bs"] by auto

lemma packet_decode_not_TimedOut: "packet_decode crc buf \<noteq> Err TimedOut \<and> packet_decode crc buf \<noteq> Err ConnectionClosed"
proof (cases "20 \<le> length buf")
  case True
  then show ?thesis
  proof (cases rule: header_cases)
    case (1 magic r)
    then show ?thesis using True packet_decode_wrong_magic [of magic r crc] by simp
  next
    case (2 v mt sid len32 r)
    then show ?thesis by (cases "message_try_from mt") (auto simp: packet_decode_header message_try_from_def split: if_splits)
  qed
qed (simp add: packet_decode_short)

lemma recv_progress:
  "recv crc reads buf = (r, reads', buf') \<Longrightarrow> is_ok r \<or> r = Err TimedOut \<Longrightarrow> progress (reads', buf') < progress (reads, buf)"
proof (induction reads arbitrary: buf)
  case Nil
  show ?case
  proof (cases rule: recv_cases [of buf crc])
    case (packet p n)
    then show ?thesis using Nil packet_decode_consumes [OF packet(2)] by (auto simp: recv_buffered progress_def pending_def)
  next
    case (invalid e)
    then show ?thesis using Nil packet_decode_not_TimedOut by (auto simp: recv_buffered)
  qed (use Nil in \<open>auto simp: recv_incomplete\<close>)
next
  case (Cons x rs)
  show ?case
  proof (cases rule: recv_cases [of buf crc])
    case (packet p n)
    then show ?thesis using Cons.prems packet_decode_consumes [OF packet(2)] by (auto simp: recv_buffered progress_def pending_def)
  next
    case (invalid e)
    then show ?thesis using Cons.prems packet_decode_not_TimedOut by (auto simp: recv_buffered)
  next
    case incomplete
    show ?thesis
    proof (cases x)
      case (ReadData chunk)
      show ?thesis
      proof (cases "chunk = []")
        case True
        then show ?thesis using Cons.prems incomplete ReadData by (auto simp: recv_incomplete)
      next
        case False
        then have "recv crc rs (buf @ chunk) = (r, reads', buf')" using Cons.prems(1) incomplete ReadData by (simp add: recv_incomplete)
        from Cons.IH [OF this Cons.prems(2)] show ?thesis by (simp add: ReadData progress_def pending_def)
      qed
    qed (use Cons.prems incomplete in \<open>auto simp: recv_incomplete progress_def pending_def\<close>)
  qed
qed

text \<open>The receiving part of the request loop of a server: timeouts are ignored, any other failure ends it. What the
  server does with a packet, and the handshake before the loop, where a timeout is an error, are not part of it.\<close>

function receive_all :: "(bytes \<Rightarrow> u32) \<Rightarrow> reader \<Rightarrow> bytes \<Rightarrow> tnp_packet list \<times> (unit, tnp_error) result" where
  "receive_all crc reads buf =
     (case recv crc reads buf of
        (Ok p, reads, buf) \<Rightarrow> (case receive_all crc reads buf of (ps, e) \<Rightarrow> (p # ps, e))
      | (Panic, _, _) \<Rightarrow> ([], Panic)
      | (Err e, reads, buf) \<Rightarrow> if e = TimedOut then receive_all crc reads buf else ([], Err e))"
  by pat_completeness auto
termination
  by (relation "measure (\<lambda>(crc, reads, buf). progress (reads, buf))") (auto dest: recv_progress [OF sym])

declare receive_all.simps [simp del]

text \<open>Reference: cutting a complete stream into packets.\<close>

function cut :: "(bytes \<Rightarrow> u32) \<Rightarrow> bytes \<Rightarrow> tnp_packet list \<times> (unit, tnp_error) result" where
  "cut crc bs =
     (case packet_decode crc bs of
        Ok (p, n) \<Rightarrow> (case cut crc (drop n bs) of (ps, e) \<Rightarrow> (p # ps, e))
      | Panic \<Rightarrow> ([], Panic)
      | Err e \<Rightarrow> ([], Err (if e = IncompletePacket then ConnectionClosed else e)))"
  by pat_completeness auto
termination
  by (relation "measure (\<lambda>(crc, bs). length bs)") (auto dest: packet_decode_consumes)

declare cut.simps [simp del]

lemma recv_pending:
  assumes "open_reader reads"
  shows "case recv crc reads buf of (r, reads', buf') \<Rightarrow> open_reader reads' \<and>
    (case r of
       Ok p \<Rightarrow> \<exists>n. packet_decode crc (pending reads buf) = Ok (p, n) \<and> pending reads' buf' = drop n (pending reads buf)
     | Panic \<Rightarrow> False
     | Err e \<Rightarrow> if e = TimedOut then pending reads' buf' = pending reads buf
         else if e = ConnectionClosed then packet_decode crc (pending reads buf) = Err IncompletePacket
         else e \<noteq> IncompletePacket \<and> packet_decode crc (pending reads buf) = Err e)"
  using assms
proof (induction reads arbitrary: buf)
  case Nil
  show ?case
  proof (cases rule: recv_cases [of buf crc])
    case (packet p n)
    then show ?thesis by (simp add: recv_buffered pending_def)
  next
    case (invalid e)
    then show ?thesis using packet_decode_not_TimedOut [of crc buf] by (auto simp: recv_buffered pending_def)
  qed (simp add: recv_incomplete pending_def)
next
  case (Cons x rs)
  show ?case
  proof (cases rule: recv_cases [of buf crc])
    case (packet p n)
    then show ?thesis using Cons.prems packet_decode_consumes [OF packet(2)] packet_decode_append [of crc buf "data (x # rs)"]
      by (simp add: recv_buffered pending_def)
  next
    case (invalid e)
    then show ?thesis using Cons.prems packet_decode_append [of crc buf "data (x # rs)"] packet_decode_not_TimedOut [of crc buf]
      by (auto simp: recv_buffered pending_def)
  next
    case incomplete
    show ?thesis
    proof (cases x)
      case (ReadData chunk)
      then have "recv crc (x # rs) buf = recv crc rs (buf @ chunk)" "open_reader rs" "pending (x # rs) buf = pending rs (buf @ chunk)"
        using Cons.prems incomplete by (simp_all add: recv_incomplete pending_def)
      then show ?thesis using Cons.IH [of "buf @ chunk"] by (simp only:)
    qed (use Cons.prems incomplete in \<open>simp_all add: recv_incomplete pending_def\<close>)
  qed
qed

lemma receive_all_cut: "open_reader reads \<Longrightarrow> receive_all crc reads buf = cut crc (pending reads buf)"
proof (induction crc reads buf rule: receive_all.induct)
  case (1 crc reads buf)
  obtain r reads' buf' where R: "recv crc reads buf = (r, reads', buf')" by (metis prod_cases3)
  note spec = recv_pending [OF 1(3), of crc buf, unfolded R prod.case]
  show ?case
  proof (cases r)
    case (Ok p)
    then have "receive_all crc reads' buf' = cut crc (pending reads' buf')" using 1(1) [OF R [symmetric] Ok refl] spec by simp
    then show ?thesis using spec Ok R by (auto simp: receive_all.simps [of crc reads] cut.simps [of crc "pending reads buf"])
  next
    case (Err e)
    show ?thesis
    proof (cases "e = TimedOut")
      case True
      then have "receive_all crc reads' buf' = cut crc (pending reads' buf')" using 1(2) [OF R [symmetric] Err refl True] spec by simp
      then show ?thesis using spec Err R True by (simp add: receive_all.simps [of crc reads])
    next
      case False
      then show ?thesis using spec Err R by (auto simp: receive_all.simps [of crc reads] cut.simps [of crc "pending reads buf"] split: if_splits)
    qed
  qed (use spec in simp)
qed


subsection \<open>Delivery\<close>

lemma fold_send: "fold_result (send crc None) ps written = Ok stream
    \<longleftrightarrow> (\<exists>es. map_result (packet_encode crc) ps = Ok es \<and> stream = written @ concat es)"
  by (induction ps arbitrary: written) (auto simp: send_def result_ok)

lemma cut_encoded: "map_result (packet_encode crc) ps = Ok es \<Longrightarrow> list_all (\<lambda>p. pk_version p = TNP_VERSION) ps
    \<Longrightarrow> cut crc (concat es) = (ps, Err ConnectionClosed)"
proof (induction ps arbitrary: es)
  case Nil
  then show ?case by (simp add: cut.simps)
next
  case (Cons p ps)
  then obtain b bs where e: "packet_encode crc p = Ok b" "map_result (packet_encode crc) ps = Ok bs" "es = b # bs" by (auto simp: result_ok)
  have "packet_decode crc (concat es) = Ok (p, length b)" using packet_decode_encode [OF e(1), of "concat bs"] e(3) Cons.prems(2) by simp
  then show ?case using Cons.IH [OF e(2)] Cons.prems(2) by (simp add: cut.simps [of crc "b @ concat bs"] e(3))
qed

text \<open>C37: Delivery is independent of fragmentation. However the network cuts the stream of bytes into reads, and
  wherever timeouts fall, the receiving loop terminates without panic and yields the same packets and the same
  final error as cutting the complete stream, starting from what the buffer already holds. In particular the
  packets of the current version that one side sends arrive complete, unchanged, in order and once, followed by the
  closing of the connection.\<close>

theorem channel_delivers:
  assumes "open_reader reads"
  shows "receive_all crc reads buf = cut crc (buf @ data reads)
    \<and> snd (receive_all crc reads buf) \<noteq> Panic
    \<and> (fold_result (send crc None) ps [] = Ok (buf @ data reads) \<and> list_all (\<lambda>p. pk_version p = TNP_VERSION) ps
        \<longrightarrow> receive_all crc reads buf = (ps, Err ConnectionClosed))"
proof -
  have "snd (cut crc bs) \<noteq> Panic" for bs
  proof (induction crc bs rule: cut.induct)
    case (1 crc bs)
    then show ?case
      by (cases "packet_decode crc bs") (auto simp: cut.simps [of crc bs] packet_decode_not_Panic split: prod.split, (metis snd_conv)+)
  qed
  then show ?thesis using receive_all_cut [OF assms, of crc buf] cut_encoded [of crc ps] by (auto simp: pending_def fold_send)
qed

theorem channel_delivers_witness:
  "receive_all (\<lambda>_. 7) [ReadData [0x54, 0x4E, 0x50, 0x50, 1, 0, 10], ReadTimedOut, ReadData [0, 3, 0, 0, 0, 1, 0, 0, 0, 42, 7, 0, 0, 0]] []
     = ([packet_new MPing 3 [42]], Err ConnectionClosed)"
proof -
  let ?reads = "[ReadData [0x54, 0x4E, 0x50, 0x50, 1, 0, 10], ReadTimedOut, ReadData [0, 3, 0, 0, 0, 1, 0, 0, 0, 42, 7, 0, 0, 0]]"
  have h: "header 1 10 3 1 = [0x54, 0x4E, 0x50, 0x50, 1, 0, 10, 0, 3, 0, 0, 0, 1, 0, 0, 0]" by code_simp
  have c: "to_le 4 (7 :: u32) = [7, 0, 0, 0]" by code_simp
  have "fold_result (send (\<lambda>_. 7) None) [packet_new MPing 3 [42]] [] = Ok ([] @ data ?reads)"
    by (simp add: send_def packet_encode_Ok packet_new_def packet_consts result_ok h c)
  moreover have "open_reader ?reads" "list_all (\<lambda>p. pk_version p = TNP_VERSION) [packet_new MPing 3 [42]]" by (simp_all add: packet_new_def)
  ultimately show ?thesis using channel_delivers [of ?reads "\<lambda>_. 7" "[]" "[packet_new MPing 3 [42]]"] by blast
qed

end
