(* ===== verification/Protocol_Payloads.thy ===== *)
theory Protocol_Payloads
  imports Protocol_Packets
begin

section \<open>Payloads of the protocol's messages\<close>

text \<open>
  Texts are their UTF-8 bytes. A decoder first compares the length of the payload with the fixed part and then with
  the announced text; the indexing after each comparison is modelled by slices that panic out of range.
\<close>

subsection \<open>Shared steps\<close>

definition put_text :: "bytes \<Rightarrow> bytes" where
  "put_text t = to_le 4 (of_nat (length t) :: u32) @ t"

definition bool_byte :: "bool \<Rightarrow> u8" where
  "bool_byte b = (if b then 1 else 0)"

definition need :: "nat \<Rightarrow> string \<Rightarrow> bytes \<Rightarrow> (unit, tnp_error) result" where
  "need n what bs = (if length bs < n then Err (ProtocolViolation (Truncated what)) else Ok ())"

text \<open>The text of \<open>len\<close> bytes that starts after \<open>fixed\<close> bytes of \<open>bs\<close>, with \<open>reserve\<close> bytes required after it.\<close>

definition take_text :: "nat \<Rightarrow> nat \<Rightarrow> string \<Rightarrow> bytes \<Rightarrow> u32 \<Rightarrow> bytes \<Rightarrow> (bytes \<times> bytes, tnp_error) result" where
  "take_text fixed reserve what bs len r =
     rbind (need (fixed + unat len + reserve) what bs) (\<lambda>_.
     rbind (slice_bytes (unat len) r) (\<lambda>(t, r).
     rbind (from_utf8 (ProtocolViolation InvalidUtf8) t) (\<lambda>t. Ok (t, r))))"

definition text_ok :: "bytes \<Rightarrow> bool" where
  "text_ok t \<longleftrightarrow> utf8_valid t \<and> length t < 2 ^ 32"

lemma need_Ok [simp]: "need n what bs = Ok () \<longleftrightarrow> n \<le> length bs" "need n what bs \<noteq> Panic"
  "n \<le> length bs \<Longrightarrow> need n what bs = Ok ()"
  by (simp_all add: need_def)

lemma take_text_append [simp]:
  assumes "text_ok t" "length bs = fixed + length t + length r" "reserve \<le> length r"
  shows "take_text fixed reserve what bs (of_nat (length t)) (t @ r) = Ok (t, r)"
proof -
  have "unat (of_nat (length t) :: u32) = length t" using assms(1) by (simp add: text_ok_def)
  then show ?thesis using assms by (simp add: take_text_def text_ok_def from_utf8_def)
qed

definition slice_u8 :: "bytes \<Rightarrow> (u8 \<times> bytes, tnp_error) result" where
  "slice_u8 bs = (case bs of [] \<Rightarrow> Panic | b # r \<Rightarrow> Ok (b, r))"

lemma slice_u8_Cons [simp]: "slice_u8 (b # r) = Ok (b, r)"
  by (simp add: slice_u8_def)

text \<open>Decoders do not panic because every length is checked first.\<close>

named_theorems no_panic "introduction rules for steps that do not panic"

lemma need_no_panic [no_panic]: "(n \<le> length bs \<Longrightarrow> f () \<noteq> Panic) \<Longrightarrow> rbind (need n what bs) f \<noteq> Panic"
  by (simp add: need_def)

lemma slice_le_no_panic [no_panic]: "n \<le> length r \<Longrightarrow> f (from_le (take n r), drop n r) \<noteq> Panic \<Longrightarrow> rbind (slice_le n r) f \<noteq> Panic"
  by (simp add: slice_le_def)

lemma slice_u8_no_panic [no_panic]: "1 \<le> length r \<Longrightarrow> f (r ! 0, drop 1 r) \<noteq> Panic \<Longrightarrow> rbind (slice_u8 r) f \<noteq> Panic"
  by (cases r) simp_all

lemma take_text_no_panic [no_panic]:
  assumes "length r + fixed = length bs" "\<And>t r'. reserve \<le> length r' \<Longrightarrow> f (t, r') \<noteq> Panic"
  shows "rbind (take_text fixed reserve what bs len r) f \<noteq> Panic"
  using assms by (auto simp: take_text_def need_def slice_bytes_def from_utf8_def)

lemma length_put_text [simp]: "length (put_text t) = 4 + length t"
  by (simp add: put_text_def)

lemma bool_byte_simps [simp]: "(bool_byte b \<noteq> 0) = b"
  by (simp add: bool_byte_def)

subsection \<open>Handshake\<close>

record handshake_request =
  hq_client_version :: u16
  hq_client_id :: bytes
  hq_capability_flags :: u64

definition handshake_request_encode :: "handshake_request \<Rightarrow> bytes" where
  "handshake_request_encode q = to_le 2 (hq_client_version q) @ put_text (hq_client_id q) @ to_le 8 (hq_capability_flags q)"

definition handshake_request_decode :: "bytes \<Rightarrow> (handshake_request, tnp_error) result" where
  "handshake_request_decode bs =
     rbind (need 6 ''HandshakeRequest'' bs) (\<lambda>_.
     rbind (slice_le 2 bs) (\<lambda>(client_version, r).
     rbind (slice_le 4 r) (\<lambda>(id_len, r).
     rbind (take_text 6 8 ''HandshakeRequest body'' bs id_len r) (\<lambda>(client_id, r).
     rbind (slice_le 8 r) (\<lambda>(capability_flags, _).
     Ok \<lparr>hq_client_version = client_version, hq_client_id = client_id, hq_capability_flags = capability_flags\<rparr>)))))"

record handshake_response =
  hr_success :: bool
  hr_negotiated_version :: u16
  hr_server_id :: bytes
  hr_capability_flags :: u64

definition handshake_response_encode :: "handshake_response \<Rightarrow> bytes" where
  "handshake_response_encode q =
     bool_byte (hr_success q) # to_le 2 (hr_negotiated_version q) @ put_text (hr_server_id q) @ to_le 8 (hr_capability_flags q)"

definition handshake_response_decode :: "bytes \<Rightarrow> (handshake_response, tnp_error) result" where
  "handshake_response_decode bs =
     rbind (need 7 ''HandshakeResponse'' bs) (\<lambda>_.
     rbind (slice_u8 bs) (\<lambda>(success, r).
     rbind (slice_le 2 r) (\<lambda>(negotiated_version, r).
     rbind (slice_le 4 r) (\<lambda>(id_len, r).
     rbind (take_text 7 8 ''HandshakeResponse body'' bs id_len r) (\<lambda>(server_id, r).
     rbind (slice_le 8 r) (\<lambda>(capability_flags, _).
     Ok \<lparr>hr_success = (success \<noteq> 0), hr_negotiated_version = negotiated_version, hr_server_id = server_id,
        hr_capability_flags = capability_flags\<rparr>))))))"

lemma handshake_request_roundtrip: "text_ok (hq_client_id q) \<Longrightarrow> handshake_request_decode (handshake_request_encode q @ r) = Ok q"
  by (simp add: handshake_request_decode_def handshake_request_encode_def put_text_def)

lemma handshake_response_roundtrip: "text_ok (hr_server_id q) \<Longrightarrow> handshake_response_decode (handshake_response_encode q @ r) = Ok q"
  by (simp add: handshake_response_decode_def handshake_response_encode_def put_text_def)

lemma handshake_no_panic: "handshake_request_decode bs \<noteq> Panic" "handshake_response_decode bs \<noteq> Panic"
  unfolding handshake_request_decode_def handshake_response_decode_def by (intro no_panic conjI impI; simp?)+

subsection \<open>Queries and subscriptions\<close>

datatype query_format = Temql | CompactTem | Sql

fun format_byte :: "query_format \<Rightarrow> u8" where
  "format_byte Temql = 1"
| "format_byte CompactTem = 2"
| "format_byte Sql = 3"

definition format_of_byte :: "u8 \<Rightarrow> (query_format, tnp_error) result" where
  "format_of_byte b = (if b = 1 then Ok Temql else if b = 2 then Ok CompactTem else if b = 3 then Ok Sql
     else Err (ProtocolViolation UnknownQueryFormat))"

lemma format_of_byte [simp]: "format_of_byte (format_byte f) = Ok f"
  by (cases f) (simp_all add: format_of_byte_def)

lemma format_no_panic [no_panic]: "(\<And>fm. f fm \<noteq> Panic) \<Longrightarrow> rbind (format_of_byte b) f \<noteq> Panic"
  by (simp add: format_of_byte_def)

record query_request =
  qr_format :: query_format
  qr_query_str :: bytes
  qr_max_rows :: u32

definition query_request_encode :: "query_request \<Rightarrow> bytes" where
  "query_request_encode q = format_byte (qr_format q) # to_le 4 (qr_max_rows q) @ put_text (qr_query_str q)"

definition query_request_decode :: "bytes \<Rightarrow> (query_request, tnp_error) result" where
  "query_request_decode bs =
     rbind (need 9 ''QueryRequest'' bs) (\<lambda>_.
     rbind (slice_u8 bs) (\<lambda>(fm, r).
     rbind (format_of_byte fm) (\<lambda>fm.
     rbind (slice_le 4 r) (\<lambda>(max_rows, r).
     rbind (slice_le 4 r) (\<lambda>(q_len, r).
     rbind (take_text 9 0 ''QueryRequest string'' bs q_len r) (\<lambda>(query_str, _).
     Ok \<lparr>qr_format = fm, qr_query_str = query_str, qr_max_rows = max_rows\<rparr>))))))"

record subscribe_request =
  sq_format :: query_format
  sq_from_sequence :: "u64 option"
  sq_from_now :: bool
  sq_query_str :: bytes

definition subscribe_request_encode :: "subscribe_request \<Rightarrow> bytes" where
  "subscribe_request_encode q = format_byte (sq_format q) # bool_byte (sq_from_now q)
     # to_le 8 (case sq_from_sequence q of None \<Rightarrow> 0 | Some s \<Rightarrow> s) @ put_text (sq_query_str q)"

definition subscribe_request_decode :: "bytes \<Rightarrow> (subscribe_request, tnp_error) result" where
  "subscribe_request_decode bs =
     rbind (need 14 ''SubscribeRequest'' bs) (\<lambda>_.
     rbind (slice_u8 bs) (\<lambda>(fm, r).
     rbind (format_of_byte fm) (\<lambda>fm.
     rbind (slice_u8 r) (\<lambda>(from_now, r).
     rbind (slice_le 8 r) (\<lambda>(from_seq_raw, r).
     rbind (slice_le 4 r) (\<lambda>(q_len, r).
     rbind (take_text 14 0 ''SubscribeRequest string'' bs q_len r) (\<lambda>(query_str, _).
     Ok \<lparr>sq_format = fm, sq_from_sequence = (if from_now \<noteq> 0 then None else Some from_seq_raw), sq_from_now = (from_now \<noteq> 0),
        sq_query_str = query_str\<rparr>)))))))"

record subscribe_response =
  sr_subscription_id :: u64
  sr_success :: bool
  sr_snapshot_start :: u64
  sr_snapshot_end :: u64
  sr_message :: bytes

definition subscribe_response_encode :: "subscribe_response \<Rightarrow> bytes" where
  "subscribe_response_encode q = to_le 8 (sr_subscription_id q) @ [bool_byte (sr_success q)] @ to_le 8 (sr_snapshot_start q)
     @ to_le 8 (sr_snapshot_end q) @ put_text (sr_message q)"

definition subscribe_response_decode :: "bytes \<Rightarrow> (subscribe_response, tnp_error) result" where
  "subscribe_response_decode bs =
     rbind (need 29 ''SubscribeResponse'' bs) (\<lambda>_.
     rbind (slice_le 8 bs) (\<lambda>(subscription_id, r).
     rbind (slice_u8 r) (\<lambda>(success, r).
     rbind (slice_le 8 r) (\<lambda>(snapshot_start, r).
     rbind (slice_le 8 r) (\<lambda>(snapshot_end, r).
     rbind (slice_le 4 r) (\<lambda>(msg_len, r).
     rbind (take_text 29 0 ''SubscribeResponse message'' bs msg_len r) (\<lambda>(message, _).
     Ok \<lparr>sr_subscription_id = subscription_id, sr_success = (success \<noteq> 0), sr_snapshot_start = snapshot_start,
        sr_snapshot_end = snapshot_end, sr_message = message\<rparr>)))))))"

lemma query_request_roundtrip: "text_ok (qr_query_str q) \<Longrightarrow> query_request_decode (query_request_encode q @ r) = Ok q"
  by (simp add: query_request_decode_def query_request_encode_def put_text_def)

text \<open>A start sequence is transmitted exactly if the subscription does not start from now.\<close>

lemma subscribe_request_roundtrip:
  "text_ok (sq_query_str q) \<Longrightarrow> (sq_from_sequence q = None \<longleftrightarrow> sq_from_now q)
    \<Longrightarrow> subscribe_request_decode (subscribe_request_encode q @ r) = Ok q"
  by (cases "sq_from_sequence q") (simp_all add: subscribe_request_decode_def subscribe_request_encode_def put_text_def)

lemma subscribe_request_normalised:
  "text_ok (sq_query_str q) \<Longrightarrow> subscribe_request_decode (subscribe_request_encode q)
     = Ok (q\<lparr>sq_from_sequence := (if sq_from_now q then None else Some (case sq_from_sequence q of None \<Rightarrow> 0 | Some s \<Rightarrow> s))\<rparr>)"
  using take_text_append [where r = "[]"]
  by (cases "sq_from_sequence q") (simp_all add: subscribe_request_decode_def subscribe_request_encode_def put_text_def)

lemma subscribe_response_roundtrip: "text_ok (sr_message q) \<Longrightarrow> subscribe_response_decode (subscribe_response_encode q @ r) = Ok q"
  by (simp add: subscribe_response_decode_def subscribe_response_encode_def put_text_def)

lemma query_no_panic: "query_request_decode bs \<noteq> Panic" "subscribe_request_decode bs \<noteq> Panic" "subscribe_response_decode bs \<noteq> Panic"
  unfolding query_request_decode_def subscribe_request_decode_def subscribe_response_decode_def
  by (intro no_panic conjI impI; simp?)+

subsection \<open>Live events and the end of subscriptions\<close>

record live_event_record =
  le_subscription_id :: u64
  le_sequence :: u64
  le_is_live :: bool
  le_entity_shard :: u32
  le_entity_slot :: u32
  le_entity_generation :: u32
  le_schema :: u32
  le_valid_clock :: u32
  le_valid_time :: u64
  le_known_clock :: u32
  le_known_time :: u64
  le_payload_hex :: bytes

definition live_event_encode :: "live_event_record \<Rightarrow> bytes" where
  "live_event_encode e = to_le 8 (le_subscription_id e) @ to_le 8 (le_sequence e) @ [bool_byte (le_is_live e)]
     @ to_le 4 (le_entity_shard e) @ to_le 4 (le_entity_slot e) @ to_le 4 (le_entity_generation e) @ to_le 4 (le_schema e)
     @ to_le 4 (le_valid_clock e) @ to_le 8 (le_valid_time e) @ to_le 4 (le_known_clock e) @ to_le 8 (le_known_time e)
     @ put_text (le_payload_hex e)"

definition live_event_decode :: "bytes \<Rightarrow> (live_event_record, tnp_error) result" where
  "live_event_decode bs =
     rbind (need 61 ''LiveEventRecord'' bs) (\<lambda>_.
     rbind (slice_le 8 bs) (\<lambda>(subscription_id, r).
     rbind (slice_le 8 r) (\<lambda>(sequence, r).
     rbind (slice_u8 r) (\<lambda>(is_live, r).
     rbind (slice_le 4 r) (\<lambda>(shard, r).
     rbind (slice_le 4 r) (\<lambda>(slt, r).
     rbind (slice_le 4 r) (\<lambda>(generation, r).
     rbind (slice_le 4 r) (\<lambda>(schema, r).
     rbind (slice_le 4 r) (\<lambda>(valid_clock, r).
     rbind (slice_le 8 r) (\<lambda>(valid_time, r).
     rbind (slice_le 4 r) (\<lambda>(known_clock, r).
     rbind (slice_le 8 r) (\<lambda>(known_time, r).
     rbind (slice_le 4 r) (\<lambda>(hex_len, r).
     rbind (take_text 61 0 ''LiveEventRecord payload_hex'' bs hex_len r) (\<lambda>(payload_hex, _).
     Ok \<lparr>le_subscription_id = subscription_id, le_sequence = sequence, le_is_live = (is_live \<noteq> 0), le_entity_shard = shard,
        le_entity_slot = slt, le_entity_generation = generation, le_schema = schema, le_valid_clock = valid_clock,
        le_valid_time = valid_time, le_known_clock = known_clock, le_known_time = known_time, le_payload_hex = payload_hex\<rparr>))))))))))))))"

definition unsubscribe_request_encode :: "u64 \<Rightarrow> bytes" where
  "unsubscribe_request_encode subscription_id = to_le 8 subscription_id"

definition unsubscribe_request_decode :: "bytes \<Rightarrow> (u64, tnp_error) result" where
  "unsubscribe_request_decode bs =
     rbind (need 8 ''UnsubscribeRequest'' bs) (\<lambda>_. rbind (slice_le 8 bs) (\<lambda>(subscription_id, _). Ok subscription_id))"

definition unsubscribe_response_encode :: "u64 \<times> bool \<Rightarrow> bytes" where
  "unsubscribe_response_encode = (\<lambda>(subscription_id, success). to_le 8 subscription_id @ [bool_byte success])"

definition unsubscribe_response_decode :: "bytes \<Rightarrow> (u64 \<times> bool, tnp_error) result" where
  "unsubscribe_response_decode bs =
     rbind (need 9 ''UnsubscribeResponse'' bs) (\<lambda>_.
     rbind (slice_le 8 bs) (\<lambda>(subscription_id, r).
     rbind (slice_u8 r) (\<lambda>(success, _). Ok (subscription_id, success \<noteq> 0))))"

lemma live_event_roundtrip: "text_ok (le_payload_hex e) \<Longrightarrow> live_event_decode (live_event_encode e @ r) = Ok e"
  by (simp add: live_event_decode_def live_event_encode_def put_text_def)

lemma unsubscribe_roundtrip: "unsubscribe_request_decode (unsubscribe_request_encode i @ r) = Ok i"
  "unsubscribe_response_decode (unsubscribe_response_encode x @ r) = Ok x"
  by (simp_all add: unsubscribe_request_decode_def unsubscribe_request_encode_def unsubscribe_response_decode_def
      unsubscribe_response_encode_def split_beta)

lemma live_no_panic: "live_event_decode bs \<noteq> Panic" "unsubscribe_request_decode bs \<noteq> Panic" "unsubscribe_response_decode bs \<noteq> Panic"
  unfolding live_event_decode_def unsubscribe_request_decode_def unsubscribe_response_decode_def
  by (intro no_panic conjI impI; simp?)+

text \<open>Payloads of live events are hexadecimal texts of two digits for a byte.\<close>

definition hex_digit :: "u8 \<Rightarrow> u8" where
  "hex_digit d = (if d < 10 then 48 + d else 87 + d)"

definition hex_encode :: "bytes \<Rightarrow> bytes" where
  "hex_encode bs = concat (map (\<lambda>b. [hex_digit (drop_bit 4 b), hex_digit (b AND 15)]) bs)"

lemma hex_digit_ascii: "d < 16 \<Longrightarrow> hex_digit d < 0x80"
proof -
  assume "d < 16"
  then have "unat d < 16" by (simp add: word_less_nat_alt)
  then have "unat (87 + d) = 87 + unat d" "unat (48 + d) = 48 + unat d" by (simp_all add: unat_word_ariths)
  then show ?thesis using \<open>unat d < 16\<close> by (simp add: hex_digit_def word_less_nat_alt)
qed

lemma nibbles: "drop_bit 4 b < (16 :: u8)" "b AND 15 < (16 :: u8)"
proof -
  have "unat (drop_bit 4 b) = unat b div 16" by (simp add: drop_bit_eq_div unat_div_distrib)
  moreover have "unat b < 256" by (rule unat_bounds)
  ultimately have "unat (drop_bit 4 b) < 16" by linarith
  then show "drop_bit 4 b < (16 :: u8)" by (simp add: word_less_nat_alt)
  have "b AND 15 = take_bit 4 b" by (rule bit_word_eqI) (auto simp: bit_simps bit_numeral_word_iff less_Suc_eq eval_nat_numeral)
  then have "unat (b AND 15) < 2 ^ 4" using take_bit_nat_less_exp [of 4 "unat b"] by (simp add: unsigned_take_bit_eq)
  then show "b AND 15 < (16 :: u8)" by (simp add: word_less_nat_alt)
qed

lemma length_hex_encode: "length (hex_encode bs) = 2 * length bs"
  by (induction bs) (simp_all add: hex_encode_def)

lemma hex_encode_text_ok: "length bs < 2 ^ 31 \<Longrightarrow> text_ok (hex_encode bs)"
  unfolding text_ok_def
  by (intro conjI utf8_valid_ascii) (auto simp: hex_encode_def list_all_iff hex_digit_ascii nibbles length_hex_encode [unfolded hex_encode_def])

text \<open>C38: Payloads are transmitted faithfully. Every message whose texts are UTF-8 and shorter than 4 GiB is decoded
  from its encoding to itself, whatever follows it, and no byte string makes a decoder panic; the hexadecimal
  text of a payload below 2 GiB, which the server puts into a live event, is such a text. The exception is the
  subscription request, which survives exactly if it either starts from now and gives no start sequence or gives
  a start sequence and does not start from now: any other is changed on the way.\<close>

theorem payloads_roundtrip:
  "(text_ok (hq_client_id a) \<longrightarrow> handshake_request_decode (handshake_request_encode a @ r) = Ok a)
    \<and> (text_ok (hr_server_id b) \<longrightarrow> handshake_response_decode (handshake_response_encode b @ r) = Ok b)
    \<and> (text_ok (qr_query_str c) \<longrightarrow> query_request_decode (query_request_encode c @ r) = Ok c)
    \<and> (text_ok (sq_query_str d) \<longrightarrow>
        (subscribe_request_decode (subscribe_request_encode d) = Ok d \<longleftrightarrow> (sq_from_sequence d = None \<longleftrightarrow> sq_from_now d)))
    \<and> (text_ok (sr_message e) \<longrightarrow> subscribe_response_decode (subscribe_response_encode e @ r) = Ok e)
    \<and> (text_ok (le_payload_hex f) \<longrightarrow> live_event_decode (live_event_encode f @ r) = Ok f)
    \<and> (length pl < 2 ^ 31 \<longrightarrow> text_ok (hex_encode pl))
    \<and> unsubscribe_request_decode (unsubscribe_request_encode i @ r) = Ok i
    \<and> unsubscribe_response_decode (unsubscribe_response_encode x @ r) = Ok x
    \<and> handshake_request_decode r \<noteq> Panic \<and> handshake_response_decode r \<noteq> Panic \<and> query_request_decode r \<noteq> Panic
    \<and> subscribe_request_decode r \<noteq> Panic \<and> subscribe_response_decode r \<noteq> Panic \<and> live_event_decode r \<noteq> Panic
    \<and> unsubscribe_request_decode r \<noteq> Panic \<and> unsubscribe_response_decode r \<noteq> Panic"
proof -
  have "subscribe_request_decode (subscribe_request_encode d) = Ok d \<longleftrightarrow> (sq_from_sequence d = None \<longleftrightarrow> sq_from_now d)" if "text_ok (sq_query_str d)"
    unfolding subscribe_request_normalised [OF that] by (cases d) (auto split: option.splits)
  then show ?thesis
    by (simp add: live_event_roundtrip hex_encode_text_ok handshake_request_roundtrip handshake_response_roundtrip query_request_roundtrip subscribe_response_roundtrip unsubscribe_roundtrip
        handshake_no_panic query_no_panic live_no_panic)
qed

definition sample_event :: live_event_record where
  "sample_event = \<lparr>le_subscription_id = 1, le_sequence = 2, le_is_live = True, le_entity_shard = 3, le_entity_slot = 4,
     le_entity_generation = 5, le_schema = 6, le_valid_clock = 7, le_valid_time = 8, le_known_clock = 9, le_known_time = 10, le_payload_hex = []\<rparr>"

theorem payloads_roundtrip_witness:
  "live_event_decode (live_event_encode (sample_event\<lparr>le_payload_hex := [48, 97]\<rparr>)) = Ok (sample_event\<lparr>le_payload_hex := [48, 97]\<rparr>)
    \<and> query_request_decode (query_request_encode \<lparr>qr_format = Sql, qr_query_str = [120], qr_max_rows = 1\<rparr>)
        = Ok \<lparr>qr_format = Sql, qr_query_str = [120], qr_max_rows = 1\<rparr>"
proof -
  have h: "hex_encode [10] = [48, 97]" by code_simp
  show ?thesis
    using payloads_roundtrip [of undefined "[]" undefined "\<lparr>qr_format = Sql, qr_query_str = [120], qr_max_rows = 1\<rparr>" undefined undefined "sample_event\<lparr>le_payload_hex := hex_encode [10]\<rparr>" "[10]" undefined undefined]
    by (simp add: h text_ok_def utf8_width_def utf8_tail_def)
qed

end
