(* ===== verification/Query_Exec.thy ===== *)
theory Query_Exec
  imports Query_Expr Store_Queries Causal_Trace Index_Boxes
begin

section \<open>Plans and their execution (\<open>temnion-query\<close>)\<close>

text \<open>
  A logical plan is translated to a physical one; a storage scan is executed as one page of the store's history,
  whose events are filtered by the expression and projected. A range of the standard library is the pair of its
  ends; the fields of a row are a map from names to values.
\<close>

datatype causal_direction = Causes | Effects

record row_budget =
  qb_max_rows :: "usize option"
  qb_max_events_scanned :: "usize option"
  qb_max_bytes :: "usize option"

definition row_budget_default :: row_budget where
  "row_budget_default = \<lparr>qb_max_rows = Some 1000, qb_max_events_scanned = Some 100000, qb_max_bytes = Some (64 * 1024 * 1024)\<rparr>"

definition row_budget_unlimited :: row_budget where
  "row_budget_unlimited = \<lparr>qb_max_rows = None, qb_max_events_scanned = None, qb_max_bytes = None\<rparr>"

type_synonym names = "nat list list"

datatype logical_plan =
    Scan "entity_id option" "schema_id option" "(timestamp \<times> timestamp) option" "timestamp option" "expr option" "names option" "usize option"
  | CausalTrace event_id causal_direction "usize option" "usize option"
  | SpatialScan "bounding_box_2d option" "bounding_box_3d option" "(timestamp \<times> timestamp) option" "expr option" "usize option"

datatype physical_plan =
    StorageScan "entity_id option" "(timestamp \<times> timestamp) option" "timestamp option" "expr option" "names option" "usize option" bool bool
  | CausalWalk event_id causal_direction usize "usize option"
  | SpatialIndexLookup "(u64 \<times> u64) list" "usize option"

fun plan_query :: "logical_plan \<Rightarrow> (physical_plan, query_error) result" where
  "plan_query (Scan entity schema valid_range known_as_of flt projection limit) =
     Ok (StorageScan entity valid_range known_as_of flt projection limit (valid_range \<noteq> None) (entity \<noteq> None))"
| "plan_query (CausalTrace origin direction max_depth limit) =
     Ok (CausalWalk origin direction (case max_depth of Some d \<Rightarrow> d | None \<Rightarrow> 16) limit)"
| "plan_query (SpatialScan bbox_2d bbox_3d valid_range flt limit) =
     rbind (case bbox_2d of
         None \<Rightarrow> Ok [(0, - 1)]
       | Some bbox \<Rightarrow> (case grid_new 16 of Ok chunker \<Rightarrow> morton_intervals_2d bbox chunker | _ \<Rightarrow> Ok [(0, - 1)])) (\<lambda>intervals.
     Ok (SpatialIndexLookup intervals limit))"

subsection \<open>Rows\<close>

fun decimal :: "nat \<Rightarrow> nat list" where
  "decimal n = (if n < 10 then [48 + n] else decimal (n div 10) @ [48 + n mod 10])"

declare decimal.simps [simp del]

record query_row =
  qr_entity :: entity_id
  qr_schema :: schema_id
  qr_valid_time :: timestamp
  qr_known_time :: timestamp
  qr_sequence :: u64
  qr_fields :: row_fields

definition entity_text :: "entity_id \<Rightarrow> nat list" where
  "entity_text e = decimal (unat (ent_shard e)) @ points '':'' @ decimal (unat (ent_slot e)) @ points '':'' @ decimal (unat (ent_generation e))"

definition event_fields :: "stored_event \<Rightarrow> row_fields" where
  "event_fields e = [points ''entity'' \<mapsto> LString (entity_text (se_entity e)), points ''schema'' \<mapsto> LInt (ucast (se_schema e)),
     points ''valid_time'' \<mapsto> LInt (ts_ticks (et_valid (se_times e))), points ''known_time'' \<mapsto> LInt (ts_ticks (et_known (se_times e))),
     points ''sequence'' \<mapsto> LInt (eid_sequence (se_id e))]"

definition match_and_project_event :: "expr option \<Rightarrow> names option \<Rightarrow> stored_event \<Rightarrow> (query_row option, query_error) result" where
  "match_and_project_event flt projection e =
     (let fds = event_fields e in
      rbind (case flt of None \<Rightarrow> Ok True | Some pred \<Rightarrow> rbind (evaluate fds pred) (\<lambda>v. Ok (v = LBool True))) (\<lambda>keep.
      if \<not> keep then Ok None else
      Ok (Some \<lparr>qr_entity = se_entity e, qr_schema = se_schema e, qr_valid_time = et_valid (se_times e), qr_known_time = et_known (se_times e),
        qr_sequence = eid_sequence (se_id e),
        qr_fields = (case projection of None \<Rightarrow> fds | Some proj \<Rightarrow> fds |` set proj)\<rparr>)))"

record query_result =
  res_rows :: "query_row list"
  res_events_scanned :: usize
  res_bytes_read :: usize
  res_truncated :: bool

subsection \<open>Storage scans\<close>

definition history_filter_of :: "entity_id option \<Rightarrow> (timestamp \<times> timestamp) option \<Rightarrow> timestamp option \<Rightarrow> (history_filter, query_error) result" where
  "history_filter_of entity valid_range known_as_of =
     rbind (case valid_range of
         None \<Rightarrow> Ok None
       | Some (start, stop) \<Rightarrow> (case time_range_new (ts_clock start) (ts_ticks start) (ts_ticks stop) of
           Ok tr \<Rightarrow> Ok (Some (Valid, tr)) | Err e \<Rightarrow> Err (ExecutionError (ExecRange e)) | Panic \<Rightarrow> Panic)) (\<lambda>time.
     Ok \<lparr>hf_entity = entity, hf_time = time, hf_known_as_of = known_as_of\<rparr>)"

definition target_limit :: "usize option \<Rightarrow> row_budget \<Rightarrow> usize" where
  "target_limit limit b =
     max (min (case limit of Some n \<Rightarrow> n | None \<Rightarrow> 2 ^ 64 - 1) (case qb_max_rows b of Some n \<Rightarrow> n | None \<Rightarrow> 2 ^ 64 - 1)) 1"

definition storage_budget_of :: "usize option \<Rightarrow> row_budget \<Rightarrow> storage_query_budget" where
  "storage_budget_of limit b =
     \<lparr>sb_max_results = target_limit limit b,
      sb_max_scanned = max (case qb_max_events_scanned b of Some n \<Rightarrow> n | None \<Rightarrow> 65536) 1,
      sb_max_read_bytes = max (case qb_max_bytes b of Some n \<Rightarrow> n | None \<Rightarrow> 64 * 1024 * 1024) 1024\<rparr>"

fun scan_rows :: "expr option \<Rightarrow> names option \<Rightarrow> usize \<Rightarrow> query_row list \<Rightarrow> stored_event list \<Rightarrow> (query_row list, query_error) result" where
  "scan_rows flt projection target rows [] = Ok rows"
| "scan_rows flt projection target rows (e # es) =
     rbind (match_and_project_event flt projection e) (\<lambda>r. case r of
       None \<Rightarrow> scan_rows flt projection target rows es
     | Some row \<Rightarrow> if length (rows @ [row]) \<ge> target then Ok (rows @ [row]) else scan_rows flt projection target (rows @ [row]) es)"

definition store_history_page :: "(storage_page, storage_error) result option \<Rightarrow> (storage_page, query_error) result option" where
  "store_history_page r = map_option (\<lambda>r. case r of Ok p \<Rightarrow> Ok p | Err e \<Rightarrow> Err (ExecutionError (ExecStorage e)) | Panic \<Rightarrow> Panic) r"

definition execute_storage_scan :: "(bytes \<Rightarrow> u32) \<Rightarrow> (usize \<Rightarrow> bool) \<Rightarrow> directory \<Rightarrow> store \<Rightarrow> bytes \<Rightarrow> physical_plan \<Rightarrow> row_budget
    \<Rightarrow> (query_result, query_error) result option" where
  "execute_storage_scan crc alloc segs s wal plan b = (case plan of
     StorageScan entity valid_range known_as_of pushdown_filter projection limit use_zone_maps use_bloom \<Rightarrow>
       pbind (Some (history_filter_of entity valid_range known_as_of)) (\<lambda>f.
       pbind (store_history_page (store_history crc alloc segs s wal f (storage_budget_of limit b) None)) (\<lambda>page.
       Some (rbind (scan_rows pushdown_filter projection (target_limit limit b) [] (sp_events page)) (\<lambda>rows.
       Ok \<lparr>res_rows = rows, res_events_scanned = sp_scanned page, res_bytes_read = sp_bytes_read page,
          res_truncated = (sp_continuation page \<noteq> None)\<rparr>))))
   | _ \<Rightarrow> Some (Err (Unsupported ''execute_storage_scan requires PhysicalPlan::StorageScan'')))"

definition execute_causal_walk :: "causal_graph \<Rightarrow> physical_plan \<Rightarrow> row_budget \<Rightarrow> (event_id list, query_error) result" where
  "execute_causal_walk g plan b = (case plan of
     CausalWalk origin direction max_depth limit \<Rightarrow>
       (let target = min (case limit of Some n \<Rightarrow> n | None \<Rightarrow> 2 ^ 64 - 1) (case qb_max_rows b of Some n \<Rightarrow> n | None \<Rightarrow> 2 ^ 64 - 1);
            trace = (case direction of Causes \<Rightarrow> trace_causes g origin max_depth | Effects \<Rightarrow> trace_effects g origin max_depth)
        in Ok (if length (ct_events trace) > target then take target (ct_events trace) else ct_events trace))
   | _ \<Rightarrow> Err (Unsupported ''execute_causal_walk requires PhysicalPlan::CausalWalk''))"

subsection \<open>Exactness of a scan\<close>

text \<open>The page holds at most as many events as rows are wanted, so the early exit never cuts off a row.\<close>

lemma scan_rows_exact: "length rows + length es \<le> target \<Longrightarrow> scan_rows flt projection target rows es
    = rbind (map_result (match_and_project_event flt projection) es) (\<lambda>rs. Ok (rows @ List.map_filter id rs))"
proof (induction es arbitrary: rows)
  case (Cons e es)
  show ?case
  proof (cases "match_and_project_event flt projection e")
    case (Ok r)
    show ?thesis
    proof (cases r)
      case (Some row)
      show ?thesis
      proof (cases "length (rows @ [row]) \<ge> target")
        case True
        then have "es = []" using Cons.prems by (cases es) simp_all
        then show ?thesis by (simp add: Ok Some map_filter_simps)
      next
        case False
        have "length (rows @ [row]) + length es \<le> target" using Cons.prems by simp
        from Cons.IH [OF this] show ?thesis using False
          by (cases "map_result (match_and_project_event flt projection) es") (simp_all add: Ok Some map_filter_simps)
      qed
    next
      case None
      have "length rows + length es \<le> target" using Cons.prems by simp
      from Cons.IH [OF this] show ?thesis
        by (cases "map_result (match_and_project_event flt projection) es") (simp_all add: Ok None map_filter_simps)
    qed
  qed simp_all
qed (simp add: map_filter_simps)

lemma evaluate_not_Panic: "evaluate fds e \<noteq> Panic"
proof (induction e)
  case (Binary bop l r)
  have "apply_op bop a b \<noteq> Panic" for a b by (cases bop; cases a; cases b) simp_all
  then show ?case using Binary by (simp add: rbind_eq_Panic)
qed (simp_all add: rbind_eq_Panic split: literal.splits)

lemma match_not_Panic: "match_and_project_event flt projection e \<noteq> Panic"
  by (simp add: match_and_project_event_def Let_def rbind_eq_Panic evaluate_not_Panic split: option.splits)

lemma storage_scan_spec:
  assumes create: "store_create crc False False (Some db) source epoch l = Ok (s0, w0)" "wf_database_id db"
    and run: "run_ops (append_step crc alloc) (s0, w0) ops = (rs, s, wal)" "\<forall>(oc, batch) \<in> set ops. length batch < 2 ^ 64" "\<not> st_poisoned s"
    and mem: "\<forall>n. alloc' n" and fit: "fits_budget crc (storage_budget_of limit b) (acked (st_header s0) 0 ops rs)"
    and f: "history_filter_of entity valid_range known_as_of = Ok f" and clock: "clock_agrees f (concat (acked (st_header s0) 0 ops rs))"
  shows "\<exists>k scanned bytes_read. k \<le> length (concat (acked (st_header s0) 0 ops rs))
     \<and> (concat (acked (st_header s0) 0 ops rs) \<noteq> [] \<longrightarrow> 0 < k)
     \<and> length (filter (stored_keeps f) (take k (concat (acked (st_header s0) 0 ops rs)))) \<le> target_limit limit b
     \<and> execute_storage_scan crc alloc' segs s wal (StorageScan entity valid_range known_as_of flt projection limit zm bl) b
       = Some (rbind (map_result (match_and_project_event flt projection) (filter (stored_keeps f) (take k (concat (acked (st_header s0) 0 ops rs)))))
           (\<lambda>rows. Ok \<lparr>res_rows = List.map_filter id rows, res_events_scanned = scanned, res_bytes_read = bytes_read,
              res_truncated = (k < length (concat (acked (st_header s0) 0 ops rs)))\<rparr>))
     \<and> execute_storage_scan crc alloc' segs s wal (StorageScan entity valid_range known_as_of flt projection limit zm bl) b \<noteq> Some Panic"
proof -
  let ?log = "concat (acked (st_header s0) 0 ops rs)"
  obtain k page where h: "store_history crc alloc' segs s wal f (storage_budget_of limit b) None = Some (Ok page)"
    and k: "k \<le> length ?log" "0 < length ?log \<longrightarrow> 0 < k"
    and ev: "sp_events page = filter (stored_keeps f) (slice ?log 0 k)" and n: "length (sp_events page) \<le> sb_max_results (storage_budget_of limit b)"
    and c: "sp_continuation page = (if k < length ?log then Some (cursor_at (st_header s0) f k (length ?log)) else None)"
    using store_history_spec [OF reachable_inv [OF create run] mem fit clock _ _ disjI2, of 0 "length ?log" None segs] by auto
  have take: "slice ?log 0 k = take k ?log" by (simp add: slice_def)
  have n': "length [] + length (sp_events page) \<le> target_limit limit b" using n by (simp add: storage_budget_of_def)
  have exec: "execute_storage_scan crc alloc' segs s wal (StorageScan entity valid_range known_as_of flt projection limit zm bl) b
       = Some (rbind (map_result (match_and_project_event flt projection) (filter (stored_keeps f) (take k ?log)))
           (\<lambda>rows. Ok \<lparr>res_rows = List.map_filter id rows, res_events_scanned = sp_scanned page, res_bytes_read = sp_bytes_read page,
              res_truncated = (k < length ?log)\<rparr>))"
    using scan_rows_exact [OF n', of flt projection]
    by (cases "map_result (match_and_project_event flt projection) (filter (stored_keeps f) (take k ?log))")
      (simp_all add: execute_storage_scan_def f store_history_page_def h ev take c)
  moreover have "map_result (match_and_project_event flt projection) (filter (stored_keeps f) (take k ?log)) \<noteq> Panic"
    by (rule map_result_not_Panic) (rule match_not_Panic)
  ultimately have "execute_storage_scan crc alloc' segs s wal (StorageScan entity valid_range known_as_of flt projection limit zm bl) b \<noteq> Some Panic"
    by (simp add: rbind_eq_Panic)
  then show ?thesis using exec k n' ev take by (intro exI [of _ k] exI [of _ "sp_scanned page"] exI [of _ "sp_bytes_read page"] conjI) simp_all
qed

text \<open>C35: A query answers from exactly the beginning of the log that one page of history reaches. On a live store
  after any sequence of appends, with memory available and budgets that fit every frame, executing a storage scan
  terminates without panic. A reversed range is reported as the range error. A knowledge cutoff on another clock than
  the log's is refused as a clock mismatch. Otherwise there is a prefix of the log, nonempty unless the log is empty,
  such that the rows are, in order, the projections of exactly those of its events that lie in the plan's entity,
  range and knowledge cutoff and satisfy the expression; an evaluation error is reported exactly if one of these
  events raises it; and the answer is marked as truncated exactly if the prefix is not the whole log.\<close>

theorem storage_scan_exact:
  assumes create: "store_create crc False False (Some db) source epoch l = Ok (s0, w0)" "wf_database_id db"
    and run: "run_ops (append_step crc alloc) (s0, w0) ops = (rs, s, wal)" "\<forall>(oc, batch) \<in> set ops. length batch < 2 ^ 64" "\<not> st_poisoned s"
    and mem: "\<forall>n. alloc' n" and fit: "fits_budget crc (storage_budget_of limit b) (acked (st_header s0) 0 ops rs)"
  shows "case history_filter_of entity valid_range known_as_of of
      Panic \<Rightarrow> False
    | Err e \<Rightarrow> execute_storage_scan crc alloc' segs s wal (StorageScan entity valid_range known_as_of flt projection limit zm bl) b = Some (Err e)
    | Ok f \<Rightarrow>
        if clock_agrees f (concat (acked (st_header s0) 0 ops rs)) then
          \<exists>k scanned bytes_read. k \<le> length (concat (acked (st_header s0) 0 ops rs))
           \<and> (concat (acked (st_header s0) 0 ops rs) \<noteq> [] \<longrightarrow> 0 < k)
           \<and> length (filter (stored_keeps f) (take k (concat (acked (st_header s0) 0 ops rs)))) \<le> target_limit limit b
           \<and> execute_storage_scan crc alloc' segs s wal (StorageScan entity valid_range known_as_of flt projection limit zm bl) b
             = Some (rbind (map_result (match_and_project_event flt projection) (filter (stored_keeps f) (take k (concat (acked (st_header s0) 0 ops rs)))))
                 (\<lambda>rows. Ok \<lparr>res_rows = List.map_filter id rows, res_events_scanned = scanned, res_bytes_read = bytes_read,
                    res_truncated = (k < length (concat (acked (st_header s0) 0 ops rs)))\<rparr>))
           \<and> execute_storage_scan crc alloc' segs s wal (StorageScan entity valid_range known_as_of flt projection limit zm bl) b \<noteq> Some Panic
        else \<exists>known cutoff. known \<noteq> cutoff
           \<and> execute_storage_scan crc alloc' segs s wal (StorageScan entity valid_range known_as_of flt projection limit zm bl) b
             = Some (Err (ExecutionError (ExecStorage (StKnownClockMismatch known cutoff))))"
proof (cases "history_filter_of entity valid_range known_as_of")
  case (Ok f)
  show ?thesis
  proof (cases "clock_agrees f (concat (acked (st_header s0) 0 ops rs))")
    case True
    then show ?thesis using storage_scan_spec [OF create run mem fit Ok True] by (simp add: Ok)
  next
    case False
    obtain known cutoff where "known \<noteq> cutoff"
      "store_history crc alloc' segs s wal f (storage_budget_of limit b) None = Some (Err (StKnownClockMismatch known cutoff))"
      using known_clock_refused [OF reachable_inv [OF create run] fit False] by blast
    then show ?thesis using False by (auto simp: Ok execute_storage_scan_def store_history_page_def)
  qed
next
  case (Err e)
  then show ?thesis by (simp add: execute_storage_scan_def)
next
  case Panic
  then show ?thesis by (simp add: history_filter_of_def time_range_new_def rbind_eq_Panic split: option.splits prod.splits if_splits)
qed

lemma points_distinct: "points ''entity'' \<noteq> points ''schema''" "points ''sequence'' \<noteq> points ''entity''"
  "points ''sequence'' \<noteq> points ''schema''" "points ''sequence'' \<noteq> points ''valid_time''" "points ''sequence'' \<noteq> points ''known_time''"
  by (simp_all add: points_def)

theorem storage_scan_exact_witness:
  "\<exists>res. execute_storage_scan (\<lambda>_. 5) (\<lambda>_. True) (\<lambda>_. None)
       (index_batch (\<lambda>_. 5) sample_records (fresh_store sample_header limits_default 0))
       (encode_wal_header (\<lambda>_. 5) sample_header @ batch_bytes (\<lambda>_. 5) sample_records)
       (StorageScan None None None (Some (Binary OpEq (Field (points ''sequence'')) (Lit (LInt 0)))) None (Some 1) False False) row_budget_default
     = Some (Ok res) \<and> map qr_sequence (res_rows res) = [0] \<and> \<not> res_truncated res"
proof -
  obtain receipt where run: "run_ops (append_step (\<lambda>_. 5) (\<lambda>_. True)) (fresh_store sample_header limits_default 0, encode_wal_header (\<lambda>_. 5) sample_header)
       [(Written, [sample_write])]
     = ([Ok receipt], index_batch (\<lambda>_. 5) sample_records (fresh_store sample_header limits_default 0),
        encode_wal_header (\<lambda>_. 5) sample_header @ batch_bytes (\<lambda>_. 5) sample_records)" using sample_append by blast
  have ack: "acked sample_header 0 [(Written, [sample_write])] [Ok receipt] = [sample_records]" by (simp add: sample_records_def)
  have len: "length sample_records = 1" "length (batch_bytes (\<lambda>_. 5) sample_records) \<le> 1000"
    by (simp_all add: sample_records_def length_batch_bytes record_bytes_length to_record_def sample_write_def)
  have f: "history_filter_of None None None = Ok \<lparr>hf_entity = None, hf_time = None, hf_known_as_of = None\<rparr>" by (simp add: history_filter_of_def)
  have fit: "fits_budget (\<lambda>_. 5) (storage_budget_of (Some 1) row_budget_default) [sample_records]"
    using len by (simp add: fits_budget_def storage_budget_of_def target_limit_def row_budget_default_def)
  have clock: "clock_agrees \<lparr>hf_entity = None, hf_time = None, hf_known_as_of = None\<rparr> (concat [sample_records])" by (simp add: clock_agrees_def)
  have c: "wf_database_id (replicate 16 0)" "\<forall>(oc, batch) \<in> set [(Written, [sample_write])]. length batch < 2 ^ 64"
    "\<not> st_poisoned (index_batch (\<lambda>_. 5) sample_records (fresh_store sample_header limits_default 0))" "\<forall>n. (\<lambda>_. True) n"
    by (simp_all add: wf_database_id_def)
  let ?flt = "Some (Binary OpEq (Field (points ''sequence'')) (Lit (LInt 0)))"
  obtain e where e: "sample_records = [e]" "eid_sequence (se_id e) = 0" by (simp add: sample_records_def to_record_def)
  have m: "match_and_project_event ?flt None e = Ok (Some \<lparr>qr_entity = se_entity e, qr_schema = se_schema e,
      qr_valid_time = et_valid (se_times e), qr_known_time = et_known (se_times e), qr_sequence = 0, qr_fields = event_fields e\<rparr>)"
    using e(2) by (simp add: match_and_project_event_def event_fields_def points_distinct)
  obtain k sc br where k: "k \<le> 1" "0 < k" and x: "execute_storage_scan (\<lambda>_. 5) (\<lambda>_. True) (\<lambda>_. None)
       (index_batch (\<lambda>_. 5) sample_records (fresh_store sample_header limits_default 0))
       (encode_wal_header (\<lambda>_. 5) sample_header @ batch_bytes (\<lambda>_. 5) sample_records)
       (StorageScan None None None ?flt None (Some 1) False False) row_budget_default
     = Some (rbind (map_result (match_and_project_event ?flt None) (filter (stored_keeps \<lparr>hf_entity = None, hf_time = None, hf_known_as_of = None\<rparr>) (take k sample_records)))
           (\<lambda>rows. Ok \<lparr>res_rows = List.map_filter id rows, res_events_scanned = sc, res_bytes_read = br, res_truncated = (k < 1)\<rparr>))"
    using storage_scan_exact [where entity = None and valid_range = None and known_as_of = None and segs = "\<lambda>_. None" and flt = ?flt
        and projection = None and zm = False and bl = False, OF sample_create c(1) run c(2-4), unfolded fresh_store_simps ack, OF fit] len e(1) clock
    unfolding f result.case by auto
  have "k = 1" using k by simp
  then show ?thesis unfolding x by (simp add: e(1) stored_keeps_def m map_filter_simps)
qed

end
