(* ===== verification/Protocol_Hub.thy ===== *)
theory Protocol_Hub
  imports Protocol_Payloads Query_Exec Replay_Engine
begin

section \<open>Live subscriptions and columnar batches (\<open>temnion-protocol\<close>)\<close>

text \<open>
  The hub keeps, for every subscriber, a filter and a bounded queue shared with the receiver, which may have been
  dropped. Each subscriber is served independently, so the order in which the hash map is visited does not matter
  and the map is represented by a sorted one. The mutex is never poisoned, since dispatching does not panic.
\<close>

definition CHANNEL_CAPACITY :: nat where "CHANNEL_CAPACITY = 1024"

record subscription =
  su_filter :: "expr option"
  su_queue :: "live_event_record list"
  su_connected :: bool

record hub =
  hb_next_id :: u64
  hb_subscribers :: "(u64, subscription) btree"

definition hub_new :: hub where
  "hub_new = \<lparr>hb_next_id = 1, hb_subscribers = []\<rparr>"

definition register :: "expr option \<Rightarrow> hub \<Rightarrow> u64 \<times> hub" where
  "register flt h =
     (hb_next_id h, h\<lparr>hb_next_id := hb_next_id h + 1,
        hb_subscribers := bt_insert (hb_next_id h) \<lparr>su_filter = flt, su_queue = [], su_connected = True\<rparr> (hb_subscribers h)\<rparr>)"

definition unregister :: "u64 \<Rightarrow> hub \<Rightarrow> bool \<times> hub" where
  "unregister i h = (bt_get (hb_subscribers h) i \<noteq> None, h\<lparr>hb_subscribers := bt_remove i (hb_subscribers h)\<rparr>)"

definition live_record :: "u64 \<Rightarrow> stored_event \<Rightarrow> live_event_record" where
  "live_record i e =
     \<lparr>le_subscription_id = i, le_sequence = eid_sequence (se_id e), le_is_live = True, le_entity_shard = ent_shard (se_entity e),
      le_entity_slot = ent_slot (se_entity e), le_entity_generation = ent_generation (se_entity e), le_schema = se_schema e,
      le_valid_clock = ts_clock (et_valid (se_times e)), le_valid_time = ts_ticks (et_valid (se_times e)),
      le_known_clock = ts_clock (et_known (se_times e)), le_known_time = ts_ticks (et_known (se_times e)),
      le_payload_hex = hex_encode (se_payload e)\<rparr>"

text \<open>\<open>try_send\<close> on a bounded channel: nothing is enqueued when the queue is full, and the error is ignored.\<close>

definition try_send :: "live_event_record \<Rightarrow> subscription \<Rightarrow> subscription" where
  "try_send r su = (if length (su_queue su) < CHANNEL_CAPACITY then su\<lparr>su_queue := su_queue su @ [r]\<rparr> else su)"

text \<open>The events offered to one subscriber, and whether its receiver turned out to be gone.\<close>

fun deliver :: "u64 \<Rightarrow> stored_event list \<Rightarrow> subscription \<Rightarrow> subscription \<times> bool" where
  "deliver i [] su = (su, False)"
| "deliver i (e # es) su =
     (case match_and_project_event (su_filter su) None e of
        Ok (Some _) \<Rightarrow> if \<not> su_connected su then (su, True) else deliver i es (try_send (live_record i e) su)
      | _ \<Rightarrow> deliver i es su)"

definition dispatch_events :: "stored_event list \<Rightarrow> hub \<Rightarrow> hub" where
  "dispatch_events events h =
     (if events = [] then h else
      let served = map (\<lambda>(i, su). (i, deliver i events su)) (hb_subscribers h);
          disconnected = map fst (filter (\<lambda>(_, _, gone). gone) served)
      in h\<lparr>hb_subscribers := fold bt_remove disconnected (map (\<lambda>(i, su, _). (i, su)) served)\<rparr>)"

text \<open>The receiver's side: taking the next record, and going away.\<close>

definition try_recv :: "u64 \<Rightarrow> hub \<Rightarrow> live_event_record option \<times> hub" where
  "try_recv i h = (case bt_get (hb_subscribers h) i of
       Some su \<Rightarrow> (case su_queue su of
           [] \<Rightarrow> (None, h)
         | r # rs \<Rightarrow> (Some r, h\<lparr>hb_subscribers := bt_insert i (su\<lparr>su_queue := rs\<rparr>) (hb_subscribers h)\<rparr>))
     | None \<Rightarrow> (None, h))"

definition drop_receiver :: "u64 \<Rightarrow> hub \<Rightarrow> hub" where
  "drop_receiver i h = (case bt_get (hb_subscribers h) i of
       Some su \<Rightarrow> h\<lparr>hb_subscribers := bt_insert i (su\<lparr>su_connected := False\<rparr>) (hb_subscribers h)\<rparr>
     | None \<Rightarrow> h)"

inductive hub_reach :: "hub \<Rightarrow> bool" where
  start: "hub_reach hub_new"
| registered: "hub_reach h \<Longrightarrow> hub_reach (snd (register flt h))"
| unregistered: "hub_reach h \<Longrightarrow> hub_reach (snd (unregister i h))"
| dispatched: "hub_reach h \<Longrightarrow> hub_reach (dispatch_events events h)"
| received: "hub_reach h \<Longrightarrow> hub_reach (snd (try_recv i h))"
| dropped: "hub_reach h \<Longrightarrow> hub_reach (drop_receiver i h)"

subsection \<open>What a dispatch does\<close>

definition wanted :: "expr option \<Rightarrow> stored_event \<Rightarrow> bool" where
  "wanted flt e \<longleftrightarrow> (\<exists>row. match_and_project_event flt None e = Ok (Some row))"

definition served :: "u64 \<Rightarrow> stored_event list \<Rightarrow> subscription \<Rightarrow> subscription option" where
  "served i events su =
     (if su_connected su
      then Some (su\<lparr>su_queue := take CHANNEL_CAPACITY (su_queue su @ map (live_record i) (filter (wanted (su_filter su)) events))\<rparr>)
      else if list_ex (wanted (su_filter su)) events then None else Some su)"

definition hub_inv :: "hub \<Rightarrow> bool" where
  "hub_inv h \<longleftrightarrow> bt_wf (hb_subscribers h) \<and> (\<forall>i su. bt_get (hb_subscribers h) i = Some su \<longrightarrow> length (su_queue su) \<le> CHANNEL_CAPACITY)"

lemma deliver_Cons:
  "deliver i (e # es) su = (if wanted (su_filter su) e
     then if \<not> su_connected su then (su, True) else deliver i es (try_send (live_record i e) su) else deliver i es su)"
  by (auto simp: wanted_def split: result.splits option.splits)

lemma try_send_fields [simp]: "su_filter (try_send r su) = su_filter su" "su_connected (try_send r su) = su_connected su"
  by (simp_all add: try_send_def)

lemma try_send_take: "length (su_queue su) \<le> CHANNEL_CAPACITY \<Longrightarrow> try_send r su = su\<lparr>su_queue := take CHANNEL_CAPACITY (su_queue su @ [r])\<rparr>"
  by (cases "length (su_queue su) = CHANNEL_CAPACITY") (simp_all add: try_send_def)

lemma take_append_take: "take n (take n xs @ ys) = take n (xs @ ys)"
  by (simp add: min_def)

lemma deliver_served:
  "length (su_queue su) \<le> CHANNEL_CAPACITY \<Longrightarrow> (if snd (deliver i es su) then None else Some (fst (deliver i es su))) = served i es su"
proof (induction es arbitrary: su)
  case Nil
  then show ?case by (simp add: served_def)
next
  case (Cons e es)
  show ?case
  proof (cases "wanted (su_filter su) e")
    case True
    show ?thesis
    proof (cases "su_connected su")
      case c: True
      have q: "length (su_queue (try_send (live_record i e) su)) \<le> CHANNEL_CAPACITY" using Cons.prems by (simp add: try_send_take)
      have "served i es (try_send (live_record i e) su) = served i (e # es) su"
        using Cons.prems True c take_append_take [of CHANNEL_CAPACITY "su_queue su @ [live_record i e]"]
        by (simp add: served_def try_send_take)
      then show ?thesis using Cons.IH [OF q] True c by (auto simp: deliver_Cons simp del: deliver.simps split: if_splits)
    qed (use True in \<open>simp add: deliver_Cons served_def del: deliver.simps\<close>)
  next
    case False
    have "served i (e # es) su = served i es su" using False by (simp add: served_def)
    then show ?thesis using Cons.IH [OF Cons.prems] False by (auto simp: deliver_Cons simp del: deliver.simps split: if_splits)
  qed
qed

lemma bt_get_fold_remove: "bt_get (fold bt_remove is m) i = (if i \<in> set is then None else bt_get m i)"
  by (induction "is" arbitrary: m) (auto simp: bt_get_remove)

lemma bt_wf_fold_remove: "bt_wf m \<Longrightarrow> bt_wf (fold bt_remove is m)"
  by (induction "is" arbitrary: m) (auto simp: bt_wf_remove)

lemma bt_get_map_values: "bt_get (map (\<lambda>(i, v). (i, f i v)) m) k = map_option (f k) (bt_get m k)"
  by (induction m) (auto simp: bt_get_def)

lemma gone_iff: "i \<in> set (map fst (filter (\<lambda>(_, _, gone). gone) (map (\<lambda>(i, su). (i, deliver i events su)) m)))
    \<longleftrightarrow> (\<exists>su. (i, su) \<in> set m \<and> snd (deliver i events su))"
  by (induction m) (auto split: prod.splits)

lemma dispatch_get:
  assumes "hub_inv h"
  shows "bt_get (hb_subscribers (dispatch_events events h)) i = Option.bind (bt_get (hb_subscribers h) i) (served i events)"
proof (cases "events = []")
  case True
  then show ?thesis using assms
    by (cases "bt_get (hb_subscribers h) i") (auto simp: dispatch_events_def served_def hub_inv_def)
next
  case False
  let ?m = "map (\<lambda>(i, su). (i, deliver i events su)) (hb_subscribers h)"
  have wf: "bt_wf (hb_subscribers h)" using assms by (simp add: hub_inv_def)
  have gone: "i \<in> set (map fst (filter (\<lambda>(_, _, gone). gone) ?m)) \<longleftrightarrow> (\<exists>su. bt_get (hb_subscribers h) i = Some su \<and> snd (deliver i events su))"
    unfolding gone_iff bt_get_iff [OF wf] by (rule refl)
  have m: "map (\<lambda>(i, su, _). (i, su)) ?m = map (\<lambda>(i, su). (i, fst (deliver i events su))) (hb_subscribers h)"
    by (simp add: split_beta)
  have d: "bt_get (hb_subscribers (dispatch_events events h)) i
      = (if i \<in> set (map fst (filter (\<lambda>(_, _, gone). gone) ?m)) then None else bt_get (map (\<lambda>(i, su). (i, fst (deliver i events su))) (hb_subscribers h)) i)"
    using False unfolding dispatch_events_def Let_def m [symmetric] by (simp add: bt_get_fold_remove)
  show ?thesis
  proof (cases "bt_get (hb_subscribers h) i")
    case None
    then show ?thesis unfolding d gone by (simp add: bt_get_map_values)
  next
    case (Some su)
    then have "length (su_queue su) \<le> CHANNEL_CAPACITY" using assms by (simp add: hub_inv_def)
    from deliver_served [OF this, of i events] show ?thesis unfolding d gone bt_get_map_values Some by auto
  qed
qed

lemma served_queue: "length (su_queue su) \<le> CHANNEL_CAPACITY \<Longrightarrow> served i events su = Some su' \<Longrightarrow> length (su_queue su') \<le> CHANNEL_CAPACITY"
  by (auto simp: served_def split: if_splits)

lemma hub_inv_dispatch: "hub_inv h \<Longrightarrow> hub_inv (dispatch_events events h)"
proof -
  assume inv: "hub_inv h"
  then have wf: "bt_wf (hb_subscribers h)" by (simp add: hub_inv_def)
  let ?m = "map (\<lambda>(i, su, _). (i, su)) (map (\<lambda>(i, su). (i, deliver i events su)) (hb_subscribers h))"
  have "map fst ?m = map fst (hb_subscribers h)" by (simp add: split_beta comp_def)
  then have "bt_wf ?m" using wf unfolding bt_wf_def by (simp only:)
  then have "bt_wf (hb_subscribers (dispatch_events events h))"
    using wf unfolding dispatch_events_def Let_def by (simp add: bt_wf_fold_remove del: map_map)
  then show ?thesis using inv served_queue by (fastforce simp: hub_inv_def dispatch_get [OF inv] bind_eq_Some_conv)
qed

lemma hub_reach_inv: "hub_reach h \<Longrightarrow> hub_inv h"
proof (induction rule: hub_reach.induct)
  case (received h i)
  then show ?case
    by (auto simp: hub_inv_def try_recv_def split: option.splits list.splits) fastforce+
qed (auto simp: hub_inv_def hub_new_def register_def unregister_def drop_receiver_def bt_get_remove bt_wf_remove
    hub_inv_dispatch [unfolded hub_inv_def] split: option.splits if_splits)

lemma served_served:
  "Option.bind (served i es su) (served i fs) = served i (es @ fs) su"
proof (cases "su_connected su")
  case True
  let ?r = "map (live_record i) \<circ> filter (wanted (su_filter su))"
  show ?thesis using True take_append_take [of CHANNEL_CAPACITY "su_queue su @ ?r es" "?r fs"]
    by (simp add: served_def del: take_append)
qed (auto simp: served_def)

lemma dispatch_all_get:
  "hub_inv h \<Longrightarrow> bt_get (hb_subscribers (fold dispatch_events commits h)) i
    = Option.bind (bt_get (hb_subscribers h) i) (served i (concat commits))"
proof (induction commits arbitrary: h)
  case Nil
  then show ?case by (cases "bt_get (hb_subscribers h) i") (auto simp: served_def hub_inv_def)
next
  case (Cons c commits)
  have "bt_get (hb_subscribers (fold dispatch_events commits (dispatch_events c h))) i
      = Option.bind (bt_get (hb_subscribers (dispatch_events c h)) i) (served i (concat commits))"
    by (rule Cons.IH) (rule hub_inv_dispatch [OF Cons.prems])
  also have "\<dots> = Option.bind (bt_get (hb_subscribers h) i) (\<lambda>su. Option.bind (served i c su) (served i (concat commits)))"
    by (simp add: dispatch_get [OF Cons.prems] bind_assoc)
  finally show ?case by (simp add: served_served)
qed

text \<open>C39: Live delivery is exact up to the capacity of a subscriber's queue. From any hub built by its operations, after
  any sequence of commits, the queue of a subscriber whose receiver is alive holds what it held, followed by the
  records of exactly the committed events that satisfy its filter, in commit order and once each, cut off at 1,024
  records: what does not fit is dropped without an error. A subscriber whose receiver is gone is removed by the first
  matching event and otherwise stays; nobody else is affected. A new subscriber starts with an empty queue.\<close>

theorem hub_delivers:
  assumes "hub_reach h"
  shows "bt_get (hb_subscribers (fold dispatch_events commits h)) i
      = (case bt_get (hb_subscribers h) i of
           None \<Rightarrow> None
         | Some su \<Rightarrow>
             if su_connected su
             then Some (su\<lparr>su_queue := take CHANNEL_CAPACITY (su_queue su @ map (live_record i) (filter (wanted (su_filter su)) (concat commits)))\<rparr>)
             else if list_ex (wanted (su_filter su)) (concat commits) then None else Some su)
    \<and> bt_get (hb_subscribers (fold dispatch_events commits (snd (register flt h)))) (fst (register flt h))
      = Some \<lparr>su_filter = flt, su_queue = take CHANNEL_CAPACITY (map (live_record (fst (register flt h))) (filter (wanted flt) (concat commits))),
          su_connected = True\<rparr>"
  using dispatch_all_get [OF hub_reach_inv [OF assms], of commits i]
    dispatch_all_get [OF hub_reach_inv [OF hub_reach.registered [OF assms, of flt]], of commits "fst (register flt h)"]
  by (auto simp: served_def register_def split: option.splits)

theorem hub_delivers_witness:
  "\<exists>e. bt_get (hb_subscribers (fold dispatch_events [[e], []] (snd (register None hub_new)))) 1
      = Some \<lparr>su_filter = None, su_queue = [live_record 1 e], su_connected = True\<rparr>"
proof -
  have "wanted None e" for e by (simp add: wanted_def match_and_project_event_def Let_def)
  then show ?thesis using conjunct2 [OF hub_delivers [OF hub_reach.start, of "[[undefined], []]" undefined None]]
    by (auto simp: register_def hub_new_def CHANNEL_CAPACITY_def)
qed

subsection \<open>The snapshot of a subscription\<close>

text \<open>Before live events, a subscription replays the events already stored from its start sequence on. It runs the
  scan with as many rows as the interval is long, keeps those in the interval, and ignores an error.\<close>

definition snapshot_bounds :: "bool \<Rightarrow> u64 option \<Rightarrow> u64 \<Rightarrow> u64 \<times> u64" where
  "snapshot_bounds from_now from_sequence len =
     (if from_now then (len, len) else (min (case from_sequence of Some s \<Rightarrow> s | None \<Rightarrow> 0) len, len))"

definition snapshot_record :: "u64 \<Rightarrow> query_row \<Rightarrow> live_event_record" where
  "snapshot_record i row =
     \<lparr>le_subscription_id = i, le_sequence = qr_sequence row, le_is_live = False, le_entity_shard = ent_shard (qr_entity row),
      le_entity_slot = ent_slot (qr_entity row), le_entity_generation = ent_generation (qr_entity row), le_schema = qr_schema row,
      le_valid_clock = ts_clock (qr_valid_time row), le_valid_time = ts_ticks (qr_valid_time row),
      le_known_clock = ts_clock (qr_known_time row), le_known_time = ts_ticks (qr_known_time row), le_payload_hex = []\<rparr>"

definition snapshot_budget :: "u64 \<Rightarrow> u64 \<Rightarrow> row_budget" where
  "snapshot_budget start stop =
     \<lparr>qb_max_rows = Some (unat (stop - start)), qb_max_events_scanned = Some 65536, qb_max_bytes = Some (32 * 1024 * 1024)\<rparr>"

definition replay_snapshot :: "(bytes \<Rightarrow> u32) \<Rightarrow> (usize \<Rightarrow> bool) \<Rightarrow> directory \<Rightarrow> store \<Rightarrow> bytes \<Rightarrow> physical_plan \<Rightarrow> u64 \<Rightarrow> u64 \<Rightarrow> u64
    \<Rightarrow> (live_event_record list, query_error) result option" where
  "replay_snapshot crc alloc segs s wal physical i start stop =
     (if start < stop
      then map_option (\<lambda>r. case r of
             Ok res \<Rightarrow> Ok (map (snapshot_record i) (filter (\<lambda>row. start \<le> qr_sequence row \<and> qr_sequence row < stop) (res_rows res)))
           | Err _ \<Rightarrow> Ok []
           | Panic \<Rightarrow> Panic)
         (execute_storage_scan crc alloc segs s wal physical (snapshot_budget start stop))
      else Some (Ok []))"

lemma filter_numbered:
  assumes "numbered xs" "k \<le> length xs" "unat a < length xs"
  shows "filter (\<lambda>e. a \<le> eid_sequence (se_id e) \<and> eid_sequence (se_id e) < of_nat (length xs)) (take k xs) = slice xs (unat a) k"
  using assms(2)
proof (induction k)
  case 0
  then show ?case by (simp add: slice_def)
next
  case (Suc k)
  have l: "length xs < 2 ^ 64" using assms(1) by (simp add: numbered_def)
  then have u: "unat (of_nat k :: u64) = k" "unat (of_nat (length xs) :: u64) = length xs" using Suc.prems by simp_all
  have sq: "eid_sequence (se_id (xs ! k)) = of_nat k" using assms(1) Suc.prems by (simp add: numbered_def)
  have t: "take (Suc k) xs = take k xs @ [xs ! k]" using Suc.prems by (simp add: take_Suc_conv_app_nth)
  have "a \<le> of_nat k \<longleftrightarrow> unat a \<le> k" "(of_nat k :: u64) < of_nat (length xs)"
    unfolding word_le_nat_alt word_less_nat_alt u using Suc.prems by simp_all
  moreover have "slice xs (unat a) (Suc k) = (if unat a \<le> k then slice xs (unat a) k @ [xs ! k] else [])"
    using Suc.prems by (simp add: slice_def Suc_diff_le take_Suc_conv_app_nth)
  moreover have "slice xs (unat a) k = []" if "\<not> unat a \<le> k" using that by (simp add: slice_def)
  ultimately show ?case using Suc unfolding t by (auto simp: sq)
qed

definition full_row :: "stored_event \<Rightarrow> query_row" where
  "full_row e = \<lparr>qr_entity = se_entity e, qr_schema = se_schema e, qr_valid_time = et_valid (se_times e), qr_known_time = et_known (se_times e),
     qr_sequence = eid_sequence (se_id e), qr_fields = event_fields e\<rparr>"

lemma match_everything: "match_and_project_event None None e = Ok (Some (full_row e))"
  by (simp add: match_and_project_event_def full_row_def Let_def)

lemma match_everything_all: "map_result (match_and_project_event None None) es = Ok (map (Some \<circ> full_row) es)"
  by (rule map_result_Ok) (simp add: match_everything)

lemma map_filter_id_Some: "List.map_filter id (map (Some \<circ> f) xs) = map f xs"
  by (induction xs) (simp_all add: map_filter_simps)

lemma slice_sequences: "numbered xs \<Longrightarrow> k \<le> length xs \<Longrightarrow> map (\<lambda>e. eid_sequence (se_id e)) (slice xs a k) = map of_nat [a..<k]"
  by (rule nth_equalityI) (auto simp: slice_def numbered_def)

text \<open>C40: The replay of a subscription loses events. Subscribe without a filter to a live store that holds \<open>n\<close> events, from
  a sequence \<open>a\<close> below \<open>n\<close>. Only \<open>n - a\<close> rows are requested, and they are taken from the beginning of the log: the
  replay consists of the events from \<open>a\<close> up to some \<open>k\<close> that is at most \<open>n - a\<close>. The events from there to \<open>n\<close> are
  missing although the response announces them, and if \<open>a\<close> is not in the first half of the log, nothing is replayed.\<close>

theorem snapshot_replay_loses_events:
  assumes create: "store_create crc False False (Some db) source epoch l = Ok (s0, w0)" "wf_database_id db"
    and run: "run_ops (append_step crc alloc) (s0, w0) ops = (rs, s, wal)" "\<forall>(oc, batch) \<in> set ops. length batch < 2 ^ 64" "\<not> st_poisoned s"
    and mem: "\<forall>n. alloc' n" and a: "unat a < length (concat (acked (st_header s0) 0 ops rs))"
    and fit: "fits_budget crc (storage_budget_of None (snapshot_budget a (store_len s))) (acked (st_header s0) 0 ops rs)"
  shows "snapshot_bounds False (Some a) (store_len s) = (a, of_nat (length (concat (acked (st_header s0) 0 ops rs))))
    \<and> (\<exists>k evs. k \<le> length (concat (acked (st_header s0) 0 ops rs)) - unat a
        \<and> replay_snapshot crc alloc' segs s wal (StorageScan None None None None None None False False) i a (store_len s) = Some (Ok evs)
        \<and> map le_sequence evs = map of_nat [unat a..<k])"
proof -
  let ?log = "concat (acked (st_header s0) 0 ops rs)" and ?f = "\<lparr>hf_entity = None, hf_time = None, hf_known_as_of = None\<rparr>"
  let ?b = "snapshot_budget a (store_len s)"
  note inv = reachable_inv [OF create run]
  have num: "numbered ?log" by (rule log_numbered [OF inv])
  have l64: "length ?log < 2 ^ 64" using num by (simp add: numbered_def)
  have len: "store_len s = of_nat (length ?log)" using store_inv_next [OF inv] by (simp add: store_len_def)
  have ul: "unat (of_nat (length ?log) :: u64) = length ?log" using l64 by simp
  have lt: "a < of_nat (length ?log)" unfolding word_less_nat_alt ul by (rule a)
  have bounds: "snapshot_bounds False (Some a) (store_len s) = (a, of_nat (length ?log))"
    using less_imp_le [OF lt] by (simp add: snapshot_bounds_def len min_def)
  have "unat (of_nat (length ?log) - a) = length ?log - unat a" using lt ul by (simp add: unat_sub)
  then have target: "target_limit None ?b = length ?log - unat a"
    using a l64 by (simp add: target_limit_def snapshot_budget_def len)
  have f: "history_filter_of None None None = Ok ?f" by (simp add: history_filter_of_def)
  have keep: "filter (stored_keeps ?f) xs = xs" for xs by (simp add: stored_keeps_def)
  obtain k sc br where k: "k \<le> length ?log" "length (take k ?log) \<le> target_limit None ?b"
    and x: "execute_storage_scan crc alloc' segs s wal (StorageScan None None None None None None False False) ?b
      = Some (Ok \<lparr>res_rows = map full_row (take k ?log), res_events_scanned = sc, res_bytes_read = br, res_truncated = (k < length ?log)\<rparr>)"
    using storage_scan_spec [OF create run mem fit f, of segs None None False False]
    unfolding keep match_everything_all rbind.simps map_filter_id_Some by (auto simp: clock_agrees_def)
  let ?evs = "map (snapshot_record i) (filter (\<lambda>row. a \<le> qr_sequence row \<and> qr_sequence row < of_nat (length ?log)) (map full_row (take k ?log)))"
  have replay: "replay_snapshot crc alloc' segs s wal (StorageScan None None None None None None False False) i a (store_len s) = Some (Ok ?evs)"
    using lt x by (simp add: replay_snapshot_def len)
  have "map le_sequence ?evs = map (\<lambda>e. eid_sequence (se_id e)) (filter (\<lambda>e. a \<le> eid_sequence (se_id e) \<and> eid_sequence (se_id e) < of_nat (length ?log)) (take k ?log))"
    by (simp add: filter_map comp_def full_row_def snapshot_record_def)
  also have "\<dots> = map of_nat [unat a..<k]" unfolding filter_numbered [OF num k(1) a] by (rule slice_sequences [OF num k(1)])
  finally have sequences: "map le_sequence ?evs = map of_nat [unat a..<k]" .
  have "k \<le> length ?log - unat a" using k target by simp
  then show ?thesis using replay sequences by (intro conjI [OF bounds] exI [of _ k] exI [of _ ?evs] conjI)
qed

text \<open>A store of two events.\<close>

definition two_writes :: "write_event list" where
  "two_writes = [sample_write, sample_write]"

definition two_records :: "stored_event list" where
  "two_records = stamp sample_header 0 two_writes"

lemma two_append:
  "\<exists>receipt. run_ops (append_step (\<lambda>_. 5) (\<lambda>_. True)) (fresh_store sample_header limits_default 0, encode_wal_header (\<lambda>_. 5) sample_header)
       [(Written, two_writes)]
     = ([Ok receipt], index_batch (\<lambda>_. 5) two_records (fresh_store sample_header limits_default 0),
        encode_wal_header (\<lambda>_. 5) sample_header @ batch_bytes (\<lambda>_. 5) two_records)"
proof -
  let ?s = "fresh_store sample_header limits_default 0" and ?w = "encode_wal_header (\<lambda>_. 5) sample_header"
  have inv: "store_inv (\<lambda>_. 5) sample_header limits_default 0 [] ?s ?w"
    by (simp add: store_inv_def log_bytes_def sample_header_def wf_database_id_def)
  have v: "validate_record sample_header 0 None (to_record sample_header 0 sample_write) = Ok ()"
    "validate_record sample_header 1 (Some (et_known (we_times sample_write))) (to_record sample_header 1 sample_write) = Ok ()"
    by (simp_all add: validate_record_def to_record_def sample_write_def)
  have ok: "batch_ok (\<lambda>_. 5) ?s (stamp sample_header (st_next_sequence ?s) two_writes)"
    using v by (simp add: two_writes_def batch_ok_def batch_within_def record_within_def length_batch_bytes record_bytes_length limits_default_def
        to_record_def sample_write_def checked_add_def)
  have ad: "admit sample_header (st_next_sequence ?s) 0 (st_last_known ?s) two_writes
      = Ok (stamp sample_header (st_next_sequence ?s) two_writes, Some (et_known (we_times sample_write)))"
    using v by (simp add: two_writes_def add_or_panic_def checked_add_def Let_def to_record_def)
  obtain receipt where "store_append (\<lambda>_. 5) (\<lambda>_. True) Written two_writes ?s ?w
     = (Ok receipt, index_batch (\<lambda>_. 5) two_records ?s, ?w @ batch_bytes (\<lambda>_. 5) two_records)"
    using store_append_Written [OF inv _ _ _ _ ok ad, of "\<lambda>_. True"] by (auto simp: limits_default_def two_records_def two_writes_def)
  then show ?thesis by (simp add: run_ops.simps append_step_def)
qed

theorem snapshot_replay_loses_events_witness:
  "replay_snapshot (\<lambda>_. 5) (\<lambda>_. True) (\<lambda>_. None) (index_batch (\<lambda>_. 5) two_records (fresh_store sample_header limits_default 0))
      (encode_wal_header (\<lambda>_. 5) sample_header @ batch_bytes (\<lambda>_. 5) two_records)
      (StorageScan None None None None None None False False) 7 1 (store_len (index_batch (\<lambda>_. 5) two_records (fresh_store sample_header limits_default 0)))
    = Some (Ok []) \<and> length two_records = 2"
proof -
  obtain receipt where run: "run_ops (append_step (\<lambda>_. 5) (\<lambda>_. True)) (fresh_store sample_header limits_default 0, encode_wal_header (\<lambda>_. 5) sample_header)
       [(Written, two_writes)]
     = ([Ok receipt], index_batch (\<lambda>_. 5) two_records (fresh_store sample_header limits_default 0),
        encode_wal_header (\<lambda>_. 5) sample_header @ batch_bytes (\<lambda>_. 5) two_records)" using two_append by blast
  have ack: "acked sample_header 0 [(Written, two_writes)] [Ok receipt] = [two_records]" by (simp add: two_records_def)
  have len: "length two_records = 2" by (simp add: two_records_def two_writes_def)
  have bl: "length (batch_bytes (\<lambda>_. 5) two_records) \<le> 1000"
    by (simp add: two_records_def two_writes_def length_batch_bytes record_bytes_length to_record_def sample_write_def)
  have fit: "fits_budget (\<lambda>_. 5) (storage_budget_of None (snapshot_budget 1 n)) [two_records]" for n
    using len bl by (simp add: fits_budget_def storage_budget_of_def target_limit_def snapshot_budget_def)
  have c: "wf_database_id (replicate 16 0)" "\<forall>(oc, batch) \<in> set [(Written, two_writes)]. length batch < 2 ^ 64"
    "\<not> st_poisoned (index_batch (\<lambda>_. 5) two_records (fresh_store sample_header limits_default 0))" "\<forall>n. (\<lambda>_. True) n"
    by (simp_all add: wf_database_id_def two_writes_def)
  have a: "unat (1 :: u64) < length (concat [two_records])" by (simp add: len)
  show ?thesis
    using snapshot_replay_loses_events [OF sample_create c(1) run c(2-4), unfolded fresh_store_simps ack, OF a fit, of "\<lambda>_. None" 7]
    by (auto simp: len)
qed

end
