(* ===== verification/Protocol_Columns.thy ===== *)
theory Protocol_Columns
  imports Query_Exec
begin

section \<open>Columnar batches and handles (\<open>temnion-protocol\<close>)\<close>

text \<open>Rows are handed to analytical clients as parallel columns, and open objects as numbers.\<close>

subsection \<open>Columns\<close>

record columnar_batch =
  cb_length :: usize
  cb_entity_shards :: "u32 list"
  cb_entity_slots :: "u32 list"
  cb_entity_generations :: "u32 list"
  cb_valid_timestamps :: "u64 list"
  cb_known_timestamps :: "u64 list"
  cb_sequences :: "u64 list"
  cb_schema_ids :: "u32 list"

definition from_query_rows :: "query_row list \<Rightarrow> columnar_batch" where
  "from_query_rows rows =
     \<lparr>cb_length = length rows,
      cb_entity_shards = map (ent_shard \<circ> qr_entity) rows,
      cb_entity_slots = map (ent_slot \<circ> qr_entity) rows,
      cb_entity_generations = map (ent_generation \<circ> qr_entity) rows,
      cb_valid_timestamps = map (ts_ticks \<circ> qr_valid_time) rows,
      cb_known_timestamps = map (ts_ticks \<circ> qr_known_time) rows,
      cb_sequences = map qr_sequence rows,
      cb_schema_ids = map qr_schema rows\<rparr>"

definition row_at :: "columnar_batch \<Rightarrow> nat \<Rightarrow> (query_row, unit) result" where
  "row_at b i =
     rbind (index (cb_entity_shards b) i) (\<lambda>shard.
     rbind (index (cb_entity_slots b) i) (\<lambda>slt.
     rbind (index (cb_entity_generations b) i) (\<lambda>generation.
     rbind (index (cb_valid_timestamps b) i) (\<lambda>valid.
     rbind (index (cb_known_timestamps b) i) (\<lambda>known.
     rbind (index (cb_sequences b) i) (\<lambda>sequence.
     rbind (index (cb_schema_ids b) i) (\<lambda>schema.
     Ok \<lparr>qr_entity = \<lparr>ent_shard = shard, ent_slot = slt, ent_generation = generation\<rparr>, qr_schema = schema,
        qr_valid_time = \<lparr>ts_clock = 1, ts_ticks = valid\<rparr>, qr_known_time = \<lparr>ts_clock = 1, ts_ticks = known\<rparr>,
        qr_sequence = sequence, qr_fields = Map.empty\<rparr>)))))))"

definition to_query_rows :: "columnar_batch \<Rightarrow> (query_row list, unit) result" where
  "to_query_rows b = map_result (row_at b) [0..<cb_length b]"

text \<open>What the columns keep of a row: everything but the clocks, which become clock 1, and the fields.\<close>

definition columns_keep :: "query_row \<Rightarrow> query_row" where
  "columns_keep r = r\<lparr>qr_valid_time := (qr_valid_time r)\<lparr>ts_clock := 1\<rparr>, qr_known_time := (qr_known_time r)\<lparr>ts_clock := 1\<rparr>, qr_fields := Map.empty\<rparr>"

lemma columns_roundtrip: "to_query_rows (from_query_rows rows) = Ok (map columns_keep rows)"
proof -
  have "row_at (from_query_rows rows) i = Ok (columns_keep (rows ! i))" if "i \<in> set [0..<length rows]" for i
    using that by (simp add: row_at_def from_query_rows_def index_def columns_keep_def)
  then have "map_result (row_at (from_query_rows rows)) [0..<length rows] = Ok (map (\<lambda>i. columns_keep (rows ! i)) [0..<length rows])"
    by (rule map_result_Ok)
  also have "map (\<lambda>i. columns_keep (rows ! i)) [0..<length rows] = map columns_keep rows" by (rule nth_equalityI) simp_all
  finally show ?thesis by (simp add: to_query_rows_def from_query_rows_def)
qed

subsection \<open>Handles\<close>

record 'a handle_registry =
  rg_next_id :: u64
  rg_items :: "(u64, 'a) btree"

definition registry_default :: "'a handle_registry" where
  "registry_default = \<lparr>rg_next_id = 1, rg_items = []\<rparr>"

definition registry_insert :: "'a \<Rightarrow> 'a handle_registry \<Rightarrow> u64 \<times> 'a handle_registry" where
  "registry_insert item r = (rg_next_id r, r\<lparr>rg_next_id := rg_next_id r + 1, rg_items := bt_insert (rg_next_id r) item (rg_items r)\<rparr>)"

definition registry_get :: "u64 \<Rightarrow> 'a handle_registry \<Rightarrow> 'a option" where
  "registry_get i r = bt_get (rg_items r) i"

definition registry_remove :: "u64 \<Rightarrow> 'a handle_registry \<Rightarrow> bool \<times> 'a handle_registry" where
  "registry_remove i r = (bt_get (rg_items r) i \<noteq> None, r\<lparr>rg_items := bt_remove i (rg_items r)\<rparr>)"

lemma registry_get_insert:
  "registry_get j (snd (registry_insert x r)) = (if j = fst (registry_insert x r) then Some x else registry_get j r)"
  by (simp add: registry_get_def registry_insert_def)

lemma registry_get_remove: "registry_get j (snd (registry_remove i r)) = (if j = i then None else registry_get j r)"
  by (simp add: registry_get_def registry_remove_def bt_get_remove)

end
