(* ===== verification/Spec2Isabelle.thy ===== *)
theory Spec2Isabelle
  imports State_Slab Event_Log Codec_Select Causal_Trace Causal_Topo Causal_Csr Wal_Segment
    Runtime_Shards Runtime_Tasks Runtime_Tiers Index_Segment Index_Boxes Index_Projection_Codec
    Store_Compaction Schema_Exact Replay_Exact Branch_Timeline Eks_Provenance Eks_Ledger Query_Grammar
    Protocol_Channel Protocol_Hub Protocol_Columns
begin

text \<open>
  \<^bold>\<open>Verification of Temnion, an embedded database of timed, causally linked events.\<close>

  Temnion is a Rust workspace. An application writes events about entities; every event has an identity
  (source, epoch, sequence) and up to three times (valid, observed, known). Events are kept in a volatile
  log or in a durable write-ahead log, exported to immutable segments, indexed, compressed, and queried by
  entity and time. This development models the crates below at the level of their functions and states what
  makes them correct. The names of the definitions are those of the code where HOL permits it; a name that
  several Rust types share carries a prefix.

  \<^bold>\<open>Conventions.\<close>
  \<^item> \<open>Rust_Prelude\<close>: machine integers are words, \<open>usize\<close> is a natural number of a 64-bit target, \<open>result\<close>
    is Rust's \<open>Result\<close> with the additional outcome \<open>Panic\<close> (index out of range, overflow as checked in a debug
    build, failed \<open>unwrap\<close>), \<open>rbind\<close> is the \<open>?\<close> operator. \<open>Btree\<close> models \<open>BTreeMap\<close> as a sorted association
    list, with the map laws as a locale and its interpretation.
  \<^item> A loop whose termination depends on the data is a \<open>partial_function (option)\<close>: \<open>None\<close> is divergence, and
    termination is then a theorem (\<open>Causal_Topo\<close>, \<open>Runtime_Tasks\<close>, \<open>Runtime_Tiers\<close>, \<open>Store_Read\<close>, \<open>Branch_Timeline\<close>,
    \<open>Eks_Provenance\<close>). No fuel is
    used anywhere.
  \<^item> What lies outside the workspace is a parameter: \<open>crc\<close> is the checksum of the crate \<open>crc32fast\<close>, \<open>alloc\<close>
    decides whether a fallible reservation succeeds, \<open>score\<close> is the measured score of a codec, and the iteration
    order of a \<open>HashMap\<close> is a list of its keys. A theorem that needs memory assumes \<open>alloc\<close> to succeed.
    Infallible allocations are taken to succeed.
  \<^item> A file is its bytes and a directory a map from names to bytes; operations return them afterwards. Where a
    write may be interrupted its outcome is a parameter (\<open>write_outcome\<close>).

  \<^bold>\<open>Theories and the code they model\<close> (paths under \<open>src/crates\<close>)
  \<^item> \<open>Core_Types\<close>: \<open>temnion-core\<close>, identities, timestamps, time ranges.
  \<^item> \<open>State_Slab\<close>: \<open>temnion-state\<close>, the generational slab. It refines a map from handles to values; removed
    handles stay invalid; capacity and iteration are exact.
  \<^item> \<open>Event_Log\<close>: \<open>temnion-events\<close>, the volatile log. Batches are atomic and equal to single appends; identities
    are positions; paging is complete, with any budgets, within as many requests as there are events.
  \<^item> \<open>Codec_Frame\<close>, \<open>Codec_Rle\<close>, \<open>Bit_Stream\<close>, \<open>Codec_Pack\<close>, \<open>Codec_Xor\<close>, \<open>Codec_Select\<close>: \<open>temnion-codec\<close>. Four
    codecs are lossless; the XOR codec is lossless exactly on a class of inputs and otherwise panics.
    Selection is lossless and best by score among the candidates that are smaller than raw.
  \<^item> \<open>Causal_Graph\<close>, \<open>Causal_Trace\<close>, \<open>Causal_Topo\<close>, \<open>Causal_Csr\<close>: \<open>temnion-causal\<close>. Acyclicity is invariant,
    traces are shortest paths, sorting is topological, packing is faithful.
  \<^item> \<open>Wal_Format\<close>, \<open>Wal_Segment\<close>: \<open>temnion-format\<close>. Each decoder accepts exactly what its encoder produces.
  \<^item> \<open>Runtime_Shards\<close>, \<open>Runtime_Tasks\<close>, \<open>Runtime_Tiers\<close>: \<open>temnion-runtime\<close>. Fanout queries, the task graph and
    the tiered cache.
  \<^item> \<open>Index_Summary\<close>, \<open>Index_Segment\<close>, \<open>Index_Morton\<close>, \<open>Index_Boxes\<close>, \<open>Index_Projection\<close>,
    \<open>Index_Projection_Codec\<close>: \<open>temnion-index\<close>. Pruning never loses a record at block level, Morton intervals
    cover boxes exactly, intersection queries are exact, and both index files round-trip.
  \<^item> \<open>Store_Manifest\<close> (\<open>manifest.rs\<close>), \<open>Store_Lifecycle\<close> (\<open>lifecycle.rs\<close>), \<open>Store_Log\<close>, \<open>Store_Recovery\<close>,
    \<open>Store_Read\<close>, \<open>Store_Queries\<close>, \<open>Store_Seal\<close>, \<open>Store_Retire\<close>, \<open>Store_Compaction\<close> (\<open>lib.rs\<close>): \<open>temnion-storage\<close>, on top of the
    format and the index. Acknowledged appends survive a crash at any point of a later append; history pages
    are exact although frames are skipped by summaries; retention respects holds; sealing and retiring the log
    keeps every event readable, unless a crash falls between the truncation and the saving of the manifest.
  \<^item> \<open>Utf8\<close>: validity and characters of UTF-8 texts, used by every decoder of names.
  \<^item> \<open>Schema_Types\<close>, \<open>Schema_Codec\<close>, \<open>Schema_Exact\<close>: \<open>temnion-schema\<close>. Mutations keep states well-typed; the
    decoders of mutations and schemas accept exactly what the encoders produce.
  \<^item> \<open>Replay_Checkpoint\<close>, \<open>Replay_State\<close>, \<open>Replay_Engine\<close>, \<open>Replay_Exact\<close>: \<open>temnion-replay\<close>, on the store and the
    schemas. State encodings round-trip; reconstruction from any faithful checkpoint equals playing back the
    whole log, as far as one page of history reaches.
  \<^item> \<open>Branch_Manager\<close>, \<open>Branch_Timeline\<close>: \<open>temnion-branch\<close>, on the store and replay. Timelines of the manifests
    that the manager builds are resolved exactly, and resolving them terminates.
  \<^item> \<open>Rust_Float\<close>: comparisons of doubles on their bit patterns.
  \<^item> \<open>Eks_Beliefs\<close>, \<open>Eks_Maintenance\<close>, \<open>Eks_Provenance\<close>, \<open>Eks_Ledger\<close>: \<open>temnion-eks\<close>. Active beliefs never contradict
    each other; retraction and \<open>WHY\<close> traces are exact and terminate when premises name earlier beliefs, and do not
    return otherwise; Brier scores depend only on what was known; the active tier is bounded.
  \<^item> \<open>Query_Expr\<close>, \<open>Query_Grammar\<close>, \<open>Query_Exec\<close>: \<open>temnion-query\<close>, on the store. The parser of scalar expressions
    implements its grammar exactly; a storage scan answers exactly from the beginning of the log that one page of
    history reaches.
  \<^item> \<open>Protocol_Packets\<close>, \<open>Protocol_Payloads\<close>, \<open>Protocol_Channel\<close>, \<open>Protocol_Hub\<close>, \<open>Protocol_Columns\<close>:
    \<open>temnion-protocol\<close>. Packets are framed exactly and delivered however the stream is fragmented; payloads
    round-trip, subscription requests in their two consistent forms; live delivery is exact up to the capacity of a queue; the replay of a subscription loses events.

  \<^bold>\<open>Interfaces.\<close> The locales state what one part relies on: ordered maps (\<open>Btree\<close>), conservative summaries
  (\<open>Index_Summary\<close>: zone maps, time zones and Bloom filters never exclude what was added), key codecs
  (\<open>Index_Projection_Codec\<close>) and others; each is interpreted on the definitions of the model.

  \<^bold>\<open>Not modelled.\<close> Display implementations and error texts other than those that are values; the directory lock,
  directory synchronisation and the copying of backup directories; the query languages TemQL, compact Tem and SQL
  and the server's dispatcher that uses them, which are string manipulation around the modelled plans; the C
  interface; the crates \<open>temnion-transform\<close> and \<open>temnion-evolution\<close>; the crates \<open>temnion-adapter\<close>,
  \<open>temnion-flight\<close> and \<open>temnion-mcp\<close> and the applications, which connect the system to JSON, Arrow, sockets
  and the command line through foreign libraries.
\<close>

end
